(* ===== verification/Prelude.thy ===== *)
theory Prelude
  imports Main "HOL-Library.Word" "HOL-Library.Monad_Syntax" "HOL-Library.Char_ord"
begin

text \<open>
  Shared vocabulary of the development: bytes and C strings, the flat memory of a user
  process with its checked loads and stores, and the list facts about slices that the
  component theories use.

  A C \<open>char\<close> is one byte.  It is represented by the type \<^typ>\<open>char\<close>, so that the
  string literals of the source can be written as they are; \<open>of_char\<close> gives its value
  from 0 to 255 (on RISC-V a plain \<open>char\<close> is unsigned).

  A user process of this kernel owns the addresses from 0 up to its size, contiguously, so
  its memory is a byte list and an address is an index.  An access outside of the list is a
  page fault, on which the kernel kills the process: it is the value \<^term>\<open>None\<close>.
\<close>

named_theorems mem_simps \<open>loads and stores that succeed\<close>
named_theorems segment_simps \<open>slices of lists\<close>

type_synonym byte = char
type_synonym mem = "byte list"
type_synonym addr = nat
type_synonym uint = "32 word"
type_synonym uint64 = "64 word"

abbreviation NUL :: char where "NUL \<equiv> CHR 0x00"
abbreviation LF :: char where "LF \<equiv> CHR 0x0A"

definition byte_of :: "byte \<Rightarrow> int" where
  "byte_of c = of_char c"

definition load :: "mem \<Rightarrow> addr \<Rightarrow> byte option" where
  "load m p = (if p < length m then Some (m ! p) else None)"

definition store :: "mem \<Rightarrow> addr \<Rightarrow> byte \<Rightarrow> mem option" where
  "store m p c = (if p < length m then Some (m[p := c]) else None)"

definition segment :: "nat \<Rightarrow> nat \<Rightarrow> 'a list \<Rightarrow> 'a list" where
  "segment i j xs = take (j - i) (drop i xs)"

definition overlay :: "'a list \<Rightarrow> nat \<Rightarrow> 'a list \<Rightarrow> 'a list" where
  "overlay xs i ys = take i xs @ ys @ drop (i + length ys) xs"

text \<open>The bytes at \<open>p\<close> are the C string \<open>s\<close>: its characters, none of them NUL, and a NUL.\<close>

definition cstring :: "mem \<Rightarrow> addr \<Rightarrow> string \<Rightarrow> bool" where
  "cstring m p s \<longleftrightarrow> NUL \<notin> set s \<and> p + length s < length m \<and>
     segment p (p + length s) m = s \<and> m ! (p + length s) = NUL"

text \<open>Loads and stores.\<close>

lemma load_Some [mem_simps]: "p < length m \<Longrightarrow> load m p = Some (m ! p)"
  by (simp add: load_def)

lemma load_eq_Some: "load m p = Some c \<longleftrightarrow> p < length m \<and> m ! p = c"
  by (auto simp: load_def)

lemma load_eq_None: "load m p = None \<longleftrightarrow> length m \<le> p"
  by (auto simp: load_def)

lemma store_Some [mem_simps]: "p < length m \<Longrightarrow> store m p c = Some (m[p := c])"
  by (simp add: store_def)

lemma store_eq_Some: "store m p c = Some m' \<longleftrightarrow> p < length m \<and> m' = m[p := c]"
  by (auto simp: store_def)

lemma store_length: "store m p c = Some m' \<Longrightarrow> length m' = length m"
  by (auto simp: store_eq_Some)

text \<open>Byte values.\<close>

lemma byte_of_eq_iff [simp]: "byte_of a = byte_of b \<longleftrightarrow> a = b"
  by (simp add: byte_of_def)

lemma byte_of_NUL [simp]: "byte_of NUL = 0"
  by (simp add: byte_of_def)

lemma byte_of_eq_0 [simp]: "byte_of c = 0 \<longleftrightarrow> c = NUL"
  using byte_of_eq_iff [of c NUL] by (simp del: byte_of_eq_iff)

text \<open>Machine words.\<close>

lemma unat_uint_less: "unat (x :: uint) < 2 ^ 32"
  using unsigned_less [of x] by simp

lemma sint_uint32:
  "sint (x :: uint) = (if uint x < 2 ^ 31 then uint x else uint x - 2 ^ 32)"
proof -
  have s: "sint x = (uint x + 2 ^ 31) mod 2 ^ 32 - 2 ^ 31"
    by (simp add: sint_uint signed_take_bit_eq_take_bit_shift take_bit_eq_mod)
  have b: "0 \<le> uint x" "uint x < 2 ^ 32"
    using unsigned_less [of x, where ?'a = int] by simp_all
  show ?thesis
  proof (cases "uint x < 2 ^ 31")
    case True
    with b have "(uint x + 2 ^ 31) mod 2 ^ 32 = uint x + 2 ^ 31" by (intro mod_pos_pos_trivial) simp_all
    with True s show ?thesis by simp
  next
    case False
    have "(uint x + 2 ^ 31) mod 2 ^ 32 = (uint x - 2 ^ 31 + 2 ^ 32) mod 2 ^ 32" by (simp add: add.commute)
    also have "\<dots> = (uint x - 2 ^ 31) mod 2 ^ 32" by (simp only: mod_add_self2)
    also have "\<dots> = uint x - 2 ^ 31" using False b by (intro mod_pos_pos_trivial) simp_all
    finally show ?thesis using False s by simp
  qed
qed

lemma of_nat_small: "n < 2 ^ 31 \<Longrightarrow> unat (of_nat n :: uint) = n \<and> sint (of_nat n :: uint) = int n"
  by (simp add: unat_of_nat sint_uint unsigned_of_nat take_bit_nat_eq_self signed_take_bit_int_eq_self)

text \<open>Slices.\<close>

lemma length_segment [simp]: "j \<le> length xs \<Longrightarrow> length (segment i j xs) = j - i"
  by (simp add: segment_def)

lemma segment_empty [simp]: "j \<le> i \<Longrightarrow> segment i j xs = []"
  by (simp add: segment_def)

lemma segment_full [simp]: "length xs \<le> j \<Longrightarrow> segment 0 j xs = xs"
  by (simp add: segment_def)

lemma nth_segment [segment_simps]: "i + k < j \<Longrightarrow> j \<le> length xs \<Longrightarrow> segment i j xs ! k = xs ! (i + k)"
  by (simp add: segment_def)

lemma set_segment_nth: "i \<le> k \<Longrightarrow> k < j \<Longrightarrow> j \<le> length xs \<Longrightarrow> xs ! k \<in> set (segment i j xs)"
  using nth_segment [of i "k - i" j xs] length_segment [of j xs i]
  by (metis diff_less_mono le_add_diff_inverse nth_mem)

lemma segment_eqI:
  assumes "j \<le> length xs" and "j \<le> length ys" and "\<And>k. i \<le> k \<Longrightarrow> k < j \<Longrightarrow> xs ! k = ys ! k"
  shows "segment i j xs = segment i j ys"
  using assms by (intro nth_equalityI) (simp_all add: segment_simps)

lemma segment_update_outside [segment_simps]: "k < i \<or> j \<le> k \<Longrightarrow> segment i j (xs[k := c]) = segment i j xs"
  by (rule nth_equalityI) (auto simp: segment_def nth_list_update)

lemma segment_Cons: "i < j \<Longrightarrow> j \<le> length xs \<Longrightarrow> segment i j xs = xs ! i # segment (Suc i) j xs"
  by (simp add: segment_def Cons_nth_drop_Suc [symmetric] Suc_diff_Suc [symmetric])

lemma segment_append_adjacent:
  assumes "i \<le> j" and "j \<le> k"
  shows "segment i j xs @ segment j k xs = segment i k xs"
proof -
  have "take (k - i) (drop i xs) = take ((j - i) + (k - j)) (drop i xs)" using assms by simp
  also have "\<dots> = take (j - i) (drop i xs) @ take (k - j) (drop (j - i) (drop i xs))"
    by (rule take_add)
  finally show ?thesis using assms by (simp add: segment_def)
qed

lemma length_overlay [simp]: "i + length ys \<le> length xs \<Longrightarrow> length (overlay xs i ys) = length xs"
  by (simp add: overlay_def)

lemma nth_overlay:
  assumes "i + length ys \<le> length xs" and "k < length xs"
  shows "overlay xs i ys ! k = (if i \<le> k \<and> k < i + length ys then ys ! (k - i) else xs ! k)"
  using assms by (auto simp: overlay_def nth_append)

lemma overlay_eqI:
  assumes "length zs = length xs" and "i + length ys \<le> length xs"
    and "\<And>k. k < length xs \<Longrightarrow>
      zs ! k = (if i \<le> k \<and> k < i + length ys then ys ! (k - i) else xs ! k)"
  shows "zs = overlay xs i ys"
  using assms by (intro nth_equalityI) (simp_all add: nth_overlay)

text \<open>C strings.\<close>

lemma cstring_char: "cstring m p s \<Longrightarrow> k < length s \<Longrightarrow> m ! (p + k) = s ! k"
  using nth_segment [of p k "p + length s" m] by (simp add: cstring_def)

lemma cstring_load: "cstring m p s \<Longrightarrow> k < length s \<Longrightarrow> load m (p + k) = Some (s ! k)"
  by (auto simp: load_eq_Some cstring_char) (simp add: cstring_def)

lemma cstring_end: "cstring m p s \<Longrightarrow> load m (p + length s) = Some NUL"
  by (simp add: cstring_def load_def)

lemma cstring_Nil [simp]: "cstring m p [] \<longleftrightarrow> p < length m \<and> m ! p = NUL"
  by (auto simp: cstring_def)

lemma cstring_Cons [simp]:
  "cstring m p (c # s) \<longleftrightarrow> c \<noteq> NUL \<and> p < length m \<and> m ! p = c \<and> cstring m (Suc p) s"
proof -
  have "segment p (p + length (c # s)) m = m ! p # segment (Suc p) (p + length (c # s)) m"
    if "p + length (c # s) < length m" using that by (intro segment_Cons) auto
  then show ?thesis by (auto simp: cstring_def)
qed

lemma cstring_unique: "cstring m p s \<Longrightarrow> cstring m p t \<Longrightarrow> s = t"
  by (induction s arbitrary: p t; case_tac t) auto

text \<open>The string at an address: the bytes up to the next NUL.\<close>

definition string_at :: "mem \<Rightarrow> nat \<Rightarrow> string" where
  "string_at m p = takeWhile (\<lambda>c. c \<noteq> NUL) (drop p m)"

lemma string_at_cstring: "cstring m p t \<Longrightarrow> string_at m p = t"
proof -
  assume c: "cstring m p t"
  then have l: "p + length t < length m" and nn: "NUL \<notin> set t" and e: "m ! (p + length t) = NUL"
    and sg: "segment p (p + length t) m = t" by (auto simp: cstring_def)
  have "drop p m = segment p (p + length t) m @ drop (p + length t) m"
    by (simp add: segment_def) (metis add.commute append_take_drop_id drop_drop)
  also have "\<dots> = t @ NUL # drop (Suc (p + length t)) m" using sg e l Cons_nth_drop_Suc [OF l] by simp
  finally have d: "drop p m = t @ NUL # drop (Suc (p + length t)) m" .
  have "takeWhile (\<lambda>c. c \<noteq> NUL) t = t" using nn by (auto simp: takeWhile_eq_all_conv)
  then show ?thesis unfolding string_at_def d by (simp add: takeWhile_tail)
qed

lemma cstring_intro:
  assumes "p + k < length m" and "m ! (p + k) = NUL" and "\<And>j. j < k \<Longrightarrow> m ! (p + j) \<noteq> NUL"
  shows "cstring m p (segment p (p + k) m)"
proof -
  have "NUL \<notin> set (segment p (p + k) m)"
  proof
    assume "NUL \<in> set (segment p (p + k) m)"
    then obtain j where "j < k" "segment p (p + k) m ! j = NUL" using assms(1) by (auto simp: in_set_conv_nth)
    with assms(1,3) nth_segment [of p j "p + k" m] show False by auto
  qed
  with assms(1,2) show ?thesis by (simp add: cstring_def)
qed

text \<open>Where a NUL is in reach, the string ends before it.\<close>

lemma cstring_reach:
  assumes "p + n < length m" and "m ! (p + n) = NUL"
  shows "cstring m p (string_at m p) \<and> length (string_at m p) \<le> n"
proof -
  define k where "k = (LEAST j. m ! (p + j) = NUL)"
  have k: "m ! (p + k) = NUL" "k \<le> n" unfolding k_def using assms(2) by (auto intro: LeastI Least_le)
  have "m ! (p + j) \<noteq> NUL" if "j < k" for j using that not_less_Least unfolding k_def by blast
  from cstring_intro [OF _ k(1) this] k(2) assms(1) have c: "cstring m p (segment p (p + k) m)" by simp
  from string_at_cstring [OF c] have "string_at m p = segment p (p + k) m" .
  with c k(2) assms(1) show ?thesis by simp
qed

text \<open>Four digits to the base 256.\<close>

lemma base256:
  fixes n :: nat
  assumes "n < 2 ^ 32"
  shows "(\<Sum>j<4. n div 256 ^ j mod 256 * 256 ^ j) = n"
proof -
  define a where "a = n div 256"
  define b where "b = a div 256"
  define c where "c = b div 256"
  have "n = 256 * a + n mod 256" "a = 256 * b + a mod 256" "b = 256 * c + b mod 256" by (simp_all add: a_def b_def c_def)
  then have e: "n = n mod 256 + (a mod 256) * 256 + (b mod 256) * 65536 + c * 16777216" by linarith
  have "c = n div 16777216" by (simp add: a_def b_def c_def div_mult2_eq [symmetric])
  then have c: "c mod 256 = c" using assms by simp
  have p: "n div 256 ^ 0 = n" "n div 256 ^ 1 = a" "n div 256 ^ 2 = b" "n div 256 ^ 3 = c"
    by (simp_all add: a_def b_def c_def div_mult2_eq [symmetric])
  have "{..<4 :: nat} = {0, 1, 2, 3}" by auto
  then have "(\<Sum>j<4. n div 256 ^ j mod 256 * 256 ^ j) = n mod 256 + (a mod 256) * 256 + (b mod 256) * 65536 + c * 16777216"
    using p c by simp
  then show ?thesis using e by simp
qed

end
