(* ===== verification/Umalloc.thy ===== *)
theory Umalloc
  imports Prelude
begin

text \<open>
  The Kernighan and Ritchie allocator, \<^verbatim>\<open>src/user/ulib/umalloc.c\<close>.  A header is 16 bytes; the state
  holds the two fields of the headers by address, and \<open>freep\<close> (0 is the null pointer).  The free
  list is circular; \<open>base\<close> is the address of the static header.  Addresses are byte addresses, so
  \<open>bp + bp->s.size\<close> of the source is \<open>bp + 16 * size bp\<close>.  A search that does not end is
  \<^term>\<open>None\<close>.  \<open>sbrk\<close> is the system call, a parameter that may fail and acts on a state of its own;
  its argument is an \<open>int\<close>, to which the source truncates \<open>nu * sizeof(Header)\<close>.
\<close>

subsection \<open>Definitions\<close>

record umem =
  s_ptr :: "nat \<Rightarrow> nat"
  s_size :: "nat \<Rightarrow> nat"
  freep :: nat

definition fin :: "umem \<Rightarrow> nat \<Rightarrow> nat" where
  "fin m p = p + 16 * s_size m p"

partial_function (option) free_search :: "umem \<Rightarrow> nat \<Rightarrow> nat \<Rightarrow> nat option" where
  "free_search m bp p =
     (if bp > p \<and> bp < s_ptr m p then Some p
      else if p \<ge> s_ptr m p \<and> (bp > p \<or> bp < s_ptr m p) then Some p
      else free_search m bp (s_ptr m p))"

definition join_next :: "nat \<Rightarrow> nat \<Rightarrow> umem \<Rightarrow> umem" where
  "join_next bp p m =
     (if fin m bp = s_ptr m p
      then m\<lparr>s_size := (s_size m)(bp := s_size m bp + s_size m (s_ptr m p)),
             s_ptr := (s_ptr m)(bp := s_ptr m (s_ptr m p))\<rparr>
      else m\<lparr>s_ptr := (s_ptr m)(bp := s_ptr m p)\<rparr>)"

definition join_prev :: "nat \<Rightarrow> nat \<Rightarrow> umem \<Rightarrow> umem" where
  "join_prev bp p m =
     (if fin m p = bp
      then m\<lparr>s_size := (s_size m)(p := s_size m p + s_size m bp), s_ptr := (s_ptr m)(p := s_ptr m bp)\<rparr>
      else m\<lparr>s_ptr := (s_ptr m)(p := bp)\<rparr>)"

definition free :: "nat \<Rightarrow> umem \<Rightarrow> umem option" where
  "free ap m =
     (let bp = ap - 16
      in map_option (\<lambda>p. (join_prev bp p (join_next bp p m))\<lparr>freep := p\<rparr>) (free_search m bp (freep m)))"

text \<open>\<open>morecore\<close>: the outer option is the search in \<open>free\<close>, the inner one the null pointer.\<close>

type_synonym 's sbrk = "int \<Rightarrow> 's \<Rightarrow> nat option \<times> 's"

definition morecore :: "'s sbrk \<Rightarrow> nat \<Rightarrow> umem \<Rightarrow> 's \<Rightarrow> (nat option \<times> umem \<times> 's) option" where
  "morecore sbrk nu m s =
     (let nu = (if nu < 4096 then 4096 else nu)
      in case sbrk (sint (of_nat (nu * 16) :: uint)) s of
          (None, s') \<Rightarrow> Some (None, m, s')
        | (Some hp, s') \<Rightarrow>
            map_option (\<lambda>m'. (Some (freep m'), m', s')) (free (hp + 16) (m\<lparr>s_size := (s_size m)(hp := nu)\<rparr>)))"

text \<open>Taking \<open>n\<close> units from the block \<open>p\<close>: the whole block, or its tail.\<close>

definition take_block :: "nat \<Rightarrow> nat \<Rightarrow> nat \<Rightarrow> umem \<Rightarrow> nat \<times> umem" where
  "take_block n prevp p m =
     (if s_size m p = n then (p + 16, m\<lparr>s_ptr := (s_ptr m)(prevp := s_ptr m p), freep := prevp\<rparr>)
      else let p' = p + 16 * (s_size m p - n)
           in (p' + 16, m\<lparr>s_size := (s_size m)(p := s_size m p - n, p' := n), freep := prevp\<rparr>))"

partial_function (option) malloc_loop ::
  "'s sbrk \<Rightarrow> nat \<Rightarrow> nat \<Rightarrow> nat \<Rightarrow> umem \<Rightarrow> 's \<Rightarrow> (nat \<times> umem \<times> 's) option" where
  "malloc_loop sbrk n prevp p m s =
     (if s_size m p \<ge> n then (case take_block n prevp p m of (ap, m') \<Rightarrow> Some (ap, m', s))
      else if p = freep m then
        (case morecore sbrk n m s of
           None \<Rightarrow> None
         | Some (None, m', s') \<Rightarrow> Some (0, m', s')
         | Some (Some q, m', s') \<Rightarrow> malloc_loop sbrk n q (s_ptr m' q) m' s')
      else malloc_loop sbrk n p (s_ptr m p) m s)"

definition malloc :: "nat \<Rightarrow> 's sbrk \<Rightarrow> nat \<Rightarrow> umem \<Rightarrow> 's \<Rightarrow> (nat \<times> umem \<times> 's) option" where
  "malloc base sbrk nbytes m s =
     (let nunits = (nbytes + 16 - 1) div 16 + 1;
          m = (if freep m = 0
               then m\<lparr>s_ptr := (s_ptr m)(base := base), freep := base, s_size := (s_size m)(base := 0)\<rparr> else m)
      in malloc_loop sbrk nunits (freep m) (s_ptr m (freep m)) m s)"

subsection \<open>The free list\<close>

text \<open>
  \<open>chain m p bs q\<close>: from \<open>p\<close> the pointers lead through the blocks \<open>bs\<close> to \<open>q\<close>; every block begins behind
  the end of the one before, with a gap.
\<close>

fun chain :: "umem \<Rightarrow> nat \<Rightarrow> nat list \<Rightarrow> nat \<Rightarrow> bool" where
  "chain m p [] q \<longleftrightarrow> s_ptr m p = q"
| "chain m p (b # bs) q \<longleftrightarrow> s_ptr m p = b \<and> fin m p < b \<and> 0 < s_size m b \<and> chain m b bs q"

definition ring :: "nat \<Rightarrow> umem \<Rightarrow> nat list \<Rightarrow> bool" where
  "ring base m bs \<longleftrightarrow> chain m base bs base \<and> s_size m base = 0 \<and> freep m \<in> set (base # bs)"

text \<open>\<open>lead\<close> is the part of the list up to \<open>p\<close>.\<close>

definition lead :: "umem \<Rightarrow> nat \<Rightarrow> nat list \<Rightarrow> nat \<Rightarrow> bool" where
  "lead m base zs p \<longleftrightarrow> (case zs of [] \<Rightarrow> p = base
     | z # zs' \<Rightarrow> z = base \<and> chain m base zs' p \<and> fin m (last zs) < p \<and> 0 < s_size m p)"

lemma fin_ge: "p \<le> fin m p"
  by (simp add: fin_def)

lemma chain_append: "chain m p (xs @ b # ys) q \<longleftrightarrow>
    chain m p xs b \<and> fin m (last (p # xs)) < b \<and> 0 < s_size m b \<and> chain m b ys q"
  by (induction xs arbitrary: p) auto

lemma chain_above: "chain m p bs q \<Longrightarrow> b \<in> set bs \<Longrightarrow> fin m p < b"
proof (induction bs arbitrary: p)
  case (Cons c bs)
  then show ?case using fin_ge [of c m] by (auto intro: less_trans le_less_trans)
qed simp

lemma chain_cong:
  "chain m p bs q \<Longrightarrow> (\<And>b. b \<in> set (p # bs) \<Longrightarrow> s_ptr m' b = s_ptr m b \<and> s_size m' b = s_size m b) \<Longrightarrow> chain m' p bs q"
  by (induction bs arbitrary: p) (auto simp: fin_def)

lemma chain_retarget:
  assumes c: "chain m p bs q" and ptr: "s_ptr m' p' = s_ptr m p" and f: "bs \<noteq> [] \<Longrightarrow> fin m' p' < hd bs"
    and same: "\<And>b. b \<in> set bs \<Longrightarrow> s_ptr m' b = s_ptr m b \<and> s_size m' b = s_size m b"
  shows "chain m' p' bs q"
proof (cases bs)
  case (Cons b bs')
  from c have "chain m b bs' q" "s_ptr m p = b" "0 < s_size m b" unfolding Cons by simp_all
  moreover have "chain m' b bs' q"
    using calculation(1) by (rule chain_cong) (rule same, simp add: Cons)
  ultimately show ?thesis using ptr f same [of b] unfolding Cons by simp
qed (use c ptr in simp)

lemma chain_fin_last: "chain m a as r \<Longrightarrow> b \<in> set (a # as) \<Longrightarrow> fin m b \<le> fin m (last (a # as))"
proof (induction as arbitrary: a b)
  case (Cons c cs)
  then have ac: "fin m a < c" and ih: "fin m x \<le> fin m (last (c # cs))" if "x \<in> set (c # cs)" for x
    using that by simp_all
  have "fin m a \<le> fin m c" using Cons.prems(1) fin_ge [of c m] by simp
  with ih [of c] have "fin m a \<le> fin m (last (c # cs))" by simp
  with ih Cons.prems(2) show ?case by (cases "b = a") simp_all
qed simp

lemma ring_split:
  assumes "chain m base bs base" and "p \<in> set (base # bs)"
  shows "\<exists>zs ys. base # bs = zs @ p # ys \<and> lead m base zs p \<and> chain m p ys base"
proof (cases "p = base")
  case True
  with assms(1) show ?thesis by (intro exI [of _ "[]"] exI [of _ bs]) (simp add: lead_def)
next
  case False
  with assms(2) obtain xs ys where bs: "bs = xs @ p # ys" by (auto dest: split_list)
  with assms(1) show ?thesis
    by (intro exI [of _ "base # xs"] exI [of _ ys]) (simp add: lead_def chain_append)
qed

lemma ring_join: "lead m base zs p \<Longrightarrow> chain m p ys base \<Longrightarrow> chain m base (tl (zs @ p # ys)) base"
  by (cases zs) (simp_all add: lead_def chain_append)

lemma lead_below: "lead m base zs p \<Longrightarrow> z \<in> set zs \<Longrightarrow> fin m z < p \<and> base \<le> z"
proof (cases zs)
  case (Cons z0 zs')
  assume l: "lead m base zs p" and z: "z \<in> set zs"
  then have c: "chain m base zs' p" and last: "fin m (last (base # zs')) < p" and z0: "z0 = base"
    using Cons by (auto simp: lead_def)
  have "fin m z < p" using chain_fin_last [OF c, of z] z Cons z0 last by simp
  moreover have "base \<le> z" using chain_above [OF c, of z] fin_ge [of base m] z Cons z0 by auto
  ultimately show ?thesis by blast
qed simp

lemma lead_Cons: "lead m base (z # zs) p \<longleftrightarrow>
    z = base \<and> chain m base zs p \<and> fin m (last (z # zs)) < p \<and> 0 < s_size m p"
  by (simp add: lead_def)

lemma lead_cong:
  assumes l: "lead m base zs p" and same: "\<And>b. b \<in> set zs \<Longrightarrow> s_ptr m' b = s_ptr m b \<and> s_size m' b = s_size m b"
    and sz: "zs \<noteq> [] \<Longrightarrow> 0 < s_size m' p"
  shows "lead m' base zs p"
proof (cases zs)
  case (Cons z zs')
  from l have c: "z = base" "chain m base zs' p" "fin m (last (z # zs')) < p" unfolding Cons lead_Cons by blast+
  have same': "s_ptr m' b = s_ptr m b \<and> s_size m' b = s_size m b" if "b \<in> set (base # zs')" for b
    using same [of b] that c(1) unfolding Cons by simp
  have "chain m' base zs' p" by (rule chain_cong [OF c(2) same'])
  moreover have "last (z # zs') \<in> set (base # zs')" using last_in_set [of "z # zs'"] c(1) by blast
  then have "fin m' (last (z # zs')) = fin m (last (z # zs'))" using same' unfolding fin_def by simp
  ultimately show ?thesis using sz c unfolding Cons lead_Cons by simp
qed (use l in \<open>simp add: lead_def\<close>)

lemma lead_base: "lead m base zs p \<Longrightarrow> base \<le> p"
proof (cases zs)
  case (Cons z zs')
  assume l: "lead m base zs p"
  then have "z = base" unfolding Cons lead_Cons by blast
  with lead_below [OF l, of z] fin_ge [of z m] show ?thesis unfolding Cons by simp
qed (simp add: lead_def)

subsection \<open>Finding the place of a block\<close>

lemma search_skip:
  "chain m p vs k \<Longrightarrow> fin m (last (p # vs)) < k \<Longrightarrow> k < bp \<Longrightarrow> free_search m bp p = free_search m bp k"
proof (induction vs arbitrary: p)
  case Nil
  then have "s_ptr m p = k" "p < k" using fin_ge [of p m] by simp_all
  with Nil show ?case by (subst free_search.simps) simp
next
  case (Cons v vs)
  then have v: "s_ptr m p = v" "fin m p < v" "chain m v vs k" "fin m (last (v # vs)) < k" by simp_all
  have "p < v" using v(2) fin_ge [of p m] by simp
  moreover have "v < k" using chain_fin_last [OF v(3), of v] v(4) fin_ge [of v m] by simp
  moreover have "free_search m bp v = free_search m bp k" using Cons.IH [OF v(3,4) Cons.prems(3)] .
  ultimately show ?case using v(1) Cons.prems(3) by (subst free_search.simps) simp
qed

lemma search_wrap: "chain m p vs base \<Longrightarrow> bp < p \<Longrightarrow> base < bp \<Longrightarrow> free_search m bp p = free_search m bp base"
proof (induction vs arbitrary: p)
  case Nil
  then show ?case by (subst free_search.simps) simp
next
  case (Cons v vs)
  then have v: "s_ptr m p = v" "fin m p < v" "chain m v vs base" by simp_all
  have "p < v" using v(2) fin_ge [of p m] by simp
  moreover from this have "free_search m bp v = free_search m bp base" using Cons by (intro Cons.IH) simp_all
  ultimately show ?case using v(1) Cons.prems(2) by (subst free_search.simps) simp
qed

lemma lead_chain: "lead m base (us @ p # vs) k \<Longrightarrow> chain m p vs k \<and> fin m (last (p # vs)) < k"
  by (cases us) (auto simp: lead_def chain_append split: if_splits)

lemma lead_hd: "lead m base zs k \<Longrightarrow> zs \<noteq> [] \<Longrightarrow> base \<in> set zs"
  by (auto simp: lead_def split: list.splits)

lemma search_place:
  assumes l: "lead m base zs k" and c: "chain m k ys base" and k: "k < bp" and ys: "ys \<noteq> [] \<Longrightarrow> bp < hd ys"
    and bp: "base < bp" and p: "p \<in> set (zs @ k # ys)"
  shows "free_search m bp p = Some k"
proof -
  have at_k: "free_search m bp k = Some k"
  proof (cases ys)
    case Nil
    have "base \<le> k" using lead_base [OF l] .
    then show ?thesis using c k Nil by (subst free_search.simps) simp
  next
    case (Cons y ys')
    with c k ys show ?thesis by (subst free_search.simps) simp
  qed
  have before: "free_search m bp q = Some k" if "q \<in> set zs" for q
  proof -
    obtain us vs where "zs = us @ q # vs" using \<open>q \<in> set zs\<close> by (auto dest: split_list)
    with l lead_chain search_skip [OF _ _ k] at_k show ?thesis by metis
  qed
  have base: "free_search m bp base = Some k"
    using before lead_hd [OF l] at_k l by (cases zs) (auto simp: lead_def)
  consider "p \<in> set zs" | "p = k" | "p \<in> set ys" using p by auto
  then show ?thesis
  proof cases
    case 3
    then obtain us vs where s: "ys = us @ p # vs" by (auto dest: split_list)
    then have v: "chain m p vs base" using c by (simp add: chain_append)
    have "hd ys \<le> p"
    proof (cases us)
      case (Cons u us')
      then have "chain m u (us' @ p # vs) base" using c s by simp
      with chain_above [OF this, of p] fin_ge [of u m] show ?thesis unfolding s Cons by simp
    qed (simp add: s)
    then have "bp < p" using ys s by fastforce
    from search_wrap [OF v this bp] base show ?thesis by simp
  qed (use before at_k in simp_all)
qed

subsection \<open>free\<close>

definition block :: "umem \<Rightarrow> nat \<Rightarrow> nat set" where
  "block m b = {b..<fin m b}"

definition area :: "umem \<Rightarrow> nat list \<Rightarrow> nat set" where
  "area m bs = (\<Union>b \<in> set bs. block m b)"

lemma area_simps [simp]: "area m [] = {}" "area m (b # bs) = block m b \<union> area m bs" "area m (xs @ ys) = area m xs \<union> area m ys"
  by (auto simp: area_def)

lemma area_cong: "(\<And>b. b \<in> set bs \<Longrightarrow> s_size m' b = s_size m b) \<Longrightarrow> area m' bs = area m bs"
  by (simp add: area_def block_def fin_def)

lemma block_empty: "s_size m b = 0 \<Longrightarrow> block m b = {}"
  by (simp add: block_def fin_def)

lemma join_interval: "(a :: nat) \<le> b \<Longrightarrow> b \<le> c \<Longrightarrow> {a..<b} \<union> {b..<c} = {a..<c}"
  by auto

text \<open>Joining the next block leaves a chain from \<open>bp\<close>.\<close>

lemma join_next_ok:
  assumes c: "chain m p ys base" and bp: "base < bp" and sz: "0 < s_size m bp" and gap: "ys \<noteq> [] \<longrightarrow> fin m bp \<le> hd ys"
  defines "m1 \<equiv> join_next bp p m"
  shows "\<exists>Y. chain m1 bp Y base \<and> (\<forall>b. b \<noteq> bp \<longrightarrow> s_ptr m1 b = s_ptr m b \<and> s_size m1 b = s_size m b) \<and>
    0 < s_size m1 bp \<and> block m1 bp \<union> area m1 Y = block m bp \<union> area m ys \<and> set Y \<subseteq> set ys \<and> (\<forall>y \<in> set ys. bp < y) \<and>
    freep m1 = freep m"
proof -
  have above: "bp < y" if "y \<in> set ys" for y
  proof -
    from \<open>y \<in> set ys\<close> obtain y0 ys' where ys: "ys = y0 # ys'" by (cases ys) auto
    have "chain m y0 ys' base" using c unfolding ys by simp
    with chain_above [of m y0 ys' base y] that fin_ge [of y0 m] have "y0 \<le> y" unfolding ys by fastforce
    moreover have "bp < fin m bp" using sz by (simp add: fin_def)
    ultimately show ?thesis using gap unfolding ys by simp
  qed
  show ?thesis
  proof (cases "fin m bp = s_ptr m p")
    case True
    have nonempty: "ys \<noteq> []" using c True bp fin_ge [of bp m] by auto
    obtain y Y where ys: "ys = y # Y" by (rule list.exhaust [of ys]) (simp add: nonempty, blast)
    have y: "s_ptr m p = y" "chain m y Y base" using c ys by simp_all
    have m1: "m1 = m\<lparr>s_size := (s_size m)(bp := s_size m bp + s_size m y), s_ptr := (s_ptr m)(bp := s_ptr m y)\<rparr>"
      using True y(1) by (simp add: m1_def join_next_def)
    have f: "fin m1 bp = fin m y" using True y(1) by (simp add: m1 fin_def)
    have nb: "b \<noteq> bp" if "b \<in> set ys" for b using above [OF that] by simp
    have "chain m1 bp Y base"
    proof (rule chain_retarget [OF y(2)])
      show "fin m1 bp < hd Y" if "Y \<noteq> []" using that y(2) f by (cases Y) simp_all
    qed (use nb ys in \<open>auto simp: m1\<close>)
    moreover have "area m1 Y = area m Y" using nb ys by (intro area_cong) (auto simp: m1)
    moreover have "block m1 bp = block m bp \<union> block m y"
      using True y(1) f fin_ge [of bp m] fin_ge [of y m] join_interval [of bp "fin m bp" "fin m y"] by (simp add: block_def)
    ultimately show ?thesis using sz above ys by (intro exI [of _ Y]) (auto simp: m1)
  next
    case False
    have m1: "m1 = m\<lparr>s_ptr := (s_ptr m)(bp := s_ptr m p)\<rparr>"
      using False by (simp add: m1_def join_next_def)
    have f: "fin m1 b = fin m b" for b by (simp add: m1 fin_def)
    have "chain m1 bp ys base"
    proof (rule chain_retarget [OF c])
      show "fin m1 bp < hd ys" if "ys \<noteq> []"
        using that gap False c unfolding f by (cases ys) (auto simp: le_less)
    qed (use above in \<open>auto simp: m1\<close>)
    then show ?thesis using sz above by (intro exI [of _ ys]) (auto simp: m1 area_def block_def fin_def)
  qed
qed

lemma join_prev_ok:
  assumes l: "lead m1 base zs p" and c: "chain m1 bp Y base" and sz: "0 < s_size m1 bp" and s0: "s_size m1 base = 0"
    and gap: "fin m1 p \<le> bp" and bp: "base < bp"
  defines "m2 \<equiv> join_prev bp p m1"
  shows "\<exists>Y'. lead m2 base zs p \<and> chain m2 p Y' base \<and> s_size m2 base = 0 \<and>
    area m2 (zs @ p # Y') = area m1 (zs @ [p]) \<union> block m1 bp \<union> area m1 Y \<and> set Y' \<subseteq> insert bp (set Y) \<and>
    (\<forall>b. b \<noteq> p \<longrightarrow> s_ptr m2 b = s_ptr m1 b \<and> s_size m2 b = s_size m1 b)"
proof -
  have zs: "z < p" if "z \<in> set zs" for z using lead_below [OF l that] fin_ge [of z m1] by simp
  have p_bp: "p < bp \<or> fin m1 p = bp" using gap fin_ge [of p m1] by linarith
  have Y: "bp < y" if "y \<in> set Y" for y using chain_above [OF c that] fin_ge [of bp m1] by simp
  show ?thesis
  proof (cases "fin m1 p = bp")
    case True
    have pb: "p \<noteq> base" using True s0 bp by (auto simp: fin_def)
    then have sp: "0 < s_size m1 p" using l by (auto simp: lead_def split: list.splits)
    then have pbp: "p < bp" using True by (simp add: fin_def)
    have Y': "p \<notin> set Y"
    proof
      assume "p \<in> set Y"
      from Y [OF this] pbp show False by simp
    qed
    have m2: "m2 = m1\<lparr>s_size := (s_size m1)(p := s_size m1 p + s_size m1 bp), s_ptr := (s_ptr m1)(p := s_ptr m1 bp)\<rparr>"
      using True by (simp add: m2_def join_prev_def)
    have f: "fin m2 p = fin m1 bp" using True by (simp add: m2 fin_def)
    have "lead m2 base zs p" using sp zs by (intro lead_cong [OF l]) (auto simp: m2)
    moreover have "chain m2 p Y base"
    proof (rule chain_retarget [OF c])
      show "fin m2 p < hd Y" if "Y \<noteq> []" using that c f by (cases Y) simp_all
    qed (use Y' in \<open>auto simp: m2\<close>)
    moreover have "area m2 zs = area m1 zs" using zs by (intro area_cong) (auto simp: m2)
    moreover have "area m2 Y = area m1 Y" using Y' by (intro area_cong) (auto simp: m2)
    moreover have "block m2 p = block m1 p \<union> block m1 bp"
      using True f fin_ge [of p m1] fin_ge [of bp m1] join_interval [of p bp "fin m1 bp"] by (simp add: block_def)
    ultimately show ?thesis using s0 pb by (intro exI [of _ Y]) (auto simp: m2)
  next
    case False
    with p_bp have pbp: "p < bp" and fl: "fin m1 p < bp" using gap by auto
    have Y': "p \<notin> set Y"
    proof
      assume "p \<in> set Y"
      from Y [OF this] pbp show False by simp
    qed
    have m2: "m2 = m1\<lparr>s_ptr := (s_ptr m1)(p := bp)\<rparr>"
      using False by (simp add: m2_def join_prev_def)
    have f: "fin m2 b = fin m1 b" for b by (simp add: m2 fin_def)
    have "lead m2 base zs p" using zs l by (intro lead_cong [OF l]) (auto simp: m2 lead_def split: list.splits)
    moreover have "chain m2 bp Y base"
      using Y' pbp by (intro chain_cong [OF c]) (auto simp: m2)
    then have "chain m2 p (bp # Y) base" using sz fl by (simp add: m2 fin_def)
    moreover have "area m2 bs = area m1 bs" for bs by (intro area_cong) (simp add: m2)
    moreover have "block m2 b = block m1 b" for b by (simp add: block_def f)
    ultimately show ?thesis using s0 by (intro exI [of _ "bp # Y"]) (auto simp: m2)
  qed
qed

text \<open>The place of a block in the list: behind the last block that ends before it.\<close>

lemma place_exists:
  assumes c: "chain m base bs base" and s0: "s_size m base = 0" and bp: "base < bp"
    and dis: "\<forall>b \<in> set bs. fin m b \<le> bp \<or> fin m bp \<le> b"
  shows "\<exists>zs p ys. base # bs = zs @ p # ys \<and> lead m base zs p \<and> chain m p ys base \<and> fin m p \<le> bp \<and>
    (ys \<noteq> [] \<longrightarrow> fin m bp \<le> hd ys)"
proof -
  define A ys where "A = takeWhile (\<lambda>b. fin m b \<le> bp) (base # bs)" and "ys = dropWhile (\<lambda>b. fin m b \<le> bp) (base # bs)"
  have base: "fin m base \<le> bp" using s0 bp by (simp add: fin_def)
  then have A: "A \<noteq> []" by (simp add: A_def)
  have "base # bs = A @ ys" unfolding A_def ys_def by (rule takeWhile_dropWhile_id [symmetric])
  also have "A = butlast A @ [last A]" using A by simp
  finally have split: "base # bs = butlast A @ last A # ys" unfolding append_assoc append_Cons append_Nil .
  have lastA: "fin m (last A) \<le> bp"
    using set_takeWhileD [OF last_in_set [OF A, unfolded A_def]] unfolding A_def by blast
  have hdys: "fin m bp \<le> hd ys" if ne: "ys \<noteq> []"
  proof -
    have "\<not> fin m (hd ys) \<le> bp" using hd_dropWhile [OF ne [unfolded ys_def]] unfolding ys_def .
    moreover have "hd ys \<in> set (base # bs)" using hd_in_set [OF ne] unfolding split by simp
    ultimately show ?thesis using dis base by auto
  qed
  have "lead m base (butlast A) (last A) \<and> chain m (last A) ys base"
  proof (cases "butlast A")
    case Nil
    with split have "last A = base" "ys = bs" by simp_all
    with Nil c show ?thesis by (simp add: lead_def)
  next
    case (Cons z zs')
    with split have z: "z = base" "bs = zs' @ last A # ys" by simp_all
    from c show ?thesis unfolding Cons lead_Cons z(1) unfolding z(2) chain_append by blast
  qed
  with split lastA hdys show ?thesis by blast
qed

text \<open>Both joins at the place \<open>p\<close>.\<close>

lemma join_ok:
  assumes l: "lead m base zs p" and c: "chain m p ys base" and s0: "s_size m base = 0"
    and sz: "0 < s_size m bp" and bp: "base < bp" and pbp: "p < bp"
    and gap: "fin m p \<le> bp" "ys \<noteq> [] \<longrightarrow> fin m bp \<le> hd ys"
  defines "m2 \<equiv> join_prev bp p (join_next bp p m)"
  shows "\<exists>Y. lead m2 base zs p \<and> chain m2 p Y base \<and> s_size m2 base = 0 \<and>
    area m2 (zs @ p # Y) = area m (zs @ p # ys) \<union> block m bp \<and> set Y \<subseteq> insert bp (set ys) \<and>
    (\<forall>b. b \<noteq> p \<longrightarrow> b \<noteq> bp \<longrightarrow> s_size m2 b = s_size m b)"
proof -
  define m1 where "m1 = join_next bp p m"
  from join_next_ok [OF c bp sz gap(2)] obtain Y where
    Y: "chain m1 bp Y base" "\<forall>b. b \<noteq> bp \<longrightarrow> s_ptr m1 b = s_ptr m b \<and> s_size m1 b = s_size m b"
      "0 < s_size m1 bp" "block m1 bp \<union> area m1 Y = block m bp \<union> area m ys" "set Y \<subseteq> set ys" "freep m1 = freep m"
    unfolding m1_def [symmetric] by (elim exE conjE) (rule that)
  have zb: "z \<noteq> bp" if "z \<in> set (zs @ [p])" for z
    using that lead_below [OF l, of z] fin_ge [of z m] pbp by auto
  have l1: "lead m1 base zs p"
  proof (rule lead_cong [OF l])
    fix b
    assume "b \<in> set zs"
    then show "s_ptr m1 b = s_ptr m b \<and> s_size m1 b = s_size m b" using zb [of b] Y(2) by simp
  next
    assume "zs \<noteq> []"
    then obtain z zs' where "zs = z # zs'" by (cases zs) simp_all
    with l have "0 < s_size m p" by (simp add: lead_Cons)
    then show "0 < s_size m1 p" using zb [of p] Y(2) by simp
  qed
  have s01: "s_size m1 base = 0" using Y(2) [rule_format, of base] s0 bp by simp
  have g1: "fin m1 p \<le> bp" using Y(2) [rule_format, of p] gap(1) pbp by (simp add: fin_def)
  from join_prev_ok [OF l1 Y(1,3) s01 g1 bp] obtain Z where
    Z: "lead m2 base zs p" "chain m2 p Z base" "s_size m2 base = 0"
      "area m2 (zs @ p # Z) = area m1 (zs @ [p]) \<union> block m1 bp \<union> area m1 Y" "set Z \<subseteq> insert bp (set Y)"
      "\<forall>b. b \<noteq> p \<longrightarrow> s_ptr m2 b = s_ptr m1 b \<and> s_size m2 b = s_size m1 b"
    unfolding m2_def [unfolded m1_def [symmetric], symmetric] by (elim exE conjE) (rule that)
  have "area m1 (zs @ [p]) = area m (zs @ [p])" by (rule area_cong) (use zb Y(2) in blast)
  then have "area m2 (zs @ p # Z) = area m (zs @ p # ys) \<union> block m bp"
    unfolding Z(4) using Y(4) by auto
  with Z Y show ?thesis by (intro exI [of _ Z]) auto
qed

text \<open>\<open>free\<close> of a block that overlaps no block of the free list.\<close>

lemma free_ok:
  assumes r: "ring base m bs" and sz: "0 < s_size m bp" and bp: "base < bp" "16 \<le> ap" "bp = ap - 16"
    and dis: "\<forall>b \<in> set bs. fin m b \<le> bp \<or> fin m bp \<le> b"
  shows "\<exists>m' bs'. free ap m = Some m' \<and> ring base m' bs' \<and> area m' bs' = area m bs \<union> block m bp \<and>
    set bs' \<subseteq> insert bp (set bs) \<and>
    (\<forall>b. b \<notin> insert bp (set (base # bs)) \<longrightarrow> s_size m' b = s_size m b)"
proof -
  have c: "chain m base bs base" and s0: "s_size m base = 0" and fp: "freep m \<in> set (base # bs)"
    using r by (auto simp: ring_def)
  have fbp: "bp < fin m bp" using sz by (simp add: fin_def)
  from place_exists [OF c s0 bp(1) dis] obtain zs p ys where s: "base # bs = zs @ p # ys" "lead m base zs p"
    "chain m p ys base" "fin m p \<le> bp" "ys \<noteq> [] \<longrightarrow> fin m bp \<le> hd ys"
    by (elim exE conjE) (rule that)
  have pbp: "p < bp"
  proof (cases "p = base")
    case False
    then have "0 < s_size m p" using s(2) by (auto simp: lead_def split: list.splits)
    with s(4) show ?thesis by (simp add: fin_def)
  qed (use bp in simp)
  have hdys: "ys \<noteq> [] \<Longrightarrow> bp < hd ys" using s(5) fbp by (simp add: less_le_trans)
  have place: "free_search m bp (freep m) = Some p"
    by (rule search_place [OF s(2,3) pbp hdys bp(1)]) (use fp s(1) in simp_all)
  define m2 where "m2 = join_prev bp p (join_next bp p m)"
  from join_ok [OF s(2,3) s0 sz bp(1) pbp s(4,5)] obtain Y where
    Z: "lead m2 base zs p" "chain m2 p Y base" "s_size m2 base = 0"
      "area m2 (zs @ p # Y) = area m (zs @ p # ys) \<union> block m bp" "set Y \<subseteq> insert bp (set ys)"
      "\<forall>b. b \<noteq> p \<longrightarrow> b \<noteq> bp \<longrightarrow> s_size m2 b = s_size m b"
    unfolding m2_def [symmetric] by (elim exE conjE) (rule that)
  define m' bs' where "m' = m2\<lparr>freep := p\<rparr>" and "bs' = tl (zs @ p # Y)"
  have eq: "base # bs' = zs @ p # Y" using Z(1) s(1) by (cases zs) (auto simp: bs'_def lead_def)
  have same: "s_ptr m' = s_ptr m2" "s_size m' = s_size m2" by (simp_all add: m'_def)
  have "chain m2 base bs' base" using ring_join [OF Z(1,2)] by (simp add: bs'_def)
  then have c': "chain m' base bs' base" by (rule chain_cong) (simp add: same)
  moreover have "p \<in> set (base # bs')" unfolding eq by simp
  ultimately have ring': "ring base m' bs'" using Z(3) same by (simp add: ring_def m'_def)
  have "area m' bs' = area m2 (base # bs')" using Z(3) same by (simp add: area_def block_def fin_def)
  also have "\<dots> = area m (base # bs) \<union> block m bp" unfolding eq s(1) by (rule Z(4))
  also have "\<dots> = area m bs \<union> block m bp" using block_empty [OF s0] by simp
  finally have ar': "area m' bs' = area m bs \<union> block m bp" .
  have "set (base # bs') \<subseteq> insert bp (set (base # bs))" unfolding eq s(1) using Z(5) by auto
  then have sub: "set bs' \<subseteq> insert bp (set bs)"
    using chain_above [OF c', of base] fin_ge [of base m'] by auto
  have sizes: "s_size m' b = s_size m b" if "b \<notin> insert bp (set (base # bs))" for b
    using that Z(6) same unfolding s(1) by auto
  have "free ap m = Some m'" using place bp by (simp add: free_def Let_def m'_def m2_def)
  with ring' ar' sub sizes show ?thesis by (intro exI [of _ m'] exI [of _ bs'] conjI allI impI)
qed

subsection \<open>malloc\<close>

text \<open>An interval of free addresses lies in one block, as the blocks are separated by gaps.\<close>

lemma interval_in_block:
  "chain m p bs q \<Longrightarrow> {x..<y} \<subseteq> area m bs \<Longrightarrow> x < y \<Longrightarrow> \<exists>b \<in> set bs. {x..<y} \<subseteq> block m b"
proof (induction bs arbitrary: p)
  case (Cons c cs)
  then have c: "chain m c cs q" by simp
  have later: "z \<notin> area m cs" if "z \<le> fin m c" for z
    using chain_above [OF c] that by (fastforce simp: area_def block_def)
  show ?case
  proof (cases "x < fin m c")
    case True
    then have x: "x \<in> block m c" using Cons.prems(2,3) later [of x] by auto
    have "\<not> fin m c < y"
    proof
      assume "fin m c < y"
      with True have "fin m c \<in> {x..<y}" by simp
      with Cons.prems(2) have "fin m c \<in> block m c \<union> area m cs" by auto
      with later [of "fin m c"] show False by (simp add: block_def)
    qed
    with x show ?thesis by (auto simp: block_def)
  next
    case False
    have "{x..<y} \<inter> block m c = {}" using False by (auto simp: block_def)
    with Cons.prems(2) have "{x..<y} \<subseteq> area m cs" by auto
    from Cons.IH [OF c this Cons.prems(3)] show ?thesis by auto
  qed
qed auto

text \<open>The pointers alone, and a walk once around the ring from any of its members.\<close>

fun path :: "umem \<Rightarrow> nat \<Rightarrow> nat list \<Rightarrow> nat \<Rightarrow> bool" where
  "path m p [] q \<longleftrightarrow> s_ptr m p = q"
| "path m p (b # bs) q \<longleftrightarrow> s_ptr m p = b \<and> path m b bs q"

lemma chain_path: "chain m p bs q \<Longrightarrow> path m p bs q"
  by (induction bs arbitrary: p) auto

lemma path_append: "path m p (xs @ b # ys) q \<longleftrightarrow> path m p xs b \<and> path m b ys q"
  by (induction xs arbitrary: p) auto

lemma chain_distinct: "chain m p bs q \<Longrightarrow> distinct (p # bs)"
proof (induction bs arbitrary: p)
  case (Cons c cs)
  then have "chain m c cs q" by simp
  with Cons.IH chain_above [OF Cons.prems, of p] fin_ge [of p m] show ?case by auto
qed simp

lemma ring_path:
  assumes c: "chain m base bs base" and p: "p \<in> set (base # bs)"
  shows "\<exists>qs. path m p qs p \<and> p \<notin> set qs \<and> insert p (set qs) = set (base # bs)"
proof (cases "p = base")
  case True
  with c chain_path [OF c] chain_distinct [OF c] show ?thesis by auto
next
  case False
  with p obtain xs ys where bs: "bs = xs @ p # ys" by (auto dest: split_list)
  have "path m base xs p" "path m p ys base" using chain_path [OF c] by (simp_all add: bs path_append)
  then have "path m p (ys @ base # xs) p" by (simp add: path_append)
  moreover have "p \<notin> set (ys @ base # xs)" using chain_distinct [OF c] unfolding bs by auto
  ultimately show ?thesis unfolding bs by (intro exI [of _ "ys @ base # xs"]) auto
qed

lemma ring_succ:
  assumes c: "chain m base bs base" and p: "p \<in> set (base # bs)" and n: "s_ptr m p \<noteq> base"
  shows "\<exists>xs ys. bs = xs @ s_ptr m p # ys \<and> p = last (base # xs)"
proof (cases "p = base")
  case True
  with c n show ?thesis by (cases bs) (auto intro: exI [of _ "[]"])
next
  case False
  with p obtain xs ys where bs: "bs = xs @ p # ys" by (auto dest: split_list)
  with c n obtain ys' where "ys = s_ptr m p # ys'" by (cases ys) (auto simp: chain_append)
  with bs show ?thesis by (intro exI [of _ "xs @ [p]"] exI [of _ ys']) simp
qed

text \<open>The loop stops at a block that is large enough, or asks for more memory after one round.\<close>

lemma malloc_walk:
  assumes "path m prev qs f" and "f \<notin> set qs" and "freep m = f"
  shows "(\<exists>q p. q \<in> set (prev # qs) \<and> p = s_ptr m q \<and> n \<le> s_size m p \<and> p \<in> insert f (set qs) \<and>
      malloc_loop sbrk n prev (s_ptr m prev) m s = (case take_block n q p m of (ap, m') \<Rightarrow> Some (ap, m', s))) \<or>
    (\<forall>p \<in> insert f (set qs). s_size m p < n) \<and>
      malloc_loop sbrk n prev (s_ptr m prev) m s =
        (case morecore sbrk n m s of
           None \<Rightarrow> None
         | Some (None, m', s') \<Rightarrow> Some (0, m', s')
         | Some (Some q, m', s') \<Rightarrow> malloc_loop sbrk n q (s_ptr m' q) m' s')"
  using assms
proof (induction qs arbitrary: prev)
  case Nil
  then show ?case by (cases "n \<le> s_size m f") (auto simp: malloc_loop.simps [of sbrk n prev f])
next
  case (Cons b qs)
  then have b: "s_ptr m prev = b" "path m b qs f" "f \<notin> set qs" "b \<noteq> f" by auto
  show ?case
  proof (cases "n \<le> s_size m b")
    case True
    then show ?thesis using b(1)
      by (intro disjI1 exI [of _ prev] exI [of _ b]) (simp add: malloc_loop.simps [of sbrk n prev b])
  next
    case False
    then have "malloc_loop sbrk n prev (s_ptr m prev) m s = malloc_loop sbrk n b (s_ptr m b) m s"
      using b Cons.prems(3) by (simp add: malloc_loop.simps [of sbrk n prev b])
    with Cons.IH [OF b(2,3) Cons.prems(3)] False b(1) show ?thesis
      by (elim disjE) (auto simp: not_le)
  qed
qed

text \<open>Handing out a block, whole or its tail.\<close>

lemma chain_unlink:
  assumes c: "chain m base (xs @ p # ys) base" and q: "q = last (base # xs)"
  shows "chain (m\<lparr>s_ptr := (s_ptr m)(q := s_ptr m p), freep := q\<rparr>) base (xs @ ys) base"
    (is "chain ?m _ _ _")
proof -
  have d: "distinct (base # xs @ p # ys)" using chain_distinct [OF c] .
  have xs: "chain m base xs p" "fin m q < p" and p: "chain m p ys base" using c q by (simp_all add: chain_append)
  have fin: "fin ?m b = fin m b" for b by (simp add: fin_def)
  have tail: "chain ?m q ys base"
  proof (rule chain_retarget [OF p])
    show "fin ?m q < hd ys" if "ys \<noteq> []"
      using that p xs(2) fin_ge [of p m] by (cases ys) (auto simp: fin)
    have "q \<in> set (base # xs)" using q last_in_set [of "base # xs"] by simp
    then have "q \<notin> set ys" using d by auto
    then show "s_ptr ?m b = s_ptr m b \<and> s_size ?m b = s_size m b" if "b \<in> set ys" for b using that by auto
  qed simp
  show ?thesis
  proof (cases xs rule: rev_cases)
    case Nil
    with tail q show ?thesis by simp
  next
    case (snoc xs' q')
    with q have q': "q' = q" by simp
    have c1: "chain m base xs' q" "fin m (last (base # xs')) < q" "0 < s_size m q"
      using xs(1) unfolding snoc q' by (simp_all add: chain_append)
    have "q \<notin> set (base # xs')" using d unfolding snoc q' by auto
    then have "chain ?m base xs' q" by (intro chain_cong [OF c1(1)]) auto
    with c1 tail show ?thesis unfolding snoc q' by (simp add: chain_append fin)
  qed
qed

lemma chain_shrink:
  fixes q :: nat
  assumes c: "chain m base (xs @ p # ys) base" and n: "0 < n" "n < s_size m p"
    and p': "p' = p + 16 * (s_size m p - n)"
  defines "m' \<equiv> m\<lparr>s_size := (s_size m)(p := s_size m p - n, p' := n), freep := q\<rparr>"
  shows "chain m' base (xs @ p # ys) base \<and> p' \<notin> set (base # xs @ p # ys) \<and>
    block m' p \<union> block m' p' = block m p \<and> block m' p \<inter> block m' p' = {} \<and> fin m' p' = fin m p"
proof -
  have d: "distinct (base # xs @ p # ys)" using chain_distinct [OF c] .
  have xs: "chain m base xs p" "fin m (last (base # xs)) < p" and p: "chain m p ys base"
    using c by (simp_all add: chain_append)
  have pos: "p < p'" "p' < fin m p" using n by (simp_all add: p' fin_def)
  have mul: "16 * s_size m p = 16 * (s_size m p - n) + 16 * n" using n(2) by simp
  have fp: "fin m' p = p'" "fin m' p' = fin m p" using pos mul unfolding m'_def fin_def p' by simp_all
  have below: "b \<le> fin m (last (base # xs))" if "b \<in> set (base # xs)" for b
    using chain_fin_last [OF xs(1) that] fin_ge [of b m] by linarith
  have p'xs: "p' \<notin> set (base # xs)" using below [of p'] xs(2) pos by auto
  have p'ys: "p' \<notin> set ys" using chain_above [OF p, of p'] pos by auto
  have pxs: "p \<notin> set (base # xs)" and pys: "p \<notin> set ys" using d by auto
  have same: "s_ptr m' b = s_ptr m b \<and> s_size m' b = s_size m b" if "b \<noteq> p" "b \<noteq> p'" for b
    using that by (simp add: m'_def)
  have "last (base # xs) \<in> set (base # xs)" using last_in_set [of "base # xs"] by blast
  then have "fin m' (last (base # xs)) = fin m (last (base # xs))"
    using same p'xs pxs by (metis fin_def)
  moreover have "chain m' base xs p" by (rule chain_cong [OF xs(1)]) (use same p'xs pxs in metis)
  moreover have "chain m' p ys base"
  proof (rule chain_retarget [OF p])
    show "fin m' p < hd ys" if "ys \<noteq> []" using that p pos by (cases ys) (auto simp: fp)
    show "s_ptr m' b = s_ptr m b \<and> s_size m' b = s_size m b" if "b \<in> set ys" for b
      using that p'ys pys by (intro same) auto
  qed (simp add: m'_def)
  moreover have "0 < s_size m' p" using n pos by (simp add: m'_def)
  ultimately have "chain m' base (xs @ p # ys) base" using xs(2) by (simp add: chain_append)
  moreover have "block m' p \<union> block m' p' = block m p" "block m' p \<inter> block m' p' = {}"
    using pos by (auto simp: block_def fp)
  ultimately show ?thesis using p'xs p'ys pos fp by auto
qed

lemma take_block_ok:
  assumes r: "ring base m bs" and q: "q \<in> set (base # bs)" and n: "0 < n" "n \<le> s_size m (s_ptr m q)"
  shows "\<exists>b m' bs'. take_block n q (s_ptr m q) m = (b + 16, m') \<and> ring base m' bs' \<and> base < b \<and> freep m' = q \<and>
    s_size m' b = n \<and> block m' b \<inter> area m' bs' = {} \<and> block m' b \<union> area m' bs' = area m bs \<and> set bs' \<subseteq> set bs \<and>
    (\<forall>c. c \<notin> insert b (set bs) \<longrightarrow> s_size m' c = s_size m c)"
proof -
  have c: "chain m base bs base" and s0: "s_size m base = 0" using r by (simp_all add: ring_def)
  define p where "p = s_ptr m q"
  have "p \<noteq> base" using n s0 by (auto simp: p_def)
  with ring_succ [OF c q] obtain xs ys where bs: "bs = xs @ p # ys" and ql: "q = last (base # xs)"
    unfolding p_def by blast
  have d: "distinct (base # xs @ p # ys)" using chain_distinct [OF c] unfolding bs .
  have qin: "q \<in> set (base # xs)" unfolding ql using last_in_set [of "base # xs"] by blast
  have bp: "base < p" using chain_above [OF c, of p] fin_ge [of base m] bs by simp
  have disj: "block m x \<inter> block m p = {}" if "x \<in> set (xs @ ys)" for x
  proof (cases "x \<in> set ys")
    case True
    from c have "chain m p ys base" unfolding bs by (simp add: chain_append)
    from chain_above [OF this True] show ?thesis by (auto simp: block_def)
  next
    case False
    with that have "x \<in> set (base # xs)" by simp
    moreover from c have "chain m base xs p" "fin m (last (base # xs)) < p" unfolding bs by (simp_all add: chain_append)
    ultimately have "fin m x < p" using chain_fin_last by (metis le_less_trans)
    then show ?thesis by (auto simp: block_def)
  qed
  show ?thesis
  proof (cases "s_size m p = n")
    case True
    define m' where "m' = m\<lparr>s_ptr := (s_ptr m)(q := s_ptr m p), freep := q\<rparr>"
    have sz: "s_size m' = s_size m" by (simp add: m'_def)
    have bl: "block m' b = block m b" for b by (simp add: block_def fin_def sz)
    have ar: "area m' cs = area m cs" for cs by (simp add: area_def bl)
    have "ring base m' (xs @ ys)"
      using chain_unlink [OF c [unfolded bs] ql] qin s0 by (auto simp: ring_def m'_def)
    moreover have "take_block n q p m = (p + 16, m')" using True by (simp add: take_block_def m'_def)
    moreover have "block m p \<inter> area m (xs @ ys) = {}" using disj by (fastforce simp: area_def)
    moreover have "freep m' = q" by (simp add: m'_def)
    ultimately show ?thesis using True bp unfolding p_def [symmetric] bs
      by (intro exI [of _ p] exI [of _ m'] exI [of _ "xs @ ys"]) (auto simp: sz bl ar)
  next
    case False
    define p' where "p' = p + 16 * (s_size m p - n)"
    define m' where "m' = m\<lparr>s_size := (s_size m)(p := s_size m p - n, p' := n), freep := q\<rparr>"
    have lt: "n < s_size m p" using False n by (simp add: p_def)
    note k = chain_shrink [OF c [unfolded bs] n(1) lt p'_def, of q, folded m'_def]
    have p': "p' \<notin> set (base # xs @ p # ys)" using k by blast
    have same: "block m' x = block m x" if "x \<in> set (xs @ ys)" for x
      using that d p' by (auto simp: block_def fin_def m'_def)
    have ar: "area m' xs = area m xs" "area m' ys = area m ys" using same by (simp_all add: area_def)
    have "ring base m' bs" using k qin s0 bp p' unfolding ring_def bs by (auto simp: m'_def)
    moreover have "take_block n q p m = (p' + 16, m')" using False by (simp add: take_block_def m'_def p'_def Let_def)
    moreover have "block m' p' \<union> area m' bs = area m bs" using k by (auto simp: bs ar)
    moreover have "block m' p' \<inter> area m' bs = {}"
    proof -
      have "block m' p' \<subseteq> block m p" "block m' p \<inter> block m' p' = {}" using k by auto
      moreover have "area m (xs @ ys) \<inter> block m p = {}" using disj by (fastforce simp: area_def)
      ultimately show ?thesis by (auto simp: bs ar)
    qed
    moreover have "base < p'" "s_size m' p' = n" "freep m' = q" using bp by (auto simp: p'_def m'_def)
    moreover have "s_size m' x = s_size m x" if "x \<notin> insert p' (set bs)" for x using that by (auto simp: m'_def bs)
    ultimately show ?thesis unfolding p_def [symmetric] by blast
  qed
qed

subsection \<open>The allocator\<close>

text \<open>
  The abstract state: the free addresses \<open>F\<close> and the headers \<open>L\<close> of the blocks handed out.  Blocks
  handed out share no address with each other or with the free area; before the first call the
  static header is not linked.
\<close>

definition heap :: "nat \<Rightarrow> umem \<Rightarrow> nat set \<Rightarrow> nat set \<Rightarrow> bool" where
  "heap base m F L \<longleftrightarrow> 0 < base \<and>
     (if freep m = 0 then F = {} \<and> L = {}
      else (\<exists>bs. ring base m bs \<and> area m bs = F \<and> L \<inter> set bs = {}) \<and>
        (\<forall>b \<in> L. base < b \<and> 0 < s_size m b \<and> block m b \<inter> F = {}) \<and>
        (\<forall>b \<in> L. \<forall>c \<in> L. b \<noteq> c \<longrightarrow> block m b \<inter> block m c = {}))"

lemma block_mem: "0 < s_size m b \<Longrightarrow> b \<in> block m b"
  by (simp add: block_def fin_def)

lemma area_ends: "block m b \<inter> area m bs = {} \<Longrightarrow> 0 < s_size m b \<Longrightarrow> c \<in> set bs \<Longrightarrow> 0 < s_size m c \<Longrightarrow>
    fin m c \<le> b \<or> fin m b \<le> c"
proof (rule ccontr)
  assume d: "block m b \<inter> area m bs = {}" and c: "c \<in> set bs" "0 < s_size m c" and b: "0 < s_size m b"
    and n: "\<not> (fin m c \<le> b \<or> fin m b \<le> c)"
  then have "max b c \<in> block m b \<inter> block m c" by (auto simp: block_def fin_def)
  with d c(1) show False by (auto simp: area_def)
qed

lemma chain_sizes: "chain m p bs q \<Longrightarrow> b \<in> set bs \<Longrightarrow> 0 < s_size m b"
  by (induction bs arbitrary: p) auto

lemma ring_members:
  assumes "ring base m bs" and "b \<in> set bs"
  shows "base < b \<and> 0 < s_size m b \<and> b \<in> area m bs"
proof -
  have c: "chain m base bs base" using assms(1) by (simp add: ring_def)
  from chain_above [OF c assms(2)] fin_ge [of base m] have "base < b" by simp
  with chain_sizes [OF c assms(2)] block_mem [of m b] assms(2) show ?thesis by (auto simp: area_def)
qed

lemma heap_linked:
  assumes "heap base m F L" and "freep m \<noteq> 0"
  obtains bs where "ring base m bs" "area m bs = F" "L \<inter> set bs = {}"
  using assms by (auto simp: heap_def)

text \<open>A change of the ring that keeps the sizes of the blocks handed out.\<close>

lemma heap_intro:
  assumes "0 < base" and "ring base m' bs'"
    and "\<And>b. b \<in> L \<Longrightarrow> base < b \<and> 0 < s_size m' b \<and> block m' b \<inter> area m' bs' = {}"
    and "\<And>b c. b \<in> L \<Longrightarrow> c \<in> L \<Longrightarrow> b \<noteq> c \<Longrightarrow> block m' b \<inter> block m' c = {}"
  shows "heap base m' (area m' bs') L"
proof -
  have "freep m' = base \<or> freep m' \<in> set bs'" using assms(2) by (auto simp: ring_def)
  with assms(1) ring_members [OF assms(2), of "freep m'"] have "freep m' \<noteq> 0" by auto
  moreover have "L \<inter> set bs' = {}"
  proof (rule ccontr)
    assume "L \<inter> set bs' \<noteq> {}"
    then obtain b where "b \<in> L" "b \<in> set bs'" by blast
    with assms(3) [of b] ring_members [OF assms(2), of b] block_mem [of m' b] show False by blast
  qed
  ultimately show ?thesis using assms by (auto simp: heap_def)
qed

lemma block_size: "s_size m' b = s_size m b \<Longrightarrow> block m' b = block m b"
  by (simp add: block_def fin_def)

lemma heap_free:
  assumes h: "heap base m F L" and b: "b \<in> L"
  shows "\<exists>m'. free (b + 16) m = Some m' \<and> heap base m' (F \<union> block m b) (L - {b}) \<and>
    (\<forall>c \<in> L - {b}. s_size m' c = s_size m c)"
proof -
  have fp: "freep m \<noteq> 0" using h b by (auto simp: heap_def split: if_splits)
  with h b obtain bs where r: "ring base m bs" "area m bs = F" "L \<inter> set bs = {}" by (rule_tac heap_linked)
  have live: "base < c" "0 < s_size m c" "block m c \<inter> F = {}" if "c \<in> L" for c
    using h fp that by (auto simp: heap_def)
  have disj: "block m c \<inter> block m d = {}" if "c \<in> L" "d \<in> L" "c \<noteq> d" for c d
    using h fp that by (auto simp: heap_def)
  have "\<forall>c \<in> set bs. fin m c \<le> b \<or> fin m b \<le> c"
    using area_ends [of m b bs] live [OF b] r ring_members [OF r(1)] by blast
  from free_ok [OF r(1) live(2,1) [OF b] _ _ this, of "b + 16"] obtain m' bs' where
    f: "free (b + 16) m = Some m'" "ring base m' bs'" "area m' bs' = area m bs \<union> block m b" "set bs' \<subseteq> insert b (set bs)"
      "\<forall>c. c \<notin> insert b (set (base # bs)) \<longrightarrow> s_size m' c = s_size m c"
    by auto
  have same: "s_size m' c = s_size m c" if "c \<in> L - {b}" for c
    using f(5) that r(3) live(1) [of c] by auto
  have "heap base m' (area m' bs') (L - {b})"
  proof (rule heap_intro [OF _ f(2)])
    show "base < c \<and> 0 < s_size m' c \<and> block m' c \<inter> area m' bs' = {}" if "c \<in> L - {b}" for c
      using that live [of c] disj [of c b] b same [OF that] block_size [OF same [OF that]] r(2) by (auto simp: f(3))
    show "block m' c \<inter> block m' d = {}" if "c \<in> L - {b}" "d \<in> L - {b}" "c \<noteq> d" for c d
      using that disj [of c d] block_size [OF same [OF that(1)]] block_size [OF same [OF that(2)]] by simp
  qed (use h in \<open>simp add: heap_def\<close>)
  with f(1,3) r(2) same show ?thesis by auto
qed

lemma disjoint_insert_family:
  assumes "\<And>c d. c \<in> L \<Longrightarrow> d \<in> L \<Longrightarrow> c \<noteq> d \<Longrightarrow> B c \<inter> B d = {}" and "\<And>c. c \<in> L \<Longrightarrow> B c \<inter> B b = {}"
    and "c \<in> insert b L" "d \<in> insert b L" "c \<noteq> d"
  shows "B c \<inter> B d = {}"
proof (cases "c = b \<or> d = b")
  case True
  with assms(2) [of c] assms(2) [of d] assms(3-5) show ?thesis by blast
qed (use assms in blast)

lemma heap_take:
  assumes h: "heap base m F L" and fp: "freep m \<noteq> 0" and r: "ring base m bs" "area m bs = F"
    and q: "q \<in> set (base # bs)" and n: "0 < n" "n \<le> s_size m (s_ptr m q)"
  shows "\<exists>b m' F'. take_block n q (s_ptr m q) m = (b + 16, m') \<and> heap base m' F' (insert b L) \<and> b \<notin> L \<and>
    s_size m' b = n \<and> F' \<union> block m' b = F \<and> (\<forall>c \<in> L. s_size m' c = s_size m c)"
proof -
  have live: "base < c" "0 < s_size m c" "block m c \<inter> F = {}" if "c \<in> L" for c
    using h fp that by (auto simp: heap_def)
  have disj: "block m c \<inter> block m d = {}" if "c \<in> L" "d \<in> L" "c \<noteq> d" for c d
    using h fp that by (auto simp: heap_def)
  from take_block_ok [OF r(1) q n] obtain b m' bs' where
    t: "take_block n q (s_ptr m q) m = (b + 16, m')" "ring base m' bs'" "base < b" "s_size m' b = n"
      "block m' b \<inter> area m' bs' = {}" "block m' b \<union> area m' bs' = F"
      "\<forall>c. c \<notin> insert b (set bs) \<longrightarrow> s_size m' c = s_size m c"
    unfolding r(2) by blast
  have bF: "b \<in> F" using block_mem [of m' b] t(4,6) n(1) by auto
  have new: "b \<notin> L" using live(2,3) [of b] block_mem [of m b] bF by auto
  have same: "s_size m' c = s_size m c" if "c \<in> L" for c
  proof -
    have "c \<notin> set bs" using live(3) [OF that] block_mem [OF live(2) [OF that]] ring_members [OF r(1)] r(2) by blast
    with that new t(7) show ?thesis by auto
  qed
  note bl = block_size [OF same]
  have sub: "block m' b \<subseteq> F" "area m' bs' \<subseteq> F" using t(6) by auto
  have "heap base m' (area m' bs') (insert b L)"
  proof (rule heap_intro [OF _ t(2)])
    show "base < c \<and> 0 < s_size m' c \<and> block m' c \<inter> area m' bs' = {}" if "c \<in> insert b L" for c
    proof (cases "c = b")
      case False
      with that have c: "c \<in> L" by simp
      from live [OF c] same [OF c] bl [OF c] sub(2) show ?thesis by auto
    qed (use t n in simp)
    show "block m' c \<inter> block m' d = {}" if "c \<in> insert b L" "d \<in> insert b L" "c \<noteq> d" for c d
    proof (rule disjoint_insert_family [OF _ _ that])
      show "block m' x \<inter> block m' y = {}" if "x \<in> L" "y \<in> L" "x \<noteq> y" for x y
        using disj [OF that] by (simp only: bl [OF that(1)] bl [OF that(2)])
      show "block m' x \<inter> block m' b = {}" if "x \<in> L" for x
        using live(3) [OF that] sub(1) unfolding bl [OF that] by blast
    qed
  qed (use h in \<open>simp add: heap_def\<close>)
  with t(1,4,6) new same show ?thesis by (intro exI [of _ b] exI [of _ m'] exI [of _ "area m' bs'"]) auto
qed

text \<open>A new header outside all blocks is a block handed out, and stays so until it is freed.\<close>

lemma heap_grant:
  assumes h: "heap base m F L" and fp: "freep m \<noteq> 0" and hp: "base < hp" "0 < k"
    and new: "{hp..<hp + 16 * k} \<inter> (F \<union> (\<Union>b \<in> L. block m b)) = {}"
  shows "heap base (m\<lparr>s_size := (s_size m)(hp := k)\<rparr>) F (insert hp L) \<and> hp \<notin> L \<and>
    block (m\<lparr>s_size := (s_size m)(hp := k)\<rparr>) hp = {hp..<hp + 16 * k}"
proof -
  define m' where "m' = m\<lparr>s_size := (s_size m)(hp := k)\<rparr>"
  obtain bs where r: "ring base m bs" "area m bs = F" using h fp by (auto elim: heap_linked)
  have live: "base < c" "0 < s_size m c" "block m c \<inter> F = {}" if "c \<in> L" for c
    using h fp that by (auto simp: heap_def)
  have disj: "block m c \<inter> block m d = {}" if "c \<in> L" "d \<in> L" "c \<noteq> d" for c d
    using h fp that by (auto simp: heap_def)
  have in_new: "hp \<in> {hp..<hp + 16 * k}" using hp by simp
  then have nL: "hp \<notin> L" using new block_mem [OF live(2), of hp] by blast
  have nbs: "hp \<notin> set bs" using in_new new ring_members [OF r(1), of hp] r(2) by blast
  have own: "block m' hp = {hp..<hp + 16 * k}" by (simp add: block_def fin_def m'_def)
  have other: "block m' c = block m c" if "c \<noteq> hp" for c by (rule block_size) (use that in \<open>simp add: m'_def\<close>)
  have "chain m' base bs base"
    by (rule chain_cong) (use r(1) nbs hp in \<open>auto simp: ring_def m'_def\<close>)
  then have r': "ring base m' bs" using r(1) hp by (simp add: ring_def m'_def)
  have "area m' bs = area m bs" by (rule area_cong) (use nbs in \<open>auto simp: m'_def\<close>)
  then have F: "area m' bs = F" by (simp add: r(2))
  have "heap base m' (area m' bs) (insert hp L)"
  proof (rule heap_intro [OF _ r'])
    show "base < c \<and> 0 < s_size m' c \<and> block m' c \<inter> area m' bs = {}" if "c \<in> insert hp L" for c
    proof (cases "c = hp")
      case False
      with that have c: "c \<in> L" by simp
      from live [OF c] False show ?thesis by (simp add: F other) (simp add: m'_def)
    next
      case True
      have "block m' hp \<inter> F = {}" using new unfolding own by blast
      with True hp show ?thesis unfolding F by (simp add: m'_def)
    qed
    show "block m' c \<inter> block m' d = {}" if "c \<in> insert hp L" "d \<in> insert hp L" "c \<noteq> d" for c d
    proof (rule disjoint_insert_family [OF _ _ that])
      show "block m' x \<inter> block m' y = {}" if "x \<in> L" "y \<in> L" "x \<noteq> y" for x y
        using disj [OF that] nL that by (metis other)
      show "block m' x \<inter> block m' hp = {}" if "x \<in> L" for x
      proof -
        have "block m' x = block m x" using nL that by (metis other)
        with new that show ?thesis unfolding own by blast
      qed
    qed
  qed (use h in \<open>simp add: heap_def\<close>)
  with F nL own show ?thesis by (simp add: m'_def)
qed

text \<open>
  What the allocator relies on: memory that \<open>sbrk\<close> hands out lies above the static header and is not
  in use.
\<close>

definition grows :: "'s sbrk \<Rightarrow> 's \<Rightarrow> nat \<Rightarrow> nat set \<Rightarrow> bool" where
  "grows sbrk s base A \<longleftrightarrow>
     (\<forall>k hp s'. 0 < k \<longrightarrow> sbrk (int k) s = (Some hp, s') \<longrightarrow> base < hp \<and> {hp..<hp + k} \<inter> A = {})"

definition used :: "umem \<Rightarrow> nat set \<Rightarrow> nat set" where
  "used m L = (\<Union>b \<in> L. block m b)"

lemma morecore_ok:
  assumes h: "heap base m F L" and fp: "freep m \<noteq> 0" and n: "16 * n < 2 ^ 31"
    and g: "grows sbrk s base (F \<union> used m L)"
  defines "k \<equiv> 16 * max 4096 n"
  shows "(\<exists>s'. sbrk (int k) s = (None, s') \<and> morecore sbrk n m s = Some (None, m, s')) \<or>
    (\<exists>hp s' m'. sbrk (int k) s = (Some hp, s') \<and> morecore sbrk n m s = Some (Some (freep m'), m', s') \<and>
      heap base m' (F \<union> {hp..<hp + k}) L \<and> (\<forall>c \<in> L. s_size m' c = s_size m c))"
proof -
  have nu: "(if n < 4096 then 4096 else n) = max 4096 n" by simp
  have k0: "0 < k" by (simp add: k_def max_def)
  have "k < 2 ^ 31" using n unfolding k_def by simp
  from of_nat_small [OF this] have arg: "sint (of_nat (max 4096 n) * 16 :: uint) = int k"
    by (simp add: k_def mult.commute)
  show ?thesis
  proof (cases "sbrk (int k) s")
    case (Pair r s')
    show ?thesis
    proof (cases r)
      case None
      then show ?thesis using Pair by (simp add: morecore_def Let_def nu arg)
    next
      case (Some hp)
      with Pair g have hp: "base < hp" "{hp..<hp + k} \<inter> (F \<union> used m L) = {}"
        using k0 unfolding grows_def by blast+
      define m1 where "m1 = m\<lparr>s_size := (s_size m)(hp := max 4096 n)\<rparr>"
      have g1: "heap base m1 F (insert hp L) \<and> hp \<notin> L \<and> block m1 hp = {hp..<hp + k}"
        using heap_grant [OF h fp hp(1), of "max 4096 n"] hp(2) by (simp add: m1_def used_def k_def)
      with heap_free [of base m1 F "insert hp L" hp] obtain m' where
        f: "free (hp + 16) m1 = Some m'" "heap base m' (F \<union> {hp..<hp + k}) L" "\<forall>c \<in> L. s_size m' c = s_size m1 c"
        by auto
      have "\<forall>c \<in> L. s_size m' c = s_size m c" using f(3) g1 by (auto simp: m1_def)
      moreover have "morecore sbrk n m s = Some (Some (freep m'), m', s')"
        using Pair Some f(1) by (simp add: morecore_def Let_def nu arg m1_def)
      ultimately show ?thesis using Pair Some f(2) by blast
    qed
  qed
qed

lemma malloc_loop_fits:
  assumes h: "heap base m F L" and fp: "freep m \<noteq> 0" and n: "0 < n"
    and room: "{x..<x + 16 * n} \<subseteq> F"
  shows "\<exists>b m' F'. malloc_loop sbrk n (freep m) (s_ptr m (freep m)) m s = Some (b + 16, m', s) \<and>
    heap base m' F' (insert b L) \<and> b \<notin> L \<and> s_size m' b = n \<and> F' \<union> block m' b = F \<and>
    (\<forall>c \<in> L. s_size m' c = s_size m c)"
proof -
  obtain bs where r: "ring base m bs" "area m bs = F" using h fp by (auto elim: heap_linked)
  have c: "chain m base bs base" and f: "freep m \<in> set (base # bs)" using r(1) by (simp_all add: ring_def)
  from ring_path [OF c f] obtain qs where
    qs: "path m (freep m) qs (freep m)" "freep m \<notin> set qs" "insert (freep m) (set qs) = set (base # bs)"
    by blast
  have "\<exists>b \<in> set bs. n \<le> s_size m b"
  proof -
    from interval_in_block [OF c room [folded r(2)]] n obtain b where
      b: "b \<in> set bs" "{x..<x + 16 * n} \<subseteq> block m b" by auto
    then have "x + 16 * n \<le> b + 16 * s_size m b \<and> b \<le> x" using n by (simp add: block_def fin_def)
    then have "n \<le> s_size m b" by linarith
    with b(1) show ?thesis ..
  qed
  then have "\<not> (\<forall>p \<in> insert (freep m) (set qs). s_size m p < n)"
    unfolding qs(3) by (auto simp: not_less)
  with malloc_walk [OF qs(1,2) refl, of n sbrk s] obtain q where
    q: "q \<in> set (base # bs)" "n \<le> s_size m (s_ptr m q)"
      "malloc_loop sbrk n (freep m) (s_ptr m (freep m)) m s =
        (case take_block n q (s_ptr m q) m of (ap, m') \<Rightarrow> Some (ap, m', s))"
    using qs(3) by auto
  from heap_take [OF h fp r q(1) n q(2)] q(3) show ?thesis by auto
qed

lemma heap_start:
  assumes "heap base m F L" and "freep m = 0"
  shows "heap base (m\<lparr>s_ptr := (s_ptr m)(base := base), freep := base, s_size := (s_size m)(base := 0)\<rparr>) F L"
proof -
  have "F = {}" "L = {}" "0 < base" using assms by (simp_all add: heap_def)
  then show ?thesis by (auto simp: heap_def ring_def intro!: exI [of _ "[]"])
qed

text \<open>How one call ends: the null pointer when \<open>sbrk\<close> fails, or a new block.\<close>

definition malloc_result :: "nat \<Rightarrow> 's sbrk \<Rightarrow> nat \<Rightarrow> umem \<Rightarrow> nat set \<Rightarrow> nat set \<Rightarrow> 's \<Rightarrow> nat \<times> umem \<times> 's \<Rightarrow> bool" where
  "malloc_result base sbrk n m F L s r \<longleftrightarrow> (case r of (ap, m', s') \<Rightarrow>
     (\<forall>c \<in> L. s_size m' c = s_size m c) \<and>
     (if ap = 0 then heap base m' F L \<and> fst (sbrk (int (16 * max 4096 n)) s) = None
      else \<exists>b F' N. ap = b + 16 \<and> b \<notin> L \<and> heap base m' F' (insert b L) \<and> s_size m' b = n \<and> F' \<union> block m' b = F \<union> N \<and>
        (N = {} \<and> s' = s \<or> (\<exists>hp. sbrk (int (16 * max 4096 n)) s = (Some hp, s') \<and> N = {hp..<hp + 16 * max 4096 n}))))"

lemma malloc_loop_ok:
  assumes h: "heap base m F L" and fp: "freep m \<noteq> 0" and n: "0 < n" "16 * n < 2 ^ 31"
    and g: "grows sbrk s base (F \<union> used m L)"
  shows "\<exists>r. malloc_loop sbrk n (freep m) (s_ptr m (freep m)) m s = Some r \<and> malloc_result base sbrk n m F L s r"
proof -
  obtain bs where r: "ring base m bs" "area m bs = F" using h fp by (auto elim: heap_linked)
  have c: "chain m base bs base" and f: "freep m \<in> set (base # bs)" using r(1) by (simp_all add: ring_def)
  from ring_path [OF c f] obtain qs where
    qs: "path m (freep m) qs (freep m)" "freep m \<notin> set qs" "insert (freep m) (set qs) = set (base # bs)"
    by blast
  let ?loop = "malloc_loop sbrk n (freep m) (s_ptr m (freep m)) m s"
  from malloc_walk [OF qs(1,2) refl, of n sbrk s]
  consider q where "q \<in> set (base # bs)" "n \<le> s_size m (s_ptr m q)"
      "?loop = (case take_block n q (s_ptr m q) m of (ap, m') \<Rightarrow> Some (ap, m', s))"
    | "?loop = (case morecore sbrk n m s of None \<Rightarrow> None
         | Some (None, m', s') \<Rightarrow> Some (0, m', s')
         | Some (Some q, m', s') \<Rightarrow> malloc_loop sbrk n q (s_ptr m' q) m' s')"
    using qs(3) by auto
  then show ?thesis
  proof cases
    case q: 1
    from heap_take [OF h fp r q(1) n(1) q(2)] obtain b m' F' where
      "?loop = Some (b + 16, m', s)" "heap base m' F' (insert b L)" "b \<notin> L" "s_size m' b = n" "F' \<union> block m' b = F"
      "\<forall>c \<in> L. s_size m' c = s_size m c"
      unfolding q(3) by auto
    then show ?thesis by (intro exI conjI) (assumption, auto simp: malloc_result_def)
  next
    case 2
    from morecore_ok [OF h fp n(2) g] show ?thesis
    proof (elim disjE exE conjE)
      fix s'
      assume "sbrk (int (16 * max 4096 n)) s = (None, s')" "morecore sbrk n m s = Some (None, m, s')"
      with 2 h show ?thesis by (intro exI [of _ "(0, m, s')"]) (simp add: malloc_result_def)
    next
      fix hp s' m1
      let ?N = "{hp..<hp + 16 * max 4096 n}"
      assume sb: "sbrk (int (16 * max 4096 n)) s = (Some hp, s')"
        and mc: "morecore sbrk n m s = Some (Some (freep m1), m1, s')"
        and h1: "heap base m1 (F \<union> ?N) L" and sz: "\<forall>c \<in> L. s_size m1 c = s_size m c"
      have "F \<union> ?N \<noteq> {}" using n by (auto simp: max_def)
      then have fp1: "freep m1 \<noteq> 0" using h1 by (auto simp: heap_def split: if_splits)
      have "{hp..<hp + 16 * n} \<subseteq> F \<union> ?N" by auto
      from malloc_loop_fits [OF h1 fp1 n(1) this, of sbrk s'] obtain b m' F' where
        "malloc_loop sbrk n (freep m1) (s_ptr m1 (freep m1)) m1 s' = Some (b + 16, m', s')"
        "heap base m' F' (insert b L)" "b \<notin> L" "s_size m' b = n" "F' \<union> block m' b = F \<union> ?N"
        "\<forall>c \<in> L. s_size m' c = s_size m1 c"
        by blast
      with 2 mc sz sb show ?thesis
        by (intro exI [of _ "(b + 16, m', s')"]) (auto simp: malloc_result_def)
    qed
  qed
qed

subsection \<open>Properties\<close>

text \<open>
  C38. A call of \<open>malloc\<close> (for a request that fits an \<open>int\<close>) returns, and either \<open>sbrk\<close> failed and nothing
  has changed, or the result points behind the header of a new block of at least \<open>nbytes\<close> bytes
  that shares no address with the blocks handed out before, whose sizes stay as they were: the free
  area and the new block together are the old free area and what \<open>sbrk\<close> added.
\<close>

theorem malloc_safe:
  assumes h: "heap base m F L" and n: "nbytes + 31 < 2 ^ 31" and g: "grows sbrk s base (F \<union> used m L)"
  shows "\<exists>r. malloc base sbrk nbytes m s = Some r \<and> malloc_result base sbrk ((nbytes + 15) div 16 + 1) m F L s r \<and>
    nbytes \<le> 16 * ((nbytes + 15) div 16)"
proof -
  let ?n = "(nbytes + 15) div 16 + 1"
  define m0 where "m0 = (if freep m = 0
    then m\<lparr>s_ptr := (s_ptr m)(base := base), freep := base, s_size := (s_size m)(base := 0)\<rparr> else m)"
  have h0: "heap base m0 F L" using h heap_start [OF h] by (simp add: m0_def)
  have fp: "freep m0 \<noteq> 0" using h by (auto simp: m0_def heap_def)
  have same: "s_size m0 c = s_size m c" if "c \<in> L" for c using h that by (auto simp: m0_def heap_def)
  have "used m0 L = used m L" using block_size [OF same] by (simp add: used_def)
  with g have g0: "grows sbrk s base (F \<union> used m0 L)" by simp
  have d: "16 * ((nbytes + 15) div 16) \<le> nbytes + 15" "nbytes \<le> 16 * ((nbytes + 15) div 16)" by presburger+
  have small: "16 * ?n < 2 ^ 31" "nbytes \<le> 16 * ((nbytes + 15) div 16)" using n d by simp_all
  from malloc_loop_ok [OF h0 fp _ small(1) g0] obtain r where
    r: "malloc_loop sbrk ?n (freep m0) (s_ptr m0 (freep m0)) m0 s = Some r" "malloc_result base sbrk ?n m0 F L s r"
    by auto
  moreover have e: "nbytes + 16 - 1 = nbytes + 15" by simp
  have "malloc base sbrk nbytes m s = Some r"
    using r(1) unfolding malloc_def Let_def m0_def [symmetric] e .
  moreover have "malloc_result base sbrk ?n m F L s r" using r(2) same by (auto simp: malloc_result_def)
  ultimately show ?thesis using small(2) by blast
qed

text \<open>An \<open>sbrk\<close> that moves the end of memory up to a limit.\<close>

definition brk_upto :: "nat \<Rightarrow> nat sbrk" where
  "brk_upto limit = (\<lambda>k brk. if int brk + k > int limit then (None, brk) else (Some brk, nat (int brk + k)))"

definition umem0 :: umem where
  "umem0 = \<lparr>s_ptr = (\<lambda>_. 0), s_size = (\<lambda>_. 0), freep = 0\<rparr>"

lemma brk_upto_grows: "base < brk \<Longrightarrow> (\<And>a. a \<in> A \<Longrightarrow> a < brk) \<Longrightarrow> grows (brk_upto limit) brk base A"
  by (fastforce simp: grows_def brk_upto_def split: if_splits)

theorem malloc_safe_witness:
  "\<exists>r. malloc 4096 (brk_upto 134217728) 100 umem0 8192 = Some r \<and>
     malloc_result 4096 (brk_upto 134217728) 8 umem0 {} {} 8192 r"
proof -
  have "heap 4096 umem0 {} {}" by (simp add: heap_def umem0_def)
  moreover have "grows (brk_upto 134217728) 8192 4096 ({} \<union> used umem0 {})"
    by (rule brk_upto_grows) (simp_all add: used_def)
  ultimately show ?thesis using malloc_safe [of 4096 umem0 "{}" "{}" 100 "brk_upto 134217728" 8192] by auto
qed

text \<open>
  C39. \<open>free\<close> of a block that \<open>malloc\<close> handed out returns and gives exactly its addresses back to the free
  area: the list stays sorted with adjacent blocks joined, the other blocks keep their sizes and
  remain disjoint from it.
\<close>

theorem free_returns_block:
  assumes "heap base m F L" and "b \<in> L"
  shows "\<exists>m'. free (b + 16) m = Some m' \<and> heap base m' (F \<union> block m b) (L - {b}) \<and>
    (\<forall>c \<in> L - {b}. s_size m' c = s_size m c)"
  using heap_free [OF assms] .

definition umem1 :: umem where
  "umem1 = \<lparr>s_ptr = (\<lambda>p. if p = 4096 then 8192 else 4096), s_size = (\<lambda>p. if p = 8192 then 3 else if p = 8240 then 2 else 0), freep = 4096\<rparr>"

lemma umem1_heap: "heap 4096 umem1 {8192..<8240} {8240}"
  unfolding heap_def by (auto simp: umem1_def ring_def fin_def block_def intro!: exI [of _ "[8192]"])

theorem free_returns_block_witness:
  "\<exists>m'. free 8256 umem1 = Some m' \<and> heap 4096 m' {8192..<8272} {}"
proof -
  have "{8192..<8240} \<union> block umem1 8240 = {8192..<(8272::nat)}" by (auto simp: block_def fin_def umem1_def)
  with free_returns_block [OF umem1_heap, of 8240] show ?thesis by auto
qed

text \<open>
  For the largest request the argument of \<open>sbrk\<close> is cut to an \<open>int\<close>: \<open>malloc\<close> asks for 16 bytes while
  the header it sets records 268435457 units.
\<close>

lemma morecore_truncates:
  "morecore sbrk ((4294967295 + 15) div 16 + 1) m s =
     (case sbrk 16 s of
        (None, s') \<Rightarrow> Some (None, m, s')
      | (Some hp, s') \<Rightarrow> map_option (\<lambda>m'. (Some (freep m'), m', s'))
          (free (hp + 16) (m\<lparr>s_size := (s_size m)(hp := 268435457)\<rparr>)))"
  by (simp add: morecore_def)

end
