(* ===== verification/Kpipe.thy ===== *)
theory Kpipe
  imports Prelude
begin

text \<open>
  Kernel pipes, \<^verbatim>\<open>src/kernel/filesystem/pipe.zig\<close>: a 512-byte ring with two 32-bit counters that
  only ever grow.  Their additions and subtractions are the checked ones of the language: an
  overflow is illegal behaviour, the result \<open>PIllegal\<close>, and the theorems say exactly when a call
  comes to it.  An operation runs under the pipe's lock until it returns or
  goes to sleep, and that is one step of the model: \<open>PSleep\<close> holds what is left to do when the
  process is woken.  The bytes to write are given (the user buffer is readable), the bytes read are
  returned.  The property that matters is that the ring is a FIFO queue of at most 512 bytes.
\<close>

definition pipe_size :: nat where "pipe_size = 512"

record pipe =
  data :: "byte list"
  read_count :: uint
  write_count :: uint
  read_is_open :: bool
  write_is_open :: bool

definition pipe_alloc :: "byte list \<Rightarrow> pipe" where
  "pipe_alloc page = \<lparr>data = page, read_count = 0, write_count = 0, read_is_open = True, write_is_open = True\<rparr>"

text \<open>The second component tells whether the pipe's page is freed.\<close>

definition pipe_close :: "pipe \<Rightarrow> bool \<Rightarrow> pipe \<times> bool" where
  "pipe_close p close_write =
     (let p' = (if close_write then p\<lparr>write_is_open := False\<rparr> else p\<lparr>read_is_open := False\<rparr>)
      in (p', \<not> read_is_open p' \<and> \<not> write_is_open p'))"

datatype ('a, 'b) pipe_result = PDone 'a pipe | PError pipe | PSleep 'b pipe | PIllegal

text \<open>Checked arithmetic on \<^verbatim>\<open>u32\<close>; \<^term>\<open>None\<close> is an overflow.\<close>

definition checked_add :: "uint \<Rightarrow> uint \<Rightarrow> uint option" where
  "checked_add a b = (if unat a + unat b < 2 ^ 32 then Some (a + b) else None)"

definition checked_sub :: "uint \<Rightarrow> uint \<Rightarrow> uint option" where
  "checked_sub a b = (if b \<le> a then Some (a - b) else None)"

text \<open>One round of the write loop when the pipe is not full: how many bytes are copied, and the pipe.\<close>

definition pipe_put :: "pipe \<Rightarrow> byte list \<Rightarrow> (nat \<times> pipe) option" where
  "pipe_put p bs = do {
     used \<leftarrow> checked_sub (write_count p) (read_count p);
     available_space \<leftarrow> checked_sub 512 used;
     let bytes_to_write = min (unat available_space) (length bs);
     let write_position = unat (write_count p) mod pipe_size;
     let bytes_until_end = pipe_size - write_position;
     let chunked_write_count = min bytes_until_end bytes_to_write;
     write_count' \<leftarrow> checked_add (write_count p) (of_nat chunked_write_count);
     Some (chunked_write_count,
       p\<lparr>data := overlay (data p) write_position (take chunked_write_count bs), write_count := write_count'\<rparr>)
   }"

lemma pipe_put_progress:
  assumes "pipe_put p bs = Some (k, p')" and "bs \<noteq> []" and "write_count p \<noteq> read_count p + 512"
  shows "0 < k"
proof -
  have "512 - (write_count p - read_count p) \<noteq> 0" using assms(3) by (auto simp: algebra_simps)
  then have "0 < unat (512 - (write_count p - read_count p))" by (simp add: unat_gt_0)
  then show ?thesis using assms(1,2)
    by (auto simp: pipe_put_def Let_def pipe_size_def checked_add_def checked_sub_def split: Option.bind_splits if_splits)
qed

text \<open>\<open>PSleep\<close> keeps the number of bytes written so far and the bytes still to write.\<close>

function pipe_write :: "bool \<Rightarrow> pipe \<Rightarrow> byte list \<Rightarrow> nat \<Rightarrow> (nat, nat \<times> byte list) pipe_result" where
  "pipe_write killed p bs bytes_written =
     (if bs = [] then PDone bytes_written p
      else if \<not> read_is_open p then PError p
      else if killed then PError p
      else case checked_add (read_count p) 512 of
          None \<Rightarrow> PIllegal
        | Some full_count \<Rightarrow>
            if write_count p = full_count then PSleep (bytes_written, bs) p
            else case pipe_put p bs of
                None \<Rightarrow> PIllegal
              | Some (n, p') \<Rightarrow> pipe_write killed p' (drop n bs) (bytes_written + n))"
  by pat_completeness auto
termination
proof (relation "measure (\<lambda>(killed, p, bs, n). length bs)", goal_cases)
  case (2 killed p bs bytes_written full_count x n p')
  then have "0 < n" using pipe_put_progress [of p bs n p'] by (auto simp: checked_add_def split: if_splits)
  with 2 show ?case by simp
qed simp

definition pipe_get_count :: "pipe \<Rightarrow> uint \<Rightarrow> nat \<Rightarrow> nat" where
  "pipe_get_count p bytes_remaining wanted =
     (let bytes_to_read = min (unat bytes_remaining) wanted;
          bytes_until_end = pipe_size - unat (read_count p) mod pipe_size
      in min bytes_until_end bytes_to_read)"

text \<open>\<^term>\<open>None\<close> is an overflow.\<close>

function pipe_read_loop :: "pipe \<Rightarrow> nat \<Rightarrow> nat \<Rightarrow> byte list \<Rightarrow> (byte list \<times> pipe) option" where
  "pipe_read_loop p n bytes_read acc =
     (if bytes_read < n then
        case checked_sub (write_count p) (read_count p) of
          None \<Rightarrow> None
        | Some bytes_remaining \<Rightarrow>
            if bytes_remaining = 0 then Some (acc, p)
            else
              let read_position = unat (read_count p) mod pipe_size;
                  k = pipe_get_count p bytes_remaining (n - bytes_read)
              in case checked_add (read_count p) (of_nat k) of
                   None \<Rightarrow> None
                 | Some read_count' \<Rightarrow>
                     pipe_read_loop (p\<lparr>read_count := read_count'\<rparr>) n (bytes_read + k)
                       (acc @ segment read_position (read_position + k) (data p))
      else Some (acc, p))"
  by pat_completeness auto
termination
proof (relation "measure (\<lambda>(p, n, m, acc). n - m)", goal_cases)
  case (2 p n bytes_read acc bytes_remaining x xa x2)
  then have "0 < unat bytes_remaining" by (simp add: unat_gt_0)
  with 2 have "0 < pipe_get_count p bytes_remaining (n - bytes_read)"
    by (auto simp: pipe_get_count_def Let_def pipe_size_def)
  with 2 show ?case by auto
qed simp

definition pipe_read :: "bool \<Rightarrow> pipe \<Rightarrow> nat \<Rightarrow> (byte list, unit) pipe_result" where
  "pipe_read killed p n =
     (if read_count p = write_count p \<and> write_is_open p
      then if killed then PError p else PSleep () p
      else case pipe_read_loop p n 0 [] of None \<Rightarrow> PIllegal | Some (bs, p') \<Rightarrow> PDone bs p')"

declare pipe_write.simps [simp del] pipe_read_loop.simps [simp del]

text \<open>The queue in the ring, oldest byte first, and the invariant.\<close>

definition fill :: "pipe \<Rightarrow> nat" where
  "fill p = unat (write_count p - read_count p)"

definition queue :: "pipe \<Rightarrow> byte list" where
  "queue p = map (\<lambda>i. data p ! ((unat (read_count p) + i) mod 512)) [0..<fill p]"

definition pipe_inv :: "pipe \<Rightarrow> bool" where
  "pipe_inv p \<longleftrightarrow> length (data p) = 512 \<and> read_count p \<le> write_count p \<and> fill p \<le> 512"

lemma length_queue [simp]: "length (queue p) = fill p"
  by (simp add: queue_def)

lemma unat_add_mod_512: "unat (x + of_nat n :: uint) mod 512 = (unat x + n) mod 512"
proof -
  have "unat (x + of_nat n) = (unat x + n) mod 2 ^ 32"
    by (simp add: unat_word_ariths unat_of_nat mod_add_right_eq)
  then show ?thesis by (simp add: mod_mod_cancel)
qed

lemma write_position: "unat (write_count p) mod 512 = (unat (read_count p) + fill p) mod 512"
  using unat_add_mod_512 [of "read_count p" "fill p"] by (simp add: fill_def)

lemma fill_full: "write_count p = read_count p + 512 \<longleftrightarrow> fill p = 512"
proof -
  have "write_count p = read_count p + 512 \<longleftrightarrow> write_count p - read_count p = 512"
    by (auto simp: algebra_simps)
  also have "\<dots> \<longleftrightarrow> fill p = 512" by (simp add: fill_def word_unat_eq_iff)
  finally show ?thesis .
qed

text \<open>Writing appends to the queue.\<close>

lemma mod_512_inj: "(r + i) mod 512 = (r + j) mod 512 \<Longrightarrow> i < j + 512 \<Longrightarrow> j < i + 512 \<Longrightarrow> i = (j::nat)"
proof (induction i j rule: linorder_wlog)
  case (le i j)
  then have "512 dvd j - i" using mod_eq_dvd_iff_nat [of "r + i" "r + j" 512] by simp
  moreover have "j - i < 512" using le by simp
  ultimately show ?case using le(1) by (metis dvd_imp_le gr0I linorder_not_le diff_is_0_eq order_antisym)
qed simp

lemma ring_position:
  assumes "(r + c) mod 512 + j < (512::nat)"
  shows "(r + (c + j)) mod 512 = (r + c) mod 512 + j"
proof -
  have "(r + (c + j)) mod 512 = ((r + c) mod 512 + j) mod 512"
    by (simp only: mod_add_left_eq add.assoc [symmetric])
  with assms show ?thesis by simp
qed

text \<open>A round of the write loop, and that it is legal while the reader's counter is not near the end.\<close>

lemma pipe_put_SomeD:
  assumes "pipe_put p bs = Some (k, p')"
  shows "k = min (512 - (unat (read_count p) + fill p) mod 512) (min (512 - fill p) (length bs))"
    and "unat (write_count p) + k < 2 ^ 32"
    and "p' = p\<lparr>data := overlay (data p) (unat (write_count p) mod 512) (take k bs), write_count := write_count p + of_nat k\<rparr>"
proof -
  have av: "unat (512 - (write_count p - read_count p)) = 512 - fill p" if "write_count p - read_count p \<le> 512"
    using that by (simp add: fill_def unat_sub)
  from assms show k: "k = min (512 - (unat (read_count p) + fill p) mod 512) (min (512 - fill p) (length bs))"
    by (auto simp: pipe_put_def Let_def pipe_size_def checked_add_def checked_sub_def av write_position
        split: Option.bind_splits if_splits)
  then have "k \<le> 512" by linarith
  then have "unat (of_nat k :: uint) = k" by (simp add: unat_of_nat)
  with assms show "unat (write_count p) + k < 2 ^ 32"
    by (auto simp: pipe_put_def Let_def checked_add_def split: Option.bind_splits if_splits)
  from assms show "p' = p\<lparr>data := overlay (data p) (unat (write_count p) mod 512) (take k bs), write_count := write_count p + of_nat k\<rparr>"
    by (auto simp: pipe_put_def Let_def pipe_size_def checked_add_def split: Option.bind_splits if_splits)
qed

lemma unat_write_count: "read_count p \<le> write_count p \<Longrightarrow> unat (write_count p) = unat (read_count p) + fill p"
  by (simp add: fill_def unat_sub word_le_nat_alt)

lemma pipe_put_legal:
  assumes "pipe_inv p" and "unat (read_count p) + 512 < 2 ^ 32"
  shows "\<exists>k p'. pipe_put p bs = Some (k, p')"
proof -
  have le: "write_count p - read_count p \<le> 512" "read_count p \<le> write_count p"
    using assms(1) by (simp_all add: pipe_inv_def fill_def word_le_nat_alt)
  then have av: "unat (512 - (write_count p - read_count p)) = 512 - fill p" by (simp add: fill_def unat_sub)
  let ?k = "min (512 - unat (write_count p) mod 512) (min (512 - fill p) (length bs))"
  have "?k \<le> 512 - fill p" by linarith
  moreover have "fill p \<le> 512" using assms(1) by (simp add: pipe_inv_def)
  ultimately have "unat (write_count p) + ?k < 2 ^ 32" "?k \<le> 512" using assms(2) unat_write_count [OF le(2)] by linarith+
  then have "unat (write_count p) + unat (of_nat ?k :: uint) < 2 ^ 32" by (simp add: unat_of_nat del: of_nat_min)
  then show ?thesis using le by (simp add: pipe_put_def Let_def pipe_size_def checked_add_def checked_sub_def av del: of_nat_min)
qed

lemma pipe_put_queue:
  assumes "pipe_inv p" and "pipe_put p bs = Some (k, p')"
  shows "pipe_inv p' \<and> queue p' = queue p @ take k bs \<and> k \<le> length bs \<and> fill p' = fill p + k \<and> read_count p' = read_count p"
proof -
  let ?r = "unat (read_count p)" and ?c = "fill p"
  let ?pos = "(?r + ?c) mod 512"
  note P = pipe_put_SomeD [OF assms(2)]
  note k = P(1)
  have d: "data p' = overlay (data p) ?pos (take k bs)" "read_count p' = read_count p"
    by (simp_all add: P(3) write_position)
  have "?c \<le> 512" and "?pos < 512" using assms(1) by (simp_all add: pipe_inv_def)
  with k have c: "?c + k \<le> 512" and kl: "k \<le> length bs" and pk: "?pos + k \<le> 512" by linarith+
  have k': "unat (of_nat k :: uint) = k" using c by (simp add: unat_of_nat)
  have le: "read_count p \<le> write_count p" using assms(1) by (simp add: pipe_inv_def)
  have w: "unat (write_count p') = unat (write_count p) + k"
    using P(2) k' by (simp add: P(3) unat_word_ariths)
  then have le': "read_count p' \<le> write_count p'" using le by (simp add: d(2) word_le_nat_alt)
  then have f: "fill p' = ?c + k" using w unat_write_count [OF le] unat_write_count [OF le'] by (simp add: d(2))
  have len: "length (data p) = 512" using assms(1) by (simp add: pipe_inv_def)
  have "data p' ! ((?r + i) mod 512) = (if i < ?c then data p ! ((?r + i) mod 512) else bs ! (i - ?c))"
    if i: "i < ?c + k" for i
  proof (cases "i < ?c")
    case True
    have "\<not> (?pos \<le> (?r + i) mod 512 \<and> (?r + i) mod 512 < ?pos + k)"
    proof
      assume "?pos \<le> (?r + i) mod 512 \<and> (?r + i) mod 512 < ?pos + k"
      then obtain j where j: "j < k" "(?r + i) mod 512 = ?pos + j" by (auto simp: le_iff_add)
      then have "(?r + i) mod 512 = (?r + (?c + j)) mod 512"
        using pk by (subst ring_position) simp_all
      with True j c show False using mod_512_inj [of ?r i "?c + j"] by simp
    qed
    with True len pk kl show ?thesis by (auto simp: d nth_overlay min_absorb2)
  next
    case False
    define j where "j = i - ?c"
    have j: "i = ?c + j" "j < k" using False i by (simp_all add: j_def)
    then have "(?r + i) mod 512 = ?pos + j"
      using pk by (simp only: ring_position)
    with False j len pk kl show ?thesis by (simp add: d nth_overlay min_absorb2)
  qed
  then have "queue p' = queue p @ take k bs"
    using kl by (intro nth_equalityI) (auto simp: f d(2) queue_def nth_append)
  with f c kl pk len le' show ?thesis by (simp add: pipe_inv_def d min_absorb2)
qed

text \<open>The only illegal write is one that meets a reader's counter within 512 of the end.\<close>

lemma checked_add_512: "checked_add (read_count p) 512 =
    (if unat (read_count p) + 512 < 2 ^ 32 then Some (read_count p + 512) else None)"
  by (simp add: checked_add_def)

lemma pipe_write_queue:
  "pipe_inv p \<Longrightarrow>
   (case pipe_write killed p bs n of
      PDone n' p' \<Rightarrow> pipe_inv p' \<and> queue p' = queue p @ bs \<and> n' = n + length bs \<and> read_count p' = read_count p
    | PSleep (n', rest) p' \<Rightarrow> pipe_inv p' \<and> fill p' = 512 \<and> rest \<noteq> [] \<and> read_count p' = read_count p \<and>
        (\<exists>done. bs = done @ rest \<and> queue p' = queue p @ done \<and> n' = n + length done)
    | PError p' \<Rightarrow> bs \<noteq> [] \<and> p' = p \<and> (killed \<or> \<not> read_is_open p)
    | PIllegal \<Rightarrow> bs \<noteq> [] \<and> \<not> killed \<and> read_is_open p \<and> 2 ^ 32 \<le> unat (read_count p) + 512)"
proof (induction killed p bs n rule: pipe_write.induct)
  case (1 killed p bs n)
  show ?case
  proof (cases "bs = [] \<or> \<not> read_is_open p \<or> killed \<or> \<not> unat (read_count p) + 512 < 2 ^ 32 \<or> write_count p = read_count p + 512")
    case True
    with "1.prems" show ?thesis
      by (subst pipe_write.simps) (auto simp: fill_full checked_add_512)
  next
    case False
    then have c: "checked_add (read_count p) 512 = Some (read_count p + 512)" by (simp add: checked_add_512)
    obtain k p1 where kp: "pipe_put p bs = Some (k, p1)" using pipe_put_legal [OF "1.prems"] False by blast
    note q = pipe_put_queue [OF "1.prems" kp]
    have ro: "read_is_open p1 = read_is_open p" using pipe_put_SomeD(3) [OF kp] by simp
    have unf: "pipe_write killed p bs n = pipe_write killed p1 (drop k bs) (n + k)"
      using False kp c by (subst pipe_write.simps) simp
    have IH: "case pipe_write killed p1 (drop k bs) (n + k) of
      PDone n' p' \<Rightarrow> pipe_inv p' \<and> queue p' = queue p1 @ drop k bs \<and> n' = n + k + length (drop k bs) \<and> read_count p' = read_count p1
    | PSleep (n', rest) p' \<Rightarrow> pipe_inv p' \<and> fill p' = 512 \<and> rest \<noteq> [] \<and> read_count p' = read_count p1 \<and>
        (\<exists>done. drop k bs = done @ rest \<and> queue p' = queue p1 @ done \<and> n' = n + k + length done)
    | PError p' \<Rightarrow> drop k bs \<noteq> [] \<and> p' = p1 \<and> (killed \<or> \<not> read_is_open p1)
    | PIllegal \<Rightarrow> drop k bs \<noteq> [] \<and> \<not> killed \<and> read_is_open p1 \<and> 2 ^ 32 \<le> unat (read_count p1) + 512"
      using False q kp c by (intro "1.IH") auto
    show ?thesis
    proof (cases "pipe_write killed p1 (drop k bs) (n + k)")
      case (PSleep x p')
      obtain n' rest where x: "x = (n', rest)" by (cases x)
      from IH PSleep x obtain dn where dn: "drop k bs = dn @ rest" "queue p' = queue p1 @ dn" "n' = n + k + length dn"
        by auto
      then have "bs = (take k bs @ dn) @ rest" by (metis append.assoc append_take_drop_id)
      with dn IH q unf PSleep x show ?thesis by (fastforce intro: exI [of _ "take k bs @ dn"])
    qed (use IH q unf ro False in auto)
  qed
qed

lemma pipe_write_illegal:
  assumes "bs \<noteq> []" and "read_is_open p" and "2 ^ 32 \<le> unat (read_count p) + 512"
  shows "pipe_write False p bs n = PIllegal"
  using assms by (subst pipe_write.simps) (simp add: checked_add_512)

text \<open>Reading takes from the front of the queue.\<close>

lemma pipe_get_chunk:
  assumes "pipe_inv p" and "k = pipe_get_count p (write_count p - read_count p) w" and "pos = unat (read_count p) mod pipe_size"
    and "p1 = p\<lparr>read_count := read_count p + of_nat k\<rparr>"
  shows "k \<le> w" and "k \<le> fill p" and "segment pos (pos + k) (data p) = take k (queue p)"
    and "pipe_inv p1" and "queue p1 = drop k (queue p)" and "fill p1 = fill p - k"
    and "unat (read_count p1) = unat (read_count p) + k" and "checked_add (read_count p) (of_nat k) = Some (read_count p1)"
proof -
  let ?r = "unat (read_count p)"
  have k: "k = min (512 - pos) (min (fill p) w)"
    using assms by (simp add: pipe_get_count_def Let_def pipe_size_def fill_def)
  have "pos < 512" using assms by (simp add: pipe_size_def)
  with k show kw: "k \<le> w" and kf: "k \<le> fill p" by linarith+
  from k \<open>pos < 512\<close> have pk: "pos + k \<le> 512" by linarith
  have len: "length (data p) = 512" and c: "fill p \<le> 512" and le: "read_count p \<le> write_count p"
    using assms(1) by (simp_all add: pipe_inv_def)
  have k': "unat (of_nat k :: uint) = k" using kf c by (simp add: unat_of_nat)
  have "?r + fill p < 2 ^ 32" using unat_write_count [OF le] unsigned_less [of "write_count p", where ?'a = nat] by simp
  then have lt: "?r + k < 2 ^ 32" using kf by linarith
  then show r1: "unat (read_count p1) = ?r + k" and ca: "checked_add (read_count p) (of_nat k) = Some (read_count p1)"
    using k' by (simp_all add: assms(4) checked_add_def unat_word_ariths)
  show "segment pos (pos + k) (data p) = take k (queue p)"
  proof (rule nth_equalityI)
    fix i assume "i < length (segment pos (pos + k) (data p))"
    then have i: "i < k" using len pk by simp
    then have "(?r + i) mod 512 = pos + i"
      using ring_position [of ?r 0 i] pk assms(3) by (simp add: pipe_size_def)
    with i kf len pk show "segment pos (pos + k) (data p) ! i = take k (queue p) ! i"
      by (simp add: queue_def segment_simps)
  qed (use len pk kf in simp)
  have "write_count p1 - read_count p1 = (write_count p - read_count p) - of_nat k"
    by (simp add: assms(4))
  also have "\<dots> = of_nat (fill p - k)" using kf by (simp add: fill_def of_nat_diff)
  finally show f: "fill p1 = fill p - k" using c
    by (simp only: fill_def [of p1]) (simp add: unat_of_nat del: of_nat_diff)
  have "fill p - k \<le> 512" using c by linarith
  moreover have "read_count p1 \<le> write_count p1"
    using r1 kf unat_write_count [OF le] by (simp add: word_le_nat_alt assms(4))
  ultimately show "pipe_inv p1" using f len by (simp add: pipe_inv_def assms(4))
  have "(unat (read_count p + of_nat k) + i) mod 512 = (?r + k + i) mod 512" for i
    using unat_add_mod_512 [of "read_count p" k] by (metis mod_add_left_eq)
  then show "queue p1 = drop k (queue p)"
    using f kf by (intro nth_equalityI) (simp_all add: queue_def assms(4) add.assoc less_diff_conv add.left_commute [of k] add.commute [of _ k])
qed

lemma pipe_read_loop_queue:
  "pipe_inv p \<Longrightarrow> m \<le> n \<Longrightarrow> \<exists>p'. pipe_read_loop p n m acc = Some (acc @ take (n - m) (queue p), p') \<and>
     pipe_inv p' \<and> queue p' = drop (n - m) (queue p) \<and>
     unat (read_count p') = unat (read_count p) + min (n - m) (fill p)"
proof (induction p n m acc rule: pipe_read_loop.induct)
  case (1 p n m acc)
  have cs: "checked_sub (write_count p) (read_count p) = Some (write_count p - read_count p)"
    using "1.prems" by (simp add: checked_sub_def pipe_inv_def)
  show ?case
  proof (cases "m < n \<and> write_count p - read_count p \<noteq> 0")
    case False
    with "1.prems" have "m = n \<or> fill p = 0" by (auto simp: fill_def)
    with False cs "1.prems" show ?thesis
      by (subst pipe_read_loop.simps) (auto simp flip: length_queue)
  next
    case True
    define k where "k = pipe_get_count p (write_count p - read_count p) (n - m)"
    define pos where "pos = unat (read_count p) mod pipe_size"
    define p1 where "p1 = p\<lparr>read_count := read_count p + of_nat k\<rparr>"
    note g = pipe_get_chunk [OF "1.prems"(1) k_def pos_def p1_def]
    have mk: "m + k \<le> n" using g(1) True by linarith
    have p1: "p\<lparr>read_count := read_count p1\<rparr> = p1" by (simp add: p1_def)
    have unf: "pipe_read_loop p n m acc = pipe_read_loop p1 n (m + k) (acc @ segment pos (pos + k) (data p))"
      using True cs g(8) p1 by (subst pipe_read_loop.simps) (simp add: Let_def k_def [symmetric] pos_def [symmetric])
    have "\<exists>p'. pipe_read_loop p1 n (m + k) (acc @ segment pos (pos + k) (data p)) =
        Some ((acc @ segment pos (pos + k) (data p)) @ take (n - (m + k)) (queue p1), p') \<and>
        pipe_inv p' \<and> queue p' = drop (n - (m + k)) (queue p1) \<and>
        unat (read_count p') = unat (read_count p1) + min (n - (m + k)) (fill p1)"
      using "1.IH" [OF _ cs _ pos_def k_def g(8)] True g(4) mk unfolding p1 by blast
    moreover have nm: "n - m = k + (n - (m + k))" using mk by linarith
    then have "take k (queue p) @ take (n - (m + k)) (drop k (queue p)) = take (n - m) (queue p)"
      by (simp only: take_add)
    moreover have "drop (n - (m + k)) (drop k (queue p)) = drop (n - m) (queue p)"
      using nm by (simp add: add.commute)
    moreover have "unat (read_count p1) + min (n - (m + k)) (fill p1) = unat (read_count p) + min (n - m) (fill p)"
      using g(2,6,7) nm by linarith
    ultimately show ?thesis using g(3,5) unf by auto
  qed
qed

text \<open>Reading and writing leave the ends of the pipe open or closed as they are.\<close>

definition same_ends :: "pipe \<Rightarrow> pipe \<Rightarrow> bool" where
  "same_ends p p' \<longleftrightarrow> read_is_open p' = read_is_open p \<and> write_is_open p' = write_is_open p"

lemma pipe_read_loop_ends: "pipe_read_loop p n m acc = Some (bs, p') \<Longrightarrow> same_ends p p'"
proof (induction p n m acc rule: pipe_read_loop.induct)
  case (1 p n m acc)
  show ?case
  proof (cases "m < n \<and> read_count p \<le> write_count p \<and> write_count p - read_count p \<noteq> 0")
    case False
    then show ?thesis using "1.prems"
      by (subst (asm) pipe_read_loop.simps) (auto simp: same_ends_def checked_sub_def split: if_splits)
  next
    case True
    then have cs: "checked_sub (write_count p) (read_count p) = Some (write_count p - read_count p)"
      by (simp add: checked_sub_def)
    show ?thesis
      using "1.prems" "1.IH" [OF _ cs _ refl refl] True cs
      by (subst (asm) pipe_read_loop.simps) (auto simp: same_ends_def Let_def split: option.splits)
  qed
qed

lemma pipe_read_queue:
  assumes "pipe_inv p" and "\<not> write_is_open p"
  shows "\<exists>p'. pipe_read killed p n = PDone (take n (queue p)) p' \<and> pipe_inv p' \<and> queue p' = drop n (queue p) \<and>
    \<not> write_is_open p'"
  using pipe_read_loop_queue [OF assms(1), of 0 n "[]"] pipe_read_loop_ends [of p n 0 "[]"] assms(2)
  by (fastforce simp: pipe_read_def same_ends_def)

lemma pipe_read_cases:
  assumes "pipe_inv p"
  shows "case pipe_read killed p n of
      PDone bs p' \<Rightarrow> pipe_inv p' \<and> bs = take n (queue p) \<and> queue p' = drop n (queue p) \<and>
        (queue p \<noteq> [] \<or> \<not> write_is_open p) \<and> unat (read_count p') = unat (read_count p) + length bs
    | PSleep _ p' \<Rightarrow> p' = p \<and> queue p = [] \<and> write_is_open p
    | PError p' \<Rightarrow> p' = p \<and> queue p = [] \<and> write_is_open p \<and> killed
    | PIllegal \<Rightarrow> False"
proof -
  have e: "read_count p = write_count p \<longleftrightarrow> queue p = []"
    by (auto simp: fill_def unat_eq_zero simp flip: length_0_conv)
  show ?thesis
    using pipe_read_loop_queue [OF assms, of 0 n "[]"] by (auto simp: pipe_read_def e min.commute)
qed

lemma pipe_write_ends:
  "case pipe_write killed p bs n of PDone _ p' \<Rightarrow> same_ends p p' | PSleep _ p' \<Rightarrow> same_ends p p' | PError p' \<Rightarrow> same_ends p p' | PIllegal \<Rightarrow> True"
proof (induction killed p bs n rule: pipe_write.induct)
  case (1 killed p bs n)
  show ?case
  proof (cases "bs = [] \<or> \<not> read_is_open p \<or> killed \<or> \<not> unat (read_count p) + 512 < 2 ^ 32 \<or>
      write_count p = read_count p + 512 \<or> pipe_put p bs = None")
    case True
    then show ?thesis by (subst pipe_write.simps) (auto simp: same_ends_def checked_add_512)
  next
    case False
    then obtain k p1 where kp: "pipe_put p bs = Some (k, p1)" by auto
    have c: "checked_add (read_count p) 512 = Some (read_count p + 512)" using False by (simp add: checked_add_512)
    have "same_ends p p1" using pipe_put_SomeD(3) [OF kp] by (simp add: same_ends_def)
    moreover have "pipe_write killed p bs n = pipe_write killed p1 (drop k bs) (n + k)"
      using False kp c by (subst pipe_write.simps) simp
    moreover have "case pipe_write killed p1 (drop k bs) (n + k) of PDone _ p' \<Rightarrow> same_ends p1 p' | PSleep _ p' \<Rightarrow> same_ends p1 p'
        | PError p' \<Rightarrow> same_ends p1 p' | PIllegal \<Rightarrow> True"
      using False kp c by (intro "1.IH") auto
    ultimately show ?thesis by (auto simp: same_ends_def split: pipe_result.splits)
  qed
qed

lemma pipe_read_ends:
  "case pipe_read killed p n of PDone _ p' \<Rightarrow> same_ends p p' | PSleep _ p' \<Rightarrow> same_ends p p' | PError p' \<Rightarrow> same_ends p p' | PIllegal \<Rightarrow> True"
  using pipe_read_loop_ends [of p n 0 "[]"] by (auto simp: pipe_read_def same_ends_def split: option.splits)

text \<open>
  C12. A kernel pipe is a bounded FIFO queue.  A write appends its bytes in order behind those
  already queued, and stops only at 512 queued bytes, with the unwritten rest left over; it fails,
  changing nothing, only when the process is killed or the read end is closed.  The arithmetic of
  the two 32-bit counters is checked: a write is illegal behaviour exactly when there is something
  to write, the reader is there, the process is not killed and the reader's counter has come within
  512 of \<open>2 ^ 32\<close>, that is when almost 4 GiB have gone through the pipe.
\<close>

theorem pipe_write_fifo:
  assumes "pipe_inv p"
  shows "(case pipe_write killed p bs n of
      PDone n' p' \<Rightarrow> pipe_inv p' \<and> queue p' = queue p @ bs \<and> n' = n + length bs
    | PSleep (n', rest) p' \<Rightarrow> pipe_inv p' \<and> fill p' = 512 \<and> rest \<noteq> [] \<and>
        (\<exists>done. bs = done @ rest \<and> queue p' = queue p @ done \<and> n' = n + length done)
    | PError p' \<Rightarrow> bs \<noteq> [] \<and> p' = p \<and> (killed \<or> \<not> read_is_open p)
    | PIllegal \<Rightarrow> True) \<and>
    (pipe_write killed p bs n = PIllegal \<longleftrightarrow>
      bs \<noteq> [] \<and> \<not> killed \<and> read_is_open p \<and> 2 ^ 32 \<le> unat (read_count p) + 512)"
  using pipe_write_queue [OF assms, where killed = killed and bs = bs and n = n] pipe_write_illegal [of bs p n]
  by (auto split: pipe_result.splits)

text \<open>A pipe through which 1022 bytes have gone, with two more in it, around the end of the ring.\<close>

definition used_pipe :: pipe where
  "used_pipe = \<lparr>data = (replicate 512 NUL)[510 := CHR ''a'', 511 := CHR ''b''], read_count = 1022, write_count = 1024,
     read_is_open = True, write_is_open = True\<rparr>"

lemma used_pipe: "pipe_inv used_pipe" "queue used_pipe = ''ab''" "fill used_pipe = 2"
proof -
  have "[0..<2] = [0, 1 :: nat]" by (simp add: upt_rec)
  then show "pipe_inv used_pipe" "queue used_pipe = ''ab''" "fill used_pipe = 2"
    by (simp_all add: pipe_inv_def used_pipe_def fill_def queue_def)
qed

theorem pipe_write_fifo_witness:
  "\<exists>p'. pipe_write False used_pipe ''hello'' 0 = PDone 5 p' \<and> queue p' = ''abhello'' \<and> write_count p' = 1029"
proof -
  have "\<exists>p'. pipe_write False used_pipe ''hello'' 0 = PDone 5 p' \<and> write_count p' = 1029"
    by (simp add: pipe_write.simps used_pipe_def pipe_put_def Let_def pipe_size_def checked_add_def checked_sub_def)
  then show ?thesis
    using pipe_write_fifo [where killed = False and bs = "''hello''" and n = 0, OF used_pipe(1)] used_pipe(2) by auto
qed

text \<open>
  C13. Reading from a pipe returns the oldest bytes, as many as are wanted and queued, and removes
  exactly those; a reader sleeps only on an empty pipe whose write end is open, and an empty pipe
  whose write end is closed gives end of file.  The checked arithmetic of the read loop never
  overflows.
\<close>

theorem pipe_read_fifo:
  assumes "pipe_inv p"
  shows "case pipe_read killed p n of
      PDone bs p' \<Rightarrow> pipe_inv p' \<and> bs = take n (queue p) \<and> queue p' = drop n (queue p) \<and>
        (queue p \<noteq> [] \<or> \<not> write_is_open p)
    | PSleep _ p' \<Rightarrow> p' = p \<and> queue p = [] \<and> write_is_open p
    | PError p' \<Rightarrow> p' = p \<and> queue p = [] \<and> write_is_open p \<and> killed
    | PIllegal \<Rightarrow> False"
  using pipe_read_cases [OF assms, where killed = killed and n = n] by (simp split: pipe_result.splits)

theorem pipe_read_fifo_witness:
  "\<exists>p'. pipe_read False used_pipe 10 = PDone ''ab'' p' \<and> queue p' = []"
  using pipe_read_fifo [where killed = False and n = 10, OF used_pipe(1)] used_pipe
  by (cases "pipe_read False used_pipe 10") auto

end
