(* ===== verification/Kinode.thy ===== *)
theory Kinode
  imports Prelude
begin

text \<open>
  Reading and writing the data of an inode, \<open>read\<close> and \<open>write\<close> of
  \<^verbatim>\<open>src/kernel/filesystem/inode.zig\<close>.  A file is a size and a sequence of 1024-byte blocks; both
  operations walk the blocks that the byte range touches.  Which disk block backs a file block is
  the business of \<open>getBlock\<close>: it is the parameter \<open>gb\<close>, which tells for every file block whether
  \<open>getBlock\<close> finds or allocates it (it fails when the disk is full).  User buffers are readable and
  writable.  The theorems say that the block walk reads and writes a flat sequence of bytes.
\<close>

definition block_size :: nat where "block_size = 1024"
definition max_file_block_count :: nat where "max_file_block_count = 12 + block_size div 4"

record inode =
  i_size :: nat
  i_block :: "nat \<Rightarrow> byte list"

text \<open>
  \<open>off\<close> is \<open>current_offset\<close>, \<open>n\<close> the number of bytes still to read, \<open>acc\<close> what has been copied out.
\<close>

function inode_read_loop :: "(nat \<Rightarrow> bool) \<Rightarrow> inode \<Rightarrow> nat \<Rightarrow> nat \<Rightarrow> byte list \<Rightarrow> byte list" where
  "inode_read_loop gb ip off n acc =
     (if 0 < n \<and> gb (off div block_size) then
        let block_offset = off mod block_size;
            bytes_this_block = min n (block_size - block_offset)
        in inode_read_loop gb ip (off + bytes_this_block) (n - bytes_this_block)
             (acc @ segment block_offset (block_offset + bytes_this_block) (i_block ip (off div block_size)))
      else acc)"
  by pat_completeness auto
termination
  by (relation "measure (\<lambda>(gb, ip, off, n, acc). n)") (auto simp: block_size_def)

definition inode_read :: "(nat \<Rightarrow> bool) \<Rightarrow> inode \<Rightarrow> nat \<Rightarrow> nat \<Rightarrow> byte list option" where
  "inode_read gb ip off count =
     (if off > i_size ip then Some []
      else if off + count \<ge> 2 ^ 32 then None
      else let bytes_to_read = (if off + count > i_size ip then i_size ip - off else count)
           in Some (inode_read_loop gb ip off bytes_to_read []))"

function inode_write_loop :: "(nat \<Rightarrow> bool) \<Rightarrow> inode \<Rightarrow> nat \<Rightarrow> byte list \<Rightarrow> inode \<times> nat" where
  "inode_write_loop gb ip off src =
     (if src \<noteq> [] \<and> gb (off div block_size) then
        let b = off div block_size;
            block_offset = off mod block_size;
            bytes_this_block = min (length src) (block_size - block_offset)
        in inode_write_loop gb
             (ip\<lparr>i_block := (i_block ip)(b := overlay (i_block ip b) block_offset (take bytes_this_block src))\<rparr>)
             (off + bytes_this_block) (drop bytes_this_block src)
      else (ip, off))"
  by pat_completeness auto
termination
  by (relation "measure (\<lambda>(gb, ip, off, src). length src)") (auto simp: block_size_def)

text \<open>The result is the number of bytes written, \<^term>\<open>None\<close> for the three errors.\<close>

definition inode_write :: "(nat \<Rightarrow> bool) \<Rightarrow> inode \<Rightarrow> nat \<Rightarrow> byte list \<Rightarrow> (nat \<times> inode) option" where
  "inode_write gb ip off src =
     (if off > i_size ip then None
      else if off + length src \<ge> 2 ^ 32 then None
      else if off + length src > block_size * max_file_block_count then None
      else case inode_write_loop gb ip off src of
          (ip', off') \<Rightarrow> Some (off' - off, if off' > i_size ip' then ip'\<lparr>i_size := off'\<rparr> else ip'))"

definition inode_truncate :: "inode \<Rightarrow> inode" where
  "inode_truncate ip = ip\<lparr>i_size := 0\<rparr>"

declare inode_read_loop.simps [simp del] inode_write_loop.simps [simp del]

text \<open>The flat view: byte \<open>i\<close> of the data, and the content of the file.\<close>

definition byte_at :: "inode \<Rightarrow> nat \<Rightarrow> byte" where
  "byte_at ip i = i_block ip (i div block_size) ! (i mod block_size)"

definition file_content :: "inode \<Rightarrow> byte list" where
  "file_content ip = map (byte_at ip) [0..<i_size ip]"

definition inode_inv :: "inode \<Rightarrow> bool" where
  "inode_inv ip \<longleftrightarrow> (\<forall>b. length (i_block ip b) = block_size) \<and> i_size ip \<le> block_size * max_file_block_count"

lemma length_file_content [simp]: "length (file_content ip) = i_size ip"
  by (simp add: file_content_def)

lemma block_size_pos [simp]: "0 < block_size"
  by (simp add: block_size_def)

lemma byte_at_block:
  assumes "off mod block_size + k \<le> block_size" and "j < k"
  shows "byte_at ip (off + j) = i_block ip (off div block_size) ! (off mod block_size + j)"
proof -
  have "(off + j) div block_size = off div block_size" and "(off + j) mod block_size = off mod block_size + j"
    using assms by (simp_all add: div_add1_eq [of off] mod_add_eq [symmetric, of off] less_le_trans)
  then show ?thesis by (simp add: byte_at_def)
qed

lemma inode_read_loop_bytes:
  "inode_inv ip \<Longrightarrow> (\<And>b. b \<le> (off + n) div block_size \<Longrightarrow> gb b) \<Longrightarrow>
   inode_read_loop gb ip off n acc = acc @ map (byte_at ip) [off..<off + n]"
proof (induction gb ip off n acc rule: inode_read_loop.induct)
  case (1 gb ip off n acc)
  show ?case
  proof (cases "0 < n")
    case False
    then show ?thesis by (subst inode_read_loop.simps) simp
  next
    case True
    have gb: "gb (off div block_size)" by (intro "1.prems"(2) div_le_mono) simp
    define k where "k = min n (block_size - off mod block_size)"
    have k: "off mod block_size + k \<le> block_size" "k \<le> n" using mod_less_divisor [OF block_size_pos, of off] unfolding k_def by linarith+
    have seg: "segment (off mod block_size) (off mod block_size + k) (i_block ip (off div block_size)) =
        map (byte_at ip) [off..<off + k]"
      using "1.prems"(1) k by (intro nth_equalityI) (auto simp: inode_inv_def segment_simps byte_at_block)
    have "inode_read_loop gb ip (off + k) (n - k) (acc @ map (byte_at ip) [off..<off + k]) =
        (acc @ map (byte_at ip) [off..<off + k]) @ map (byte_at ip) [off + k..<off + k + (n - k)]"
      using "1.IH" [of "off mod block_size" k] True gb "1.prems" k by (simp add: k_def [symmetric] seg)
    moreover have "[off..<off + n] = [off..<off + k] @ [off + k..<off + k + (n - k)]"
      using k by (metis add.assoc le_add_diff_inverse upt_add_eq_append le_add1)
    ultimately show ?thesis using True gb
      by (subst inode_read_loop.simps) (simp add: k_def [symmetric] seg Let_def)
  qed
qed

text \<open>Writing one block, and then the whole range.\<close>

lemma block_position:
  assumes "off mod block_size + k \<le> block_size"
  shows "i div block_size = off div block_size \<and> off mod block_size \<le> i mod block_size \<and>
      i mod block_size < off mod block_size + k \<longleftrightarrow> off \<le> i \<and> i < off + k"
proof
  assume l: "i div block_size = off div block_size \<and> off mod block_size \<le> i mod block_size \<and>
      i mod block_size < off mod block_size + k"
  have "i = off div block_size * block_size + i mod block_size" using l div_mult_mod_eq [of i block_size] by simp
  moreover have "off = off div block_size * block_size + off mod block_size" by simp
  ultimately show "off \<le> i \<and> i < off + k" using l by linarith
next
  assume "off \<le> i \<and> i < off + k"
  then obtain j where j: "i = off + j" "j < k" by (auto simp: le_iff_add)
  with assms have "off mod block_size + j < block_size" by linarith
  then have "i div block_size = off div block_size" "i mod block_size = off mod block_size + j"
    using j by (simp_all add: div_add1_eq [of off] mod_add_eq [symmetric, of off])
  with j show "i div block_size = off div block_size \<and> off mod block_size \<le> i mod block_size \<and>
      i mod block_size < off mod block_size + k" by simp
qed

lemma byte_at_write_block:
  assumes "\<And>b. length (i_block ip b) = block_size" and "off mod block_size + k \<le> block_size" and "length xs = k"
  shows "byte_at (ip\<lparr>i_block := (i_block ip)(off div block_size :=
      overlay (i_block ip (off div block_size)) (off mod block_size) xs)\<rparr>) i =
    (if off \<le> i \<and> i < off + k then xs ! (i - off) else byte_at ip i)"
proof -
  have sub: "i mod block_size - off mod block_size = i - off" if "i div block_size = off div block_size"
  proof -
    have "i = off div block_size * block_size + i mod block_size" using that div_mult_mod_eq [of i block_size] by simp
    moreover have "off = off div block_size * block_size + off mod block_size" by simp
    ultimately show ?thesis by linarith
  qed
  show ?thesis
    unfolding byte_at_def using assms block_position [OF assms(2), of i] sub by (auto simp: nth_overlay)
qed

lemma inode_write_loop_bytes:
  "(\<And>b. length (i_block ip b) = block_size) \<Longrightarrow>
   (\<And>b. b \<le> (off + length src) div block_size \<Longrightarrow> gb b) \<Longrightarrow>
   \<exists>ip'. inode_write_loop gb ip off src = (ip', off + length src) \<and>
     (\<forall>b. length (i_block ip' b) = block_size) \<and> i_size ip' = i_size ip \<and>
     (\<forall>i. byte_at ip' i = (if off \<le> i \<and> i < off + length src then src ! (i - off) else byte_at ip i))"
proof (induction gb ip off src rule: inode_write_loop.induct)
  case (1 gb ip off src)
  show ?case
  proof (cases "src = []")
    case True
    then show ?thesis using "1.prems" by (subst inode_write_loop.simps) auto
  next
    case False
    have gb: "gb (off div block_size)" by (intro "1.prems"(2) div_le_mono) simp
    define k where "k = min (length src) (block_size - off mod block_size)"
    have k: "off mod block_size + k \<le> block_size" "k \<le> length src"
      using mod_less_divisor [OF block_size_pos, of off] unfolding k_def by linarith+
    let ?ip = "ip\<lparr>i_block := (i_block ip)(off div block_size :=
        overlay (i_block ip (off div block_size)) (off mod block_size) (take k src))\<rparr>"
    have len: "length (i_block ?ip b) = block_size" for b using "1.prems"(1) k by (simp add: min_absorb2)
    have "\<exists>ip'. inode_write_loop gb ?ip (off + k) (drop k src) = (ip', off + k + length (drop k src)) \<and>
      (\<forall>b. length (i_block ip' b) = block_size) \<and> i_size ip' = i_size ?ip \<and>
      (\<forall>i. byte_at ip' i = (if off + k \<le> i \<and> i < off + k + length (drop k src)
         then drop k src ! (i - (off + k)) else byte_at ?ip i))"
      using "1.IH" [of "off div block_size" "off mod block_size" k] False gb "1.prems" k len
      by (simp add: k_def [symmetric] min_absorb2)
    moreover have "inode_write_loop gb ip off src = inode_write_loop gb ?ip (off + k) (drop k src)"
      using False gb by (subst inode_write_loop.simps) (simp add: k_def Let_def)
    moreover have "byte_at ?ip i = (if off \<le> i \<and> i < off + k then src ! (i - off) else byte_at ip i)" for i
      using byte_at_write_block [OF "1.prems"(1) k(1), of "take k src" i] k by (auto simp: min_absorb2)
    moreover have "off + k + length (drop k src) = off + length src" using k by simp
    ultimately show ?thesis by auto
  qed
qed

lemma inode_read_bytes:
  assumes "inode_inv ip" and "off \<le> i_size ip" and "off + count < 2 ^ 32" and "\<forall>b. gb b"
  shows "inode_read gb ip off count = Some (take count (drop off (file_content ip)))"
proof -
  let ?n = "min count (i_size ip - off)"
  have "inode_read gb ip off count = Some (inode_read_loop gb ip off ?n [])"
    using assms(2,3) by (auto simp: inode_read_def Let_def min_def)
  also have "\<dots> = Some (map (byte_at ip) [off..<off + ?n])"
    using inode_read_loop_bytes [OF assms(1), of off ?n gb "[]"] assms(4) by simp
  also have "map (byte_at ip) [off..<off + ?n] = take count (drop off (file_content ip))"
    using assms(2) by (intro nth_equalityI) (auto simp: file_content_def)
  finally show ?thesis .
qed

text \<open>
  C15. The block walk reads a flat file: reading \<open>count\<close> bytes at \<open>off\<close> gives exactly the bytes of
  the content from \<open>off\<close>, cut off at the end of the file, whatever block boundaries lie between.
\<close>

theorem inode_read_content:
  assumes "inode_inv ip" and "off \<le> i_size ip" and "off + count < 2 ^ 32" and "\<forall>b. gb b"
  shows "inode_read gb ip off count = Some (take count (drop off (file_content ip)))"
  using inode_read_bytes [OF assms] .

definition two_blocks :: inode where
  "two_blocks = \<lparr>i_size = 1100, i_block = (\<lambda>b. replicate 1024 (if b = 0 then CHR ''a'' else CHR ''b''))\<rparr>"

lemma two_blocks_facts: "inode_inv two_blocks" "i_size two_blocks = 1100"
  by (simp_all add: inode_inv_def two_blocks_def block_size_def max_file_block_count_def)

theorem inode_read_content_witness: "inode_read (\<lambda>_. True) two_blocks 1022 4 = Some ''aabb''"
proof -
  have "take 4 (drop 1022 (file_content two_blocks)) = map (byte_at two_blocks) [1022..<1026]"
    by (simp add: file_content_def two_blocks_facts take_map drop_map)
  also have "\<dots> = ''aabb''"
    by (simp add: byte_at_def two_blocks_def block_size_def)
  finally show ?thesis
    using inode_read_content [of two_blocks 1022 4 "\<lambda>_. True"] two_blocks_facts by simp
qed

lemma inode_write_bytes:
  assumes "inode_inv ip" and "off \<le> i_size ip" and "off + length src \<le> block_size * max_file_block_count"
    and "\<forall>b. gb b"
  shows "\<exists>ip'. inode_write gb ip off src = Some (length src, ip') \<and> inode_inv ip' \<and>
    file_content ip' = take off (file_content ip) @ src @ drop (off + length src) (file_content ip)"
proof -
  have lens: "\<And>b. length (i_block ip b) = block_size" using assms(1) by (simp add: inode_inv_def)
  from inode_write_loop_bytes [OF lens, of off src gb] assms(4) obtain ip1 where
    w: "inode_write_loop gb ip off src = (ip1, off + length src)"
      "\<forall>b. length (i_block ip1 b) = block_size" "i_size ip1 = i_size ip"
      "\<forall>i. byte_at ip1 i = (if off \<le> i \<and> i < off + length src then src ! (i - off) else byte_at ip i)"
    by auto
  define ip' where "ip' = (if off + length src > i_size ip then ip1\<lparr>i_size := off + length src\<rparr> else ip1)"
  have b: "off + length src < 2 ^ 32" using assms(3) by (simp add: block_size_def max_file_block_count_def)
  have "inode_write gb ip off src = Some (length src, ip')"
    using assms(2,3) b w by (simp add: inode_write_def ip'_def)
  moreover have "inode_inv ip'" using assms w by (simp add: inode_inv_def ip'_def)
  moreover have ba: "byte_at ip' i = (if off \<le> i \<and> i < off + length src then src ! (i - off) else byte_at ip i)" for i
    using w(4) by (simp add: ip'_def byte_at_def)
  have sz: "i_size ip' = max (i_size ip) (off + length src)" using w(3) by (simp add: ip'_def)
  have "file_content ip' = take off (file_content ip) @ src @ drop (off + length src) (file_content ip)"
    using assms(2) by (intro nth_equalityI) (auto simp: file_content_def sz ba nth_append)
  ultimately show ?thesis by blast
qed

text \<open>
  C14. Writing behaves as an update of the flat content: bytes before and behind the written range
  are kept, the range holds the new bytes, the file grows exactly when the range ends past its old
  end, and the invariant (block lengths, the maximal file size of 268 blocks) is kept.
\<close>

theorem inode_write_content:
  assumes "inode_inv ip" and "off \<le> i_size ip" and "off + length src \<le> block_size * max_file_block_count"
    and "\<forall>b. gb b"
  shows "\<exists>ip'. inode_write gb ip off src = Some (length src, ip') \<and> inode_inv ip' \<and>
    file_content ip' = take off (file_content ip) @ src @ drop (off + length src) (file_content ip)"
  using inode_write_bytes [OF assms] .


theorem inode_write_content_witness:
  "\<exists>ip'. inode_write (\<lambda>_. True) two_blocks 1099 ''xyz'' = Some (3, ip') \<and> i_size ip' = 1102"
proof -
  from inode_write_content [of two_blocks 1099 "''xyz''" "\<lambda>_. True"] two_blocks_facts
  obtain ip' where w: "inode_write (\<lambda>_. True) two_blocks 1099 ''xyz'' = Some (3, ip')"
      "file_content ip' = take 1099 (file_content two_blocks) @ ''xyz'' @ drop 1102 (file_content two_blocks)"
    by (auto simp: block_size_def max_file_block_count_def)
  have "length (file_content ip') = 1102" by (simp only: w(2)) (simp add: two_blocks_facts)
  with w(1) show ?thesis by simp
qed

end
