(* ===== verification/Prog.thy ===== *)
theory Prog
  imports Prelude
begin

text \<open>
  User programs as interaction trees.  A program is a tree whose nodes are the system calls of
  \<^verbatim>\<open>src/user/user.h\<close>; each node holds the call's arguments and, for every possible answer of
  the kernel, the rest of the program.  The answer is what the C code can observe: the integer
  returned, together with the bytes or words the kernel stores through the call's pointer
  arguments (\<^term>\<open>None\<close> where a call returns \<open>-1\<close> and stores nothing).  \<open>Fork\<close> needs no
  special treatment: the child and the parent are the same rest of the program, applied to 0 and
  to the child's pid.

  Two leaves are not calls: \<open>Crash\<close> is a process that faults (the kernel kills it), and
  \<open>OutOfFuel\<close> marks a loop that was given too few rounds; no theorem about a finished program
  counts it as a result.
\<close>

record stat =
  st_dev :: int
  st_ino :: uint
  st_type :: int
  st_nlink :: int
  st_size :: uint64

text \<open>The calls whose only answer is the \<open>int\<close> they return.\<close>

datatype icall =
    Write int string
  | Open string nat
  | Close int
  | Dup int
  | Fork
  | Kill int
  | Exec string "string list"
  | Mknod string int int
  | Unlink string
  | Link string string
  | Mkdir string
  | Chdir string
  | Getpid
  | Sbrk int
  | Sleep int
  | Uptime

datatype 'a prog =
    Ret 'a
  | Exit int
  | Crash
  | OutOfFuel
  | Call icall "int \<Rightarrow> 'a prog"
  | Read int nat "string option \<Rightarrow> 'a prog"
  | Pipe "(int \<times> int) option \<Rightarrow> 'a prog"
  | Fstat int "stat option \<Rightarrow> 'a prog"
  | Wait "int \<times> int \<Rightarrow> 'a prog"
  | Ringbuf string int uint64 "int \<times> uint64 \<Rightarrow> 'a prog"

primrec pbind :: "'a prog \<Rightarrow> ('a \<Rightarrow> 'b prog) \<Rightarrow> 'b prog" where
  "pbind (Ret x) f = f x"
| "pbind (Exit n) f = Exit n"
| "pbind Crash f = Crash"
| "pbind OutOfFuel f = OutOfFuel"
| "pbind (Call k c) f = Call k (\<lambda>r. pbind (c r) f)"
| "pbind (Read fd n c) f = Read fd n (\<lambda>r. pbind (c r) f)"
| "pbind (Pipe c) f = Pipe (\<lambda>r. pbind (c r) f)"
| "pbind (Fstat fd c) f = Fstat fd (\<lambda>r. pbind (c r) f)"
| "pbind (Wait c) f = Wait (\<lambda>r. pbind (c r) f)"
| "pbind (Ringbuf s n a c) f = Ringbuf s n a (\<lambda>r. pbind (c r) f)"

text \<open>A call whose result the program ignores.\<close>

abbreviation do_call :: "icall \<Rightarrow> 'a prog \<Rightarrow> 'a prog" where
  "do_call k p \<equiv> Call k (\<lambda>_. p)"

text \<open>
  A kernel, as one process sees it: how it answers each call and what state it is in after, or
  \<^term>\<open>None\<close> where the call sleeps until another process or a device acts.  \<open>Fork\<close>, \<open>Wait\<close>,
  \<open>Exec\<close> and \<open>Exit\<close> concern more than one process; a kernel given here answers them too (for a
  program that makes none of them the answer does not matter).
\<close>

record 'k kernel =
  k_call :: "icall \<Rightarrow> 'k \<Rightarrow> (int \<times> 'k) option"
  k_read :: "int \<Rightarrow> nat \<Rightarrow> 'k \<Rightarrow> (string option \<times> 'k) option"
  k_pipe :: "'k \<Rightarrow> ((int \<times> int) option \<times> 'k) option"
  k_fstat :: "int \<Rightarrow> 'k \<Rightarrow> (stat option \<times> 'k) option"
  k_wait :: "'k \<Rightarrow> ((int \<times> int) \<times> 'k) option"
  k_ringbuf :: "string \<Rightarrow> int \<Rightarrow> uint64 \<Rightarrow> 'k \<Rightarrow> ((int \<times> uint64) \<times> 'k) option"

datatype 'a outcome = Returned 'a | Exited int | Crashed | Unfinished | Blocked

definition answer :: "('r \<times> 'k) option \<Rightarrow> 'k \<Rightarrow> ('r \<Rightarrow> 'k \<Rightarrow> 'a outcome \<times> 'k) \<Rightarrow> 'a outcome \<times> 'k" where
  "answer a k f = (case a of None \<Rightarrow> (Blocked, k) | Some (r, k') \<Rightarrow> f r k')"

primrec run :: "('k, 'z) kernel_scheme \<Rightarrow> 'a prog \<Rightarrow> 'k \<Rightarrow> 'a outcome \<times> 'k" where
  "run K (Ret x) k = (Returned x, k)"
| "run K (Exit n) k = (Exited n, k)"
| "run K Crash k = (Crashed, k)"
| "run K OutOfFuel k = (Unfinished, k)"
| "run K (Call q c) k = answer (k_call K q k) k (\<lambda>r. run K (c r))"
| "run K (Read fd n c) k = answer (k_read K fd n k) k (\<lambda>r. run K (c r))"
| "run K (Pipe c) k = answer (k_pipe K k) k (\<lambda>r. run K (c r))"
| "run K (Fstat fd c) k = answer (k_fstat K fd k) k (\<lambda>r. run K (c r))"
| "run K (Wait c) k = answer (k_wait K k) k (\<lambda>r. run K (c r))"
| "run K (Ringbuf s n a c) k = answer (k_ringbuf K s n a k) k (\<lambda>r. run K (c r))"

lemma answer_simps [simp]:
  "answer None k f = (Blocked, k)" "answer (Some (r, k')) k f = f r k'"
  by (simp_all add: answer_def)

lemma pbind_Ret [simp]: "pbind p Ret = p"
  by (induction p) auto

lemma pbind_assoc: "pbind (pbind p f) g = pbind p (\<lambda>x. pbind (f x) g)"
  by (induction p) auto

lemma run_pbind:
  "run K (pbind p f) k =
     (case run K p k of
        (Returned x, k') \<Rightarrow> run K (f x) k'
      | (Exited n, k') \<Rightarrow> (Exited n, k')
      | (Crashed, k') \<Rightarrow> (Crashed, k')
      | (Unfinished, k') \<Rightarrow> (Unfinished, k')
      | (Blocked, k') \<Rightarrow> (Blocked, k'))"
  by (induction p arbitrary: k) (simp_all add: answer_def split: option.split prod.split)

text \<open>
  Programs that cannot fault and whose results satisfy \<open>P\<close>: no leaf \<open>Crash\<close> is reached, whatever the kernel answers within its
  interface: a read returns at most the bytes asked for, and writes to standard output complete.
\<close>

definition answer_ok :: "icall \<Rightarrow> int \<Rightarrow> bool" where
  "answer_ok k r \<longleftrightarrow> (\<forall>s. k = Write 1 s \<longrightarrow> r = int (length s))"

primrec yields :: "'a prog \<Rightarrow> ('a \<Rightarrow> bool) \<Rightarrow> bool" where
  "yields (Ret x) P \<longleftrightarrow> P x"
| "yields (Exit n) P \<longleftrightarrow> True"
| "yields Crash P \<longleftrightarrow> False"
| "yields OutOfFuel P \<longleftrightarrow> True"
| "yields (Call k c) P \<longleftrightarrow> (\<forall>r. answer_ok k r \<longrightarrow> yields (c r) P)"
| "yields (Read fd n c) P \<longleftrightarrow> (\<forall>r. (\<forall>bs. r = Some bs \<longrightarrow> length bs \<le> n) \<longrightarrow> yields (c r) P)"
| "yields (Pipe c) P \<longleftrightarrow> (\<forall>r. yields (c r) P)"
| "yields (Fstat fd c) P \<longleftrightarrow> (\<forall>r. yields (c r) P)"
| "yields (Wait c) P \<longleftrightarrow> (\<forall>r. yields (c r) P)"
| "yields (Ringbuf s n a c) P \<longleftrightarrow> (\<forall>r. yields (c r) P)"

lemma yields_mono: "yields p P \<Longrightarrow> (\<And>x. P x \<Longrightarrow> Q x) \<Longrightarrow> yields p Q"
  by (induction p) simp_all

definition crash_free :: "'a prog \<Rightarrow> bool" where
  "crash_free p \<longleftrightarrow> yields p (\<lambda>_. True)"

lemma yields_pbind: "yields p (\<lambda>x. yields (f x) Q) \<Longrightarrow> yields (pbind p f) Q"
  by (induction p) simp_all

lemma yields_then: "yields p (\<lambda>_. True) \<Longrightarrow> (\<And>x. yields (f x) Q) \<Longrightarrow> yields (pbind p f) Q"
  by (rule yields_pbind) (auto elim: yields_mono)

lemma yields_if: "(c \<Longrightarrow> yields p P) \<Longrightarrow> (\<not> c \<Longrightarrow> yields q P) \<Longrightarrow> yields (if c then p else q) P"
  by simp

end
