(* ===== verification/Ulib.thy ===== *)
theory Ulib
  imports Prelude
begin

text \<open>
  The string and memory routines of \<^verbatim>\<open>src/user/ulib/ulib.c\<close>, over the flat memory of
  \<^verbatim>\<open>Prelude\<close>.  Each routine takes the memory and its pointer arguments and returns its value
  and the memory it leaves, or \<^term>\<open>None\<close> where an access faults.  Every loop stops, at the
  latest at the end of the memory.  (\<open>gets\<close>, \<open>stat\<close> and \<open>_main\<close> make system calls and are in
  \<^verbatim>\<open>Stdio\<close>.)
\<close>

unbundle bit_operations_syntax

function strcpy_loop :: "mem \<Rightarrow> addr \<Rightarrow> addr \<Rightarrow> mem option" where
  "strcpy_loop m s t = do {
     c \<leftarrow> load m t;
     m' \<leftarrow> store m s c;
     if c \<noteq> NUL then strcpy_loop m' (s + 1) (t + 1) else Some m'
   }"
  by pat_completeness auto
termination
  by (relation "measure (\<lambda>(m, s, t). length m - t)") (auto simp: load_eq_Some store_eq_Some)

definition strcpy :: "mem \<Rightarrow> addr \<Rightarrow> addr \<Rightarrow> (addr \<times> mem) option" where
  "strcpy m s t = do { m' \<leftarrow> strcpy_loop m s t; Some (s, m') }"

function strcmp :: "mem \<Rightarrow> addr \<Rightarrow> addr \<Rightarrow> int option" where
  "strcmp m p q = do {
     a \<leftarrow> load m p;
     b \<leftarrow> load m q;
     if a \<noteq> NUL \<and> a = b then strcmp m (p + 1) (q + 1) else Some (byte_of a - byte_of b)
   }"
  by pat_completeness auto
termination
  by (relation "measure (\<lambda>(m, p, q). length m - p)") (auto simp: load_eq_Some)

function strlen_loop :: "mem \<Rightarrow> addr \<Rightarrow> nat \<Rightarrow> nat option" where
  "strlen_loop m s n = do {
     c \<leftarrow> load m (s + n);
     if c \<noteq> NUL then strlen_loop m s (n + 1) else Some n
   }"
  by pat_completeness auto
termination
  by (relation "measure (\<lambda>(m, s, n). length m - (s + n))") (auto simp: load_eq_Some)

definition strlen :: "mem \<Rightarrow> addr \<Rightarrow> uint option" where
  "strlen m s = map_option of_nat (strlen_loop m s 0)"

function memset_loop :: "mem \<Rightarrow> addr \<Rightarrow> byte \<Rightarrow> nat \<Rightarrow> nat \<Rightarrow> mem option" where
  "memset_loop m dst c i n =
     (if i < n then do { m' \<leftarrow> store m (dst + i) c; memset_loop m' dst c (i + 1) n } else Some m)"
  by pat_completeness auto
termination
  by (relation "measure (\<lambda>(m, dst, c, i, n). n - i)") auto

definition memset :: "mem \<Rightarrow> addr \<Rightarrow> int \<Rightarrow> uint \<Rightarrow> (addr \<times> mem) option" where
  "memset m dst c n = do { m' \<leftarrow> memset_loop m dst (char_of c) 0 (unat n); Some (dst, m') }"

text \<open>The null pointer is the address 0.\<close>

function strchr :: "mem \<Rightarrow> addr \<Rightarrow> byte \<Rightarrow> addr option" where
  "strchr m s c = do {
     x \<leftarrow> load m s;
     if x = NUL then Some 0 else if x = c then Some s else strchr m (s + 1) c
   }"
  by pat_completeness auto
termination
  by (relation "measure (\<lambda>(m, s, c). length m - s)") (auto simp: load_eq_Some)

text \<open>The accumulator is a 32-bit \<open>int\<close>, kept as a word that wraps around.\<close>

function atoi_loop :: "mem \<Rightarrow> addr \<Rightarrow> uint \<Rightarrow> uint option" where
  "atoi_loop m s n = do {
     c \<leftarrow> load m s;
     if CHR ''0'' \<le> c \<and> c \<le> CHR ''9''
     then atoi_loop m (s + 1) (n * 10 + of_char c - of_char (CHR ''0'')) else Some n
   }"
  by pat_completeness auto
termination
  by (relation "measure (\<lambda>(m, s, n). length m - s)") (auto simp: load_eq_Some)

definition atoi :: "mem \<Rightarrow> addr \<Rightarrow> int option" where
  "atoi m s = map_option sint (atoi_loop m s 0)"

fun memmove_up :: "mem \<Rightarrow> addr \<Rightarrow> addr \<Rightarrow> nat \<Rightarrow> mem option" where
  "memmove_up m dst src 0 = Some m"
| "memmove_up m dst src (Suc n) = do {
     c \<leftarrow> load m src;
     m' \<leftarrow> store m dst c;
     memmove_up m' (dst + 1) (src + 1) n
   }"

text \<open>Here \<open>dst\<close> and \<open>src\<close> are one past the byte to copy next, as in the source after \<open>dst += n\<close>.\<close>

fun memmove_down :: "mem \<Rightarrow> addr \<Rightarrow> addr \<Rightarrow> nat \<Rightarrow> mem option" where
  "memmove_down m dst src 0 = Some m"
| "memmove_down m dst src (Suc n) = do {
     c \<leftarrow> load m (src - 1);
     m' \<leftarrow> store m (dst - 1) c;
     memmove_down m' (dst - 1) (src - 1) n
   }"

definition memmove :: "mem \<Rightarrow> addr \<Rightarrow> addr \<Rightarrow> int \<Rightarrow> (addr \<times> mem) option" where
  "memmove m vdst vsrc n = do {
     m' \<leftarrow> (if vsrc > vdst then memmove_up m vdst vsrc (nat n)
           else memmove_down m (vdst + nat n) (vsrc + nat n) (nat n));
     Some (vdst, m')
   }"

fun memcmp_loop :: "mem \<Rightarrow> addr \<Rightarrow> addr \<Rightarrow> nat \<Rightarrow> int option" where
  "memcmp_loop m p1 p2 0 = Some 0"
| "memcmp_loop m p1 p2 (Suc n) = do {
     a \<leftarrow> load m p1;
     b \<leftarrow> load m p2;
     if a \<noteq> b then Some (byte_of a - byte_of b) else memcmp_loop m (p1 + 1) (p2 + 1) n
   }"

definition memcmp :: "mem \<Rightarrow> addr \<Rightarrow> addr \<Rightarrow> uint \<Rightarrow> int option" where
  "memcmp m s1 s2 n = memcmp_loop m s1 s2 (unat n)"

text \<open>The \<open>uint\<close> count is passed on as an \<open>int\<close>: a count of 2 GiB or more becomes negative.\<close>

definition memcpy :: "mem \<Rightarrow> addr \<Rightarrow> addr \<Rightarrow> uint \<Rightarrow> (addr \<times> mem) option" where
  "memcpy m dst src n = memmove m dst src (sint n)"

declare strcpy_loop.simps [simp del] strcmp.simps [simp del] strlen_loop.simps [simp del]
  memset_loop.simps [simp del] strchr.simps [simp del] atoi_loop.simps [simp del]

text \<open>Strings in memory.\<close>

lemma strlen_loop_cstring:
  "cstring m (s + n) xs \<Longrightarrow> strlen_loop m s n = Some (n + length xs)"
  by (induction xs arbitrary: n) (subst strlen_loop.simps; simp add: mem_simps)+

lemma byte_of_less: "byte_of a < byte_of b \<longleftrightarrow> a < b"
proof -
  have "byte_of a < byte_of b \<longleftrightarrow> int (of_char a) < int (of_char b)"
    by (simp only: byte_of_def of_nat_of_char)
  then show ?thesis by (simp only: less_char_def of_nat_less_iff)
qed

lemma NUL_less [simp]: "NUL < c \<longleftrightarrow> c \<noteq> NUL"
proof -
  have "0 \<le> byte_of c" unfolding byte_of_def by (metis of_nat_0_le_iff of_nat_of_char)
  then show ?thesis using byte_of_less [of NUL c] by (auto simp: order_less_le)
qed

lemma less_NUL [simp]: "\<not> c < NUL"
  using NUL_less [of c] by (metis order_less_asym order_less_irrefl)

text \<open>The order of a dictionary, by byte value.\<close>

fun dict_less :: "string \<Rightarrow> string \<Rightarrow> bool" where
  "dict_less [] ys \<longleftrightarrow> ys \<noteq> []"
| "dict_less (x # xs) [] \<longleftrightarrow> False"
| "dict_less (x # xs) (y # ys) \<longleftrightarrow> x < y \<or> x = y \<and> dict_less xs ys"

lemma strcmp_cstring:
  assumes "cstring m p xs" and "cstring m q ys"
  shows "\<exists>d. strcmp m p q = Some d \<and> (d = 0 \<longleftrightarrow> xs = ys) \<and> (d < 0 \<longleftrightarrow> dict_less xs ys)"
  using assms
proof (induction xs arbitrary: p q ys)
  case Nil
  then show ?case
    by (subst strcmp.simps) (cases ys; auto simp: mem_simps byte_of_less [of NUL, simplified byte_of_NUL])
next
  case (Cons x xs)
  show ?case
  proof (cases ys)
    case Nil
    with Cons.prems show ?thesis
      by (subst strcmp.simps) (auto simp: mem_simps byte_of_less [of _ NUL, simplified byte_of_NUL])
  next
    case (Cons y ys')
    then show ?thesis
      using Cons.prems Cons.IH [of "Suc p" "Suc q" ys']
      by (subst strcmp.simps) (auto simp: mem_simps byte_of_less)
  qed
qed

lemma memset_loop_overlay:
  "dst + n \<le> length m \<Longrightarrow> i \<le> n \<Longrightarrow>
   memset_loop m dst c i n = Some (overlay m (dst + i) (replicate (n - i) c))"
proof (induction m dst c i n rule: memset_loop.induct)
  case (1 m dst c i n)
  show ?case
  proof (cases "i < n")
    case True
    then have "memset_loop (m[dst + i := c]) dst c (i + 1) n =
        Some (overlay (m[dst + i := c]) (dst + (i + 1)) (replicate (n - (i + 1)) c))"
      using 1 by (intro "1.IH") (auto simp: mem_simps)
    moreover have "overlay (m[dst + i := c]) (dst + (i + 1)) (replicate (n - (i + 1)) c) =
        overlay m (dst + i) (replicate (n - i) c)"
      using True "1.prems" by (intro overlay_eqI) (auto simp: nth_overlay nth_list_update)
    ultimately show ?thesis using True "1.prems"
      by (subst memset_loop.simps) (simp add: mem_simps)
  next
    case False
    then show ?thesis using "1.prems" by (subst memset_loop.simps) (simp add: overlay_def)
  qed
qed

text \<open>
  The two copy loops.  \<open>moved\<close> says what both have to establish: the destination holds what the
  source held before, and nothing else has changed.
\<close>

definition moved :: "mem \<Rightarrow> addr \<Rightarrow> addr \<Rightarrow> nat \<Rightarrow> mem" where
  "moved m dst src n = overlay m dst (segment src (src + n) m)"

lemma moved_eqI:
  assumes "src + n \<le> length m" and "dst + n \<le> length m" and "length m' = length m"
    and "\<And>k. k < length m \<Longrightarrow>
      m' ! k = (if dst \<le> k \<and> k < dst + n then m ! (src + (k - dst)) else m ! k)"
  shows "m' = moved m dst src n"
  unfolding moved_def using assms by (intro overlay_eqI) (auto simp: segment_simps)

lemma nth_moved:
  "src + n \<le> length m \<Longrightarrow> dst + n \<le> length m \<Longrightarrow> k < length m \<Longrightarrow>
   moved m dst src n ! k = (if dst \<le> k \<and> k < dst + n then m ! (src + (k - dst)) else m ! k)"
  by (auto simp: moved_def nth_overlay segment_simps)

lemma length_moved [simp]:
  "src + n \<le> length m \<Longrightarrow> dst + n \<le> length m \<Longrightarrow> length (moved m dst src n) = length m"
  by (simp add: moved_def)

lemma memmove_up_moved:
  "src + n \<le> length m \<Longrightarrow> dst < src \<Longrightarrow> memmove_up m dst src n = Some (moved m dst src n)"
proof (induction n arbitrary: m dst src)
  case 0
  then show ?case by (simp add: moved_def overlay_def)
next
  case (Suc n)
  let ?m = "m[dst := m ! src]"
  have "memmove_up ?m (dst + 1) (src + 1) n = Some (moved ?m (dst + 1) (src + 1) n)"
    using Suc.prems by (intro Suc.IH) auto
  moreover have "moved ?m (dst + 1) (src + 1) n = moved m dst src (Suc n)"
    using Suc.prems by (intro moved_eqI) (auto simp: nth_moved nth_list_update Suc_diff_Suc)
  ultimately show ?case using Suc.prems by (simp add: mem_simps)
qed

lemma memmove_down_moved:
  "src + n \<le> length m \<Longrightarrow> dst + n \<le> length m \<Longrightarrow> src \<le> dst \<Longrightarrow>
   memmove_down m (dst + n) (src + n) n = Some (moved m dst src n)"
proof (induction n arbitrary: m)
  case 0
  then show ?case by (simp add: moved_def overlay_def)
next
  case (Suc n)
  let ?m = "m[dst + n := m ! (src + n)]"
  have "memmove_down ?m (dst + n) (src + n) n = Some (moved ?m dst src n)"
    using Suc.prems by (intro Suc.IH) auto
  moreover have "moved ?m dst src n = moved m dst src (Suc n)"
    using Suc.prems by (intro moved_eqI) (auto simp: nth_moved nth_list_update less_Suc_eq)
  ultimately show ?case using Suc.prems by (simp add: mem_simps)
qed

text \<open>
  The digits of a decimal string, most significant first, and the number they denote modulo
  \<open>2 ^ 32\<close>, which is what the \<open>int\<close> accumulator of \<open>atoi\<close> holds.
\<close>

definition is_digit :: "char \<Rightarrow> bool" where
  "is_digit c \<longleftrightarrow> CHR ''0'' \<le> c \<and> c \<le> CHR ''9''"

fun dec_value :: "nat \<Rightarrow> string \<Rightarrow> nat" where
  "dec_value n [] = n"
| "dec_value n (c # cs) = dec_value (n * 10 + (of_char c - 48)) cs"

lemma is_digit_code: "is_digit c \<longleftrightarrow> 48 \<le> (of_char c :: nat) \<and> (of_char c :: nat) \<le> 57"
  by (simp add: is_digit_def less_eq_char_def)

lemma digit_word:
  assumes "is_digit c"
  shows "n * 10 + of_char c - of_char (CHR ''0'') = n * 10 + (of_nat (of_char c - 48) :: uint)"
  using assms by (simp add: is_digit_code of_nat_of_char)

lemma atoi_loop_digits:
  assumes "list_all is_digit ds" and "s + length ds < length m"
    and "segment s (s + length ds) m = ds" and "\<not> is_digit (m ! (s + length ds))"
  shows "atoi_loop m s (of_nat n) = Some (of_nat (dec_value n ds))"
  using assms
proof (induction ds arbitrary: s n)
  case Nil
  then show ?case by (subst atoi_loop.simps) (auto simp: mem_simps is_digit_def)
next
  case (Cons d ds)
  have "segment s (s + length (d # ds)) m = m ! s # segment (Suc s) (s + length (d # ds)) m"
    using Cons.prems by (intro segment_Cons) auto
  with Cons.prems have d: "m ! s = d" and
    ds: "segment (Suc s) (Suc s + length ds) m = ds" by auto
  have "atoi_loop m (Suc s) (of_nat (n * 10 + (of_char d - 48))) =
      Some (of_nat (dec_value (n * 10 + (of_char d - 48)) ds))"
    using Cons.prems ds by (intro Cons.IH) auto
  moreover have "of_nat n * 10 + of_char d - of_char (CHR ''0'') =
      (of_nat (n * 10 + (of_char d - 48)) :: uint)"
    using Cons.prems digit_word [of d "of_nat n"] by simp
  ultimately show ?case using Cons.prems d
    by (subst atoi_loop.simps) (simp add: mem_simps is_digit_def del: of_char_mod_256 of_nat_add)
qed

lemma memcmp_loop_segment:
  "p + n \<le> length m \<Longrightarrow> q + n \<le> length m \<Longrightarrow>
   \<exists>d. memcmp_loop m p q n = Some d \<and> (d = 0 \<longleftrightarrow> segment p (p + n) m = segment q (q + n) m)"
proof (induction n arbitrary: p q)
  case 0
  then show ?case by simp
next
  case (Suc n)
  then have "segment p (p + Suc n) m = m ! p # segment (Suc p) (Suc p + n) m"
    and "segment q (q + Suc n) m = m ! q # segment (Suc q) (Suc q + n) m"
    using segment_Cons [of p "p + Suc n" m] segment_Cons [of q "q + Suc n" m] by simp_all
  with Suc.prems Suc.IH [of "Suc p" "Suc q"] show ?case by (auto simp: mem_simps)
qed

text \<open>The first occurrence of a character: what \<open>strchr\<close> has to find.\<close>

fun find_char :: "string \<Rightarrow> char \<Rightarrow> nat option" where
  "find_char [] c = None"
| "find_char (x # xs) c = (if x = c then Some 0 else map_option Suc (find_char xs c))"

lemma strchr_cstring:
  "cstring m s xs \<Longrightarrow> strchr m s c = Some (case find_char xs c of None \<Rightarrow> 0 | Some i \<Rightarrow> s + i)"
  by (induction xs arbitrary: s) (subst strchr.simps; auto simp: mem_simps split: option.splits)+

lemma find_char_None: "find_char xs c = None \<longleftrightarrow> c \<notin> set xs"
  by (induction xs) auto

lemma find_char_Some:
  "find_char xs c = Some i \<longleftrightarrow> i < length xs \<and> xs ! i = c \<and> c \<notin> set (take i xs)"
proof (induction xs arbitrary: i)
  case (Cons x xs)
  then show ?case by (cases i) auto
qed simp

lemma strcpy_loop_cstring:
  assumes "cstring m t xs" and "s + length xs < t \<or> t + length xs < s" and "s + length xs < length m"
  shows "strcpy_loop m s t = Some (overlay m s (xs @ [NUL]))"
  using assms
proof (induction xs arbitrary: m s t)
  case Nil
  then show ?case by (subst strcpy_loop.simps) (simp add: mem_simps overlay_def upd_conv_take_nth_drop)
next
  case (Cons x xs)
  let ?m = "m[s := x]"
  have "cstring m (Suc t) xs" using Cons.prems by simp
  then have "cstring ?m (Suc t) xs" using Cons.prems(2)
    by (auto simp: cstring_def segment_simps nth_list_update)
  then have "strcpy_loop ?m (Suc s) (Suc t) = Some (overlay ?m (Suc s) (xs @ [NUL]))"
    using Cons.prems by (intro Cons.IH) auto
  moreover have "overlay ?m (Suc s) (xs @ [NUL]) = overlay m s ((x # xs) @ [NUL])"
    using Cons.prems by (intro overlay_eqI) (auto simp: nth_overlay nth_list_update nth_Cons')
  ultimately show ?case using Cons.prems by (subst strcpy_loop.simps) (simp add: mem_simps)
qed

lemma memmove_overlay:
  assumes "src + nat n \<le> length m" and "dst + nat n \<le> length m"
  shows "memmove m dst src n = Some (dst, overlay m dst (segment src (src + nat n) m))"
proof (cases "dst < src")
  case True
  with assms show ?thesis by (simp add: memmove_def memmove_up_moved moved_def)
next
  case False
  with assms show ?thesis by (simp add: memmove_def memmove_down_moved moved_def)
qed

text \<open>
  C36. \<open>memmove\<close> copies correctly however its two areas overlap, in either direction: afterwards the
  destination holds exactly what the source area held before the call, every other byte is
  unchanged, and the call returns the destination.
\<close>

theorem memmove_correct:
  assumes "src + nat n \<le> length m" and "dst + nat n \<le> length m"
  shows "memmove m dst src n = Some (dst, overlay m dst (segment src (src + nat n) m))"
  using assms by (rule memmove_overlay)

theorem memmove_correct_witness: "memmove ''abcdef'' 1 0 4 = Some (1, ''aabcdf'')"
proof -
  have "0 + nat 4 \<le> length ''abcdef''" and "1 + nat 4 \<le> length ''abcdef''" by simp_all
  from memmove_correct [OF this] show ?thesis by (simp add: overlay_def segment_def)
qed

text \<open>
  \<open>strcmp\<close> on two C strings always returns, 0 exactly when they are equal and a negative number
  exactly when the first comes before the second in dictionary order (bytes compared as unsigned).
\<close>

lemma strcmp_order:
  assumes "cstring m p xs" and "cstring m q ys"
  shows "\<exists>d. strcmp m p q = Some d \<and> (d = 0 \<longleftrightarrow> xs = ys) \<and> (d < 0 \<longleftrightarrow> dict_less xs ys)"
  using assms by (rule strcmp_cstring)

text \<open>
  \<open>strchr\<close> on a C string returns the address of the first occurrence of the character, and the
  null pointer when it does not occur; in particular the terminating NUL is never found.
\<close>

lemma strchr_first:
  assumes "cstring m s xs"
  shows "(c \<notin> set xs \<longrightarrow> strchr m s c = Some 0) \<and>
    (\<forall>i < length xs. xs ! i = c \<and> c \<notin> set (take i xs) \<longrightarrow> strchr m s c = Some (s + i))"
  using strchr_cstring [OF assms, of c] find_char_None [of xs c] find_char_Some [of xs c] by fastforce

end
