(* ===== verification/Printf.thy ===== *)
theory Printf
  imports Prog Ulib
begin

text \<open>
  Formatted output: \<^verbatim>\<open>src/user/ulib/printf.c\<close> (\<open>fprintf\<close>, one \<open>write\<close> per byte) and the
  \<open>printf\<close> that C programs are linked with, which is exported by \<^verbatim>\<open>src/user/ulib/ulog.zig\<close>.

  A variadic argument is an 8-byte slot: a number, or a pointer to a string (\<open>VStr\<close> holds the
  string).  Reading a slot of the wrong kind, or one too many, is undefined in C and is
  \<open>Crash\<close> here.
\<close>

datatype vaarg = VNum uint64 | VStr string

definition digits :: string where
  "digits = ''0123456789ABCDEF''"

definition putc :: "int \<Rightarrow> byte \<Rightarrow> unit prog" where
  "putc fd c = Call (Write fd [c]) (\<lambda>_. Ret ())"

text \<open>The \<open>do ... while\<close> loop of \<open>printint\<close>, storing digits in the buffer from position \<open>i\<close>.\<close>

function printint_loop :: "mem \<Rightarrow> nat \<Rightarrow> uint \<Rightarrow> uint \<Rightarrow> (mem \<times> nat) option" where
  "printint_loop buf i x base = do {
     d \<leftarrow> load digits (unat (x mod base));
     buf' \<leftarrow> store buf i d;
     if x div base \<noteq> 0 then printint_loop buf' (i + 1) (x div base) base else Some (buf', i + 1)
   }"
  by pat_completeness auto
termination
  by (relation "measure (\<lambda>(buf, i, x, base). length buf - i)") (auto simp: store_eq_Some)

fun putc_down :: "int \<Rightarrow> mem \<Rightarrow> nat \<Rightarrow> unit prog" where
  "putc_down fd buf 0 = Ret ()"
| "putc_down fd buf (Suc i) = pbind (putc fd (buf ! i)) (\<lambda>_. putc_down fd buf i)"

definition printint :: "int \<Rightarrow> uint \<Rightarrow> uint \<Rightarrow> bool \<Rightarrow> unit prog" where
  "printint fd xx base sg =
     (let neg = (sg \<and> sint xx < 0);
          x = (if neg then - xx else xx)
      in case (do {
           (buf, i) \<leftarrow> printint_loop (replicate 16 NUL) 0 x base;
           if neg then do { buf' \<leftarrow> store buf i (CHR ''-''); Some (buf', i + 1) } else Some (buf, i)
         }) of
           None \<Rightarrow> Crash
         | Some (buf, i) \<Rightarrow> putc_down fd buf i)"

fun printptr_loop :: "int \<Rightarrow> nat \<Rightarrow> uint64 \<Rightarrow> unit prog" where
  "printptr_loop fd 0 x = Ret ()"
| "printptr_loop fd (Suc n) x =
     pbind (putc fd (digits ! unat (drop_bit 60 x))) (\<lambda>_. printptr_loop fd n (push_bit 4 x))"

definition printptr :: "int \<Rightarrow> uint64 \<Rightarrow> unit prog" where
  "printptr fd x = pbind (putc fd (CHR ''0'')) (\<lambda>_. pbind (putc fd (CHR ''x'')) (\<lambda>_. printptr_loop fd 16 x))"

fun puts :: "int \<Rightarrow> string \<Rightarrow> unit prog" where
  "puts fd [] = Ret ()"
| "puts fd (c # s) = pbind (putc fd c) (\<lambda>_. puts fd s)"

text \<open>One conversion: the character after the \<open>%\<close>.  The rest of the argument list is returned.\<close>

definition vprintf_conv :: "int \<Rightarrow> char \<Rightarrow> vaarg list \<Rightarrow> vaarg list prog" where
  "vprintf_conv fd c args =
     (if c = CHR ''d'' then
        (case args of VNum x # as \<Rightarrow> pbind (printint fd (ucast x) 10 True) (\<lambda>_. Ret as) | _ \<Rightarrow> Crash)
      else if c = CHR ''l'' then
        (case args of VNum x # as \<Rightarrow> pbind (printint fd (ucast x) 10 False) (\<lambda>_. Ret as) | _ \<Rightarrow> Crash)
      else if c = CHR ''x'' then
        (case args of VNum x # as \<Rightarrow> pbind (printint fd (ucast x) 16 False) (\<lambda>_. Ret as) | _ \<Rightarrow> Crash)
      else if c = CHR ''p'' then
        (case args of VNum x # as \<Rightarrow> pbind (printptr fd x) (\<lambda>_. Ret as) | _ \<Rightarrow> Crash)
      else if c = CHR ''s'' then
        (case args of
           VStr s # as \<Rightarrow> pbind (puts fd s) (\<lambda>_. Ret as)
         | VNum x # as \<Rightarrow> if x = 0 then pbind (puts fd ''(null)'') (\<lambda>_. Ret as) else Crash
         | [] \<Rightarrow> Crash)
      else if c = CHR ''c'' then
        (case args of VNum x # as \<Rightarrow> pbind (putc fd (char_of (unat x))) (\<lambda>_. Ret as) | _ \<Rightarrow> Crash)
      else if c = CHR ''%'' then pbind (putc fd c) (\<lambda>_. Ret args)
      else pbind (putc fd (CHR ''%'')) (\<lambda>_. pbind (putc fd c) (\<lambda>_. Ret args)))"

text \<open>The flag is the source's \<open>state\<close>: whether the previous character was an unconsumed \<open>%\<close>.\<close>

fun vprintf_loop :: "int \<Rightarrow> bool \<Rightarrow> string \<Rightarrow> vaarg list \<Rightarrow> unit prog" where
  "vprintf_loop fd state [] args = Ret ()"
| "vprintf_loop fd state (c # fmt) args =
     (if \<not> state then
        (if c = CHR ''%'' then vprintf_loop fd True fmt args
         else pbind (putc fd c) (\<lambda>_. vprintf_loop fd False fmt args))
      else pbind (vprintf_conv fd c args) (\<lambda>args'. vprintf_loop fd False fmt args'))"

definition vprintf :: "int \<Rightarrow> string \<Rightarrow> vaarg list \<Rightarrow> unit prog" where
  "vprintf fd fmt ap = vprintf_loop fd False fmt ap"

definition fprintf :: "int \<Rightarrow> string \<Rightarrow> vaarg list \<Rightarrow> unit prog" where
  "fprintf fd fmt args = vprintf fd fmt args"

text \<open>
  Numerals: \<open>nat_text b n\<close> is the usual numeral of \<open>n\<close> in base \<open>b\<close>, most significant digit
  first.  Zig's \<open>{d}\<close> writes an \<open>int\<close> as \<open>int_text\<close>, its \<open>{x}\<close> as \<open>zig_hex\<close>: in lower case,
  with a sign.
\<close>

function nat_text :: "nat \<Rightarrow> nat \<Rightarrow> string" where
  "nat_text b n = (if n < b \<or> b < 2 then [digits ! n] else nat_text b (n div b) @ [digits ! (n mod b)])"
  by pat_completeness auto
termination
  by (relation "measure snd") auto

declare nat_text.simps [simp del] printint_loop.simps [simp del]

definition int_text :: "int \<Rightarrow> string" where
  "int_text i = (if i < 0 then CHR ''-'' # nat_text 10 (nat (- i)) else nat_text 10 (nat i))"

definition lower_hex :: "char \<Rightarrow> char" where
  "lower_hex c = (if CHR ''A'' \<le> c \<and> c \<le> CHR ''F'' then char_of (of_char c + 32 :: nat) else c)"

definition zig_hex :: "int \<Rightarrow> string" where
  "zig_hex i = (if i < 0 then ''-'' else []) @ map lower_hex (nat_text 16 (nat \<bar>i\<bar>))"

text \<open>
  The \<open>printf\<close> of \<^verbatim>\<open>ulog.zig\<close> writes to descriptor 1: a literal byte is one \<open>write\<close>, a
  conversion is formatted into a 512-byte buffer and written at once.  A failed or short write and
  a text that does not fit are Zig panics; in the freestanding library a panic traps, so the
  process is killed.  How Zig formats a pointer is the parameter \<open>fmtp\<close>.
\<close>

definition zwrite :: "string \<Rightarrow> unit prog" where
  "zwrite s = Call (Write 1 s) (\<lambda>n. if n < int (length s) then Crash else Ret ())"

definition zprint :: "string \<Rightarrow> unit prog" where
  "zprint s = (if length s > 512 then Crash else zwrite s)"

definition printf_conv :: "(uint64 \<Rightarrow> string) \<Rightarrow> char \<Rightarrow> vaarg list \<Rightarrow> vaarg list prog" where
  "printf_conv fmtp c args =
     (if c = CHR ''d'' then
        (case args of VNum x # as \<Rightarrow> pbind (zprint (int_text (sint (ucast x :: uint)))) (\<lambda>_. Ret as) | _ \<Rightarrow> Crash)
      else if c = CHR ''x'' then
        (case args of VNum x # as \<Rightarrow> pbind (zprint (zig_hex (sint (ucast x :: uint)))) (\<lambda>_. Ret as) | _ \<Rightarrow> Crash)
      else if c = CHR ''p'' then
        (case args of VNum x # as \<Rightarrow> pbind (zprint (fmtp x)) (\<lambda>_. Ret as) | _ \<Rightarrow> Crash)
      else if c = CHR ''s'' then
        (case args of VStr s # as \<Rightarrow> pbind (zprint s) (\<lambda>_. Ret as) | _ \<Rightarrow> Crash)
      else if c = CHR ''%'' then pbind (zwrite ''%'') (\<lambda>_. Ret args)
      else pbind (zwrite ''%'') (\<lambda>_. pbind (zwrite [c]) (\<lambda>_. Ret args)))"

fun printf_loop :: "(uint64 \<Rightarrow> string) \<Rightarrow> string \<Rightarrow> vaarg list \<Rightarrow> unit prog" where
  "printf_loop fmtp [] args = Ret ()"
| "printf_loop fmtp [c] args = (if c \<noteq> CHR ''%'' then zwrite [c] else Ret ())"
| "printf_loop fmtp (c # c' # fmt) args =
     (if c \<noteq> CHR ''%'' then pbind (zwrite [c]) (\<lambda>_. printf_loop fmtp (c' # fmt) args)
      else pbind (printf_conv fmtp c' args) (\<lambda>args'. printf_loop fmtp fmt args'))"

definition printf :: "(uint64 \<Rightarrow> string) \<Rightarrow> string \<Rightarrow> vaarg list \<Rightarrow> unit prog" where
  "printf fmtp fmt args = (if fmt = [] then Crash else printf_loop fmtp fmt args)"

text \<open>
  What is written, as text.  \<open>fmt_text\<close> reads the format two characters at a time where
  \<open>vprintf\<close> is a state machine, and is \<^term>\<open>None\<close> where an argument is missing or of the wrong
  kind.
\<close>

definition ptr_text :: "uint64 \<Rightarrow> string" where
  "ptr_text x = ''0x'' @ map (\<lambda>i. digits ! (unat x div 16 ^ (15 - i) mod 16)) [0..<16]"

fun conv_text :: "char \<Rightarrow> vaarg list \<Rightarrow> (string \<times> vaarg list) option" where
  "conv_text c (VNum x # as) =
     (if c = CHR ''d'' then Some (int_text (sint (ucast x :: uint)), as)
      else if c = CHR ''l'' then Some (nat_text 10 (unat (ucast x :: uint)), as)
      else if c = CHR ''x'' then Some (nat_text 16 (unat (ucast x :: uint)), as)
      else if c = CHR ''p'' then Some (ptr_text x, as)
      else if c = CHR ''s'' then (if x = 0 then Some (''(null)'', as) else None)
      else if c = CHR ''c'' then Some ([char_of (unat x)], as)
      else if c = CHR ''%'' then Some (''%'', VNum x # as)
      else Some ([CHR ''%'', c], VNum x # as))"
| "conv_text c as =
     (if c = CHR ''s'' then (case as of VStr s # as' \<Rightarrow> Some (s, as') | _ \<Rightarrow> None)
      else if c \<in> set ''dlxpc'' then None
      else if c = CHR ''%'' then Some (''%'', as)
      else Some ([CHR ''%'', c], as))"

fun fmt_text :: "string \<Rightarrow> vaarg list \<Rightarrow> string option" where
  "fmt_text [] as = Some []"
| "fmt_text [c] as = Some (if c = CHR ''%'' then [] else [c])"
| "fmt_text (c # c' # fmt) as =
     (if c = CHR ''%''
      then do { (s, as') \<leftarrow> conv_text c' as; t \<leftarrow> fmt_text fmt as'; Some (s @ t) }
      else do { t \<leftarrow> fmt_text (c' # fmt) as; Some (c # t) })"

text \<open>Facts about \<open>puts\<close>, the one-byte writes of a text.\<close>

lemma puts_append: "puts fd (s @ t) = pbind (puts fd s) (\<lambda>_. puts fd t)"
  by (induction s) (auto simp: putc_def)

lemma putc_puts: "putc fd c = puts fd [c]"
  by (simp add: putc_def)

lemma putc_down_puts: "i \<le> length buf \<Longrightarrow> putc_down fd buf i = puts fd (rev (take i buf))"
  by (induction i) (auto simp: putc_def take_Suc_conv_app_nth)

text \<open>Numerals.\<close>

lemma length_digits [simp]: "length digits = 16"
  by (simp add: digits_def)

lemma nat_text_length_le:
  assumes "2 \<le> b" and "n < b ^ k" and "0 < k"
  shows "length (nat_text b n) \<le> k"
  using assms(2,3)
proof (induction k arbitrary: n)
  case (Suc k)
  show ?case
  proof (cases "n < b")
    case False
    then have "0 < k" using Suc.prems by (cases k) auto
    moreover have "n div b < b ^ k" using Suc.prems(1) assms(1)
      by (simp add: div_less_iff_less_mult mult.commute)
    ultimately have "length (nat_text b (n div b)) \<le> k" by (intro Suc.IH)
    with False assms(1) show ?thesis by (subst nat_text.simps) simp
  qed (simp add: nat_text.simps)
qed simp

lemma nat_text_nonempty: "nat_text b n \<noteq> []"
  by (subst nat_text.simps) simp

lemma printint_loop_text:
  "2 \<le> unat base \<Longrightarrow> unat base \<le> 16 \<Longrightarrow>
   i + length (nat_text (unat base) (unat x)) \<le> length buf \<Longrightarrow>
   printint_loop buf i x base =
     Some (overlay buf i (rev (nat_text (unat base) (unat x))),
           i + length (nat_text (unat base) (unat x)))"
proof (induction buf i x base rule: printint_loop.induct)
  case (1 buf i x base)
  let ?b = "unat base" and ?n = "unat x"
  let ?d = "digits ! (?n mod ?b)"
  have "?n mod ?b < ?b" using "1.prems" by (intro mod_less_divisor) simp
  then have "?n mod ?b < length digits" using "1.prems"(2) by (simp only: length_digits)
  then have d: "load digits (unat (x mod base)) = Some ?d"
    by (simp only: mem_simps unat_mod)
  have i: "i < length buf" using "1.prems"(3) nat_text_nonempty [of ?b ?n] by (cases "nat_text ?b ?n") auto
  show ?case
  proof (cases "?n < ?b")
    case True
    then have "x div base = 0" by (simp add: unat_eq_zero [symmetric] unat_div)
    with True d i show ?thesis
      by (subst printint_loop.simps) (simp add: mem_simps nat_text.simps overlay_def upd_conv_take_nth_drop)
  next
    case False
    then have nz: "x div base \<noteq> 0" using "1.prems" by (simp add: unat_eq_zero [symmetric] unat_div div_eq_0_iff)
    have t: "nat_text ?b ?n = nat_text ?b (?n div ?b) @ [?d]"
      using False "1.prems" by (subst nat_text.simps) simp
    let ?t = "nat_text ?b (?n div ?b)"
    have "printint_loop (buf[i := ?d]) (i + 1) (x div base) base =
        Some (overlay (buf[i := ?d]) (i + 1) (rev ?t), i + 1 + length ?t)"
      using "1.IH" [OF d store_Some [OF i] nz] "1.prems" t by (simp add: unat_div)
    moreover have "overlay (buf[i := ?d]) (i + 1) (rev ?t) = overlay buf i (?d # rev ?t)"
      using "1.prems"(3) t by (intro overlay_eqI) (auto simp: nth_overlay nth_list_update nth_Cons')
    ultimately show ?thesis using d i nz t
      by (subst printint_loop.simps) (simp add: mem_simps)
  qed
qed

lemma unat_uminus_neg:
  fixes x :: uint
  assumes "sint x < 0"
  shows "nat (- sint x) = unat (- x)"
proof -
  have s: "sint x = uint x - 2 ^ 32" and "x \<noteq> 0"
    using assms by (auto simp: sint_uint32 split: if_splits)
  have "uint (- x) = - uint x mod 2 ^ 32" by (simp add: uint_word_ariths)
  also have "\<dots> = 2 ^ 32 - uint x"
    using unsigned_less [of x, where ?'a = int] \<open>x \<noteq> 0\<close> by (simp add: zmod_zminus1_eq_if uint_0_iff)
  finally show ?thesis using s by (simp add: unat_eq_nat_uint)
qed

text \<open>\<open>printint\<close> writes exactly the numeral; its 16-byte buffer is large enough for base 10 and 16.\<close>

lemma uint_numeral_length: "b = 10 \<or> b = 16 \<Longrightarrow> length (nat_text b (unat (x :: uint))) \<le> 10"
  using unat_uint_less [of x] nat_text_length_le [of 10 "unat x" 10] nat_text_length_le [of 16 "unat x" 10]
  by auto

lemma printint_puts:
  assumes "base = 10 \<or> base = 16"
  shows "printint fd xx base sg =
    puts fd ((if sg \<and> sint xx < 0 then ''-'' else []) @
      nat_text (unat base) (unat (if sg \<and> sint xx < 0 then - xx else xx)))"
proof -
  define neg where "neg \<longleftrightarrow> sg \<and> sint xx < 0"
  define x where "x = (if neg then - xx else xx)"
  let ?t = "nat_text (unat base) (unat x)"
  have b: "unat base = 10 \<or> unat base = 16" using assms by auto
  have len: "length ?t \<le> 10" using uint_numeral_length [OF b] .
  let ?buf = "overlay (replicate 16 NUL) 0 (rev ?t)"
  have loop: "printint_loop (replicate 16 NUL) 0 x base = Some (?buf, length ?t)"
    using b len by (subst printint_loop_text) auto
  have buf: "take (length ?t) ?buf = rev ?t" and "length ?buf = 16" using len by (auto simp: overlay_def)
  then have "take (Suc (length ?t)) (?buf[length ?t := CHR ''-'']) = rev ?t @ ''-''"
    using len by (simp add: take_Suc_conv_app_nth)
  then show ?thesis using loop buf len \<open>length ?buf = 16\<close>
    by (simp add: printint_def neg_def [symmetric] x_def [symmetric] mem_simps putc_down_puts
        split: if_splits)
qed

lemma printint_signed: "printint fd xx 10 True = puts fd (int_text (sint xx))"
proof (cases "sint xx < 0")
  case True
  then show ?thesis by (simp add: printint_puts int_text_def unat_uminus_neg)
next
  case False
  then have "nat (sint xx) = unat xx" using unsigned_less [of xx, where ?'a = int]
    by (simp add: sint_uint32 split: if_splits)
  with False show ?thesis by (simp add: printint_puts int_text_def)
qed

text \<open>The sixteen hexadecimal digits of a pointer.\<close>

lemma nibble_shift:
  assumes "k < 15"
  shows "unat (push_bit 4 (x :: uint64)) div 16 ^ Suc k mod 16 = unat x div 16 ^ k mod 16"
proof -
  have "unat (push_bit 4 x) = take_bit 64 (push_bit 4 (unat x))"
    by (simp only: unsigned_push_bit_eq) simp
  also have "\<dots> = 16 * (unat x mod 16 ^ 15)"
    by (simp add: push_bit_eq_mult take_bit_eq_mod mult_mod_right mult.commute)
  finally have "unat (push_bit 4 x) = 16 * (unat x mod 16 ^ 15)" .
  then have "unat (push_bit 4 x) div 16 ^ Suc k = (unat x mod 16 ^ 15) div 16 ^ k" by simp
  moreover have "(unat x mod 2 ^ 60) div 2 ^ (4 * k) mod 2 ^ 4 = unat x div 2 ^ (4 * k) mod 2 ^ 4"
    using assms by (simp only: take_bit_eq_mod [symmetric] drop_bit_eq_div [symmetric] drop_bit_take_bit
        take_bit_take_bit)
  ultimately show ?thesis by (simp add: power_mult)
qed

lemma printptr_loop_puts:
  "n \<le> 16 \<Longrightarrow> printptr_loop fd n x = puts fd (map (\<lambda>i. digits ! (unat x div 16 ^ (15 - i) mod 16)) [0..<n])"
proof (induction n arbitrary: x)
  case (Suc n)
  have "unat (drop_bit 60 x) = drop_bit 60 (unat x)" by (rule unat_drop_bit_eq)
  then have top: "unat (drop_bit 60 x) = unat x div 16 ^ 15 mod 16"
    using unsigned_less [of x, where ?'a = nat] by (simp add: drop_bit_eq_div)
  have "unat (push_bit 4 x) div 16 ^ (15 - i) mod 16 = unat x div 16 ^ (15 - Suc i) mod 16" if "i < n" for i
  proof -
    from that Suc.prems have "15 - i = Suc (14 - i)" and "15 - Suc i = 14 - i" and "14 - i < 15" by simp_all
    then show ?thesis using nibble_shift [of "14 - i" x] by (simp only:)
  qed
  then have "map (\<lambda>i. digits ! (unat (push_bit 4 x) div 16 ^ (15 - i) mod 16)) [0..<n] =
      map (\<lambda>i. digits ! (unat x div 16 ^ (15 - Suc i) mod 16)) [0..<n]" by simp
  moreover have "printptr_loop fd n (push_bit 4 x) =
      puts fd (map (\<lambda>i. digits ! (unat (push_bit 4 x) div 16 ^ (15 - i) mod 16)) [0..<n])"
    using Suc.prems by (intro Suc.IH) simp
  ultimately show ?case
    by (simp only: printptr_loop.simps map_upt_Suc puts.simps top diff_zero)
qed simp

lemma printptr_puts: "printptr fd x = puts fd (ptr_text x)"
  by (simp add: printptr_def ptr_text_def printptr_loop_puts del: upt_Suc)

text \<open>Formats.\<close>

lemma vprintf_conv_text:
  "conv_text c as = Some (s, as') \<Longrightarrow> vprintf_conv fd c as = pbind (puts fd s) (\<lambda>_. Ret as')"
proof (cases as)
  case Nil
  moreover assume "conv_text c as = Some (s, as')"
  ultimately show ?thesis by (auto simp: vprintf_conv_def putc_def split: if_splits)
next
  case (Cons a as1)
  moreover assume "conv_text c as = Some (s, as')"
  ultimately show ?thesis
    by (cases a) (auto simp: vprintf_conv_def printint_signed printint_puts printptr_puts putc_def split: if_splits)
qed

lemma vprintf_loop_text:
  "fmt_text fmt as = Some t \<Longrightarrow> vprintf_loop fd False fmt as = puts fd t"
  by (induction fmt as arbitrary: t rule: fmt_text.induct)
    (auto simp: vprintf_conv_text puts_append pbind_assoc bind_eq_Some_conv split: if_splits)

text \<open>Reading a decimal numeral back.\<close>

lemma digit_char: "k < 10 \<Longrightarrow> is_digit (digits ! k) \<and> of_char (digits ! k) = 48 + k"
  by (auto simp: less_Suc_eq numeral_eq_Suc digits_def is_digit_code)

lemma dec_value_snoc: "dec_value n (ds @ [c]) = dec_value n ds * 10 + (of_char c - 48)"
  by (induction ds arbitrary: n) simp_all

lemma nat_text_10: "list_all is_digit (nat_text 10 n) \<and> dec_value 0 (nat_text 10 n) = n"
proof (induction n rule: less_induct)
  case (less n)
  show ?case
  proof (cases "n < 10")
    case True
    then show ?thesis by (subst (1 2) nat_text.simps) (simp add: digit_char)
  next
    case False
    moreover from False have "list_all is_digit (nat_text 10 (n div 10)) \<and> dec_value 0 (nat_text 10 (n div 10)) = n div 10"
      by (intro less) simp
    ultimately show ?thesis by (subst (1 2) nat_text.simps) (simp add: digit_char dec_value_snoc)
  qed
qed

lemma atoi_nat_text:
  assumes "n < 2 ^ 31"
  shows "atoi (nat_text 10 n @ [NUL]) 0 = Some (int n)"
proof -
  let ?t = "nat_text 10 n"
  have "atoi_loop (?t @ [NUL]) 0 (of_nat 0) = Some (of_nat (dec_value 0 ?t))"
    using nat_text_10 [of n] by (intro atoi_loop_digits) (auto simp: segment_def is_digit_code)
  moreover have "sint (of_nat n :: uint) = int n"
    using assms by (simp add: sint_uint32 uint_nat unat_of_nat)
  ultimately show ?thesis using nat_text_10 [of n] by (simp add: atoi_def)
qed

text \<open>
  C35. \<open>fprintf\<close> writes exactly the text of its format: the state machine over the format string is
  equivalent to reading the format left to right in literals and two-character conversions, for
  every format and every matching argument list.  The text is written byte by byte, in order, with
  no other system call.
\<close>

theorem fprintf_text:
  assumes "fmt_text fmt args = Some t"
  shows "fprintf fd fmt args = puts fd t"
  using vprintf_loop_text [OF assms] by (simp add: fprintf_def vprintf_def)

theorem fprintf_text_witness:
  "fprintf 2 ''pid %d: %s%%'' [VNum 7, VStr ''ok''] = puts 2 ''pid 7: ok%''"
proof -
  have "fmt_text ''pid %d: %s%%'' [VNum 7, VStr ''ok''] = Some ''pid 7: ok%''"
    by (simp add: int_text_def nat_text.simps digits_def)
  then show ?thesis by (rule fprintf_text)
qed

text \<open>
  \<open>printint\<close> never writes outside its 16-byte buffer, for every value (the most negative
  included), either signedness and both bases the library uses: it writes a text of at most eleven
  characters and does not fault.
\<close>

lemma printint_fits:
  assumes "base = 10 \<or> base = 16"
  shows "\<exists>t. printint fd xx base sg = puts fd t \<and> length t \<le> 11"
proof -
  have "unat base = 10 \<or> unat base = 16" using assms by auto
  then have "length (nat_text (unat base) (unat x)) \<le> 10" for x :: uint by (rule uint_numeral_length)
  from this [of "if sg \<and> sint xx < 0 then - xx else xx"]
  have "length ((if sg \<and> sint xx < 0 then ''-'' else []) @
      nat_text (unat base) (unat (if sg \<and> sint xx < 0 then - xx else xx))) \<le> 11" by auto
  then show ?thesis using printint_puts [OF assms, of fd xx sg] by blast
qed

text \<open>
  Decimal output and \<open>atoi\<close> are inverse: for every non-negative \<open>int\<close>, the text that
  \<open>printint\<close> writes, terminated by a NUL, is read back by \<open>atoi\<close> as the same number.
\<close>

lemma printint_atoi:
  assumes "0 \<le> sint xx"
  shows "\<exists>t. printint fd xx 10 True = puts fd t \<and> atoi (t @ [NUL]) 0 = Some (sint xx)"
proof -
  have "sint xx < 2 ^ 31" using unsigned_less [of xx, where ?'a = int]
    by (auto simp: sint_uint32)
  then have "nat (sint xx) < 2 ^ 31" by simp
  then have "atoi (int_text (sint xx) @ [NUL]) 0 = Some (sint xx)"
    using assms by (simp add: int_text_def atoi_nat_text)
  then show ?thesis using printint_signed [of fd xx] by blast
qed

end
