(* ===== verification/Stdio.thy ===== *)
theory Stdio
  imports Prog Printf
begin

text \<open>
  The contract between a program that copies, counts or searches and the files it works on: an
  input descriptor that delivers a finite content in pieces of the kernel's choosing, and standard
  output, which takes everything.  Client programs are verified once against this contract; the
  kernel's regular files and pipes provide it (theory \<^verbatim>\<open>Kfile\<close>).  The theory also holds the
  routines of \<^verbatim>\<open>ulib.c\<close> that make system calls: \<open>gets\<close>, \<open>stat\<close> and \<open>_main\<close>.
\<close>

abbreviation CR :: char where "CR \<equiv> CHR 0x0D"

definition O_RDONLY :: nat where "O_RDONLY = 0x000"
definition O_WRONLY :: nat where "O_WRONLY = 0x001"
definition O_RDWR :: nat where "O_RDWR = 0x002"
definition O_CREATE :: nat where "O_CREATE = 0x200"
definition O_TRUNC :: nat where "O_TRUNC = 0x400"
definition CONSOLE :: int where "CONSOLE = 1"

text \<open>The number is how many bytes still fit: \<open>max - 1 - i\<close> in the source.\<close>

fun gets_loop :: "nat \<Rightarrow> string \<Rightarrow> string prog" where
  "gets_loop 0 buf = Ret buf"
| "gets_loop (Suc n) buf =
     Read 0 1 (\<lambda>r. case r of
         Some (c # _) \<Rightarrow> if c = LF \<or> c = CR then Ret (buf @ [c]) else gets_loop n (buf @ [c])
       | _ \<Rightarrow> Ret buf)"

text \<open>The result is the bytes stored before the terminating NUL.\<close>

definition gets :: "int \<Rightarrow> string prog" where
  "gets mx = gets_loop (nat (mx - 1)) []"

definition stat :: "string \<Rightarrow> stat option prog" where
  "stat n = Call (Open n O_RDONLY) (\<lambda>fd.
     if fd < 0 then Ret None
     else Fstat fd (\<lambda>r. do_call (Close fd) (Ret r)))"

definition main_wrapper :: "'a prog \<Rightarrow> 'b prog" where
  "main_wrapper main = pbind main (\<lambda>_. Exit 0)"

text \<open>A descriptor to which everything can be written.\<close>

locale sink =
  fixes K :: "('k, 'z) kernel_scheme" and fd :: int
    and out :: "'k \<Rightarrow> string" and inv :: "'k \<Rightarrow> bool"
  assumes write_all:
    "inv k \<Longrightarrow> \<exists>k'. k_call K (Write fd s) k = Some (int (length s), k') \<and> inv k' \<and> out k' = out k @ s"
begin

lemma run_puts:
  "inv k \<Longrightarrow> \<exists>k'. run K (puts fd s) k = (Returned (), k') \<and> inv k' \<and> out k' = out k @ s"
proof (induction s arbitrary: k)
  case (Cons c s)
  from write_all [OF Cons.prems, of "[c]"] obtain k1 where
    k1: "k_call K (Write fd [c]) k = Some (int (length [c]), k1)" "inv k1" "out k1 = out k @ [c]" by blast
  from Cons.IH [OF k1(2)] k1 show ?case by (auto simp: putc_def)
qed simp

lemma run_fprintf:
  assumes "inv k" and "fmt_text fmt args = Some t"
  shows "\<exists>k'. run K (fprintf fd fmt args) k = (Returned (), k') \<and> inv k' \<and> out k' = out k @ t"
  using run_puts [OF assms(1), of t] vprintf_loop_text [OF assms(2)]
  by (simp add: fprintf_def vprintf_def)

end

text \<open>
  Standard input and output of a filter: \<open>content\<close> is what is left to read from \<open>ifd\<close>, \<open>out\<close> what
  has been written to descriptor 1.  A read (of an \<open>int\<close> count) returns at least one byte until the content is used up,
  and then nothing.
\<close>

locale stdio = sink K 1 out inv
  for K :: "('k, 'z) kernel_scheme" and out :: "'k \<Rightarrow> string" and inv :: "'k \<Rightarrow> bool" +
  fixes ifd :: int and content :: "'k \<Rightarrow> string"
  assumes read_some:
    "inv k \<Longrightarrow> n < 2 ^ 31 \<Longrightarrow> \<exists>bs k'. k_read K ifd n k = Some (Some bs, k') \<and> inv k' \<and> content k = bs @ content k' \<and>
       length bs \<le> n \<and> (bs = [] \<longrightarrow> n = 0 \<or> content k = []) \<and> out k' = out k"
    and write_content:
    "inv k \<Longrightarrow> k_call K (Write 1 s) k = Some (r, k') \<Longrightarrow> content k' = content k"
begin

lemma write_out:
  assumes "inv k"
  obtains k' where "k_call K (Write 1 s) k = Some (int (length s), k')" "inv k'" "out k' = out k @ s"
    "content k' = content k"
  using write_all [OF assms, of s] write_content [OF assms] by blast

lemma read_in:
  assumes "inv k" and "n < 2 ^ 31"
  obtains bs k' where "k_read K ifd n k = Some (Some bs, k')" "inv k'" "content k = bs @ content k'"
    "length bs \<le> n" "bs = [] \<longrightarrow> n = 0 \<or> content k = []" "out k' = out k"
  using read_some [OF assms] by blast

end

text \<open>The text that \<open>printf\<close> writes, \<^term>\<open>None\<close> where it would end the process.\<close>

definition zfit :: "string \<Rightarrow> vaarg list \<Rightarrow> (string \<times> vaarg list) option" where
  "zfit s as = (if length s \<le> 512 then Some (s, as) else None)"

definition zconv_text :: "(uint64 \<Rightarrow> string) \<Rightarrow> char \<Rightarrow> vaarg list \<Rightarrow> (string \<times> vaarg list) option" where
  "zconv_text fmtp c args =
     (if c = CHR ''d'' then (case args of VNum x # as \<Rightarrow> zfit (int_text (sint (ucast x :: uint))) as | _ \<Rightarrow> None)
      else if c = CHR ''x'' then (case args of VNum x # as \<Rightarrow> zfit (zig_hex (sint (ucast x :: uint))) as | _ \<Rightarrow> None)
      else if c = CHR ''p'' then (case args of VNum x # as \<Rightarrow> zfit (fmtp x) as | _ \<Rightarrow> None)
      else if c = CHR ''s'' then (case args of VStr s # as \<Rightarrow> zfit s as | _ \<Rightarrow> None)
      else if c = CHR ''%'' then Some (''%'', args)
      else Some ([CHR ''%'', c], args))"

fun zfmt_text :: "(uint64 \<Rightarrow> string) \<Rightarrow> string \<Rightarrow> vaarg list \<Rightarrow> string option" where
  "zfmt_text fmtp [] as = Some []"
| "zfmt_text fmtp [c] as = Some (if c = CHR ''%'' then [] else [c])"
| "zfmt_text fmtp (c # c' # fmt) as =
     (if c = CHR ''%'' then
        (case zconv_text fmtp c' as of None \<Rightarrow> None | Some (s, as') \<Rightarrow> map_option ((@) s) (zfmt_text fmtp fmt as'))
      else map_option ((#) c) (zfmt_text fmtp (c' # fmt) as))"

lemma int_text_length: "length (int_text (sint (x :: uint))) \<le> 11"
proof -
  have "nat \<bar>sint x\<bar> < 10 ^ 10" using sint_range_size [of x] by (simp add: word_size nat_less_iff abs_less_iff)
  then have "length (nat_text 10 (nat \<bar>sint x\<bar>)) \<le> 10" by (intro nat_text_length_le) simp_all
  then show ?thesis by (auto simp: int_text_def)
qed

lemma zfit_int [simp]: "zfit (int_text (sint (x :: uint))) as = Some (int_text (sint x), as)"
  using int_text_length [of x] by (simp add: zfit_def)

context stdio
begin

lemma run_zwrite:
  assumes "inv k"
  shows "\<exists>k'. run K (zwrite s) k = (Returned (), k') \<and> inv k' \<and> out k' = out k @ s \<and> content k' = content k"
proof -
  obtain k' where "k_call K (Write 1 s) k = Some (int (length s), k')" "inv k'" "out k' = out k @ s"
    "content k' = content k" using write_out [OF assms] .
  then show ?thesis by (simp add: zwrite_def)
qed

lemma run_zprint:
  assumes "inv k" and "length s \<le> 512"
  shows "\<exists>k'. run K (zprint s) k = (Returned (), k') \<and> inv k' \<and> out k' = out k @ s \<and> content k' = content k"
  using run_zwrite [OF assms(1), of s] assms(2) by (simp add: zprint_def)

lemma run_printf_conv:
  assumes "inv k" and "zconv_text fmtp c args = Some (s, args')"
  shows "\<exists>k'. run K (printf_conv fmtp c args) k = (Returned args', k') \<and> inv k' \<and> out k' = out k @ s \<and>
    content k' = content k"
proof (cases "c \<in> set ''dxps''")
  case True
  with assms(2) have l: "length s \<le> 512"
    and p: "printf_conv fmtp c args = pbind (zprint s) (\<lambda>_. Ret args')"
    by (auto simp: zconv_text_def printf_conv_def zfit_def split: list.splits vaarg.splits if_splits)
  from run_zprint [OF assms(1) l] p show ?thesis by (auto simp: run_pbind)
next
  case False
  then consider "c = CHR ''%''" | "c \<noteq> CHR ''%''" "c \<notin> set ''dxps''" by blast
  then show ?thesis
  proof cases
    case 1
    with assms(2) have "printf_conv fmtp c args = pbind (zwrite s) (\<lambda>_. Ret args')"
      by (simp add: zconv_text_def printf_conv_def)
    with run_zwrite [OF assms(1), of s] show ?thesis by (auto simp: run_pbind)
  next
    case 2
    with assms(2) have "printf_conv fmtp c args = pbind (zwrite ''%'') (\<lambda>_. pbind (zwrite [c]) (\<lambda>_. Ret args'))"
      "s = ''%'' @ [c]"
      by (simp_all add: zconv_text_def printf_conv_def)
    moreover obtain k1 where k1: "run K (zwrite ''%'') k = (Returned (), k1)" "inv k1" "out k1 = out k @ ''%''"
      "content k1 = content k" using run_zwrite [OF assms(1)] by blast
    moreover obtain k2 where "run K (zwrite [c]) k1 = (Returned (), k2)" "inv k2" "out k2 = out k1 @ [c]"
      "content k2 = content k1" using run_zwrite [OF k1(2)] by blast
    ultimately show ?thesis by (simp add: run_pbind)
  qed
qed

lemma run_printf_loop:
  "inv k \<Longrightarrow> zfmt_text fmtp fmt args = Some t \<Longrightarrow>
   \<exists>k'. run K (printf_loop fmtp fmt args) k = (Returned (), k') \<and> inv k' \<and> out k' = out k @ t \<and> content k' = content k"
proof (induction fmtp fmt args arbitrary: k t rule: zfmt_text.induct)
  case (2 fmtp c as)
  with run_zwrite [OF 2(1), of "[c]"] show ?case by auto
next
  case (3 fmtp c c' fmt as)
  show ?case
  proof (cases "c = CHR ''%''")
    case True
    with "3.prems" obtain s as' t' where c: "zconv_text fmtp c' as = Some (s, as')" "zfmt_text fmtp fmt as' = Some t'" "t = s @ t'"
      by (auto split: option.splits)
    from run_printf_conv [OF "3.prems"(1) c(1)] obtain k1 where
      k1: "run K (printf_conv fmtp c' as) k = (Returned as', k1)" "inv k1" "out k1 = out k @ s" "content k1 = content k" by blast
    from "3.IH"(1) [OF True c(1) refl k1(2) c(2)] k1 c(3) True show ?thesis by (auto simp: run_pbind)
  next
    case False
    with "3.prems" obtain t' where t': "zfmt_text fmtp (c' # fmt) as = Some t'" "t = c # t'" by auto
    from run_zwrite [OF "3.prems"(1), of "[c]"] obtain k1 where
      k1: "run K (zwrite [c]) k = (Returned (), k1)" "inv k1" "out k1 = out k @ [c]" "content k1 = content k" by blast
    from "3.IH"(2) [OF False k1(2) t'(1)] k1 t'(2) False show ?thesis by (auto simp: run_pbind)
  qed
qed simp

lemma run_printf:
  assumes "inv k" and "zfmt_text fmtp fmt args = Some t" and "fmt \<noteq> []"
  shows "\<exists>k'. run K (printf fmtp fmt args) k = (Returned (), k') \<and> inv k' \<and> out k' = out k @ t \<and>
    content k' = content k"
  using run_printf_loop [OF assms(1,2)] assms(3) by (simp add: printf_def)

end

text \<open>What \<open>gets\<close> takes from a content: through the first line end, at most \<open>n\<close> bytes.\<close>

fun line_prefix :: "nat \<Rightarrow> string \<Rightarrow> string" where
  "line_prefix 0 s = []"
| "line_prefix n [] = []"
| "line_prefix (Suc n) (c # s) = (if c = LF \<or> c = CR then [c] else c # line_prefix n s)"

lemma length_line_prefix: "length (line_prefix n s) \<le> n"
  by (induction n s rule: line_prefix.induct) auto

locale console = stdio K out inv 0 content
  for K :: "('k, 'z) kernel_scheme" and out :: "'k \<Rightarrow> string" and inv :: "'k \<Rightarrow> bool"
    and content :: "'k \<Rightarrow> string"
begin

lemma run_gets_loop:
  "inv k \<Longrightarrow> \<exists>k'. run K (gets_loop n buf) k = (Returned (buf @ line_prefix n (content k)), k') \<and> inv k' \<and>
     content k = line_prefix n (content k) @ content k' \<and> out k' = out k"
proof (induction n arbitrary: buf k)
  case (Suc n)
  from Suc.prems obtain bs k1 where r: "k_read K 0 1 k = Some (Some bs, k1)" "inv k1"
    "content k = bs @ content k1" "length bs \<le> 1" "bs = [] \<longrightarrow> (1 :: nat) = 0 \<or> content k = []" "out k1 = out k"
    by (rule read_in [where n = 1]) simp_all
  show ?case
  proof (cases bs)
    case Nil
    with r show ?thesis by auto
  next
    case (Cons c bs')
    with r have "bs = [c]" by simp
    with r Suc.IH [OF r(2), of "buf @ [c]"] show ?thesis by auto
  qed
qed simp

end

text \<open>Formatted output does not fault when the format's text is defined.\<close>

lemma yields_puts: "yields (puts fd s) (\<lambda>_. True)"
  by (induction s) (auto simp: putc_def)

lemma yields_fprintf: "fmt_text fmt args \<noteq> None \<Longrightarrow> yields (fprintf fd fmt args) (\<lambda>_. True)"
  using yields_puts by (auto simp: fprintf_def vprintf_def vprintf_loop_text)

lemma yields_zwrite: "yields (zwrite s) (\<lambda>_. True)"
  by (simp add: zwrite_def answer_ok_def)

lemma yields_zprint: "length s \<le> 512 \<Longrightarrow> yields (zprint s) (\<lambda>_. True)"
  using yields_zwrite [of s] by (simp add: zprint_def)

lemma yields_printf_conv:
  "zconv_text fmtp c args = Some (s, args') \<Longrightarrow> yields (printf_conv fmtp c args) (\<lambda>r. r = args')"
  by (auto simp: zconv_text_def printf_conv_def zfit_def intro!: yields_then yields_zprint yields_zwrite
      split: if_splits list.splits vaarg.splits)

lemma yields_printf_loop: "zfmt_text fmtp fmt args = Some t \<Longrightarrow> yields (printf_loop fmtp fmt args) (\<lambda>_. True)"
proof (induction fmtp fmt args arbitrary: t rule: zfmt_text.induct)
  case (2 fmtp c as)
  then show ?case by (simp add: yields_zwrite)
next
  case (3 fmtp c c' fmt as)
  show ?case
  proof (cases "c = CHR ''%''")
    case True
    with "3.prems" obtain s as' t' where c: "zconv_text fmtp c' as = Some (s, as')" "zfmt_text fmtp fmt as' = Some t'"
      by (auto split: option.splits)
    from "3.IH"(1) [OF True c(1) refl c(2)] show ?thesis
      using True by (auto intro!: yields_pbind yields_mono [OF yields_printf_conv [OF c(1)]])
  next
    case False
    with "3.prems" obtain t' where "zfmt_text fmtp (c' # fmt) as = Some t'" by auto
    from "3.IH"(2) [OF False this] False show ?thesis by (auto intro!: yields_then yields_zwrite)
  qed
qed simp

lemma yields_printf: "zfmt_text fmtp fmt args \<noteq> None \<Longrightarrow> fmt \<noteq> [] \<Longrightarrow> yields (printf fmtp fmt args) (\<lambda>_. True)"
  using yields_printf_loop by (auto simp: printf_def)

end
