(* ===== verification/Kfile.thy ===== *)
theory Kfile
  imports Kpipe Kinode Stdio
begin

text \<open>
  Open files: the system's file table (\<^verbatim>\<open>src/kernel/filesystem/file.zig\<close>), the descriptor table of
  a process (\<^verbatim>\<open>src/kernel/traps/sysargs.zig\<close>), the system calls on descriptors
  (\<open>sys_read\<close>, \<open>sys_write\<close>, \<open>sys_close\<close>, \<open>sys_dup\<close>, \<open>sys_pipe\<close> of \<^verbatim>\<open>sysfile.zig\<close>) and the console device
  (\<^verbatim>\<open>src/kernel/drivers/console.zig\<close>), as one process sees them between two sleeps.  An error of the
  Zig code is \<open>KErr\<close>, which the system call turns into \<open>-1\<close>; going to sleep is \<open>KSleep\<close>, and
  \<open>@panic\<close> is \<open>KPanic\<close>: neither comes back to the process, and the system call is \<^term>\<open>None\<close>.

  Pipes and inodes live in the stores \<open>pipes\<close> and \<open>inodes\<close>; a file refers to them by name.
  \<open>inode_put\<close> and the log's begin and end of an operation do not change what is modelled here.
\<close>

definition NOFILE :: nat where "NOFILE = 16"
definition NFILE :: nat where "NFILE = 100"
definition console_major :: nat where "console_major = 1"
definition max_device_count :: nat where "max_device_count = 10"

datatype file_data =
    FNone
  | FPipe nat
  | FInode (f_inode: nat) (f_offset: nat)
  | FDevice nat nat  \<comment> \<open>inode and major device number\<close>

record kfile =
  reference_count :: nat
  is_readable :: bool
  is_writeable :: bool
  f_data :: file_data

record kstate =
  openFiles :: "nat option list"
  files :: "kfile list"
  pipes :: "nat \<Rightarrow> pipe"
  inodes :: "nat \<Rightarrow> inode"
  console_out :: string
  console_in :: string

datatype 'a kres = KOk 'a kstate | KErr kstate | KSleep | KPanic

text \<open>The console: writes go to the UART one character at a time; a read takes one committed line.\<close>

definition console_write :: "string \<Rightarrow> kstate \<Rightarrow> nat kres" where
  "console_write s st = KOk (length s) (st\<lparr>console_out := console_out st @ s\<rparr>)"

abbreviation control_D :: char where "control_D \<equiv> CHR 0x04"

text \<open>
  \<open>acc\<close> is what has been copied to the user, \<open>n\<close> is \<open>charsLeft\<close>; \<^term>\<open>None\<close> when the committed
  input runs out.  A control-D behind other characters is left for the next read.
\<close>

fun console_read_loop :: "nat \<Rightarrow> string \<Rightarrow> string \<Rightarrow> (string \<times> string) option" where
  "console_read_loop 0 acc inp = Some (acc, inp)"
| "console_read_loop (Suc n) acc [] = None"
| "console_read_loop (Suc n) acc (c # inp) =
     (if c = control_D then Some (acc, if acc \<noteq> [] then c # inp else inp)
      else if c = LF then Some (acc @ [c], inp)
      else console_read_loop n (acc @ [c]) inp)"

definition console_read :: "bool \<Rightarrow> nat \<Rightarrow> kstate \<Rightarrow> string kres" where
  "console_read killed n st =
     (case console_read_loop n [] (console_in st) of
        None \<Rightarrow> if killed then KErr (st\<lparr>console_in := []\<rparr>) else KSleep
      | Some (s, rest) \<Rightarrow> KOk s (st\<lparr>console_in := rest\<rparr>))"

text \<open>The file table.\<close>

definition file_alloc :: "kstate \<Rightarrow> (nat \<times> kstate) option" where
  "file_alloc st =
     (case find (\<lambda>i. reference_count (files st ! i) = 0) [0..<length (files st)] of
        None \<Rightarrow> None
      | Some i \<Rightarrow> Some (i, st\<lparr>files := (files st)[i := (files st ! i)\<lparr>reference_count := 1\<rparr>]\<rparr>))"

definition file_duplicate :: "nat \<Rightarrow> kstate \<Rightarrow> kstate option" where
  "file_duplicate i st =
     (if reference_count (files st ! i) < 1 then None
      else Some (st\<lparr>files := (files st)[i := (files st ! i)\<lparr>reference_count := reference_count (files st ! i) + 1\<rparr>]\<rparr>))"

definition file_close :: "nat \<Rightarrow> kstate \<Rightarrow> kstate option" where
  "file_close i st =
     (let f = files st ! i; rc = reference_count f - 1
      in if reference_count f < 1 then None
         else if rc > 0 then Some (st\<lparr>files := (files st)[i := f\<lparr>reference_count := rc\<rparr>]\<rparr>)
         else let st' = st\<lparr>files := (files st)[i := f\<lparr>reference_count := 0, f_data := FNone\<rparr>]\<rparr>
              in Some (case f_data f of
                   FPipe p \<Rightarrow> st'\<lparr>pipes := (pipes st')(p := fst (pipe_close (pipes st' p) (is_writeable f)))\<rparr>
                 | _ \<Rightarrow> st'))"

definition file_read :: "(nat \<Rightarrow> bool) \<Rightarrow> bool \<Rightarrow> nat \<Rightarrow> nat \<Rightarrow> kstate \<Rightarrow> string kres" where
  "file_read gb killed i n st =
     (let f = files st ! i in
      if \<not> is_readable f then KErr st
      else case f_data f of
          FPipe p \<Rightarrow> (case pipe_read killed (pipes st p) n of
              PDone bs p' \<Rightarrow> KOk bs (st\<lparr>pipes := (pipes st)(p := p')\<rparr>)
            | PError p' \<Rightarrow> KErr (st\<lparr>pipes := (pipes st)(p := p')\<rparr>)
            | PSleep _ p' \<Rightarrow> KSleep
            | PIllegal \<Rightarrow> KPanic)
        | FDevice ino major \<Rightarrow>
            if major \<ge> max_device_count then KErr st
            else if major = console_major then console_read killed n st
            else KErr st
        | FInode ino off \<Rightarrow> (case inode_read gb (inodes st ino) off n of
              None \<Rightarrow> KErr st
            | Some bs \<Rightarrow> KOk bs (st\<lparr>files := (files st)[i := f\<lparr>f_data := FInode ino (off + length bs)\<rparr>]\<rparr>))
        | FNone \<Rightarrow> KPanic)"

text \<open>At most three blocks per log transaction.\<close>

definition max_write_bytes :: nat where
  "max_write_bytes = (10 - 1 - 1 - 2) div 2 * block_size"

function file_write_inode :: "(nat \<Rightarrow> bool) \<Rightarrow> inode \<Rightarrow> nat \<Rightarrow> string \<Rightarrow> bool \<times> inode \<times> nat" where
  "file_write_inode gb ip off src =
     (if src = [] then (True, ip, off)
      else let bytes_to_write = min (length src) max_write_bytes in
           case inode_write gb ip off (take bytes_to_write src) of
             None \<Rightarrow> (False, ip, off)
           | Some (w, ip') \<Rightarrow>
               if w \<noteq> bytes_to_write then (False, ip', off + w)
               else file_write_inode gb ip' (off + w) (drop bytes_to_write src))"
  by pat_completeness auto
termination
  by (relation "measure (\<lambda>(gb, ip, off, src). length src)") (auto simp: max_write_bytes_def block_size_def)

definition file_write :: "(nat \<Rightarrow> bool) \<Rightarrow> bool \<Rightarrow> nat \<Rightarrow> string \<Rightarrow> kstate \<Rightarrow> nat kres" where
  "file_write gb killed i s st =
     (let f = files st ! i in
      if \<not> is_writeable f then KErr st
      else case f_data f of
          FPipe p \<Rightarrow> (case pipe_write killed (pipes st p) s 0 of
              PDone n p' \<Rightarrow> KOk n (st\<lparr>pipes := (pipes st)(p := p')\<rparr>)
            | PError p' \<Rightarrow> KErr (st\<lparr>pipes := (pipes st)(p := p')\<rparr>)
            | PSleep _ p' \<Rightarrow> KSleep
            | PIllegal \<Rightarrow> KPanic)
        | FDevice ino major \<Rightarrow>
            if major \<ge> max_device_count then KErr st
            else if major = console_major then console_write s st
            else KErr st
        | FInode ino off \<Rightarrow> (case file_write_inode gb (inodes st ino) off s of
              (ok, ip', off') \<Rightarrow>
                let st' = st\<lparr>inodes := (inodes st)(ino := ip'),
                             files := (files st)[i := f\<lparr>f_data := FInode ino off'\<rparr>]\<rparr>
                in if ok then KOk (length s) st' else KErr st')
        | FNone \<Rightarrow> KPanic)"

text \<open>Descriptors.\<close>

definition getFile :: "int \<Rightarrow> kstate \<Rightarrow> nat option" where
  "getFile fd st = (if 0 \<le> fd \<and> fd < int NOFILE then openFiles st ! nat fd else None)"

text \<open>The lowest free descriptor.\<close>

definition fileDescriptorAllocate :: "nat \<Rightarrow> kstate \<Rightarrow> (nat \<times> kstate) option" where
  "fileDescriptorAllocate i st =
     (case find (\<lambda>fd. openFiles st ! fd = None) [0..<NOFILE] of
        None \<Rightarrow> None
      | Some fd \<Rightarrow> Some (fd, st\<lparr>openFiles := (openFiles st)[fd := Some i]\<rparr>))"

definition sys_read :: "(nat \<Rightarrow> bool) \<Rightarrow> bool \<Rightarrow> int \<Rightarrow> nat \<Rightarrow> kstate \<Rightarrow> (string option \<times> kstate) option" where
  "sys_read gb killed fd n st =
     (case getFile fd st of
        None \<Rightarrow> Some (None, st)
      | Some i \<Rightarrow> (case file_read gb killed i n st of
            KOk bs st' \<Rightarrow> Some (Some bs, st') | KErr st' \<Rightarrow> Some (None, st') | KSleep \<Rightarrow> None | KPanic \<Rightarrow> None))"

definition sys_write :: "(nat \<Rightarrow> bool) \<Rightarrow> bool \<Rightarrow> int \<Rightarrow> string \<Rightarrow> kstate \<Rightarrow> (int \<times> kstate) option" where
  "sys_write gb killed fd s st =
     (case getFile fd st of
        None \<Rightarrow> Some (- 1, st)
      | Some i \<Rightarrow> (case file_write gb killed i s st of
            KOk n st' \<Rightarrow> Some (int n, st') | KErr st' \<Rightarrow> Some (- 1, st') | KSleep \<Rightarrow> None | KPanic \<Rightarrow> None))"

definition sys_close :: "int \<Rightarrow> kstate \<Rightarrow> (int \<times> kstate) option" where
  "sys_close fd st =
     (case getFile fd st of
        None \<Rightarrow> Some (- 1, st)
      | Some i \<Rightarrow> map_option (Pair 0) (file_close i (st\<lparr>openFiles := (openFiles st)[nat fd := None]\<rparr>)))"

definition sys_dup :: "int \<Rightarrow> kstate \<Rightarrow> (int \<times> kstate) option" where
  "sys_dup fd st =
     (case getFile fd st of
        None \<Rightarrow> Some (- 1, st)
      | Some i \<Rightarrow> (case fileDescriptorAllocate i st of
            None \<Rightarrow> Some (- 1, st)
          | Some (fd', st') \<Rightarrow> map_option (Pair (int fd')) (file_duplicate i st')))"

text \<open>
  \<open>Pipe.alloc\<close> and the system call around it.  Which page the pipe gets is decided by the page
  allocator, the parameter \<open>fresh\<close> (\<^term>\<open>None\<close> when memory is used up); on an error everything
  that was allocated is closed again.
\<close>

definition pipe_alloc_files :: "(kstate \<Rightarrow> (nat \<times> byte list) option) \<Rightarrow> kstate \<Rightarrow> ((nat \<times> nat) option \<times> kstate) option" where
  "pipe_alloc_files fresh st =
     (case file_alloc st of
        None \<Rightarrow> Some (None, st)
      | Some (rfile, st1) \<Rightarrow>
          (case file_alloc st1 of
             None \<Rightarrow> map_option (Pair None) (file_close rfile st1)
           | Some (wfile, st2) \<Rightarrow>
               (case fresh st2 of
                  None \<Rightarrow> map_option (Pair None) (Option.bind (file_close wfile st2) (file_close rfile))
                | Some (p, page) \<Rightarrow>
                    Some (Some (rfile, wfile), st2\<lparr>
                      pipes := (pipes st2)(p := pipe_alloc page),
                      files := (files st2)
                        [rfile := (files st2 ! rfile)\<lparr>f_data := FPipe p, is_readable := True, is_writeable := False\<rparr>,
                         wfile := (files st2 ! wfile)\<lparr>f_data := FPipe p, is_readable := False, is_writeable := True\<rparr>]\<rparr>))))"

definition sys_pipe :: "(kstate \<Rightarrow> (nat \<times> byte list) option) \<Rightarrow> kstate \<Rightarrow> ((int \<times> int) option \<times> kstate) option" where
  "sys_pipe fresh st =
     (case pipe_alloc_files fresh st of
        None \<Rightarrow> None
      | Some (None, st1) \<Rightarrow> Some (None, st1)
      | Some (Some (rfile, wfile), st1) \<Rightarrow>
          (case fileDescriptorAllocate rfile st1 of
             None \<Rightarrow> map_option (Pair None) (Option.bind (file_close rfile st1) (file_close wfile))
           | Some (rfd, st2) \<Rightarrow>
               (case fileDescriptorAllocate wfile st2 of
                  None \<Rightarrow> map_option (Pair None)
                    (Option.bind (file_close rfile (st2\<lparr>openFiles := (openFiles st2)[rfd := None]\<rparr>)) (file_close wfile))
                | Some (wfd, st3) \<Rightarrow> Some (Some (int rfd, int wfd), st3))))"

text \<open>
  The kernel of the descriptor calls; every other call is answered by the kernel \<open>other\<close>.
\<close>

definition fd_kernel ::
  "(nat \<Rightarrow> bool) \<Rightarrow> bool \<Rightarrow> (kstate \<Rightarrow> (nat \<times> byte list) option) \<Rightarrow> kstate kernel \<Rightarrow> kstate kernel" where
  "fd_kernel gb killed fresh other =
     other\<lparr>k_call := (\<lambda>q st. case q of
          Write fd s \<Rightarrow> sys_write gb killed fd s st
        | Close fd \<Rightarrow> sys_close fd st
        | Dup fd \<Rightarrow> sys_dup fd st
        | _ \<Rightarrow> k_call other q st),
      k_read := sys_read gb killed,
      k_pipe := sys_pipe fresh\<rparr>"

text \<open>
  Where a process has the console on descriptor 1 and, on \<open>ifd\<close>, a regular file open for reading:
  what is left to read, and that the state is of this shape.
\<close>

definition console_fd1 :: "kstate \<Rightarrow> nat \<Rightarrow> bool" where
  "console_fd1 st c \<longleftrightarrow> openFiles st ! 1 = Some c \<and> c < length (files st) \<and> is_writeable (files st ! c) \<and>
     (\<exists>ino. f_data (files st ! c) = FDevice ino console_major)"

definition inode_stdio :: "int \<Rightarrow> kstate \<Rightarrow> bool" where
  "inode_stdio ifd st \<longleftrightarrow>
     (\<exists>c i ino off. console_fd1 st c \<and> getFile ifd st = Some i \<and> i < length (files st) \<and> i \<noteq> c \<and>
        is_readable (files st ! i) \<and> f_data (files st ! i) = FInode ino off \<and>
        inode_inv (inodes st ino) \<and> off \<le> i_size (inodes st ino))"

definition rest_of :: "int \<Rightarrow> kstate \<Rightarrow> string" where
  "rest_of ifd st =
     (case f_data (files st ! the (getFile ifd st)) of
        FInode ino off \<Rightarrow> drop off (file_content (inodes st ino))
      | FPipe p \<Rightarrow> queue (pipes st p)
      | _ \<Rightarrow> [])"

text \<open>The same with the read end of a pipe whose write ends are all closed.\<close>

definition pipe_stdio :: "int \<Rightarrow> kstate \<Rightarrow> bool" where
  "pipe_stdio ifd st \<longleftrightarrow>
     (\<exists>c i p. console_fd1 st c \<and> getFile ifd st = Some i \<and> i < length (files st) \<and> i \<noteq> c \<and>
        is_readable (files st ! i) \<and> f_data (files st ! i) = FPipe p \<and>
        pipe_inv (pipes st p) \<and> \<not> write_is_open (pipes st p))"

lemma fd_kernel_simps [simp]:
  "k_call (fd_kernel gb killed fresh other) (Write fd s) = sys_write gb killed fd s"
  "k_call (fd_kernel gb killed fresh other) (Close fd) = sys_close fd"
  "k_call (fd_kernel gb killed fresh other) (Dup fd) = sys_dup fd"
  "k_read (fd_kernel gb killed fresh other) = sys_read gb killed"
  "k_pipe (fd_kernel gb killed fresh other) = sys_pipe fresh"
  by (simp_all add: fd_kernel_def fun_eq_iff)

lemma console_fd1_write:
  assumes "console_fd1 st c"
  shows "sys_write gb killed 1 s st = Some (int (length s), st\<lparr>console_out := console_out st @ s\<rparr>)"
  using assms by (auto simp: console_fd1_def sys_write_def getFile_def NOFILE_def file_write_def console_write_def
      max_device_count_def console_major_def)

lemma getFile_update [simp]:
  "getFile fd (st\<lparr>console_out := t\<rparr>) = getFile fd st" "getFile fd (st\<lparr>files := fs\<rparr>) = getFile fd st"
  "getFile fd (st\<lparr>pipes := ps\<rparr>) = getFile fd st" "getFile fd (st\<lparr>inodes := is'\<rparr>) = getFile fd st"
  by (simp_all add: getFile_def)

lemma console_out_irrelevant [simp]:
  "console_fd1 (st\<lparr>console_out := t\<rparr>) = console_fd1 st" "rest_of ifd (st\<lparr>console_out := t\<rparr>) = rest_of ifd st"
  "inode_stdio ifd (st\<lparr>console_out := t\<rparr>) = inode_stdio ifd st"
  "pipe_stdio ifd (st\<lparr>console_out := t\<rparr>) = pipe_stdio ifd st"
  by (simp_all add: fun_eq_iff console_fd1_def rest_of_def inode_stdio_def pipe_stdio_def cong: file_data.case_cong)

lemma inode_file_read:
  assumes "inode_stdio ifd st" and "n < 2 ^ 31"
  shows "\<exists>st'. sys_read (\<lambda>_. True) killed ifd n st = Some (Some (take n (rest_of ifd st)), st') \<and> inode_stdio ifd st' \<and>
    rest_of ifd st' = drop n (rest_of ifd st) \<and> console_out st' = console_out st"
proof -
  from assms(1) obtain c i ino off where st: "console_fd1 st c" "getFile ifd st = Some i" "i < length (files st)" "i \<noteq> c"
    "is_readable (files st ! i)" "f_data (files st ! i) = FInode ino off"
    "inode_inv (inodes st ino)" "off \<le> i_size (inodes st ino)"
    unfolding inode_stdio_def by blast
  let ?ip = "inodes st ino"
  let ?bs = "take n (drop off (file_content ?ip))"
  have "i_size ?ip \<le> 274432" using st(7) by (simp add: inode_inv_def block_size_def max_file_block_count_def)
  then have "off + n < 2 ^ 32" using st(8) assms(2) by simp
  then have r: "inode_read (\<lambda>_. True) ?ip off n = Some ?bs"
    using inode_read_bytes st(7,8) by simp
  have len: "length ?bs = min (i_size ?ip - off) n" by simp
  let ?st = "st\<lparr>files := (files st)[i := (files st ! i)\<lparr>f_data := FInode ino (off + length ?bs)\<rparr>]\<rparr>"
  have g: "getFile ifd ?st = Some i" using st(2) by simp
  have "inode_stdio ifd ?st"
    unfolding inode_stdio_def using st g by - (rule exI [of _ c], rule exI [of _ i], auto simp: console_fd1_def)
  moreover have "rest_of ifd ?st = drop n (rest_of ifd st)"
    using st(2,3,6) g by (simp add: rest_of_def min_def add.commute)
  moreover have "sys_read (\<lambda>_. True) killed ifd n st = Some (Some ?bs, ?st)"
    using st(2,5,6) r by (simp add: sys_read_def file_read_def Let_def)
  ultimately show ?thesis using st(2,6) by (simp add: rest_of_def)
qed

lemma pipe_file_read:
  assumes "pipe_stdio ifd st"
  shows "\<exists>st'. sys_read gb killed ifd n st = Some (Some (take n (rest_of ifd st)), st') \<and> pipe_stdio ifd st' \<and>
    rest_of ifd st' = drop n (rest_of ifd st) \<and> console_out st' = console_out st"
proof -
  from assms(1) obtain c i p where st: "console_fd1 st c" "getFile ifd st = Some i" "i < length (files st)" "i \<noteq> c"
    "is_readable (files st ! i)" "f_data (files st ! i) = FPipe p" "pipe_inv (pipes st p)" "\<not> write_is_open (pipes st p)"
    unfolding pipe_stdio_def by blast
  from pipe_read_queue [OF st(7,8)] obtain p' where
    p': "pipe_read killed (pipes st p) n = PDone (take n (queue (pipes st p))) p'" "pipe_inv p'"
      "queue p' = drop n (queue (pipes st p))" "\<not> write_is_open p'" by blast
  let ?st = "st\<lparr>pipes := (pipes st)(p := p')\<rparr>"
  have g: "getFile ifd ?st = Some i" using st(2) by simp
  have "pipe_stdio ifd ?st"
    unfolding pipe_stdio_def using st g p' by - (rule exI [of _ c], rule exI [of _ i], auto simp: console_fd1_def)
  moreover have "rest_of ifd ?st = drop n (rest_of ifd st)"
    using st(2,3,6) g p'(3) by (simp add: rest_of_def)
  moreover have "sys_read gb killed ifd n st = Some (Some (take n (queue (pipes st p))), ?st)"
    using st(2,5,6) p'(1) by (simp add: sys_read_def file_read_def Let_def)
  ultimately show ?thesis using st(2,6) by (simp add: rest_of_def)
qed

text \<open>Regular files and pipes provide the contract that the filters rely on.\<close>

interpretation inode_io: stdio "fd_kernel (\<lambda>_. True) killed fresh other" console_out "inode_stdio ifd" ifd "rest_of ifd"
  for killed fresh other ifd
proof unfold_locales
  fix st s assume "inode_stdio ifd st"
  then obtain c where "console_fd1 st c" by (auto simp: inode_stdio_def)
  with \<open>inode_stdio ifd st\<close> show "\<exists>st'. k_call (fd_kernel (\<lambda>_. True) killed fresh other) (Write 1 s) st =
      Some (int (length s), st') \<and> inode_stdio ifd st' \<and> console_out st' = console_out st @ s"
    by (simp add: console_fd1_write)
next
  fix st n assume "inode_stdio ifd st" and "n < (2 :: nat) ^ 31"
  from inode_file_read [OF this, of killed]
  show "\<exists>bs st'. k_read (fd_kernel (\<lambda>_. True) killed fresh other) ifd n st = Some (Some bs, st') \<and> inode_stdio ifd st' \<and>
      rest_of ifd st = bs @ rest_of ifd st' \<and> length bs \<le> n \<and> (bs = [] \<longrightarrow> n = 0 \<or> rest_of ifd st = []) \<and>
      console_out st' = console_out st"
    by fastforce
next
  fix st s r st' assume "inode_stdio ifd st" and w: "k_call (fd_kernel (\<lambda>_. True) killed fresh other) (Write 1 s) st = Some (r, st')"
  then obtain c where "console_fd1 st c" by (auto simp: inode_stdio_def)
  with w show "rest_of ifd st' = rest_of ifd st" by (auto simp: console_fd1_write)
qed

interpretation pipe_io: stdio "fd_kernel gb killed fresh other" console_out "pipe_stdio ifd" ifd "rest_of ifd"
  for gb killed fresh other ifd
proof unfold_locales
  fix st s assume "pipe_stdio ifd st"
  then obtain c where "console_fd1 st c" by (auto simp: pipe_stdio_def)
  with \<open>pipe_stdio ifd st\<close> show "\<exists>st'. k_call (fd_kernel gb killed fresh other) (Write 1 s) st =
      Some (int (length s), st') \<and> pipe_stdio ifd st' \<and> console_out st' = console_out st @ s"
    by (simp add: console_fd1_write)
next
  fix st n assume "pipe_stdio ifd st" and "n < (2 :: nat) ^ 31"
  from pipe_file_read [OF this(1), of gb killed n]
  show "\<exists>bs st'. k_read (fd_kernel gb killed fresh other) ifd n st = Some (Some bs, st') \<and> pipe_stdio ifd st' \<and>
      rest_of ifd st = bs @ rest_of ifd st' \<and> length bs \<le> n \<and> (bs = [] \<longrightarrow> n = 0 \<or> rest_of ifd st = []) \<and>
      console_out st' = console_out st"
    by fastforce
next
  fix st s r st' assume "pipe_stdio ifd st" and w: "k_call (fd_kernel gb killed fresh other) (Write 1 s) st = Some (r, st')"
  then obtain c where "console_fd1 st c" by (auto simp: pipe_stdio_def)
  with w show "rest_of ifd st' = rest_of ifd st" by (auto simp: console_fd1_write)
qed

interpretation inode_console: console "fd_kernel (\<lambda>_. True) killed fresh other" console_out "inode_stdio 0" "rest_of 0"
  for killed fresh other ..

interpretation pipe_console: console "fd_kernel gb killed fresh other" console_out "pipe_stdio 0" "rest_of 0"
  for gb killed fresh other ..

text \<open>A process whose standard input is a regular file or the read end of a pipe without writers.\<close>

definition std_input :: "kstate \<Rightarrow> bool" where
  "std_input st \<longleftrightarrow> inode_stdio 0 st \<or> pipe_stdio 0 st"

abbreviation demo_kernel :: "kstate kernel \<Rightarrow> kstate kernel" where
  "demo_kernel \<equiv> fd_kernel (\<lambda>_. True) False (\<lambda>_. None)"

text \<open>Input for the witnesses: a short file on descriptor 0, the console on descriptor 1.\<close>

definition text_inode :: "string \<Rightarrow> inode" where
  "text_inode s = \<lparr>i_size = length s, i_block = (\<lambda>b. take 1024 (s @ replicate 1024 NUL))\<rparr>"

definition text_state :: "string \<Rightarrow> kstate" where
  "text_state s = \<lparr>openFiles = [Some 0, Some 1] @ replicate 14 None,
     files = [\<lparr>reference_count = 1, is_readable = True, is_writeable = False, f_data = FInode 7 0\<rparr>,
              \<lparr>reference_count = 1, is_readable = True, is_writeable = True, f_data = FDevice 8 console_major\<rparr>],
     pipes = (\<lambda>_. pipe_alloc (replicate 512 NUL)), inodes = (\<lambda>_. text_inode s), console_out = [], console_in = []\<rparr>"

definition idle_kernel :: "kstate kernel" where
  "idle_kernel = \<lparr>k_call = (\<lambda>_ _. None), k_read = (\<lambda>_ _ _. None), k_pipe = (\<lambda>_. None), k_fstat = (\<lambda>_ _. None),
     k_wait = (\<lambda>_. None), k_ringbuf = (\<lambda>_ _ _ _. None)\<rparr>"

lemma text_state_facts:
  assumes "length s \<le> 1024"
  shows "std_input (text_state s)" and "rest_of 0 (text_state s) = s" and "console_out (text_state s) = []"
proof -
  have "file_content (text_inode s) = s"
    using assms by (intro nth_equalityI)
      (auto simp: file_content_def text_inode_def byte_at_def block_size_def nth_append)
  moreover have "inode_inv (text_inode s)"
    using assms by (simp add: inode_inv_def text_inode_def block_size_def max_file_block_count_def)
  ultimately show "std_input (text_state s)" and "rest_of 0 (text_state s) = s" and "console_out (text_state s) = []"
    by (auto simp: std_input_def inode_stdio_def console_fd1_def getFile_def NOFILE_def text_state_def rest_of_def)
qed

end
