(* ===== verification/Grep.thy ===== *)
theory Grep
  imports Kfile
begin

text \<open>
  \<^verbatim>\<open>src/user/grep.c\<close>: the Kernighan and Pike matcher, and the loop that reads, splits into lines
  and prints the lines that match.

  The matcher works on C strings; here a string is the characters before the NUL, so \<open>*text == 0\<close>
  is the empty list and \<open>text + 1\<close> its tail.
\<close>

fun matchhere :: "string \<Rightarrow> string \<Rightarrow> bool"
  and matchstar :: "char \<Rightarrow> string \<Rightarrow> string \<Rightarrow> bool" where
  "matchhere [] str = True"
| "matchhere [c] str =
     (if c = CHR ''$'' then str = []
      else case str of [] \<Rightarrow> False | t # ts \<Rightarrow> (c = CHR ''.'' \<or> c = t) \<and> matchhere [] ts)"
| "matchhere (c # c' # re) str =
     (if c' = CHR ''*'' then matchstar c re str
      else case str of [] \<Rightarrow> False | t # ts \<Rightarrow> (c = CHR ''.'' \<or> c = t) \<and> matchhere (c' # re) ts)"
| "matchstar c re str =
     (if matchhere re str then True
      else case str of [] \<Rightarrow> False | t # ts \<Rightarrow> (t = c \<or> c = CHR ''.'') \<and> matchstar c re ts)"

fun match_search :: "string \<Rightarrow> string \<Rightarrow> bool" where
  "match_search re str =
     (if matchhere re str then True
      else case str of [] \<Rightarrow> False | t # ts \<Rightarrow> match_search re ts)"

definition match :: "string \<Rightarrow> string \<Rightarrow> bool" where
  "match re str =
     (case re of
        [] \<Rightarrow> match_search re str
      | c # re' \<Rightarrow> if c = CHR ''^'' then matchhere re' str else match_search re str)"

text \<open>
  The line loop.  The argument is the unprocessed part of the buffer, from \<open>p\<close> up to the NUL stored
  at \<open>buf[m]\<close>; \<open>strchr\<close> stops at the first NUL, also at one in the data.  The result is what is left
  in the buffer after the last line end.
\<close>

function grep_lines :: "string \<Rightarrow> string \<Rightarrow> string prog" where
  "grep_lines pattern p =
     (case find_char (takeWhile (\<lambda>c. c \<noteq> NUL) p) LF of
        None \<Rightarrow> Ret p
      | Some q \<Rightarrow>
          if match pattern (take q p)
          then do_call (Write 1 (take (q + 1) p)) (grep_lines pattern (drop (q + 1) p))
          else grep_lines pattern (drop (q + 1) p))"
  by pat_completeness auto
termination
proof (relation "measure (\<lambda>(pattern, p). length p)", goal_cases)
  case (2 pattern p q)
  then have "q < length (takeWhile (\<lambda>c. c \<noteq> NUL) p)" by (simp add: find_char_Some)
  also have "\<dots> \<le> length p" by (rule length_takeWhile_le)
  finally show ?case by simp
next
  case (3 pattern p q)
  then have "q < length (takeWhile (\<lambda>c. c \<noteq> NUL) p)" by (simp add: find_char_Some)
  also have "\<dots> \<le> length p" by (rule length_takeWhile_le)
  finally show ?case by simp
qed simp

text \<open>The read loop; \<open>held\<close> is the \<open>m\<close> bytes kept at the start of the 1024-byte buffer.\<close>

fun grep_loop :: "nat \<Rightarrow> string \<Rightarrow> int \<Rightarrow> string \<Rightarrow> unit prog" where
  "grep_loop 0 pattern fd held = OutOfFuel"
| "grep_loop (Suc fuel) pattern fd held =
     Read fd (1024 - length held - 1) (\<lambda>r. case r of
         None \<Rightarrow> Ret ()
       | Some bs \<Rightarrow>
           if bs = [] then Ret ()
           else pbind (grep_lines pattern (held @ bs)) (\<lambda>rest. grep_loop fuel pattern fd rest))"

definition grep :: "nat \<Rightarrow> string \<Rightarrow> int \<Rightarrow> unit prog" where
  "grep fuel pattern fd = grep_loop fuel pattern fd []"

fun grep_files :: "(uint64 \<Rightarrow> string) \<Rightarrow> nat \<Rightarrow> string \<Rightarrow> string list \<Rightarrow> unit prog" where
  "grep_files fmtp fuel pattern [] = Exit 0"
| "grep_files fmtp fuel pattern (f # fs) =
     Call (Open f 0) (\<lambda>fd.
       if fd < 0 then pbind (printf fmtp ''grep: cannot open %s\<newline>'' [VStr f]) (\<lambda>_. Exit 1)
       else pbind (grep fuel pattern fd) (\<lambda>_. do_call (Close fd) (grep_files fmtp fuel pattern fs)))"

fun grep_main :: "(uint64 \<Rightarrow> string) \<Rightarrow> nat \<Rightarrow> string list \<Rightarrow> unit prog" where
  "grep_main fmtp fuel (prog # pattern # fs) =
     (if fs = [] then pbind (grep fuel pattern 0) (\<lambda>_. Exit 0)
      else grep_files fmtp fuel pattern fs)"
| "grep_main fmtp fuel argv =
     pbind (fprintf 2 ''usage: grep pattern [file ...]\<newline>'' []) (\<lambda>_. Exit 1)"

declare grep_lines.simps [simp del] match_search.simps [simp del] matchstar.simps [simp del]

text \<open>
  What a pattern means.  A pattern is a sequence of items; \<open>matches\<close> says that a str has a prefix
  that the items describe, without saying how to find it.
\<close>

datatype atom = Any | Lit char
datatype item = One atom | Many atom | End

definition atom_of :: "char \<Rightarrow> atom" where
  "atom_of c = (if c = CHR ''.'' then Any else Lit c)"

fun accepts :: "atom \<Rightarrow> char \<Rightarrow> bool" where
  "accepts Any c \<longleftrightarrow> True"
| "accepts (Lit d) c \<longleftrightarrow> d = c"

fun items :: "string \<Rightarrow> item list" where
  "items [] = []"
| "items [c] = [if c = CHR ''$'' then End else One (atom_of c)]"
| "items (c # c' # re) =
     (if c' = CHR ''*'' then Many (atom_of c) # items re else One (atom_of c) # items (c' # re))"

inductive matches :: "item list \<Rightarrow> string \<Rightarrow> bool" where
  "matches [] str"
| "matches [End] []"
| "accepts a c \<Longrightarrow> matches is str \<Longrightarrow> matches (One a # is) (c # str)"
| "list_all (accepts a) cs \<Longrightarrow> matches is str \<Longrightarrow> matches (Many a # is) (cs @ str)"

inductive_simps matches_Nil [simp]: "matches [] str"
inductive_simps matches_One [simp]: "matches (One a # is) str"
inductive_simps matches_Many: "matches (Many a # is) str"
inductive_simps matches_End [simp]: "matches (End # is) str"

text \<open>\<open>grep pattern text\<close> succeeds if the pattern matches somewhere, or at the start after \<open>^\<close>.\<close>

definition match_spec :: "string \<Rightarrow> string \<Rightarrow> bool" where
  "match_spec re str \<longleftrightarrow>
     (if re \<noteq> [] \<and> hd re = CHR ''^'' then matches (items (tl re)) str
      else \<exists>pre post. str = pre @ post \<and> matches (items re) post)"

lemma matches_Many_unfold:
  "matches (Many a # is) str \<longleftrightarrow>
     matches is str \<or> (\<exists>c ts. str = c # ts \<and> accepts a c \<and> matches (Many a # is) ts)"
proof
  assume "matches (Many a # is) str"
  then obtain cs t where t: "str = cs @ t" "list_all (accepts a) cs" "matches is t"
    by (auto simp: matches_Many)
  then show "matches is str \<or> (\<exists>c ts. str = c # ts \<and> accepts a c \<and> matches (Many a # is) ts)"
    by (cases cs) (auto simp: matches_Many)
next
  assume "matches is str \<or> (\<exists>c ts. str = c # ts \<and> accepts a c \<and> matches (Many a # is) ts)"
  then show "matches (Many a # is) str"
  proof
    assume "matches is str"
    then show ?thesis by (auto simp: matches_Many intro: exI [of _ "[]"])
  next
    assume "\<exists>c ts. str = c # ts \<and> accepts a c \<and> matches (Many a # is) ts"
    then obtain c cs t where "str = c # cs @ t" "accepts a c" "list_all (accepts a) cs" "matches is t"
      by (auto simp: matches_Many)
    then have "str = (c # cs) @ t" "list_all (accepts a) (c # cs)" "matches is t" by simp_all
    then show ?thesis unfolding matches_Many by blast
  qed
qed

lemma accepts_atom_of: "accepts (atom_of c) t \<longleftrightarrow> c = CHR ''.'' \<or> c = t"
  by (simp add: atom_of_def)

lemma matcher_correct:
  "matchhere re str \<longleftrightarrow> matches (items re) str"
  "matchstar c re str \<longleftrightarrow> matches (Many (atom_of c) # items re) str"
proof (induction re str and c re str rule: matchhere_matchstar.induct)
  case (2 c str)
  then show ?case by (cases str) (auto simp: accepts_atom_of)
next
  case (3 c c' re str)
  then show ?case by (cases str) (auto simp: accepts_atom_of)
next
  case (4 c re str)
  then show ?case
    by (subst matchstar.simps, subst matches_Many_unfold) (cases str; auto simp: accepts_atom_of)
qed simp

lemma match_search_iff: "match_search re str \<longleftrightarrow> (\<exists>pre post. str = pre @ post \<and> matchhere re post)"
proof (induction str)
  case Nil
  then show ?case by (simp add: match_search.simps)
next
  case (Cons t ts)
  then show ?case by (subst match_search.simps) (auto simp: Cons_eq_append_conv)
qed

lemma match_correct: "match re str \<longleftrightarrow> match_spec re str"
  by (cases re) (auto simp: match_def match_spec_def match_search_iff matcher_correct(1) split: if_splits)

text \<open>
  C33. The matcher decides the language of the pattern: \<open>match\<close> succeeds exactly when some part of
  the text, or with a leading \<open>^\<close> some prefix of it, is described by the pattern's items in the sense
  of the relation \<open>matches\<close>, in which a starred character may take any number of repetitions.
\<close>

theorem match_decides:
  "match re str \<longleftrightarrow>
     (case re of
        CHR ''^'' # re' \<Rightarrow> matches (items re') str
      | _ \<Rightarrow> \<exists>pre post. str = pre @ post \<and> matches (items re) post)"
  by (auto simp: match_correct match_spec_def split: list.split char.split bool.split)

text \<open>
  Lines.  \<open>split_lines\<close> gives the complete lines of a text, without their line ends, and the
  incomplete last line.
\<close>

fun split_lines :: "string \<Rightarrow> string list \<times> string" where
  "split_lines [] = ([], [])"
| "split_lines (c # s) =
     (case split_lines s of
        (ls, r) \<Rightarrow> if c = LF then ([] # ls, r)
          else case ls of [] \<Rightarrow> ([], c # r) | l # ls' \<Rightarrow> ((c # l) # ls', r))"

definition selected :: "string \<Rightarrow> string list \<Rightarrow> string" where
  "selected pattern ls = concat (map (\<lambda>l. l @ [LF]) (filter (match_spec pattern) ls))"

lemma split_lines_no_LF: "LF \<notin> set s \<Longrightarrow> split_lines s = ([], s)"
  by (induction s) auto

lemma split_lines_line: "LF \<notin> set l \<Longrightarrow> split_lines (l @ LF # s) = (l # fst (split_lines s), snd (split_lines s))"
  by (induction l) (auto split: prod.split)

lemma split_lines_rest: "LF \<notin> set (snd (split_lines s))"
  by (induction s) (auto split: prod.splits list.splits)

lemma split_lines_append:
  "split_lines (s @ t) =
     (fst (split_lines s) @ fst (split_lines (snd (split_lines s) @ t)), snd (split_lines (snd (split_lines s) @ t)))"
proof (induction s)
  case (Cons c s)
  then show ?case
  proof (cases "c = LF")
    case False
    with Cons show ?thesis
      by (cases "fst (split_lines s)") (auto split: prod.splits list.splits)
  qed (simp add: split_beta)
qed simp

lemma selected_simps [simp]:
  "selected pat [] = []"
  "selected pat (l # ls) = (if match_spec pat l then l @ [LF] else []) @ selected pat ls"
  "selected pat (ls @ ls') = selected pat ls @ selected pat ls'"
  by (simp_all add: selected_def)

lemma first_LF: "NUL \<notin> set p \<Longrightarrow> find_char (takeWhile (\<lambda>c. c \<noteq> NUL) p) LF = find_char p LF"
proof -
  assume "NUL \<notin> set p"
  then have "takeWhile (\<lambda>c. c \<noteq> NUL) p = p" by (auto simp: takeWhile_eq_all_conv)
  then show ?thesis by (simp only:)
qed

lemma length_rest_le: "length (snd (split_lines s)) \<le> length s"
  by (induction s) (auto split: prod.splits list.splits)

lemma first_line_long:
  "LF \<notin> set h \<Longrightarrow> fst (split_lines (h @ t)) = l # ls \<Longrightarrow> length h \<le> length l"
  by (induction h arbitrary: l ls) (auto split: prod.splits list.splits)

lemma NUL_rest: "NUL \<notin> set s \<Longrightarrow> NUL \<notin> set (snd (split_lines s))"
  by (induction s) (auto split: prod.splits list.splits)

context stdio
begin

lemma run_grep_lines:
  "inv k \<Longrightarrow> NUL \<notin> set p \<Longrightarrow>
   \<exists>k'. run K (grep_lines pat p) k = (Returned (snd (split_lines p)), k') \<and> inv k' \<and>
     out k' = out k @ selected pat (fst (split_lines p)) \<and> content k' = content k"
proof (induction pat p arbitrary: k rule: grep_lines.induct)
  case (1 pat p)
  show ?case
  proof (cases "find_char p LF")
    case None
    then have "LF \<notin> set p" by (simp add: find_char_None)
    with None "1.prems" show ?thesis
      by (subst grep_lines.simps) (simp add: first_LF split_lines_no_LF)
  next
    case (Some q)
    then have q: "q < length p" "p ! q = LF" "LF \<notin> set (take q p)" by (simp_all add: find_char_Some)
    then have p: "p = take q p @ LF # drop (q + 1) p" using id_take_nth_drop [OF q(1)] by simp
    have sp: "split_lines p = (take q p # fst (split_lines (drop (q + 1) p)), snd (split_lines (drop (q + 1) p)))"
      by (subst p, rule split_lines_line [OF q(3)])
    have nn: "NUL \<notin> set (drop (q + 1) p)" using "1.prems"(2) by (meson in_set_dropD)
    have fc: "find_char (takeWhile (\<lambda>c. c \<noteq> NUL) p) LF = Some q" using Some "1.prems" by (simp add: first_LF)
    have tk: "take (q + 1) p = take q p @ [LF]" using q by (simp add: take_Suc_conv_app_nth)
    show ?thesis
    proof (cases "match pat (take q p)")
      case True
      from write_out [OF "1.prems"(1), of "take (q + 1) p"] obtain k1 where
        w: "k_call K (Write 1 (take (q + 1) p)) k = Some (int (length (take (q + 1) p)), k1)" "inv k1"
          "out k1 = out k @ take (q + 1) p" "content k1 = content k" .
      from "1.IH"(1) [OF fc True w(2) nn] w True fc show ?thesis
        by (subst grep_lines.simps) (auto simp: sp tk [simplified] match_correct)
    next
      case False
      from "1.IH"(2) [OF fc False "1.prems"(1) nn] False fc show ?thesis
        by (subst grep_lines.simps) (auto simp: sp match_correct)
    qed
  qed
qed

lemma run_grep_loop:
  "inv k \<Longrightarrow> NUL \<notin> set (held @ content k) \<Longrightarrow> LF \<notin> set held \<Longrightarrow>
   list_all (\<lambda>l. length l \<le> 1022) (fst (split_lines (held @ content k))) \<Longrightarrow>
   length (content k) < fuel \<Longrightarrow>
   \<exists>k'. run K (grep_loop fuel pat ifd held) k = (Returned (), k') \<and> inv k' \<and>
     out k' = out k @ selected pat (fst (split_lines (held @ content k)))"
proof (induction fuel arbitrary: held k)
  case (Suc fuel)
  from Suc.prems(1) obtain bs k1 where r: "k_read K ifd (1023 - length held) k = Some (Some bs, k1)" "inv k1"
    "content k = bs @ content k1" "length bs \<le> 1023 - length held"
    "bs = [] \<longrightarrow> 1023 - length held = 0 \<or> content k = []" "out k1 = out k"
    by (rule read_in [where n = "1023 - length held"]) simp_all
  show ?case
  proof (cases "bs = []")
    case True
    have "fst (split_lines (held @ content k)) = []"
    proof (cases "content k = []")
      case False
      with True r(5) have "1023 \<le> length held" by simp
      with Suc.prems(4) first_line_long [OF Suc.prems(3), of "content k"] show ?thesis
        by (cases "fst (split_lines (held @ content k))") fastforce+
    qed (simp add: split_lines_no_LF [OF Suc.prems(3)])
    with True r show ?thesis by simp
  next
    case False
    let ?r = "snd (split_lines (held @ bs))" and ?ls = "fst (split_lines (held @ bs))"
    have sp: "split_lines (held @ content k) =
        (?ls @ fst (split_lines (?r @ content k1)), snd (split_lines (?r @ content k1)))"
      using split_lines_append [of "held @ bs" "content k1"] r(3) by simp
    have nn: "NUL \<notin> set (held @ bs)" using Suc.prems(2) r(3) by auto
    from run_grep_lines [OF r(2) nn, of pat] obtain k2 where
      g: "run K (grep_lines pat (held @ bs)) k1 = (Returned ?r, k2)" "inv k2"
        "out k2 = out k1 @ selected pat ?ls" "content k2 = content k1" by blast
    have "\<exists>k'. run K (grep_loop fuel pat ifd ?r) k2 = (Returned (), k') \<and> inv k' \<and>
        out k' = out k2 @ selected pat (fst (split_lines (?r @ content k2)))"
    proof (rule Suc.IH)
      show "NUL \<notin> set (?r @ content k2)" using NUL_rest [OF nn] Suc.prems(2) r(3) g(4) by simp
      show "list_all (\<lambda>l. length l \<le> 1022) (fst (split_lines (?r @ content k2)))"
        using Suc.prems(4) sp g(4) by simp
      show "length (content k2) < fuel" using Suc.prems(5) r(3) g(4) False by (cases bs) auto
    qed (simp_all add: g split_lines_rest)
    with g r False sp show ?thesis by (auto simp: run_pbind)
  qed
qed simp

text \<open>A line that fills the buffer makes \<open>grep\<close> stop: the next read asks for no bytes.\<close>

lemma run_grep_stuck:
  "inv k \<Longrightarrow> NUL \<notin> set (held @ content k) \<Longrightarrow> LF \<notin> set (take 1023 (held @ content k)) \<Longrightarrow>
   length held \<le> 1023 \<Longrightarrow> 1023 \<le> length (held @ content k) \<Longrightarrow> length (content k) < fuel \<Longrightarrow>
   \<exists>k'. run K (grep_loop fuel pat ifd held) k = (Returned (), k') \<and> inv k' \<and> out k' = out k"
proof (induction fuel arbitrary: held k)
  case (Suc fuel)
  from Suc.prems(1) obtain bs k1 where r: "k_read K ifd (1023 - length held) k = Some (Some bs, k1)" "inv k1"
    "content k = bs @ content k1" "length bs \<le> 1023 - length held"
    "bs = [] \<longrightarrow> 1023 - length held = 0 \<or> content k = []" "out k1 = out k"
    by (rule read_in [where n = "1023 - length held"]) simp_all
  show ?case
  proof (cases "bs = []")
    case False
    have len: "length (held @ bs) \<le> 1023" using r(4) Suc.prems(4) by simp
    then have "set (held @ bs) \<subseteq> set (take 1023 (held @ content k))"
      using r(3) by (auto simp: take_append)
    then have LF: "LF \<notin> set (held @ bs)" using Suc.prems(3) by blast
    have nn: "NUL \<notin> set (held @ bs)" using Suc.prems(2) r(3) by auto
    from run_grep_lines [OF r(2) nn, of pat] split_lines_no_LF [OF LF] obtain k2 where
      g: "run K (grep_lines pat (held @ bs)) k1 = (Returned (held @ bs), k2)" "inv k2"
        "out k2 = out k1" "content k2 = content k1" by auto
    have "\<exists>k'. run K (grep_loop fuel pat ifd (held @ bs)) k2 = (Returned (), k') \<and> inv k' \<and> out k' = out k2"
    proof (rule Suc.IH)
      show "length (content k2) < fuel" using Suc.prems(6) r(3) g(4) False by (cases bs) auto
    qed (use Suc.prems g r len in simp_all)
    with g r False show ?thesis by (auto simp: run_pbind)
  qed (use r in simp)
qed simp

end

end
