(* ===== verification/Tools.thy ===== *)
theory Tools
  imports Grep
begin

text \<open>
  The small programs of \<^verbatim>\<open>src/user\<close>: \<open>cat\<close>, \<open>wc\<close>, \<open>echo\<close>, \<open>kill\<close>, \<open>ln\<close>, \<open>mkdir\<close>, \<open>rm\<close>,
  \<open>zombie\<close>, \<open>init\<close>, \<open>stressfs\<close> and \<open>forktest\<close>, each \<open>main\<close> as a program over system calls.  The argument
  list is \<open>argv\<close>, the program's name first.  A loop that reads until the end of a file takes a bound
  on its rounds.  The filters are verified against the contract \<open>stdio\<close>; the properties at the end
  state the results for the kernel's regular files and pipes.
\<close>

subsection \<open>Definitions\<close>

fun cat :: "nat \<Rightarrow> int \<Rightarrow> unit prog" where
  "cat 0 fd = OutOfFuel"
| "cat (Suc fuel) fd =
     Read fd 512 (\<lambda>r. case r of
         None \<Rightarrow> pbind (fprintf 2 ''cat: read error\<newline>'' []) (\<lambda>_. Exit 1)
       | Some bs \<Rightarrow>
           if bs = [] then Ret ()
           else Call (Write 1 bs) (\<lambda>n.
             if n \<noteq> int (length bs) then pbind (fprintf 2 ''cat: write error\<newline>'' []) (\<lambda>_. Exit 1)
             else cat fuel fd))"

fun cat_files :: "nat \<Rightarrow> string list \<Rightarrow> unit prog" where
  "cat_files fuel [] = Exit 0"
| "cat_files fuel (f # fs) =
     Call (Open f 0) (\<lambda>fd.
       if fd < 0 then pbind (fprintf 2 ''cat: cannot open %s\<newline>'' [VStr f]) (\<lambda>_. Exit 1)
       else pbind (cat fuel fd) (\<lambda>_. do_call (Close fd) (cat_files fuel fs)))"

definition cat_main :: "nat \<Rightarrow> string list \<Rightarrow> unit prog" where
  "cat_main fuel argv =
     (if length argv \<le> 1 then pbind (cat fuel 0) (\<lambda>_. Exit 0) else cat_files fuel (tl argv))"

text \<open>
  One character of \<open>wc\<close>: the counters \<open>l\<close>, \<open>w\<close>, \<open>c\<close> are 32-bit, the flag is \<open>inword\<close>.  The literal
  that \<open>strchr\<close> searches is placed at address 1 of a memory of its own, so that 0 is no place in it.
\<close>

type_synonym wc_state = "uint \<times> uint \<times> uint \<times> bool"

definition wc_blanks :: mem where
  "wc_blanks = [NUL, CHR '' '', CR, CHR 0x09, LF, CHR 0x0B, NUL]"

fun wc_step :: "wc_state \<Rightarrow> char \<Rightarrow> wc_state" where
  "wc_step (l, w, c, inword) ch =
     (let c = c + 1;
          l = (if ch = LF then l + 1 else l)
      in if strchr wc_blanks 1 ch \<noteq> Some 0 then (l, w, c, False)
         else if \<not> inword then (l, w + 1, c, True)
         else (l, w, c, inword))"

fun wc_loop :: "nat \<Rightarrow> int \<Rightarrow> wc_state \<Rightarrow> wc_state option prog" where
  "wc_loop 0 fd s = OutOfFuel"
| "wc_loop (Suc fuel) fd s =
     Read fd 512 (\<lambda>r. case r of
         None \<Rightarrow> Ret None
       | Some bs \<Rightarrow> if bs = [] then Ret (Some s) else wc_loop fuel fd (foldl wc_step s bs))"

definition wc :: "(uint64 \<Rightarrow> string) \<Rightarrow> nat \<Rightarrow> int \<Rightarrow> string \<Rightarrow> unit prog" where
  "wc fmtp fuel fd name = pbind (wc_loop fuel fd (0, 0, 0, False)) (\<lambda>r. case r of
       None \<Rightarrow> pbind (printf fmtp ''wc: read error\<newline>'' []) (\<lambda>_. Exit 1)
     | Some (l, w, c, inword) \<Rightarrow>
         printf fmtp ''%d %d %d %s\<newline>'' [VNum (ucast l), VNum (ucast w), VNum (ucast c), VStr name])"

fun wc_files :: "(uint64 \<Rightarrow> string) \<Rightarrow> nat \<Rightarrow> string list \<Rightarrow> unit prog" where
  "wc_files fmtp fuel [] = Exit 0"
| "wc_files fmtp fuel (f # fs) =
     Call (Open f 0) (\<lambda>fd.
       if fd < 0 then pbind (printf fmtp ''wc: cannot open %s\<newline>'' [VStr f]) (\<lambda>_. Exit 1)
       else pbind (wc fmtp fuel fd f) (\<lambda>_. do_call (Close fd) (wc_files fmtp fuel fs)))"

definition wc_main :: "(uint64 \<Rightarrow> string) \<Rightarrow> nat \<Rightarrow> string list \<Rightarrow> unit prog" where
  "wc_main fmtp fuel argv =
     (if length argv \<le> 1 then pbind (wc fmtp fuel 0 []) (\<lambda>_. Exit 0) else wc_files fmtp fuel (tl argv))"

fun echo_args :: "string list \<Rightarrow> unit prog" where
  "echo_args [] = Exit 0"
| "echo_args (a # as) =
     do_call (Write 1 a) (do_call (Write 1 (if as \<noteq> [] then '' '' else ''\<newline>'')) (echo_args as))"

definition echo_main :: "string list \<Rightarrow> unit prog" where
  "echo_main argv = echo_args (tl argv)"

fun kill_args :: "string list \<Rightarrow> unit prog" where
  "kill_args [] = Exit 0"
| "kill_args (a # as) =
     (case atoi (a @ [NUL]) 0 of None \<Rightarrow> Crash | Some pid \<Rightarrow> do_call (Kill pid) (kill_args as))"

definition kill_main :: "string list \<Rightarrow> unit prog" where
  "kill_main argv =
     (if length argv < 2 then pbind (fprintf 2 ''usage: kill pid...\<newline>'' []) (\<lambda>_. Exit 1)
      else kill_args (tl argv))"

fun ln_main :: "string list \<Rightarrow> unit prog" where
  "ln_main [prog, old, new] =
     Call (Link old new) (\<lambda>r.
       pbind (if r < 0 then fprintf 2 ''link %s %s: failed\<newline>'' [VStr old, VStr new] else Ret ()) (\<lambda>_. Exit 0))"
| "ln_main argv = pbind (fprintf 2 ''Usage: ln old new\<newline>'' []) (\<lambda>_. Exit 1)"

fun mkdir_args :: "string list \<Rightarrow> unit prog" where
  "mkdir_args [] = Exit 0"
| "mkdir_args (a # as) =
     Call (Mkdir a) (\<lambda>r.
       if r < 0 then pbind (fprintf 2 ''mkdir: %s failed to create\<newline>'' [VStr a]) (\<lambda>_. Exit 0)
       else mkdir_args as)"

definition mkdir_main :: "string list \<Rightarrow> unit prog" where
  "mkdir_main argv =
     (if length argv < 2 then pbind (fprintf 2 ''Usage: mkdir files...\<newline>'' []) (\<lambda>_. Exit 1)
      else mkdir_args (tl argv))"

fun rm_args :: "string list \<Rightarrow> unit prog" where
  "rm_args [] = Exit 0"
| "rm_args (a # as) =
     Call (Unlink a) (\<lambda>r.
       if r < 0 then pbind (fprintf 2 ''rm: %s failed to delete\<newline>'' [VStr a]) (\<lambda>_. Exit 0)
       else rm_args as)"

definition rm_main :: "string list \<Rightarrow> unit prog" where
  "rm_main argv =
     (if length argv < 2 then pbind (fprintf 2 ''Usage: rm files...\<newline>'' []) (\<lambda>_. Exit 1)
      else rm_args (tl argv))"

definition zombie_main :: "unit prog" where
  "zombie_main = Call Fork (\<lambda>pid. if pid > 0 then do_call (Sleep 5) (Exit 0) else Exit 0)"

text \<open>
  \<open>init\<close> runs forever: \<open>fuel\<close> bounds the shells it starts, and for each of them the calls to \<open>wait\<close>.
\<close>


fun init_wait :: "(uint64 \<Rightarrow> string) \<Rightarrow> nat \<Rightarrow> int \<Rightarrow> unit prog" where
  "init_wait fmtp 0 pid = OutOfFuel"
| "init_wait fmtp (Suc fuel) pid =
     Wait (\<lambda>(wpid, status).
       if wpid = pid then Ret ()
       else if wpid < 0 then pbind (printf fmtp ''init: wait returned an error\<newline>'' []) (\<lambda>_. Exit 1)
       else init_wait fmtp fuel pid)"

fun init_loop :: "(uint64 \<Rightarrow> string) \<Rightarrow> nat \<Rightarrow> nat \<Rightarrow> unit prog" where
  "init_loop fmtp 0 waits = OutOfFuel"
| "init_loop fmtp (Suc fuel) waits =
     pbind (printf fmtp ''init: starting sh\<newline>'' []) (\<lambda>_. Call Fork (\<lambda>pid.
       if pid < 0 then pbind (printf fmtp ''init: fork failed\<newline>'' []) (\<lambda>_. Exit 1)
       else if pid = 0 then
         do_call (Exec ''sh'' [''sh'']) (pbind (printf fmtp ''init: exec sh failed\<newline>'' []) (\<lambda>_. Exit 1))
       else pbind (init_wait fmtp waits pid) (\<lambda>_. init_loop fmtp fuel waits)))"

definition init_console :: "unit prog" where
  "init_console =
     Call (Open ''console'' O_RDWR) (\<lambda>fd.
       pbind (if fd < 0 then do_call (Mknod ''console'' CONSOLE 0) (do_call (Open ''console'' O_RDWR) (Ret ()))
              else Ret ())
         (\<lambda>_. do_call (Dup 0) (do_call (Dup 0) (Ret ()))))"

definition init_main :: "(uint64 \<Rightarrow> string) \<Rightarrow> nat \<Rightarrow> nat \<Rightarrow> unit prog" where
  "init_main fmtp fuel waits = pbind init_console (\<lambda>_. init_loop fmtp fuel waits)"

text \<open>\<open>stressfs\<close>: the number of forks before the first one that leaves the loop, then the file work.\<close>

fun stressfs_forks :: "nat \<Rightarrow> nat \<Rightarrow> nat prog" where
  "stressfs_forks 0 i = Ret i"
| "stressfs_forks (Suc n) i = Call Fork (\<lambda>pid. if pid > 0 then Ret i else stressfs_forks n (i + 1))"

fun stressfs_writes :: "nat \<Rightarrow> int \<Rightarrow> string \<Rightarrow> unit prog" where
  "stressfs_writes 0 fd dat = Ret ()"
| "stressfs_writes (Suc n) fd dat = do_call (Write fd dat) (stressfs_writes n fd dat)"

fun stressfs_reads :: "nat \<Rightarrow> int \<Rightarrow> unit prog" where
  "stressfs_reads 0 fd = Ret ()"
| "stressfs_reads (Suc n) fd = Read fd 512 (\<lambda>_. stressfs_reads n fd)"

definition stressfs_path :: "nat \<Rightarrow> string" where
  "stressfs_path i = ''stressfs'' @ [char_of (of_char (CHR ''0'') + i :: nat)]"

definition stressfs_main :: "(uint64 \<Rightarrow> string) \<Rightarrow> unit prog" where
  "stressfs_main fmtp =
     pbind (printf fmtp ''stressfs starting\<newline>'' []) (\<lambda>_.
     pbind (stressfs_forks 4 0) (\<lambda>i.
     pbind (printf fmtp ''write %d\<newline>'' [VNum (of_nat i)]) (\<lambda>_.
     Call (Open (stressfs_path i) (O_CREATE + O_RDWR)) (\<lambda>fd.
     pbind (stressfs_writes 20 fd (replicate 512 (CHR ''a''))) (\<lambda>_. do_call (Close fd) (
     pbind (printf fmtp ''read\<newline>'' []) (\<lambda>_.
     Call (Open (stressfs_path i) O_RDONLY) (\<lambda>fd.
     pbind (stressfs_reads 20 fd) (\<lambda>_. do_call (Close fd) (
     Wait (\<lambda>_. Exit 0)))))))))))"

text \<open>\<open>forktest\<close>: \<open>N\<close> forks are tried; the result is how many children there are, in the parent.\<close>

definition forktest_N :: nat where "forktest_N = 1000"

definition forktest_print :: "string \<Rightarrow> 'a prog \<Rightarrow> 'a prog" where
  "forktest_print s p = do_call (Write 1 s) p"

fun forktest_forks :: "nat \<Rightarrow> nat \<Rightarrow> nat prog" where
  "forktest_forks 0 n = Ret n"
| "forktest_forks (Suc left) n =
     Call Fork (\<lambda>pid. if pid < 0 then Ret n else if pid = 0 then Exit 0 else forktest_forks left (n + 1))"

fun forktest_waits :: "nat \<Rightarrow> unit prog" where
  "forktest_waits 0 = Ret ()"
| "forktest_waits (Suc n) =
     Wait (\<lambda>(pid, _). if pid < 0 then forktest_print ''wait stopped early\<newline>'' (Exit 1) else forktest_waits n)"

definition forktest :: "unit prog" where
  "forktest =
     forktest_print ''fork test\<newline>'' (pbind (forktest_forks forktest_N 0) (\<lambda>n.
       if n = forktest_N then forktest_print ''fork claimed to work N times!\<newline>'' (Exit 1)
       else pbind (forktest_waits n) (\<lambda>_.
         Wait (\<lambda>(pid, _).
           if pid \<noteq> - 1 then forktest_print ''wait got too many\<newline>'' (Exit 1)
           else forktest_print ''fork test OK\<newline>'' (Ret ())))))"

definition forktest_main :: "unit prog" where
  "forktest_main = pbind forktest (\<lambda>_. Exit 0)"

subsection \<open>What the filters compute\<close>

definition blank :: "char \<Rightarrow> bool" where
  "blank c \<longleftrightarrow> c \<in> {CHR '' '', CR, CHR 0x09, LF, CHR 0x0B}"

text \<open>A word begins where a non-blank follows a blank or nothing.\<close>

definition line_count :: "string \<Rightarrow> nat" where
  "line_count s = count_list s LF"

definition word_count :: "string \<Rightarrow> nat" where
  "word_count s = length (filter (\<lambda>i. \<not> blank (s ! i) \<and> (i = 0 \<or> blank (s ! (i - 1)))) [0..<length s])"

definition wc_report :: "string \<Rightarrow> string \<Rightarrow> string" where
  "wc_report s name =
     nat_text 10 (line_count s) @ '' '' @ nat_text 10 (word_count s) @ '' '' @ nat_text 10 (length s) @ '' '' @ name @ [LF]"

lemma wc_blanks_strchr: "strchr wc_blanks 1 c = Some 0 \<longleftrightarrow> \<not> blank c"
proof -
  have "cstring wc_blanks 1 [CHR '' '', CR, CHR 0x09, LF, CHR 0x0B]"
    by (simp add: cstring_def wc_blanks_def segment_def)
  from strchr_cstring [OF this, of c] show ?thesis
    by (auto simp: blank_def find_char_None split: option.splits)
qed

lemma line_count_snoc [simp]: "line_count (s @ [c]) = (if c = LF then line_count s + 1 else line_count s)"
  by (simp add: line_count_def)

lemma word_count_snoc [simp]:
  "word_count (s @ [c]) = (if \<not> blank c \<and> (s = [] \<or> blank (last s)) then word_count s + 1 else word_count s)"
proof -
  have "filter (\<lambda>i. \<not> blank ((s @ [c]) ! i) \<and> (i = 0 \<or> blank ((s @ [c]) ! (i - 1)))) [0..<length s] =
      filter (\<lambda>i. \<not> blank (s ! i) \<and> (i = 0 \<or> blank (s ! (i - 1)))) [0..<length s]"
    by (intro filter_cong) (auto simp: nth_append)
  moreover have "(s @ [c]) ! (length s - 1) = last s" if "s \<noteq> []" using that by (simp add: nth_append last_conv_nth)
  ultimately show ?thesis by (auto simp: word_count_def)
qed

lemma wc_fold:
  "foldl wc_step (0, 0, 0, False) s =
     (of_nat (line_count s), of_nat (word_count s), of_nat (length s), s \<noteq> [] \<and> \<not> blank (last s))"
  by (induction s rule: rev_induct)
    (auto simp: wc_blanks_strchr [simplified] Let_def line_count_def word_count_def [of "[]"])

lemma word_count_le: "word_count s \<le> length s"
  unfolding word_count_def by (rule order_trans [OF length_filter_le]) simp

lemma line_count_le: "line_count s \<le> length s"
  by (induction s) (auto simp: line_count_def)

lemma int_text_of_nat: "n < 2 ^ 31 \<Longrightarrow> int_text (sint (of_nat n :: uint)) = nat_text 10 n"
proof -
  assume "n < 2 ^ 31"
  then have "uint (of_nat n :: uint) = int n" by (simp add: uint_nat unat_of_nat)
  with \<open>n < 2 ^ 31\<close> show ?thesis by (simp add: int_text_def sint_uint32)
qed

lemma zconv_text_d:
  assumes "n < 2 ^ 31"
  shows "zconv_text fmtp (CHR ''d'') (VNum (ucast (of_nat n :: uint)) # as) = Some (nat_text 10 n, as)"
proof -
  have "(ucast (ucast x :: uint64) :: uint) = x" for x :: uint
    by (rule bit_word_eqI) (simp add: bit_simps)
  then have "zconv_text fmtp (CHR ''d'') (VNum (ucast (of_nat n :: uint)) # as) = Some (int_text (sint (of_nat n :: uint)), as)"
    by (simp add: zconv_text_def)
  with assms show ?thesis by (simp add: int_text_of_nat)
qed

lemma zconv_text_s: "length s \<le> 512 \<Longrightarrow> zconv_text fmtp (CHR ''s'') (VStr s # as) = Some (s, as)"
  by (simp add: zconv_text_def zfit_def)

lemma zfmt_text_wc:
  assumes "l < 2 ^ 31" and "w < 2 ^ 31" and "c < 2 ^ 31" and "length name \<le> 512"
  shows "zfmt_text fmtp ''%d %d %d %s\<newline>''
      [VNum (ucast (of_nat l :: uint)), VNum (ucast (of_nat w :: uint)), VNum (ucast (of_nat c :: uint)), VStr name] =
    Some (nat_text 10 l @ '' '' @ nat_text 10 w @ '' '' @ nat_text 10 c @ '' '' @ name @ [LF])"
  by (simp add: zconv_text_d [OF assms(1)] zconv_text_d [OF assms(2)] zconv_text_d [OF assms(3)] zconv_text_s [OF assms(4)])

context stdio
begin

lemma run_cat:
  "inv k \<Longrightarrow> length (content k) < fuel \<Longrightarrow>
   \<exists>k'. run K (cat fuel ifd) k = (Returned (), k') \<and> inv k' \<and> out k' = out k @ content k \<and> content k' = []"
proof (induction fuel arbitrary: k)
  case (Suc fuel)
  from Suc.prems(1) obtain bs k1 where r: "k_read K ifd 512 k = Some (Some bs, k1)" "inv k1"
    "content k = bs @ content k1" "length bs \<le> 512" "bs = [] \<longrightarrow> (512 :: nat) = 0 \<or> content k = []" "out k1 = out k"
    by (rule read_in [where n = 512]) simp_all
  from write_out [OF r(2), of bs] obtain k2 where
    w: "k_call K (Write 1 bs) k1 = Some (int (length bs), k2)" "inv k2" "out k2 = out k1 @ bs" "content k2 = content k1" .
  show ?case
  proof (cases "bs = []")
    case False
    then have "length (content k2) < fuel" using Suc.prems(2) r(3) w(4) by (cases bs) auto
    from Suc.IH [OF w(2) this] r w False show ?thesis by auto
  qed (use r in auto)
qed simp

lemma run_wc_loop:
  "inv k \<Longrightarrow> length (content k) < fuel \<Longrightarrow>
   \<exists>k'. run K (wc_loop fuel ifd s) k = (Returned (Some (foldl wc_step s (content k))), k') \<and> inv k' \<and>
     out k' = out k \<and> content k' = []"
proof (induction fuel arbitrary: k s)
  case (Suc fuel)
  from Suc.prems(1) obtain bs k1 where r: "k_read K ifd 512 k = Some (Some bs, k1)" "inv k1"
    "content k = bs @ content k1" "length bs \<le> 512" "bs = [] \<longrightarrow> (512 :: nat) = 0 \<or> content k = []" "out k1 = out k"
    by (rule read_in [where n = 512]) simp_all
  show ?case
  proof (cases "bs = []")
    case False
    then have "length (content k1) < fuel" using Suc.prems(2) r(3) by (cases bs) auto
    from Suc.IH [OF r(2) this, of "foldl wc_step s bs"] r False show ?thesis by auto
  qed (use r in auto)
qed simp

lemma run_wc:
  assumes "inv k" and "length (content k) < fuel" and "length (content k) < 2 ^ 31" and "length name \<le> 512"
  shows "\<exists>k'. run K (wc fmtp fuel ifd name) k = (Returned (), k') \<and> inv k' \<and>
    out k' = out k @ wc_report (content k) name"
proof -
  let ?s = "content k"
  from run_wc_loop [OF assms(1,2), of "(0, 0, 0, False)"] obtain k1 where
    k1: "run K (wc_loop fuel ifd (0, 0, 0, False)) k = (Returned (Some (foldl wc_step (0, 0, 0, False) ?s)), k1)"
      "inv k1" "out k1 = out k" by blast
  have "line_count ?s < 2 ^ 31" "word_count ?s < 2 ^ 31"
    using assms(3) line_count_le [of ?s] word_count_le [of ?s] by linarith+
  from run_printf [OF k1(2) zfmt_text_wc [OF this assms(3,4), of fmtp]] k1 show ?thesis
    by (auto simp: wc_def run_pbind wc_fold wc_report_def)
qed

end

subsection \<open>The filters on the kernel's files and pipes\<close>

text \<open>
  \<open>cat\<close> without arguments copies its standard input, byte for byte and completely, to standard
  output and exits with status 0, for regular files and for pipes.
\<close>

lemma cat_copies:
  assumes "std_input st" and "length (rest_of 0 st) < fuel"
  shows "\<exists>st'. run (fd_kernel (\<lambda>_. True) killed fresh other) (cat_main fuel [''cat'']) st = (Exited 0, st') \<and>
    console_out st' = console_out st @ rest_of 0 st \<and> rest_of 0 st' = []"
  using assms inode_io.run_cat [where ifd = 0, of st fuel killed fresh other]
    pipe_io.run_cat [where ifd = 0 and gb = "\<lambda>_. True", of st fuel killed fresh other]
  by (auto simp: std_input_def cat_main_def run_pbind)

text \<open>
  \<open>wc\<close> without arguments reports the number of newlines, the number of words (maximal runs of
  characters other than blank, carriage return, tab, newline and vertical tab) and the number of
  bytes of its standard input.
\<close>

lemma wc_counts:
  assumes "std_input st" and "length (rest_of 0 st) < fuel" and "length (rest_of 0 st) < 2 ^ 31"
  shows "\<exists>st'. run (fd_kernel (\<lambda>_. True) killed fresh other) (wc_main fmtp fuel [''wc'']) st = (Exited 0, st') \<and>
    console_out st' = console_out st @
      nat_text 10 (line_count (rest_of 0 st)) @ '' '' @ nat_text 10 (word_count (rest_of 0 st)) @ '' '' @
      nat_text 10 (length (rest_of 0 st)) @ '' '' @ [LF]"
  using assms inode_io.run_wc [where ifd = 0 and name = "[]" and fmtp = fmtp, of st fuel killed fresh other]
    pipe_io.run_wc [where ifd = 0 and gb = "\<lambda>_. True" and name = "[]" and fmtp = fmtp, of st fuel killed fresh other]
  by (auto simp: std_input_def wc_main_def run_pbind wc_report_def)

text \<open>
  C32. \<open>grep pattern\<close> prints exactly the lines of its standard input that match the pattern, complete
  and in order, for regular files and pipes and however the reads cut the input into pieces, provided
  that the text has no NUL and no line has more than 1022 characters.  A last line without a line end
  is never printed.
\<close>

theorem grep_prints_matches:
  assumes "std_input st" and "NUL \<notin> set (rest_of 0 st)" and "length (rest_of 0 st) < fuel"
    and "list_all (\<lambda>l. length l \<le> 1022) (fst (split_lines (rest_of 0 st)))"
  shows "\<exists>st'. run (fd_kernel (\<lambda>_. True) killed fresh other) (grep_main fmtp fuel [''grep'', pattern]) st = (Exited 0, st') \<and>
    console_out st' = console_out st @
      concat (map (\<lambda>l. l @ [LF]) (filter (match pattern) (fst (split_lines (rest_of 0 st)))))"
proof -
  have "match pattern = match_spec pattern" by (simp add: fun_eq_iff match_correct)
  then show ?thesis
    using assms inode_io.run_grep_loop [where ifd = 0 and held = "[]", of st fuel killed fresh other pattern]
      pipe_io.run_grep_loop [where ifd = 0 and gb = "\<lambda>_. True" and held = "[]", of st fuel killed fresh other pattern]
    by (auto simp: std_input_def grep_def run_pbind selected_def)
qed

theorem grep_prints_matches_witness:
  "\<exists>st'. run (demo_kernel idle_kernel) (grep_main (\<lambda>_. []) 20 [''grep'', ''^a.*c$'']) (text_state ''abc\<newline>bac\<newline>ac\<newline>ac'') =
     (Exited 0, st') \<and> console_out st' = ''abc\<newline>ac\<newline>''"
proof -
  let ?s = "''abc\<newline>bac\<newline>ac\<newline>ac''" and ?p = "''^a.*c$''"
  have f: "std_input (text_state ?s)" "rest_of 0 (text_state ?s) = ?s" "console_out (text_state ?s) = []"
    using text_state_facts [of ?s] by simp_all
  have l: "fst (split_lines ?s) = [''abc'', ''bac'', ''ac'']" by simp
  have m: "match ?p ''abc''" "\<not> match ?p ''bac''" "match ?p ''ac''"
    by (simp_all add: match_def matchstar.simps)
  have "\<exists>st'. run (demo_kernel idle_kernel) (grep_main (\<lambda>_. []) 20 [''grep'', ?p]) (text_state ?s) = (Exited 0, st') \<and>
    console_out st' = [] @ concat (map (\<lambda>l. l @ [LF]) (filter (match ?p) [''abc'', ''bac'', ''ac'']))"
    using grep_prints_matches [where fuel = 20 and st = "text_state ?s" and killed = False and fresh = "\<lambda>_. None"
      and other = idle_kernel and fmtp = "\<lambda>_. []" and pattern = ?p, unfolded f(2,3) l, OF f(1)] by simp
  then show ?thesis by (simp add: m del: grep_main.simps)
qed

text \<open>
  A line that fills the 1023-byte buffer stops \<open>grep\<close>: it prints nothing at all, neither that
  line nor any later one, and still exits with status 0.
\<close>

lemma grep_stops_at_long_line:
  assumes "std_input st" and "NUL \<notin> set (rest_of 0 st)" and "length (rest_of 0 st) < fuel"
    and "1023 \<le> length (rest_of 0 st)" and "LF \<notin> set (take 1023 (rest_of 0 st))"
  shows "\<exists>st'. run (fd_kernel (\<lambda>_. True) killed fresh other) (grep_main fmtp fuel [''grep'', pattern]) st = (Exited 0, st') \<and>
    console_out st' = console_out st"
  using assms inode_io.run_grep_stuck [where ifd = 0 and held = "[]", of st fuel killed fresh other pattern]
    pipe_io.run_grep_stuck [where ifd = 0 and gb = "\<lambda>_. True" and held = "[]", of st fuel killed fresh other pattern]
  by (auto simp: std_input_def grep_def run_pbind)

text \<open>
  \<open>gets\<close> returns the first line of standard input with its line end (newline or carriage
  return), at most \<open>max - 1\<close> bytes of it, and takes exactly those bytes from the input.
\<close>

lemma gets_line:
  assumes "std_input st"
  shows "\<exists>st'. run (fd_kernel (\<lambda>_. True) killed fresh other) (gets mx) st =
      (Returned (line_prefix (nat (mx - 1)) (rest_of 0 st)), st') \<and>
    rest_of 0 st = line_prefix (nat (mx - 1)) (rest_of 0 st) @ rest_of 0 st'"
  using assms inode_console.run_gets_loop [of st killed fresh other "nat (mx - 1)" "[]"]
    pipe_console.run_gets_loop [of st "\<lambda>_. True" killed fresh other "nat (mx - 1)" "[]"]
  by (auto simp: std_input_def gets_def)

end
