(* ===== verification/Riscv.thy ===== *)
theory Riscv
  imports Prelude Kinode
begin

text \<open>
  The legacy headers of \<^verbatim>\<open>src/user/kernel_legacy\<close>: access to the RISC-V control registers, pages and
  Sv39 page tables (\<^verbatim>\<open>riscv.h\<close>), the memory map (\<^verbatim>\<open>memlayout.h\<close>), the on-disk layout (\<^verbatim>\<open>fs.h\<close>),
  system limits (\<^verbatim>\<open>param.h\<close>) and file types (\<^verbatim>\<open>stat.h\<close>).

  The processor is a parameter: the record \<open>machine\<close> holds what its instructions \<open>csrr\<close>, \<open>csrw\<close>,
  \<open>mv\<close> and \<open>sfence.vma\<close> do to a state \<open>'h\<close>.  The inline functions are those instructions on the
  register they name.  The macros on addresses are functions on 64-bit words; the theorems read
  them as arithmetic on natural numbers.
\<close>

unbundle bit_operations_syntax

subsection \<open>Control registers\<close>

datatype csr =
    Mhartid | Mstatus | Mepc | Sstatus | Sip | Sie | Mie 
  | Sepc | Medeleg | Mideleg | Stvec | Mtvec | Pmpcfg0 | Pmpaddr0
  | Satp | Mscratch | Scause | Stval | Mcounteren | Time

datatype gpr = SP | TP | RA

record 'h machine =
  csrr :: "csr \<Rightarrow> 'h \<Rightarrow> uint64"
  csrw :: "csr \<Rightarrow> uint64 \<Rightarrow> 'h \<Rightarrow> 'h"
  reg_get :: "gpr \<Rightarrow> 'h \<Rightarrow> uint64"
  reg_set :: "gpr \<Rightarrow> uint64 \<Rightarrow> 'h \<Rightarrow> 'h"
  fence_vma :: "'h \<Rightarrow> 'h"

definition r_mhartid :: "('h, 'z) machine_scheme \<Rightarrow> 'h \<Rightarrow> uint64" where "r_mhartid M h = csrr M Mhartid h"
definition r_mstatus :: "('h, 'z) machine_scheme \<Rightarrow> 'h \<Rightarrow> uint64" where "r_mstatus M h = csrr M Mstatus h"
definition w_mstatus :: "('h, 'z) machine_scheme \<Rightarrow> uint64 \<Rightarrow> 'h \<Rightarrow> 'h" where "w_mstatus M x h = csrw M Mstatus x h"
definition w_mepc :: "('h, 'z) machine_scheme \<Rightarrow> uint64 \<Rightarrow> 'h \<Rightarrow> 'h" where "w_mepc M x h = csrw M Mepc x h"
definition r_sstatus :: "('h, 'z) machine_scheme \<Rightarrow> 'h \<Rightarrow> uint64" where "r_sstatus M h = csrr M Sstatus h"
definition w_sstatus :: "('h, 'z) machine_scheme \<Rightarrow> uint64 \<Rightarrow> 'h \<Rightarrow> 'h" where "w_sstatus M x h = csrw M Sstatus x h"
definition r_sip :: "('h, 'z) machine_scheme \<Rightarrow> 'h \<Rightarrow> uint64" where "r_sip M h = csrr M Sip h"
definition w_sip :: "('h, 'z) machine_scheme \<Rightarrow> uint64 \<Rightarrow> 'h \<Rightarrow> 'h" where "w_sip M x h = csrw M Sip x h"
definition r_sie :: "('h, 'z) machine_scheme \<Rightarrow> 'h \<Rightarrow> uint64" where "r_sie M h = csrr M Sie h"
definition w_sie :: "('h, 'z) machine_scheme \<Rightarrow> uint64 \<Rightarrow> 'h \<Rightarrow> 'h" where "w_sie M x h = csrw M Sie x h"
definition r_mie :: "('h, 'z) machine_scheme \<Rightarrow> 'h \<Rightarrow> uint64" where "r_mie M h = csrr M Mie h"
definition w_mie :: "('h, 'z) machine_scheme \<Rightarrow> uint64 \<Rightarrow> 'h \<Rightarrow> 'h" where "w_mie M x h = csrw M Mie x h"
definition w_sepc :: "('h, 'z) machine_scheme \<Rightarrow> uint64 \<Rightarrow> 'h \<Rightarrow> 'h" where "w_sepc M x h = csrw M Sepc x h"
definition r_sepc :: "('h, 'z) machine_scheme \<Rightarrow> 'h \<Rightarrow> uint64" where "r_sepc M h = csrr M Sepc h"
definition r_medeleg :: "('h, 'z) machine_scheme \<Rightarrow> 'h \<Rightarrow> uint64" where "r_medeleg M h = csrr M Medeleg h"
definition w_medeleg :: "('h, 'z) machine_scheme \<Rightarrow> uint64 \<Rightarrow> 'h \<Rightarrow> 'h" where "w_medeleg M x h = csrw M Medeleg x h"
definition r_mideleg :: "('h, 'z) machine_scheme \<Rightarrow> 'h \<Rightarrow> uint64" where "r_mideleg M h = csrr M Mideleg h"
definition w_mideleg :: "('h, 'z) machine_scheme \<Rightarrow> uint64 \<Rightarrow> 'h \<Rightarrow> 'h" where "w_mideleg M x h = csrw M Mideleg x h"
definition w_stvec :: "('h, 'z) machine_scheme \<Rightarrow> uint64 \<Rightarrow> 'h \<Rightarrow> 'h" where "w_stvec M x h = csrw M Stvec x h"
definition r_stvec :: "('h, 'z) machine_scheme \<Rightarrow> 'h \<Rightarrow> uint64" where "r_stvec M h = csrr M Stvec h"
definition w_mtvec :: "('h, 'z) machine_scheme \<Rightarrow> uint64 \<Rightarrow> 'h \<Rightarrow> 'h" where "w_mtvec M x h = csrw M Mtvec x h"
definition w_pmpcfg0 :: "('h, 'z) machine_scheme \<Rightarrow> uint64 \<Rightarrow> 'h \<Rightarrow> 'h" where "w_pmpcfg0 M x h = csrw M Pmpcfg0 x h"
definition w_pmpaddr0 :: "('h, 'z) machine_scheme \<Rightarrow> uint64 \<Rightarrow> 'h \<Rightarrow> 'h" where "w_pmpaddr0 M x h = csrw M Pmpaddr0 x h"
definition w_satp :: "('h, 'z) machine_scheme \<Rightarrow> uint64 \<Rightarrow> 'h \<Rightarrow> 'h" where "w_satp M x h = csrw M Satp x h"
definition r_satp :: "('h, 'z) machine_scheme \<Rightarrow> 'h \<Rightarrow> uint64" where "r_satp M h = csrr M Satp h"
definition w_mscratch :: "('h, 'z) machine_scheme \<Rightarrow> uint64 \<Rightarrow> 'h \<Rightarrow> 'h" where "w_mscratch M x h = csrw M Mscratch x h"
definition r_scause :: "('h, 'z) machine_scheme \<Rightarrow> 'h \<Rightarrow> uint64" where "r_scause M h = csrr M Scause h"
definition r_stval :: "('h, 'z) machine_scheme \<Rightarrow> 'h \<Rightarrow> uint64" where "r_stval M h = csrr M Stval h"
definition w_mcounteren :: "('h, 'z) machine_scheme \<Rightarrow> uint64 \<Rightarrow> 'h \<Rightarrow> 'h" where "w_mcounteren M x h = csrw M Mcounteren x h"
definition r_mcounteren :: "('h, 'z) machine_scheme \<Rightarrow> 'h \<Rightarrow> uint64" where "r_mcounteren M h = csrr M Mcounteren h"
definition r_time :: "('h, 'z) machine_scheme \<Rightarrow> 'h \<Rightarrow> uint64" where "r_time M h = csrr M Time h"
definition r_sp :: "('h, 'z) machine_scheme \<Rightarrow> 'h \<Rightarrow> uint64" where "r_sp M h = reg_get M SP h"
definition r_tp :: "('h, 'z) machine_scheme \<Rightarrow> 'h \<Rightarrow> uint64" where "r_tp M h = reg_get M TP h"
definition w_tp :: "('h, 'z) machine_scheme \<Rightarrow> uint64 \<Rightarrow> 'h \<Rightarrow> 'h" where "w_tp M x h = reg_set M TP x h"
definition r_ra :: "('h, 'z) machine_scheme \<Rightarrow> 'h \<Rightarrow> uint64" where "r_ra M h = reg_get M RA h"

definition sfence_vma :: "('h, 'z) machine_scheme \<Rightarrow> 'h \<Rightarrow> 'h" where "sfence_vma M h = fence_vma M h"

definition MSTATUS_MPP_MASK :: uint64 where "MSTATUS_MPP_MASK = push_bit 11 3"
definition MSTATUS_MPP_M :: uint64 where "MSTATUS_MPP_M = push_bit 11 3"
definition MSTATUS_MPP_S :: uint64 where "MSTATUS_MPP_S = push_bit 11 1"
definition MSTATUS_MPP_U :: uint64 where "MSTATUS_MPP_U = push_bit 11 0"
definition MSTATUS_MIE :: uint64 where "MSTATUS_MIE = push_bit 3 1"
definition SSTATUS_SPP :: uint64 where "SSTATUS_SPP = push_bit 8 1"
definition SSTATUS_SPIE :: uint64 where "SSTATUS_SPIE = push_bit 5 1"
definition SSTATUS_UPIE :: uint64 where "SSTATUS_UPIE = push_bit 4 1"
definition SSTATUS_SIE :: uint64 where "SSTATUS_SIE = push_bit 1 1"
definition SSTATUS_UIE :: uint64 where "SSTATUS_UIE = push_bit 0 1"
definition SIE_SEIE :: uint64 where "SIE_SEIE = push_bit 9 1"
definition SIE_STIE :: uint64 where "SIE_STIE = push_bit 5 1"
definition SIE_SSIE :: uint64 where "SIE_SSIE = push_bit 1 1"
definition MIE_MEIE :: uint64 where "MIE_MEIE = push_bit 11 1"
definition MIE_MTIE :: uint64 where "MIE_MTIE = push_bit 7 1"
definition MIE_MSIE :: uint64 where "MIE_MSIE = push_bit 3 1"

definition intr_on :: "('h, 'z) machine_scheme \<Rightarrow> 'h \<Rightarrow> 'h" where
  "intr_on M h = w_sstatus M (r_sstatus M h OR SSTATUS_SIE) h"

definition intr_off :: "('h, 'z) machine_scheme \<Rightarrow> 'h \<Rightarrow> 'h" where
  "intr_off M h = w_sstatus M (r_sstatus M h AND NOT SSTATUS_SIE) h"

definition intr_get :: "('h, 'z) machine_scheme \<Rightarrow> 'h \<Rightarrow> bool" where
  "intr_get M h \<longleftrightarrow> r_sstatus M h AND SSTATUS_SIE \<noteq> 0"

subsection \<open>Pages and page tables\<close>

definition PGSIZE :: uint64 where "PGSIZE = 4096"
definition PGSHIFT :: nat where "PGSHIFT = 12"

definition PGROUNDUP :: "uint64 \<Rightarrow> uint64" where "PGROUNDUP sz = (sz + PGSIZE - 1) AND NOT (PGSIZE - 1)"
definition PGROUNDDOWN :: "uint64 \<Rightarrow> uint64" where "PGROUNDDOWN a = a AND NOT (PGSIZE - 1)"

definition PTE_V :: uint64 where "PTE_V = push_bit 0 1"
definition PTE_R :: uint64 where "PTE_R = push_bit 1 1"
definition PTE_W :: uint64 where "PTE_W = push_bit 2 1"
definition PTE_X :: uint64 where "PTE_X = push_bit 3 1"
definition PTE_U :: uint64 where "PTE_U = push_bit 4 1"

definition PA2PTE :: "uint64 \<Rightarrow> uint64" where "PA2PTE pa = push_bit 10 (drop_bit 12 pa)"
definition PTE2PA :: "uint64 \<Rightarrow> uint64" where "PTE2PA pte = push_bit 12 (drop_bit 10 pte)"
definition PTE_FLAGS :: "uint64 \<Rightarrow> uint64" where "PTE_FLAGS pte = pte AND 0x3FF"

definition PXMASK :: uint64 where "PXMASK = 0x1FF"
definition PXSHIFT :: "nat \<Rightarrow> nat" where "PXSHIFT level = PGSHIFT + 9 * level"
definition PX :: "nat \<Rightarrow> uint64 \<Rightarrow> uint64" where "PX level va = drop_bit (PXSHIFT level) va AND PXMASK"

definition MAXVA :: uint64 where "MAXVA = push_bit (9 + 9 + 9 + 12 - 1) 1"

definition SATP_SV39 :: uint64 where "SATP_SV39 = push_bit 60 8"
definition MAKE_SATP :: "uint64 \<Rightarrow> uint64" where "MAKE_SATP pagetable = SATP_SV39 OR drop_bit 12 pagetable"

subsection \<open>The memory map\<close>

definition UART0 :: uint64 where "UART0 = 0x10000000"
definition UART0_IRQ :: nat where "UART0_IRQ = 10"
definition VIRTIO0 :: uint64 where "VIRTIO0 = 0x10001000"
definition VIRTIO0_IRQ :: nat where "VIRTIO0_IRQ = 1"
definition CLINT :: uint64 where "CLINT = 0x2000000"
definition CLINT_MTIMECMP :: "uint64 \<Rightarrow> uint64" where "CLINT_MTIMECMP hartid = CLINT + 0x4000 + 8 * hartid"
definition CLINT_MTIME :: uint64 where "CLINT_MTIME = CLINT + 0xBFF8"
definition PLIC :: uint64 where "PLIC = 0x0c000000"
definition PLIC_PRIORITY :: uint64 where "PLIC_PRIORITY = PLIC + 0x0"
definition PLIC_PENDING :: uint64 where "PLIC_PENDING = PLIC + 0x1000"
definition PLIC_MENABLE :: "uint64 \<Rightarrow> uint64" where "PLIC_MENABLE hart = PLIC + 0x2000 + hart * 0x100"
definition PLIC_SENABLE :: "uint64 \<Rightarrow> uint64" where "PLIC_SENABLE hart = PLIC + 0x2080 + hart * 0x100"
definition PLIC_MPRIORITY :: "uint64 \<Rightarrow> uint64" where "PLIC_MPRIORITY hart = PLIC + 0x200000 + hart * 0x2000"
definition PLIC_SPRIORITY :: "uint64 \<Rightarrow> uint64" where "PLIC_SPRIORITY hart = PLIC + 0x201000 + hart * 0x2000"
definition PLIC_MCLAIM :: "uint64 \<Rightarrow> uint64" where "PLIC_MCLAIM hart = PLIC + 0x200004 + hart * 0x2000"
definition PLIC_SCLAIM :: "uint64 \<Rightarrow> uint64" where "PLIC_SCLAIM hart = PLIC + 0x201004 + hart * 0x2000"
definition KERNBASE :: uint64 where "KERNBASE = 0x80000000"
definition PHYSTOP :: uint64 where "PHYSTOP = KERNBASE + 128 * 1024 * 1024"
definition TRAMPOLINE :: uint64 where "TRAMPOLINE = MAXVA - PGSIZE"
definition KSTACK :: "uint64 \<Rightarrow> uint64" where "KSTACK p = TRAMPOLINE - (p + 1) * 3 * PGSIZE"
definition TRAPFRAME :: uint64 where "TRAPFRAME = TRAMPOLINE - PGSIZE"

subsection \<open>Limits and the disk\<close>

definition NPROC :: nat where "NPROC = 64"
definition NCPU :: nat where "NCPU = 8"
definition NINODE :: nat where "NINODE = 50"
definition NDEV :: nat where "NDEV = 10"
definition ROOTDEV :: nat where "ROOTDEV = 1"
definition MAXARG :: nat where "MAXARG = 32"
definition MAXOPBLOCKS :: nat where "MAXOPBLOCKS = 10"
definition LOGSIZE :: nat where "LOGSIZE = MAXOPBLOCKS * 3"
definition NBUF :: nat where "NBUF = MAXOPBLOCKS * 3"
definition FSSIZE :: nat where "FSSIZE = 2000"
definition MAXPATH :: nat where "MAXPATH = 128"

definition T_DIR :: int where "T_DIR = 1"
definition T_FILE :: int where "T_FILE = 2"
definition T_DEVICE :: int where "T_DEVICE = 3"

definition ROOTINO :: nat where "ROOTINO = 1"
definition BSIZE :: nat where "BSIZE = 1024"

record superblock =
  sb_magic :: uint
  sb_size :: uint
  sb_nblocks :: uint
  sb_ninodes :: uint
  sb_nlog :: uint
  sb_logstart :: uint
  sb_inodestart :: uint
  sb_bmapstart :: uint

definition FSMAGIC :: uint where "FSMAGIC = 0x10203040"
definition NDIRECT :: nat where "NDIRECT = 12"
definition NINDIRECT :: nat where "NINDIRECT = BSIZE div 4"
definition MAXFILE :: nat where "MAXFILE = NDIRECT + NINDIRECT"

record dinode =
  di_type :: "16 word"
  di_major :: "16 word"
  di_minor :: "16 word"
  di_nlink :: "16 word"
  di_size :: uint
  di_addrs :: "uint list"

text \<open>Four shorts, an int and the addresses; no padding.\<close>

definition sizeof_dinode :: nat where "sizeof_dinode = 4 * 2 + 4 + 4 * (NDIRECT + 1)"
definition IPB :: nat where "IPB = BSIZE div sizeof_dinode"
definition IBLOCK :: "uint \<Rightarrow> superblock \<Rightarrow> uint64" where
  "IBLOCK i sb = ucast i div of_nat IPB + ucast (sb_inodestart sb)"
definition BPB :: nat where "BPB = BSIZE * 8"
definition BBLOCK :: "uint \<Rightarrow> superblock \<Rightarrow> uint" where
  "BBLOCK b sb = b div of_nat BPB + sb_bmapstart sb"
definition DIRSIZ :: nat where "DIRSIZ = 14"

record dirent =
  d_inum :: "16 word"
  d_name :: string

subsection \<open>Interrupts\<close>

text \<open>
  The architecture's guarantee that is relied on: the bit \<open>SIE\<close> of \<open>sstatus\<close> can be written and reads back.
\<close>

definition sie_writable :: "('h, 'z) machine_scheme \<Rightarrow> bool" where
  "sie_writable M \<longleftrightarrow> (\<forall>h x. bit (csrr M Sstatus (csrw M Sstatus x h)) 1 = bit x 1)"

lemma intr_get_bit: "intr_get M h \<longleftrightarrow> bit (r_sstatus M h) 1"
proof -
  have "x AND SSTATUS_SIE \<noteq> 0 \<longleftrightarrow> bit x 1" for x :: uint64
    by (simp add: SSTATUS_SIE_def bit_iff_and_push_bit_not_eq_0)
  then show ?thesis by (simp add: intr_get_def)
qed

text \<open>
  \<open>intr_on\<close> enables and \<open>intr_off\<close> disables device interrupts, as \<open>intr_get\<close> reports, on every
  processor whose \<open>SIE\<close> bit is writable, and each asks the processor to change no other bit of \<open>sstatus\<close>.
\<close>

lemma intr_enable_disable:
  assumes "sie_writable M"
  shows "intr_get M (intr_on M h) \<and> \<not> intr_get M (intr_off M h) \<and>
    (\<exists>x y. intr_on M h = csrw M Sstatus x h \<and> intr_off M h = csrw M Sstatus y h \<and>
       (\<forall>n. n \<noteq> 1 \<longrightarrow> bit x n = bit (r_sstatus M h) n \<and> bit y n = bit (r_sstatus M h) n))"
proof -
  have b: "bit (SSTATUS_SIE) n \<longleftrightarrow> n = 1" for n
    by (auto simp: SSTATUS_SIE_def bit_simps)
  have "n < 64" if "bit (r_sstatus M h) n" for n using bit_imp_le_length [OF that] by simp
  then have "\<forall>n. n \<noteq> 1 \<longrightarrow> bit (r_sstatus M h OR SSTATUS_SIE) n = bit (r_sstatus M h) n \<and>
      bit (r_sstatus M h AND NOT SSTATUS_SIE) n = bit (r_sstatus M h) n"
    by (auto simp: bit_simps b)
  moreover have "intr_get M (intr_on M h)" "\<not> intr_get M (intr_off M h)"
    using assms by (simp_all add: intr_get_bit intr_on_def intr_off_def w_sstatus_def r_sstatus_def sie_writable_def bit_simps b [simplified])
  ultimately show ?thesis unfolding intr_on_def intr_off_def w_sstatus_def by blast
qed

text \<open>A processor that is nothing but its registers.\<close>

definition plain_machine :: "((csr \<Rightarrow> uint64) \<times> (gpr \<Rightarrow> uint64)) machine" where
  "plain_machine = \<lparr>csrr = (\<lambda>r h. fst h r), csrw = (\<lambda>r x h. ((fst h)(r := x), snd h)),
     reg_get = (\<lambda>r h. snd h r), reg_set = (\<lambda>r x h. (fst h, (snd h)(r := x))), fence_vma = (\<lambda>h. h)\<rparr>"

subsection \<open>Rounding to pages\<close>

lemma and_not_mask: "(x :: uint64) AND NOT (mask n) = x - take_bit n x"
proof -
  have "x AND NOT (mask n) = push_bit n (drop_bit n x)"
    by (rule bit_word_eqI) (auto simp: bit_simps not_less)
  then show ?thesis using bits_ident [of n x] by (simp add: algebra_simps)
qed

lemma unat_take_bit: "unat (take_bit n (x :: uint64)) = unat x mod 2 ^ n"
  unfolding unsigned_take_bit_eq by (simp add: take_bit_eq_mod)

lemma unat_drop_bit: "unat (drop_bit n (x :: uint64)) = unat x div 2 ^ n"
  unfolding unat_drop_bit_eq by (simp add: drop_bit_eq_div)

lemma bit_small: "unat (x :: uint64) < 2 ^ k \<Longrightarrow> bit x n \<Longrightarrow> n < k"
proof -
  assume "unat x < 2 ^ k" and "bit x n"
  then have "take_bit k (unat x) = unat x" by (simp add: take_bit_nat_eq_self)
  moreover have "bit (unat x) n" using \<open>bit x n\<close> bit_imp_le_length [of x n] by (simp add: bit_unsigned_iff)
  ultimately show ?thesis by (metis bit_take_bit_iff)
qed

lemma unat_and_not_mask: "unat ((x :: uint64) AND NOT (mask n)) = unat x - unat x mod 2 ^ n"
proof -
  have "take_bit n x \<le> x" by (simp add: word_le_nat_alt unat_take_bit)
  then show ?thesis by (simp add: and_not_mask unat_sub unat_take_bit)
qed

lemma PGSIZE_mask: "PGSIZE - 1 = mask 12"
  by (simp add: PGSIZE_def mask_eq_exp_minus_1)

lemma unat_PGROUNDDOWN: "unat (PGROUNDDOWN a) = unat a - unat a mod 4096"
  by (simp add: PGROUNDDOWN_def PGSIZE_mask unat_and_not_mask)

lemma unat_PGROUNDUP: "unat sz + 4095 < 2 ^ 64 \<Longrightarrow> unat (PGROUNDUP sz) = unat sz + 4095 - (unat sz + 4095) mod 4096"
proof -
  assume "unat sz + 4095 < 2 ^ 64"
  then have "unat (sz + 4095) = unat sz + 4095" by (simp add: unat_word_ariths)
  moreover have "sz + PGSIZE - 1 = sz + 4095" by (simp add: PGSIZE_def)
  then have "PGROUNDUP sz = (sz + 4095) AND NOT (mask 12)" by (simp only: PGROUNDUP_def PGSIZE_mask)
  ultimately show ?thesis by (simp add: unat_and_not_mask)
qed

text \<open>
  \<open>PGROUNDUP\<close> and \<open>PGROUNDDOWN\<close> give the nearest page boundaries around an address, the former for
  every size that does not come within a page of the end of the 64-bit range (beyond, it wraps to 0).
\<close>

lemma page_rounding:
  assumes "unat sz + 4095 < 2 ^ 64"
  shows "4096 dvd unat (PGROUNDUP sz) \<and> unat sz \<le> unat (PGROUNDUP sz) \<and> unat (PGROUNDUP sz) < unat sz + 4096 \<and>
    4096 dvd unat (PGROUNDDOWN sz) \<and> unat (PGROUNDDOWN sz) \<le> unat sz \<and> unat sz < unat (PGROUNDDOWN sz) + 4096"
proof -
  have m: "x mod 4096 < 4096" "x mod 4096 \<le> x" "4096 dvd x - x mod 4096" for x :: nat
    by (simp_all add: dvd_minus_mod)
  show ?thesis unfolding unat_PGROUNDUP [OF assms] unat_PGROUNDDOWN
    using m [of "unat sz"] m [of "unat sz + 4095"] by linarith
qed

subsection \<open>Page-table entries\<close>

text \<open>
  C37. Page-table entries lose nothing: a page-aligned physical address and ten bits of flags that are
  packed into an entry come out again unchanged, and the \<open>satp\<close> value made from a page table
  selects Sv39 and holds the table's page number.
\<close>

theorem pte_roundtrip:
  assumes "take_bit 12 pa = 0" and "unat flags < 1024" and "take_bit 12 pt = 0" and "unat pt < 2 ^ 56"
  shows "PTE2PA (PA2PTE pa OR flags) = pa \<and> PTE_FLAGS (PA2PTE pa OR flags) = flags \<and>
    drop_bit 60 (MAKE_SATP pt) = 8 \<and> push_bit 12 (take_bit 44 (MAKE_SATP pt)) = pt"
proof -
  have low: "12 \<le> n" if "take_bit 12 x = 0" and "bit x n" for x :: uint64 and n
    using that by (metis bit_0_eq bit_take_bit_iff bot_apply bot_bool_def not_le)
  note al = low [OF assms(1)] and al' = low [OF assms(3)]
  have hi: "\<not> bit flags n" if "10 \<le> n" for n using bit_small [of flags 10 n] assms(2) that by auto
  have hi': "\<not> bit pt n" if "56 \<le> n" for n using bit_small [of pt 56 n] assms(4) that by auto
  show ?thesis
  proof (intro conjI)
    show "PTE2PA (PA2PTE pa OR flags) = pa"
    proof (rule bit_word_eqI)
      fix n assume "n < LENGTH(64)"
      then show "bit (PTE2PA (PA2PTE pa OR flags)) n = bit pa n"
        using hi [of "10 + (n - 12)"] al [of n]
        by (cases "12 \<le> n") (auto simp: PTE2PA_def PA2PTE_def bit_simps)
    qed
  next
    have "PTE_FLAGS x = take_bit 10 x" for x by (simp add: PTE_FLAGS_def take_bit_eq_mask mask_eq_exp_minus_1)
    then show "PTE_FLAGS (PA2PTE pa OR flags) = flags"
      using hi by (intro bit_word_eqI) (auto simp: PA2PTE_def bit_simps)
  next
    have e: "bit (8 :: uint64) n \<longleftrightarrow> n = 3" for n
    proof -
      have "(8 :: uint64) = push_bit 3 1" by simp
      then show ?thesis by (simp only: bit_simps) auto
    qed
    show "drop_bit 60 (MAKE_SATP pt) = 8"
      by (rule bit_word_eqI) (use hi' in \<open>auto simp: MAKE_SATP_def SATP_SV39_def bit_simps e\<close>)
    show "push_bit 12 (take_bit 44 (MAKE_SATP pt)) = pt"
    proof (rule bit_word_eqI)
      fix n assume "n < LENGTH(64)"
      then show "bit (push_bit 12 (take_bit 44 (MAKE_SATP pt))) n = bit pt n"
        using hi' [of n] al' [of n]
        by (cases "12 \<le> n"; cases "n < 56") (auto simp: MAKE_SATP_def SATP_SV39_def bit_simps e)
    qed
  qed
qed

theorem pte_roundtrip_witness:
  "PTE2PA (PA2PTE 0x87654000 OR 0x1F) = 0x87654000"
  using pte_roundtrip [of "0x87654000" "0x1F" "0x80001000"] by simp

lemma unat_PX: "unat (PX level va) = unat va div 2 ^ (12 + 9 * level) mod 512"
proof -
  have "PX level va = take_bit 9 (drop_bit (12 + 9 * level) va)"
    by (simp add: PX_def PXMASK_def PXSHIFT_def PGSHIFT_def take_bit_eq_mask mask_eq_exp_minus_1)
  then show ?thesis by (simp only: unat_take_bit unat_drop_bit) simp
qed

lemma combine_indices:
  "b = d * 512 + e \<Longrightarrow> a = b * 512 + c \<Longrightarrow> v = a * 2 ^ 12 + w \<Longrightarrow> (v :: nat) = d * 2 ^ 30 + e * 2 ^ 21 + c * 2 ^ 12 + w"
  by simp

text \<open>
  The three page-table indices and the page offset determine a user virtual address, and the top
  index stays in the lower half of the root table.
\<close>

lemma px_decompose:
  assumes "va < MAXVA"
  shows "unat va = unat (PX 2 va) * 2 ^ 30 + unat (PX 1 va) * 2 ^ 21 + unat (PX 0 va) * 2 ^ 12 + unat va mod 2 ^ 12 \<and>
    unat (PX 2 va) < 256 \<and> unat (PX 1 va) < 512 \<and> unat (PX 0 va) < 512"
proof -
  let ?v = "unat va"
  have v: "?v < 2 ^ 38" using assms by (simp add: MAXVA_def word_less_nat_alt)
  define A where "A = ?v div 2 ^ 12"
  define B where "B = A div 512"
  have i: "unat (PX 2 va) = B div 512" "unat (PX 1 va) = B mod 512" "unat (PX 0 va) = A mod 512"
  proof -
    have d: "?v div 2 ^ 21 = B" "?v div 2 ^ 30 = B div 512"
      by (simp_all add: A_def B_def flip: div_mult2_eq)
    have "?v div 2 ^ 30 < 256" using v by (simp add: div_less_iff_less_mult)
    then have "B div 512 mod 512 = B div 512" using d(2) by simp
    then show "unat (PX 2 va) = B div 512" "unat (PX 1 va) = B mod 512" "unat (PX 0 va) = A mod 512"
      unfolding unat_PX using d by (simp_all add: A_def)
  qed
  have t: "B div 512 < 256" using v by (simp add: A_def B_def div_less_iff_less_mult flip: div_mult2_eq)
  have m: "B mod 512 < 512" "A mod 512 < 512" by simp_all
  have "B = B div 512 * 512 + B mod 512" "A = B * 512 + A mod 512" "?v = A * 2 ^ 12 + ?v mod 2 ^ 12"
    by (simp_all add: B_def A_def)
  then have "?v = B div 512 * 2 ^ 30 + B mod 512 * 2 ^ 21 + A mod 512 * 2 ^ 12 + ?v mod 2 ^ 12"
    by (rule combine_indices)
  with t m i show ?thesis by simp
qed

subsection \<open>The memory map and the disk\<close>

lemma slot_arith:
  assumes "p + 1 \<le> q" and "q < 64" and a: "a = 0x3FFFFFF000 - (p + 1) * 12288" and b: "b = 0x3FFFFFF000 - (q + 1) * (12288 :: nat)"
  shows "b + 12288 \<le> a \<and> a + 12288 \<le> 0x3FFFFFF000 \<and> 0x88000000 < b"
proof -
  have q: "(q + 1) * 12288 \<le> 786432" using assms(2) by simp
  have p: "(p + 1) * 12288 + 12288 \<le> (q + 1) * 12288" using assms(1) by simp
  from q p have "a + (p + 1) * 12288 = 0x3FFFFFF000" "b + (q + 1) * 12288 = 0x3FFFFFF000" unfolding a b by simp_all
  with q p show ?thesis by simp
qed

text \<open>
  The kernel stacks of the processes are three-page slots that do not meet: the slot of a process
  with a higher number ends below that of one with a lower number, all lie below the trampoline page, and all
  lie above the end of physical memory.
\<close>

lemma kstack_slots:
  assumes "p < q" and "q < NPROC"
  shows "unat (KSTACK (of_nat q)) + 3 * 4096 \<le> unat (KSTACK (of_nat p)) \<and>
    unat (KSTACK (of_nat p)) + 3 * 4096 \<le> unat TRAMPOLINE \<and> unat PHYSTOP < unat (KSTACK (of_nat q))"
proof -
  have k: "unat (KSTACK (of_nat n)) = 0x3FFFFFF000 - (n + 1) * 12288" if "n < 64" for n
  proof -
    have "KSTACK (of_nat n) = 0x3FFFFFF000 - of_nat ((n + 1) * 12288)"
      by (simp add: KSTACK_def TRAMPOLINE_def MAXVA_def PGSIZE_def algebra_simps)
    moreover have "of_nat ((n + 1) * 12288) \<le> (0x3FFFFFF000 :: uint64)"
      using that by (simp add: word_le_nat_alt unat_of_nat take_bit_eq_mod del: of_nat_mult of_nat_add)
    ultimately show ?thesis
      using that by (simp add: unat_sub unat_of_nat take_bit_eq_mod del: of_nat_mult of_nat_add)
  qed
  have "unat TRAMPOLINE = 0x3FFFFFF000" "unat PHYSTOP = 0x88000000"
    by (simp_all add: TRAMPOLINE_def MAXVA_def PGSIZE_def PHYSTOP_def KERNBASE_def)
  moreover have b: "p < 64" "q < 64" "p + 1 \<le> q" using assms by (simp_all add: NPROC_def)
  ultimately show ?thesis using slot_arith [OF b(3,2) k [OF b(1)] k [OF b(2)]] by simp
qed

text \<open>
  The placement of inodes on disk is a numbering: an inode is found again from its block and its
  position in the block, no inode is split over two blocks, and the largest file has 268 blocks.
\<close>

lemma inode_placement:
  assumes "sb_inodestart sb < 2 ^ 31"
  shows "(unat (IBLOCK i sb) - unat (sb_inodestart sb)) * IPB + unat i mod IPB = unat i \<and>
    IPB * sizeof_dinode = BSIZE \<and> MAXFILE = 268 \<and> MAXFILE = max_file_block_count"
proof -
  have ipb: "IPB = 16" by (simp add: IPB_def BSIZE_def sizeof_dinode_def NDIRECT_def)
  have u: "unat (ucast x :: uint64) = unat x" for x :: uint
    using unat_uint_less [of x] by (simp add: unsigned_ucast_eq take_bit_nat_eq_self_iff)
  have "unat (ucast i div (16 :: uint64)) = unat i div 16"
    by (simp add: unat_div u)
  moreover have "unat i div 16 + unat (sb_inodestart sb) < 2 ^ 64"
    using unat_uint_less [of i] unat_uint_less [of "sb_inodestart sb"] by (simp add: div_le_dividend le_less_trans)
  ultimately have "unat (IBLOCK i sb) = unat i div 16 + unat (sb_inodestart sb)"
    by (simp add: IBLOCK_def ipb unat_word_ariths u)
  then show ?thesis
    by (simp add: ipb sizeof_dinode_def NDIRECT_def BSIZE_def MAXFILE_def NINDIRECT_def max_file_block_count_def block_size_def)
qed

end
