(* ===== verification/Ls.thy ===== *)
theory Ls
  imports Stdio Kfile Riscv
begin

text \<open>
  \<^verbatim>\<open>src/user/ls.c\<close>.  The memory of \<open>ls\<close> holds the static buffer of \<open>fmtname\<close> (15 bytes at 0), the
  directory entry \<open>de\<close> (16 bytes), the path and, at the end, the buffer \<open>buf\<close> (512 bytes at \<open>b\<close>).  The
  routines of \<^verbatim>\<open>ulib.c\<close> work in this memory, and a store outside it, in particular one behind the end of
  \<open>buf\<close>, is a fault.
\<close>

subsection \<open>Definitions\<close>

definition NAMEBUF :: addr where "NAMEBUF = 0"
definition LSDE :: addr where "LSDE = 15"
definition LSPATH :: addr where "LSPATH = 31"

text \<open>The loop variable \<open>q\<close> is one more than the source's \<open>p\<close>, so that \<open>p >= path\<close> is \<open>q > path\<close>.\<close>

fun fmtname_slash :: "mem \<Rightarrow> addr \<Rightarrow> addr \<Rightarrow> addr option" where
  "fmtname_slash m path q =
     (if path < q then
        (case load m (q - 1) of
           None \<Rightarrow> None
         | Some c \<Rightarrow> if c \<noteq> CHR ''/'' then fmtname_slash m path (q - 1) else Some q)
      else Some q)"

declare fmtname_slash.simps [simp del]

definition fmtname :: "mem \<Rightarrow> addr \<Rightarrow> (addr \<times> mem) option" where
  "fmtname m path = do {
     n \<leftarrow> strlen m path;
     p \<leftarrow> fmtname_slash m path (path + unat n + 1);
     len \<leftarrow> strlen m p;
     if len \<ge> of_nat DIRSIZ then Some (p, m)
     else do {
       (_, m) \<leftarrow> memmove m NAMEBUF p (sint len);
       (_, m) \<leftarrow> memset m (NAMEBUF + unat len) (of_char (CHR '' '')) (of_nat DIRSIZ - len);
       Some (NAMEBUF, m)
     }
   }"

definition ls_line :: "(uint64 \<Rightarrow> string) \<Rightarrow> string \<Rightarrow> mem \<Rightarrow> addr \<Rightarrow> stat \<Rightarrow> mem prog" where
  "ls_line fmtp fmt m path st =
     (case fmtname m path of
        None \<Rightarrow> Crash
      | Some (q, m') \<Rightarrow>
          pbind (printf fmtp fmt
              [VStr (string_at m' q), VNum (word_of_int (st_type st)), VNum (ucast (st_ino st)), VNum (st_size st)])
            (\<lambda>_. Ret m'))"

text \<open>The name of the entry in \<open>de\<close> is appended to the path in \<open>buf\<close> at \<open>p\<close>.\<close>

definition ls_entry :: "mem \<Rightarrow> addr \<Rightarrow> mem option" where
  "ls_entry m p = do { (_, m) \<leftarrow> memmove m p (LSDE + 2) (int DIRSIZ); store m (p + DIRSIZ) NUL }"

fun ls_dir :: "(uint64 \<Rightarrow> string) \<Rightarrow> nat \<Rightarrow> int \<Rightarrow> mem \<Rightarrow> addr \<Rightarrow> addr \<Rightarrow> mem prog" where
  "ls_dir fmtp 0 fd m b p = OutOfFuel"
| "ls_dir fmtp (Suc fuel) fd m b p =
     Read fd 16 (\<lambda>r. case r of
         None \<Rightarrow> Ret m
       | Some bs \<Rightarrow>
           let m = overlay m LSDE bs
           in if length bs \<noteq> 16 then Ret m
              else if m ! LSDE = NUL \<and> m ! (LSDE + 1) = NUL then ls_dir fmtp fuel fd m b p
              else (case ls_entry m p of
                  None \<Rightarrow> Crash
                | Some m \<Rightarrow>
                    pbind (stat (string_at m b)) (\<lambda>st. case st of
                        None \<Rightarrow> pbind (printf fmtp ''ls: cannot stat %s\<newline>'' [VStr (string_at m b)])
                                  (\<lambda>_. ls_dir fmtp fuel fd m b p)
                      | Some st \<Rightarrow> pbind (ls_line fmtp ''%s %d %d %d\<newline>'' m b st)
                                    (\<lambda>m. ls_dir fmtp fuel fd m b p))))"

definition ls_switch :: "(uint64 \<Rightarrow> string) \<Rightarrow> nat \<Rightarrow> int \<Rightarrow> mem \<Rightarrow> addr \<Rightarrow> stat \<Rightarrow> mem prog" where
  "ls_switch fmtp fuel fd m b st =
     (if st_type st = T_DEVICE \<or> st_type st = T_FILE then ls_line fmtp ''%s %d %d %l\<newline>'' m LSPATH st
      else if st_type st = T_DIR then
        (case strlen m LSPATH of
           None \<Rightarrow> Crash
         | Some n \<Rightarrow>
             if n + 1 + of_nat DIRSIZ + 1 > 512 then pbind (printf fmtp ''ls: path too long\<newline>'' []) (\<lambda>_. Ret m)
             else (case (do {
                 (_, m) \<leftarrow> strcpy m b LSPATH;
                 len \<leftarrow> strlen m b;
                 m \<leftarrow> store m (b + unat len) (CHR ''/'');
                 Some (m, b + unat len + 1)
               }) of
                 None \<Rightarrow> Crash
               | Some (m, p) \<Rightarrow> ls_dir fmtp fuel fd m b p))
      else Ret m)"

text \<open>\<open>m\<close> is the memory without the path, as the last call left it; \<open>argument_at\<close> puts the path into it.\<close>

definition argument_at :: "mem \<Rightarrow> string \<Rightarrow> mem" where
  "argument_at m path = take LSPATH m @ path @ [NUL] @ drop LSPATH m"

definition ls :: "(uint64 \<Rightarrow> string) \<Rightarrow> nat \<Rightarrow> mem \<Rightarrow> string \<Rightarrow> mem prog" where
  "ls fmtp fuel m path =
     Call (Open path 0) (\<lambda>fd.
       if fd < 0 then pbind (fprintf 2 ''ls: cannot open %s\<newline>'' [VStr path]) (\<lambda>_. Ret m)
       else Fstat fd (\<lambda>r. case r of
           None \<Rightarrow> pbind (fprintf 2 ''ls: cannot stat %s\<newline>'' [VStr path]) (\<lambda>_. do_call (Close fd) (Ret m))
         | Some st \<Rightarrow>
             let b = LSPATH + length path + 1
             in pbind (ls_switch fmtp fuel fd (argument_at m path) b st)
                  (\<lambda>m'. do_call (Close fd) (Ret (take LSPATH m' @ drop b m')))))"

fun ls_args :: "(uint64 \<Rightarrow> string) \<Rightarrow> nat \<Rightarrow> mem \<Rightarrow> string list \<Rightarrow> unit prog" where
  "ls_args fmtp fuel m [] = Exit 0"
| "ls_args fmtp fuel m (a # as) = pbind (ls fmtp fuel m a) (\<lambda>m'. ls_args fmtp fuel m' as)"

definition ls_main :: "(uint64 \<Rightarrow> string) \<Rightarrow> nat \<Rightarrow> mem \<Rightarrow> string list \<Rightarrow> unit prog" where
  "ls_main fmtp fuel m argv =
     (if length argv < 2 then pbind (ls fmtp fuel m ''.'') (\<lambda>_. Exit 0) else ls_args fmtp fuel m (tl argv))"

subsection \<open>Names\<close>

text \<open>The part of a path behind its last slash, and its padding to \<open>DIRSIZ\<close> characters.\<close>

definition last_name :: "string \<Rightarrow> string" where
  "last_name s = rev (takeWhile (\<lambda>c. c \<noteq> CHR ''/'') (rev s))"

definition padded :: "string \<Rightarrow> string" where
  "padded s = s @ replicate (DIRSIZ - length s) (CHR '' '')"

lemma last_name_snoc: "last_name (s @ [c]) = (if c = CHR ''/'' then [] else last_name s @ [c])"
  by (simp add: last_name_def)

lemma last_name_split: "s = take (length s - length (last_name s)) s @ last_name s"
proof -
  have "rev s = last_rev @ dropWhile (\<lambda>c. c \<noteq> CHR ''/'') (rev s)" if "last_rev = takeWhile (\<lambda>c. c \<noteq> CHR ''/'') (rev s)" for last_rev
    using that by simp
  then have "s = rev (dropWhile (\<lambda>c. c \<noteq> CHR ''/'') (rev s)) @ last_name s"
    unfolding last_name_def by (metis rev_append rev_rev_ident)
  then obtain u where "s = u @ last_name s" by blast
  then show ?thesis by (metis append_eq_conv_conj length_append add_diff_cancel_right')
qed

lemma length_last_name: "length (last_name s) \<le> length s"
  using length_takeWhile_le [of "\<lambda>c. c \<noteq> CHR ''/''" "rev s"] by (simp add: last_name_def)

lemma fmtname_slash_stop:
  "path < q \<Longrightarrow> q \<le> length m \<Longrightarrow> m ! (q - 1) = CHR ''/'' \<Longrightarrow> fmtname_slash m path q = Some q"
  by (simp add: fmtname_slash.simps mem_simps)

lemma fmtname_slash_name:
  "segment path (path + length s) m = s \<Longrightarrow> path + length s \<le> length m \<Longrightarrow>
   fmtname_slash m path (path + length s) = Some (path + (length s - length (last_name s)))"
proof (induction s rule: rev_induct)
  case Nil
  then show ?case by (simp add: fmtname_slash.simps last_name_def)
next
  case (snoc c s)
  have c: "m ! (path + length s) = c"
    using nth_segment [of path "length s" "path + length (s @ [c])" m] snoc.prems by simp
  have "segment path (path + length s) m = take (length s) (segment path (path + length (s @ [c])) m)"
    by (simp add: segment_def)
  also have "\<dots> = s" unfolding snoc.prems(1) by simp
  finally have "fmtname_slash m path (path + length s) = Some (path + (length s - length (last_name s)))"
    using snoc.prems by (intro snoc.IH) simp_all
  then show ?case using c snoc.prems(2)
    by (subst fmtname_slash.simps) (simp add: mem_simps last_name_snoc)
qed

lemma fmtname_start:
  assumes "cstring m path s"
  shows "fmtname_slash m path (path + length s + 1) = Some (path + (length s - length (last_name s)))"
proof -
  have "load m (path + length s) = Some NUL" using cstring_end [OF assms] .
  moreover have "fmtname_slash m path (path + length s) = Some (path + (length s - length (last_name s)))"
    using assms by (intro fmtname_slash_name) (simp_all add: cstring_def)
  ultimately show ?thesis by (subst fmtname_slash.simps) simp
qed

lemma cstring_suffix:
  assumes "cstring m p s" and "k \<le> length s"
  shows "cstring m (p + k) (drop k s)"
  using assms
proof (induction k arbitrary: p s)
  case (Suc k)
  then obtain c s' where "s = c # s'" by (cases s) auto
  with Suc.prems Suc.IH [of "Suc p" s'] show ?case by simp
qed simp

lemma cstring_last_name:
  assumes "cstring m path s"
  shows "cstring m (path + (length s - length (last_name s))) (last_name s)"
proof -
  have "drop (length s - length (last_name s)) s = last_name s"
    by (subst (2) last_name_split) simp
  with cstring_suffix [OF assms, of "length s - length (last_name s)"] show ?thesis by simp
qed

lemma strlen_cstring: "cstring m p s \<Longrightarrow> strlen m p = Some (of_nat (length s))"
  using strlen_loop_cstring [of m p 0 s] by (simp add: strlen_def)

lemma string_in_memory: "cstring m p s \<Longrightarrow> p + length s < length m"
  by (simp add: cstring_def)

lemma blank_char: "char_of (32 :: int) = CHR '' ''"
  by (simp add: char_of_def)

lemma fmtname_ok:
  assumes c: "cstring m path s" and small: "length m < 2 ^ 31" and static: "DIRSIZ < path" "m ! DIRSIZ = NUL"
  shows "\<exists>q m'. fmtname m path = Some (q, m') \<and> cstring m' q (padded (last_name s)) \<and> length m' = length m \<and>
    (\<forall>i \<ge> DIRSIZ. m' ! i = m ! i)"
proof -
  let ?p = "path + (length s - length (last_name s))" and ?l = "length (last_name s)"
  have name: "cstring m ?p (last_name s)" using cstring_last_name [OF c] .
  have lt: "length s < 2 ^ 31" "?l < 2 ^ 31"
    using string_in_memory [OF c] small length_last_name [of s] by simp_all
  note w = of_nat_small [OF lt(1)] of_nat_small [OF lt(2)]
  have le: "(of_nat ?l :: uint) \<ge> of_nat DIRSIZ \<longleftrightarrow> DIRSIZ \<le> ?l"
    using w(2) of_nat_small [of DIRSIZ] by (simp add: word_le_nat_alt DIRSIZ_def)
  have start: "fmtname m path =
      (if DIRSIZ \<le> ?l then Some (?p, m)
       else do {
         (_, m) \<leftarrow> memmove m NAMEBUF ?p (int ?l);
         (_, m) \<leftarrow> memset m (NAMEBUF + ?l) (of_char (CHR '' '')) (of_nat DIRSIZ - of_nat ?l);
         Some (NAMEBUF, m)
       })"
    using fmtname_start [OF c] w le by (simp add: fmtname_def strlen_cstring [OF c] strlen_cstring [OF name] del: of_nat_numeral)
  show ?thesis
  proof (cases "DIRSIZ \<le> ?l")
    case True
    with start name show ?thesis by (simp add: padded_def)
  next
    case False
    define k where "k = DIRSIZ - ?l"
    have big: "DIRSIZ < length m" using string_in_memory [OF c] static by simp
    have "(of_nat DIRSIZ - of_nat ?l :: uint) = of_nat k" using False by (simp add: k_def of_nat_diff)
    then have u: "unat (of_nat DIRSIZ - of_nat ?l :: uint) = k" using of_nat_small [of k] by (simp add: k_def DIRSIZ_def)
    define m1 where "m1 = overlay m 0 (last_name s)"
    have l1: "length m1 = length m" using big False by (simp add: m1_def)
    have "segment ?p (?p + ?l) m = last_name s" using name by (simp add: cstring_def)
    moreover have "memmove m 0 ?p (int ?l) = Some (0, overlay m 0 (segment ?p (?p + nat (int ?l)) m))"
      using string_in_memory [OF name] big False by (intro memmove_overlay) simp_all
    ultimately have "memmove m NAMEBUF ?p (int ?l) = Some (0, m1)" by (simp add: m1_def NAMEBUF_def)
    moreover have "memset_loop m1 ?l (CHR '' '') 0 k = Some (overlay m1 ?l (replicate k (CHR '' '')))"
      using memset_loop_overlay [of ?l k m1 0] big l1 False by (simp add: k_def)
    ultimately have f: "fmtname m path = Some (0, overlay m1 ?l (replicate k (CHR '' '')))"
      using start False u blank_char by (simp add: memset_def NAMEBUF_def)
    let ?m = "overlay m1 ?l (replicate k (CHR '' ''))"
    have k: "?l + k = DIRSIZ" using False by (simp add: k_def)
    have keep: "?m ! i = m ! i" if "DIRSIZ \<le> i" for i
    proof -
      have "\<not> i - ?l < k" using that k by linarith
      with that k big l1 show ?thesis by (cases "i < length m") (simp_all add: m1_def overlay_def nth_append)
    qed
    have pad: "padded (last_name s) = last_name s @ replicate k (CHR '' '')" by (simp add: padded_def k_def)
    have "take DIRSIZ ?m = last_name s @ replicate k (CHR '' '')"
      using k by (auto simp: overlay_def m1_def)
    then have "segment 0 (0 + length (padded (last_name s))) ?m = padded (last_name s)"
      using k by (simp add: segment_def pad)
    moreover have "NUL \<notin> set (padded (last_name s))"
      using name by (auto simp: pad cstring_def)
    moreover have "length ?m = length m" using k big l1 by simp
    ultimately have "cstring ?m 0 (padded (last_name s))"
      using keep [of DIRSIZ] static(2) big k by (simp add: cstring_def pad)
    with f keep \<open>length ?m = length m\<close> show ?thesis by blast
  qed
qed

subsection \<open>Bounds\<close>

definition ls_mem :: "addr \<Rightarrow> mem \<Rightarrow> bool" where
  "ls_mem b m \<longleftrightarrow> length m = b + 512 \<and> LSPATH < b \<and> b \<le> LSPATH + 513 \<and> m ! DIRSIZ = NUL"

definition ls_format :: "string \<Rightarrow> bool" where
  "ls_format fmt \<longleftrightarrow> fmt \<noteq> [] \<and> (\<forall>fmtp t a b c. length t \<le> 512 \<longrightarrow> zfmt_text fmtp fmt [VStr t, VNum a, VNum b, VNum c] \<noteq> None)"

lemma ls_formats: "ls_format ''%s %d %d %l\<newline>''" "ls_format ''%s %d %d %d\<newline>''"
  by (simp_all add: ls_format_def zconv_text_def zfit_def int_text_length [THEN order_trans])

lemma padded_length: "length s \<le> 512 \<Longrightarrow> length (padded (last_name s)) \<le> 512"
  using length_last_name [of s] by (simp add: padded_def DIRSIZ_def)

lemma yields_ls_line:
  assumes m: "ls_mem b m" and c: "cstring m p s" and p: "DIRSIZ < p" and s: "length s \<le> 512" and f: "ls_format fmt"
  shows "yields (ls_line fmtp fmt m p st) (\<lambda>m'. ls_mem b m')"
proof -
  have "length m < 2 ^ 31" using m by (simp add: ls_mem_def LSPATH_def)
  from fmtname_ok [OF c this p] m obtain q m' where
    q: "fmtname m p = Some (q, m')" "cstring m' q (padded (last_name s))" "length m' = length m" "m' ! DIRSIZ = m ! DIRSIZ"
    by (auto simp: ls_mem_def)
  have "ls_mem b m'" using m q(3,4) by (simp add: ls_mem_def)
  moreover have "zfmt_text fmtp fmt [VStr (string_at m' q), VNum a, VNum b, VNum c] \<noteq> None" for a b c
    using f padded_length [OF s] string_at_cstring [OF q(2)] by (simp add: ls_format_def)
  ultimately show ?thesis using f q(1) by (auto simp: ls_line_def ls_format_def intro!: yields_then yields_printf)
qed

lemma ls_entry_ok:
  assumes m: "ls_mem b m" and p: "b \<le> p" "p + DIRSIZ < b + 512"
  shows "\<exists>m'. ls_entry m p = Some m' \<and> ls_mem b m' \<and> cstring m' b (string_at m' b) \<and> length (string_at m' b) < 512"
proof -
  define m1 where "m1 = overlay m p (segment (LSDE + 2) (LSDE + 2 + DIRSIZ) m)"
  have b: "p + DIRSIZ < b + 512" "32 \<le> b" "b \<le> p" "length m = b + 512" using p m by (simp_all add: ls_mem_def LSPATH_def)
  have "memmove m p (LSDE + 2) (int DIRSIZ) = Some (p, m1)"
    using memmove_overlay [of "LSDE + 2" "int DIRSIZ" m p] b by (simp add: m1_def LSDE_def DIRSIZ_def)
  moreover have l: "length m1 = length m" using b by (simp add: m1_def LSDE_def DIRSIZ_def)
  ultimately have e: "ls_entry m p = Some (m1[p + DIRSIZ := NUL])"
    using b by (simp add: ls_entry_def mem_simps)
  let ?m = "m1[p + DIRSIZ := NUL]"
  have "m1 ! DIRSIZ = m ! DIRSIZ" using b unfolding m1_def by (subst nth_overlay) (simp_all add: LSDE_def DIRSIZ_def)
  then have "?m ! DIRSIZ = NUL" using m b by (simp add: nth_list_update ls_mem_def)
  then have "ls_mem b ?m" using m l by (simp add: ls_mem_def)
  moreover have "b + (p + DIRSIZ - b) = p + DIRSIZ" using b by simp
  then have "cstring ?m b (string_at ?m b) \<and> length (string_at ?m b) \<le> p + DIRSIZ - b"
    using b l by (intro cstring_reach) simp_all
  moreover have "p + DIRSIZ - b < 512" using b by linarith
  ultimately show ?thesis using e by auto
qed

lemma yields_stat: "yields (stat f) (\<lambda>_. True)"
  by (simp add: stat_def)

lemma yields_ls_dir:
  assumes "b \<le> p" and "p + DIRSIZ < b + 512"
  shows "ls_mem b m \<Longrightarrow> yields (ls_dir fmtp fuel fd m b p) (ls_mem b)"
proof (induction fuel arbitrary: m)
  case (Suc fuel)
  have bs: "ls_mem b (overlay m LSDE bs)" if "length bs \<le> 16" for bs
    using that Suc.prems by (simp add: ls_mem_def LSDE_def LSPATH_def DIRSIZ_def overlay_def nth_append)
  have entry: "\<exists>m'. ls_entry m1 p = Some m' \<and> ls_mem b m' \<and>
      cstring m' b (string_at m' b) \<and> length (string_at m' b) < 512" if "ls_mem b m1" for m1
    using ls_entry_ok [OF that assms] .
  have step: "yields (case st of
        None \<Rightarrow> pbind (printf fmtp ''ls: cannot stat %s\<newline>'' [VStr (string_at m' b)]) (\<lambda>_. ls_dir fmtp fuel fd m' b p)
      | Some st \<Rightarrow> pbind (ls_line fmtp ''%s %d %d %d\<newline>'' m' b st) (\<lambda>m. ls_dir fmtp fuel fd m b p)) (ls_mem b)"
    if m': "ls_mem b m'" "cstring m' b (string_at m' b)" "length (string_at m' b) < 512" for st m'
  proof (cases st)
    case None
    have "zfmt_text fmtp ''ls: cannot stat %s\<newline>'' [VStr (string_at m' b)] \<noteq> None"
      using m'(3) by (simp add: zconv_text_def zfit_def)
    with None Suc.IH [OF m'(1)] show ?thesis by (auto intro!: yields_then yields_printf)
  next
    case (Some s)
    have "DIRSIZ < b" using m'(1) by (simp add: ls_mem_def DIRSIZ_def LSPATH_def)
    from yields_ls_line [OF m'(1,2) this _ ls_formats(2), of fmtp s] m'(3)
    have "yields (ls_line fmtp ''%s %d %d %d\<newline>'' m' b s) (ls_mem b)" by simp
    from yields_mono [OF this Suc.IH] show ?thesis unfolding Some by (simp add: yields_pbind)
  qed
  have "yields (let m = overlay m LSDE bs
           in if length bs \<noteq> 16 then Ret m
              else if m ! LSDE = NUL \<and> m ! (LSDE + 1) = NUL then ls_dir fmtp fuel fd m b p
              else (case ls_entry m p of
                  None \<Rightarrow> Crash
                | Some m \<Rightarrow>
                    pbind (stat (string_at m b)) (\<lambda>st. case st of
                        None \<Rightarrow> pbind (printf fmtp ''ls: cannot stat %s\<newline>'' [VStr (string_at m b)])
                                  (\<lambda>_. ls_dir fmtp fuel fd m b p)
                      | Some st \<Rightarrow> pbind (ls_line fmtp ''%s %d %d %d\<newline>'' m b st)
                                    (\<lambda>m. ls_dir fmtp fuel fd m b p)))) (ls_mem b)" if "length bs \<le> 16" for bs
  proof -
    note ok = bs [OF that]
    from entry [OF ok] obtain m' where m': "ls_entry (overlay m LSDE bs) p = Some m'" "ls_mem b m'"
      "cstring m' b (string_at m' b)" "length (string_at m' b) < 512" by blast
    show ?thesis unfolding Let_def using ok Suc.IH [OF ok] m'(1)
      by (auto intro!: yields_then [OF yields_stat] step [OF m'(2-4)])
  qed
  with Suc.prems show ?case by (auto split: option.split)
qed simp

lemma strlen_le: "n < 2 ^ 31 - 100 \<Longrightarrow> (of_nat n + 1 + of_nat DIRSIZ + 1 > (512 :: uint)) \<longleftrightarrow> n > 496"
proof -
  assume n: "n < 2 ^ 31 - 100"
  have "(of_nat n + 1 + of_nat DIRSIZ + 1 :: uint) = of_nat (n + 16)" by (simp add: DIRSIZ_def)
  moreover have "unat (of_nat (n + 16) :: uint) = n + 16" using of_nat_small [of "n + 16"] n by simp
  ultimately show ?thesis by (simp only: word_less_nat_alt) simp
qed

lemma ls_memI:
  assumes "length m = LSPATH + 512" and "m ! DIRSIZ = NUL" and "length path \<le> 512"
  shows "ls_mem (LSPATH + length path + 1) (argument_at m path)"
  using assms by (simp add: ls_mem_def argument_at_def nth_append LSPATH_def DIRSIZ_def)

lemma ls_path_cstring:
  assumes "length m = LSPATH + 512" and "NUL \<notin> set path"
  shows "cstring (argument_at m path) LSPATH path"
  using assms by (simp add: cstring_def segment_def nth_append argument_at_def)

text \<open>The path fits into \<open>buf\<close> with a slash behind it.\<close>

lemma ls_dir_path:
  assumes c: "cstring m LSPATH path" and m: "ls_mem b m" and b: "b = LSPATH + length path + 1" and short: "length path \<le> 496"
  shows "\<exists>m' p. (do {
             (_, m) \<leftarrow> strcpy m b LSPATH;
             len \<leftarrow> strlen m b;
             m \<leftarrow> store m (b + unat len) (CHR ''/'');
             Some (m, b + unat len + 1)
           }) = Some (m', p) \<and> ls_mem b m' \<and> b \<le> p \<and> p + DIRSIZ < b + 512"
proof -
  let ?m1 = "overlay m b (path @ [NUL])"
  have len: "length m = b + 512" and static: "m ! DIRSIZ = NUL" using m by (simp_all add: ls_mem_def)
  have cp: "strcpy m b LSPATH = Some (b, ?m1)"
    using strcpy_loop_cstring [OF c, of b] short len b by (simp add: strcpy_def)
  have l1: "length ?m1 = length m" using len short by (intro length_overlay) simp
  have "segment b (b + length path) ?m1 = path" using len short by (simp add: segment_def overlay_def)
  moreover have "?m1 ! (b + length path) = NUL" using len short by (simp add: overlay_def nth_append)
  ultimately have "cstring ?m1 b path"
    using c len l1 short by (simp add: cstring_def)
  note sl = strlen_cstring [OF this]
  have u: "unat (of_nat (length path) :: uint) = length path" using of_nat_small [of "length path"] short by simp
  have "?m1 ! DIRSIZ = m ! DIRSIZ" using len short b by (subst nth_overlay) (simp_all add: LSPATH_def DIRSIZ_def)
  then have "ls_mem b (?m1[b + length path := CHR ''/''])"
    using m l1 by (simp add: ls_mem_def nth_list_update LSPATH_def DIRSIZ_def)
  moreover have "b + length path < length ?m1" using l1 len short by simp
  then have "store ?m1 (b + length path) (CHR ''/'') = Some (?m1[b + length path := CHR ''/''])"
    by (simp add: mem_simps)
  ultimately show ?thesis using short
    by (intro exI [of _ "?m1[b + length path := CHR ''/'']"] exI [of _ "b + length path + 1"])
      (simp add: cp sl u DIRSIZ_def)
qed

lemma yields_ls_switch:
  assumes m: "length m = LSPATH + 512" "m ! DIRSIZ = NUL" and path: "NUL \<notin> set path" "length path \<le> 512"
  defines "b \<equiv> LSPATH + length path + 1"
  shows "yields (ls_switch fmtp fuel fd (argument_at m path) b st) (ls_mem b)"
proof -
  let ?m = "argument_at m path"
  have lm: "ls_mem b ?m" using ls_memI [OF m path(2)] by (simp add: b_def)
  have c: "cstring ?m LSPATH path" using ls_path_cstring m(1) path(1) by blast
  have "DIRSIZ < LSPATH" by (simp add: DIRSIZ_def LSPATH_def)
  note plain = yields_ls_line [OF lm c this path(2) ls_formats(1), of fmtp st]
  have "length path < 2 ^ 31 - 100" using path(2) by simp
  note cut = strlen_le [OF this]
  show ?thesis
  proof (cases "length path \<le> 496")
    case True
    from ls_dir_path [OF c lm b_def [THEN meta_eq_to_obj_eq] this] obtain m' p where d: "(do {
                 (_, m) \<leftarrow> strcpy ?m b LSPATH;
                 len \<leftarrow> strlen m b;
                 m \<leftarrow> store m (b + unat len) (CHR ''/'');
                 Some (m, b + unat len + 1)
               }) = Some (m', p)" "ls_mem b m'" "b \<le> p" "p + DIRSIZ < b + 512" by blast
    from yields_ls_dir [OF d(3,4,2), of fmtp fuel fd] plain lm True show ?thesis
      unfolding ls_switch_def strlen_cstring [OF c] option.case cut d(1) prod.case by simp
  next
    case False
    have "yields (printf fmtp ''ls: path too long\<newline>'' []) (\<lambda>_. True)" by (rule yields_printf) simp_all
    with plain lm False show ?thesis
      unfolding ls_switch_def strlen_cstring [OF c] option.case cut by (simp add: yields_then)
  qed
qed

lemma yields_ls:
  assumes m: "length m = LSPATH + 512" "m ! DIRSIZ = NUL" and path: "NUL \<notin> set path" "length path \<le> 512"
  shows "yields (ls fmtp fuel m path) (\<lambda>m'. length m' = LSPATH + 512 \<and> m' ! DIRSIZ = NUL)"
proof -
  let ?b = "LSPATH + length path + 1"
  have f: "yields (fprintf 2 ''ls: cannot open %s\<newline>'' [VStr path]) (\<lambda>_. True)"
    "yields (fprintf 2 ''ls: cannot stat %s\<newline>'' [VStr path]) (\<lambda>_. True)"
    by (rule yields_fprintf; simp)+
  have "yields (pbind (ls_switch fmtp fuel fd (argument_at m path) ?b st)
        (\<lambda>m'. do_call (Close fd) (Ret (take LSPATH m' @ drop ?b m'))))
      (\<lambda>m'. length m' = LSPATH + 512 \<and> m' ! DIRSIZ = NUL)" for fd st
    by (rule yields_pbind, rule yields_mono [OF yields_ls_switch [OF assms]])
      (simp add: ls_mem_def LSPATH_def DIRSIZ_def nth_append)
  with m f show ?thesis by (auto simp: ls_def yields_then Let_def split: option.split)
qed

lemma yields_ls_args:
  "length m = LSPATH + 512 \<Longrightarrow> m ! DIRSIZ = NUL \<Longrightarrow> \<forall>a \<in> set as. NUL \<notin> set a \<and> length a \<le> 512 \<Longrightarrow>
   yields (ls_args fmtp fuel m as) (\<lambda>_. True)"
proof (induction as arbitrary: m)
  case (Cons a as)
  then have "yields (ls fmtp fuel m a) (\<lambda>m'. length m' = LSPATH + 512 \<and> m' ! DIRSIZ = NUL)" by (intro yields_ls) simp_all
  moreover have "yields (ls_args fmtp fuel m' as) (\<lambda>_. True)" if "length m' = LSPATH + 512 \<and> m' ! DIRSIZ = NUL" for m'
    using that Cons.prems by (intro Cons.IH) simp_all
  ultimately show ?case by (auto intro!: yields_pbind elim: yields_mono)
qed simp

subsection \<open>Properties\<close>

text \<open>
  \<open>fmtname\<close> returns the last component of the path, padded with blanks to \<open>DIRSIZ\<close> characters when it
  is shorter, as a C string; outside its static buffer no byte of memory changes.
\<close>

lemma fmtname_name:
  assumes "cstring m path s" and "length m < 2 ^ 31" and "DIRSIZ < path" and "m ! DIRSIZ = NUL"
  shows "\<exists>q m'. fmtname m path = Some (q, m') \<and> cstring m' q (padded (last_name s)) \<and> length m' = length m \<and>
    (\<forall>i \<ge> DIRSIZ. m' ! i = m ! i)"
  using fmtname_ok [OF assms] .

text \<open>
  C40. \<open>ls\<close> stays inside its buffers: whatever the kernel answers (directory entries, file states, failing
  opens), on arguments of at most 512 characters it makes no store or load outside its memory and no call of
  \<open>printf\<close> that ends the process.
\<close>

theorem ls_in_bounds:
  assumes "length m = LSPATH + 512" and "m ! DIRSIZ = NUL" and "\<forall>a \<in> set argv. NUL \<notin> set a \<and> length a \<le> 512"
  shows "crash_free (ls_main fmtp fuel m argv)"
proof -
  have "yields (ls fmtp fuel m ''.'') (\<lambda>_. True)"
    using yields_ls [OF assms(1,2), of "''.''" fmtp fuel] by (auto elim: yields_mono)
  moreover have "yields (ls_args fmtp fuel m (tl argv)) (\<lambda>_. True)"
    using assms by (intro yields_ls_args) (cases argv; simp)+
  ultimately show ?thesis by (simp add: crash_free_def ls_main_def yields_then)
qed

theorem ls_in_bounds_witness:
  "crash_free (ls_main (\<lambda>_. []) 100 (replicate 543 NUL) [''ls'', ''/'', ''sh''])"
  using ls_in_bounds [of "replicate 543 NUL" "[''ls'', ''/'', ''sh'']" "\<lambda>_. []" 100]
  by (simp add: LSPATH_def DIRSIZ_def nth_replicate)

text \<open>
  For a file or device \<open>ls\<close> writes its name, type and inode number and then the two characters
  \<open>%l\<close> in place of the size, as the \<open>printf\<close> it is linked with does not know that conversion.
\<close>

lemma ls_file_line:
  assumes "std_input st" and "length m = LSPATH + 512" and "m ! DIRSIZ = NUL" and "NUL \<notin> set path" and "length path \<le> 512"
    and "st_type s = T_FILE"
  shows "\<exists>m' st'. run (fd_kernel (\<lambda>_. True) killed fresh other) (ls_switch fmtp fuel fd (argument_at m path) (LSPATH + length path + 1) s) st =
      (Returned m', st') \<and>
    console_out st' = console_out st @ padded (last_name path) @ '' 2 '' @ int_text (sint (st_ino s)) @ '' %l\<newline>''"
proof -
  let ?m = "argument_at m path" and ?t = "padded (last_name path)"
  have c: "cstring ?m LSPATH path" using ls_path_cstring assms(2,4) by blast
  obtain q m' where q: "fmtname ?m LSPATH = Some (q, m')" "cstring m' q ?t"
    using fmtname_ok [OF c] ls_memI [OF assms(2,3,5)] by (auto simp: ls_mem_def LSPATH_def DIRSIZ_def)
  let ?args = "[VStr ?t, VNum (word_of_int (st_type s)), VNum (ucast (st_ino s)), VNum (st_size s)]"
  have two: "int_text (sint (ucast (2 :: uint64) :: uint)) = ''2''"
    by (simp add: int_text_def nat_text.simps digits_def)
  have ino: "(ucast (ucast (st_ino s) :: uint64) :: uint) = st_ino s"
    by (rule bit_word_eqI) (simp add: bit_simps)
  have f: "zfmt_text fmtp ''%s %d %d %l\<newline>'' ?args = Some (?t @ '' 2 '' @ int_text (sint (st_ino s)) @ '' %l\<newline>'')"
    using padded_length [OF assms(5)] assms(6) two ino by (simp add: zconv_text_def zfit_def T_FILE_def int_text_length [THEN order_trans])
  have sw: "ls_switch fmtp fuel fd ?m (LSPATH + length path + 1) s = pbind (printf fmtp ''%s %d %d %l\<newline>'' ?args) (\<lambda>_. Ret m')"
    using assms(6) q string_at_cstring [OF q(2)] by (simp add: ls_switch_def ls_line_def)
  from assms(1) show ?thesis unfolding sw std_input_def run_pbind
    using inode_io.run_printf [OF _ f, of 0 st killed fresh other] pipe_io.run_printf [OF _ f, of 0 st "\<lambda>_. True" killed fresh other]
    by auto
qed

end
