(* ===== verification/Kdesc.thy ===== *)
theory Kdesc
  imports Kfile
begin

text \<open>
  Descriptors and reference counts.  The file table counts, for every open file, the descriptors of all
  processes that refer to it; \<open>file.zig\<close> panics when a count would drop below zero.  The invariant
  \<open>fd_inv\<close> says that no process has more descriptors to a file than the file's count, and every system
  call on descriptors keeps it.  The theory adds \<open>open\<close> (\<^verbatim>\<open>sysfile.zig\<close>), and what \<open>fork\<close> and \<open>exit\<close>
  (\<^verbatim>\<open>process.zig\<close>) do to the files.
\<close>

subsection \<open>open, fork and exit\<close>

datatype itype = TDir | TFile | TDevice nat

definition open_access :: "nat \<Rightarrow> nat" where "open_access mode = mode mod 4"
definition open_mode_ok :: "nat \<Rightarrow> bool" where
  "open_mode_ok mode \<longleftrightarrow> mode < 2 ^ 11 \<and> open_access mode \<noteq> 3"
definition open_create :: "nat \<Rightarrow> bool" where "open_create mode \<longleftrightarrow> odd (mode div 2 ^ 9)"
definition open_trunc :: "nat \<Rightarrow> bool" where "open_trunc mode \<longleftrightarrow> odd (mode div 2 ^ 10)"

text \<open>
  Path resolution and the creation of a file are the parameter \<open>look\<close>: the inode's number and type, or
  failure, and the state after.
\<close>

type_synonym lookup = "string \<Rightarrow> bool \<Rightarrow> kstate \<Rightarrow> (nat \<times> itype) option \<times> kstate"

definition open_file :: "nat \<Rightarrow> nat \<Rightarrow> itype \<Rightarrow> kfile \<Rightarrow> kfile" where
  "open_file mode ino ty f =
     f\<lparr>f_data := (case ty of TDevice major \<Rightarrow> FDevice ino major | _ \<Rightarrow> FInode ino 0),
       is_writeable := open_access mode \<noteq> 0, is_readable := open_access mode \<noteq> 1\<rparr>"

text \<open>
  Without a free descriptor, the handlers of \<open>open\<close> put the inode twice, which panics when nobody else
  refers to it (theory \<^verbatim>\<open>Kopen\<close>) and otherwise takes a reference of somebody else.  No result is
  claimed of that path: it is \<^term>\<open>None\<close>.
\<close>

definition sys_open :: "lookup \<Rightarrow> string \<Rightarrow> nat \<Rightarrow> kstate \<Rightarrow> (int \<times> kstate) option" where
  "sys_open look path mode st =
     (if \<not> open_mode_ok mode then Some (- 1, st)
      else case look path (open_create mode) st of
        (None, st1) \<Rightarrow> Some (- 1, st1)
      | (Some (ino, ty), st1) \<Rightarrow>
          if \<not> open_create mode \<and> ty = TDir \<and> open_access mode \<noteq> 0 then Some (- 1, st1)
          else if (case ty of TDevice major \<Rightarrow> major \<ge> max_device_count | _ \<Rightarrow> False) then Some (- 1, st1)
          else (case file_alloc st1 of
              None \<Rightarrow> Some (- 1, st1)
            | Some (i, st2) \<Rightarrow>
                let st3 = st2\<lparr>files := (files st2)[i := open_file mode ino ty (files st2 ! i)]\<rparr>;
                    st4 = (if open_trunc mode \<and> ty = TFile
                           then st3\<lparr>inodes := (inodes st3)(ino := inode_truncate (inodes st3 ino))\<rparr> else st3)
                in (case fileDescriptorAllocate i st4 of
                      None \<Rightarrow> None
                    | Some (fd, st5) \<Rightarrow> Some (int fd, st5))))"

definition open_kernel :: "lookup \<Rightarrow> kstate kernel \<Rightarrow> kstate kernel" where
  "open_kernel look K =
     K\<lparr>k_call := (\<lambda>q st. case q of Open path mode \<Rightarrow> sys_open look path mode st | _ \<Rightarrow> k_call K q st)\<rparr>"

text \<open>The child of \<open>fork\<close> gets the parent's descriptors, and every file one more reference for each.\<close>

fun fork_files :: "nat option list \<Rightarrow> kstate \<Rightarrow> kstate option" where
  "fork_files [] st = Some st"
| "fork_files (None # fs) st = fork_files fs st"
| "fork_files (Some i # fs) st = Option.bind (file_duplicate i st) (fork_files fs)"

definition sys_fork_files :: "kstate \<Rightarrow> kstate option" where
  "sys_fork_files st = fork_files (openFiles st) st"

fun exit_files :: "nat list \<Rightarrow> kstate \<Rightarrow> kstate option" where
  "exit_files [] st = Some st"
| "exit_files (fd # fds) st =
     (case openFiles st ! fd of
        None \<Rightarrow> exit_files fds st
      | Some i \<Rightarrow> Option.bind (file_close i st) (\<lambda>st'. exit_files fds (st'\<lparr>openFiles := (openFiles st')[fd := None]\<rparr>)))"

definition sys_exit_files :: "kstate \<Rightarrow> kstate option" where
  "sys_exit_files st = exit_files [0..<NOFILE] st"

subsection \<open>The invariant\<close>

definition refs :: "kstate \<Rightarrow> nat \<Rightarrow> nat" where
  "refs st i = count_list (openFiles st) (Some i)"

definition fd_inv :: "kstate \<Rightarrow> bool" where
  "fd_inv st \<longleftrightarrow> length (openFiles st) = NOFILE \<and>
     (\<forall>i. 0 < refs st i \<longrightarrow> i < length (files st)) \<and>
     (\<forall>i < length (files st). refs st i \<le> reference_count (files st ! i))"

text \<open>The references to a file that are not descriptors of this process.\<close>

definition foreign :: "kstate \<Rightarrow> nat \<Rightarrow> int" where
  "foreign st i = int (reference_count (files st ! i)) - int (refs st i)"

lemma foreign_same:
  "openFiles st' = openFiles st \<Longrightarrow> (\<And>j. reference_count (files st' ! j) = reference_count (files st ! j)) \<Longrightarrow> foreign st' = foreign st"
  by (simp add: fun_eq_iff foreign_def refs_def)

lemma count_list_update:
  "n < length xs \<Longrightarrow> count_list (xs[n := y]) z + (if xs ! n = z then 1 else 0) = count_list xs z + (if y = z then 1 else 0)"
proof (induction xs arbitrary: n)
  case (Cons x xs)
  show ?case
  proof (cases n)
    case (Suc m)
    with Cons.IH [of m] Cons.prems show ?thesis by (auto split: if_splits)
  qed simp
qed simp

lemma count_list_nth: "n < length xs \<Longrightarrow> 0 < count_list xs (xs ! n)"
  by (metis count_list_0_iff gr0I nth_mem)

lemma fd_inv_getFile:
  assumes "fd_inv st" and "getFile fd st = Some i"
  shows "i < length (files st)" and "0 < reference_count (files st ! i)" and "0 \<le> fd" and "nat fd < NOFILE"
    and "openFiles st ! nat fd = Some i"
proof -
  show fd: "0 \<le> fd" "nat fd < NOFILE" "openFiles st ! nat fd = Some i"
    using assms(2) by (auto simp: getFile_def split: if_splits)
  then have "0 < refs st i"
    using count_list_nth [of "nat fd" "openFiles st"] assms(1) by (simp add: refs_def fd_inv_def)
  with assms(1) show "i < length (files st)" and "0 < reference_count (files st ! i)"
    unfolding fd_inv_def by (auto intro: less_le_trans)
qed

lemma find_upt: "find P [0..<n] = Some i \<longleftrightarrow> i < n \<and> P i \<and> (\<forall>j < i. \<not> P j)"
  unfolding find_Some_iff by auto

lemma fileDescriptorAllocate_Some:
  "fileDescriptorAllocate i st = Some (fd, st') \<longleftrightarrow>
     fd < NOFILE \<and> openFiles st ! fd = None \<and> (\<forall>j < fd. openFiles st ! j \<noteq> None) \<and>
     st' = st\<lparr>openFiles := (openFiles st)[fd := Some i]\<rparr>"
proof -
  have "fileDescriptorAllocate i st = Some (fd, st') \<longleftrightarrow>
      find (\<lambda>fd. openFiles st ! fd = None) [0..<NOFILE] = Some fd \<and> st' = st\<lparr>openFiles := (openFiles st)[fd := Some i]\<rparr>"
    unfolding fileDescriptorAllocate_def
    by (cases "find (\<lambda>fd. openFiles st ! fd = None) [0..<NOFILE]") auto
  then show ?thesis by (simp only: find_upt conj_assoc)
qed

lemma file_alloc_Some:
  assumes "file_alloc st = Some (i, st')"
  shows "i < length (files st)" and "reference_count (files st ! i) = 0"
    and "st' = st\<lparr>files := (files st)[i := (files st ! i)\<lparr>reference_count := 1\<rparr>]\<rparr>"
proof -
  have "find (\<lambda>i. reference_count (files st ! i) = 0) [0..<length (files st)] = Some i"
    and "st' = st\<lparr>files := (files st)[i := (files st ! i)\<lparr>reference_count := 1\<rparr>]\<rparr>"
    using assms unfolding file_alloc_def by (simp_all split: option.splits)
  then show "i < length (files st)" and "reference_count (files st ! i) = 0"
    and "st' = st\<lparr>files := (files st)[i := (files st ! i)\<lparr>reference_count := 1\<rparr>]\<rparr>"
    unfolding find_upt by blast+
qed

text \<open>The invariant depends on the descriptors and the counts only.\<close>

lemma fd_inv_cong:
  assumes "openFiles st' = openFiles st" and "length (files st') = length (files st)"
    and "\<And>i. i < length (files st) \<Longrightarrow> 0 < refs st i \<Longrightarrow> reference_count (files st ! i) \<le> reference_count (files st' ! i)"
    and "fd_inv st"
  shows "fd_inv st'"
  using assms unfolding fd_inv_def refs_def by (metis (no_types, lifting) gr0I le_trans zero_le)

lemma file_alloc_inv:
  assumes "fd_inv st" and "file_alloc st = Some (i, st')"
  shows "fd_inv st'" and "refs st' i = 0" and "reference_count (files st' ! i) = 1" and "i < length (files st')"
    and "openFiles st' = openFiles st"
proof -
  note a = file_alloc_Some [OF assms(2)]
  show "openFiles st' = openFiles st" and "reference_count (files st' ! i) = 1" and "i < length (files st')"
    using a by simp_all
  show "fd_inv st'" using a by (intro fd_inv_cong [OF _ _ _ assms(1)]) (auto simp: nth_list_update)
  have "refs st i = 0" using assms(1) a(1,2) by (fastforce simp: fd_inv_def)
  then show "refs st' i = 0" using a by (simp add: refs_def)
qed

text \<open>Closing a file that has more references than this process's descriptors.\<close>

lemma file_close_inv:
  assumes "fd_inv st" and "i < length (files st)" and "refs st i < reference_count (files st ! i)"
  shows "\<exists>st'. file_close i st = Some st' \<and> fd_inv st' \<and> openFiles st' = openFiles st \<and>
    length (files st') = length (files st) \<and>
    (\<forall>j. reference_count (files st' ! j) = (if j = i then reference_count (files st ! i) - 1 else reference_count (files st ! j)))"
proof -
  have "\<exists>st'. file_close i st = Some st' \<and> openFiles st' = openFiles st \<and> length (files st') = length (files st) \<and>
    (\<forall>j. reference_count (files st' ! j) =
       (if j = i then reference_count (files st ! i) - 1 else reference_count (files st ! j)))"
    using assms(2,3)
    by (cases "1 < reference_count (files st ! i)"; cases "f_data (files st ! i)")
      (auto simp: file_close_def Let_def nth_list_update)
  then obtain st' where st': "file_close i st = Some st'" "openFiles st' = openFiles st"
    "length (files st') = length (files st)"
    "\<And>j. reference_count (files st' ! j) = (if j = i then reference_count (files st ! i) - 1 else reference_count (files st ! j))"
    by blast
  have "fd_inv st'" using assms st' unfolding fd_inv_def refs_def by auto
  with st' show ?thesis by blast
qed
subsection \<open>The system calls keep the invariant\<close>

lemma refs_update:
  assumes "n < length (openFiles st)"
  shows "refs (st\<lparr>openFiles := (openFiles st)[n := y]\<rparr>) i + (if openFiles st ! n = Some i then 1 else 0) =
    refs st i + (if y = Some i then 1 else 0)"
  using count_list_update [OF assms, of y "Some i"] by (simp add: refs_def)

lemma sys_close_inv:
  assumes inv: "fd_inv st" and f: "getFile fd st = Some i"
  shows "\<exists>st'. sys_close fd st = Some (0, st') \<and> fd_inv st' \<and> openFiles st' = (openFiles st)[nat fd := None] \<and>
    length (files st') = length (files st) \<and> foreign st' = foreign st"
proof -
  note g = fd_inv_getFile [OF inv f]
  let ?st = "st\<lparr>openFiles := (openFiles st)[nat fd := None]\<rparr>"
  have len: "nat fd < length (openFiles st)" using inv g(4) by (simp add: fd_inv_def)
  have r: "refs ?st j + (if j = i then 1 else 0) = refs st j" for j
    using refs_update [OF len, of None j] g(5) by auto
  have le: "refs ?st j \<le> refs st j" for j using r [of j] by linarith
  have inv': "fd_inv ?st"
    unfolding fd_inv_def
  proof (intro conjI allI impI)
    show "length (openFiles ?st) = NOFILE" using inv by (simp add: fd_inv_def)
    show "j < length (files ?st)" if "0 < refs ?st j" for j
      using that le [of j] inv by (simp add: fd_inv_def)
    show "refs ?st j \<le> reference_count (files ?st ! j)" if "j < length (files ?st)" for j
      using that le [of j] inv by (auto simp: fd_inv_def intro: order_trans)
  qed
  have "refs st i \<le> reference_count (files st ! i)" using inv g(1) unfolding fd_inv_def by blast
  then have lt: "refs ?st i < reference_count (files ?st ! i)" using r [of i] by simp
  have i: "i < length (files ?st)" using g(1) by simp
  obtain st' where st': "file_close i ?st = Some st'" "fd_inv st'" "openFiles st' = openFiles ?st"
    "length (files st') = length (files ?st)"
    "\<And>j. reference_count (files st' ! j) = (if j = i then reference_count (files ?st ! i) - 1 else reference_count (files ?st ! j))"
    using file_close_inv [OF inv' i lt] by blast
  have "foreign st' j = foreign st j" for j
    using r [of j] st'(3,5) lt by (cases "j = i") (simp_all add: foreign_def refs_def of_nat_diff)
  then have "foreign st' = foreign st" by (rule ext)
  with st' show ?thesis using f by (simp add: sys_close_def)
qed

lemma sys_close_bad: "getFile fd st = None \<Longrightarrow> sys_close fd st = Some (- 1, st)"
  by (simp add: sys_close_def)

text \<open>Giving a descriptor to a file that has a reference to spare.\<close>

lemma fileDescriptorAllocate_inv:
  assumes inv: "fd_inv st" and a: "fileDescriptorAllocate i st = Some (fd, st')"
    and i: "i < length (files st)" "refs st i < reference_count (files st ! i)"
  shows "fd_inv st'"
proof -
  have fd: "fd < NOFILE" "openFiles st ! fd = None" and st': "st' = st\<lparr>openFiles := (openFiles st)[fd := Some i]\<rparr>"
    using a unfolding fileDescriptorAllocate_Some by blast+
  have "fd < length (openFiles st)" using inv fd by (simp add: fd_inv_def)
  from refs_update [OF this, of "Some i"] fd have r: "refs st' j = refs st j + (if j = i then 1 else 0)" for j
    unfolding st' by (cases "j = i") auto
  show ?thesis
    unfolding fd_inv_def
  proof (intro conjI allI impI)
    show "length (openFiles st') = NOFILE" using inv by (simp add: fd_inv_def st')
    show "j < length (files st')" if "0 < refs st' j" for j
      using that inv i r [of j] by (cases "j = i") (simp_all add: fd_inv_def st')
    show "refs st' j \<le> reference_count (files st' ! j)" if "j < length (files st')" for j
      using that inv i r [of j] by (cases "j = i") (simp_all add: fd_inv_def st' Suc_le_eq)
  qed
qed

lemma file_duplicate_inv:
  assumes "fd_inv st" and "i < length (files st)" and "0 < reference_count (files st ! i)"
  shows "\<exists>st'. file_duplicate i st = Some st' \<and> fd_inv st' \<and> openFiles st' = openFiles st \<and>
    length (files st') = length (files st) \<and>
    (\<forall>j. reference_count (files st' ! j) = reference_count (files st ! j) + (if j = i then 1 else 0)) \<and>
    pipes st' = pipes st \<and> (\<forall>j. f_data (files st' ! j) = f_data (files st ! j))"
proof -
  let ?st = "st\<lparr>files := (files st)[i := (files st ! i)\<lparr>reference_count := reference_count (files st ! i) + 1\<rparr>]\<rparr>"
  have "fd_inv ?st" using assms(2) by (intro fd_inv_cong [OF _ _ _ assms(1)]) (auto simp: nth_list_update)
  with assms(2,3) show ?thesis by (auto simp: file_duplicate_def nth_list_update)
qed

text \<open>The source duplicates the file after it has given out the descriptor.\<close>

lemma sys_dup_ok:
  assumes inv: "fd_inv st" and f: "getFile fd st = Some i" and a: "fileDescriptorAllocate i st = Some (n, st1)"
  shows "\<exists>st'. sys_dup fd st = Some (int n, st') \<and> fd_inv st' \<and> openFiles st' = (openFiles st)[n := Some i] \<and>
    length (files st') = length (files st) \<and> foreign st' = foreign st"
proof -
  note g = fd_inv_getFile [OF inv f]
  from file_duplicate_inv [OF inv g(1,2)] obtain st2 where
    d: "file_duplicate i st = Some st2" "fd_inv st2" "openFiles st2 = openFiles st" "length (files st2) = length (files st)"
      "\<And>j. reference_count (files st2 ! j) = reference_count (files st ! j) + (if j = i then 1 else 0)" by blast
  let ?st = "st2\<lparr>openFiles := (openFiles st)[n := Some i]\<rparr>"
  have fda: "n < NOFILE" "openFiles st ! n = None" "\<forall>j < n. openFiles st ! j \<noteq> None"
    "st1 = st\<lparr>openFiles := (openFiles st)[n := Some i]\<rparr>"
    using a unfolding fileDescriptorAllocate_Some by blast+
  have a2: "fileDescriptorAllocate i st2 = Some (n, ?st)"
    unfolding fileDescriptorAllocate_Some using fda d(3) by simp
  have "refs st2 i < reference_count (files st2 ! i)"
    using inv g(1) d(3,5) by (simp add: refs_def fd_inv_def less_Suc_eq_le)
  from fileDescriptorAllocate_inv [OF d(2) a2] this g(1) d(4) have "fd_inv ?st" by simp
  moreover have "file_duplicate i st1 = Some ?st"
    using d(1) fda(4) g(2) by (auto simp: file_duplicate_def)
  then have "sys_dup fd st = Some (int n, ?st)" using f a by (simp add: sys_dup_def)
  moreover have "n < length (openFiles st)" using inv fda(1) by (simp add: fd_inv_def)
  then have "foreign ?st j = foreign st j" for j
    using refs_update [of n st "Some i" j] fda(2) d(5) [of j] by (simp add: foreign_def refs_def)
  then have "foreign ?st = foreign st" by (rule ext)
  ultimately show ?thesis using d by (intro exI [of _ ?st]) simp
qed

lemma fork_files_inv:
  assumes "fd_inv st" and "\<forall>i. Some i \<in> set fs \<longrightarrow> i < length (files st) \<and> 0 < reference_count (files st ! i)"
  shows "\<exists>st'. fork_files fs st = Some st' \<and> fd_inv st' \<and> openFiles st' = openFiles st \<and>
    length (files st') = length (files st) \<and>
    (\<forall>j. reference_count (files st' ! j) = reference_count (files st ! j) + count_list fs (Some j)) \<and>
    pipes st' = pipes st \<and> (\<forall>j. f_data (files st' ! j) = f_data (files st ! j))"
  using assms
proof (induction fs arbitrary: st)
  case (Cons f fs)
  show ?case
  proof (cases f)
    case (Some i)
    with Cons.prems have i: "i < length (files st)" "0 < reference_count (files st ! i)" by auto
    from file_duplicate_inv [OF Cons.prems(1) i] obtain st1 where
      s1: "file_duplicate i st = Some st1" "fd_inv st1" "openFiles st1 = openFiles st" "length (files st1) = length (files st)"
        "\<And>j. reference_count (files st1 ! j) = reference_count (files st ! j) + (if j = i then 1 else 0)"
        "pipes st1 = pipes st" "\<And>j. f_data (files st1 ! j) = f_data (files st ! j)" by blast
    have "\<forall>j. Some j \<in> set fs \<longrightarrow> j < length (files st1) \<and> 0 < reference_count (files st1 ! j)"
      using Cons.prems(2) s1(4,5) by simp
    from Cons.IH [OF s1(2) this] obtain st2 where
      "fork_files fs st1 = Some st2" "fd_inv st2" "openFiles st2 = openFiles st1" "length (files st2) = length (files st1)"
        "\<And>j. reference_count (files st2 ! j) = reference_count (files st1 ! j) + count_list fs (Some j)"
        "pipes st2 = pipes st1" "\<And>j. f_data (files st2 ! j) = f_data (files st1 ! j)" by blast
    with s1 Some show ?thesis by simp
  qed (use Cons in simp)
qed simp

definition pipe_ends :: "kstate \<Rightarrow> nat \<Rightarrow> nat \<Rightarrow> bool" where
  "pipe_ends st a b \<longleftrightarrow> a \<noteq> b \<and> a < length (files st) \<and> b < length (files st) \<and>
     reference_count (files st ! a) = 1 \<and> reference_count (files st ! b) = 1 \<and>
     (\<exists>p. f_data (files st ! a) = FPipe p \<and> f_data (files st ! b) = FPipe p) \<and>
     is_readable (files st ! a) \<and> \<not> is_writeable (files st ! a) \<and>
     \<not> is_readable (files st ! b) \<and> is_writeable (files st ! b)"

lemma close_unreferenced:
  assumes "fd_inv st" and "i < length (files st)" and "refs st i = 0" and "reference_count (files st ! i) = 1"
  shows "\<exists>st'. file_close i st = Some st' \<and> fd_inv st' \<and> openFiles st' = openFiles st \<and>
    length (files st') = length (files st) \<and>
    (\<forall>j. reference_count (files st' ! j) = (if j = i then 0 else reference_count (files st ! j)))"
proof -
  have "refs st i < reference_count (files st ! i)" using assms by simp
  from file_close_inv [OF assms(1,2) this] show ?thesis using assms(4) by auto
qed

lemma close_both:
  assumes "fd_inv st" and "a \<noteq> b" and "a < length (files st)" and "b < length (files st)"
    and "refs st a = 0" and "refs st b = 0" and "reference_count (files st ! a) = 1" and "reference_count (files st ! b) = 1"
  shows "\<exists>st'. Option.bind (file_close a st) (file_close b) = Some st' \<and> fd_inv st' \<and> openFiles st' = openFiles st \<and>
    (\<forall>j. reference_count (files st' ! j) = (if j = a \<or> j = b then 0 else reference_count (files st ! j)))"
proof -
  obtain st1 where s1: "file_close a st = Some st1" "fd_inv st1" "openFiles st1 = openFiles st"
    "length (files st1) = length (files st)"
    "\<And>j. reference_count (files st1 ! j) = (if j = a then 0 else reference_count (files st ! j))"
    using close_unreferenced [OF assms(1,3,5,7)] by blast
  have "refs st1 b = 0" "reference_count (files st1 ! b) = 1" using assms(2,6,8) s1(3,5) by (simp_all add: refs_def)
  with close_unreferenced [OF s1(2) _ this] s1 assms(4) show ?thesis by fastforce
qed

lemma pipe_alloc_files_inv:
  assumes inv: "fd_inv st"
  shows "\<exists>r st'. pipe_alloc_files fresh st = Some (r, st') \<and> fd_inv st' \<and> openFiles st' = openFiles st \<and>
    (case r of None \<Rightarrow> \<forall>j. reference_count (files st' ! j) = reference_count (files st ! j)
     | Some (a, b) \<Rightarrow> pipe_ends st' a b \<and> refs st' a = 0 \<and> refs st' b = 0 \<and>
       reference_count (files st ! a) = 0 \<and> reference_count (files st ! b) = 0 \<and>
       length (files st') = length (files st) \<and>
       (\<forall>j. j \<noteq> a \<longrightarrow> j \<noteq> b \<longrightarrow> reference_count (files st' ! j) = reference_count (files st ! j)))"
proof (cases "file_alloc st")
  case None
  then show ?thesis using inv by (simp add: pipe_alloc_files_def)
next
  case (Some x)
  obtain a st1 where x: "x = (a, st1)" by (cases x)
  note A = file_alloc_inv [OF inv Some [unfolded x]] and A' = file_alloc_Some [OF Some [unfolded x]]
  show ?thesis
  proof (cases "file_alloc st1")
    case None
    from close_unreferenced [OF A(1,4,2,3)] Some x None A(5) A' show ?thesis
      by (fastforce simp: pipe_alloc_files_def nth_list_update)
  next
    case Some': (Some y)
    obtain b st2 where y: "y = (b, st2)" by (cases y)
    note B = file_alloc_inv [OF A(1) Some' [unfolded y]] and B' = file_alloc_Some [OF Some' [unfolded y]]
    have ab: "a \<noteq> b" using A(3) B'(2) by auto
    have a2: "refs st2 a = 0" "a < length (files st2)" "reference_count (files st2 ! a) = 1"
      using A B(5) B' ab by (simp_all add: refs_def)
    show ?thesis
    proof (cases "fresh st2")
      case None
      from close_both [OF B(1) ab [symmetric] B(4) a2(2) B(2) a2(1) B(3) a2(3)] obtain st3 where
        s3: "Option.bind (file_close b st2) (file_close a) = Some st3" "fd_inv st3" "openFiles st3 = openFiles st2"
          "\<And>j. reference_count (files st3 ! j) = (if j = b \<or> j = a then 0 else reference_count (files st2 ! j))" by blast
      have "reference_count (files st3 ! j) = reference_count (files st ! j)" for j
        using s3(4) [of j] A' B' ab by (auto simp: nth_list_update)
      with s3 Some x Some' y None A(5) B(5) show ?thesis by (simp add: pipe_alloc_files_def)
    next
      case Fr: (Some z)
      obtain p page where z: "z = (p, page)" by (cases z)
      let ?st = "st2\<lparr>pipes := (pipes st2)(p := pipe_alloc page),
                      files := (files st2)
                        [a := (files st2 ! a)\<lparr>f_data := FPipe p, is_readable := True, is_writeable := False\<rparr>,
                         b := (files st2 ! b)\<lparr>f_data := FPipe p, is_readable := False, is_writeable := True\<rparr>]\<rparr>"
      have r: "reference_count (files ?st ! j) = reference_count (files st2 ! j)" for j
        using a2(2) B(4) by (cases "j = b"; cases "j = a") simp_all
      have "fd_inv ?st" by (intro fd_inv_cong [OF _ _ _ B(1)]) (simp_all add: r [simplified])
      moreover have "pipe_ends ?st a b"
        using ab a2 B by (simp add: pipe_ends_def nth_list_update)
      moreover have "reference_count (files ?st ! j) = reference_count (files st ! j)" if "j \<noteq> a" "j \<noteq> b" for j
        unfolding r using A'(3) B'(3) that by simp
      moreover have "refs ?st a = 0" "refs ?st b = 0" using a2(1) B(2) by (simp_all add: refs_def)
      moreover have "length (files ?st) = length (files st)" using A'(3) B'(3) by simp
      moreover have "reference_count (files st ! a) = 0" "reference_count (files st ! b) = 0"
        using A' B' ab by (auto simp: nth_list_update)
      moreover have "openFiles ?st = openFiles st" using A(5) B(5) by simp
      moreover have "pipe_alloc_files fresh st = Some (Some (a, b), ?st)"
        using Some x Some' y Fr z by (simp add: pipe_alloc_files_def)
      ultimately show ?thesis by (intro exI [of _ "Some (a, b)"] exI [of _ ?st]) simp
    qed
  qed
qed

text \<open>
  A pipe that is made has its read end on the lowest free descriptor and its write end on the next free one.
\<close>

lemma sys_pipe_inv:
  assumes inv: "fd_inv st"
  shows "\<exists>r st'. sys_pipe fresh st = Some (r, st') \<and> fd_inv st' \<and> foreign st' = foreign st \<and>
    (case r of
       None \<Rightarrow> openFiles st' = openFiles st
     | Some (p0, p1) \<Rightarrow> (\<exists>a b. 0 \<le> p0 \<and> p0 < p1 \<and> p1 < int NOFILE \<and>
         openFiles st ! nat p0 = None \<and> openFiles st ! nat p1 = None \<and>
         (\<forall>j < nat p0. openFiles st ! j \<noteq> None) \<and>
         openFiles st' = (openFiles st)[nat p0 := Some a, nat p1 := Some b] \<and> pipe_ends st' a b))"
proof -
  obtain r st1 where P: "pipe_alloc_files fresh st = Some (r, st1)" "fd_inv st1" "openFiles st1 = openFiles st"
    "case r of None \<Rightarrow> \<forall>j. reference_count (files st1 ! j) = reference_count (files st ! j)
     | Some (a, b) \<Rightarrow> pipe_ends st1 a b \<and> refs st1 a = 0 \<and> refs st1 b = 0 \<and>
         reference_count (files st ! a) = 0 \<and> reference_count (files st ! b) = 0 \<and>
         (\<forall>j. j \<noteq> a \<longrightarrow> j \<noteq> b \<longrightarrow> reference_count (files st1 ! j) = reference_count (files st ! j))"
    using pipe_alloc_files_inv [OF inv, of fresh] by (fastforce split: option.splits prod.splits)
  show ?thesis
  proof (cases r)
    case None
    with P have "foreign st1 = foreign st" by (intro foreign_same) simp_all
    with P None show ?thesis by (simp add: sys_pipe_def)
  next
    case (Some x)
    obtain a b where x: "x = (a, b)" by (cases x)
    have pe: "pipe_ends st1 a b" "refs st1 a = 0" "refs st1 b = 0" using P(4) Some x by simp_all
    have old: "reference_count (files st ! a) = 0" "reference_count (files st ! b) = 0"
      "\<And>j. j \<noteq> a \<Longrightarrow> j \<noteq> b \<Longrightarrow> reference_count (files st1 ! j) = reference_count (files st ! j)"
      using P(4) Some x by simp_all
    from pe(1) have ab: "a \<noteq> b" "a < length (files st1)" "b < length (files st1)"
      "reference_count (files st1 ! a) = 1" "reference_count (files st1 ! b) = 1" by (simp_all add: pipe_ends_def)
    obtain st0 where s0: "Option.bind (file_close a st1) (file_close b) = Some st0" "fd_inv st0" "openFiles st0 = openFiles st1"
      "\<And>j. reference_count (files st0 ! j) = (if j = a \<or> j = b then 0 else reference_count (files st1 ! j))"
      using close_both [OF P(2) ab(1-3) pe(2,3) ab(4,5)] by blast
    have "foreign st0 = foreign st" using s0(3,4) P(3) old by (intro foreign_same) simp_all
    note s0 = this s0(1-3)
    show ?thesis
    proof (cases "fileDescriptorAllocate a st1")
      case None
      with s0 P Some x show ?thesis by (simp add: sys_pipe_def)
    next
      case A: (Some y)
      obtain p0 st2 where y: "y = (p0, st2)" by (cases y)
      note a1 = A [unfolded y fileDescriptorAllocate_Some]
      have inv2: "fd_inv st2"
        using fileDescriptorAllocate_inv [OF P(2) A [unfolded y] ab(2)] pe(2) ab(4) by simp
      have len: "length (openFiles st1) = NOFILE" using P(2) by (simp add: fd_inv_def)
      have rb: "refs st2 b = 0"
        using refs_update [of p0 st1 "Some a" b] a1 len pe(3) ab(1) by simp
      show ?thesis
      proof (cases "fileDescriptorAllocate b st2")
        case None
        have "st2\<lparr>openFiles := (openFiles st2)[p0 := None]\<rparr> = st1"
        proof -
          have "(openFiles st1)[p0 := None] = openFiles st1" using a1 len by (metis list_update_id)
          with a1 show ?thesis by simp
        qed
        with s0 P Some x A y None show ?thesis by (simp add: sys_pipe_def)
      next
        case B: (Some z)
        obtain p1 st3 where z: "z = (p1, st3)" by (cases z)
        note b1 = B [unfolded z fileDescriptorAllocate_Some]
        have inv3: "fd_inv st3"
          using fileDescriptorAllocate_inv [OF inv2 B [unfolded z]] rb ab a1 by simp
        have "p0 \<noteq> p1" using a1 b1 len by auto
        have "\<not> p1 < p0"
        proof
          assume lt: "p1 < p0"
          then have "openFiles st1 ! p1 \<noteq> None" using a1 by blast
          with a1 b1 lt show False by simp
        qed
        with \<open>p0 \<noteq> p1\<close> have lt: "p0 < p1" by simp
        have n1: "openFiles st1 ! p1 = None" using a1 b1 lt by simp
        have "openFiles st3 = (openFiles st)[p0 := Some a, p1 := Some b]" using a1 b1 P(3) by simp
        moreover have "pipe_ends st3 a b" using pe(1) a1 b1 by (simp add: pipe_ends_def)
        moreover have "sys_pipe fresh st = Some (Some (int p0, int p1), st3)"
          using P Some x A y B z by (simp add: sys_pipe_def)
        moreover have "foreign st3 j = foreign st j" for j
        proof -
          have "refs st3 j = refs st2 j + (if j = b then 1 else 0)" "refs st2 j = refs st1 j + (if j = a then 1 else 0)"
            using refs_update [of p1 st2 "Some b" j] refs_update [of p0 st1 "Some a" j] a1 b1 len by auto
          moreover have "files st3 = files st1" "refs st1 j = refs st j" using a1 b1 P(3) by (simp_all add: refs_def)
          ultimately show ?thesis using ab(1,4,5) pe(2,3) old by (cases "j = a"; cases "j = b") (simp_all add: foreign_def)
        qed
        then have "foreign st3 = foreign st" by (rule ext)
        ultimately show ?thesis using inv3 lt n1 a1 b1 P(3)
          by (intro exI [of _ "Some (int p0, int p1)"] exI [of _ st3]) auto
      qed
    qed
  qed
qed

text \<open>Path resolution works on inodes and directories; it leaves descriptors and open files alone.\<close>

definition look_ok :: "lookup \<Rightarrow> bool" where
  "look_ok look \<longleftrightarrow> (\<forall>p c st. openFiles (snd (look p c st)) = openFiles st \<and> files (snd (look p c st)) = files st)"

definition opened_as :: "nat \<Rightarrow> nat \<times> itype \<Rightarrow> kfile \<Rightarrow> bool" where
  "opened_as mode x f \<longleftrightarrow> f_data f = (case snd x of TDevice major \<Rightarrow> FDevice (fst x) major | _ \<Rightarrow> FInode (fst x) 0) \<and>
     is_writeable f = (open_access mode \<noteq> 0) \<and> is_readable f = (open_access mode \<noteq> 1)"

text \<open>As long as the process has a free descriptor, \<open>open\<close> is safe; whatever it has, what it opens is right.\<close>

lemma sys_open_cases:
  assumes inv: "fd_inv st" and lk: "look_ok look"
  shows "(sys_open look path mode st = None \<and> None \<notin> set (openFiles st)) \<or>
    (\<exists>r st'. sys_open look path mode st = Some (r, st') \<and> fd_inv st' \<and> foreign st' = foreign st \<and>
    (r < 0 \<longrightarrow> openFiles st' = openFiles st) \<and>
    (0 \<le> r \<longrightarrow> (\<exists>i x. r < int NOFILE \<and> openFiles st ! nat r = None \<and> (\<forall>j < nat r. openFiles st ! j \<noteq> None) \<and>
       openFiles st' = (openFiles st)[nat r := Some i] \<and> i < length (files st') \<and>
       fst (look path (open_create mode) st) = Some x \<and> opened_as mode x (files st' ! i))))"
proof (cases "open_mode_ok mode")
  case False
  then show ?thesis using inv by (simp add: sys_open_def)
next
  case ok: True
  obtain l st1 where l: "look path (open_create mode) st = (l, st1)" by fastforce
  with lk have s1: "openFiles st1 = openFiles st" "files st1 = files st" unfolding look_ok_def by (metis snd_conv)+
  then have inv1: "fd_inv st1" using inv by (intro fd_inv_cong [OF _ _ _ inv]) simp_all
  have for1: "foreign st1 = foreign st" using s1 by (intro foreign_same) simp_all
  have fail: ?thesis if "sys_open look path mode st = Some (- 1, st1)" using that inv1 s1 for1 by simp
  show ?thesis
  proof (cases l)
    case None
    with ok l show ?thesis by (intro fail) (simp add: sys_open_def)
  next
    case (Some x)
    obtain ino ty where x: "x = (ino, ty)" by (cases x)
    show ?thesis
    proof (cases "(\<not> open_create mode \<and> ty = TDir \<and> open_access mode \<noteq> 0) \<or>
        (case ty of TDevice major \<Rightarrow> major \<ge> max_device_count | _ \<Rightarrow> False) \<or> file_alloc st1 = None")
      case True
      with ok l Some x show ?thesis by (intro fail) (auto simp: sys_open_def)
    next
      case False
      then obtain i st2 where a: "file_alloc st1 = Some (i, st2)" by auto
      note A = file_alloc_inv [OF inv1 a] and A' = file_alloc_Some [OF a]
      define st3 where "st3 = st2\<lparr>files := (files st2)[i := open_file mode ino ty (files st2 ! i)]\<rparr>"
      define st4 where "st4 = (if open_trunc mode \<and> ty = TFile
        then st3\<lparr>inodes := (inodes st3)(ino := inode_truncate (inodes st3 ino))\<rparr> else st3)"
      have f4: "openFiles st4 = openFiles st" "files st4 = (files st2)[i := open_file mode ino ty (files st2 ! i)]"
        using A(5) s1 by (simp_all add: st4_def st3_def)
      have rc: "reference_count (files st4 ! j) = reference_count (files st2 ! j)" for j
        using A(4) unfolding f4 by (cases "j = i") (simp_all add: open_file_def)
      have inv4: "fd_inv st4"
        using f4 A(5) s1 by (intro fd_inv_cong [OF _ _ _ A(1)]) (simp_all add: rc [unfolded f4])
      have i4: "i < length (files st4)" "refs st4 i = 0" "reference_count (files st4 ! i) = 1"
        using A f4 s1 rc [of i] by (simp_all add: refs_def)
      have op: "opened_as mode x (files st4 ! i)"
        using A(4) by (cases ty) (simp_all add: x f4 opened_as_def open_file_def)
      have run: "sys_open look path mode st = (case fileDescriptorAllocate i st4 of
                      None \<Rightarrow> None
                    | Some (fd, st5) \<Rightarrow> Some (int fd, st5))"
      proof -
        from False have c: "(\<not> open_create mode \<and> ty = TDir \<and> open_access mode \<noteq> 0) = False"
          "(case ty of TDevice major \<Rightarrow> major \<ge> max_device_count | _ \<Rightarrow> False) = False" by blast+
        show ?thesis
          by (simp only: sys_open_def l Some x option.case prod.case a Let_def ok not_True_eq_False if_False c
              st3_def [symmetric] st4_def [symmetric])
      qed
      show ?thesis
      proof (cases "fileDescriptorAllocate i st4")
        case None
        then have "\<forall>n < NOFILE. openFiles st ! n \<noteq> None"
          by (auto simp: fileDescriptorAllocate_def find_None_iff f4 split: option.splits)
        then have "None \<notin> set (openFiles st)" using inv by (auto simp: fd_inv_def in_set_conv_nth)
        with run None show ?thesis by simp
      next
        case fd: (Some z)
        obtain n st5 where z: "z = (n, st5)" by (cases z)
        note n = fd [unfolded z fileDescriptorAllocate_Some]
        have inv5: "fd_inv st5" using fileDescriptorAllocate_inv [OF inv4 fd [unfolded z] i4(1)] i4 by simp
        have "foreign st5 j = foreign st j" for j
        proof -
          have "n < length (openFiles st4)" using inv4 n by (simp add: fd_inv_def)
          from refs_update [OF this, of "Some i" j] n have "refs st5 j = refs st j + (if j = i then 1 else 0)"
            by (auto simp: refs_def f4)
          moreover have "files st5 = files st4" using n by simp
          moreover have "reference_count (files st4 ! j) = (if j = i then 1 else reference_count (files st ! j))"
            using rc [of j] A' s1 by (simp add: nth_list_update)
          moreover have "refs st i = 0" "reference_count (files st ! i) = 0" using i4(2) A'(2) s1 f4 by (simp_all add: refs_def)
          ultimately show ?thesis by (simp add: foreign_def)
        qed
        then have "foreign st5 = foreign st" by (rule ext)
        with inv5 run fd z n f4 l Some i4(1) op show ?thesis
          by (intro disjI2 exI [of _ "int n"] exI [of _ st5]) auto
      qed
    qed
  qed
qed

text \<open>One step of a process that rearranges its descriptors.\<close>

lemma getFile_open: "0 \<le> fd \<Longrightarrow> fd < int NOFILE \<Longrightarrow> getFile fd st = openFiles st ! nat fd"
  by (simp add: getFile_def)

lemma close_step:
  assumes "fd_inv st" and "0 \<le> p" and "p < int NOFILE" and "openFiles st ! nat p = Some x"
  shows "\<exists>st'. sys_close p st = Some (0, st') \<and> fd_inv st' \<and> openFiles st' = (openFiles st)[nat p := None]"
  using sys_close_inv [OF assms(1), of p x] assms(2-4) by (auto simp: getFile_open)

lemma dup_step:
  assumes "fd_inv st" and "0 \<le> p" and "p < int NOFILE" and "openFiles st ! nat p = Some w"
    and "n < NOFILE" and "openFiles st ! n = None" and "\<forall>j < n. openFiles st ! j \<noteq> None"
  shows "\<exists>st'. sys_dup p st = Some (int n, st') \<and> fd_inv st' \<and> openFiles st' = (openFiles st)[n := Some w]"
proof -
  have "fileDescriptorAllocate w st = Some (n, st\<lparr>openFiles := (openFiles st)[n := Some w]\<rparr>)"
    unfolding fileDescriptorAllocate_Some using assms by simp
  from sys_dup_ok [OF assms(1) _ this, of p] assms(2-4) show ?thesis by (auto simp: getFile_open)
qed

lemma descriptors_live:
  assumes "fd_inv st"
  shows "\<forall>i. Some i \<in> set (openFiles st) \<longrightarrow> i < length (files st) \<and> 0 < reference_count (files st ! i)"
proof (intro allI impI)
  fix i assume "Some i \<in> set (openFiles st)"
  then have "0 < refs st i" by (simp add: refs_def count_list_0_iff neq0_conv [symmetric] del: neq0_conv)
  then show "i < length (files st) \<and> 0 < reference_count (files st ! i)"
    using assms unfolding fd_inv_def by (auto intro: less_le_trans)
qed

lemma fork_files_same:
  assumes "fd_inv st"
  shows "\<exists>st'. sys_fork_files st = Some st' \<and> fd_inv st' \<and> openFiles st' = openFiles st"
  using fork_files_inv [OF assms descriptors_live [OF assms]] by (auto simp: sys_fork_files_def)

text \<open>
  C10. The descriptor system calls keep the reference counts of the file table exact.  In a state where
  every file counts at least the descriptors that the process has to it, \<open>close\<close>, \<open>dup\<close>, \<open>pipe\<close> and
  \<open>open\<close> do not run into the panics of the file table on any of their error paths, lead to such a state
  again, and leave for every file the number of references that are not descriptors of the process
  (those of other processes) as it was: a count changes exactly with the descriptors.  \<open>open\<close> is given a
  free descriptor here; what happens without one is the subject of theory \<^verbatim>\<open>Kopen\<close>.  \<open>fork\<close> gives the
  child the same descriptors, and every file one more reference for each of them.  The reference
  counts of inodes are not part of this state.
\<close>

theorem descriptor_calls_safe:
  assumes "fd_inv st" and "look_ok look"
  shows "(\<exists>r st'. sys_close fd st = Some (r, st') \<and> fd_inv st' \<and> foreign st' = foreign st) \<and>
    (\<exists>r st'. sys_dup fd st = Some (r, st') \<and> fd_inv st' \<and> foreign st' = foreign st) \<and>
    (\<exists>r st'. sys_pipe fresh st = Some (r, st') \<and> fd_inv st' \<and> foreign st' = foreign st) \<and>
    (None \<in> set (openFiles st) \<longrightarrow>
      (\<exists>r st'. sys_open look path mode st = Some (r, st') \<and> fd_inv st' \<and> foreign st' = foreign st)) \<and>
    (\<exists>child. sys_fork_files st = Some child \<and> fd_inv child \<and> openFiles child = openFiles st \<and>
      (\<forall>i. reference_count (files child ! i) = reference_count (files st ! i) + refs st i))"
proof (intro conjI impI)
  show "\<exists>r st'. sys_close fd st = Some (r, st') \<and> fd_inv st' \<and> foreign st' = foreign st"
    using assms(1) sys_close_bad [of fd st] sys_close_inv [OF assms(1)] by (cases "getFile fd st") blast+
  show "\<exists>r st'. sys_dup fd st = Some (r, st') \<and> fd_inv st' \<and> foreign st' = foreign st"
  proof (cases "getFile fd st")
    case (Some i)
    then show ?thesis
      using assms(1) sys_dup_ok [OF assms(1) Some] by (cases "fileDescriptorAllocate i st") (auto simp: sys_dup_def)
  qed (use assms(1) in \<open>simp add: sys_dup_def\<close>)
  show "\<exists>r st'. sys_pipe fresh st = Some (r, st') \<and> fd_inv st' \<and> foreign st' = foreign st"
    using sys_pipe_inv [OF assms(1)] by blast
  show "\<exists>r st'. sys_open look path mode st = Some (r, st') \<and> fd_inv st' \<and> foreign st' = foreign st"
    if "None \<in> set (openFiles st)"
    using sys_open_cases [OF assms, of path mode] that by blast
  show "\<exists>child. sys_fork_files st = Some child \<and> fd_inv child \<and> openFiles child = openFiles st \<and>
      (\<forall>i. reference_count (files child ! i) = reference_count (files st ! i) + refs st i)"
    using fork_files_inv [OF assms(1) descriptors_live [OF assms(1)]] by (auto simp: sys_fork_files_def refs_def)
qed

text \<open>A process with the console on its first three descriptors, for the witnesses.\<close>

definition desc_state :: kstate where
  "desc_state = \<lparr>openFiles = [Some 0, Some 0, Some 0] @ replicate 13 None,
     files = \<lparr>reference_count = 3, is_readable = True, is_writeable = True, f_data = FDevice 1 console_major\<rparr> #
       replicate 99 \<lparr>reference_count = 0, is_readable = False, is_writeable = False, f_data = FNone\<rparr>,
     pipes = (\<lambda>_. pipe_alloc (replicate 512 NUL)), inodes = (\<lambda>_. \<lparr>i_size = 0, i_block = (\<lambda>_. replicate 1024 NUL)\<rparr>),
     console_out = [], console_in = []\<rparr>"

lemma desc_state_inv: "fd_inv desc_state"
proof -
  have "count_list (replicate n None) (Some i) = 0" for n and i :: nat by (simp add: count_list_0_iff)
  then have "refs desc_state i = (if i = 0 then 3 else 0)" for i
    by (simp add: refs_def desc_state_def)
  then show ?thesis by (auto simp: fd_inv_def desc_state_def NOFILE_def split: if_splits)
qed

definition no_files :: lookup where "no_files p c st = (None, st)"

theorem descriptor_calls_safe_witness:
  "(\<exists>r st'. sys_dup 1 desc_state = Some (r, st') \<and> fd_inv st' \<and> foreign st' = foreign desc_state) \<and>
   (\<exists>r st'. sys_open no_files ''x'' 0 desc_state = Some (r, st') \<and> fd_inv st') \<and>
   (\<exists>child. sys_fork_files desc_state = Some child \<and> reference_count (files child ! 0) = 6)"
proof -
  have "None \<in> set (openFiles desc_state)" "look_ok no_files" "refs desc_state 0 = 3" "reference_count (files desc_state ! 0) = 3"
    by (simp_all add: desc_state_def look_ok_def no_files_def refs_def)
  with descriptor_calls_safe [OF desc_state_inv, of no_files 1 "\<lambda>_. None" "''x''" 0] show ?thesis by auto
qed

end
