(* ===== verification/Grind.thy ===== *)
theory Grind
  imports Stdio Kdesc
begin

text \<open>
  \<^verbatim>\<open>src/user/grind.c\<close>: random system calls in parallel.  The random number generator works on 64-bit
  integers, of which only small ones occur; \<open>go\<close> is one program per value of \<open>what\<close>, run in a loop
  with a bound on its rounds.  The state of the loop is the descriptor \<open>fd\<close> and the static buffer.
\<close>

subsection \<open>Random numbers\<close>

definition do_rand :: "uint64 \<Rightarrow> int \<times> uint64" where
  "do_rand ctx =
     (let x = uint (ctx mod 0x7ffffffe) + 1;
          hi = x div 127773;
          lo = x mod 127773;
          x = 16807 * lo - 2836 * hi;
          x = (if x < 0 then x + 0x7fffffff else x);
          x = x - 1
      in (x, word_of_int x))"

definition rand :: "uint64 \<Rightarrow> int \<times> uint64" where
  "rand rand_next = do_rand rand_next"

subsection \<open>The system calls\<close>

type_synonym go_state = "int \<times> mem"

text \<open>\<open>printf(msg); exit(n);\<close>\<close>

definition quit :: "(uint64 \<Rightarrow> string) \<Rightarrow> string \<Rightarrow> int \<Rightarrow> 'a prog" where
  "quit fmtp msg n = pbind (printf fmtp msg []) (\<lambda>_. Exit n)"

definition quit2 :: "string \<Rightarrow> int \<Rightarrow> 'a prog" where
  "quit2 msg n = pbind (fprintf 2 msg []) (\<lambda>_. Exit n)"

definition fork_wait :: "(uint64 \<Rightarrow> string) \<Rightarrow> 'a prog \<Rightarrow> (int \<Rightarrow> 'a prog) \<Rightarrow> 'a prog" where
  "fork_wait fmtp child parent =
     Call Fork (\<lambda>pid.
       if pid = 0 then child
       else if pid < 0 then quit fmtp ''grind: fork failed\<newline>'' 1
       else parent pid)"

definition open_close :: "string \<Rightarrow> 'a prog \<Rightarrow> 'a prog" where
  "open_close f p = Call (Open f (O_CREATE + O_RDWR)) (\<lambda>fd. do_call (Close fd) p)"

definition wait_any :: "'a prog \<Rightarrow> 'a prog" where
  "wait_any p = Wait (\<lambda>_. p)"

text \<open>\<open>what\<close> 22: the children of the pipeline \<open>echo hi | cat\<close> and the parent.\<close>

definition echo_child :: "int \<times> int \<Rightarrow> int \<times> int \<Rightarrow> 'a prog" where
  "echo_child aa bb =
     do_call (Close (fst bb)) (do_call (Close (snd bb)) (do_call (Close (fst aa)) (do_call (Close 1) (
     Call (Dup (snd aa)) (\<lambda>r.
       if r \<noteq> 1 then quit2 ''grind: dup failed\<newline>'' 1
       else do_call (Close (snd aa)) (do_call (Exec ''grindir/../echo'' [''echo'', ''hi''])
         (quit2 ''grind: echo: not found\<newline>'' 2)))))))"

definition cat_child :: "int \<times> int \<Rightarrow> int \<times> int \<Rightarrow> 'a prog" where
  "cat_child aa bb =
     do_call (Close (snd aa)) (do_call (Close (fst bb)) (do_call (Close 0) (
     Call (Dup (fst aa)) (\<lambda>r.
       if r \<noteq> 0 then quit2 ''grind: dup failed\<newline>'' 4
       else do_call (Close (fst aa)) (do_call (Close 1) (
         Call (Dup (snd bb)) (\<lambda>r.
           if r \<noteq> 1 then quit2 ''grind: dup failed\<newline>'' 5
           else do_call (Close (snd bb)) (do_call (Exec ''/cat'' [''cat''])
             (quit2 ''grind: cat: not found\<newline>'' 6)))))))))"

definition read_1 :: "int \<Rightarrow> nat \<Rightarrow> mem \<Rightarrow> (mem \<Rightarrow> 'a prog) \<Rightarrow> 'a prog" where
  "read_1 fd i buf k = Read fd 1 (\<lambda>r. k (case r of None \<Rightarrow> buf | Some bs \<Rightarrow> overlay buf i bs))"

definition hi_parent :: "(uint64 \<Rightarrow> string) \<Rightarrow> int \<times> int \<Rightarrow> int \<times> int \<Rightarrow> 'a \<Rightarrow> 'a prog" where
  "hi_parent fmtp aa bb s =
     do_call (Close (fst aa)) (do_call (Close (snd aa)) (do_call (Close (snd bb)) (
     read_1 (fst bb) 0 (replicate 4 NUL) (\<lambda>buf.
     read_1 (fst bb) 1 buf (\<lambda>buf.
     read_1 (fst bb) 2 buf (\<lambda>buf.
     do_call (Close (fst bb)) (
     Wait (\<lambda>(_, st1).
     Wait (\<lambda>(_, st2).
       case strcmp (buf @ [CHR ''h'', CHR ''i'', LF, NUL]) 0 4 of
         None \<Rightarrow> Crash
       | Some d \<Rightarrow>
           if st1 \<noteq> 0 \<or> st2 \<noteq> 0 \<or> d \<noteq> 0 then
             pbind (printf fmtp ''grind: exec pipeline failed %d %d \"%s\"\<newline>''
                 [VNum (word_of_int st1), VNum (word_of_int st2), VStr (string_at buf 0)])
               (\<lambda>_. Exit 1)
           else Ret s)))))))))"

definition go_pipeline :: "(uint64 \<Rightarrow> string) \<Rightarrow> 'a \<Rightarrow> 'a prog" where
  "go_pipeline fmtp s =
     Pipe (\<lambda>r. case r of
         None \<Rightarrow> quit2 ''grind: pipe failed\<newline>'' 1
       | Some aa \<Rightarrow> Pipe (\<lambda>r. case r of
             None \<Rightarrow> quit2 ''grind: pipe failed\<newline>'' 1
           | Some bb \<Rightarrow>
               Call Fork (\<lambda>pid1.
                 if pid1 = 0 then echo_child aa bb
                 else if pid1 < 0 then quit2 ''grind: fork failed\<newline>'' 3
                 else Call Fork (\<lambda>pid2.
                   if pid2 = 0 then cat_child aa bb
                   else if pid2 < 0 then quit2 ''grind: fork failed\<newline>'' 7
                   else hi_parent fmtp aa bb s))))"

text \<open>\<open>what\<close> 21: a new file gets an inode, a descriptor and a block.\<close>

definition go_create :: "(uint64 \<Rightarrow> string) \<Rightarrow> 'a \<Rightarrow> 'a prog" where
  "go_create fmtp s =
     do_call (Unlink ''c'') (
     Call (Open ''c'' (O_CREATE + O_RDWR)) (\<lambda>fd1.
       if fd1 < 0 then quit fmtp ''grind: create c failed\<newline>'' 1
       else Call (Write fd1 ''x'') (\<lambda>n.
         if n \<noteq> 1 then quit fmtp ''grind: write c failed\<newline>'' 1
         else Fstat fd1 (\<lambda>r. case r of
             None \<Rightarrow> quit fmtp ''grind: fstat failed\<newline>'' 1
           | Some st \<Rightarrow>
               if st_size st \<noteq> 1 then
                 pbind (printf fmtp ''grind: fstat reports wrong size %d\<newline>'' [VNum (ucast (ucast (st_size st) :: uint))])
                   (\<lambda>_. Exit 1)
               else if st_ino st > 200 then
                 pbind (printf fmtp ''grind: fstat reports crazy i-number %d\<newline>'' [VNum (ucast (st_ino st))])
                   (\<lambda>_. Exit 1)
               else do_call (Close fd1) (do_call (Unlink ''c'') (Ret s))))))"

text \<open>\<open>what\<close> 19: a pipe shared by four processes.\<close>

definition pipe_child_rw :: "(uint64 \<Rightarrow> string) \<Rightarrow> int \<times> int \<Rightarrow> 'a prog" where
  "pipe_child_rw fmtp fds =
     do_call Fork (do_call Fork (
     Call (Write (snd fds) ''x'') (\<lambda>n.
     pbind (if n \<noteq> 1 then printf fmtp ''grind: pipe write failed\<newline>'' [] else Ret ()) (\<lambda>_.
     Read (fst fds) 1 (\<lambda>r.
     pbind (if map_option length r \<noteq> Some 1 then printf fmtp ''grind: pipe read failed\<newline>'' [] else Ret ()) (\<lambda>_.
     Exit 0))))))"

definition go_pipe :: "(uint64 \<Rightarrow> string) \<Rightarrow> 'a \<Rightarrow> 'a prog" where
  "go_pipe fmtp s =
     Pipe (\<lambda>r. case r of
         None \<Rightarrow> quit fmtp ''grind: pipe failed\<newline>'' 1
       | Some fds \<Rightarrow>
           fork_wait fmtp (pipe_child_rw fmtp fds) (\<lambda>_.
             do_call (Close (fst fds)) (do_call (Close (snd fds)) (wait_any (Ret s)))))"

text \<open>The argument of \<open>sbrk\<close> is an \<open>int\<close>, its result a pointer.\<close>

definition go_shrink :: "int \<Rightarrow> 'a \<Rightarrow> 'a prog" where
  "go_shrink break0 s =
     Call (Sbrk 0) (\<lambda>b.
       if (word_of_int b :: uint64) > word_of_int break0 then
         Call (Sbrk 0) (\<lambda>b'. do_call (Sbrk (sint (word_of_int (- (b' - break0)) :: uint))) (Ret s))
       else Ret s)"

definition go_kill :: "(uint64 \<Rightarrow> string) \<Rightarrow> 'a \<Rightarrow> 'a prog" where
  "go_kill fmtp s =
     fork_wait fmtp (open_close ''a'' (Exit 0)) (\<lambda>pid.
       Call (Chdir ''../grindir/..'') (\<lambda>r.
         if r \<noteq> 0 then quit fmtp ''grind: chdir failed\<newline>'' 1
         else do_call (Kill pid) (wait_any (Ret s))))"

definition go_removed_dir :: "(uint64 \<Rightarrow> string) \<Rightarrow> 'a \<Rightarrow> 'a prog" where
  "go_removed_dir fmtp s =
     fork_wait fmtp
       (do_call (Unlink ''a'') (do_call (Mkdir ''a'') (do_call (Chdir ''a'') (do_call (Unlink ''../a'') (
        do_call (Open ''x'' (O_CREATE + O_RDWR)) (do_call (Unlink ''x'') (Exit 0)))))))
       (\<lambda>_. wait_any (Ret s))"

text \<open>\<open>what\<close> from 13 on: processes.\<close>

definition go_processes :: "(uint64 \<Rightarrow> string) \<Rightarrow> int \<Rightarrow> int \<Rightarrow> go_state \<Rightarrow> go_state prog" where
  "go_processes fmtp break0 what s =
     (if what = 13 then fork_wait fmtp (Exit 0) (\<lambda>_. wait_any (Ret s))
      else if what = 14 then fork_wait fmtp (do_call Fork (do_call Fork (Exit 0))) (\<lambda>_. wait_any (Ret s))
      else if what = 15 then do_call (Sbrk 6011) (Ret s)
      else if what = 16 then go_shrink break0 s
      else if what = 17 then go_kill fmtp s
      else if what = 18 then
        fork_wait fmtp (Call Getpid (\<lambda>pid. do_call (Kill pid) (Exit 0))) (\<lambda>_. wait_any (Ret s))
      else if what = 19 then go_pipe fmtp s
      else if what = 20 then go_removed_dir fmtp s
      else if what = 21 then go_create fmtp s
      else if what = 22 then go_pipeline fmtp s
      else Ret s)"

text \<open>The whole chain of \<open>what\<close>, with its first part, files and directories.\<close>

definition go_step :: "(uint64 \<Rightarrow> string) \<Rightarrow> int \<Rightarrow> int \<Rightarrow> go_state \<Rightarrow> go_state prog" where
  "go_step fmtp break0 what s =
     (let (fd, buf) = s
      in if what = 1 then open_close ''grindir/../a'' (Ret s)
      else if what = 2 then open_close ''grindir/../grindir/../b'' (Ret s)
      else if what = 3 then do_call (Unlink ''grindir/../a'') (Ret s)
      else if what = 4 then
        Call (Chdir ''grindir'') (\<lambda>r.
          if r \<noteq> 0 then quit fmtp ''grind: chdir grindir failed\<newline>'' 1
          else do_call (Unlink ''../b'') (do_call (Chdir ''/'') (Ret s)))
      else if what = 5 then
        do_call (Close fd) (Call (Open ''/grindir/../a'' (O_CREATE + O_RDWR)) (\<lambda>fd. Ret (fd, buf)))
      else if what = 6 then
        do_call (Close fd) (Call (Open ''/./grindir/./../b'' (O_CREATE + O_RDWR)) (\<lambda>fd. Ret (fd, buf)))
      else if what = 7 then do_call (Write fd buf) (Ret s)
      else if what = 8 then
        Read fd 999 (\<lambda>r. Ret (fd, case r of None \<Rightarrow> buf | Some bs \<Rightarrow> overlay buf 0 bs))
      else if what = 9 then
        do_call (Mkdir ''grindir/../a'') (open_close ''a/../a/./a'' (do_call (Unlink ''a/a'') (Ret s)))
      else if what = 10 then
        do_call (Mkdir ''/../b'') (open_close ''grindir/../b/b'' (do_call (Unlink ''b/b'') (Ret s)))
      else if what = 11 then do_call (Unlink ''b'') (do_call (Link ''../grindir/./../a'' ''../b'') (Ret s))
      else if what = 12 then do_call (Unlink ''../grindir/../a'') (do_call (Link ''.././b'' ''/grindir/../a'') (Ret s))
      else go_processes fmtp break0 what s)"

fun go_loop :: "(uint64 \<Rightarrow> string) \<Rightarrow> bool \<Rightarrow> int \<Rightarrow> nat \<Rightarrow> uint64 \<Rightarrow> uint64 \<Rightarrow> go_state \<Rightarrow> 'a prog" where
  "go_loop fmtp which_child break0 0 iters rand_next s = OutOfFuel"
| "go_loop fmtp which_child break0 (Suc fuel) iters rand_next s =
     (let iters = iters + 1
      in pbind (if iters mod 500 = 0 then do_call (Write 1 (if which_child then ''B'' else ''A'')) (Ret ()) else Ret ()) (\<lambda>_.
         let (r, rand_next) = rand rand_next
         in pbind (go_step fmtp break0 (r mod 23) s) (go_loop fmtp which_child break0 fuel iters rand_next)))"

definition go :: "(uint64 \<Rightarrow> string) \<Rightarrow> nat \<Rightarrow> bool \<Rightarrow> uint64 \<Rightarrow> 'a prog" where
  "go fmtp fuel which_child rand_next =
     Call (Sbrk 0) (\<lambda>break0.
     do_call (Mkdir ''grindir'') (
     Call (Chdir ''grindir'') (\<lambda>r.
       if r \<noteq> 0 then quit fmtp ''grind: chdir grindir failed\<newline>'' 1
       else do_call (Chdir ''/'') (
         go_loop fmtp which_child break0 fuel 0 rand_next (- 1, replicate 999 NUL)))))"

definition iter :: "(uint64 \<Rightarrow> string) \<Rightarrow> nat \<Rightarrow> uint64 \<Rightarrow> 'a prog" where
  "iter fmtp fuel rand_next =
     do_call (Unlink ''a'') (do_call (Unlink ''b'') (
     Call Fork (\<lambda>pid1.
       if pid1 < 0 then quit fmtp ''grind: fork failed\<newline>'' 1
       else if pid1 = 0 then pbind (go fmtp fuel False (rand_next XOR 31) :: unit prog) (\<lambda>_. Exit 0)
       else Call Fork (\<lambda>pid2.
         if pid2 < 0 then quit fmtp ''grind: fork failed\<newline>'' 1
         else if pid2 = 0 then pbind (go fmtp fuel True (rand_next XOR 7177) :: unit prog) (\<lambda>_. Exit 0)
         else Wait (\<lambda>(pid, status).
           let st1 = (if pid < 0 then - 1 else status)
           in if st1 \<noteq> 0 then do_call (Kill pid1) (do_call (Kill pid2) (wait_any (Exit 0)))
              else wait_any (Exit 0))))))"

fun grind_main :: "(uint64 \<Rightarrow> string) \<Rightarrow> nat \<Rightarrow> nat \<Rightarrow> uint64 \<Rightarrow> 'a prog" where
  "grind_main fmtp rounds 0 rand_next = OutOfFuel"
| "grind_main fmtp rounds (Suc fuel) rand_next =
     Call Fork (\<lambda>pid.
       if pid = 0 then iter fmtp rounds rand_next
       else let rest = do_call (Sleep 20) (grind_main fmtp rounds fuel (rand_next + 1))
            in if pid > 0 then wait_any rest else rest)"

subsection \<open>The generator\<close>

text \<open>Schrage's way of multiplying modulo 2 ^ 31 - 1 without large intermediate results.\<close>

lemma schrage:
  fixes x :: int
  assumes "1 \<le> x" and "x \<le> 2147483646"
  defines "t \<equiv> 16807 * (x mod 127773) - 2836 * (x div 127773)"
  shows "(if t < 0 then t + 2147483647 else t) = 16807 * x mod 2147483647"
    and "0 < (if t < 0 then t + 2147483647 else t)"
proof -
  let ?m = "2147483647 :: int"
  have d: "x = 127773 * (x div 127773) + x mod 127773" by simp
  have b: "0 \<le> x mod 127773" "x mod 127773 \<le> 127772" "0 \<le> x div 127773" "x div 127773 \<le> 16807"
    using assms(1,2) by (simp_all add: zdiv_mono1 [of x 2147483646 127773, simplified])
  have eq: "16807 * x = t + x div 127773 * ?m" unfolding t_def using d by linarith
  have t: "- ?m < t" "t < ?m" unfolding t_def using b by linarith+
  have nz: "t \<noteq> 0"
  proof
    assume "t = 0"
    then have "16807 * x = x div 127773 * ?m" using eq by simp
    then have "?m dvd 16807 * x" by simp
    moreover have "coprime ?m 16807" by (simp add: coprime_iff_gcd_eq_1 gcd_non_0_int)
    ultimately have "?m dvd x" using coprime_dvd_mult_right_iff by blast
    with assms(1,2) show False using zdvd_imp_le [of ?m x] by simp
  qed
  have "16807 * x mod ?m = t mod ?m" using eq by simp
  also have "t mod ?m = (if t < 0 then t + ?m else t)"
  proof (cases "t < 0")
    case True
    have "t mod ?m = (t + ?m) mod ?m" by simp
    also have "\<dots> = t + ?m" using True t by (intro mod_pos_pos_trivial) simp_all
    finally show ?thesis using True by simp
  qed (use t in simp)
  finally show "(if t < 0 then t + ?m else t) = 16807 * x mod ?m" by simp
  show "0 < (if t < 0 then t + ?m else t)" using nz t by auto
qed

definition minimal_standard :: "int \<Rightarrow> int" where
  "minimal_standard x = 16807 * x mod (2 ^ 31 - 1)"

lemma do_rand_value:
  assumes "x = uint (ctx mod 0x7ffffffe) + 1"
  shows "do_rand ctx = (minimal_standard x - 1, word_of_int (minimal_standard x - 1))"
    and "1 \<le> minimal_standard x" and "minimal_standard x \<le> 2147483646"
proof -
  have "uint (ctx mod 0x7ffffffe) = uint ctx mod 2147483646" by (simp add: uint_mod)
  then have x: "1 \<le> x" "x \<le> 2147483646"
    using assms pos_mod_bound [of 2147483646 "uint ctx"] by auto
  note s = schrage [OF x]
  have "minimal_standard x < 2147483647" by (simp add: minimal_standard_def)
  then show "minimal_standard x \<le> 2147483646" by simp
  show "1 \<le> minimal_standard x" using s by (simp add: minimal_standard_def)
  show "do_rand ctx = (minimal_standard x - 1, word_of_int (minimal_standard x - 1))"
    unfolding do_rand_def Let_def assms [symmetric] using s(1) by (simp add: minimal_standard_def)
qed

text \<open>The inverse of 16807 modulo 2 ^ 31 - 1.\<close>

lemma minimal_standard_inj:
  assumes "0 \<le> x" "x < 2147483647" "0 \<le> y" "y < 2147483647" and eq: "minimal_standard x = minimal_standard y"
  shows "x = y"
proof -
  have inv: "1407677000 * (16807 * z mod 2147483647) mod 2147483647 = z" if "0 \<le> z" "z < 2147483647" for z :: int
  proof -
    have "1407677000 * (16807 * z mod 2147483647) mod 2147483647 = 1407677000 * (16807 * z) mod 2147483647"
      by (rule mod_mult_right_eq)
    also have "1407677000 * (16807 * z) = z + 2147483647 * (11017 * z)" by linarith
    also have "\<dots> mod 2147483647 = z mod 2147483647" by (rule mod_mult_self2)
    finally show ?thesis using that by simp
  qed
  from eq have "1407677000 * (16807 * x mod 2147483647) mod 2147483647 = 1407677000 * (16807 * y mod 2147483647) mod 2147483647"
    by (simp add: minimal_standard_def)
  with inv assms show ?thesis by simp
qed

lemma uint_of_small: "0 \<le> v \<Longrightarrow> v < 2 ^ 32 \<Longrightarrow> uint (word_of_int v :: uint64) = v"
  by (simp add: uint_word_of_int)

lemma do_rand_range: "0 \<le> fst (do_rand ctx) \<and> fst (do_rand ctx) \<le> 2147483645 \<and> uint (snd (do_rand ctx)) = fst (do_rand ctx)"
proof -
  note v = do_rand_value [OF refl, of ctx]
  have "uint (word_of_int (minimal_standard (uint (ctx mod 0x7ffffffe) + 1) - 1) :: uint64) =
      minimal_standard (uint (ctx mod 0x7ffffffe) + 1) - 1"
    using v(2,3) by (intro uint_of_small) simp_all
  with v show ?thesis by simp
qed

subsection \<open>The pipeline\<close>

abbreviation grind_kernel :: "(nat \<Rightarrow> bool) \<Rightarrow> bool \<Rightarrow> (kstate \<Rightarrow> (nat \<times> byte list) option) \<Rightarrow> kstate kernel" where
  "grind_kernel gb killed fresh \<equiv> fd_kernel gb killed fresh idle_kernel"

lemma grind_exec_blocks [simp]: "k_call (grind_kernel gb killed fresh) (Exec f argv) st = None"
  by (simp add: fd_kernel_def idle_kernel_def)

text \<open>A step in terms of natural-number descriptors and the descriptor table.\<close>

lemma close_table:
  assumes "fd_inv st" and "openFiles st = fs" and "p < NOFILE" and "fs ! p = Some x"
  shows "\<exists>st'. sys_close (int p) st = Some (0, st') \<and> fd_inv st' \<and> openFiles st' = fs[p := None]"
  using close_step [OF assms(1), of "int p" x] assms by simp

lemma dup_table:
  assumes "fd_inv st" and "openFiles st = fs" and "p < NOFILE" and "fs ! p = Some w"
    and "n < NOFILE" and "fs ! n = None" and "\<forall>j < n. fs ! j \<noteq> None"
  shows "\<exists>st'. sys_dup (int p) st = Some (int n, st') \<and> fd_inv st' \<and> openFiles st' = fs[n := Some w]"
  using dup_step [OF assms(1), of "int p" w n] assms by simp

lemma echo_child_runs:
  assumes inv: "fd_inv st" and fs: "openFiles st = fs" and d: "distinct [a0, a1, b0, b1]"
    and lt: "\<forall>p \<in> {a0, a1, b0, b1}. 2 < p \<and> p < NOFILE"
    and f: "fs ! a0 = Some r" "fs ! a1 = Some w" "fs ! b0 = Some r'" "fs ! b1 = Some w'" "fs ! 0 = Some x" "fs ! 1 = Some y"
  shows "\<exists>st'. run (grind_kernel gb killed fresh) (echo_child (int a0, int a1) (int b0, int b1) :: 'a prog) st = (Blocked, st') \<and>
    openFiles st' = fs[b0 := None, b1 := None, a0 := None, 1 := Some w, a1 := None]"
proof -
  have len: "length fs = NOFILE" using inv fs by (simp add: fd_inv_def)
  have n1: "1 < NOFILE" by (simp add: NOFILE_def)
  note up = nth_list_update len
  from close_table [OF inv fs, of b0] lt f obtain s1 where
    s1: "sys_close (int b0) st = Some (0, s1)" "fd_inv s1" "openFiles s1 = fs[b0 := None]" by auto
  from close_table [OF s1(2,3), of b1] lt f d obtain s2 where
    s2: "sys_close (int b1) s1 = Some (0, s2)" "fd_inv s2" "openFiles s2 = fs[b0 := None, b1 := None]" by (auto simp: up)
  from close_table [OF s2(2,3), of a0] lt f d obtain s3 where
    s3: "sys_close (int a0) s2 = Some (0, s3)" "fd_inv s3" "openFiles s3 = fs[b0 := None, b1 := None, a0 := None]" by (auto simp: up)
  from close_table [OF s3(2,3), of 1] lt f d n1 obtain s4 where
    s4: "sys_close 1 s3 = Some (0, s4)" "fd_inv s4" "openFiles s4 = fs[b0 := None, b1 := None, a0 := None, 1 := None]"
    by (auto simp: up)
  from dup_table [OF s4(2,3), of a1 w 1] lt f d n1 obtain s5 where
    s5: "sys_dup (int a1) s4 = Some (1, s5)" "fd_inv s5"
      "openFiles s5 = fs[b0 := None, b1 := None, a0 := None, 1 := Some w]"
    by (auto simp: up)
  from close_table [OF s5(2,3), of a1] lt f d obtain s6 where
    s6: "sys_close (int a1) s5 = Some (0, s6)"
      "openFiles s6 = fs[b0 := None, b1 := None, a0 := None, 1 := Some w, a1 := None]"
    by (auto simp: up)
  show ?thesis using s1 s2 s3 s4 s5 s6 by (simp add: echo_child_def)
qed

lemma cat_child_runs:
  assumes inv: "fd_inv st" and fs: "openFiles st = fs" and d: "distinct [a0, a1, b0, b1]"
    and lt: "\<forall>p \<in> {a0, a1, b0, b1}. 2 < p \<and> p < NOFILE"
    and f: "fs ! a0 = Some r" "fs ! a1 = Some w" "fs ! b0 = Some r'" "fs ! b1 = Some w'" "fs ! 0 = Some x" "fs ! 1 = Some y"
  shows "\<exists>st'. run (grind_kernel gb killed fresh) (cat_child (int a0, int a1) (int b0, int b1) :: 'a prog) st = (Blocked, st') \<and>
    openFiles st' = fs[a1 := None, b0 := None, 0 := Some r, a0 := None, 1 := Some w', b1 := None]"
proof -
  have len: "length fs = NOFILE" using inv fs by (simp add: fd_inv_def)
  have n1: "0 < NOFILE" "1 < NOFILE" by (simp_all add: NOFILE_def)
  note up = nth_list_update len
  from close_table [OF inv fs, of a1] lt f obtain s1 where
    s1: "sys_close (int a1) st = Some (0, s1)" "fd_inv s1" "openFiles s1 = fs[a1 := None]" by auto
  from close_table [OF s1(2,3), of b0] lt f d obtain s2 where
    s2: "sys_close (int b0) s1 = Some (0, s2)" "fd_inv s2" "openFiles s2 = fs[a1 := None, b0 := None]" by (auto simp: up)
  from close_table [OF s2(2,3), of 0] lt f d n1 obtain s3 where
    s3: "sys_close 0 s2 = Some (0, s3)" "fd_inv s3" "openFiles s3 = fs[a1 := None, b0 := None, 0 := None]" by (auto simp: up)
  from dup_table [OF s3(2,3), of a0 r 0] lt f d n1 obtain s4 where
    s4: "sys_dup (int a0) s3 = Some (0, s4)" "fd_inv s4" "openFiles s4 = fs[a1 := None, b0 := None, 0 := Some r]"
    by (auto simp: up)
  from close_table [OF s4(2,3), of a0] lt f d obtain s5 where
    s5: "sys_close (int a0) s4 = Some (0, s5)" "fd_inv s5" "openFiles s5 = fs[a1 := None, b0 := None, 0 := Some r, a0 := None]"
    by (auto simp: up)
  from close_table [OF s5(2,3), of 1] lt f d n1 obtain s6 where
    s6: "sys_close 1 s5 = Some (0, s6)" "fd_inv s6"
      "openFiles s6 = fs[a1 := None, b0 := None, 0 := Some r, a0 := None, 1 := None]" by (auto simp: up)
  from dup_table [OF s6(2,3), of b1 w' 1] lt f d n1 obtain s7 where
    s7: "sys_dup (int b1) s6 = Some (1, s7)" "fd_inv s7"
      "openFiles s7 = fs[a1 := None, b0 := None, 0 := Some r, a0 := None, 1 := Some w']"
    by (auto simp: up)
  from close_table [OF s7(2,3), of b1] lt f d obtain s8 where
    s8: "sys_close (int b1) s7 = Some (0, s8)"
      "openFiles s8 = fs[a1 := None, b0 := None, 0 := Some r, a0 := None, 1 := Some w', b1 := None]"
    by (auto simp: up)
  show ?thesis using s1 s2 s3 s4 s5 s6 s7 s8 by (simp add: cat_child_def)
qed

subsection \<open>No faults\<close>

lemma yields_quit: "msg \<noteq> [] \<Longrightarrow> zfmt_text fmtp msg [] \<noteq> None \<Longrightarrow> yields (quit fmtp msg n) P"
  by (simp add: quit_def yields_then yields_printf)

lemma yields_quit2: "fmt_text msg [] \<noteq> None \<Longrightarrow> yields (quit2 msg n) P"
  by (simp add: quit2_def yields_then yields_fprintf)

lemma yields_fork_wait: "yields child P \<Longrightarrow> (\<And>pid. yields (parent pid) P) \<Longrightarrow> yields (fork_wait fmtp child parent) P"
  by (simp add: fork_wait_def yields_quit)

lemma yields_wait_any: "yields p P \<Longrightarrow> yields (wait_any p) P"
  by (simp add: wait_any_def)

lemma yields_open_close: "yields p P \<Longrightarrow> yields (open_close f p) P"
  by (simp add: open_close_def)

lemmas yields_intros = yields_quit yields_quit2 yields_fork_wait yields_wait_any yields_open_close yields_then
  yields_printf

lemma yields_read_1:
  assumes "\<And>buf'. length buf' = length buf \<Longrightarrow> (\<forall>j. j \<noteq> i \<longrightarrow> buf' ! j = buf ! j) \<Longrightarrow> yields (k buf') P" and "i < length buf"
  shows "yields (read_1 fd i buf k) P"
proof -
  have "yields (k (overlay buf i bs)) P" if "length bs \<le> 1" for bs
  proof (rule assms(1))
    show "length (overlay buf i bs) = length buf" using that assms(2) by simp
    show "\<forall>j. j \<noteq> i \<longrightarrow> overlay buf i bs ! j = buf ! j"
    proof (intro allI impI)
      fix j assume "j \<noteq> i"
      with that assms(2) show "overlay buf i bs ! j = buf ! j"
        by (cases "j < length buf") (auto simp: nth_overlay, auto simp: overlay_def nth_append)
    qed
  qed
  with assms(1) [of buf] show ?thesis by (simp add: read_1_def split: option.split)
qed

lemma yields_hi_parent: "yields (hi_parent fmtp aa bb s) (\<lambda>_. True)"
proof -
  have tail: "yields (case strcmp (buf @ [CHR ''h'', CHR ''i'', LF, NUL]) 0 4 of
         None \<Rightarrow> Crash
       | Some d \<Rightarrow>
           if st1 \<noteq> 0 \<or> st2 \<noteq> 0 \<or> d \<noteq> 0 then
             pbind (printf fmtp ''grind: exec pipeline failed %d %d \"%s\"\<newline>''
                 [VNum (word_of_int st1), VNum (word_of_int st2), VStr (string_at buf 0)])
               (\<lambda>_. Exit 1)
           else Ret s) (\<lambda>_. True)" if b: "length buf = 4" "buf ! 3 = NUL" for buf st1 st2
  proof -
    let ?m = "buf @ [CHR ''h'', CHR ''i'', LF, NUL]"
    have "cstring ?m 0 (string_at ?m 0)" using cstring_reach [of 0 3 ?m] b by (simp add: nth_append)
    moreover have "cstring ?m 4 ''hi\<newline>''" using b by (simp add: nth_append numeral_eq_Suc)
    ultimately obtain d where d: "strcmp ?m 0 4 = Some d" using strcmp_cstring by blast
    have "length (string_at buf 0) \<le> 3" using cstring_reach [of 0 3 buf] b by simp
    then have "zfmt_text fmtp ''grind: exec pipeline failed %d %d \"%s\"\<newline>''
        [VNum (word_of_int st1), VNum (word_of_int st2), VStr (string_at buf 0)] \<noteq> None"
      by (simp add: zconv_text_def zfit_def int_text_length [THEN order_trans])
    with d show ?thesis by (auto intro!: yields_intros)
  qed
  show ?thesis unfolding hi_parent_def
    by (simp only: yields.simps, intro allI impI yields_read_1, simp_all only: yields.simps case_prod_beta, intro allI impI tail)
      simp_all
qed

lemma yields_go_pipeline: "yields (go_pipeline fmtp s) (\<lambda>_. True)"
proof -
  have "yields (echo_child aa bb) (\<lambda>_. True)" "yields (cat_child aa bb) (\<lambda>_. True)" for aa bb
    by (simp_all add: echo_child_def cat_child_def yields_quit2)
  then show ?thesis by (auto simp: go_pipeline_def yields_quit2 intro: yields_hi_parent split: option.split)
qed

lemma yields_go_create: "yields (go_create fmtp s) (\<lambda>_. True)"
proof -
  have "zfmt_text fmtp ''grind: fstat reports wrong size %d\<newline>'' [VNum x] \<noteq> None"
    "zfmt_text fmtp ''grind: fstat reports crazy i-number %d\<newline>'' [VNum x] \<noteq> None" for x
    by (simp_all add: zconv_text_def)
  then show ?thesis by (auto simp: go_create_def intro!: yields_intros split: option.split)
qed

lemma yields_go_pipe: "yields (go_pipe fmtp s) (\<lambda>_. True)"
proof -
  have "yields (pipe_child_rw fmtp fds) (\<lambda>_. True)" for fds
    by (auto simp: pipe_child_rw_def intro!: yields_intros)
  then show ?thesis by (auto simp: go_pipe_def intro!: yields_intros split: option.split)
qed

lemma yields_go_processes: "yields (go_processes fmtp break0 what s) (\<lambda>_. True)"
proof -
  have "yields (go_kill fmtp s) (\<lambda>_. True)" "yields (go_removed_dir fmtp s) (\<lambda>_. True)" "yields (go_shrink break0 s) (\<lambda>_. True)"
    by (auto simp: go_kill_def go_removed_dir_def go_shrink_def intro!: yields_intros)
  then show ?thesis using yields_go_pipeline yields_go_create yields_go_pipe
    by (auto simp: go_processes_def intro!: yields_intros)
qed

lemma yields_go_step: "yields (go_step fmtp break0 what s) (\<lambda>_. True)"
proof -
  note p = yields_go_processes [of fmtp break0 what s]
  show ?thesis unfolding go_step_def Let_def case_prod_beta
    by (intro yields_if yields_open_close p) (simp_all (no_asm) add: yields_quit yields_open_close)
qed

lemma yields_go_loop: "yields (go_loop fmtp which_child break0 fuel iters rand_next s) (\<lambda>_. True)"
proof (induction fuel arbitrary: iters rand_next s)
  case (Suc fuel)
  show ?case unfolding go_loop.simps Let_def case_prod_beta
    by (intro yields_then yields_go_step Suc.IH) simp
qed simp

lemma yields_iter: "yields (iter fmtp fuel rand_next) (\<lambda>_. True)"
proof -
  have "yields (go fmtp fuel w r :: 'b prog) (\<lambda>_. True)" for w r
    by (simp add: go_def yields_quit yields_go_loop)
  then show ?thesis by (auto simp: iter_def Let_def intro!: yields_intros)
qed

lemma yields_grind_main: "yields (grind_main fmtp rounds fuel rand_next) (\<lambda>_. True)"
  by (induction fuel arbitrary: rand_next) (auto simp: Let_def yields_iter intro!: yields_wait_any)

subsection \<open>Properties\<close>

text \<open>
  \<open>do_rand\<close> computes the minimal standard generator, multiplication by 7^5 modulo 2^31 - 1, although
  no intermediate result exceeds 31 bits; the context it stores is the number it returns.
\<close>

lemma do_rand_minimal_standard:
  "fst (do_rand ctx) = 16807 * (uint ctx mod 0x7ffffffe + 1) mod (2 ^ 31 - 1) - 1 \<and>
   0 \<le> fst (do_rand ctx) \<and> fst (do_rand ctx) \<le> 0x7ffffffd \<and> uint (snd (do_rand ctx)) = fst (do_rand ctx)"
  using do_rand_range [of ctx] do_rand_value(1) [OF refl, of ctx] by (simp add: minimal_standard_def uint_mod)

text \<open>
  The generator permutes its contexts 0, ..., 2^31 - 3: no two of them have the same successor, so
  that \<open>rand\<close> never runs into a cycle that its start is not part of.
\<close>

lemma rand_permutes: "bij_betw (\<lambda>x. fst (rand (word_of_int x))) {0..0x7ffffffd} {0..0x7ffffffd}"
proof -
  let ?f = "\<lambda>x. fst (rand (word_of_int x))"
  have ctx: "uint ((word_of_int x :: uint64) mod 0x7ffffffe) = x" if "x \<in> {0..0x7ffffffd}" for x
    using that uint_of_small [of x] by (simp add: uint_mod)
  have "inj_on ?f {0..0x7ffffffd}"
  proof (rule inj_onI)
    fix x y :: int assume x: "x \<in> {0..0x7ffffffd}" and y: "y \<in> {0..0x7ffffffd}" and e: "?f x = ?f y"
    then have "minimal_standard (x + 1) = minimal_standard (y + 1)"
      using do_rand_value(1) [OF refl, of "word_of_int x"] do_rand_value(1) [OF refl, of "word_of_int y"]
      by (simp add: rand_def ctx)
    with x y minimal_standard_inj [of "x + 1" "y + 1"] show "x = y" by simp
  qed
  moreover have "?f ` {0..0x7ffffffd} \<subseteq> {0..0x7ffffffd}" using do_rand_range by (auto simp: rand_def)
  ultimately show ?thesis by (simp add: bij_betw_def endo_inj_surj)
qed

text \<open>
  The processes of \<open>echo hi | cat\<close> are wired as meant: in a process with descriptors 0, 1 and 2
  open, whatever descriptors the two pipes get, \<open>echo\<close> is executed with the first pipe's write end as its standard
  output and \<open>cat\<close> with that pipe's read end as standard input and the second pipe's write end as
  standard output, and neither keeps any other descriptor of the pipes, so that \<open>cat\<close> sees the end of its input.
\<close>

lemma grind_pipeline_wiring:
  assumes inv: "fd_inv st" and std: "\<forall>j < 3. openFiles st ! j \<noteq> None"
    and pipes: "sys_pipe fresh st = Some (Some (a0, a1), st1)" "sys_pipe fresh st1 = Some (Some (b0, b1), st2)"
  shows "\<exists>ra wa rb wb child echo cat.
    pipe_ends st1 ra wa \<and> pipe_ends st2 rb wb \<and> sys_fork_files st2 = Some child \<and>
    run (grind_kernel gb killed fresh) (echo_child (a0, a1) (b0, b1) :: unit prog) child = (Blocked, echo) \<and>
    openFiles echo = (openFiles st)[1 := Some wa] \<and>
    run (grind_kernel gb killed fresh) (cat_child (a0, a1) (b0, b1) :: unit prog) child = (Blocked, cat) \<and>
    openFiles cat = (openFiles st)[0 := Some ra, 1 := Some wb]"
proof -
  let ?fs = "openFiles st"
  have len: "length ?fs = NOFILE" using inv by (simp add: fd_inv_def)
  obtain ra wa where a: "0 \<le> a0" "a0 < a1" "a1 < int NOFILE" "?fs ! nat a0 = None" "?fs ! nat a1 = None"
    "openFiles st1 = ?fs[nat a0 := Some ra, nat a1 := Some wa]" "pipe_ends st1 ra wa" "fd_inv st1"
    using sys_pipe_inv [OF inv, of fresh] pipes(1) by auto
  obtain rb wb where b: "0 \<le> b0" "b0 < b1" "b1 < int NOFILE" "openFiles st1 ! nat b0 = None" "openFiles st1 ! nat b1 = None"
    "openFiles st2 = (openFiles st1)[nat b0 := Some rb, nat b1 := Some wb]" "pipe_ends st2 rb wb" "fd_inv st2"
    using sys_pipe_inv [OF a(8), of fresh] pipes(2) by auto
  define m n p q where "m = nat a0" and "n = nat a1" and "p = nat b0" and "q = nat b1"
  have i: "a0 = int m" "a1 = int n" "b0 = int p" "b1 = int q" using a b by (simp_all add: m_def n_def p_def q_def)
  have lt: "m < n" "n < NOFILE" "p < q" "q < NOFILE" using a(2,3) b(2,3) by (simp_all add: i)
  have fs1: "openFiles st1 = ?fs[m := Some ra, n := Some wa]" using a(6) by (simp add: i)
  have none: "?fs ! m = None" "?fs ! n = None" "openFiles st1 ! p = None" "openFiles st1 ! q = None" using a b by (simp_all add: i)
  then have d: "distinct [m, n, p, q]" and none': "?fs ! p = None" "?fs ! q = None"
    using lt len by (auto simp: fs1 nth_list_update split: if_splits)
  have three: "2 < j" if "?fs ! j = None" for j using std that by (metis not_less less_Suc_eq_le numeral_2_eq_2 numeral_3_eq_3)
  have lts: "\<forall>j \<in> {m, n, p, q}. 2 < j \<and> j < NOFILE" using three none none' lt by auto
  obtain child where c: "sys_fork_files st2 = Some child" "fd_inv child" "openFiles child = openFiles st2"
    using fork_files_same [OF b(8)] by blast
  let ?cs = "?fs[m := Some ra, n := Some wa, p := Some rb, q := Some wb]"
  have cs: "openFiles child = ?cs" using c(3) b(6) fs1 by (simp add: i)
  obtain x y where xy: "?fs ! 0 = Some x" "?fs ! 1 = Some y" using std by (metis not_None_eq zero_less_numeral one_less_numeral_iff semiring_norm(77))
  have at: "?cs ! m = Some ra" "?cs ! n = Some wa" "?cs ! p = Some rb" "?cs ! q = Some wb" "?cs ! 0 = Some x" "?cs ! 1 = Some y"
    using d lts len xy by (auto simp: nth_list_update)
  from echo_child_runs [OF c(2) cs d lts at, of gb killed fresh] obtain echo where
    e: "run (grind_kernel gb killed fresh) (echo_child (a0, a1) (b0, b1) :: unit prog) child = (Blocked, echo)"
      "openFiles echo = ?cs[p := None, q := None, m := None, 1 := Some wa, n := None]"
    unfolding i by blast
  from cat_child_runs [OF c(2) cs d lts at, of gb killed fresh] obtain cat where
    k: "run (grind_kernel gb killed fresh) (cat_child (a0, a1) (b0, b1) :: unit prog) child = (Blocked, cat)"
      "openFiles cat = ?cs[n := None, p := None, 0 := Some ra, m := None, 1 := Some wb, q := None]"
    unfolding i by blast
  have "openFiles echo = ?fs[1 := Some wa]" "openFiles cat = ?fs[0 := Some ra, 1 := Some wb]"
    unfolding e(2) k(2) using d lts none none' by (auto intro!: nth_equalityI simp: nth_list_update len)
  with a(7) b(7) c(1) e(1) k(1) show ?thesis by blast
qed

definition page_each :: "kstate \<Rightarrow> (nat \<times> byte list) option" where
  "page_each st = Some (if openFiles st ! 3 = None then 7 else 8, replicate 512 NUL)"

text \<open>
  \<open>grind\<close> never faults, whatever the kernel answers: all its buffer accesses are in range, the
  comparison of what the pipeline delivered ends, and no message exceeds what \<open>printf\<close> accepts.
\<close>

lemma grind_no_fault: "crash_free (grind_main fmtp rounds fuel rand_next)"
  by (simp add: crash_free_def yields_grind_main)

end
