(* ===== verification/Sh.thy ===== *)
theory Sh
  imports Kfile
begin

text \<open>
  The shell, \<^verbatim>\<open>src/user/sh.c\<close>: the tokenizer, the recursive-descent parser, \<open>nulterminate\<close>, and the
  program that runs a command.

  The parser works on the text \<open>s\<close> of the input line (the bytes before its NUL) with offsets into
  it: \<open>es\<close> is \<open>length s\<close>, where the buffer holds the NUL.  A token is its pair of offsets \<open>(q, eq)\<close>,
  as in \<open>argv\<close> and \<open>eargv\<close>.  \<open>panic\<close> ends the process, so a parse is a result or the panic's message.
  \<open>malloc\<close> is taken not to fail.  The functions that call each other recursively take fuel;
  \<open>parsecmd\<close> gives more than they can use, which is proved below.
\<close>

subsection \<open>Tokens\<close>

definition MAXARGS :: nat where "MAXARGS = 10"

definition whitespace :: string where "whitespace = [CHR '' '', CHR 0x09, CR, LF, CHR 0x0B]"
definition symbols :: string where "symbols = ''<|>&;()''"

definition char_at :: "string \<Rightarrow> nat \<Rightarrow> char" where
  "char_at s i = (if i < length s then s ! i else NUL)"

function skip_white :: "string \<Rightarrow> nat \<Rightarrow> nat" where
  "skip_white s i = (if i < length s \<and> char_at s i \<in> set whitespace then skip_white s (i + 1) else i)"
  by pat_completeness auto
termination
  by (relation "measure (\<lambda>(s, i). length s - i)") auto

function skip_word :: "string \<Rightarrow> nat \<Rightarrow> nat" where
  "skip_word s i =
     (if i < length s \<and> char_at s i \<notin> set whitespace \<and> char_at s i \<notin> set symbols then skip_word s (i + 1) else i)"
  by pat_completeness auto
termination
  by (relation "measure (\<lambda>(s, i). length s - i)") auto

declare skip_white.simps [simp del] skip_word.simps [simp del]

text \<open>The result is the token, its two ends and the new \<open>*ps\<close>.\<close>

definition gettoken :: "string \<Rightarrow> nat \<Rightarrow> char \<times> nat \<times> nat \<times> nat" where
  "gettoken s ps =
     (let q = skip_white s ps;
          c = char_at s q;
          (ret, eq) =
            (if c = NUL then (c, q)
             else if c \<in> set ''|();&<'' then (c, q + 1)
             else if c = CHR ''>'' then
               (if char_at s (q + 1) = CHR ''>'' then (CHR ''+'', q + 2) else (c, q + 1))
             else (CHR ''a'', skip_word s q))
      in (ret, q, eq, skip_white s eq))"

definition peek :: "string \<Rightarrow> nat \<Rightarrow> string \<Rightarrow> bool \<times> nat" where
  "peek s ps toks =
     (let p = skip_white s ps in (char_at s p \<noteq> NUL \<and> char_at s p \<in> set toks, p))"

text \<open>
  The functions of the tokenizer read only the text from \<open>ps\<close> on.
\<close>

lemma skip_white_eq: "skip_white s i = i + length (takeWhile (\<lambda>c. c \<in> set whitespace) (drop i s))"
proof (induction s i rule: skip_white.induct)
  case (1 s i)
  then show ?case
    by (subst skip_white.simps) (auto simp: char_at_def simp flip: Cons_nth_drop_Suc split: if_splits)
qed

lemma skip_word_eq:
  "skip_word s i = i + length (takeWhile (\<lambda>c. c \<notin> set whitespace \<and> c \<notin> set symbols) (drop i s))"
proof (induction s i rule: skip_word.induct)
  case (1 s i)
  then show ?case
    by (subst skip_word.simps) (auto simp: char_at_def simp flip: Cons_nth_drop_Suc split: if_splits)
qed

lemma skip_white_bounds: "i \<le> skip_white s i" "i \<le> length s \<Longrightarrow> skip_white s i \<le> length s"
  using length_takeWhile_le [of "\<lambda>c. c \<in> set whitespace" "drop i s"] by (auto simp: skip_white_eq)

lemma skip_word_bounds: "i \<le> skip_word s i" "i \<le> length s \<Longrightarrow> skip_word s i \<le> length s"
  using length_takeWhile_le [of "\<lambda>c. c \<notin> set whitespace \<and> c \<notin> set symbols" "drop i s"]
  by (auto simp: skip_word_eq)

lemma skip_white_stop: "skip_white s i < length s \<Longrightarrow> s ! skip_white s i \<notin> set whitespace"
proof (induction s i rule: skip_white.induct)
  case (1 s i)
  then show ?case by (subst skip_white.simps, subst (asm) (2) skip_white.simps) (auto simp: char_at_def)
qed

lemma char_at_NUL: "char_at s i \<noteq> NUL \<Longrightarrow> i < length s"
  by (auto simp: char_at_def split: if_splits)

lemma skip_word_stop: "skip_word s i < length s \<Longrightarrow> s ! skip_word s i \<in> set whitespace \<union> set symbols"
proof (induction s i rule: skip_word.induct)
  case (1 s i)
  then show ?case by (subst skip_word.simps, subst (asm) (2) skip_word.simps) (auto simp: char_at_def)
qed

lemma skip_word_inside: "i \<le> j \<Longrightarrow> j < skip_word s i \<Longrightarrow> s ! j \<notin> set whitespace \<union> set symbols"
proof (induction s i rule: skip_word.induct)
  case (1 s i)
  show ?case
  proof (cases "i < length s \<and> char_at s i \<notin> set whitespace \<and> char_at s i \<notin> set symbols")
    case True
    then have "skip_word s i = skip_word s (i + 1)" by (subst skip_word.simps) simp
    with 1 True show ?thesis by (cases "j = i") (auto simp: char_at_def)
  next
    case False
    then have "skip_word s i = i" by (subst skip_word.simps) auto
    with 1 show ?thesis by simp
  qed
qed

text \<open>Every token but the end of input makes progress.\<close>

lemma gettoken_progress:
  assumes "gettoken s ps = (t, q, eq, ps')" and "t \<noteq> NUL"
  shows "ps < ps'" and "ps' \<le> length s" and "ps < length s"
proof -
  let ?q = "skip_white s ps"
  have "char_at s ?q \<noteq> NUL" using assms by (auto simp: gettoken_def Let_def)
  then have q: "?q < length s" by (rule char_at_NUL)
  then show "ps < length s" using skip_white_bounds(1) [of ps s] by simp
  have nw: "s ! ?q \<notin> set whitespace" using skip_white_stop [OF q] .
  have w: "?q < skip_word s ?q" if "s ! ?q \<notin> set symbols"
    using q nw that skip_word_bounds(1) [of "?q + 1" s]
    by (subst skip_word.simps) (simp add: char_at_def)
  have "?q < eq \<and> eq \<le> length s"
    using assms q w skip_word_bounds(2) [of ?q s] char_at_NUL [of s "?q + 1"]
    by (auto simp: gettoken_def Let_def char_at_def symbols_def split: if_splits)
  moreover have "ps' = skip_white s eq" using assms by (auto simp: gettoken_def Let_def split: prod.splits)
  ultimately show "ps < ps'" and "ps' \<le> length s"
    using skip_white_bounds [of eq s] skip_white_bounds(1) [of ps s] by auto
qed

lemma peek_facts:
  assumes "peek s ps toks = (b, ps')"
  shows "ps \<le> ps'" and "ps \<le> length s \<Longrightarrow> ps' \<le> length s" and "b \<Longrightarrow> ps' < length s \<and> fst (gettoken s ps') \<noteq> NUL"
proof -
  have p: "ps' = skip_white s ps" "b \<longleftrightarrow> char_at s ps' \<noteq> NUL \<and> char_at s ps' \<in> set toks"
    using assms by (auto simp: peek_def Let_def)
  then show "ps \<le> ps'" and "ps \<le> length s \<Longrightarrow> ps' \<le> length s" using skip_white_bounds [of ps s] by auto
  assume b
  with p have c: "char_at s ps' \<noteq> NUL" by simp
  then have l: "ps' < length s" by (rule char_at_NUL)
  have "skip_white s ps' = ps'"
    using skip_white_stop [of s ps] l p(1) by (subst skip_white.simps) (simp add: char_at_def)
  with c l show "ps' < length s \<and> fst (gettoken s ps') \<noteq> NUL"
    by (auto simp: gettoken_def Let_def)
qed

lemma gettoken_bounds: "gettoken s ps = (t, q, eq, ps') \<Longrightarrow> ps \<le> length s \<Longrightarrow> ps \<le> ps' \<and> ps' \<le> length s"
proof (cases "t = NUL")
  case True
  assume g: "gettoken s ps = (t, q, eq, ps')" and "ps \<le> length s"
  let ?q = "skip_white s ps"
  from g True have "eq = ?q" "ps' = skip_white s eq"
    by (auto simp: gettoken_def Let_def split: if_splits)
  with \<open>ps \<le> length s\<close> show ?thesis using skip_white_bounds [of ps s] skip_white_bounds [of ?q s] by auto
qed (use gettoken_progress [of s ps t q eq ps'] in auto)

text \<open>A token \<open>a\<close> is a word: nonempty, of word characters, ended by a separator or the end of the line.\<close>

definition word_char :: "char \<Rightarrow> bool" where
  "word_char c \<longleftrightarrow> c \<notin> set whitespace \<and> c \<notin> set symbols"

definition is_word :: "string \<Rightarrow> nat \<times> nat \<Rightarrow> bool" where
  "is_word s w \<longleftrightarrow> fst w < snd w \<and> snd w \<le> length s \<and> (\<forall>j. fst w \<le> j \<and> j < snd w \<longrightarrow> word_char (s ! j)) \<and>
     (snd w < length s \<longrightarrow> \<not> word_char (s ! snd w))"

lemma gettoken_word:
  assumes "gettoken s ps = (CHR ''a'', q, eq, ps')"
  shows "is_word s (q, eq)"
proof -
  let ?q = "skip_white s ps"
  have c: "char_at s ?q \<noteq> NUL" "char_at s ?q \<notin> set symbols" and qe: "q = ?q" "eq = skip_word s ?q"
    using assms by (auto simp: gettoken_def Let_def symbols_def split: if_splits)
  have q: "?q < length s" using char_at_NUL [OF c(1)] .
  have "?q < skip_word s ?q"
    using q c(2) skip_white_stop [OF q] skip_word_bounds(1) [of "?q + 1" s]
    by (subst skip_word.simps) (simp add: char_at_def)
  then show ?thesis
    using skip_word_bounds(2) [of ?q s] q skip_word_inside [of ?q _ s] skip_word_stop [of s ?q]
    by (auto simp: is_word_def qe word_char_def)
qed

subsection \<open>Commands and the parser\<close>

text \<open>The command structures, over the strings they point to: pairs \<open>(q, eq)\<close> in the parser.\<close>

datatype 'w cmd =
    EXEC "'w list"
  | REDIR "'w cmd" 'w nat int  \<comment> \<open>\<open>cmd\<close>, \<open>file\<close>, \<open>mode\<close>, \<open>fd\<close>\<close>
  | PIPE "'w cmd" "'w cmd"
  | LIST "'w cmd" "'w cmd"
  | BACK "'w cmd"

type_synonym ptr_cmd = "(nat \<times> nat) cmd"

datatype 'a parsed = Parsed 'a | Panic string | Leftovers string | Fault | Fuel

fun parsed_bind :: "'a parsed \<Rightarrow> ('a \<Rightarrow> 'b parsed) \<Rightarrow> 'b parsed" where
  "parsed_bind (Parsed x) f = f x"
| "parsed_bind (Panic e) f = Panic e"
| "parsed_bind (Leftovers e) f = Leftovers e"
| "parsed_bind Fault f = Fault"
| "parsed_bind Fuel f = Fuel"

lemma parsed_bind_cong [fundef_cong]:
  "p = p' \<Longrightarrow> (\<And>x. p' = Parsed x \<Longrightarrow> f x = f' x) \<Longrightarrow> parsed_bind p f = parsed_bind p' f'"
  by (cases p') auto

text \<open>The redirection for one of the tokens \<open><\<close>, \<open>>\<close> and \<open>>>\<close> (\<open>+\<close>).\<close>

definition redirect :: "char \<Rightarrow> ptr_cmd \<Rightarrow> nat \<times> nat \<Rightarrow> ptr_cmd" where
  "redirect tok c w =
     (if tok = CHR ''<'' then REDIR c w O_RDONLY 0
      else if tok = CHR ''>'' then REDIR c w (O_WRONLY + O_CREATE + O_TRUNC) 1
      else if tok = CHR ''+'' then REDIR c w (O_WRONLY + O_CREATE) 1
      else c)"

function parseredirs :: "string \<Rightarrow> ptr_cmd \<Rightarrow> nat \<Rightarrow> (ptr_cmd \<times> nat) parsed" where
  "parseredirs s c ps =
     (case peek s ps ''<>'' of
        (False, ps1) \<Rightarrow> Parsed (c, ps1)
      | (True, ps1) \<Rightarrow>
          (case gettoken s ps1 of (tok, _, _, ps2) \<Rightarrow>
             case gettoken s ps2 of (tok', q, eq, ps3) \<Rightarrow>
               if tok' \<noteq> CHR ''a'' then Panic ''missing file for redirection''
               else parseredirs s (redirect tok c (q, eq)) ps3))"
  by pat_completeness auto
termination
proof (relation "measure (\<lambda>(s, c, ps). length s - ps)", goal_cases)
  case (2 s c ps x ps1 tok y q' z eq' ps2 tok' y' q z' eq ps3)
  then have pk: "peek s ps ''<>'' = (True, ps1)" by simp
  from 2 have g: "gettoken s ps1 = (tok, q', eq', ps2)" by simp
  from 2 have g': "gettoken s ps2 = (tok', q, eq, ps3)" by simp
  have "ps \<le> ps1" "tok \<noteq> NUL" using peek_facts [OF pk] g by auto
  moreover have "ps1 < ps2" "ps1 < length s" "ps2 \<le> length s"
    using gettoken_progress [OF g \<open>tok \<noteq> NUL\<close>] by auto
  moreover have "ps2 \<le> ps3" using gettoken_bounds [OF g'] \<open>ps2 \<le> length s\<close> by auto
  ultimately show ?case by simp
qed simp

declare parseredirs.simps [simp del]

text \<open>\<open>cmd\<close> in \<open>parseexec\<close> points to the command inside the redirections \<open>ret\<close>: adding an argument there.\<close>

fun add_arg :: "nat \<times> nat \<Rightarrow> ptr_cmd \<Rightarrow> ptr_cmd" where
  "add_arg w (EXEC ws) = EXEC (ws @ [w])"
| "add_arg w (REDIR c f m fd) = REDIR (add_arg w c) f m fd"
| "add_arg w c = c"

text \<open>
  What the parser promises of a command: every word is a word of the line, \<open>EXEC\<close> commands have fewer
  than \<open>MAXARGS\<close> arguments, redirections are of the three kinds.
\<close>

primrec wf_cmd :: "('w \<Rightarrow> bool) \<Rightarrow> 'w cmd \<Rightarrow> bool" where
  "wf_cmd P (EXEC ws) \<longleftrightarrow> list_all P ws \<and> length ws < MAXARGS"
| "wf_cmd P (REDIR c f m fd) \<longleftrightarrow> wf_cmd P c \<and> P f \<and>
     (m, fd) \<in> {(O_RDONLY, 0), (O_WRONLY + O_CREATE + O_TRUNC, 1), (O_WRONLY + O_CREATE, 1)}"
| "wf_cmd P (PIPE l r) \<longleftrightarrow> wf_cmd P l \<and> wf_cmd P r"
| "wf_cmd P (LIST l r) \<longleftrightarrow> wf_cmd P l \<and> wf_cmd P r"
| "wf_cmd P (BACK c) \<longleftrightarrow> wf_cmd P c"

lemma wf_redirect: "wf_cmd P c \<Longrightarrow> P w \<Longrightarrow> wf_cmd P (redirect tok c w)"
  by (simp add: redirect_def)

lemma parseredirs_ok:
  "ps \<le> length s \<Longrightarrow> wf_cmd (is_word s) c \<Longrightarrow>
   case parseredirs s c ps of
     Parsed (c', ps') \<Rightarrow> wf_cmd (is_word s) c' \<and> ps \<le> ps' \<and> ps' \<le> length s
   | Panic e \<Rightarrow> True | _ \<Rightarrow> False"
proof (induction s c ps rule: parseredirs.induct)
  case (1 s c ps)
  obtain b ps1 where p: "peek s ps ''<>'' = (b, ps1)" by fastforce
  note pf = peek_facts [OF p]
  show ?case
  proof (cases b)
    case False
    with p pf "1.prems" show ?thesis by (subst parseredirs.simps) simp
  next
    case True
    obtain tok q0 eq0 ps2 where g: "gettoken s ps1 = (tok, q0, eq0, ps2)" by (cases "gettoken s ps1") auto
    obtain tok' q eq ps3 where g': "gettoken s ps2 = (tok', q, eq, ps3)" by (cases "gettoken s ps2") auto
    have b: "ps1 \<le> ps2" "ps2 \<le> length s" using gettoken_bounds [OF g] pf True by auto
    have b': "ps2 \<le> ps3" "ps3 \<le> length s" using gettoken_bounds [OF g' b(2)] by auto
    have p': "(True, ps1) = peek s ps ''<>''" using p True by simp
    show ?thesis
    proof (cases "tok' = CHR ''a''")
      case True': True
      from gettoken_word g' True' have "is_word s (q, eq)" by blast
      then have wf: "wf_cmd (is_word s) (redirect tok c (q, eq))" using "1.prems"(2) by (rule wf_redirect [rotated])
      have step: "parseredirs s c ps = parseredirs s (redirect tok c (q, eq)) ps3"
        using p True g g' True' by (subst parseredirs.simps) simp
      have "case parseredirs s (redirect tok c (q, eq)) ps3 of
          Parsed (c', ps') \<Rightarrow> wf_cmd (is_word s) c' \<and> ps3 \<le> ps' \<and> ps' \<le> length s
        | Panic e \<Rightarrow> True | _ \<Rightarrow> False"
        using "1.IH" [OF p' _ g [symmetric] refl refl g' [symmetric] refl refl] b' wf True' by simp
      with step pf(1) b b' show ?thesis by (auto split: parsed.splits)
    qed (use p True g g' in \<open>subst parseredirs.simps, simp\<close>)
  qed
qed

function exec_loop :: "string \<Rightarrow> ptr_cmd \<Rightarrow> nat \<Rightarrow> nat \<Rightarrow> (ptr_cmd \<times> nat) parsed" where
  "exec_loop s ret argc ps =
     (case peek s ps ''|)&;'' of
        (True, ps1) \<Rightarrow> Parsed (ret, ps1)
      | (False, ps1) \<Rightarrow>
          (case gettoken s ps1 of (tok, q, eq, ps2) \<Rightarrow>
             if tok = NUL then Parsed (ret, ps2)
             else if tok \<noteq> CHR ''a'' then Panic ''syntax''
             else if argc + 1 \<ge> MAXARGS then Panic ''too many args''
             else parsed_bind (parseredirs s (add_arg (q, eq) ret) ps2)
               (\<lambda>(ret', ps3). exec_loop s ret' (argc + 1) ps3)))"
  by pat_completeness auto
termination
  by (relation "measure (\<lambda>(s, ret, argc, ps). Suc MAXARGS - argc)") (auto simp: MAXARGS_def)

declare exec_loop.simps [simp del]

function back_loop :: "string \<Rightarrow> ptr_cmd \<Rightarrow> nat \<Rightarrow> ptr_cmd \<times> nat" where
  "back_loop s c ps =
     (case peek s ps ''&'' of
        (False, ps1) \<Rightarrow> (c, ps1)
      | (True, ps1) \<Rightarrow> (case gettoken s ps1 of (_, _, _, ps2) \<Rightarrow> back_loop s (BACK c) ps2))"
  by pat_completeness auto
termination
proof (relation "measure (\<lambda>(s, c, ps). length s - ps)", goal_cases)
  case (2 s c ps x ps1 tok y q z eq ps2)
  then have pk: "peek s ps ''&'' = (True, ps1)" by simp
  from 2 have g: "gettoken s ps1 = (tok, q, eq, ps2)" by simp
  have "ps \<le> ps1" "tok \<noteq> NUL" using peek_facts [OF pk] g by auto
  moreover have "ps1 < ps2" "ps1 < length s"
    using gettoken_progress [OF g \<open>tok \<noteq> NUL\<close>] by auto
  ultimately show ?case by simp
qed simp

declare back_loop.simps [simp del]

fun parseline :: "nat \<Rightarrow> string \<Rightarrow> nat \<Rightarrow> (ptr_cmd \<times> nat) parsed"
  and parsepipe :: "nat \<Rightarrow> string \<Rightarrow> nat \<Rightarrow> (ptr_cmd \<times> nat) parsed"
  and parseexec :: "nat \<Rightarrow> string \<Rightarrow> nat \<Rightarrow> (ptr_cmd \<times> nat) parsed"
  and parseblock :: "nat \<Rightarrow> string \<Rightarrow> nat \<Rightarrow> (ptr_cmd \<times> nat) parsed" where
  "parseline 0 s ps = Fuel"
| "parseline (Suc n) s ps =
     parsed_bind (parsepipe n s ps) (\<lambda>(c, ps1).
       case back_loop s c ps1 of (c, ps2) \<Rightarrow>
         case peek s ps2 '';'' of
           (False, ps3) \<Rightarrow> Parsed (c, ps3)
         | (True, ps3) \<Rightarrow>
             (case gettoken s ps3 of (_, _, _, ps4) \<Rightarrow>
                parsed_bind (parseline n s ps4) (\<lambda>(r, ps5). Parsed (LIST c r, ps5))))"
| "parsepipe 0 s ps = Fuel"
| "parsepipe (Suc n) s ps =
     parsed_bind (parseexec n s ps) (\<lambda>(c, ps1).
       case peek s ps1 ''|'' of
         (False, ps2) \<Rightarrow> Parsed (c, ps2)
       | (True, ps2) \<Rightarrow>
           (case gettoken s ps2 of (_, _, _, ps3) \<Rightarrow>
              parsed_bind (parsepipe n s ps3) (\<lambda>(r, ps4). Parsed (PIPE c r, ps4))))"
| "parseexec 0 s ps = Fuel"
| "parseexec (Suc n) s ps =
     (case peek s ps ''('' of
        (True, ps1) \<Rightarrow> parseblock n s ps1
      | (False, ps1) \<Rightarrow>
          parsed_bind (parseredirs s (EXEC []) ps1) (\<lambda>(ret, ps2). exec_loop s ret 0 ps2))"
| "parseblock 0 s ps = Fuel"
| "parseblock (Suc n) s ps =
     (case peek s ps ''('' of
        (False, ps1) \<Rightarrow> Panic ''parseblock''
      | (True, ps1) \<Rightarrow>
          (case gettoken s ps1 of (_, _, _, ps2) \<Rightarrow>
             parsed_bind (parseline n s ps2) (\<lambda>(c, ps3).
               case peek s ps3 '')'' of
                 (False, ps4) \<Rightarrow> Panic ''syntax - missing )''
               | (True, ps4) \<Rightarrow> (case gettoken s ps4 of (_, _, _, ps5) \<Rightarrow> parseredirs s c ps5))))"

definition parse_fuel :: "string \<Rightarrow> nat" where
  "parse_fuel s = 4 * length s + 4"

text \<open>The parse itself; \<open>nulterminate\<close> follows.\<close>

definition parsecmd :: "string \<Rightarrow> ptr_cmd parsed" where
  "parsecmd s =
     parsed_bind (parseline (parse_fuel s) s 0) (\<lambda>(c, ps).
       case peek s ps [] of (_, ps1) \<Rightarrow> if ps1 \<noteq> length s then Leftovers (drop ps1 s) else Parsed c)"

subsection \<open>The parser is total and its results are well formed\<close>

definition parse_ok :: "string \<Rightarrow> nat \<Rightarrow> (ptr_cmd \<times> nat) parsed \<Rightarrow> bool" where
  "parse_ok s ps r \<longleftrightarrow> (case r of
       Parsed (c, ps') \<Rightarrow> wf_cmd (is_word s) c \<and> ps \<le> ps' \<and> ps' \<le> length s
     | Panic e \<Rightarrow> True | _ \<Rightarrow> False)"

lemma parse_ok_Parsed [simp]:
  "parse_ok s ps (Parsed (c, ps')) \<longleftrightarrow> wf_cmd (is_word s) c \<and> ps \<le> ps' \<and> ps' \<le> length s"
  "parse_ok s ps (Panic e)"
  by (simp_all add: parse_ok_def)

lemma parse_ok_mono: "parse_ok s ps r \<Longrightarrow> ps' \<le> ps \<Longrightarrow> parse_ok s ps' r"
  by (auto simp: parse_ok_def split: parsed.splits)

lemma parse_ok_bind:
  assumes "parse_ok s ps p"
    and "\<And>c ps1. wf_cmd (is_word s) c \<Longrightarrow> ps \<le> ps1 \<Longrightarrow> ps1 \<le> length s \<Longrightarrow> parse_ok s ps (f (c, ps1))"
  shows "parse_ok s ps (parsed_bind p f)"
  using assms by (cases p) (auto simp: parse_ok_def)

fun exec_argc :: "ptr_cmd \<Rightarrow> nat" where
  "exec_argc (EXEC ws) = length ws"
| "exec_argc (REDIR c f m fd) = exec_argc c"
| "exec_argc c = 0"

lemma wf_add_arg: "wf_cmd P c \<Longrightarrow> P w \<Longrightarrow> exec_argc c + 1 < MAXARGS \<Longrightarrow> wf_cmd P (add_arg w c)"
  by (induction c) auto

lemma exec_argc_add_arg: "exec_argc (add_arg w c) \<le> exec_argc c + 1"
  by (induction c) auto

lemma exec_argc_redirect: "exec_argc (redirect tok c w) = exec_argc c"
  by (simp add: redirect_def)

lemma parseredirs_argc: "parseredirs s c ps = Parsed (c', ps') \<Longrightarrow> exec_argc c' = exec_argc c"
proof (induction s c ps rule: parseredirs.induct)
  case (1 s c ps)
  then show ?case
    by (subst (asm) (2) parseredirs.simps)
      (auto simp: exec_argc_redirect split: prod.splits bool.splits if_splits)
qed

lemma parseredirs_parse_ok: "ps \<le> length s \<Longrightarrow> wf_cmd (is_word s) c \<Longrightarrow> parse_ok s ps (parseredirs s c ps)"
  using parseredirs_ok [of ps s c] by (auto simp: parse_ok_def split: parsed.splits)

lemma exec_loop_ok:
  "ps \<le> length s \<Longrightarrow> wf_cmd (is_word s) ret \<Longrightarrow> exec_argc ret \<le> argc \<Longrightarrow> parse_ok s ps (exec_loop s ret argc ps)"
proof (induction s ret argc ps rule: exec_loop.induct)
  case (1 s ret argc ps)
  obtain b ps1 where p: "peek s ps ''|)&;'' = (b, ps1)" by fastforce
  obtain tok q eq ps2 where g: "gettoken s ps1 = (tok, q, eq, ps2)" by (cases "gettoken s ps1") auto
  have b: "ps \<le> ps1" "ps1 \<le> length s" using peek_facts [OF p] "1.prems" by auto
  have b2: "ps1 \<le> ps2" "ps2 \<le> length s" using gettoken_bounds [OF g b(2)] by auto
  show ?case
  proof (cases "\<not> b \<and> tok = CHR ''a'' \<and> \<not> MAXARGS \<le> argc + 1")
    case False
    then show ?thesis using p g b b2 "1.prems" by (subst exec_loop.simps) (auto split: bool.splits)
  next
    case True
    then have p': "(False, ps1) = peek s ps ''|)&;''" and g': "gettoken s ps1 = (CHR ''a'', q, eq, ps2)"
      using p g by auto
    have unf: "exec_loop s ret argc ps = parsed_bind (parseredirs s (add_arg (q, eq) ret) ps2)
        (\<lambda>(ret', ps3). exec_loop s ret' (argc + 1) ps3)"
      using True p g by (subst exec_loop.simps) simp
    have wf: "wf_cmd (is_word s) (add_arg (q, eq) ret)"
      using "1.prems" True gettoken_word [OF g'] by (intro wf_add_arg) auto
    show ?thesis
    proof (cases "parseredirs s (add_arg (q, eq) ret) ps2")
      case (Parsed x)
      obtain c ps3 where x: "x = (c, ps3)" by (cases x)
      have "parse_ok s ps2 (Parsed (c, ps3))"
        using parseredirs_parse_ok [OF b2(2) wf] Parsed x by simp
      moreover have "exec_argc c \<le> argc + 1"
        using parseredirs_argc [OF Parsed [unfolded x]] exec_argc_add_arg [of "(q, eq)" ret] "1.prems"(3) by simp
      ultimately have "parse_ok s ps3 (exec_loop s c (argc + 1) ps3)"
        using "1.IH" [OF p' refl g' [symmetric] refl refl _ _ _ Parsed x [symmetric]] True by simp
      moreover have "ps \<le> ps3" using b(1) b2(1) \<open>parse_ok s ps2 (Parsed (c, ps3))\<close> by simp
      ultimately show ?thesis using unf Parsed x parse_ok_mono by simp
    qed (use unf parseredirs_parse_ok [OF b2(2) wf] in \<open>auto simp: parse_ok_def\<close>)
  qed
qed

lemma back_loop_ok:
  "ps \<le> length s \<Longrightarrow> wf_cmd (is_word s) c \<Longrightarrow> parse_ok s ps (Parsed (back_loop s c ps))"
proof (induction s c ps rule: back_loop.induct)
  case (1 s c ps)
  obtain b ps1 where p: "peek s ps ''&'' = (b, ps1)" by fastforce
  obtain tok q eq ps2 where g: "gettoken s ps1 = (tok, q, eq, ps2)" by (cases "gettoken s ps1") auto
  have b: "ps \<le> ps1" "ps1 \<le> length s" using peek_facts [OF p] "1.prems" by auto
  have b2: "ps1 \<le> ps2" "ps2 \<le> length s" using gettoken_bounds [OF g b(2)] by auto
  show ?case
  proof (cases b)
    case True
    have "(True, ps1) = peek s ps ''&''" using p True by simp
    then have "parse_ok s ps2 (Parsed (back_loop s (BACK c) ps2))"
      using "1.IH" [of True ps1, OF _ refl g [symmetric] refl refl] b2 "1.prems" by simp
    moreover have "back_loop s c ps = back_loop s (BACK c) ps2"
      using True p g by (subst back_loop.simps) simp
    ultimately show ?thesis using b b2 parse_ok_mono by (metis order_trans)
  qed (use p b "1.prems" in \<open>subst back_loop.simps, simp\<close>)
qed

text \<open>A token read after a successful \<open>peek\<close> is consumed.\<close>

lemma peek_gettoken:
  assumes "peek s ps toks = (True, ps1)" and "gettoken s ps1 = (tok, q, eq, ps2)"
  shows "ps < ps2" and "ps2 \<le> length s"
proof -
  have "ps \<le> ps1" "tok \<noteq> NUL" using peek_facts [OF assms(1)] assms(2) by auto
  then show "ps < ps2" and "ps2 \<le> length s" using gettoken_progress [OF assms(2)] by auto
qed

lemma parseline_step:
  assumes pp: "parse_ok s ps (parsepipe n s ps)"
    and pl: "\<And>ps'. ps < ps' \<Longrightarrow> ps' \<le> length s \<Longrightarrow> parse_ok s ps' (parseline n s ps')"
  shows "parse_ok s ps (parseline (Suc n) s ps)"
  unfolding parseline.simps
proof (rule parse_ok_bind [OF pp])
  fix c ps1 assume c: "wf_cmd (is_word s) c" "ps \<le> ps1" "ps1 \<le> length s"
  obtain c2 ps2 where bl: "back_loop s c ps1 = (c2, ps2)" by fastforce
  have c2: "wf_cmd (is_word s) c2" "ps1 \<le> ps2" "ps2 \<le> length s" using back_loop_ok [OF c(3,1)] bl by simp_all
  obtain b ps3 where p: "peek s ps2 '';'' = (b, ps3)" by fastforce
  obtain tok q eq ps4 where g: "gettoken s ps3 = (tok, q, eq, ps4)" by (cases "gettoken s ps3") auto
  show "parse_ok s ps (case (c, ps1) of (c, ps1) \<Rightarrow> case back_loop s c ps1 of (c, ps2) \<Rightarrow> case peek s ps2 '';'' of
           (False, ps3) \<Rightarrow> Parsed (c, ps3)
         | (True, ps3) \<Rightarrow> (case gettoken s ps3 of (_, _, _, ps4) \<Rightarrow>
                parsed_bind (parseline n s ps4) (\<lambda>(r, ps5). Parsed (LIST c r, ps5))))"
  proof (cases b)
    case True
    then have "peek s ps2 '';'' = (True, ps3)" using p by simp
    note pg = peek_gettoken [OF this g]
    have lt: "ps < ps4" using pg c c2 by linarith
    have "parse_ok s ps (parsed_bind (parseline n s ps4) (\<lambda>(r, ps5). Parsed (LIST c2 r, ps5)))"
      using lt c2 by (intro parse_ok_bind parse_ok_mono [OF pl [OF lt pg(2)]]) simp_all
    with bl p g True show ?thesis by simp
  next
    case False
    then show ?thesis using bl p c c2 peek_facts(1,2) [OF p] by simp
  qed
qed

lemma parsepipe_step:
  assumes pe: "parse_ok s ps (parseexec n s ps)"
    and pp: "\<And>ps'. ps < ps' \<Longrightarrow> ps' \<le> length s \<Longrightarrow> parse_ok s ps' (parsepipe n s ps')"
  shows "parse_ok s ps (parsepipe (Suc n) s ps)"
  unfolding parsepipe.simps
proof (rule parse_ok_bind [OF pe])
  fix c ps1 assume c: "wf_cmd (is_word s) c" "ps \<le> ps1" "ps1 \<le> length s"
  obtain b ps2 where p: "peek s ps1 ''|'' = (b, ps2)" by fastforce
  obtain tok q eq ps3 where g: "gettoken s ps2 = (tok, q, eq, ps3)" by (cases "gettoken s ps2") auto
  show "parse_ok s ps (case (c, ps1) of (c, ps1) \<Rightarrow> case peek s ps1 ''|'' of
         (False, ps2) \<Rightarrow> Parsed (c, ps2)
       | (True, ps2) \<Rightarrow> (case gettoken s ps2 of (_, _, _, ps3) \<Rightarrow>
              parsed_bind (parsepipe n s ps3) (\<lambda>(r, ps4). Parsed (PIPE c r, ps4))))"
  proof (cases b)
    case True
    then have "peek s ps1 ''|'' = (True, ps2)" using p by simp
    note pg = peek_gettoken [OF this g]
    have lt: "ps < ps3" using pg c by linarith
    have "parse_ok s ps (parsed_bind (parsepipe n s ps3) (\<lambda>(r, ps4). Parsed (PIPE c r, ps4)))"
      using lt c by (intro parse_ok_bind parse_ok_mono [OF pp [OF lt pg(2)]]) simp_all
    with p g True show ?thesis by simp
  next
    case False
    then show ?thesis using p c peek_facts(1,2) [OF p] by simp
  qed
qed

lemma parseexec_step:
  assumes pb: "\<And>ps'. ps \<le> ps' \<Longrightarrow> ps' \<le> length s \<Longrightarrow> parse_ok s ps' (parseblock n s ps')"
    and ps: "ps \<le> length s"
  shows "parse_ok s ps (parseexec (Suc n) s ps)"
proof -
  obtain b ps1 where p: "peek s ps ''('' = (b, ps1)" by fastforce
  have b: "ps \<le> ps1" "ps1 \<le> length s" using peek_facts(1,2) [OF p] ps by simp_all
  show ?thesis
  proof (cases b)
    case True
    with p parse_ok_mono [OF pb [OF b] b(1)] show ?thesis by simp
  next
    case False
    have wf: "wf_cmd (is_word s) (EXEC [])" by (simp add: MAXARGS_def)
    note ok = parseredirs_parse_ok [OF b(2) wf]
    have "parse_ok s ps1 (parsed_bind (parseredirs s (EXEC []) ps1) (\<lambda>(ret, ps2). exec_loop s ret 0 ps2))"
    proof (cases "parseredirs s (EXEC []) ps1")
      case (Parsed x)
      obtain c ps2 where x: "x = (c, ps2)" by (cases x)
      with Parsed ok have c: "wf_cmd (is_word s) c" "ps1 \<le> ps2" "ps2 \<le> length s" by simp_all
      have "exec_argc c \<le> 0" using parseredirs_argc [OF Parsed [unfolded x]] by simp
      from parse_ok_mono [OF exec_loop_ok [OF c(3,1) this] c(2)] Parsed x show ?thesis by simp
    qed (use ok in \<open>simp_all add: parse_ok_def\<close>)
    with p False show ?thesis using parse_ok_mono [OF _ b(1)] by simp
  qed
qed

lemma parseblock_step:
  assumes pl: "\<And>ps'. ps < ps' \<Longrightarrow> ps' \<le> length s \<Longrightarrow> parse_ok s ps' (parseline n s ps')"
  shows "parse_ok s ps (parseblock (Suc n) s ps)"
proof -
  obtain b ps1 where p: "peek s ps ''('' = (b, ps1)" by fastforce
  obtain tok q eq ps2 where g: "gettoken s ps1 = (tok, q, eq, ps2)" by (cases "gettoken s ps1") auto
  show ?thesis
  proof (cases b)
    case True
    then have "peek s ps ''('' = (True, ps1)" using p by simp
    note pg = peek_gettoken [OF this g]
    have "parse_ok s ps (parsed_bind (parseline n s ps2) (\<lambda>(c, ps3).
               case peek s ps3 '')'' of
                 (False, ps4) \<Rightarrow> Panic ''syntax - missing )''
               | (True, ps4) \<Rightarrow> (case gettoken s ps4 of (_, _, _, ps5) \<Rightarrow> parseredirs s c ps5)))"
    proof (rule parse_ok_bind [OF parse_ok_mono [OF pl [OF pg] less_imp_le [OF pg(1)]]])
      fix c ps3 assume c: "wf_cmd (is_word s) c" "ps \<le> ps3" "ps3 \<le> length s"
      obtain b' ps4 where p': "peek s ps3 '')'' = (b', ps4)" by fastforce
      obtain tok' q' eq' ps5 where g': "gettoken s ps4 = (tok', q', eq', ps5)" by (cases "gettoken s ps4") auto
      show "parse_ok s ps (case (c, ps3) of (c, ps3) \<Rightarrow> case peek s ps3 '')'' of
                 (False, ps4) \<Rightarrow> Panic ''syntax - missing )''
               | (True, ps4) \<Rightarrow> (case gettoken s ps4 of (_, _, _, ps5) \<Rightarrow> parseredirs s c ps5))"
      proof (cases b')
        case True
        then have "peek s ps3 '')'' = (True, ps4)" using p' by simp
        note pg' = peek_gettoken [OF this g']
        have "ps \<le> ps5" using pg' c by linarith
        with parse_ok_mono [OF parseredirs_parse_ok [OF pg'(2) c(1)]] p' g' True show ?thesis by simp
      qed (use p' in simp)
    qed
    with p g True show ?thesis by simp
  qed (use p in simp)
qed

text \<open>Four steps of fuel per character of the rest of the line are enough.\<close>

lemma parse_functions_ok:
  assumes "ps \<le> length s"
  shows "(4 * (length s - ps) + 4 \<le> n \<longrightarrow> parse_ok s ps (parseline n s ps)) \<and>
    (4 * (length s - ps) + 3 \<le> n \<longrightarrow> parse_ok s ps (parsepipe n s ps)) \<and>
    (4 * (length s - ps) + 2 \<le> n \<longrightarrow> parse_ok s ps (parseexec n s ps)) \<and>
    (4 * (length s - ps) + 1 \<le> n \<longrightarrow> parse_ok s ps (parseblock n s ps))"
  using assms
proof (induction n arbitrary: ps)
  case (Suc n)
  have line: "parse_ok s ps' (parseline n s ps')"
    if "ps < ps'" "ps' \<le> length s" "4 * (length s - ps) + 1 \<le> Suc n" for ps'
    using Suc.IH [OF that(2)] that by simp
  have pipe: "parse_ok s ps' (parsepipe n s ps')"
    if "ps < ps'" "ps' \<le> length s" "4 * (length s - ps) + 1 \<le> Suc n" for ps'
    using Suc.IH [OF that(2)] that by simp
  show ?case
  proof (intro conjI impI)
    assume n: "4 * (length s - ps) + 4 \<le> Suc n"
    then show "parse_ok s ps (parseline (Suc n) s ps)"
      using Suc.IH [OF Suc.prems] by (intro parseline_step line) simp_all
  next
    assume n: "4 * (length s - ps) + 3 \<le> Suc n"
    then show "parse_ok s ps (parsepipe (Suc n) s ps)"
      using Suc.IH [OF Suc.prems] by (intro parsepipe_step pipe) simp_all
  next
    assume n: "4 * (length s - ps) + 2 \<le> Suc n"
    have "parse_ok s ps' (parseblock n s ps')" if "ps \<le> ps'" "ps' \<le> length s" for ps'
      using Suc.IH [OF that(2)] that n by simp
    then show "parse_ok s ps (parseexec (Suc n) s ps)"
      using Suc.prems by (intro parseexec_step)
  next
    assume n: "4 * (length s - ps) + 1 \<le> Suc n"
    then show "parse_ok s ps (parseblock (Suc n) s ps)"
      by (intro parseblock_step line)
  qed
qed simp

lemma parsecmd_cases:
  "case parsecmd s of
     Parsed c \<Rightarrow> wf_cmd (is_word s) c
   | Panic e \<Rightarrow> True
   | Leftovers rest \<Rightarrow> rest \<noteq> [] \<and> (\<exists>read. s = read @ rest)
   | Fault \<Rightarrow> False | Fuel \<Rightarrow> False"
proof -
  have ok: "parse_ok s 0 (parseline (parse_fuel s) s 0)"
    using parse_functions_ok [of 0 s "parse_fuel s"] by (simp add: parse_fuel_def)
  show ?thesis
  proof (cases "parseline (parse_fuel s) s 0")
    case (Parsed x)
    obtain c ps where x: "x = (c, ps)" by (cases x)
    obtain b ps1 where p: "peek s ps [] = (b, ps1)" by fastforce
    have "wf_cmd (is_word s) c" "ps1 \<le> length s" using ok Parsed x peek_facts(2) [OF p] by simp_all
    moreover have "s = take ps1 s @ drop ps1 s" by simp
    ultimately show ?thesis unfolding parsecmd_def Parsed x parsed_bind.simps prod.case p
      by (auto simp del: append_take_drop_id)
  qed (use ok in \<open>simp_all add: parse_ok_def parsecmd_def\<close>)
qed

lemma parsecmd_wf: "parsecmd s = Parsed c \<Longrightarrow> wf_cmd (is_word s) c"
  using parsecmd_cases [of s] by simp

text \<open>
  C4. The parser is total: for every input line the recursive descent returns, with a command or with
  one of the shell's syntax errors.  In a parsed command every word is a maximal run of word
  characters of the line, every \<open>EXEC\<close> has fewer than \<open>MAXARGS\<close> arguments (so \<open>argv\<close> and its ending
  null pointer fit), and every redirection has one of the three forms.
\<close>

theorem parsecmd_total:
  "case parsecmd s of
     Parsed c \<Rightarrow> wf_cmd (is_word s) c
   | Panic e \<Rightarrow> True
   | Leftovers rest \<Rightarrow> rest \<noteq> [] \<and> (\<exists>read. s = read @ rest)
   | Fault \<Rightarrow> False | Fuel \<Rightarrow> False"
  using parsecmd_cases .

subsection \<open>nulterminate\<close>

fun nul_args :: "(nat \<times> nat) list \<Rightarrow> mem \<Rightarrow> mem option" where
  "nul_args [] m = Some m"
| "nul_args (w # ws) m = do { m' \<leftarrow> store m (snd w) NUL; nul_args ws m' }"

primrec nulterminate :: "ptr_cmd \<Rightarrow> mem \<Rightarrow> mem option" where
  "nulterminate (EXEC ws) m = nul_args ws m"
| "nulterminate (REDIR c f mode fd) m = do { m' \<leftarrow> nulterminate c m; store m' (snd f) NUL }"
| "nulterminate (PIPE l r) m = do { m' \<leftarrow> nulterminate l m; nulterminate r m' }"
| "nulterminate (LIST l r) m = do { m' \<leftarrow> nulterminate l m; nulterminate r m' }"
| "nulterminate (BACK c) m = nulterminate c m"

definition nulled :: "nat set \<Rightarrow> mem \<Rightarrow> mem \<Rightarrow> bool" where
  "nulled E m m' \<longleftrightarrow> length m' = length m \<and> (\<forall>i. m' ! i = (if i \<in> E then NUL else m ! i))"

lemma nulled_trans: "nulled E m m' \<Longrightarrow> nulled F m' m'' \<Longrightarrow> nulled (E \<union> F) m m''"
  by (auto simp: nulled_def)

lemma store_nulled: "i < length m \<Longrightarrow> store m i NUL = Some (m[i := NUL]) \<and> nulled {i} m (m[i := NUL])"
  by (auto simp: store_def nulled_def nth_list_update)

lemma nul_args_nulled:
  "\<forall>w \<in> set ws. snd w < length m \<Longrightarrow> \<exists>m'. nul_args ws m = Some m' \<and> nulled (snd ` set ws) m m'"
proof (induction ws arbitrary: m)
  case (Cons w ws)
  with store_nulled [of "snd w" m] obtain m1 where m1: "store m (snd w) NUL = Some m1" "nulled {snd w} m m1" by auto
  then have "\<forall>w \<in> set ws. snd w < length m1" using Cons.prems by (simp add: nulled_def)
  from Cons.IH [OF this] obtain m2 where "nul_args ws m1 = Some m2" "nulled (snd ` set ws) m1 m2" by blast
  with m1 nulled_trans show ?case by fastforce
qed (simp add: nulled_def)

lemma nulterminate_nulled:
  "\<forall>w \<in> set_cmd c. snd w < length m \<Longrightarrow> \<exists>m'. nulterminate c m = Some m' \<and> nulled (snd ` set_cmd c) m m'"
proof (induction c arbitrary: m)
  case (EXEC ws)
  then show ?case using nul_args_nulled by simp
next
  case (REDIR c f mode fd)
  then obtain m1 where m1: "nulterminate c m = Some m1" "nulled (snd ` set_cmd c) m m1" by fastforce
  have "snd f < length m1" using m1(2) REDIR.prems by (simp add: nulled_def)
  from store_nulled [OF this] nulled_trans [OF m1(2)] m1 show ?case by fastforce
next
  case (PIPE l r)
  then obtain m1 where m1: "nulterminate l m = Some m1" "nulled (snd ` set_cmd l) m m1" by fastforce
  then have "\<forall>w \<in> set_cmd r. snd w < length m1" using PIPE.prems by (simp add: nulled_def)
  from PIPE.IH(2) [OF this] nulled_trans [OF m1(2)] m1 show ?case by (fastforce simp: image_Un)
next
  case (LIST l r)
  then obtain m1 where m1: "nulterminate l m = Some m1" "nulled (snd ` set_cmd l) m m1" by fastforce
  then have "\<forall>w \<in> set_cmd r. snd w < length m1" using LIST.prems by (simp add: nulled_def)
  from LIST.IH(2) [OF this] nulled_trans [OF m1(2)] m1 show ?case by (fastforce simp: image_Un)
qed simp

lemma wf_cmd_words: "wf_cmd P c \<Longrightarrow> w \<in> set_cmd c \<Longrightarrow> P w"
  by (induction c) (auto simp: list_all_iff)

lemma nulterminate_words:
  assumes wf: "wf_cmd (is_word s) c" and NUL: "NUL \<notin> set s" and m: "m = s @ NUL # rest"
  shows "\<exists>m'. nulterminate c m = Some m' \<and> length m' = length m \<and>
    (\<forall>(q, eq) \<in> set_cmd c. cstring m' q (segment q eq s))"
proof -
  have w: "is_word s w" if "w \<in> set_cmd c" for w using wf_cmd_words [OF wf that] .
  have "snd w < length m" if "w \<in> set_cmd c" for w
    using w [OF that] by (simp add: m is_word_def)
  then have "\<forall>w \<in> set_cmd c. snd w < length m" by blast
  from nulterminate_nulled [OF this] obtain m' where
    m': "nulterminate c m = Some m'" "nulled (snd ` set_cmd c) m m'" by blast
  have at: "m' ! j = (if j \<in> snd ` set_cmd c then NUL else m ! j)" and len: "length m' = length m" for j
    using m'(2) unfolding nulled_def by blast+
  have "cstring m' q (segment q eq s)" if qe: "(q, eq) \<in> set_cmd c" for q eq
  proof -
    from w [OF qe] have q: "q < eq" and eq: "eq \<le> length s"
      and wc: "\<And>j. q \<le> j \<Longrightarrow> j < eq \<Longrightarrow> word_char (s ! j)" by (simp_all add: is_word_def)
    have keep: "m' ! j = s ! j" if j: "q \<le> j" "j < eq" for j
    proof -
      have "j < length s" using j(2) eq by (rule less_le_trans)
      then have "snd w \<noteq> j" if "w \<in> set_cmd c" for w
        using w [OF that] wc [OF j] by (auto simp: is_word_def)
      then have "j \<notin> snd ` set_cmd c" by blast
      then have "m' ! j = m ! j" using at [of j] by simp
      also have "m ! j = s ! j" using \<open>j < length s\<close> by (simp add: m nth_append)
      finally show ?thesis .
    qed
    have el: "eq < length m'" using eq by (simp add: len m)
    have sg: "segment q eq m' = segment q eq s"
    proof (rule nth_equalityI)
      show "length (segment q eq m') = length (segment q eq s)" using el eq by simp
      fix k assume "k < length (segment q eq m')"
      then have k: "q + k < eq" using el by simp
      with keep [of "q + k"] el eq show "segment q eq m' ! k = segment q eq s ! k"
        by (simp add: nth_segment)
    qed
    have e: "m' ! eq = NUL" using at [of eq] qe by (force simp: image_iff)
    have nn: "NUL \<notin> set (segment q eq s)"
      using NUL unfolding segment_def by (meson in_set_dropD in_set_takeD)
    have ql: "q + length (segment q eq s) = eq" using q eq by simp
    show ?thesis unfolding cstring_def ql using nn el sg e by simp
  qed
  with m'(1) len show ?thesis by blast
qed

text \<open>\<open>parsecmd\<close> on the buffer: the command with the strings its pointers lead to afterwards.\<close>

definition parse_buffer :: "mem \<Rightarrow> string cmd parsed" where
  "parse_buffer buf =
     parsed_bind (parsecmd (string_at buf 0)) (\<lambda>c.
       case nulterminate c buf of
         None \<Rightarrow> Fault
       | Some m \<Rightarrow> Parsed (map_cmd (\<lambda>(q, eq). string_at m q) c))"

lemma parse_buffer_words:
  assumes "NUL \<notin> set s"
  shows "parse_buffer (s @ NUL # rest) = parsed_bind (parsecmd s) (\<lambda>c. Parsed (map_cmd (\<lambda>(q, eq). segment q eq s) c))"
proof -
  have "takeWhile (\<lambda>c. c \<noteq> NUL) s = s" using assms by (auto simp: takeWhile_eq_all_conv)
  then have s: "string_at (s @ NUL # rest) 0 = s" by (simp add: string_at_def takeWhile_tail)
  show ?thesis
  proof (cases "parsecmd s")
    case (Parsed c)
    with parsecmd_wf [OF Parsed] nulterminate_words [OF _ assms refl, of c rest] obtain m' where
      m': "nulterminate c (s @ NUL # rest) = Some m'" "\<forall>(q, eq) \<in> set_cmd c. cstring m' q (segment q eq s)" by blast
    have "map_cmd (\<lambda>(q, eq). string_at m' q) c = map_cmd (\<lambda>(q, eq). segment q eq s) c"
      using m'(2) by (intro cmd.map_cong0) (auto dest: string_at_cstring)
    with m' Parsed s show ?thesis by (simp add: parse_buffer_def)
  qed (simp_all add: parse_buffer_def s)
qed

text \<open>
  C11. \<open>nulterminate\<close> is safe although all tokens share one buffer and a NUL is written behind every
  one of them: it stays inside the buffer, no NUL lands inside another token, and every \<open>argv\<close> and
  file pointer of the parsed command is afterwards a C string that holds exactly its token.
\<close>

theorem parsecmd_strings:
  assumes "NUL \<notin> set s"
  shows "parse_buffer (s @ NUL # rest) =
    (case parsecmd s of
       Parsed c \<Rightarrow> Parsed (map_cmd (\<lambda>(q, eq). segment q eq s) c)
     | Panic e \<Rightarrow> Panic e | Leftovers l \<Rightarrow> Leftovers l | Fault \<Rightarrow> Fault | Fuel \<Rightarrow> Fuel)"
  unfolding parse_buffer_words [OF assms] by (cases "parsecmd s") simp_all

theorem parsecmd_strings_witness:
  "parse_buffer (''a>b c&'' @ NUL # ''zz'') = Parsed (BACK (REDIR (EXEC [''a'', ''c'']) ''b'' 0x601 1))"
proof -
  have "parsecmd ''a>b c&'' = Parsed (BACK (REDIR (EXEC [(0, 1), (4, 5)]) (2, 3) 0x601 1))"
    by code_simp
  then show ?thesis using parsecmd_strings [of "''a>b c&''" "''zz''"] by (simp add: segment_def)
qed

end
