(* ===== verification/Shrun.thy ===== *)
theory Shrun
  imports Sh Tools Kdesc
begin

text \<open>
  The shell's running half (\<open>runcmd\<close>, \<open>getcmd\<close>, \<open>main\<close>, \<open>panic\<close>, \<open>fork1\<close> of \<^verbatim>\<open>src/user/sh.c\<close>) as
  programs, and what they do to a process's descriptors: a redirection puts the file on the right
  descriptor, and the two sides of a pipeline end up with the pipe on descriptor 1 and 0 and no other
  descriptor to it.  The descriptor table is the kernel's (theory \<^verbatim>\<open>Kfile\<close>).
\<close>

subsection \<open>Running a command\<close>

definition sh_panic :: "string \<Rightarrow> 'a prog" where
  "sh_panic s = pbind (fprintf 2 ''%s\<newline>'' [VStr s]) (\<lambda>_. Exit 1)"

definition fork1 :: "(int \<Rightarrow> 'a prog) \<Rightarrow> 'a prog" where
  "fork1 k = Call Fork (\<lambda>pid. if pid = - 1 then sh_panic ''fork'' else k pid)"

text \<open>The descriptor work of the two children of a pipe, before they run their command.\<close>

definition pipe_child :: "int \<Rightarrow> int \<Rightarrow> int \<Rightarrow> int \<Rightarrow> unit prog" where
  "pipe_child fd own p0 p1 =
     do_call (Close fd) (do_call (Dup own) (do_call (Close p0) (do_call (Close p1) (Ret ()))))"

text \<open>\<open>exec\<close> comes back only when it fails.\<close>

primrec runcmd :: "string cmd \<Rightarrow> unit prog" where
  "runcmd (EXEC argv) =
     (case argv of
        [] \<Rightarrow> Exit 1
      | a # as \<Rightarrow> do_call (Exec a (a # as)) (pbind (fprintf 2 ''exec %s failed\<newline>'' [VStr a]) (\<lambda>_. Exit 0)))"
| "runcmd (REDIR c f mode fd) =
     do_call (Close fd) (Call (Open f mode) (\<lambda>r.
       if r < 0 then pbind (fprintf 2 ''open %s failed\<newline>'' [VStr f]) (\<lambda>_. Exit 1) else runcmd c))"
| "runcmd (LIST l r) =
     fork1 (\<lambda>pid. if pid = 0 then runcmd l else Wait (\<lambda>_. runcmd r))"
| "runcmd (PIPE l r) =
     Pipe (\<lambda>p. case p of
         None \<Rightarrow> sh_panic ''pipe''
       | Some (p0, p1) \<Rightarrow>
           fork1 (\<lambda>pid.
             if pid = 0 then pbind (pipe_child 1 p1 p0 p1) (\<lambda>_. runcmd l)
             else fork1 (\<lambda>pid.
               if pid = 0 then pbind (pipe_child 0 p0 p0 p1) (\<lambda>_. runcmd r)
               else do_call (Close p0) (do_call (Close p1) (Wait (\<lambda>_. Wait (\<lambda>_. Exit 0)))))))"
| "runcmd (BACK c) = fork1 (\<lambda>pid. if pid = 0 then runcmd c else Exit 0)"

text \<open>The buffer after \<open>memset\<close> and \<open>gets\<close>; \<^term>\<open>None\<close> for a line that starts with NUL (end of input).\<close>

definition getcmd :: "nat \<Rightarrow> mem option prog" where
  "getcmd nbuf =
     do_call (Write 2 ''$ '') (pbind (gets (int nbuf)) (\<lambda>l.
       let buf = l @ replicate (nbuf - length l) NUL
       in if buf ! 0 = NUL then Ret None else Ret (Some buf)))"

definition parse_and_run :: "mem \<Rightarrow> unit prog" where
  "parse_and_run buf =
     (case parse_buffer buf of
        Parsed c \<Rightarrow> runcmd c
      | Panic e \<Rightarrow> sh_panic e
      | Leftovers s \<Rightarrow> pbind (fprintf 2 ''leftovers: %s\<newline>'' [VStr s]) (\<lambda>_. sh_panic ''syntax'')
      | Fault \<Rightarrow> Crash
      | Fuel \<Rightarrow> OutOfFuel)"

text \<open>\<open>cd\<close> chops the last character of the line, whatever it is.\<close>

definition cd_path :: "mem \<Rightarrow> string" where
  "cd_path buf = string_at (buf[length (string_at buf 0) - 1 := NUL]) 3"

fun sh_loop :: "nat \<Rightarrow> unit prog" where
  "sh_loop 0 = OutOfFuel"
| "sh_loop (Suc fuel) =
     pbind (getcmd 100) (\<lambda>r. case r of
         None \<Rightarrow> Exit 0
       | Some buf \<Rightarrow>
           if buf ! 0 = CHR ''c'' \<and> buf ! 1 = CHR ''d'' \<and> buf ! 2 = CHR '' ''
           then Call (Chdir (cd_path buf)) (\<lambda>r.
             pbind (if r < 0 then fprintf 2 ''cannot cd %s\<newline>'' [VStr (cd_path buf)] else Ret ()) (\<lambda>_. sh_loop fuel))
           else fork1 (\<lambda>pid.
             if pid = 0 then parse_and_run buf else Wait (\<lambda>_. sh_loop fuel)))"

fun sh_open_fds :: "nat \<Rightarrow> unit prog" where
  "sh_open_fds 0 = OutOfFuel"
| "sh_open_fds (Suc fuel) =
     Call (Open ''console'' O_RDWR) (\<lambda>fd.
       if fd < 0 then Ret ()
       else if fd \<ge> 3 then do_call (Close fd) (Ret ())
       else sh_open_fds fuel)"

definition sh_main :: "nat \<Rightarrow> unit prog" where
  "sh_main fuel = pbind (sh_open_fds fuel) (\<lambda>_. sh_loop fuel)"

subsection \<open>Descriptors of the children\<close>

text \<open>The kernel that answers all calls on descriptors, \<open>open\<close> included.\<close>

definition sh_kernel ::
  "(nat \<Rightarrow> bool) \<Rightarrow> bool \<Rightarrow> (kstate \<Rightarrow> (nat \<times> byte list) option) \<Rightarrow> lookup \<Rightarrow> kstate kernel \<Rightarrow> kstate kernel" where
  "sh_kernel gb killed fresh look other = fd_kernel gb killed fresh (open_kernel look other)"

lemma sh_kernel_simps [simp]:
  "k_call (sh_kernel gb killed fresh look other) (Write fd s) = sys_write gb killed fd s"
  "k_call (sh_kernel gb killed fresh look other) (Close fd) = sys_close fd"
  "k_call (sh_kernel gb killed fresh look other) (Dup fd) = sys_dup fd"
  "k_call (sh_kernel gb killed fresh look other) (Open p m) = sys_open look p m"
  "k_pipe (sh_kernel gb killed fresh look other) = sys_pipe fresh"
  by (simp_all add: sh_kernel_def fun_eq_iff) (simp add: fd_kernel_def open_kernel_def)

lemma run_pipe_child:
  assumes inv: "fd_inv st" and fd: "0 \<le> fd" "fd < p0" "fd < p1" "p0 \<noteq> p1" "p0 < int NOFILE" "p1 < int NOFILE"
    and low: "\<forall>j < nat fd. openFiles st ! j \<noteq> None"
    and files: "openFiles st ! nat fd = Some x" "openFiles st ! nat p0 = Some a" "openFiles st ! nat p1 = Some b"
    and own: "own = p0 \<and> w = a \<or> own = p1 \<and> w = b"
  shows "\<exists>st'. run (sh_kernel gb killed fresh look other) (pipe_child fd own p0 p1) st = (Returned (), st') \<and> fd_inv st' \<and>
    openFiles st' = (openFiles st)[nat fd := Some w, nat p0 := None, nat p1 := None]"
proof -
  have len: "length (openFiles st) = NOFILE" using inv by (simp add: fd_inv_def)
  have lt: "nat fd < NOFILE" "nat p0 < NOFILE" "nat p1 < NOFILE" "nat p0 \<noteq> nat fd" "nat p1 \<noteq> nat fd" "nat p0 \<noteq> nat p1"
    using fd by linarith+
  have own': "0 \<le> own" "own < int NOFILE" "nat own \<noteq> nat fd" "openFiles st ! nat own = Some w"
    using own fd lt files by auto
  from close_step [OF inv fd(1)] fd files(1) obtain st1 where
    s1: "sys_close fd st = Some (0, st1)" "fd_inv st1" "openFiles st1 = (openFiles st)[nat fd := None]" by force
  from dup_step [OF s1(2) own'(1,2), of w "nat fd"] obtain st2 where
    s2: "sys_dup own st1 = Some (int (nat fd), st2)" "fd_inv st2" "openFiles st2 = (openFiles st)[nat fd := Some w]"
    using own' lt low len s1(3) by auto
  from close_step [OF s2(2), of p0 a] obtain st3 where
    s3: "sys_close p0 st2 = Some (0, st3)" "fd_inv st3" "openFiles st3 = (openFiles st)[nat fd := Some w, nat p0 := None]"
    using fd lt files(2) s2(3) by auto
  from close_step [OF s3(2), of p1 b] obtain st4 where
    s4: "sys_close p1 st3 = Some (0, st4)" "fd_inv st4"
      "openFiles st4 = (openFiles st)[nat fd := Some w, nat p0 := None, nat p1 := None]"
    using fd lt files(3) s3(3) by auto
  show ?thesis using s1(1) s2(1) s3(1) s4 by (simp add: pipe_child_def)
qed

lemma update_twice_back:
  "i < length xs \<Longrightarrow> j < length xs \<Longrightarrow> i \<noteq> j \<Longrightarrow> k \<noteq> i \<Longrightarrow> k \<noteq> j \<Longrightarrow> xs ! i = z \<Longrightarrow> xs ! j = z \<Longrightarrow>
   xs[i := x, j := y, k := w, i := z, j := z] = xs[k := w]"
proof (rule nth_equalityI)
  fix n assume "i < length xs" "j < length xs" "i \<noteq> j" "k \<noteq> i" "k \<noteq> j" "xs ! i = z" "xs ! j = z"
    "n < length (xs[i := x, j := y, k := w, i := z, j := z])"
  then show "xs[i := x, j := y, k := w, i := z, j := z] ! n = xs[k := w] ! n"
    by (cases "n = i"; cases "n = j"; cases "n = k") simp_all
qed simp

text \<open>
  C1. The two children of a pipeline are connected as they should be: whatever descriptors \<open>pipe\<close>
  chooses in a process whose descriptors 0, 1 and 2 are open, the left child ends up with the pipe's write end as
  its descriptor 1, the right child with the read end as its descriptor 0, and in both of them every
  other descriptor is as before the pipe was made, so that neither keeps a second descriptor to it.
\<close>

theorem pipeline_wiring:
  assumes inv: "fd_inv st" and std: "\<forall>j < 3. openFiles st ! j \<noteq> None"
    and pipe: "sys_pipe fresh st = Some (Some (p0, p1), st1)"
  shows "\<exists>a b child left right.
    pipe_ends st1 a b \<and> sys_fork_files st1 = Some child \<and>
    run (sh_kernel gb killed fresh look other) (pipe_child 1 p1 p0 p1) child = (Returned (), left) \<and>
    openFiles left = (openFiles st)[1 := Some b] \<and> fd_inv left \<and>
    run (sh_kernel gb killed fresh look other) (pipe_child 0 p0 p0 p1) child = (Returned (), right) \<and>
    openFiles right = (openFiles st)[0 := Some a] \<and> fd_inv right"
proof -
  from sys_pipe_inv [OF inv, of fresh] pipe obtain a b where
    p: "0 \<le> p0" "p0 < p1" "p1 < int NOFILE" "openFiles st ! nat p0 = None" "openFiles st ! nat p1 = None"
      "openFiles st1 = (openFiles st)[nat p0 := Some a, nat p1 := Some b]" "pipe_ends st1 a b" "fd_inv st1"
    by auto
  have len: "length (openFiles st) = NOFILE" using inv by (simp add: fd_inv_def)
  have three: "3 \<le> nat p0"
  proof (rule ccontr)
    assume "\<not> 3 \<le> nat p0"
    then have "nat p0 < 3" by simp
    with std p(4) show False by blast
  qed
  have lt: "nat p0 < NOFILE" "nat p1 < NOFILE" "nat p0 \<noteq> nat p1" "3 \<le> nat p1" "1 < p0" "0 < p0"
    using p three by linarith+
  from fork_files_same [OF p(8)] obtain child where
    c: "sys_fork_files st1 = Some child" "fd_inv child" "openFiles child = openFiles st1" by blast
  obtain x y where xy: "openFiles st ! 0 = Some x" "openFiles st ! 1 = Some y" using std by fastforce
  have low: "openFiles child ! 0 = Some x" "openFiles child ! 1 = Some y"
    "openFiles child ! nat p0 = Some a" "openFiles child ! nat p1 = Some b"
    using xy lt three len by (simp_all add: c(3) p(6))
  note uc = update_twice_back [of "nat p0" "openFiles st" "nat p1" _ None]
  obtain left where l: "run (sh_kernel gb killed fresh look other) (pipe_child 1 p1 p0 p1) child = (Returned (), left)" "fd_inv left"
    "openFiles left = (openFiles child)[1 := Some b, nat p0 := None, nat p1 := None]"
    using run_pipe_child [OF c(2), of 1 p0 p1 y a b p1 b gb killed fresh look other] p three low lt by auto
  obtain right where r: "run (sh_kernel gb killed fresh look other) (pipe_child 0 p0 p0 p1) child = (Returned (), right)" "fd_inv right"
    "openFiles right = (openFiles child)[0 := Some a, nat p0 := None, nat p1 := None]"
    using run_pipe_child [OF c(2), of 0 p0 p1 x a b p0 a gb killed fresh look other] p three low lt by auto
  have "openFiles left = (openFiles st)[1 := Some b]" "openFiles right = (openFiles st)[0 := Some a]"
    using uc [of 1] uc [of 0] lt len three p(4,5) by (simp_all add: l(3) r(3) c(3) p(6))
  with p(7) c(1) l(1,2) r(1,2) show ?thesis by blast
qed

definition one_page :: "kstate \<Rightarrow> (nat \<times> byte list) option" where
  "one_page st = Some (7, replicate 512 NUL)"

lemma desc_state_pipe: "\<exists>st1. sys_pipe one_page desc_state = Some (Some (3, 4), st1)"
proof -
  have "map_option fst (sys_pipe one_page desc_state) = Some (Some (3, 4))" by code_simp
  then show ?thesis by auto
qed

theorem pipeline_wiring_witness:
  "\<exists>st1 child left. sys_pipe one_page desc_state = Some (Some (3, 4), st1) \<and> sys_fork_files st1 = Some child \<and>
     run (sh_kernel (\<lambda>_. True) False one_page no_files idle_kernel) (pipe_child 1 4 3 4) child = (Returned (), left) \<and>
     openFiles left ! 0 = Some 0 \<and> openFiles left ! 3 = None \<and> openFiles left ! 4 = None"
proof -
  have std: "\<forall>j < 3. openFiles desc_state ! j \<noteq> None" by (simp add: desc_state_def nth_Cons' split: if_splits)
  from desc_state_pipe obtain st1 where st1: "sys_pipe one_page desc_state = Some (Some (3, 4), st1)" by blast
  from pipeline_wiring [OF desc_state_inv std st1, of "\<lambda>_. True" False no_files idle_kernel] st1 show ?thesis
    by (auto simp: desc_state_def nth_list_update)
qed

text \<open>
  C34. A redirection puts the opened file on the descriptor it names: when all lower descriptors are
  open, \<open>close\<close> followed by a successful \<open>open\<close> gives exactly that descriptor, open on the inode that
  the path of the redirection leads to and in the mode of the redirection, leaves all other
  descriptors alone, and the command runs in that state.
\<close>

theorem redirection_wiring:
  assumes "fd_inv st" and "look_ok look" and "0 \<le> fd" and "fd < int NOFILE"
    and "\<forall>j \<le> nat fd. openFiles st ! j \<noteq> None"
    and "sys_close fd st = Some (0, st1)" and "sys_open look f mode st1 = Some (r, st2)" and "0 \<le> r"
  shows "r = fd \<and> fd_inv st2 \<and>
    run (sh_kernel gb killed fresh look other) (runcmd (REDIR c f mode fd)) st =
      run (sh_kernel gb killed fresh look other) (runcmd c) st2 \<and>
    (\<exists>i x. openFiles st2 = (openFiles st)[nat fd := Some i] \<and> i < length (files st2) \<and>
      fst (look f (open_create mode) st1) = Some x \<and> opened_as mode x (files st2 ! i))"
proof -
  have len: "nat fd < length (openFiles st)" "nat fd < NOFILE" using assms(1,3,4) by (simp_all add: fd_inv_def)
  obtain i where "openFiles st ! nat fd = Some i" using assms(5) by blast
  then have "getFile fd st = Some i" using assms(3,4) by (simp add: getFile_open)
  from sys_close_inv [OF assms(1) this] assms(6) have
    s1: "fd_inv st1" "openFiles st1 = (openFiles st)[nat fd := None]" by auto
  from sys_open_cases [OF s1(1) assms(2), of f mode] assms(7,8) obtain i x where
    o: "fd_inv st2" "openFiles st1 ! nat r = None" "\<forall>j < nat r. openFiles st1 ! j \<noteq> None"
      "openFiles st2 = (openFiles st1)[nat r := Some i]" "opened_as mode x (files st2 ! i)"
      "i < length (files st2)" "fst (look f (open_create mode) st1) = Some x" by auto
  have "\<not> nat fd < nat r"
  proof
    assume "nat fd < nat r"
    with o(3) have "openFiles st1 ! nat fd \<noteq> None" by blast
    with s1(2) len show False by simp
  qed
  moreover have "\<not> nat r < nat fd"
  proof
    assume lt: "nat r < nat fd"
    then have "openFiles st ! nat r \<noteq> None" using assms(5) less_imp_le by blast
    with o(2) s1(2) lt show False by simp
  qed
  ultimately have r: "nat r = nat fd" by linarith
  then have "r = fd" using assms(3,8) by simp
  moreover have "run (sh_kernel gb killed fresh look other) (runcmd (REDIR c f mode fd)) st =
      run (sh_kernel gb killed fresh look other) (runcmd c) st2"
    using assms(6-8) by simp
  moreover have "openFiles st2 = (openFiles st)[nat fd := Some i]" using o(4) r s1(2) by simp
  ultimately show ?thesis using o(1,5,6,7) by blast
qed

definition one_file :: lookup where "one_file p c st = (Some (5, TFile), st)"

theorem redirection_wiring_witness:
  "\<exists>st1 st2. sys_close 1 desc_state = Some (0, st1) \<and> sys_open one_file ''out'' 0x601 st1 = Some (1, st2) \<and>
     (\<exists>i. openFiles st2 = (openFiles desc_state)[1 := Some i] \<and> opened_as 0x601 (5, TFile) (files st2 ! i))"
proof -
  have "map_option (\<lambda>(r, st1). (r, map_option fst (sys_open one_file ''out'' 0x601 st1))) (sys_close 1 desc_state) =
      Some (0, Some 1)" by code_simp
  then obtain st1 st2 where s: "sys_close 1 desc_state = Some (0, st1)" "sys_open one_file ''out'' 0x601 st1 = Some (1, st2)"
    by (auto split: prod.splits)
  have std: "\<forall>j \<le> nat 1. openFiles desc_state ! j \<noteq> None" by (auto simp: desc_state_def nth_Cons' split: if_splits)
  have "look_ok one_file" by (simp add: look_ok_def one_file_def)
  from redirection_wiring [OF desc_state_inv this _ _ std s] s show ?thesis by (auto simp: NOFILE_def one_file_def)
qed

text \<open>
  \<open>cd\<close> takes as its path the rest of the line without its last character, also when that character
  is not the newline (a line cut off at 99 bytes, or the last line of a script without newline).
\<close>

lemma cd_drops_last:
  assumes "NUL \<notin> set d" and "x \<noteq> NUL"
  shows "cd_path (''cd '' @ d @ [x] @ NUL # rest) = d"
proof -
  have t: "takeWhile (\<lambda>c. c \<noteq> NUL) (s @ NUL # r) = s" if "NUL \<notin> set s" for s r
    using that by (induction s) auto
  let ?b = "''cd '' @ d @ [x] @ NUL # rest"
  have "string_at ?b 0 = ''cd '' @ d @ [x]"
    using t [of "''cd '' @ d @ [x]" rest] assms by (simp add: string_at_def)
  then have "length (string_at ?b 0) - 1 = length (''cd '' @ d)" by simp
  then have "cd_path ?b = string_at (?b[length (''cd '' @ d) := NUL]) 3"
    by (simp only: cd_path_def)
  also have "?b = (''cd '' @ d) @ x # NUL # rest" by simp
  also have "((''cd '' @ d) @ x # NUL # rest)[length (''cd '' @ d) := NUL] = (''cd '' @ d) @ NUL # NUL # rest"
    by (rule list_update_length)
  also have "(''cd '' @ d) @ NUL # NUL # rest = ''cd '' @ d @ NUL # NUL # rest" by simp
  also have "string_at (''cd '' @ d @ NUL # NUL # rest) 3 = d"
    using t [OF assms(1), of "NUL # rest"] by (simp add: string_at_def numeral_3_eq_3)
  finally show ?thesis by simp
qed

end
