(* ===== verification/Ringbuf.thy ===== *)
theory Ringbuf
  imports Prelude
begin

text \<open>
  Shared ring buffers, seen from the two processes that use one: \<^verbatim>\<open>src/user/ulib/uringbuf.zig\<close> and the
  benchmark \<^verbatim>\<open>src/user/rb.c\<close>.  The 16 pages of the buffer are mapped twice in a row, so that an index
  below twice the capacity is a cell of the buffer modulo the capacity.  The two counters in the
  book page only grow; the reader alone changes \<open>read_done\<close>, the writer alone \<open>write_done\<close>, so that the
  loads of both counters in one operation are one step, the load of the other side's counter.  Arithmetic on \<open>u64\<close> is
  checked, as in Zig; a failed check, slice bound or assertion is \<^term>\<open>None\<close>.
\<close>

subsection \<open>The buffer\<close>

definition BUF_CAPACITY :: nat where "BUF_CAPACITY = 16 * 4096"

record rbuf =
  read_done :: uint64
  write_done :: uint64
  cells :: "byte list"

definition magic_load :: "nat \<Rightarrow> rbuf \<Rightarrow> byte option" where
  "magic_load i r = (if i < 2 * BUF_CAPACITY then Some (cells r ! (i mod BUF_CAPACITY)) else None)"

definition magic_store :: "nat \<Rightarrow> byte \<Rightarrow> rbuf \<Rightarrow> rbuf option" where
  "magic_store i c r =
     (if i < 2 * BUF_CAPACITY then Some (r\<lparr>cells := (cells r)[i mod BUF_CAPACITY := c]\<rparr>) else None)"

definition usub :: "uint64 \<Rightarrow> uint64 \<Rightarrow> uint64 option" where
  "usub a b = (if b \<le> a then Some (a - b) else None)"

definition uadd :: "uint64 \<Rightarrow> uint64 \<Rightarrow> uint64 option" where
  "uadd a b = (if unat a + unat b < 2 ^ 64 then Some (a + b) else None)"

text \<open>A slice of the doubly mapped buffer: its first index and its length.\<close>

definition magic_slice :: "nat \<Rightarrow> nat \<Rightarrow> (nat \<times> nat) option" where
  "magic_slice start len = (if start + len \<le> 2 * BUF_CAPACITY then Some (start, len) else None)"

definition startRead :: "rbuf \<Rightarrow> (nat \<times> nat) option" where
  "startRead r = do {
     len \<leftarrow> usub (write_done r) (read_done r);
     magic_slice (unat (read_done r) mod BUF_CAPACITY) (unat len)
   }"

definition finishRead :: "nat \<Rightarrow> rbuf \<Rightarrow> rbuf option" where
  "finishRead byte_len r = do {
     d \<leftarrow> usub (write_done r) (read_done r);
     if d \<ge> of_nat byte_len then Some (r\<lparr>read_done := read_done r + of_nat byte_len\<rparr>) else None
   }"

definition startWrite :: "rbuf \<Rightarrow> (nat \<times> nat) option" where
  "startWrite r = do {
     used \<leftarrow> usub (write_done r) (read_done r);
     len \<leftarrow> usub (of_nat BUF_CAPACITY) used;
     magic_slice (unat (write_done r) mod BUF_CAPACITY) (unat len)
   }"

definition finishWrite :: "nat \<Rightarrow> rbuf \<Rightarrow> rbuf option" where
  "finishWrite byte_len r = do {
     e \<leftarrow> uadd (write_done r) (of_nat byte_len);
     d \<leftarrow> usub e (read_done r);
     if d \<le> of_nat BUF_CAPACITY then Some (r\<lparr>write_done := write_done r + of_nat byte_len\<rparr>) else None
   }"

subsection \<open>A writer and a reader\<close>

text \<open>
  Any writer and any reader that keep to the protocol: a window is taken, its bytes are written or read
  one at a time from its beginning, and as many bytes as were handled are finished.  \<open>sent\<close> and \<open>got\<close>
  record the bytes of the finished windows.
\<close>

type_synonym window = "nat \<times> nat \<times> byte list"

record spsc =
  rb :: rbuf
  wwin :: "window option"
  rwin :: "window option"
  sent :: "byte list"
  got :: "byte list"

inductive spsc_step :: "spsc \<Rightarrow> spsc \<Rightarrow> bool" where
  w_start: "wwin s = None \<Longrightarrow> startWrite (rb s) = Some (st, len) \<Longrightarrow> spsc_step s (s\<lparr>wwin := Some (st, len, [])\<rparr>)"
| w_put: "wwin s = Some (st, len, p) \<Longrightarrow> length p < len \<Longrightarrow> magic_store (st + length p) c (rb s) = Some r \<Longrightarrow>
    spsc_step s (s\<lparr>rb := r, wwin := Some (st, len, p @ [c])\<rparr>)"
| w_finish: "wwin s = Some (st, len, p) \<Longrightarrow> finishWrite (length p) (rb s) = Some r \<Longrightarrow>
    spsc_step s (s\<lparr>rb := r, wwin := None, sent := sent s @ p\<rparr>)"
| r_start: "rwin s = None \<Longrightarrow> startRead (rb s) = Some (st, len) \<Longrightarrow> spsc_step s (s\<lparr>rwin := Some (st, len, [])\<rparr>)"
| r_get: "rwin s = Some (st, len, g) \<Longrightarrow> length g < len \<Longrightarrow> magic_load (st + length g) (rb s) = Some c \<Longrightarrow>
    spsc_step s (s\<lparr>rwin := Some (st, len, g @ [c])\<rparr>)"
| r_finish: "rwin s = Some (st, len, g) \<Longrightarrow> finishRead (length g) (rb s) = Some r \<Longrightarrow>
    spsc_step s (s\<lparr>rb := r, rwin := None, got := got s @ g\<rparr>)"

text \<open>The pages are garbage when they are allocated, the book is zero.\<close>

definition rbuf_init :: "byte list \<Rightarrow> rbuf" where
  "rbuf_init cs = \<lparr>read_done = 0, write_done = 0, cells = cs\<rparr>"

definition spsc_init :: "byte list \<Rightarrow> spsc" where
  "spsc_init cs = \<lparr>rb = rbuf_init cs, wwin = None, rwin = None, sent = [], got = []\<rparr>"

definition rbuf_inv :: "rbuf \<Rightarrow> byte list \<Rightarrow> byte list \<Rightarrow> bool" where
  "rbuf_inv r snt gt \<longleftrightarrow>
     length (cells r) = BUF_CAPACITY \<and> unat (read_done r) = length gt \<and> unat (write_done r) = length snt \<and>
     length gt \<le> length snt \<and> length snt \<le> length gt + BUF_CAPACITY \<and> gt = take (length gt) snt \<and>
     (\<forall>i. length gt \<le> i \<longrightarrow> i < length snt \<longrightarrow> cells r ! (i mod BUF_CAPACITY) = snt ! i)"

definition wwin_inv :: "rbuf \<Rightarrow> byte list \<Rightarrow> byte list \<Rightarrow> window option \<Rightarrow> bool" where
  "wwin_inv r snt gt w \<longleftrightarrow> (case w of None \<Rightarrow> True | Some (st, len, p) \<Rightarrow>
     st = length snt mod BUF_CAPACITY \<and> length p \<le> len \<and> length snt + len \<le> length gt + BUF_CAPACITY \<and>
     (\<forall>j < length p. cells r ! ((length snt + j) mod BUF_CAPACITY) = p ! j))"

definition rwin_inv :: "byte list \<Rightarrow> byte list \<Rightarrow> window option \<Rightarrow> bool" where
  "rwin_inv snt gt w \<longleftrightarrow> (case w of None \<Rightarrow> True | Some (st, len, g) \<Rightarrow>
     st = length gt mod BUF_CAPACITY \<and> length g \<le> len \<and> length gt + len \<le> length snt \<and>
     g = take (length g) (drop (length gt) snt))"

definition spsc_inv :: "spsc \<Rightarrow> bool" where
  "spsc_inv s \<longleftrightarrow> rbuf_inv (rb s) (sent s) (got s) \<and> wwin_inv (rb s) (sent s) (got s) (wwin s) \<and>
     rwin_inv (sent s) (got s) (rwin s)"

subsection \<open>Counters and cells\<close>

lemma usub_unat: "usub a b = (if unat b \<le> unat a then Some (of_nat (unat a - unat b)) else None)"
  by (simp add: usub_def word_le_nat_alt of_nat_diff)

lemma unat_of_nat64: "n < 2 ^ 64 \<Longrightarrow> unat (of_nat n :: uint64) = n"
  by (simp add: unat_of_nat)

lemma cap_pos: "0 < BUF_CAPACITY" and cap_small: "2 * BUF_CAPACITY < 2 ^ 64"
  by (simp_all add: BUF_CAPACITY_def)

lemma unat_less64: "unat (a :: uint64) < 2 ^ 64"
  using unsigned_less [of a] by simp

text \<open>The operations in natural numbers.\<close>

lemma startRead_eq:
  assumes "rbuf_inv r snt gt"
  shows "startRead r = Some (length gt mod BUF_CAPACITY, length snt - length gt)"
proof -
  have b: "length snt - length gt \<le> BUF_CAPACITY" "length gt \<le> length snt" "length snt < 2 ^ 64"
    using assms unat_less64 [of "write_done r"] by (auto simp: rbuf_inv_def)
  have "unat (of_nat (length snt - length gt) :: uint64) = length snt - length gt"
    using b by (intro unat_of_nat64) simp
  moreover have "length gt mod BUF_CAPACITY < BUF_CAPACITY" using cap_pos by simp
  ultimately show ?thesis using assms b by (simp add: startRead_def usub_unat magic_slice_def rbuf_inv_def)
qed

lemma startWrite_eq:
  assumes "rbuf_inv r snt gt"
  shows "startWrite r = Some (length snt mod BUF_CAPACITY, length gt + BUF_CAPACITY - length snt)"
proof -
  have b: "length snt - length gt \<le> BUF_CAPACITY" "length gt \<le> length snt" "length snt < 2 ^ 64"
    using assms unat_less64 [of "write_done r"] by (auto simp: rbuf_inv_def)
  have u: "unat (of_nat (length snt - length gt) :: uint64) = length snt - length gt"
    "unat (of_nat BUF_CAPACITY :: uint64) = BUF_CAPACITY"
    "unat (of_nat (BUF_CAPACITY - (length snt - length gt)) :: uint64) = BUF_CAPACITY - (length snt - length gt)"
    using b cap_small by (intro unat_of_nat64; simp)+
  have "length snt mod BUF_CAPACITY < BUF_CAPACITY" using cap_pos by simp
  moreover have "BUF_CAPACITY - (length snt - length gt) = length gt + BUF_CAPACITY - length snt" using b by simp
  ultimately show ?thesis using assms b u by (simp add: startWrite_def usub_unat magic_slice_def rbuf_inv_def)
qed

lemma finishRead_eq:
  assumes "rbuf_inv r snt gt" and "k \<le> length snt - length gt"
  shows "\<exists>r'. finishRead k r = Some r' \<and> unat (read_done r') = length gt + k \<and> write_done r' = write_done r \<and> cells r' = cells r"
proof -
  have b: "length snt - length gt \<le> BUF_CAPACITY" "length gt \<le> length snt" "length snt < 2 ^ 64"
    using assms unat_less64 [of "write_done r"] by (auto simp: rbuf_inv_def)
  have u: "unat (of_nat (length snt - length gt) :: uint64) = length snt - length gt" "unat (of_nat k :: uint64) = k"
    using b assms(2) by (intro unat_of_nat64; simp)+
  have "unat (read_done r + of_nat k) = length gt + k"
    using assms b u(2) by (subst unat_add_lem [THEN iffD1]) (auto simp: rbuf_inv_def)
  with assms b u show ?thesis by (simp add: finishRead_def usub_unat rbuf_inv_def word_le_nat_alt)
qed

lemma finishWrite_eq:
  assumes "rbuf_inv r snt gt" and "length snt + k \<le> length gt + BUF_CAPACITY"
  shows "finishWrite k r = (if length snt + k < 2 ^ 64
    then Some (r\<lparr>write_done := write_done r + of_nat k\<rparr>) else None)"
    and "length snt + k < 2 ^ 64 \<Longrightarrow> unat (write_done r + of_nat k) = length snt + k"
proof -
  have b: "length gt \<le> length snt" "length snt < 2 ^ 64"
    using assms unat_less64 [of "write_done r"] by (auto simp: rbuf_inv_def)
  have u: "unat (of_nat k :: uint64) = k" "unat (of_nat BUF_CAPACITY :: uint64) = BUF_CAPACITY"
    using b assms(2) cap_small by (intro unat_of_nat64; simp)+
  have w: "unat (write_done r + of_nat k) = length snt + k" if "length snt + k < 2 ^ 64"
    using assms(1) that u(1) by (subst unat_add_lem [THEN iffD1]) (auto simp: rbuf_inv_def)
  then show "length snt + k < 2 ^ 64 \<Longrightarrow> unat (write_done r + of_nat k) = length snt + k" .
  show "finishWrite k r = (if length snt + k < 2 ^ 64
      then Some (r\<lparr>write_done := write_done r + of_nat k\<rparr>) else None)"
  proof (cases "length snt + k < 2 ^ 64")
    case True
    have "unat (of_nat (length snt + k - length gt) :: uint64) = length snt + k - length gt"
      using True by (intro unat_of_nat64) simp
    with True assms b u w show ?thesis
      by (simp add: finishWrite_def uadd_def usub_unat rbuf_inv_def word_le_nat_alt)
  next
    case False
    with assms(1) u show ?thesis by (simp add: finishWrite_def uadd_def rbuf_inv_def)
  qed
qed

lemma mod_window: "i < j \<Longrightarrow> j < i + c \<Longrightarrow> i mod c \<noteq> j mod (c :: nat)"
proof
  assume lt: "i < j" "j < i + c" and e: "i mod c = j mod c"
  from e lt(1) have "c dvd j - i" using mod_eq_dvd_iff_nat [of i j c] by simp
  with lt show False using dvd_imp_le [of c "j - i"] by simp
qed

subsection \<open>The invariant\<close>

lemma spsc_inv_init: "length cs = BUF_CAPACITY \<Longrightarrow> spsc_inv (spsc_init cs)"
  by (simp add: spsc_inv_def spsc_init_def rbuf_init_def rbuf_inv_def wwin_inv_def rwin_inv_def)

text \<open>A byte stored in the writer's window is in none of the unread cells and no other cell of the window.\<close>

lemma put_inv:
  assumes r: "rbuf_inv r snt gt" and w: "wwin_inv r snt gt (Some (st, len, p))" and k: "length p < len"
    and s: "magic_store (st + length p) c r = Some r'"
  shows "rbuf_inv r' snt gt \<and> wwin_inv r' snt gt (Some (st, len, p @ [c]))"
proof -
  let ?W = "length snt" and ?k = "length p" and ?R = "length gt"
  have st: "st = ?W mod BUF_CAPACITY" "?W + len \<le> ?R + BUF_CAPACITY"
    and p: "\<And>j. j < ?k \<Longrightarrow> cells r ! ((?W + j) mod BUF_CAPACITY) = p ! j" using w by (simp_all add: wwin_inv_def)
  have len: "length (cells r) = BUF_CAPACITY" using r by (simp add: rbuf_inv_def)
  define q where "q = (?W + ?k) mod BUF_CAPACITY"
  have q: "(st + ?k) mod BUF_CAPACITY = q" by (simp add: st(1) q_def mod_add_left_eq)
  have r': "r' = r\<lparr>cells := (cells r)[q := c]\<rparr>" using s q by (simp add: magic_store_def split: if_splits)
  have qlt: "q < BUF_CAPACITY" using cap_pos by (simp add: q_def)
  have unread: "q \<noteq> i mod BUF_CAPACITY" if "?R \<le> i" "i < ?W + ?k" for i
    unfolding q_def using that k st(2) by (intro mod_window [symmetric]) simp_all
  have "rbuf_inv r' snt gt" using r unread by (auto simp: r' rbuf_inv_def)
  moreover have RW: "?R \<le> ?W" using r by (simp add: rbuf_inv_def)
  have "cells r' ! ((?W + j) mod BUF_CAPACITY) = (p @ [c]) ! j" if "j < Suc ?k" for j
  proof (cases "j = ?k")
    case True
    then show ?thesis using qlt len by (simp add: r' q_def)
  next
    case False
    with that have "j < ?k" by simp
    with unread [of "?W + j"] p RW show ?thesis by (simp add: r' nth_append)
  qed
  ultimately show ?thesis using st k by (simp add: wwin_inv_def)
qed

lemma finish_write_inv:
  assumes r: "rbuf_inv r snt gt" and w: "wwin_inv r snt gt (Some (st, len, p))"
    and f: "finishWrite (length p) r = Some r'" and rw: "rwin_inv snt gt v"
  shows "rbuf_inv r' (snt @ p) gt \<and> rwin_inv (snt @ p) gt v"
proof -
  have fit: "length snt + length p \<le> length gt + BUF_CAPACITY"
    and pw: "\<And>j. j < length p \<Longrightarrow> cells r ! ((length snt + j) mod BUF_CAPACITY) = p ! j"
    using w by (simp_all add: wwin_inv_def)
  note e = finishWrite_eq [OF r fit]
  have "length snt + length p < 2 ^ 64" using f e(1) by (simp split: if_splits)
  with e f have r': "r' = r\<lparr>write_done := write_done r + of_nat (length p)\<rparr>"
    "unat (write_done r + of_nat (length p)) = length snt + length p" by simp_all
  have "cells r ! (i mod BUF_CAPACITY) = (snt @ p) ! i" if "length gt \<le> i" "i < length snt + length p" for i
  proof (cases "i < length snt")
    case False
    with that pw [of "i - length snt"] show ?thesis by (simp add: nth_append)
  qed (use r that in \<open>simp add: rbuf_inv_def nth_append\<close>)
  then have "rbuf_inv r' (snt @ p) gt" using r r' fit by (simp add: rbuf_inv_def)
  moreover have "rwin_inv (snt @ p) gt v"
    using rw r by (auto simp: rwin_inv_def rbuf_inv_def split: option.splits)
  ultimately show ?thesis by blast
qed

lemma get_inv:
  assumes r: "rbuf_inv r snt gt" and v: "rwin_inv snt gt (Some (st, len, g))" and k: "length g < len"
    and l: "magic_load (st + length g) r = Some c"
  shows "rwin_inv snt gt (Some (st, len, g @ [c])) \<and> c = snt ! (length gt + length g)"
proof -
  have st: "st = length gt mod BUF_CAPACITY" "length gt + len \<le> length snt"
    and g: "g = take (length g) (drop (length gt) snt)" using v by (simp_all add: rwin_inv_def)
  have "(st + length g) mod BUF_CAPACITY = (length gt + length g) mod BUF_CAPACITY"
    by (simp add: st(1) mod_add_left_eq)
  then have "c = cells r ! ((length gt + length g) mod BUF_CAPACITY)"
    using l by (simp add: magic_load_def split: if_splits)
  then have c: "c = snt ! (length gt + length g)" using r k st(2) by (simp add: rbuf_inv_def)
  have "take (Suc (length g)) (drop (length gt) snt) = take (length g) (drop (length gt) snt) @ [c]"
    using k st(2) c by (simp add: take_Suc_conv_app_nth)
  with g have "g @ [c] = take (length (g @ [c])) (drop (length gt) snt)" by simp
  with st k c show ?thesis by (simp add: rwin_inv_def)
qed

lemma finish_read_inv:
  assumes r: "rbuf_inv r snt gt" and v: "rwin_inv snt gt (Some (st, len, g))"
    and f: "finishRead (length g) r = Some r'" and w: "wwin_inv r snt gt u"
  shows "rbuf_inv r' snt (gt @ g) \<and> wwin_inv r' snt (gt @ g) u"
proof -
  have fit: "length g \<le> length snt - length gt" "length gt + length g \<le> length snt"
    and g: "g = take (length g) (drop (length gt) snt)" using v by (auto simp: rwin_inv_def)
  from finishRead_eq [OF r fit(1)] f have
    r': "unat (read_done r') = length gt + length g" "write_done r' = write_done r" "cells r' = cells r" by auto
  have gt: "gt = take (length gt) snt" using r by (simp add: rbuf_inv_def)
  have "gt @ g = take (length gt + length g) snt"
    by (subst gt, subst g) (simp add: take_add)
  then have "rbuf_inv r' snt (gt @ g)" using r r' fit(2) by (simp add: rbuf_inv_def)
  moreover have "wwin_inv r' snt (gt @ g) u"
    using w r' by (auto simp: wwin_inv_def split: option.splits)
  ultimately show ?thesis by blast
qed

lemma spsc_inv_step: "spsc_step s s' \<Longrightarrow> spsc_inv s \<Longrightarrow> spsc_inv s'"
proof (induction rule: spsc_step.induct)
  case (w_start s st len)
  then show ?case using startWrite_eq [of "rb s" "sent s" "got s"]
    by (auto simp: spsc_inv_def wwin_inv_def) (auto simp: rbuf_inv_def)
next
  case (w_put s st len p c r)
  then show ?case using put_inv [of "rb s" "sent s" "got s" st len p c r] by (simp add: spsc_inv_def)
next
  case (w_finish s st len p r)
  then show ?case using finish_write_inv [of "rb s" "sent s" "got s" st len p r "rwin s"]
    by (simp add: spsc_inv_def wwin_inv_def [of _ _ _ None])
next
  case (r_start s st len)
  then show ?case using startRead_eq [of "rb s" "sent s" "got s"]
    by (auto simp: spsc_inv_def rwin_inv_def) (auto simp: rbuf_inv_def)
next
  case (r_get s st len g c)
  then show ?case using get_inv [of "rb s" "sent s" "got s" st len g c, THEN conjunct1] by (simp add: spsc_inv_def)
next
  case (r_finish s st len g r)
  then show ?case using finish_read_inv [of "rb s" "sent s" "got s" st len g r "wwin s"]
    by (simp add: spsc_inv_def rwin_inv_def [of _ _ None])
qed

lemma spsc_reachable_inv: "spsc_step\<^sup>*\<^sup>* (spsc_init cs) s \<Longrightarrow> length cs = BUF_CAPACITY \<Longrightarrow> spsc_inv s"
  by (induction rule: rtranclp_induct) (auto intro: spsc_inv_init spsc_inv_step)

lemma wwin_bound: "rbuf_inv r snt gt \<Longrightarrow> wwin_inv r snt gt (Some (st, len, p)) \<Longrightarrow> st < BUF_CAPACITY \<and> len \<le> BUF_CAPACITY"
  using cap_pos by (auto simp: wwin_inv_def rbuf_inv_def)

lemma rwin_bound: "rbuf_inv r snt gt \<Longrightarrow> rwin_inv snt gt (Some (st, len, g)) \<Longrightarrow> st < BUF_CAPACITY \<and> len \<le> BUF_CAPACITY"
  using cap_pos by (auto simp: rwin_inv_def rbuf_inv_def)

lemma magic_store_defined: "st < BUF_CAPACITY \<Longrightarrow> i < BUF_CAPACITY \<Longrightarrow> magic_store (st + i) c r \<noteq> None"
  by (simp add: magic_store_def)

lemma magic_load_defined: "st < BUF_CAPACITY \<Longrightarrow> i < BUF_CAPACITY \<Longrightarrow> magic_load (st + i) r \<noteq> None"
  by (simp add: magic_load_def)

subsection \<open>Properties\<close>

lemma window_prefix: "rwin_inv snt gt (Some (st, len, g)) \<Longrightarrow> gt = take (length gt) snt \<Longrightarrow> gt @ g = take (length gt + length g) snt"
proof -
  assume "rwin_inv snt gt (Some (st, len, g))" and gt: "gt = take (length gt) snt"
  then have g: "g = take (length g) (drop (length gt) snt)" by (simp add: rwin_inv_def)
  show ?thesis by (subst gt, subst g) (simp add: take_add)
qed

text \<open>
  C2. A ring buffer is a bounded queue between its writer and its reader, in every interleaving of their
  operations and of the single bytes they write and read: what the reader has taken, bytes of an unfinished window included, is
  the beginning of what the writer has finished, in order and without loss; no more than the capacity is in between.
\<close>

theorem ringbuf_fifo:
  assumes "length cs = BUF_CAPACITY" and "spsc_step\<^sup>*\<^sup>* (spsc_init cs) s"
  shows "got s = take (length (got s)) (sent s) \<and> length (got s) \<le> length (sent s) \<and>
    length (sent s) \<le> length (got s) + BUF_CAPACITY \<and>
    (\<forall>st len g. rwin s = Some (st, len, g) \<longrightarrow> got s @ g = take (length (got s) + length g) (sent s))"
proof -
  have "spsc_inv s" using spsc_reachable_inv assms by blast
  then have r: "rbuf_inv (rb s) (sent s) (got s)" and w: "rwin_inv (sent s) (got s) (rwin s)" by (simp_all add: spsc_inv_def)
  from r w window_prefix [of "sent s" "got s"] show ?thesis by (auto simp: rbuf_inv_def)
qed

lemma spsc_example:
  assumes "length cs = BUF_CAPACITY"
  shows "\<exists>s. spsc_step\<^sup>*\<^sup>* (spsc_init cs) s \<and> sent s = [CHR ''x'']"
proof -
  let ?s0 = "spsc_init cs"
  have r0: "rbuf_inv (rb ?s0) [] []" using spsc_inv_init [OF assms] by (simp add: spsc_inv_def spsc_init_def)
  have "startWrite (rb ?s0) = Some (0, BUF_CAPACITY)" using startWrite_eq [OF r0] by simp
  then have s1: "spsc_step ?s0 (?s0\<lparr>wwin := Some (0, BUF_CAPACITY, [])\<rparr>)" (is "spsc_step _ ?s1")
    by (intro spsc_step.w_start) (simp_all add: spsc_init_def)
  obtain r where m: "magic_store 0 (CHR ''x'') (rb ?s0) = Some r" using cap_pos by (simp add: magic_store_def)
  then have s2: "spsc_step ?s1 (?s1\<lparr>rb := r, wwin := Some (0, BUF_CAPACITY, [] @ [CHR ''x''])\<rparr>)" (is "spsc_step _ ?s2")
    using cap_pos by (intro spsc_step.w_put [of _ 0 _ "[]"]) simp_all
  have "spsc_inv ?s2" using spsc_inv_step s1 s2 spsc_inv_init [OF assms] by blast
  then have "rbuf_inv r [] []" by (simp add: spsc_inv_def spsc_init_def)
  from finishWrite_eq(1) [OF this, of 1] obtain r' where "finishWrite 1 r = Some r'" by (auto simp: BUF_CAPACITY_def)
  then have s3: "spsc_step ?s2 (?s2\<lparr>rb := r', wwin := None, sent := sent ?s2 @ [] @ [CHR ''x'']\<rparr>)"
    by (intro spsc_step.w_finish) simp_all
  from s1 have "spsc_step\<^sup>*\<^sup>* ?s0 ?s1" by (rule r_into_rtranclp)
  from this s2 have "spsc_step\<^sup>*\<^sup>* ?s0 ?s2" by (rule rtranclp.rtrancl_into_rtrancl)
  from this s3 have "spsc_step\<^sup>*\<^sup>* ?s0 (?s2\<lparr>rb := r', wwin := None, sent := sent ?s2 @ [] @ [CHR ''x'']\<rparr>)"
    by (rule rtranclp.rtrancl_into_rtrancl)
  moreover have "sent (?s2\<lparr>rb := r', wwin := None, sent := sent ?s2 @ [] @ [CHR ''x'']\<rparr>) = [CHR ''x'']"
    by (simp add: spsc_init_def)
  ultimately show ?thesis by (intro exI conjI)
qed

theorem ringbuf_fifo_witness:
  "\<exists>s. spsc_step\<^sup>*\<^sup>* (spsc_init (replicate BUF_CAPACITY NUL)) s \<and> sent s = [CHR ''x''] \<and> length (got s) \<le> 1"
proof -
  have l: "length (replicate BUF_CAPACITY NUL) = BUF_CAPACITY" by simp
  from spsc_example [OF l] obtain s where s: "spsc_step\<^sup>*\<^sup>* (spsc_init (replicate BUF_CAPACITY NUL)) s" "sent s = [CHR ''x'']" by blast
  from ringbuf_fifo [OF l s(1)] s show ?thesis by (intro exI [of _ s]) simp
qed

text \<open>
  The library does not panic on its clients and they stay inside the buffer: in every reachable state a window can be
  taken by either side, each of its bytes can be accessed, and it can be finished after any number of bytes, as
  long as fewer than 2^64 bytes have gone through.
\<close>

lemma ringbuf_no_panic:
  assumes "length cs = BUF_CAPACITY" and "spsc_step\<^sup>*\<^sup>* (spsc_init cs) s"
  shows "startRead (rb s) \<noteq> None \<and> startWrite (rb s) \<noteq> None \<and>
    (\<forall>st len p. wwin s = Some (st, len, p) \<longrightarrow> (\<forall>i < len. \<forall>c. magic_store (st + i) c (rb s) \<noteq> None) \<and>
      (length (sent s) + length p < 2 ^ 64 \<longrightarrow> finishWrite (length p) (rb s) \<noteq> None)) \<and>
    (\<forall>st len g. rwin s = Some (st, len, g) \<longrightarrow> (\<forall>i < len. magic_load (st + i) (rb s) \<noteq> None) \<and>
      finishRead (length g) (rb s) \<noteq> None)"
proof -
  have "spsc_inv s" using spsc_reachable_inv assms by blast
  then have r: "rbuf_inv (rb s) (sent s) (got s)" and w: "wwin_inv (rb s) (sent s) (got s) (wwin s)"
    and v: "rwin_inv (sent s) (got s) (rwin s)" by (simp_all add: spsc_inv_def)
  have "startRead (rb s) \<noteq> None" "startWrite (rb s) \<noteq> None" using startRead_eq [OF r] startWrite_eq [OF r] by simp_all
  moreover have "(\<forall>i < len. \<forall>c. magic_store (st + i) c (rb s) \<noteq> None) \<and>
      (length (sent s) + length p < 2 ^ 64 \<longrightarrow> finishWrite (length p) (rb s) \<noteq> None)" if win: "wwin s = Some (st, len, p)" for st len p
  proof -
    have b: "st < BUF_CAPACITY" "len \<le> BUF_CAPACITY" using wwin_bound [OF r w [unfolded win]] by simp_all
    have "length (sent s) + length p \<le> length (got s) + BUF_CAPACITY" using w win by (simp add: wwin_inv_def)
    from finishWrite_eq(1) [OF r this] b show ?thesis by (auto simp: magic_store_defined)
  qed
  moreover have "(\<forall>i < len. magic_load (st + i) (rb s) \<noteq> None) \<and> finishRead (length g) (rb s) \<noteq> None"
    if win: "rwin s = Some (st, len, g)" for st len g
  proof -
    have b: "st < BUF_CAPACITY" "len \<le> BUF_CAPACITY" using rwin_bound [OF r v [unfolded win]] by simp_all
    have "length g \<le> length (sent s) - length (got s)" using v win by (auto simp: rwin_inv_def)
    from finishRead_eq [OF r this] b show ?thesis by (auto simp: magic_load_defined)
  qed
  ultimately show ?thesis by blast
qed

end
