(* ===== verification/Rbc.thy ===== *)
theory Rbc
  imports Ringbuf
begin

text \<open>
  The benchmark \<^verbatim>\<open>src/user/rb.c\<close>: the child writes pseudo-random bytes in windows of pseudo-random length
  through a ring buffer, the parent generates the same bytes and compares.  The two processes run
  interleaved: \<open>child_step\<close> and \<open>parent_step\<close> are one loop iteration, or one call of the library, each.  The states
  \<open>CUndefined\<close> (remainder by zero), \<open>CPanic\<close> and \<open>PPanic\<close> (a panic of the library or a fault) and
  \<open>PMismatch\<close> are the ones the program must not get into.
\<close>

unbundle bit_operations_syntax

subsection \<open>Definitions\<close>

definition WRITE_AMT :: int where "WRITE_AMT = 10 * 1024 * 1024"
definition SEED :: uint where "SEED = 42"

definition xorshift_generate_char :: "uint \<Rightarrow> byte \<times> uint" where
  "xorshift_generate_char state =
     (let state = state XOR push_bit 13 state;
          state = state XOR drop_bit 17 state;
          state = state XOR push_bit 5 state
      in (char_of (unat (state AND 0xFF)), state))"

definition xorshift_generate_uint64 :: "uint64 \<Rightarrow> uint64 \<times> uint64" where
  "xorshift_generate_uint64 state =
     (let state = state XOR push_bit 13 state;
          state = state XOR drop_bit 7 state;
          state = state XOR push_bit 17 state
      in (state, state))"

text \<open>\<open>CFill\<close> and \<open>PTake\<close>: first index of the window, number of bytes to handle, and \<open>i\<close>.\<close>

datatype child_pc = CLoop | CFill nat nat nat | CDone | CUndefined | CPanic
datatype parent_pc = PLoop | PTake nat nat nat | PDone | PMismatch | PPanic

record rb_state =
  buffer :: rbuf
  child :: child_pc
  gen2 :: uint
  size_generator :: uint64
  n_written :: int
  parent :: parent_pc
  gen1 :: uint
  n_read :: int

definition child_step :: "rb_state \<Rightarrow> rb_state option" where
  "child_step s = (case child s of
       CLoop \<Rightarrow>
         if n_written s < WRITE_AMT then
           (case startWrite (buffer s) of
              None \<Rightarrow> Some (s\<lparr>child := CPanic\<rparr>)
            | Some (buf, bytes) \<Rightarrow>
                if bytes = 0 then Some (s\<lparr>child := CUndefined\<rparr>)
                else (case xorshift_generate_uint64 (size_generator s) of (x, g) \<Rightarrow>
                  Some (s\<lparr>size_generator := g, child := CFill buf (unat (x mod of_nat bytes)) 0\<rparr>)))
         else Some (s\<lparr>child := CDone\<rparr>)
     | CFill buf write_amt i \<Rightarrow>
         if i < write_amt then
           (case xorshift_generate_char (gen2 s) of (c, g) \<Rightarrow>
              (case magic_store (buf + i) c (buffer s) of
                 None \<Rightarrow> Some (s\<lparr>child := CPanic\<rparr>)
               | Some r \<Rightarrow> Some (s\<lparr>buffer := r, gen2 := g, child := CFill buf write_amt (i + 1)\<rparr>)))
         else
           (case finishWrite write_amt (buffer s) of
              None \<Rightarrow> Some (s\<lparr>child := CPanic\<rparr>)
            | Some r \<Rightarrow> Some (s\<lparr>buffer := r, n_written := n_written s + int write_amt, child := CLoop\<rparr>))
     | _ \<Rightarrow> None)"

definition parent_step :: "rb_state \<Rightarrow> rb_state option" where
  "parent_step s = (case parent s of
       PLoop \<Rightarrow>
         if n_read s < WRITE_AMT then
           (case startRead (buffer s) of
              None \<Rightarrow> Some (s\<lparr>parent := PPanic\<rparr>)
            | Some (buf, bytes) \<Rightarrow> Some (s\<lparr>parent := PTake buf bytes 0\<rparr>))
         else Some (s\<lparr>parent := PDone\<rparr>)
     | PTake buf bytes i \<Rightarrow>
         if i < bytes then
           (case magic_load (buf + i) (buffer s) of
              None \<Rightarrow> Some (s\<lparr>parent := PPanic\<rparr>)
            | Some b \<Rightarrow> (case xorshift_generate_char (gen1 s) of (c, g) \<Rightarrow>
                if b \<noteq> c then Some (s\<lparr>gen1 := g, parent := PMismatch\<rparr>)
                else Some (s\<lparr>gen1 := g, parent := PTake buf bytes (i + 1)\<rparr>)))
         else
           (case finishRead bytes (buffer s) of
              None \<Rightarrow> Some (s\<lparr>parent := PPanic\<rparr>)
            | Some r \<Rightarrow> Some (s\<lparr>buffer := r, n_read := n_read s + int bytes, parent := PLoop\<rparr>))
     | _ \<Rightarrow> None)"

inductive rb_step :: "rb_state \<Rightarrow> rb_state \<Rightarrow> bool" where
  child: "child_step s = Some s' \<Longrightarrow> rb_step s s'"
| parent: "parent_step s = Some s' \<Longrightarrow> rb_step s s'"

definition rb_init :: "byte list \<Rightarrow> rb_state" where
  "rb_init cs = \<lparr>buffer = rbuf_init cs, child = CLoop, gen2 = SEED, size_generator = ucast SEED + 1, n_written = 0,
     parent = PLoop, gen1 = SEED, n_read = 0\<rparr>"

subsection \<open>The stream\<close>

text \<open>The first bytes that the generator delivers, and its state after them.\<close>

primrec stream_state :: "nat \<Rightarrow> uint" where
  "stream_state 0 = SEED"
| "stream_state (Suc n) = snd (xorshift_generate_char (stream_state n))"

definition stream_at :: "nat \<Rightarrow> byte" where
  "stream_at n = fst (xorshift_generate_char (stream_state n))"

definition stream_bytes :: "nat \<Rightarrow> byte list" where
  "stream_bytes n = map stream_at [0..<n]"

lemma stream_bytes_Suc: "stream_bytes (Suc n) = stream_bytes n @ [stream_at n]"
  by (simp add: stream_bytes_def)

lemma length_stream_bytes [simp]: "length (stream_bytes n) = n"
  by (simp add: stream_bytes_def)

lemma nth_stream_bytes [simp]: "i < n \<Longrightarrow> stream_bytes n ! i = stream_at i"
  by (simp add: stream_bytes_def)

lemma generate_stream: "xorshift_generate_char (stream_state n) = (stream_at n, stream_state (Suc n))"
  by (simp add: stream_at_def)

declare stream_state.simps(2) [simp del]

subsection \<open>Simulation\<close>

text \<open>
  What the child and the parent do is a run of the general writer and reader; the windows and the
  bytes sent are those of the generator.  The child leaves at least one cell free, so its next
  \<open>bytes\<close> is not 0.
\<close>

definition child_sim :: "child_pc \<Rightarrow> uint \<Rightarrow> byte list \<Rightarrow> window option \<Rightarrow> bool" where
  "child_sim pc g snt w \<longleftrightarrow> (case pc of
       CFill st amt i \<Rightarrow> (\<exists>len. w = Some (st, len, map stream_at [length snt..<length snt + i]) \<and> i \<le> amt \<and> amt < len) \<and>
         g = stream_state (length snt + i) \<and> int (length snt) < WRITE_AMT
     | CUndefined \<Rightarrow> False
     | CPanic \<Rightarrow> False
     | _ \<Rightarrow> w = None \<and> g = stream_state (length snt) \<and> (pc = CDone \<longrightarrow> WRITE_AMT \<le> int (length snt)))"

definition parent_sim :: "parent_pc \<Rightarrow> uint \<Rightarrow> byte list \<Rightarrow> window option \<Rightarrow> bool" where
  "parent_sim pc g gt w \<longleftrightarrow> (case pc of
       PTake st bytes i \<Rightarrow> (\<exists>bs. w = Some (st, bytes, bs) \<and> length bs = i) \<and> i \<le> bytes \<and> g = stream_state (length gt + i)
     | PMismatch \<Rightarrow> False
     | PPanic \<Rightarrow> False
     | _ \<Rightarrow> w = None \<and> g = stream_state (length gt) \<and> (pc = PDone \<longrightarrow> WRITE_AMT \<le> int (length gt)))"

definition is_stream :: "byte list \<Rightarrow> bool" where
  "is_stream bs \<longleftrightarrow> bs = stream_bytes (length bs)"

lemma is_streamD: "is_stream bs \<Longrightarrow> stream_bytes (length bs) = bs"
  unfolding is_stream_def by (rule sym)

lemma is_stream_append: "is_stream bs \<Longrightarrow> is_stream (bs @ map stream_at [length bs..<length bs + i])"
proof -
  assume "is_stream bs"
  then have e: "stream_bytes (length bs) = bs" by (rule is_streamD)
  have "stream_bytes (length bs) @ map stream_at [length bs..<length bs + i] = stream_bytes (length bs + i)"
    using upt_add_eq_append [of 0 "length bs" i] by (simp add: stream_bytes_def)
  with e show ?thesis by (simp add: is_stream_def)
qed

lemma is_stream_nth: "is_stream bs \<Longrightarrow> k < length bs \<Longrightarrow> bs ! k = stream_at k"
proof -
  assume "is_stream bs" and k: "k < length bs"
  then have "stream_bytes (length bs) = bs" by (intro is_streamD)
  with nth_stream_bytes [OF k] show ?thesis by simp
qed

definition rb_sim :: "rb_state \<Rightarrow> spsc \<Rightarrow> bool" where
  "rb_sim s c \<longleftrightarrow> spsc_inv c \<and> buffer s = rb c \<and> is_stream (sent c) \<and>
     length (sent c) < length (got c) + BUF_CAPACITY \<and> n_written s = int (length (sent c)) \<and>
     n_read s = int (length (got c)) \<and>
     child_sim (child s) (gen2 s) (sent c) (wwin c) \<and> parent_sim (parent s) (gen1 s) (got c) (rwin c)"

lemma rb_sim_init: "length cs = BUF_CAPACITY \<Longrightarrow> rb_sim (rb_init cs) (spsc_init cs)"
  using spsc_inv_init [of cs] cap_pos
  by (simp add: rb_sim_def rb_init_def spsc_init_def child_sim_def parent_sim_def is_stream_def stream_bytes_def WRITE_AMT_def)

lemma child_simulation:
  assumes sim: "rb_sim s c" and step: "child_step s = Some s'"
  shows "\<exists>c'. (c' = c \<or> spsc_step c c') \<and> rb_sim s' c'"
proof -
  let ?W = "length (sent c)" and ?R = "length (got c)"
  have inv: "spsc_inv c" and r: "rbuf_inv (rb c) (sent c) (got c)" and w: "wwin_inv (rb c) (sent c) (got c) (wwin c)"
    and b: "buffer s = rb c" and snt: "is_stream (sent c)" and free: "?W < ?R + BUF_CAPACITY"
    and nw: "n_written s = int ?W" and cs: "child_sim (child s) (gen2 s) (sent c) (wwin c)"
    using sim by (simp_all add: rb_sim_def spsc_inv_def)
  show ?thesis
  proof (cases "child s")
    case CLoop
    then have pc: "wwin c = None" "gen2 s = stream_state ?W" using cs by (simp_all add: child_sim_def)
    show ?thesis
    proof (cases "n_written s < WRITE_AMT")
      case True
      let ?len = "?R + BUF_CAPACITY - ?W" and ?st = "?W mod BUF_CAPACITY"
      have sw: "startWrite (rb c) = Some (?st, ?len)" using startWrite_eq [OF r] .
      obtain x g where x: "xorshift_generate_uint64 (size_generator s) = (x, g)" by fastforce
      have len: "0 < ?len" "?len \<le> BUF_CAPACITY" using free r by (auto simp: rbuf_inv_def)
      then have "unat (of_nat ?len :: uint64) = ?len" using cap_small by (intro unat_of_nat64) linarith
      then have amt: "unat (x mod of_nat ?len) < ?len" using len(1) by (simp add: unat_mod)
      let ?c = "c\<lparr>wwin := Some (?st, ?len, [])\<rparr>"
      have st: "spsc_step c ?c" using pc(1) sw by (rule spsc_step.w_start)
      have s': "s' = s\<lparr>size_generator := g, child := CFill ?st (unat (x mod of_nat ?len)) 0\<rparr>"
        using step CLoop True sw b x len(1) by (simp add: child_step_def)
      have "rb_sim s' ?c"
        using sim spsc_inv_step [OF st inv] pc(2) amt True unfolding s'
        by (simp add: rb_sim_def child_sim_def)
      with st show ?thesis by blast
    next
      case False
      then have s': "s' = s\<lparr>child := CDone\<rparr>" using step CLoop by (simp add: child_step_def)
      have "rb_sim s' c" using sim pc False unfolding s' by (simp add: rb_sim_def child_sim_def)
      then show ?thesis by blast
    qed
  next
    case (CFill st amt i)
    then obtain len where win: "wwin c = Some (st, len, map stream_at [?W..<?W + i])" "i \<le> amt" "amt < len"
      and gen: "gen2 s = stream_state (?W + i)" using cs by (auto simp: child_sim_def)
    note bound = wwin_bound [OF r w [unfolded win(1)]]
    have lt: "n_written s < WRITE_AMT" using cs CFill nw by (simp add: child_sim_def)
    show ?thesis
    proof (cases "i < amt")
      case True
      obtain m where m: "magic_store (st + i) (stream_at (?W + i)) (rb c) = Some m"
        using magic_store_defined [of st i "stream_at (?W + i)" "rb c"] bound win True by auto
      have s': "s' = s\<lparr>buffer := m, gen2 := stream_state (Suc (?W + i)), child := CFill st amt (i + 1)\<rparr>"
        using step CFill True m b gen generate_stream [of "?W + i"] by (simp add: child_step_def)
      let ?c = "c\<lparr>rb := m, wwin := Some (st, len, map stream_at [?W..<?W + i] @ [stream_at (?W + i)])\<rparr>"
      have st: "spsc_step c ?c"
        by (rule spsc_step.w_put [OF win(1)]) (use True win m in simp_all)
      have "rb_sim s' ?c"
        using sim spsc_inv_step [OF st inv] win True CFill unfolding s'
        by (simp add: rb_sim_def child_sim_def)
      with st show ?thesis by blast
    next
      case False
      then have i: "i = amt" using win(2) by simp
      have fit: "?W + amt \<le> ?R + BUF_CAPACITY" "?W + amt < ?R + BUF_CAPACITY"
        using w win by (simp_all add: wwin_inv_def)
      have small: "int ?W + int amt < WRITE_AMT + int BUF_CAPACITY" using lt nw win bound by simp
      then have "?W + amt < 2 ^ 64" by (simp add: WRITE_AMT_def BUF_CAPACITY_def)
      with finishWrite_eq(1) [OF r fit(1)] obtain m where m: "finishWrite amt (rb c) = Some m" by simp
      have s': "s' = s\<lparr>buffer := m, n_written := n_written s + int amt, child := CLoop\<rparr>"
        using step CFill False m b by (simp add: child_step_def)
      let ?c = "c\<lparr>rb := m, wwin := None, sent := sent c @ map stream_at [?W..<?W + i]\<rparr>"
      have st: "spsc_step c ?c" by (rule spsc_step.w_finish [OF win(1)]) (use m i in simp)
      have "is_stream (sent c @ map stream_at [?W..<?W + i])" using snt by (rule is_stream_append)
      then have "rb_sim s' ?c"
        using sim spsc_inv_step [OF st inv] gen fit i small unfolding s'
        by (simp add: rb_sim_def child_sim_def)
      with st show ?thesis by blast
    qed
  qed (use step in \<open>simp_all add: child_step_def\<close>)
qed

lemma parent_simulation:
  assumes sim: "rb_sim s c" and step: "parent_step s = Some s'"
  shows "\<exists>c'. (c' = c \<or> spsc_step c c') \<and> rb_sim s' c'"
proof -
  let ?W = "length (sent c)" and ?R = "length (got c)"
  have inv: "spsc_inv c" and r: "rbuf_inv (rb c) (sent c) (got c)" and w: "rwin_inv (sent c) (got c) (rwin c)"
    and b: "buffer s = rb c" and snt: "is_stream (sent c)" and nr: "n_read s = int ?R" and ps: "parent_sim (parent s) (gen1 s) (got c) (rwin c)"
    using sim by (simp_all add: rb_sim_def spsc_inv_def)
  show ?thesis
  proof (cases "parent s")
    case PLoop
    then have pc: "rwin c = None" "gen1 s = stream_state ?R" using ps by (simp_all add: parent_sim_def)
    show ?thesis
    proof (cases "n_read s < WRITE_AMT")
      case True
      let ?st = "?R mod BUF_CAPACITY" and ?len = "?W - ?R"
      have sr: "startRead (rb c) = Some (?st, ?len)" using startRead_eq [OF r] .
      let ?c = "c\<lparr>rwin := Some (?st, ?len, [])\<rparr>"
      have st: "spsc_step c ?c" using pc(1) sr by (rule spsc_step.r_start)
      have s': "s' = s\<lparr>parent := PTake ?st ?len 0\<rparr>" using step PLoop True sr b by (simp add: parent_step_def)
      have "rb_sim s' ?c"
        using sim spsc_inv_step [OF st inv] pc(2) unfolding s' by (simp add: rb_sim_def parent_sim_def)
      with st show ?thesis by blast
    next
      case False
      then have s': "s' = s\<lparr>parent := PDone\<rparr>" using step PLoop by (simp add: parent_step_def)
      have "rb_sim s' c" using sim pc False unfolding s'
        by (simp add: rb_sim_def parent_sim_def)
      then show ?thesis by blast
    qed
  next
    case (PTake st bytes i)
    then obtain g where win: "rwin c = Some (st, bytes, g)" "length g = i" "i \<le> bytes"
      and gen: "gen1 s = stream_state (?R + i)" using ps by (auto simp: parent_sim_def)
    note bound = rwin_bound [OF r w [unfolded win(1)]]
    have fit: "?R + bytes \<le> ?W" using w win by (simp add: rwin_inv_def)
    show ?thesis
    proof (cases "i < bytes")
      case True
      obtain x where x: "magic_load (st + i) (rb c) = Some x"
        using magic_load_defined [of st i "rb c"] bound True by auto
      have "x = sent c ! (?R + i)"
        using get_inv [OF r w [unfolded win(1)] _ x [folded win(2)]] True win(2) by simp
      also have "\<dots> = stream_at (?R + i)" using fit True by (intro is_stream_nth [OF snt]) simp
      finally have xs: "x = stream_at (?R + i)" .
      have s': "s' = s\<lparr>gen1 := stream_state (Suc (?R + i)), parent := PTake st bytes (i + 1)\<rparr>"
        using step PTake True x b gen xs generate_stream [of "?R + i"] by (simp add: parent_step_def)
      let ?c = "c\<lparr>rwin := Some (st, bytes, g @ [x])\<rparr>"
      have st: "spsc_step c ?c" by (rule spsc_step.r_get [OF win(1)]) (use True win x in simp_all)
      have "rb_sim s' ?c"
        using sim spsc_inv_step [OF st inv] win True unfolding s'
        by (simp add: rb_sim_def parent_sim_def)
      with st show ?thesis by blast
    next
      case False
      then have i: "i = bytes" using win(3) by simp
      have "bytes \<le> ?W - ?R" using fit by simp
      from finishRead_eq [OF r this] obtain m where m: "finishRead bytes (rb c) = Some m" by blast
      have s': "s' = s\<lparr>buffer := m, n_read := n_read s + int bytes, parent := PLoop\<rparr>"
        using step PTake False m b by (simp add: parent_step_def)
      let ?c = "c\<lparr>rb := m, rwin := None, got := got c @ g\<rparr>"
      have st: "spsc_step c ?c" by (rule spsc_step.r_finish [OF win(1)]) (use m i win in simp)
      have "rb_sim s' ?c"
        using sim spsc_inv_step [OF st inv] gen i win unfolding s'
        by (simp add: rb_sim_def parent_sim_def)
      with st show ?thesis by blast
    qed
  qed (use step in \<open>simp_all add: parent_step_def\<close>)
qed

subsection \<open>Properties\<close>

lemma rb_reachable: "rb_step\<^sup>*\<^sup>* (rb_init cs) s \<Longrightarrow> length cs = BUF_CAPACITY \<Longrightarrow> \<exists>c. rb_sim s c"
proof (induction rule: rtranclp_induct)
  case base
  then show ?case using rb_sim_init by blast
next
  case (step s s')
  then obtain c where c: "rb_sim s c" by blast
  from step.hyps(2) show ?case
  proof cases
    case child
    with child_simulation [OF c] show ?thesis by blast
  next
    case parent
    with parent_simulation [OF c] show ?thesis by blast
  qed
qed

text \<open>
  C16. The benchmark's check never fails: in every interleaving of the two processes the bytes that the parent
  reads are those it generates itself, the library does not panic, all accesses are inside the mapping, and the child never
  computes a remainder by zero, as it always leaves a cell of the buffer free.  The parent has read
  at most what the child has written, and both stop only after 10 MiB.
\<close>

theorem rb_stream_intact:
  assumes "length cs = BUF_CAPACITY" and "rb_step\<^sup>*\<^sup>* (rb_init cs) s"
  shows "parent s \<noteq> PMismatch \<and> parent s \<noteq> PPanic \<and> child s \<noteq> CPanic \<and> child s \<noteq> CUndefined \<and>
    n_read s \<le> n_written s \<and> n_written s < n_read s + int BUF_CAPACITY \<and>
    (child s = CDone \<longrightarrow> WRITE_AMT \<le> n_written s) \<and> (parent s = PDone \<longrightarrow> WRITE_AMT \<le> n_read s)"
proof -
  from rb_reachable [OF assms(2,1)] obtain c where c: "rb_sim s c" by blast
  then have "length (got c) \<le> length (sent c)" by (simp add: rb_sim_def spsc_inv_def rbuf_inv_def)
  with c show ?thesis by (auto simp: rb_sim_def child_sim_def parent_sim_def split: child_pc.splits parent_pc.splits)
qed

lemma rb_example:
  assumes l: "length cs = BUF_CAPACITY"
  shows "\<exists>s amt. rb_step\<^sup>*\<^sup>* (rb_init cs) s \<and> child s = CFill 0 amt 0 \<and> parent s = PTake 0 0 0"
proof -
  have r0: "rbuf_inv (rbuf_init cs) [] []" using spsc_inv_init [OF l] by (simp add: spsc_inv_def spsc_init_def)
  let ?x = "xorshift_generate_uint64 (ucast SEED + 1)"
  define amt where "amt = unat (fst ?x mod of_nat BUF_CAPACITY)"
  let ?s1 = "(rb_init cs)\<lparr>size_generator := snd ?x, child := CFill 0 amt 0\<rparr>"
  have "child_step (rb_init cs) = Some ?s1"
    using startWrite_eq [OF r0] cap_pos
    by (simp add: child_step_def rb_init_def WRITE_AMT_def amt_def split: prod.split)
  then have s1: "rb_step (rb_init cs) ?s1" by (rule rb_step.child)
  have "parent_step ?s1 = Some (?s1\<lparr>parent := PTake 0 0 0\<rparr>)"
    using startRead_eq [OF r0] by (simp add: parent_step_def rb_init_def WRITE_AMT_def)
  then have s2: "rb_step ?s1 (?s1\<lparr>parent := PTake 0 0 0\<rparr>)" by (rule rb_step.parent)
  have "rb_step\<^sup>*\<^sup>* (rb_init cs) (?s1\<lparr>parent := PTake 0 0 0\<rparr>)"
    by (rule rtranclp.rtrancl_into_rtrancl [OF r_into_rtranclp [of rb_step, OF s1] s2])
  moreover have "child (?s1\<lparr>parent := PTake 0 0 0\<rparr>) = CFill 0 amt 0 \<and> parent (?s1\<lparr>parent := PTake 0 0 0\<rparr>) = PTake 0 0 0"
    by simp
  ultimately show ?thesis by blast
qed

theorem rb_stream_intact_witness:
  "\<exists>s amt. rb_step\<^sup>*\<^sup>* (rb_init (replicate BUF_CAPACITY NUL)) s \<and> child s = CFill 0 amt 0 \<and> parent s = PTake 0 0 0 \<and>
     n_read s \<le> n_written s"
proof -
  have l: "length (replicate BUF_CAPACITY NUL) = BUF_CAPACITY" by simp
  from rb_example [OF l] obtain s amt where s: "rb_step\<^sup>*\<^sup>* (rb_init (replicate BUF_CAPACITY NUL)) s"
    "child s = CFill 0 amt 0" "parent s = PTake 0 0 0" by blast
  from rb_stream_intact [OF l s(1)] s show ?thesis by blast
qed

end
