(* ===== verification/Kringbuf.thy ===== *)
theory Kringbuf
  imports Prelude "HOL-Library.Multiset"
begin

text \<open>
  The kernel's ring buffers: \<^verbatim>\<open>src/kernel/datastructures/ringbuf.zig\<close> and the system call around it
  (\<^verbatim>\<open>traps/sysfile.zig\<close>).  A table of ten ring buffers, each with up to two owners; the pages come from a
  pool (the page allocator, last in first out) and are mapped into the address space of a process by \<open>maps\<close>.  Addresses are
  byte addresses of pages.  \<open>maps\<close> holds the mappings of ring buffers: mapping an address that has one fails
  (\<^verbatim>\<open>AlreadyMappedPage\<close> of \<^verbatim>\<open>memory/virtual_memory.zig\<close>), and unmapping an address that has none, or one that is not
  page-aligned, is a panic, as is every step that the code leaves undefined (a counter below zero).  Whether the walk of the
  page table succeeds at an address where no other page of the process is (\<open>can_map\<close>) and whether the result can be copied
  out are decided by the memory management, a parameter; a kernel panic is \<open>KPanic\<close>.  The lowest used page of a process
  goes down with each open; where the code would take it below zero the model stays at zero, so the
  lemmas about opens ask for 34 pages.  The copy of a name into the buffer for
  names, whose lengths differ, is taken to set the name.  The buffer pages are
  all present or all absent, so their array is a list of length 16 or 0.
\<close>

subsection \<open>Definitions\<close>

definition RINGBUF_SIZE :: nat where "RINGBUF_SIZE = 16"
definition MAX_NAME_LEN :: nat where "MAX_NAME_LEN = 16"
definition MAX_RINGBUFS :: nat where "MAX_RINGBUFS = 10"
definition page_size :: nat where "page_size = 4096"

datatype rb_error =
    AlreadyActive | AlreadyIsOwner | AlreadyTwoOwners | NoOriginalOwner | BadNameLength | OutOfMemory
  | NoFreeRingbuf | MapPagesFailed | CopyOutFailed | CopyInFailed | NoAddrGiven | NameNotFound
  | NotOwner | BadAddr | AlreadyInactive

definition rb_errors :: "rb_error list" where
  "rb_errors = [AlreadyActive, AlreadyIsOwner, AlreadyTwoOwners, NoOriginalOwner, BadNameLength, OutOfMemory,
     NoFreeRingbuf, MapPagesFailed, CopyOutFailed, CopyInFailed, NoAddrGiven, NameNotFound,
     NotOwner, BadAddr, AlreadyInactive]"

text \<open>The position in the list of errors, from 1, negated.\<close>

definition intFromErr :: "rb_error \<Rightarrow> int" where
  "intFromErr err = (case find (\<lambda>i. rb_errors ! i = err) [0..<length rb_errors] of
     Some i \<Rightarrow> - (int i + 1) | None \<Rightarrow> 0)"

definition errFromInt :: "int \<Rightarrow> rb_error option" where
  "errFromInt val = map_option ((!) rb_errors) (find (\<lambda>i. val = - (int i + 1)) [0..<length rb_errors])"

type_synonym pid = nat
type_synonym page = nat

record owner =
  proc :: "pid option"
  vbuf :: nat
  vbook :: nat

record kringbuf =
  refcount :: nat
  owners :: "owner list"
  name_buf :: string
  buf_pages :: "page list"
  book_page :: "page option"

record kring =
  ringbufs :: "kringbuf list"
  pool :: "page list"
  maps :: "pid \<Rightarrow> nat \<Rightarrow> page option"
  topFree :: "pid \<Rightarrow> nat"
  ownedCount :: "pid \<Rightarrow> nat"

datatype kret = KDone kring | KErr rb_error kring | KPanic

definition no_owner :: owner where
  "no_owner = \<lparr>proc = None, vbuf = 0, vbook = 0\<rparr>"

definition no_ringbuf :: kringbuf where
  "no_ringbuf = \<lparr>refcount = 0, owners = [no_owner, no_owner], name_buf = [], buf_pages = [], book_page = None\<rparr>"

definition set_ring :: "nat \<Rightarrow> kringbuf \<Rightarrow> kring \<Rightarrow> kring" where
  "set_ring i r k = k\<lparr>ringbufs := (ringbufs k)[i := r]\<rparr>"

definition activate :: "nat \<Rightarrow> string \<Rightarrow> kring \<Rightarrow> kret" where
  "activate i name k =
     (let r = ringbufs k ! i in
      if refcount r > 0 then KErr AlreadyActive k
      else if length name > MAX_NAME_LEN \<or> name = [] then KErr BadNameLength k
      else
        let r = r\<lparr>name_buf := name\<rparr> in
        if length (pool k) < RINGBUF_SIZE + 1
        then KErr OutOfMemory (set_ring i r k\<lparr>pool := rev (pool k)\<rparr>)
        else KDone (set_ring i (r\<lparr>buf_pages := take RINGBUF_SIZE (pool k), book_page := Some (pool k ! RINGBUF_SIZE)\<rparr>)
               k\<lparr>pool := drop (RINGBUF_SIZE + 1) (pool k)\<rparr>))"

text \<open>\<^term>\<open>None\<close> is a panic.\<close>

definition deactivate :: "nat \<Rightarrow> kring \<Rightarrow> kring option" where
  "deactivate i k =
     (let r = ringbufs k ! i in
      case book_page r of
        None \<Rightarrow> None
      | Some b \<Rightarrow>
          if proc (owners r ! 0) \<noteq> None \<or> proc (owners r ! 1) \<noteq> None then None
          else Some (set_ring i no_ringbuf k\<lparr>pool := b # rev (buf_pages r) @ pool k\<rparr>))"

text \<open>Unmapping; \<^term>\<open>None\<close> is a panic.\<close>

fun unmap_pages :: "pid \<Rightarrow> nat \<Rightarrow> nat \<Rightarrow> kring \<Rightarrow> kring option" where
  "unmap_pages p v 0 k = Some k"
| "unmap_pages p v (Suc n) k =
     (if maps k p v = None then None
      else unmap_pages p (v + page_size) n (k\<lparr>maps := (maps k)(p := (maps k p)(v := None))\<rparr>))"

definition unmap :: "pid \<Rightarrow> nat \<Rightarrow> nat \<Rightarrow> kring \<Rightarrow> kring option" where
  "unmap p v n k = (if v mod page_size \<noteq> 0 then None else unmap_pages p v n k)"

definition owner_index :: "kringbuf \<Rightarrow> pid \<Rightarrow> nat option" where
  "owner_index r p =
     (if proc (owners r ! 0) = Some p then Some 0 else if proc (owners r ! 1) = Some p then Some 1 else None)"

definition disownIfOwned :: "nat \<Rightarrow> pid \<Rightarrow> kring \<Rightarrow> kring option" where
  "disownIfOwned i p k =
     (let r = ringbufs k ! i in
      case owner_index r p of
        None \<Rightarrow> Some k
      | Some w \<Rightarrow>
          let ow = owners r ! w in
          if vbuf ow = 0 then None
          else (case unmap p (vbuf ow) (RINGBUF_SIZE * 2) k of
              None \<Rightarrow> None
            | Some k \<Rightarrow>
                if vbook ow = 0 then None
                else (case unmap p (vbook ow) 1 k of
                    None \<Rightarrow> None
                  | Some k \<Rightarrow>
                      if refcount r = 0 \<or> ownedCount k p = 0 then None
                      else
                        let r = r\<lparr>owners := (owners r)[w := no_owner], refcount := refcount r - 1\<rparr>;
                            k = set_ring i r k\<lparr>ownedCount := (ownedCount k)(p := ownedCount k p - 1)\<rparr>
                        in if refcount r = 0 then deactivate i k else Some k)))"

definition findFreeRingbuf :: "kring \<Rightarrow> nat option" where
  "findFreeRingbuf k = find (\<lambda>i. refcount (ringbufs k ! i) = 0) [0..<MAX_RINGBUFS]"

definition findRingbufByName :: "string \<Rightarrow> kring \<Rightarrow> nat option" where
  "findRingbufByName name k =
     find (\<lambda>i. refcount (ringbufs k ! i) \<noteq> 0 \<and> name_buf (ringbufs k ! i) = name) [0..<MAX_RINGBUFS]"

text \<open>The ring buffer to open and which of its owners the process becomes; \<^term>\<open>None\<close> is a panic.\<close>

definition open_slot :: "string \<Rightarrow> pid \<Rightarrow> kring \<Rightarrow> (rb_error + nat \<times> nat) option \<times> kring" where
  "open_slot name p k =
     (case findRingbufByName name k of
        Some i \<Rightarrow>
          let os = owners (ringbufs k ! i);
              owner_count = length (filter (\<lambda>ow. proc ow \<noteq> None) os)
          in if Some p \<in> proc ` set os then (Some (Inl AlreadyIsOwner), k)
             else if owner_count = 0 then (None, k)
             else if owner_count = 2 then (Some (Inl AlreadyTwoOwners), k)
             else (Some (Inr (i, if proc (os ! 1) = None then 1 else 0)), k)
      | None \<Rightarrow> (case findFreeRingbuf k of
            Some i \<Rightarrow> (case activate i name k of
                KDone k' \<Rightarrow>
                  if proc (owners (ringbufs k' ! i) ! 0) \<noteq> None \<or> proc (owners (ringbufs k' ! i) ! 1) \<noteq> None then (None, k')
                  else (Some (Inr (i, 0)), k')
              | KErr e k' \<Rightarrow> (Some (Inl e), k')
              | KPanic \<Rightarrow> (None, k))
          | None \<Rightarrow> (Some (Inl NoFreeRingbuf), k)))"

fun map_pages :: "(pid \<Rightarrow> nat \<Rightarrow> bool) \<Rightarrow> pid \<Rightarrow> page list \<Rightarrow> kring \<Rightarrow> bool \<times> kring" where
  "map_pages can_map p [] k = (True, k)"
| "map_pages can_map p (pg # pgs) k =
     (if can_map p (topFree k p) \<and> maps k p (topFree k p) = None
      then map_pages can_map p pgs
             (k\<lparr>maps := (maps k)(p := (maps k p)(topFree k p \<mapsto> pg)), topFree := (topFree k)(p := topFree k p - page_size)\<rparr>)
      else (False, k))"

definition set_owner :: "nat \<Rightarrow> nat \<Rightarrow> (owner \<Rightarrow> owner) \<Rightarrow> (nat \<Rightarrow> nat) \<Rightarrow> kring \<Rightarrow> kring" where
  "set_owner i w f g k =
     (let r = ringbufs k ! i
      in set_ring i (r\<lparr>owners := (owners r)[w := f (owners r ! w)], refcount := g (refcount r)\<rparr>) k)"

text \<open>The handler \<open>errdefer\<close> of an open that fails after the process has become an owner.\<close>

definition open_failed :: "nat \<Rightarrow> nat \<Rightarrow> rb_error \<Rightarrow> kring \<Rightarrow> kret" where
  "open_failed i w e k =
     (case deactivate i (set_owner i w (\<lambda>ow. ow\<lparr>proc := None\<rparr>) (\<lambda>n. n - 1) k) of None \<Rightarrow> KPanic | Some k' \<Rightarrow> KErr e k')"

definition ringbuf_open :: "(pid \<Rightarrow> nat \<Rightarrow> bool) \<Rightarrow> bool \<Rightarrow> string \<Rightarrow> pid \<Rightarrow> kring \<Rightarrow> kret" where
  "ringbuf_open can_map copy_ok name p k =
     (case open_slot name p k of
        (None, k) \<Rightarrow> KPanic
      | (Some (Inl e), k) \<Rightarrow> KErr e k
      | (Some (Inr (i, w)), k) \<Rightarrow>
          let pgs = buf_pages (ringbufs k ! i);
              k = set_owner i w (\<lambda>ow. ow\<lparr>proc := Some p\<rparr>) Suc k\<lparr>ownedCount := (ownedCount k)(p := ownedCount k p + 1)\<rparr>
          in (case map_pages can_map p (pgs @ pgs) k of
                (False, k) \<Rightarrow> open_failed i w MapPagesFailed k
              | (True, k) \<Rightarrow>
                  (case book_page (ringbufs k ! i) of
                     None \<Rightarrow> KPanic
                   | Some b \<Rightarrow>
                       (case map_pages can_map p [b] k of
                          (False, k) \<Rightarrow> open_failed i w MapPagesFailed k
                        | (True, k) \<Rightarrow>
                            let k = set_owner i w (\<lambda>ow. ow\<lparr>vbook := topFree k p + page_size, vbuf := topFree k p + 2 * page_size\<rparr>) id k
                            in if \<not> copy_ok then open_failed i w CopyOutFailed k
                               else KDone (k\<lparr>topFree := (topFree k)(p := topFree k p - page_size)\<rparr>)))))"

text \<open>\<open>addr\<close> is the address that was copied in, \<^term>\<open>None\<close> where that failed.\<close>

definition ringbuf_close :: "string \<Rightarrow> nat option \<Rightarrow> pid \<Rightarrow> kring \<Rightarrow> kret" where
  "ringbuf_close name addr p k =
     (case addr of
        None \<Rightarrow> KErr CopyInFailed k
      | Some vaddr \<Rightarrow>
          (case findRingbufByName name k of
             None \<Rightarrow> KErr NameNotFound k
           | Some i \<Rightarrow>
               let r = ringbufs k ! i in
               if vaddr = 0 then KErr NoAddrGiven k
               else (case owner_index r p of
                   None \<Rightarrow> KErr NotOwner k
                 | Some w \<Rightarrow>
                     if vbuf (owners r ! w) \<noteq> vaddr then KErr BadAddr k
                     else if vbook (owners r ! w) \<noteq> vaddr - page_size then KErr BadAddr k
                     else if refcount r = 0 then KErr AlreadyInactive k
                     else if book_page r = None then KPanic
                     else (case disownIfOwned i p k of
                         None \<Rightarrow> KPanic
                       | Some k' \<Rightarrow>
                           KDone (if topFree k' p = vaddr - 3 * page_size
                             then k'\<lparr>topFree := (topFree k')(p := topFree k' p + page_size * (1 + 1 + 2 * RINGBUF_SIZE))\<rparr>
                             else k')))))"

datatype rb_op = Open bool | CloseAt "nat option"

definition ringbuf :: "(pid \<Rightarrow> nat \<Rightarrow> bool) \<Rightarrow> string \<Rightarrow> rb_op \<Rightarrow> pid \<Rightarrow> kring \<Rightarrow> kret" where
  "ringbuf can_map name op p k =
     (if length name > MAX_NAME_LEN \<or> name = [] then KErr BadNameLength k
      else case op of
          Open copy_ok \<Rightarrow> ringbuf_open can_map copy_ok name p k
        | CloseAt addr \<Rightarrow> ringbuf_close name addr p k)"

text \<open>
  The system call.  \<open>a0\<close> is the name, \<^term>\<open>None\<close> for a null or unreadable pointer; it has to fit the
  16-byte buffer with its NUL.  \<open>a2\<close> is the address of the pointer, null or not.  The result is the number returned to the
  process; \<^term>\<open>None\<close> is a panic.
\<close>

definition sys_ringbuf :: "(pid \<Rightarrow> nat \<Rightarrow> bool) \<Rightarrow> string option \<Rightarrow> rb_op \<Rightarrow> nat \<Rightarrow> pid \<Rightarrow> kring \<Rightarrow> (int \<times> kring) option" where
  "sys_ringbuf can_map a0 a1 a2 p k =
     (case a0 of
        None \<Rightarrow> Some (intFromErr BadNameLength, k)
      | Some name \<Rightarrow>
          if length name \<ge> MAX_NAME_LEN then Some (intFromErr BadNameLength, k)
          else if a2 = 0 then Some (intFromErr NoAddrGiven, k)
          else case ringbuf can_map name a1 p k of
              KDone k' \<Rightarrow> Some (0, k')
            | KErr e k' \<Rightarrow> Some (intFromErr e, k')
            | KPanic \<Rightarrow> None)"

fun disown_from :: "nat list \<Rightarrow> pid \<Rightarrow> kring \<Rightarrow> kring option" where
  "disown_from [] p k = Some k"
| "disown_from (i # is) p k = (case disownIfOwned i p k of None \<Rightarrow> None | Some k' \<Rightarrow> disown_from is p k')"

definition ringbuf_disown_all :: "pid \<Rightarrow> kring \<Rightarrow> kring option" where
  "ringbuf_disown_all p k = disown_from [0..<MAX_RINGBUFS] p k"

text \<open>What the end of a process does to its ring buffers; the next process that gets the slot starts with the top address \<open>t\<close>.\<close>

definition free_ringbufs :: "nat \<Rightarrow> pid \<Rightarrow> kring \<Rightarrow> kring option" where
  "free_ringbufs t p k =
     (case if ownedCount k p > 0 then ringbuf_disown_all p k else Some k of
        None \<Rightarrow> None
      | Some k' \<Rightarrow> Some (k'\<lparr>topFree := (topFree k')(p := t), ownedCount := (ownedCount k')(p := 0)\<rparr>))"


subsection \<open>The bookkeeping invariant\<close>

text \<open>
  A ring buffer is in use when it has an owner, and then it has all its pages and a name; the processes that own
  it are different, and each has an address for it.  Two ring buffers in use have different names.
\<close>

definition ring_pages :: "kringbuf \<Rightarrow> page list" where
  "ring_pages r = buf_pages r @ (case book_page r of None \<Rightarrow> [] | Some b \<Rightarrow> [b])"

definition owner_ok :: "owner \<Rightarrow> bool" where
  "owner_ok ow = (if proc ow = None then ow = no_owner else vbuf ow \<noteq> 0 \<and> vbook ow \<noteq> 0)"

definition ring_ok :: "kringbuf \<Rightarrow> bool" where
  "ring_ok r =
     (length (owners r) = 2 \<and> list_all owner_ok (owners r)
      \<and> refcount r = length (filter (\<lambda>ow. proc ow \<noteq> None) (owners r))
      \<and> (proc (owners r ! 0) = proc (owners r ! 1) \<longrightarrow> proc (owners r ! 0) = None)
      \<and> (if refcount r = 0 then buf_pages r = [] \<and> book_page r = None
         else length (buf_pages r) = RINGBUF_SIZE \<and> book_page r \<noteq> None
              \<and> name_buf r \<noteq> [] \<and> length (name_buf r) \<le> MAX_NAME_LEN))"

definition names_differ :: "kringbuf list \<Rightarrow> bool" where
  "names_differ rs = (\<forall>i < length rs. \<forall>j < length rs.
     refcount (rs ! i) \<noteq> 0 \<and> refcount (rs ! j) \<noteq> 0 \<and> name_buf (rs ! i) = name_buf (rs ! j) \<longrightarrow> i = j)"

definition kring_inv :: "kring \<Rightarrow> bool" where
  "kring_inv k = (length (ringbufs k) = MAX_RINGBUFS \<and> list_all ring_ok (ringbufs k) \<and> names_differ (ringbufs k))"

text \<open>All pages of the pool and of the ring buffers.\<close>

definition kpages :: "kring \<Rightarrow> page multiset" where
  "kpages k = mset (pool k) + (\<Sum>r \<in># mset (ringbufs k). mset (ring_pages r))"

definition kring_init :: "page list \<Rightarrow> (pid \<Rightarrow> nat) \<Rightarrow> kring" where
  "kring_init pgs tops = \<lparr>ringbufs = replicate MAX_RINGBUFS no_ringbuf, pool = pgs, maps = (\<lambda>_ _. None), topFree = tops,
     ownedCount = (\<lambda>_. 0)\<rparr>"

lemma no_ringbuf_simps [simp]:
  "refcount no_ringbuf = 0" "owners no_ringbuf = [no_owner, no_owner]" "buf_pages no_ringbuf = []" "book_page no_ringbuf = None"
  "ring_pages no_ringbuf = []"
  by (simp_all add: no_ringbuf_def ring_pages_def)

lemma length_2_cases: "length xs = 2 \<longleftrightarrow> (\<exists>a b. xs = [a, b])"
  by (auto simp: numeral_2_eq_2 length_Suc_conv)

lemma ring_ok_no_ringbuf [simp]: "ring_ok no_ringbuf"
  by (simp add: ring_ok_def no_ringbuf_def owner_ok_def no_owner_def)

lemma ring_okE:
  assumes "ring_ok r"
  obtains a b where "owners r = [a, b]" "owner_ok a" "owner_ok b"
    "refcount r = (if proc a = None then 0 else 1) + (if proc b = None then 0 else 1)"
    "proc a = proc b \<longrightarrow> proc a = None"
  using assms unfolding ring_ok_def length_2_cases by (auto split: if_splits)

lemma kring_invD:
  assumes "kring_inv k" "i < MAX_RINGBUFS"
  shows "ring_ok (ringbufs k ! i)"
  using assms by (simp add: kring_inv_def list_all_length)

lemma nth_upd: "j < length xs \<Longrightarrow> xs[i := x] ! j = (if j = i then x else xs ! j)"
  by (auto simp: nth_list_update)

lemma names_differ_update:
  assumes "names_differ rs" "refcount r \<noteq> 0 \<longrightarrow>
     (\<forall>j < length rs. j \<noteq> i \<longrightarrow> refcount (rs ! j) \<noteq> 0 \<longrightarrow> name_buf (rs ! j) \<noteq> name_buf r)"
  shows "names_differ (rs[i := r])"
  using assms unfolding names_differ_def by (simp add: nth_upd del: neq0_conv) metis

lemma list_all_update: "list_all P xs \<Longrightarrow> P x \<Longrightarrow> list_all P (xs[i := x])"
  by (simp add: list_all_length nth_upd)

lemma kring_inv_update:
  assumes "kring_inv k" "ring_ok r" "ringbufs k' = (ringbufs k)[i := r]"
    "refcount r \<noteq> 0 \<longrightarrow>
     (\<forall>j < MAX_RINGBUFS. j \<noteq> i \<longrightarrow> refcount (ringbufs k ! j) \<noteq> 0 \<longrightarrow> name_buf (ringbufs k ! j) \<noteq> name_buf r)"
  shows "kring_inv k'"
  using assms by (simp add: kring_inv_def list_all_update names_differ_update)

lemma kring_inv_rename_same:
  assumes "kring_inv k" "ring_ok r" "ringbufs k' = (ringbufs k)[i := r]" "i < MAX_RINGBUFS"
    "refcount r \<noteq> 0 \<longrightarrow> refcount (ringbufs k ! i) \<noteq> 0 \<and> name_buf r = name_buf (ringbufs k ! i)"
  shows "kring_inv k'"
proof (rule kring_inv_update [OF assms(1-3)])
  show "refcount r \<noteq> 0 \<longrightarrow> (\<forall>j < MAX_RINGBUFS. j \<noteq> i \<longrightarrow> refcount (ringbufs k ! j) \<noteq> 0 \<longrightarrow>
      name_buf (ringbufs k ! j) \<noteq> name_buf r)"
    using assms(1,4,5) unfolding kring_inv_def names_differ_def by metis
qed

lemma kpages_update:
  assumes "i < length (ringbufs k)" "ringbufs k' = (ringbufs k)[i := r]"
    "mset (pool k') + mset (ring_pages r) = mset (pool k) + mset (ring_pages (ringbufs k ! i))"
  shows "kpages k' = kpages k"
proof -
  define M where "M = mset (ringbufs k) - {#ringbufs k ! i#}"
  have k: "mset (ringbufs k) = add_mset (ringbufs k ! i) M"
    unfolding M_def using assms(1) by simp
  have k': "mset (ringbufs k') = add_mset r M"
    unfolding M_def assms(2) using mset_update [OF assms(1)] by simp
  show ?thesis
    unfolding kpages_def k k' using assms(3) by (simp add: ac_simps)
qed

lemma kring_inv_init: "kring_inv (kring_init pgs tops)"
  by (simp add: kring_inv_def kring_init_def names_differ_def list_all_length)


lemma set_ring_simps [simp]:
  "ringbufs (set_ring i r k) = (ringbufs k)[i := r]" "pool (set_ring i r k) = pool k" "maps (set_ring i r k) = maps k"
  "topFree (set_ring i r k) = topFree k" "ownedCount (set_ring i r k) = ownedCount k"
  by (simp_all add: set_ring_def)

text \<open>The state without the mappings of a process at some addresses.\<close>

definition without :: "pid \<Rightarrow> nat set \<Rightarrow> kring \<Rightarrow> kring" where
  "without p A k = k\<lparr>maps := (maps k)(p := (\<lambda>a. if a \<in> A then None else maps k p a))\<rparr>"

lemma without_simps [simp]:
  "ringbufs (without p A k) = ringbufs k" "pool (without p A k) = pool k" "topFree (without p A k) = topFree k"
  "ownedCount (without p A k) = ownedCount k"
  "maps (without p A k) q a = (if q = p \<and> a \<in> A then None else maps k q a)"
  by (simp_all add: without_def)

lemma without_empty [simp]: "without p {} k = k"
  by (simp add: without_def)

lemma without_without [simp]: "without p A (without p B k) = without p (A \<union> B) k"
  by (simp add: without_def fun_eq_iff)

definition page_range :: "nat \<Rightarrow> nat \<Rightarrow> nat list" where
  "page_range v n = map (\<lambda>j. v + j * page_size) [0..<n]"

lemma mem_page_range: "a \<in> set (page_range v n) \<longleftrightarrow> (\<exists>j < n. a = v + j * page_size)"
  by (auto simp: page_range_def)

lemma page_range_Suc: "page_range v (Suc n) = v # page_range (v + page_size) n"
  unfolding page_range_def upt_conv_Cons [OF zero_less_Suc] map_Suc_upt [symmetric] by (simp add: comp_def add.assoc)

lemma page_size_pos [simp]: "page_size > 0"
  by (simp add: page_size_def)

lemma distinct_page_range [simp]: "distinct (page_range v n)"
  using page_size_pos by (auto simp: page_range_def distinct_map inj_on_def simp del: page_size_pos)

lemma unmap_pages_mapped:
  "\<forall>a \<in> set (page_range v n). maps k p a \<noteq> None \<Longrightarrow> unmap_pages p v n k = Some (without p (set (page_range v n)) k)"
proof (induction n arbitrary: v k)
  case 0
  then show ?case by (simp add: page_range_def)
next
  case (Suc n)
  define k1 where "k1 = k\<lparr>maps := (maps k)(p := (maps k p)(v := None))\<rparr>"
  have d: "v \<notin> set (page_range (v + page_size) n)" using distinct_page_range [of v "Suc n"] by (simp add: page_range_Suc)
  have "\<forall>a \<in> set (page_range (v + page_size) n). maps k1 p a \<noteq> None" using Suc.prems d by (auto simp: page_range_Suc k1_def)
  note IH = Suc.IH [OF this]
  have "without p (set (page_range (v + page_size) n)) k1 = without p (set (page_range v (Suc n))) k"
    by (simp add: without_def k1_def page_range_Suc fun_eq_iff)
  then show ?case using IH Suc.prems by (simp add: page_range_Suc k1_def)
qed

lemma unmap_mapped:
  "v mod page_size = 0 \<Longrightarrow> \<forall>a \<in> set (page_range v n). maps k p a \<noteq> None \<Longrightarrow>
   unmap p v n k = Some (without p (set (page_range v n)) k)"
  by (simp add: unmap_def unmap_pages_mapped)

text \<open>The addresses at which an owner has the pages of its ring buffer, and what an owner relies on to give them back.\<close>

definition owner_addrs :: "owner \<Rightarrow> nat list" where
  "owner_addrs ow = vbook ow # page_range (vbuf ow) (RINGBUF_SIZE * 2)"

definition owner_mapped :: "pid \<Rightarrow> owner \<Rightarrow> kring \<Rightarrow> bool" where
  "owner_mapped p ow k =
     (vbuf ow mod page_size = 0 \<and> vbook ow mod page_size = 0 \<and> distinct (owner_addrs ow)
      \<and> (\<forall>a \<in> set (owner_addrs ow). maps k p a \<noteq> None))"

definition can_disown :: "nat \<Rightarrow> pid \<Rightarrow> kring \<Rightarrow> bool" where
  "can_disown i p k = (case owner_index (ringbufs k ! i) p of
     None \<Rightarrow> True | Some w \<Rightarrow> owner_mapped p (owners (ringbufs k ! i) ! w) k \<and> 0 < ownedCount k p)"

lemma unmap_owner:
  assumes "owner_mapped p ow k"
  shows "\<exists>k1. unmap p (vbuf ow) (RINGBUF_SIZE * 2) k = Some k1 \<and> unmap p (vbook ow) 1 k1 = Some (without p (set (owner_addrs ow)) k)"
proof -
  let ?k1 = "without p (set (page_range (vbuf ow) (RINGBUF_SIZE * 2))) k"
  have d: "vbook ow \<notin> set (page_range (vbuf ow) (RINGBUF_SIZE * 2))" and b: "page_range (vbook ow) 1 = [vbook ow]"
    using assms by (simp_all add: owner_mapped_def owner_addrs_def page_range_def)
  have "unmap p (vbuf ow) (RINGBUF_SIZE * 2) k = Some ?k1"
    by (rule unmap_mapped) (use assms in \<open>auto simp: owner_mapped_def owner_addrs_def\<close>)
  moreover have "unmap p (vbook ow) 1 ?k1 = Some (without p (set (page_range (vbook ow) 1)) ?k1)"
    by (rule unmap_mapped) (use assms d b in \<open>auto simp: owner_mapped_def owner_addrs_def\<close>)
  ultimately show ?thesis using b by (simp add: owner_addrs_def)
qed

lemma findRingbufByName_Some:
  "findRingbufByName nm k = Some i \<Longrightarrow> i < MAX_RINGBUFS \<and> refcount (ringbufs k ! i) \<noteq> 0 \<and> name_buf (ringbufs k ! i) = nm"
  unfolding findRingbufByName_def find_Some_iff by auto

lemma findRingbufByName_None:
  "findRingbufByName nm k = None \<longleftrightarrow> (\<forall>i < MAX_RINGBUFS. refcount (ringbufs k ! i) \<noteq> 0 \<longrightarrow> name_buf (ringbufs k ! i) \<noteq> nm)"
  unfolding findRingbufByName_def find_None_iff by auto

lemma findFreeRingbuf_Some: "findFreeRingbuf k = Some i \<Longrightarrow> i < MAX_RINGBUFS \<and> refcount (ringbufs k ! i) = 0"
  unfolding findFreeRingbuf_def find_Some_iff by auto

lemma kring_length: "kring_inv k \<Longrightarrow> length (ringbufs k) = MAX_RINGBUFS"
  by (simp add: kring_inv_def)

definition kgood :: "kring \<Rightarrow> kring \<Rightarrow> bool" where
  "kgood k k' = (kring_inv k' \<and> kpages k' = kpages k)"

text \<open>Deactivating a ring buffer whose owners are gone.\<close>

lemma deactivate_spec:
  assumes "kring_inv k" "i < MAX_RINGBUFS" "ringbufs k' = (ringbufs k)[i := r]" "pool k' = pool k"
    "book_page r = book_page (ringbufs k ! i)" "buf_pages r = buf_pages (ringbufs k ! i)" "book_page r \<noteq> None"
    "owners r = [a, b]" "proc a = None" "proc b = None"
  shows "\<exists>k2. deactivate i k' = Some k2 \<and> kgood k k2 \<and> maps k2 = maps k' \<and> topFree k2 = topFree k' \<and>
     ownedCount k2 = ownedCount k' \<and> ringbufs k2 = (ringbufs k)[i := no_ringbuf] \<and>
     set (ring_pages (ringbufs k ! i)) \<subseteq> set (pool k2)"
proof -
  obtain bk where bk: "book_page r = Some bk" using assms(7) by blast
  then have bk': "book_page (ringbufs k ! i) = Some bk" using assms(5) by simp
  have len: "i < length (ringbufs k)" using kring_length [OF assms(1)] assms(2) by simp
  let ?k2 = "set_ring i no_ringbuf k'\<lparr>pool := bk # rev (buf_pages r) @ pool k'\<rparr>"
  have d: "deactivate i k' = Some ?k2"
    unfolding deactivate_def using assms(3,8,9,10) len bk by simp
  have inv: "kring_inv ?k2"
    by (rule kring_inv_rename_same [OF assms(1) ring_ok_no_ringbuf _ assms(2)]) (simp_all add: assms(3))
  have pages: "kpages ?k2 = kpages k"
    by (rule kpages_update [OF len]) (use assms(3,4,6) bk bk' in \<open>auto simp: ring_pages_def\<close>)
  show ?thesis
    using d inv pages assms(3,6) bk' by (auto simp: kgood_def ring_pages_def)
qed

text \<open>Disowning does not panic when the pages of the owner are mapped and its count is not zero.\<close>

definition disowned :: "pid \<Rightarrow> nat \<Rightarrow> kring \<Rightarrow> kring \<Rightarrow> bool" where
  "disowned p i k k' =
     (kgood k k' \<and> topFree k' = topFree k \<and>
      (case owner_index (ringbufs k ! i) p of
         None \<Rightarrow> k' = k
       | Some w \<Rightarrow>
           ownedCount k' = (ownedCount k)(p := ownedCount k p - 1) \<and>
           maps k' = maps (without p (set (owner_addrs (owners (ringbufs k ! i) ! w))) k) \<and>
           ringbufs k' = (ringbufs k)[i := ringbufs k' ! i] \<and>
           owner_index (ringbufs k' ! i) p = None \<and>
           (\<forall>ow \<in> set (owners (ringbufs k' ! i)). proc ow \<noteq> None \<longrightarrow> ow \<in> set (owners (ringbufs k ! i))) \<and>
           (\<forall>ow \<in> set (owners (ringbufs k ! i)). proc ow \<noteq> None \<longrightarrow> proc ow \<noteq> Some p \<longrightarrow>
              ow \<in> set (owners (ringbufs k' ! i)) \<and> buf_pages (ringbufs k' ! i) = buf_pages (ringbufs k ! i) \<and>
              book_page (ringbufs k' ! i) = book_page (ringbufs k ! i))))"

lemma disown_spec:
  assumes inv: "kring_inv k" and i: "i < MAX_RINGBUFS" and can: "can_disown i p k"
  shows "\<exists>k'. disownIfOwned i p k = Some k' \<and> disowned p i k k'"
proof (cases "owner_index (ringbufs k ! i) p")
  case None
  then show ?thesis using inv by (simp add: disownIfOwned_def disowned_def kgood_def)
next
  case (Some w)
  define r where "r = ringbufs k ! i"
  have ok: "ring_ok r" unfolding r_def by (rule kring_invD [OF inv i])
  obtain a b where ab: "owners r = [a, b]" "owner_ok a" "owner_ok b"
      "refcount r = (if proc a = None then 0 else 1) + (if proc b = None then 0 else 1)" "proc a = proc b \<longrightarrow> proc a = None"
    by (rule ring_okE [OF ok])
  have len: "i < length (ringbufs k)" using kring_length [OF inv] i by simp
  define k1 where "k1 = without p (set (owner_addrs (owners r ! w))) k"
  have "owner_mapped p (owners r ! w) k" and cnt: "0 < ownedCount k1 p"
    using can Some by (simp_all add: can_disown_def r_def k1_def)
  then obtain k0 where un: "unmap p (vbuf (owners r ! w)) (RINGBUF_SIZE * 2) k = Some k0" "unmap p (vbook (owners r ! w)) 1 k0 = Some k1"
    using unmap_owner unfolding k1_def by blast
  define r' where "r' = r\<lparr>owners := (owners r)[w := no_owner], refcount := refcount r - 1\<rparr>"
  define k2 where "k2 = set_ring i r' k1\<lparr>ownedCount := (ownedCount k1)(p := ownedCount k1 p - 1)\<rparr>"
  have w: "w = 0 \<and> proc a = Some p \<or> w = 1 \<and> proc b = Some p"
    using Some ab(1) by (simp add: owner_index_def r_def [symmetric] split: if_splits)
  have nz: "vbuf (owners r ! w) \<noteq> 0" "vbook (owners r ! w) \<noteq> 0"
    using w ab(1-3) by (auto simp: owner_ok_def)
  have rings: "ringbufs k2 = (ringbufs k)[i := r']" and pl: "pool k2 = pool k" and tf: "topFree k2 = topFree k"
    by (simp_all add: k2_def k1_def)
  have rc: "refcount r \<noteq> 0" using w ab(4) by auto
  have d: "disownIfOwned i p k = (if refcount r' = 0 then deactivate i k2 else Some k2)"
    using Some nz rc cnt un unfolding disownIfOwned_def Let_def r_def [symmetric] by (simp del: One_nat_def add: k2_def r'_def)
  have bk: "book_page r \<noteq> None" using ok rc by (simp add: ring_ok_def)
  have k2: "maps k2 = maps k1" "ownedCount k2 = (ownedCount k)(p := ownedCount k p - 1)" by (simp_all add: k2_def k1_def)
  have own: "owner_index r' p = None" "\<forall>ow \<in> set (owners r). proc ow \<noteq> None \<longrightarrow> proc ow \<noteq> Some p \<longrightarrow> ow \<in> set (owners r')"
      "buf_pages r' = buf_pages r" "book_page r' = book_page r"
      "\<forall>ow \<in> set (owners r'). proc ow \<noteq> None \<longrightarrow> ow \<in> set (owners r)"
    using w ab by (auto simp: r'_def owner_index_def no_owner_def)
  show ?thesis
  proof (cases "refcount r' = 0")
    case True
    have "\<exists>c d. owners r' = [c, d] \<and> proc c = None \<and> proc d = None"
      using True w ab by (auto simp: r'_def no_owner_def split: if_splits)
    then obtain c d' where cd: "owners r' = [c, d']" "proc c = None" "proc d' = None" by blast
    have none: "\<forall>ow \<in> set (owners r). proc ow = None \<or> proc ow = Some p"
      using True w ab by (auto simp: r'_def no_owner_def split: if_splits)
    obtain k3 where k3: "deactivate i k2 = Some k3" "kgood k k3" "maps k3 = maps k2" "topFree k3 = topFree k2"
        "ownedCount k3 = ownedCount k2" "ringbufs k3 = (ringbufs k)[i := no_ringbuf]"
      using deactivate_spec [OF inv i rings pl _ _ _ cd] bk own(3,4) by (auto simp: r_def)
    have "disowned p i k k3"
      unfolding disowned_def r_def [symmetric] Some [folded r_def] option.case k1_def [symmetric]
      using k3 k2 tf none len by (auto simp: owner_index_def no_owner_def)
    then show ?thesis using d True k3(1) by simp
  next
    case False
    have "ring_ok r'"
      using ok False w ab by (auto simp: ring_ok_def r'_def owner_ok_def no_owner_def split: if_splits)
    then have "kring_inv k2"
      by (rule kring_inv_rename_same [OF inv _ rings i]) (use rc in \<open>simp add: r'_def r_def\<close>)
    moreover have "kpages k2 = kpages k"
      by (rule kpages_update [OF len rings]) (simp add: pl r'_def r_def ring_pages_def)
    ultimately have "disowned p i k k2"
      unfolding disowned_def r_def [symmetric] Some [folded r_def] option.case k1_def [symmetric]
      using k2 tf own len rings by (simp add: kgood_def)
    then show ?thesis using d False by simp
  qed
qed

text \<open>The slot that an open has found: a free ring buffer that it activated, or one with one other owner.\<close>

definition slot_ready :: "string \<Rightarrow> pid \<Rightarrow> kring \<Rightarrow> nat \<Rightarrow> nat \<Rightarrow> kring \<Rightarrow> bool" where
  "slot_ready nm p k i w k1 =
     (i < MAX_RINGBUFS \<and> ringbufs k1 = (ringbufs k)[i := ringbufs k1 ! i] \<and> kpages k1 = kpages k
      \<and> maps k1 = maps k \<and> topFree k1 = topFree k \<and> ownedCount k1 = ownedCount k
      \<and> name_buf (ringbufs k1 ! i) = nm \<and> length (buf_pages (ringbufs k1 ! i)) = RINGBUF_SIZE
      \<and> book_page (ringbufs k1 ! i) \<noteq> None
      \<and> findRingbufByName nm k = (if refcount (ringbufs k ! i) = 0 then None else Some i)
      \<and> (if refcount (ringbufs k ! i) = 0
         then w = 0 \<and> owners (ringbufs k1 ! i) = [no_owner, no_owner] \<and> refcount (ringbufs k1 ! i) = 0
         else k1 = k \<and> refcount (ringbufs k ! i) = 1 \<and>
           (\<exists>ow. owner_ok ow \<and> proc ow \<noteq> None \<and> proc ow \<noteq> Some p \<and>
             (w = 0 \<and> owners (ringbufs k ! i) = [no_owner, ow] \<or> w = 1 \<and> owners (ringbufs k ! i) = [ow, no_owner]))))"

definition same_owners :: "kring \<Rightarrow> kring \<Rightarrow> bool" where
  "same_owners k k1 =
     (\<forall>i < MAX_RINGBUFS. owners (ringbufs k1 ! i) = owners (ringbufs k ! i) \<and>
        buf_pages (ringbufs k1 ! i) = buf_pages (ringbufs k ! i) \<and> book_page (ringbufs k1 ! i) = book_page (ringbufs k ! i))"

definition slot_error :: "kring \<Rightarrow> kring \<Rightarrow> bool" where
  "slot_error k k1 = (kgood k k1 \<and> maps k1 = maps k \<and> topFree k1 = topFree k \<and> ownedCount k1 = ownedCount k \<and> same_owners k k1)"

lemma ring_ok_free: "ring_ok r \<Longrightarrow> refcount r = 0 \<Longrightarrow> owners r = [no_owner, no_owner] \<and> buf_pages r = [] \<and> book_page r = None"
  by (auto simp: ring_ok_def length_2_cases owner_ok_def split: if_splits)

lemma slot_error_refl: "kring_inv k \<Longrightarrow> slot_error k k"
  by (simp add: slot_error_def same_owners_def kgood_def)

lemma open_slot_join:
  assumes inv: "kring_inv k" and f: "findRingbufByName nm k = Some i"
  shows "(\<exists>e. open_slot nm p k = (Some (Inl e), k)) \<or> (\<exists>w. open_slot nm p k = (Some (Inr (i, w)), k) \<and> slot_ready nm p k i w k)"
proof -
  note F = findRingbufByName_Some [OF f]
  then have ok: "ring_ok (ringbufs k ! i)" using kring_invD [OF inv] by blast
  obtain a b where ab: "owners (ringbufs k ! i) = [a, b]" "owner_ok a" "owner_ok b"
      "refcount (ringbufs k ! i) = (if proc a = None then 0 else 1) + (if proc b = None then 0 else 1)"
    by (rule ring_okE [OF ok])
  have nb: "length (buf_pages (ringbufs k ! i)) = RINGBUF_SIZE" "book_page (ringbufs k ! i) \<noteq> None"
    using ok F by (simp_all add: ring_ok_def)
  show ?thesis
  proof (cases "proc a = Some p \<or> proc b = Some p \<or> proc a \<noteq> None \<and> proc b \<noteq> None")
    case True
    then show ?thesis using f ab(1) by (auto simp: open_slot_def Let_def)
  next
    case False
    have one: "(proc a = None) \<noteq> (proc b = None)" using False ab(4) F by (auto split: if_splits)
    have o: "open_slot nm p k = (Some (Inr (i, if proc b = None then 1 else 0)), k)"
      using f ab(1) False one by (auto simp: open_slot_def Let_def)
    have "slot_ready nm p k i (if proc b = None then 1 else 0) k"
      using F f nb ab False one by (auto simp: slot_ready_def owner_ok_def)
    then show ?thesis using o by blast
  qed
qed

lemma open_slot_errors: "open_slot nm p k = (Some (Inl e), k1) \<Longrightarrow> e \<notin> {MapPagesFailed, CopyOutFailed}"
  by (auto simp: open_slot_def activate_def Let_def split: option.splits if_splits kret.splits)

lemma activate_free:
  assumes inv: "kring_inv k" and f: "findFreeRingbuf k = Some i" and nm: "nm \<noteq> []" "length nm \<le> MAX_NAME_LEN"
    and new: "findRingbufByName nm k = None"
  shows "if length (pool k) < RINGBUF_SIZE + 1 then \<exists>k1. activate i nm k = KErr OutOfMemory k1 \<and> slot_error k k1
     else \<exists>k1. activate i nm k = KDone k1 \<and> slot_ready nm p k i 0 k1"
proof -
  note F = findFreeRingbuf_Some [OF f]
  define r where "r = ringbufs k ! i"
  have ok: "ring_ok r" "refcount r = 0" using kring_invD [OF inv] F by (simp_all add: r_def)
  note fr = ring_ok_free [OF ok]
  have len: "i < length (ringbufs k)" using kring_length [OF inv] F by simp
  show ?thesis
  proof (cases "length (pool k) < RINGBUF_SIZE + 1")
    case True
    define k1 where "k1 = set_ring i (r\<lparr>name_buf := nm\<rparr>) k\<lparr>pool := rev (pool k)\<rparr>"
    have a: "activate i nm k = KErr OutOfMemory k1"
      using True ok nm unfolding activate_def k1_def r_def [symmetric] by (simp add: Let_def)
    have "kring_inv k1"
      by (rule kring_inv_update [OF inv, of "r\<lparr>name_buf := nm\<rparr>" _ i]) (use ok in \<open>simp_all add: k1_def ring_ok_def\<close>)
    moreover have "kpages k1 = kpages k"
      by (rule kpages_update [OF len, of _ "r\<lparr>name_buf := nm\<rparr>"]) (simp_all add: k1_def ring_pages_def r_def)
    ultimately have "slot_error k k1" using len by (simp add: slot_error_def same_owners_def kgood_def k1_def nth_list_update r_def)
    then show ?thesis using True a by simp
  next
    case False
    define r' where "r' = r\<lparr>name_buf := nm, buf_pages := take RINGBUF_SIZE (pool k), book_page := Some (pool k ! RINGBUF_SIZE)\<rparr>"
    define k1 where "k1 = set_ring i r' k\<lparr>pool := drop (RINGBUF_SIZE + 1) (pool k)\<rparr>"
    have a: "activate i nm k = KDone k1"
      using False ok nm unfolding activate_def k1_def r'_def r_def [symmetric] by (simp add: Let_def)
    have "mset (pool k) = mset (take RINGBUF_SIZE (pool k) @ pool k ! RINGBUF_SIZE # drop (RINGBUF_SIZE + 1) (pool k))"
      using id_take_nth_drop [of RINGBUF_SIZE "pool k"] False by simp
    then have "kpages k1 = kpages k"
      by (intro kpages_update [OF len, of _ r']) (use fr in \<open>simp_all add: k1_def r'_def ring_pages_def r_def [symmetric]\<close>)
    then have "slot_ready nm p k i 0 k1"
      using F len False fr ok new by (auto simp: slot_ready_def k1_def r'_def r_def)
    then show ?thesis using False a by simp
  qed
qed

lemma open_slot_cases:
  assumes inv: "kring_inv k" and nm: "nm \<noteq> []" "length nm \<le> MAX_NAME_LEN"
  shows "(\<exists>e k1. open_slot nm p k = (Some (Inl e), k1) \<and> slot_error k k1) \<or>
     (\<exists>i w k1. open_slot nm p k = (Some (Inr (i, w)), k1) \<and> slot_ready nm p k i w k1)"
proof (cases "findRingbufByName nm k")
  case (Some i)
  then show ?thesis using open_slot_join [OF inv Some, of p] slot_error_refl [OF inv] by blast
next
  case N: None
  show ?thesis
  proof (cases "findFreeRingbuf k")
    case None
    then show ?thesis using N slot_error_refl [OF inv] by (simp add: open_slot_def)
  next
    case (Some i)
    note A = activate_free [OF inv Some nm N, of p]
    show ?thesis
    proof (cases "length (pool k) < RINGBUF_SIZE + 1")
      case True
      then show ?thesis using A N Some by (auto simp: open_slot_def)
    next
      case False
      then obtain k1 where k1: "activate i nm k = KDone k1" "slot_ready nm p k i 0 k1" using A by auto
      have "owners (ringbufs k1 ! i) = [no_owner, no_owner]"
        using k1(2) findFreeRingbuf_Some [OF Some] by (simp add: slot_ready_def)
      then have "open_slot nm p k = (Some (Inr (i, 0)), k1)"
        using N Some k1(1) by (simp add: open_slot_def no_owner_def)
      then show ?thesis using k1(2) by blast
    qed
  qed
qed


subsection \<open>Mapping\<close>

text \<open>A process gets mappings and loses none; its top address stays aligned, and nothing changes for the others.\<close>

definition mapped_more :: "pid \<Rightarrow> kring \<Rightarrow> kring \<Rightarrow> bool" where
  "mapped_more p k k' =
     ((\<forall>q a. maps k q a \<noteq> None \<longrightarrow> maps k' q a = maps k q a)
      \<and> (\<forall>q. q \<noteq> p \<longrightarrow> maps k' q = maps k q \<and> topFree k' q = topFree k q)
      \<and> (topFree k p mod page_size = 0 \<longrightarrow> topFree k' p mod page_size = 0))"

lemma mapped_more_refl: "mapped_more p k k"
  by (simp add: mapped_more_def)

lemma mapped_more_trans: "mapped_more p k k1 \<Longrightarrow> mapped_more p k1 k2 \<Longrightarrow> mapped_more p k k2"
  by (simp add: mapped_more_def)

lemma aligned_minus: "t mod page_size = 0 \<Longrightarrow> (t - n * page_size) mod page_size = 0"
  unfolding mod_eq_0_iff_dvd by (rule dvd_diff_nat) simp_all

lemma mapped_more_step:
  "maps k p (topFree k p) = None \<Longrightarrow>
   mapped_more p k (k\<lparr>maps := (maps k)(p := (maps k p)(topFree k p \<mapsto> pg)), topFree := (topFree k)(p := topFree k p - page_size)\<rparr>)"
  using aligned_minus [of "topFree k p" 1] by (auto simp: mapped_more_def)

lemma map_pages_frame:
  "map_pages can_map p pgs k = (ok, k') \<Longrightarrow>
   ringbufs k' = ringbufs k \<and> pool k' = pool k \<and> ownedCount k' = ownedCount k \<and> mapped_more p k k'
   \<and> (ok \<longrightarrow> topFree k' = (topFree k)(p := topFree k p - length pgs * page_size))"
proof (induction pgs arbitrary: k)
  case Nil
  then show ?case by (auto simp: mapped_more_refl)
next
  case (Cons pg pgs)
  define k1 where "k1 = k\<lparr>maps := (maps k)(p := (maps k p)(topFree k p \<mapsto> pg)), topFree := (topFree k)(p := topFree k p - page_size)\<rparr>"
  have k1: "ringbufs k1 = ringbufs k" "pool k1 = pool k" "ownedCount k1 = ownedCount k" "topFree k1 = (topFree k)(p := topFree k p - page_size)"
    by (simp_all add: k1_def)
  show ?case
  proof (cases "can_map p (topFree k p) \<and> maps k p (topFree k p) = None")
    case True
    have m: "mapped_more p k k1" unfolding k1_def by (rule mapped_more_step) (use True in blast)
    have "map_pages can_map p pgs k1 = (ok, k')" using Cons.prems True by (simp add: k1_def)
    note IH = Cons.IH [OF this]
    have "mapped_more p k k'" by (rule mapped_more_trans [OF m]) (use IH in blast)
    then show ?thesis using IH k1 by auto
  next
    case False
    then show ?thesis using Cons.prems by (auto simp: mapped_more_refl)
  qed
qed

lemma map_pages_ok:
  "map_pages can_map p pgs k = (True, k') \<Longrightarrow> n < length pgs \<Longrightarrow>
   can_map p (topFree k p - n * page_size) \<and> maps k p (topFree k p - n * page_size) = None"
proof (induction pgs arbitrary: k n)
  case (Cons pg pgs)
  define k1 where "k1 = k\<lparr>maps := (maps k)(p := (maps k p)(topFree k p \<mapsto> pg)), topFree := (topFree k)(p := topFree k p - page_size)\<rparr>"
  have c: "can_map p (topFree k p) \<and> maps k p (topFree k p) = None" and m: "map_pages can_map p pgs k1 = (True, k')"
    using Cons.prems(1) by (auto simp: k1_def split: if_splits)
  show ?case
  proof (cases n)
    case (Suc j)
    have t: "topFree k1 p - j * page_size = topFree k p - n * page_size" by (simp add: k1_def Suc)
    have "can_map p (topFree k p - n * page_size) \<and> maps k1 p (topFree k p - n * page_size) = None"
      using Cons.IH [OF m, of j] Cons.prems(2) Suc unfolding t by simp
    then show ?thesis by (simp add: k1_def split: if_splits)
  qed (use c in simp)
qed simp

lemma map_pages_room:
  "\<forall>n < length pgs. can_map p (topFree k p - n * page_size) \<and> maps k p (topFree k p - n * page_size) = None \<Longrightarrow>
   length pgs * page_size \<le> topFree k p \<Longrightarrow> fst (map_pages can_map p pgs k)"
proof (induction pgs arbitrary: k)
  case (Cons pg pgs)
  define k1 where "k1 = k\<lparr>maps := (maps k)(p := (maps k p)(topFree k p \<mapsto> pg)), topFree := (topFree k)(p := topFree k p - page_size)\<rparr>"
  have t: "topFree k1 p - n * page_size = topFree k p - Suc n * page_size" for n by (simp add: k1_def)
  have ne: "topFree k p - Suc n * page_size \<noteq> topFree k p" for n
  proof -
    have "page_size \<le> topFree k p" using Cons.prems(2) by simp
    then have "0 < topFree k p" using page_size_pos by linarith
    moreover have "0 < Suc n * page_size" by simp
    ultimately have "topFree k p - Suc n * page_size < topFree k p" by (rule diff_less [rotated])
    then show ?thesis by (rule less_imp_neq)
  qed
  have "can_map p (topFree k1 p - n * page_size) \<and> maps k1 p (topFree k1 p - n * page_size) = None" if "n < length pgs" for n
    using Cons.prems(1) [rule_format, of "Suc n"] that ne [of n] unfolding t by (simp add: k1_def)
  moreover have "length pgs * page_size \<le> topFree k1 p" using Cons.prems(2) by (simp add: k1_def)
  ultimately have "fst (map_pages can_map p pgs k1)" using Cons.IH by blast
  then show ?case using Cons.prems(1) [rule_format, of 0] by (simp add: k1_def)
qed simp

lemma map_pages_maps:
  assumes "map_pages can_map p pgs k = (True, k')" "length pgs * page_size \<le> topFree k p"
  shows "(\<forall>n < length pgs. maps k' p (topFree k p - n * page_size) = Some (pgs ! n)) \<and>
     (\<forall>q a. q \<noteq> p \<or> (\<forall>n < length pgs. a \<noteq> topFree k p - n * page_size) \<longrightarrow> maps k' q a = maps k q a)"
  using assms
proof (induction pgs arbitrary: k)
  case Nil
  then show ?case by simp
next
  case (Cons pg pgs)
  define k1 where "k1 = k\<lparr>maps := (maps k)(p := (maps k p)(topFree k p \<mapsto> pg)), topFree := (topFree k)(p := topFree k p - page_size)\<rparr>"
  have pos: "page_size > 0" by (simp add: page_size_def)
  have t: "topFree k1 p = topFree k p - page_size" by (simp add: k1_def)
  have m: "map_pages can_map p pgs k1 = (True, k')" "length pgs * page_size \<le> topFree k1 p" and le: "page_size \<le> topFree k p"
    using Cons.prems by (auto simp: k1_def split: if_splits)
  note IH = Cons.IH [OF m, unfolded t]
  have sh: "topFree k p - page_size - n * page_size = topFree k p - Suc n * page_size" for n by simp
  have first: "topFree k p \<noteq> topFree k p - Suc n * page_size" for n using le pos by (simp del: page_size_pos)
  show ?case
  proof (intro conjI allI impI)
    fix n assume n: "n < length (pg # pgs)"
    show "maps k' p (topFree k p - n * page_size) = Some ((pg # pgs) ! n)"
    proof (cases n)
      case 0
      have "maps k' p (topFree k p) = maps k1 p (topFree k p)" using IH first unfolding sh by blast
      then show ?thesis using 0 by (simp add: k1_def)
    next
      case (Suc j)
      then show ?thesis using IH n unfolding sh by simp
    qed
  next
    fix q a assume qa: "q \<noteq> p \<or> (\<forall>n < length (pg # pgs). a \<noteq> topFree k p - n * page_size)"
    then have "q \<noteq> p \<or> (\<forall>n < length pgs. a \<noteq> topFree k p - page_size - n * page_size)" unfolding sh by fastforce
    then have "maps k' q a = maps k1 q a" using IH by blast
    also have "\<dots> = maps k q a"
    proof (cases "q = p")
      case True
      then have "a \<noteq> topFree k p - 0 * page_size" using qa by fast
      then show ?thesis using True by (simp add: k1_def)
    qed (simp add: k1_def)
    finally show "maps k' q a = maps k q a" .
  qed
qed


text \<open>The book page of a ring buffer at \<open>v\<close> is right under it, and its pages are mapped twice in a row from \<open>v\<close> on.\<close>

definition double_mapped :: "kring \<Rightarrow> pid \<Rightarrow> nat \<Rightarrow> kringbuf \<Rightarrow> bool" where
  "double_mapped k p v r =
     (maps k p (v - page_size) = book_page r \<and>
      (\<forall>j < 2 * RINGBUF_SIZE. maps k p (v + j * page_size) = Some (buf_pages r ! (RINGBUF_SIZE - 1 - j mod RINGBUF_SIZE))))"

definition map_room :: "(pid \<Rightarrow> nat \<Rightarrow> bool) \<Rightarrow> pid \<Rightarrow> kring \<Rightarrow> bool" where
  "map_room can_map p k =
     (\<forall>n < 2 * RINGBUF_SIZE + 1. can_map p (topFree k p - n * page_size) \<and> maps k p (topFree k p - n * page_size) = None)"

definition opened_ring :: "pid \<Rightarrow> nat \<Rightarrow> nat \<Rightarrow> kringbuf \<Rightarrow> kringbuf" where
  "opened_ring p t w r = r\<lparr>refcount := Suc (refcount r), owners := (owners r)[w := \<lparr>proc = Some p,
       vbuf = t - 33 * page_size + 2 * page_size, vbook = t - 33 * page_size + page_size\<rparr>]\<rparr>"

text \<open>The state in which the pages are mapped and the owner is recorded.\<close>

definition opened :: "pid \<Rightarrow> nat \<Rightarrow> nat \<Rightarrow> kring \<Rightarrow> kring \<Rightarrow> bool" where
  "opened p i w k1 k2 =
     (ringbufs k2 = (ringbufs k1)[i := opened_ring p (topFree k1 p) w (ringbufs k1 ! i)] \<and> pool k2 = pool k1
      \<and> ownedCount k2 = (ownedCount k1)(p := ownedCount k1 p + 1)
      \<and> topFree k2 = (topFree k1)(p := topFree k1 p - 33 * page_size)
      \<and> double_mapped k2 p (topFree k1 p - 31 * page_size) (ringbufs k1 ! i)
      \<and> (\<forall>n < 33. maps k1 p (topFree k1 p - n * page_size) = None)
      \<and> (\<forall>q a. q \<noteq> p \<or> (\<forall>n < 33. a \<noteq> topFree k1 p - n * page_size) \<longrightarrow> maps k2 q a = maps k1 q a))"

lemma owner_all_fields: "(ow :: owner)\<lparr>proc := x, vbook := y, vbuf := z\<rparr> = \<lparr>proc = x, vbuf = z, vbook = y\<rparr>"
  by (cases ow) simp

lemma map_pages_append:
  "map_pages can_map p (xs @ ys) k = (case map_pages can_map p xs k of (False, k') \<Rightarrow> (False, k') | (True, k') \<Rightarrow> map_pages can_map p ys k')"
  by (induction xs arbitrary: k) simp_all

text \<open>What an open does once it has its slot: with enough room it maps the 33 pages, otherwise it fails.\<close>

lemma open_mapped:
  assumes slot: "open_slot nm p k = (Some (Inr (i, w)), k1)" and i: "i < length (ringbufs k1)" and w: "w < length (owners (ringbufs k1 ! i))"
    and nb: "length (buf_pages (ringbufs k1 ! i)) = RINGBUF_SIZE" and bk: "book_page (ringbufs k1 ! i) = Some b"
    and room: "map_room can_map p k1" and big: "34 * page_size \<le> topFree k1 p"
  shows "\<exists>k2. opened p i w k1 k2 \<and> ringbuf_open can_map copy_ok nm p k =
     (if copy_ok then KDone (k2\<lparr>topFree := (topFree k2)(p := topFree k2 p - page_size)\<rparr>) else open_failed i w CopyOutFailed k2)"
proof -
  define r where "r = ringbufs k1 ! i"
  define pgs where "pgs = buf_pages r"
  define t where "t = topFree k1 p"
  define k0 where "k0 = set_owner i w (\<lambda>ow. ow\<lparr>proc := Some p\<rparr>) Suc k1\<lparr>ownedCount := (ownedCount k1)(p := ownedCount k1 p + 1)\<rparr>"
  have k0: "topFree k0 = topFree k1" "maps k0 = maps k1" "pool k0 = pool k1"
      "ringbufs k0 = (ringbufs k1)[i := r\<lparr>owners := (owners r)[w := (owners r ! w)\<lparr>proc := Some p\<rparr>], refcount := Suc (refcount r)\<rparr>]"
      "ownedCount k0 = (ownedCount k1)(p := ownedCount k1 p + 1)"
    by (simp_all add: k0_def set_owner_def r_def Let_def)
  have lp: "length (pgs @ pgs) = 32" "length (pgs @ pgs @ [b]) = 33" "length pgs = 16" using nb by (simp_all add: pgs_def r_def RINGBUF_SIZE_def)
  have rm: "\<forall>n < 33. can_map p (t - n * page_size) \<and> maps k1 p (t - n * page_size) = None"
    using room by (simp add: map_room_def RINGBUF_SIZE_def t_def)
  have "fst (map_pages can_map p (pgs @ pgs @ [b]) k0)"
    by (rule map_pages_room) (unfold lp k0, use rm big in \<open>simp_all add: t_def\<close>)
  then obtain k4 where all: "map_pages can_map p (pgs @ pgs @ [b]) k0 = (True, k4)"
    by (cases "map_pages can_map p (pgs @ pgs @ [b]) k0") auto
  obtain ok3 k3 where k3: "map_pages can_map p (pgs @ pgs) k0 = (ok3, k3)" by fastforce
  note F3 = map_pages_frame [OF k3, unfolded lp k0]
  have sp: "map_pages can_map p (pgs @ pgs @ [b]) k0 = (if ok3 then map_pages can_map p [b] k3 else (False, k3))"
    using map_pages_append [of can_map p "pgs @ pgs" "[b]" k0] k3 by (simp split: bool.split del: map_pages.simps)
  have ok3: "ok3" and k4': "map_pages can_map p [b] k3 = (True, k4)" using all sp by (simp_all split: if_splits del: map_pages.simps)
  note F4 = map_pages_frame [OF k4', simplified]
  have t4: "topFree k4 = (topFree k1)(p := t - 33 * page_size)" using F3 F4 ok3 by (auto simp: t_def)
  have rings: "ringbufs k4 = ringbufs k0" using F3 F4 k0 by simp
  have bk3: "book_page (ringbufs k3 ! i) = Some b" using F3 i bk by (simp add: r_def)
  define k2 where "k2 = set_owner i w (\<lambda>ow. ow\<lparr>vbook := topFree k4 p + page_size, vbuf := topFree k4 p + 2 * page_size\<rparr>) id k4"
  have o: "ringbuf_open can_map copy_ok nm p k =
     (if copy_ok then KDone (k2\<lparr>topFree := (topFree k2)(p := topFree k2 p - page_size)\<rparr>) else open_failed i w CopyOutFailed k2)"
    unfolding ringbuf_open_def slot prod.case option.case sum.case Let_def k0_def [symmetric]
      pgs_def [unfolded r_def, symmetric] k3
    using k4' ok3 bk3 by (simp add: k2_def del: map_pages.simps)
  have k2: "topFree k2 = topFree k4" "maps k2 = maps k4" "pool k2 = pool k4" "ownedCount k2 = ownedCount k4"
      "ringbufs k2 = (ringbufs k1)[i := opened_ring p t w r]"
    using i w by (simp_all add: k2_def set_owner_def rings k0 t4 opened_ring_def r_def Let_def owner_all_fields)
  have dm: "double_mapped k2 p (t - 31 * page_size) r \<and>
      (\<forall>q a. q \<noteq> p \<or> (\<forall>n < 33. a \<noteq> t - n * page_size) \<longrightarrow> maps k2 q a = maps k1 q a)"
  proof -
    have big: "34 * page_size \<le> t" using big by (simp add: t_def)
    have M: "\<forall>n < 33. maps k4 p (t - n * page_size) = Some ((pgs @ pgs @ [b]) ! n)"
        "\<forall>q a. q \<noteq> p \<or> (\<forall>n < 33. a \<noteq> t - n * page_size) \<longrightarrow> maps k4 q a = maps k1 q a"
      using map_pages_maps [OF all, unfolded lp k0, folded t_def] big by auto
    have "maps k4 p (t - 31 * page_size - page_size) = Some b"
      using M(1) [rule_format, of 32] lp by (simp add: nth_append)
    moreover have "maps k4 p (t - 31 * page_size + j * page_size) = Some (pgs ! (15 - j mod 16))" if j: "j < 32" for j
    proof -
      have a: "t - 31 * page_size + j * page_size = t - (31 - j) * page_size"
        using j big by (simp add: page_size_def)
      have "(pgs @ pgs @ [b]) ! (31 - j) = pgs ! (15 - j mod 16)"
      proof (cases "j < 16")
        case True
        then show ?thesis using lp by (simp add: nth_append)
      next
        case False
        have "j mod 16 = j - 16" using False j by (simp add: mod_if)
        then show ?thesis using lp False j by (simp add: nth_append)
      qed
      then show ?thesis using M(1) j unfolding a by simp
    qed
    ultimately show ?thesis using M(2) bk by (simp add: double_mapped_def k2 RINGBUF_SIZE_def pgs_def r_def)
  qed
  have "opened p i w k1 k2"
    using dm rm unfolding opened_def t_def r_def k2 t4 using F3 F4 k0 by (simp add: t_def)
  then show ?thesis using o by blast
qed


lemma open_no_room:
  assumes slot: "open_slot nm p k = (Some (Inr (i, w)), k1)" and i: "i < length (ringbufs k1)"
    and nb: "length (buf_pages (ringbufs k1 ! i)) = RINGBUF_SIZE" and bk: "book_page (ringbufs k1 ! i) = Some b"
    and room: "\<not> map_room can_map p k1"
  shows "\<exists>k2. ringbuf_open can_map copy_ok nm p k = open_failed i w MapPagesFailed k2 \<and> pool k2 = pool k1 \<and> mapped_more p k1 k2 \<and>
     ownedCount k2 = (ownedCount k1)(p := ownedCount k1 p + 1) \<and>
     ringbufs k2 = (ringbufs k1)[i := (ringbufs k1 ! i)\<lparr>owners := (owners (ringbufs k1 ! i))[w := (owners (ringbufs k1 ! i) ! w)\<lparr>proc := Some p\<rparr>],
         refcount := Suc (refcount (ringbufs k1 ! i))\<rparr>]"
proof -
  define r where "r = ringbufs k1 ! i"
  define pgs where "pgs = buf_pages r"
  define k0 where "k0 = set_owner i w (\<lambda>ow. ow\<lparr>proc := Some p\<rparr>) Suc k1\<lparr>ownedCount := (ownedCount k1)(p := ownedCount k1 p + 1)\<rparr>"
  have k0: "topFree k0 = topFree k1" "maps k0 = maps k1" "pool k0 = pool k1" "ownedCount k0 = (ownedCount k1)(p := ownedCount k1 p + 1)"
      "ringbufs k0 = (ringbufs k1)[i := r\<lparr>owners := (owners r)[w := (owners r ! w)\<lparr>proc := Some p\<rparr>], refcount := Suc (refcount r)\<rparr>]"
    by (simp_all add: k0_def set_owner_def r_def Let_def)
  have lp: "length (pgs @ pgs) = 32" "length pgs = 16" using nb by (simp_all add: pgs_def r_def RINGBUF_SIZE_def)
  obtain ok3 k3 where k3: "map_pages can_map p (pgs @ pgs) k0 = (ok3, k3)" by fastforce
  note F3 = map_pages_frame [OF k3, unfolded lp k0]
  obtain ok4 k4 where k4: "map_pages can_map p [b] k3 = (ok4, k4)" by fastforce
  note F4 = map_pages_frame [OF k4]
  have bk3: "book_page (ringbufs k3 ! i) = Some b" using F3 i bk by (simp add: r_def)
  have o: "(\<not> ok3 \<longrightarrow> ringbuf_open can_map copy_ok nm p k = open_failed i w MapPagesFailed k3) \<and>
     (ok3 \<and> \<not> ok4 \<longrightarrow> ringbuf_open can_map copy_ok nm p k = open_failed i w MapPagesFailed k4)"
    unfolding ringbuf_open_def slot prod.case option.case sum.case Let_def k0_def [symmetric]
      pgs_def [unfolded r_def, symmetric] k3
    using k4 bk3 by (simp del: map_pages.simps)
  have no: "\<not> (ok3 \<and> ok4)"
  proof
    assume ok: "ok3 \<and> ok4"
    then have "map_pages can_map p (pgs @ pgs @ [b]) k0 = (True, k4)"
      using k3 k4 map_pages_append [of can_map p "pgs @ pgs" "[b]" k0] by simp
    note M = map_pages_ok [OF this, unfolded k0]
    have "2 * RINGBUF_SIZE + 1 = length (pgs @ pgs @ [b])" using lp by (simp add: RINGBUF_SIZE_def)
    then show False using room M unfolding map_room_def by metis
  qed
  have mm: "mapped_more p k1 k3" "mapped_more p k1 k4"
  proof -
    have "mapped_more p k1 k0" by (simp add: mapped_more_def k0)
    then show m: "mapped_more p k1 k3" by (rule mapped_more_trans) (use F3 in blast)
    show "mapped_more p k1 k4" by (rule mapped_more_trans [OF m]) (use F4 in blast)
  qed
  have oc: "ownedCount k3 = (ownedCount k1)(p := ownedCount k1 p + 1)" "ownedCount k4 = (ownedCount k1)(p := ownedCount k1 p + 1)"
    using F3 F4 k0 by simp_all
  have R: "pool k3 = pool k1" "pool k4 = pool k1" "ringbufs k3 = ringbufs k0" "ringbufs k4 = ringbufs k0"
    using F3 F4 k0 by simp_all
  show ?thesis
  proof (cases ok3)
    case True
    then have "ringbuf_open can_map copy_ok nm p k = open_failed i w MapPagesFailed k4" using conjunct2 [OF o] no by simp
    then show ?thesis using R k0 mm oc unfolding r_def by (intro exI [of _ k4] conjI) simp_all
  next
    case False
    then have "ringbuf_open can_map copy_ok nm p k = open_failed i w MapPagesFailed k3" using conjunct1 [OF o] by simp
    then show ?thesis using R k0 mm oc unfolding r_def by (intro exI [of _ k3] conjI) simp_all
  qed
qed

lemma open_uncopied:
  assumes slot: "open_slot nm p k = (Some (Inr (i, w)), k1)" and i: "i < length (ringbufs k1)"
    and bk: "book_page (ringbufs k1 ! i) = Some b"
  shows "\<exists>e k2 r2 ow. ringbuf_open can_map False nm p k = open_failed i w e k2 \<and> ringbufs k2 = (ringbufs k1)[i := r2] \<and>
     owners r2 = (owners (ringbufs k1 ! i))[w := ow]"
proof -
  define r where "r = ringbufs k1 ! i"
  define pgs where "pgs = buf_pages r"
  define k0 where "k0 = set_owner i w (\<lambda>ow. ow\<lparr>proc := Some p\<rparr>) Suc k1\<lparr>ownedCount := (ownedCount k1)(p := ownedCount k1 p + 1)\<rparr>"
  define r0 where "r0 = r\<lparr>owners := (owners r)[w := (owners r ! w)\<lparr>proc := Some p\<rparr>], refcount := Suc (refcount r)\<rparr>"
  have k0: "ringbufs k0 = (ringbufs k1)[i := r0]" by (simp add: k0_def r0_def set_owner_def r_def Let_def)
  obtain ok3 k3 where k3: "map_pages can_map p (pgs @ pgs) k0 = (ok3, k3)" by fastforce
  obtain ok4 k4 where k4: "map_pages can_map p [b] k3 = (ok4, k4)" by fastforce
  have R: "ringbufs k3 = (ringbufs k1)[i := r0]" "ringbufs k4 = (ringbufs k1)[i := r0]"
    using map_pages_frame [OF k3] map_pages_frame [OF k4] k0 by simp_all
  have bk3: "book_page (ringbufs k3 ! i) = Some b" using R i bk by (simp add: r0_def r_def)
  define k5 where "k5 = set_owner i w (\<lambda>ow. ow\<lparr>vbook := topFree k4 p + page_size, vbuf := topFree k4 p + 2 * page_size\<rparr>) id k4"
  have o: "ringbuf_open can_map False nm p k =
     (if ok3 then if ok4 then open_failed i w CopyOutFailed k5 else open_failed i w MapPagesFailed k4 else open_failed i w MapPagesFailed k3)"
    unfolding ringbuf_open_def slot prod.case option.case sum.case Let_def k0_def [symmetric]
      pgs_def [unfolded r_def, symmetric] k3
    using k4 bk3 by (simp add: k5_def del: map_pages.simps)
  have own: "owners r0 = (owners (ringbufs k1 ! i))[w := (owners r ! w)\<lparr>proc := Some p\<rparr>]" by (simp add: r0_def r_def)
  have k5: "\<exists>r5 ow. ringbufs k5 = (ringbufs k1)[i := r5] \<and> owners r5 = (owners (ringbufs k1 ! i))[w := ow]"
  proof -
    have "ringbufs k5 = (ringbufs k1)[i := r0\<lparr>owners := (owners r0)[w := (owners r0 ! w)\<lparr>vbook := topFree k4 p + page_size, vbuf := topFree k4 p + 2 * page_size\<rparr>]\<rparr>]"
      using R(2) i by (simp add: k5_def set_owner_def Let_def)
    moreover have "\<exists>ow. (owners r0)[w := x] = (owners (ringbufs k1 ! i))[w := ow]" for x using own by auto
    ultimately show ?thesis by fastforce
  qed
  show ?thesis
  proof (cases "ok3 \<and> ok4")
    case True
    then show ?thesis using o k5 by auto
  next
    case False
    then have "ringbuf_open can_map False nm p k = open_failed i w MapPagesFailed (if ok3 then k4 else k3)" using o by simp
    moreover have "ringbufs (if ok3 then k4 else k3) = (ringbufs k1)[i := r0]" using R by simp
    ultimately show ?thesis using own by blast
  qed
qed

lemma open_failed_fresh:
  assumes inv: "kring_inv k" and S: "slot_ready nm p k i w k1" and fresh: "refcount (ringbufs k ! i) = 0"
    and r2: "ringbufs k2 = (ringbufs k1)[i := r2]" "pool k2 = pool k1" "owners r2 = (owners (ringbufs k1 ! i))[w := ow]"
      "buf_pages r2 = buf_pages (ringbufs k1 ! i)" "book_page r2 = book_page (ringbufs k1 ! i)"
  shows "\<exists>k3. open_failed i w e k2 = KErr e k3 \<and> kgood k k3 \<and> maps k3 = maps k2 \<and> topFree k3 = topFree k2 \<and>
     ownedCount k3 = ownedCount k2 \<and> same_owners k k3 \<and> set (pool k3) = set (pool k1) \<union> set (ring_pages (ringbufs k1 ! i))"
proof -
  define r where "r = ringbufs k1 ! i"
  have i: "i < length (ringbufs k)" "i < MAX_RINGBUFS" using S kring_length [OF inv] by (simp_all add: slot_ready_def)
  have i1: "ringbufs k1 = (ringbufs k)[i := r]" "i < length (ringbufs k1)"
    using S i by (simp_all add: slot_ready_def r_def) (metis length_list_update)
  obtain b where b: "book_page r = Some b" using S by (auto simp: slot_ready_def r_def)
  have w: "w = 0" "owners r = [no_owner, no_owner]" using S fresh by (simp_all add: slot_ready_def r_def)
  define k3 where "k3 = set_ring i no_ringbuf k2\<lparr>pool := b # rev (buf_pages r) @ pool k1\<rparr>"
  have "deactivate i (set_owner i w (\<lambda>ow. ow\<lparr>proc := None\<rparr>) (\<lambda>n. n - 1) k2) =
      Some (set_ring i no_ringbuf (set_owner i w (\<lambda>ow. ow\<lparr>proc := None\<rparr>) (\<lambda>n. n - 1) k2)\<lparr>pool := b # rev (buf_pages r) @ pool k1\<rparr>)"
    using r2 i1 w b unfolding r_def [symmetric] by (simp add: deactivate_def set_owner_def Let_def no_owner_def)
  also have "set_ring i no_ringbuf (set_owner i w (\<lambda>ow. ow\<lparr>proc := None\<rparr>) (\<lambda>n. n - 1) k2)\<lparr>pool := b # rev (buf_pages r) @ pool k1\<rparr> = k3"
    by (simp add: k3_def set_ring_def set_owner_def Let_def)
  finally have o: "open_failed i w e k2 = KErr e k3" by (simp add: open_failed_def)
  have rings: "ringbufs k3 = (ringbufs k)[i := no_ringbuf]" using r2(1) i1 by (simp add: k3_def)
  have "kring_inv k3"
    by (rule kring_inv_rename_same [OF inv ring_ok_no_ringbuf rings i(2)]) simp
  moreover have "kpages k3 = kpages k1"
    by (rule kpages_update [OF i1(2), of _ no_ringbuf]) (use b r2 in \<open>simp_all add: k3_def ring_pages_def r_def\<close>)
  moreover have "kpages k1 = kpages k" using S by (simp add: slot_ready_def)
  moreover have "set (pool k3) = set (pool k1) \<union> set (ring_pages r)" using b by (auto simp: k3_def ring_pages_def)
  moreover have "maps k3 = maps k2" "topFree k3 = topFree k2" "ownedCount k3 = ownedCount k2"
    by (simp_all add: k3_def set_owner_def Let_def)
  moreover have "same_owners k k3"
    using ring_ok_free [OF kring_invD [OF inv i(2)] fresh] i(1) by (simp add: same_owners_def rings nth_list_update)
  ultimately show ?thesis using o unfolding kgood_def r_def by (intro exI [of _ k3]) simp
qed

text \<open>What an open leaves behind that fails half-way, for the first owner of a ring buffer.\<close>

definition half_failed :: "pid \<Rightarrow> kring \<Rightarrow> kring \<Rightarrow> bool" where
  "half_failed p k k' =
     (kgood k k' \<and> same_owners k k' \<and> mapped_more p k k' \<and> ownedCount k' = (ownedCount k)(p := ownedCount k p + 1))"

lemma mapped_more_cong:
  "mapped_more p k k1 \<Longrightarrow> maps k2 = maps k1 \<Longrightarrow> topFree k2 = topFree k1 \<Longrightarrow> mapped_more p k k2"
  by (simp add: mapped_more_def)

lemma mapped_more_opened:
  assumes "opened p i w k1 k2"
  shows "mapped_more p k1 k2"
proof -
  have "maps k2 q a = maps k1 q a" if "maps k1 q a \<noteq> None" for q a
    using assms that unfolding opened_def by metis
  then show ?thesis
    using assms aligned_minus [of "topFree k1 p" 33] unfolding mapped_more_def opened_def by (auto simp: fun_eq_iff)
qed

lemma open_failed_second:
  assumes S: "slot_ready nm p k i w k1" and second: "refcount (ringbufs k ! i) \<noteq> 0" and i: "i < length (ringbufs k1)"
    and r2: "ringbufs k2 = (ringbufs k1)[i := r2]" "owners r2 = (owners (ringbufs k1 ! i))[w := ow]"
  shows "open_failed i w e k2 = KPanic"
  using S second r2 i
  by (auto simp: slot_ready_def open_failed_def deactivate_def set_owner_def Let_def split: option.splits)


subsection \<open>Opening\<close>

text \<open>The first owner's failure is undone, the second owner's is a panic; a success leaves a valid table.\<close>

lemma opened_ring_ok:
  assumes S: "slot_ready nm p k i w k1" and nm: "nm \<noteq> []" "length nm \<le> MAX_NAME_LEN"
  shows "ring_ok (opened_ring p t w (ringbufs k1 ! i))"
proof -
  have len: "length (buf_pages (ringbufs k1 ! i)) = RINGBUF_SIZE" "book_page (ringbufs k1 ! i) \<noteq> None"
      "name_buf (ringbufs k1 ! i) = nm"
    using S by (simp_all add: slot_ready_def)
  have pos: "page_size > 0" by (simp add: page_size_def)
  show ?thesis
  proof (cases "refcount (ringbufs k ! i) = 0")
    case True
    then have "w = 0" "owners (ringbufs k1 ! i) = [no_owner, no_owner]" "refcount (ringbufs k1 ! i) = 0"
      using S by (simp_all add: slot_ready_def)
    then show ?thesis using len nm pos by (simp add: ring_ok_def opened_ring_def owner_ok_def no_owner_def)
  next
    case False
    then obtain ow where "k1 = k" "refcount (ringbufs k ! i) = 1" "owner_ok ow" "proc ow \<noteq> None" "proc ow \<noteq> Some p"
        "w = 0 \<and> owners (ringbufs k ! i) = [no_owner, ow] \<or> w = 1 \<and> owners (ringbufs k ! i) = [ow, no_owner]"
      using S by (auto simp: slot_ready_def)
    then show ?thesis using len nm pos by (elim disjE) (auto simp: ring_ok_def opened_ring_def owner_ok_def)
  qed
qed

lemma slot_facts:
  assumes inv: "kring_inv k" and S: "slot_ready nm p k i w k1"
  shows "i < MAX_RINGBUFS" "i < length (ringbufs k1)" "w < length (owners (ringbufs k1 ! i))"
    "length (buf_pages (ringbufs k1 ! i)) = RINGBUF_SIZE" "\<exists>b. book_page (ringbufs k1 ! i) = Some b"
    "ringbufs k1 = (ringbufs k)[i := ringbufs k1 ! i]"
    "topFree k1 = topFree k" "maps k1 = maps k" "ownedCount k1 = ownedCount k"
proof -
  show i: "i < MAX_RINGBUFS" and u: "ringbufs k1 = (ringbufs k)[i := ringbufs k1 ! i]"
    and "length (buf_pages (ringbufs k1 ! i)) = RINGBUF_SIZE" "\<exists>b. book_page (ringbufs k1 ! i) = Some b"
    and "topFree k1 = topFree k" "maps k1 = maps k" "ownedCount k1 = ownedCount k"
    using S by (auto simp: slot_ready_def)
  show "i < length (ringbufs k1)" using u i kring_length [OF inv] by (metis length_list_update)
  show "w < length (owners (ringbufs k1 ! i))" using S by (auto simp: slot_ready_def split: if_splits)
qed

lemma opened_good:
  assumes inv: "kring_inv k" and S: "slot_ready nm p k i w k1" and nm: "nm \<noteq> []" "length nm \<le> MAX_NAME_LEN"
    and O: "opened p i w k1 k2"
  shows "kgood k k2"
proof -
  note F = slot_facts [OF inv S]
  define r where "r = opened_ring p (topFree k1 p) w (ringbufs k1 ! i)"
  have rings1: "ringbufs k2 = (ringbufs k1)[i := r]" and pl: "pool k2 = pool k1"
    using O by (simp_all add: opened_def r_def)
  have rings: "ringbufs k2 = (ringbufs k)[i := r]" using rings1 F(6) by (metis list_update_overwrite)
  have nmr: "name_buf r = nm" using S by (simp add: r_def opened_ring_def slot_ready_def)
  have ok: "ring_ok r" unfolding r_def by (rule opened_ring_ok [OF S nm])
  have other: "name_buf (ringbufs k ! j) \<noteq> nm" if j: "j < MAX_RINGBUFS" "j \<noteq> i" "refcount (ringbufs k ! j) \<noteq> 0" for j
  proof (cases "refcount (ringbufs k ! i) = 0")
    case True
    then have "findRingbufByName nm k = None" using S by (simp add: slot_ready_def)
    then show ?thesis using j unfolding findRingbufByName_None by blast
  next
    case False
    then have "findRingbufByName nm k = Some i" using S by (simp add: slot_ready_def)
    then show ?thesis
      using findRingbufByName_Some [of nm k i] j inv unfolding kring_inv_def names_differ_def by metis
  qed
  have "kring_inv k2"
    by (rule kring_inv_update [OF inv ok rings]) (use other nmr in blast)
  moreover have "kpages k2 = kpages k1"
    by (rule kpages_update [OF F(2) rings1]) (simp add: pl r_def opened_ring_def ring_pages_def)
  ultimately show ?thesis using S by (simp add: kgood_def slot_ready_def)
qed

lemma kgood_topFree [simp]: "kgood k (k'\<lparr>topFree := t\<rparr>) = kgood k k'"
  by (simp add: kgood_def kring_inv_def kpages_def)

lemma opened_frame:
  assumes "opened p i w k1 k2"
  shows "ringbufs k2 = (ringbufs k1)[i := opened_ring p (topFree k1 p) w (ringbufs k1 ! i)]" "pool k2 = pool k1"
  using assms by (simp_all add: opened_def)

lemma opened_ring_frame:
  "owners (opened_ring p t w r) = (owners r)[w := \<lparr>proc = Some p, vbuf = t - 33 * page_size + 2 * page_size, vbook = t - 33 * page_size + page_size\<rparr>]"
  "buf_pages (opened_ring p t w r) = buf_pages r" "book_page (opened_ring p t w r) = book_page r"
  "name_buf (opened_ring p t w r) = name_buf r"
  by (simp_all add: opened_ring_def)

lemma open_ready_cases:
  assumes inv: "kring_inv k" and nm: "nm \<noteq> []" "length nm \<le> MAX_NAME_LEN"
    and o: "open_slot nm p k = (Some (Inr (i, w)), k1)" and S: "slot_ready nm p k i w k1"
    and big: "map_room can_map p k \<Longrightarrow> 34 * page_size \<le> topFree k p"
  shows "if map_room can_map p k \<and> copy_ok
     then \<exists>k2. opened p i w k1 k2 \<and>
       ringbuf_open can_map copy_ok nm p k = KDone (k2\<lparr>topFree := (topFree k2)(p := topFree k2 p - page_size)\<rparr>)
     else if refcount (ringbufs k ! i) = 0
     then \<exists>e k3. ringbuf_open can_map copy_ok nm p k = KErr e k3 \<and> half_failed p k k3 \<and> e \<in> {MapPagesFailed, CopyOutFailed}
     else ringbuf_open can_map copy_ok nm p k = KPanic"
proof -
  note F = slot_facts [OF inv S]
  obtain b where b: "book_page (ringbufs k1 ! i) = Some b" using F(5) by blast
  have room: "map_room can_map p k1 = map_room can_map p k" by (simp add: map_room_def F(7,8))
  show ?thesis
  proof (cases "map_room can_map p k")
    case True
    obtain k2 where k2: "opened p i w k1 k2" "ringbuf_open can_map copy_ok nm p k =
       (if copy_ok then KDone (k2\<lparr>topFree := (topFree k2)(p := topFree k2 p - page_size)\<rparr>) else open_failed i w CopyOutFailed k2)"
      using open_mapped [OF o F(2,3,4) b, of can_map copy_ok] True room big F(7) by auto
    show ?thesis
    proof (cases copy_ok)
      case True
      then show ?thesis using k2 \<open>map_room can_map p k\<close> by auto
    next
      case False
      show ?thesis
      proof (cases "refcount (ringbufs k ! i) = 0")
        case True
        obtain k3 where k3: "open_failed i w CopyOutFailed k2 = KErr CopyOutFailed k3" "kgood k k3" "maps k3 = maps k2"
            "topFree k3 = topFree k2" "ownedCount k3 = ownedCount k2" "same_owners k k3"
          using open_failed_fresh [OF inv S True opened_frame [OF k2(1)] opened_ring_frame(1,2,3), of CopyOutFailed] by blast
        have "mapped_more p k k3"
          using mapped_more_opened [OF k2(1)] k3(3,4) F(7,8) by (simp add: mapped_more_def)
        moreover have "ownedCount k3 = (ownedCount k)(p := ownedCount k p + 1)" using k2(1) k3(5) F(9) by (simp add: opened_def)
        ultimately have "half_failed p k k3" using k3(2,6) by (simp add: half_failed_def)
        then show ?thesis using k2(2) k3(1) False True by simp
      next
        case second: False
        have "open_failed i w CopyOutFailed k2 = KPanic"
          by (rule open_failed_second [OF S second F(2) opened_frame(1) [OF k2(1)] opened_ring_frame(1)])
        then show ?thesis using k2(2) False second by simp
      qed
    qed
  next
    case False
    then have nr: "\<not> map_room can_map p k1" using room by simp
    obtain k2 where k2: "ringbuf_open can_map copy_ok nm p k = open_failed i w MapPagesFailed k2" "pool k2 = pool k1"
     "mapped_more p k1 k2" "ownedCount k2 = (ownedCount k1)(p := ownedCount k1 p + 1)"
     "ringbufs k2 = (ringbufs k1)[i := (ringbufs k1 ! i)\<lparr>owners := (owners (ringbufs k1 ! i))[w := (owners (ringbufs k1 ! i) ! w)\<lparr>proc := Some p\<rparr>],
         refcount := Suc (refcount (ringbufs k1 ! i))\<rparr>]"
      using open_no_room [OF o F(2,4) b nr, of copy_ok] by blast
    show ?thesis
    proof (cases "refcount (ringbufs k ! i) = 0")
      case True
      obtain k3 where k3: "open_failed i w MapPagesFailed k2 = KErr MapPagesFailed k3" "kgood k k3" "maps k3 = maps k2"
          "topFree k3 = topFree k2" "ownedCount k3 = ownedCount k2" "same_owners k k3"
        using open_failed_fresh [OF inv S True k2(5,2), of _ MapPagesFailed] by auto
      have "mapped_more p k k3" using k2(3) k3(3,4) F(7,8) by (simp add: mapped_more_def)
      then have "half_failed p k k3" using k2(4) k3(2,5,6) F(9) by (simp add: half_failed_def)
      then show ?thesis using k2(1) k3(1) False True by simp
    next
      case second: False
      have "open_failed i w MapPagesFailed k2 = KPanic"
        using open_failed_second [OF S second F(2) k2(5)] by auto
      then show ?thesis using k2(1) False second by simp
    qed
  qed
qed


text \<open>Without room, or when the address cannot be copied out, the open of a second owner panics.\<close>

lemma second_open_panics:
  assumes inv: "kring_inv k" and o: "open_slot nm p k = (Some (Inr (i, w)), k1)" and S: "slot_ready nm p k i w k1"
    and no: "\<not> (map_room can_map p k \<and> copy_ok)" and second: "refcount (ringbufs k ! i) \<noteq> 0"
  shows "ringbuf_open can_map copy_ok nm p k = KPanic"
proof -
  note F = slot_facts [OF inv S]
  obtain b where b: "book_page (ringbufs k1 ! i) = Some b" using F(5) by blast
  have "\<exists>e k2 r2 ow. ringbuf_open can_map copy_ok nm p k = open_failed i w e k2 \<and> ringbufs k2 = (ringbufs k1)[i := r2] \<and>
     owners r2 = (owners (ringbufs k1 ! i))[w := ow]"
  proof (cases copy_ok)
    case True
    then have "\<not> map_room can_map p k1" using no by (simp add: map_room_def F(7,8))
    then obtain k2 where k2: "ringbuf_open can_map copy_ok nm p k = open_failed i w MapPagesFailed k2"
      "ringbufs k2 = (ringbufs k1)[i := (ringbufs k1 ! i)\<lparr>owners := (owners (ringbufs k1 ! i))[w := (owners (ringbufs k1 ! i) ! w)\<lparr>proc := Some p\<rparr>],
         refcount := Suc (refcount (ringbufs k1 ! i))\<rparr>]"
      using open_no_room [OF o F(2,4) b, of can_map copy_ok] by blast
    then show ?thesis by (intro exI conjI) auto
  next
    case False
    then show ?thesis using open_uncopied [OF o F(2) b] by simp
  qed
  then show ?thesis using open_failed_second [OF S second F(2)] by metis
qed


subsection \<open>Every call\<close>

definition tops_aligned :: "(pid \<Rightarrow> nat) \<Rightarrow> bool" where
  "tops_aligned t = (\<forall>p. t p mod page_size = 0)"

lemma ringbuf_close_cases:
  assumes inv: "kring_inv k" and can: "\<forall>i < MAX_RINGBUFS. can_disown i p k"
  shows "(\<exists>e. ringbuf_close nm addr p k = KErr e k \<and> e \<notin> {MapPagesFailed, CopyOutFailed}) \<or>
     (\<exists>i k2 t. i < MAX_RINGBUFS \<and> disowned p i k k2 \<and> (tops_aligned (topFree k) \<longrightarrow> tops_aligned t) \<and>
        ringbuf_close nm addr p k = KDone (k2\<lparr>topFree := t\<rparr>))"
proof (cases "\<exists>e. ringbuf_close nm addr p k = KErr e k \<and> e \<notin> {MapPagesFailed, CopyOutFailed}")
  case False
  obtain vaddr where addr: "addr = Some vaddr" using False by (cases addr) (auto simp: ringbuf_close_def)
  obtain i where f: "findRingbufByName nm k = Some i"
    using False addr by (cases "findRingbufByName nm k") (auto simp: ringbuf_close_def)
  note F = findRingbufByName_Some [OF f]
  have ok: "ring_ok (ringbufs k ! i)" by (rule kring_invD [OF inv]) (use F in blast)
  have bk: "book_page (ringbufs k ! i) \<noteq> None" using ok F by (simp add: ring_ok_def)
  obtain k2 where k2: "disownIfOwned i p k = Some k2" "disowned p i k k2"
    using disown_spec [OF inv conjunct1 [OF F], of p] can F by blast
  have ow: "owner_index (ringbufs k ! i) p \<noteq> None" and va: "vaddr \<noteq> 0"
    using False addr f by (auto simp: ringbuf_close_def Let_def split: if_splits option.splits)
  then obtain w where w: "owner_index (ringbufs k ! i) p = Some w" by blast
  have chk: "vbuf (owners (ringbufs k ! i) ! w) = vaddr" "vbook (owners (ringbufs k ! i) ! w) = vaddr - page_size"
    using False addr f w va by (auto simp: ringbuf_close_def Let_def split: if_splits)
  define t where "t = (if topFree k2 p = vaddr - 3 * page_size
       then (topFree k2)(p := topFree k2 p + page_size * (1 + 1 + 2 * RINGBUF_SIZE)) else topFree k2)"
  have c: "ringbuf_close nm addr p k = KDone (k2\<lparr>topFree := t\<rparr>)"
    using addr f w va chk F bk k2 unfolding t_def by (simp add: ringbuf_close_def Let_def)
  have "topFree k2 = topFree k" using k2(2) by (simp add: disowned_def)
  moreover have "tops_aligned f \<longrightarrow> tops_aligned (if c then f(p := f p + page_size * n) else f)" for f n c
    by (simp add: tops_aligned_def)
  ultimately have "tops_aligned (topFree k) \<longrightarrow> tops_aligned t" unfolding t_def by (elim subst)
  then show ?thesis using c F k2(2) by blast
qed simp

lemma disowned_good: "disowned p i k k' \<Longrightarrow> kgood k k'"
  by (simp add: disowned_def)

lemma kgood_refl: "kring_inv k \<Longrightarrow> kgood k k"
  by (simp add: kgood_def)

lemma kgood_trans: "kgood k k1 \<Longrightarrow> kgood k1 k2 \<Longrightarrow> kgood k k2"
  by (simp add: kgood_def)

lemma kgood_inv: "kgood k k' \<Longrightarrow> kring_inv k'"
  by (simp add: kgood_def)

text \<open>An open needs 34 pages under the lowest used page of the process; a close needs nothing.\<close>

definition op_fits :: "rb_op \<Rightarrow> pid \<Rightarrow> kring \<Rightarrow> bool" where
  "op_fits op p k = (case op of Open _ \<Rightarrow> 34 * page_size \<le> topFree k p | CloseAt _ \<Rightarrow> True)"

lemma op_fits_simps [simp]: "op_fits (Open c) p k = (34 * page_size \<le> topFree k p)" "op_fits (CloseAt a) p k"
  by (simp_all add: op_fits_def)

text \<open>What a call of \<open>ringbuf\<close> can do, by its effect.\<close>

lemma ringbuf_cases:
  assumes inv: "kring_inv k" and can: "\<forall>i < MAX_RINGBUFS. can_disown i p k" and fits: "op_fits op p k"
  shows "(\<exists>e k'. ringbuf can_map nm op p k = KErr e k' \<and> slot_error k k' \<and> e \<notin> {MapPagesFailed, CopyOutFailed}) \<or>
     (\<exists>e k'. ringbuf can_map nm op p k = KErr e k' \<and> half_failed p k k' \<and> e \<in> {MapPagesFailed, CopyOutFailed}) \<or>
     (\<exists>i k2 t. i < MAX_RINGBUFS \<and> disowned p i k k2 \<and> (tops_aligned (topFree k) \<longrightarrow> tops_aligned t) \<and>
        ringbuf can_map nm op p k = KDone (k2\<lparr>topFree := t\<rparr>)) \<or>
     (\<exists>i w k1 k2 t. op = Open True \<and> slot_ready nm p k i w k1 \<and> opened p i w k1 k2 \<and> kgood k k2 \<and>
        (tops_aligned (topFree k) \<longrightarrow> tops_aligned t) \<and> ringbuf can_map nm op p k = KDone (k2\<lparr>topFree := t\<rparr>)) \<or>
     ringbuf can_map nm op p k = KPanic \<and>
       (\<exists>i copy_ok. op = Open copy_ok \<and> findRingbufByName nm k = Some i \<and> refcount (ringbufs k ! i) = 1 \<and>
          \<not> (map_room can_map p k \<and> copy_ok))"
proof (cases "nm = [] \<or> length nm > MAX_NAME_LEN")
  case True
  then show ?thesis using slot_error_refl [OF inv] by (auto simp: ringbuf_def)
next
  case False
  then have nm: "nm \<noteq> []" "length nm \<le> MAX_NAME_LEN" by auto
  show ?thesis
  proof (cases op)
    case (CloseAt addr)
    then show ?thesis using ringbuf_close_cases [OF inv can, of nm addr] nm slot_error_refl [OF inv] by (auto simp: ringbuf_def)
  next
    case (Open copy_ok)
    then have big: "34 * page_size \<le> topFree k p" using fits by simp
    from Open have r: "ringbuf can_map nm op p k = ringbuf_open can_map copy_ok nm p k" using nm by (simp add: ringbuf_def)
    from open_slot_cases [OF inv nm, of p] show ?thesis
    proof
      assume "\<exists>e k1. open_slot nm p k = (Some (Inl e), k1) \<and> slot_error k k1"
      then obtain e k1 where e: "open_slot nm p k = (Some (Inl e), k1)" "slot_error k k1" by blast
      then have o: "ringbuf_open can_map copy_ok nm p k = KErr e k1" by (simp add: ringbuf_open_def)
      then show ?thesis unfolding r o using e(2) open_slot_errors [OF e(1)] by blast
    next
      assume "\<exists>i w k1. open_slot nm p k = (Some (Inr (i, w)), k1) \<and> slot_ready nm p k i w k1"
      then obtain i w k1 where o: "open_slot nm p k = (Some (Inr (i, w)), k1)" "slot_ready nm p k i w k1" by blast
      note C = open_ready_cases [OF inv nm o big, of can_map copy_ok]
      show ?thesis
      proof (cases "map_room can_map p k \<and> copy_ok")
        case True
        from C [unfolded if_P [OF True]] obtain k2 where k2: "opened p i w k1 k2"
            "ringbuf_open can_map copy_ok nm p k = KDone (k2\<lparr>topFree := (topFree k2)(p := topFree k2 p - page_size)\<rparr>)"
          by blast
        have g: "kgood k k2" by (rule opened_good [OF inv o(2) nm k2(1)])
        have "tops_aligned (topFree k) \<longrightarrow> tops_aligned ((topFree k2)(p := topFree k2 p - page_size))"
          using k2(1) slot_facts(7) [OF inv o(2)] aligned_minus [of "topFree k p" 34] by (auto simp: tops_aligned_def opened_def)
        then show ?thesis unfolding r using g k2 o(2) Open True by blast
      next
        case no: False
        have "(\<exists>e k3. ringbuf_open can_map copy_ok nm p k = KErr e k3 \<and> half_failed p k k3 \<and> e \<in> {MapPagesFailed, CopyOutFailed}) \<or>
            ringbuf_open can_map copy_ok nm p k = KPanic \<and> findRingbufByName nm k = Some i \<and> refcount (ringbufs k ! i) = 1"
          using C [unfolded if_not_P [OF no]] o(2) by (cases "refcount (ringbufs k ! i) = 0") (simp_all add: slot_ready_def)
        then show ?thesis unfolding r using no Open by blast
      qed
    qed
  qed
qed

end
