(* ===== verification/Kringsafe.thy ===== *)
theory Kringsafe
  imports Kringbuf
begin

text \<open>
  What the kernel's ring buffers guarantee: the table stays valid, a process reaches only pages of ring buffers that
  it owns, a process that ends leaves nothing behind; and what goes wrong when an open fails
  half-way.  A valid state (\<open>kring_ok\<close>) is a valid table in which every owner has its pages mapped, at aligned addresses that no other ring
  buffer of the process uses (\<open>kring_mapped\<close>, what unmapping relies on), and in which no process owns more ring buffers than it counts
  (\<open>counts_ok\<close>, what the end of a process relies on when it skips the search because its count is zero).  A mapping is seen as the right of a
  process to a page (\<open>ring_access\<close>).
\<close>

subsection \<open>Valid states\<close>

definition owners_mapped :: "kring \<Rightarrow> bool" where
  "owners_mapped k = (\<forall>i < MAX_RINGBUFS. \<forall>ow \<in> set (owners (ringbufs k ! i)). \<forall>p. proc ow = Some p \<longrightarrow> owner_mapped p ow k)"

definition owners_apart :: "kring \<Rightarrow> bool" where
  "owners_apart k = (\<forall>i < MAX_RINGBUFS. \<forall>j < MAX_RINGBUFS. i \<noteq> j \<longrightarrow>
     (\<forall>ow \<in> set (owners (ringbufs k ! i)). \<forall>ow' \<in> set (owners (ringbufs k ! j)).
        proc ow \<noteq> None \<longrightarrow> proc ow' = proc ow \<longrightarrow> set (owner_addrs ow) \<inter> set (owner_addrs ow') = {}))"

definition kring_mapped :: "kring \<Rightarrow> bool" where
  "kring_mapped k = (owners_mapped k \<and> owners_apart k \<and> tops_aligned (topFree k))"

definition owned :: "kring \<Rightarrow> pid \<Rightarrow> nat set" where
  "owned k p = {i. i < MAX_RINGBUFS \<and> owner_index (ringbufs k ! i) p \<noteq> None}"

definition counts_ok :: "kring \<Rightarrow> bool" where
  "counts_ok k = (\<forall>p. card (owned k p) \<le> ownedCount k p)"

definition kring_ok :: "kring \<Rightarrow> bool" where
  "kring_ok k = (kring_inv k \<and> kring_mapped k \<and> counts_ok k)"

lemma finite_owned [simp]: "finite (owned k p)"
  by (simp add: owned_def)

lemma owner_index_mem: "length (owners r) = 2 \<Longrightarrow> owner_index r p \<noteq> None \<longleftrightarrow> Some p \<in> proc ` set (owners r)"
  by (auto simp: owner_index_def length_2_cases)

lemma owner_index_owner:
  "length (owners r) = 2 \<Longrightarrow> owner_index r p = Some w \<Longrightarrow> owners r ! w \<in> set (owners r) \<and> proc (owners r ! w) = Some p"
  by (auto simp: owner_index_def length_2_cases split: if_splits)

lemma ring_owners_length: "kring_inv k \<Longrightarrow> i < MAX_RINGBUFS \<Longrightarrow> length (owners (ringbufs k ! i)) = 2"
  by (drule (1) kring_invD) (simp add: ring_ok_def)

lemma kring_ok_can_disown:
  assumes "kring_ok k" "i < MAX_RINGBUFS"
  shows "can_disown i p k"
proof (cases "owner_index (ringbufs k ! i) p")
  case (Some w)
  have K: "kring_inv k" "owners_mapped k" "counts_ok k" using assms(1) by (simp_all add: kring_ok_def kring_mapped_def)
  note ow = owner_index_owner [OF ring_owners_length [OF K(1) assms(2)] Some]
  then have "owner_mapped p (owners (ringbufs k ! i) ! w) k" using K(2) assms(2) unfolding owners_mapped_def by blast
  moreover have "i \<in> owned k p" using Some assms(2) by (simp add: owned_def)
  then have "card (owned k p) \<noteq> 0" by (metis card_0_eq empty_iff finite_owned)
  then have "0 < ownedCount k p" using K(3) unfolding counts_ok_def by (metis gr0I le_zero_eq)
  ultimately show ?thesis using Some by (simp add: can_disown_def)
qed (simp add: can_disown_def)

lemma owner_mapped_more: "owner_mapped p ow k \<Longrightarrow> mapped_more q k k' \<Longrightarrow> owner_mapped p ow k'"
  by (auto simp: owner_mapped_def mapped_more_def)

lemma owner_mapped_topFree [simp]: "owner_mapped p ow (k\<lparr>topFree := t\<rparr>) = owner_mapped p ow k"
  by (simp add: owner_mapped_def)

text \<open>Errors keep a state valid.\<close>

lemma same_owners_kept:
  assumes S: "same_owners k k'" and g: "kgood k k'" and m: "mapped_more p k k'" and c: "\<forall>q. ownedCount k q \<le> ownedCount k' q" and ok: "kring_ok k"
  shows "kring_ok k'"
proof -
  have K: "owners_mapped k" "owners_apart k" "tops_aligned (topFree k)" "counts_ok k" using ok by (simp_all add: kring_ok_def kring_mapped_def)
  have eq: "owners (ringbufs k' ! i) = owners (ringbufs k ! i)" if "i < MAX_RINGBUFS" for i using S that by (simp add: same_owners_def)
  have "owners_mapped k'" using K(1) eq owner_mapped_more [OF _ m] unfolding owners_mapped_def by metis
  moreover have "owners_apart k'" using K(2) eq unfolding owners_apart_def by metis
  moreover have "tops_aligned (topFree k')" using K(3) m unfolding tops_aligned_def mapped_more_def by metis
  moreover have "owned k' q = owned k q" for q using eq by (auto simp: owned_def owner_index_def)
  then have "counts_ok k'" using K(4) c unfolding counts_ok_def by (metis order_trans)
  ultimately show ?thesis using kgood_inv [OF g] by (simp add: kring_ok_def kring_mapped_def)
qed

lemma slot_error_ok: "slot_error k k' \<Longrightarrow> kring_ok k \<Longrightarrow> kring_ok k'"
  by (rule same_owners_kept [where k = k and p = 0]) (simp_all add: slot_error_def mapped_more_def)

lemma half_failed_ok: "half_failed p k k' \<Longrightarrow> kring_ok k \<Longrightarrow> kring_ok k'"
  by (rule same_owners_kept [where k = k and p = p]) (simp_all add: half_failed_def)

lemma kring_inv_topFree [simp]: "kring_inv (k\<lparr>topFree := t\<rparr>) = kring_inv k"
  by (simp add: kring_inv_def)

lemma kpages_topFree [simp]: "kpages (k\<lparr>topFree := t\<rparr>) = kpages k"
  by (simp add: kpages_def)

lemma kring_ok_topFree:
  assumes "kring_ok k" "tops_aligned t"
  shows "kring_ok (k\<lparr>topFree := t\<rparr>)"
proof -
  have "owned (k\<lparr>topFree := t\<rparr>) q = owned k q" for q by (simp add: owned_def)
  moreover have "owners_mapped (k\<lparr>topFree := t\<rparr>) = owners_mapped k" by (simp add: owners_mapped_def)
  moreover have "owners_apart (k\<lparr>topFree := t\<rparr>) = owners_apart k" by (simp add: owners_apart_def)
  ultimately show ?thesis using assms by (simp add: kring_ok_def kring_mapped_def counts_ok_def)
qed

text \<open>Giving a ring buffer back keeps a state valid: the process has its other ring buffers at other addresses.\<close>

lemma disowned_mapped:
  assumes inv: "kring_inv k" and i: "i < MAX_RINGBUFS" and D: "disowned p i k k'" and m: "kring_mapped k"
  shows "kring_mapped k'"
proof (cases "owner_index (ringbufs k ! i) p")
  case None
  then show ?thesis using D m by (simp add: disowned_def)
next
  case (Some w)
  define ow where "ow = owners (ringbufs k ! i) ! w"
  have ow: "ow \<in> set (owners (ringbufs k ! i))" "proc ow = Some p"
    using owner_index_owner [OF ring_owners_length [OF inv i] Some] by (simp_all add: ow_def)
  have maps': "maps k' = maps (without p (set (owner_addrs ow)) k)" and rings: "ringbufs k' = (ringbufs k)[i := ringbufs k' ! i]"
    and top: "topFree k' = topFree k" and no: "owner_index (ringbufs k' ! i) p = None" and inv': "kring_inv k'"
    and sub: "\<forall>ow \<in> set (owners (ringbufs k' ! i)). proc ow \<noteq> None \<longrightarrow> ow \<in> set (owners (ringbufs k ! i))"
    using D Some unfolding disowned_def kgood_def ow_def by auto
  have eq: "ringbufs k' ! j = ringbufs k ! j" if "j \<noteq> i" for j using rings that by (metis nth_list_update_neq)
  have old: "o' \<in> set (owners (ringbufs k ! j))" if "o' \<in> set (owners (ringbufs k' ! j))" "proc o' \<noteq> None" for j o'
    using that sub eq by (cases "j = i") auto
  have notp: "proc o' \<noteq> Some p" if "o' \<in> set (owners (ringbufs k' ! i))" for o'
    using that no owner_index_mem [OF ring_owners_length [OF inv' i], of p] by force
  have apart: "owners_apart k" and mapped: "owners_mapped k" using m by (simp_all add: kring_mapped_def)
  have "owner_mapped q o' k'" if j: "j < MAX_RINGBUFS" and o': "o' \<in> set (owners (ringbufs k' ! j))" "proc o' = Some q" for j o' q
  proof -
    have mem: "o' \<in> set (owners (ringbufs k ! j))" using old [OF o'(1)] o'(2) by simp
    have om: "owner_mapped q o' k" using mapped j mem o'(2) unfolding owners_mapped_def by blast
    have "q \<noteq> p \<or> set (owner_addrs ow) \<inter> set (owner_addrs o') = {}"
    proof (cases "j = i")
      case True
      then show ?thesis using notp o' by auto
    next
      case False
      then show ?thesis using apart i j ow mem o'(2) unfolding owners_apart_def by (metis option.distinct(1))
    qed
    then show ?thesis using om by (auto simp: owner_mapped_def maps')
  qed
  then have "owners_mapped k'" unfolding owners_mapped_def by blast
  moreover have "owners_apart k'" using apart old unfolding owners_apart_def by metis
  ultimately show ?thesis using m top by (simp add: kring_mapped_def)
qed

subsection \<open>Isolation\<close>

text \<open>
  The calls of processes in any order, whatever they return, and the ends of processes.  Each open needs room for
  34 pages below the process's lowest used page.  The set holds the processes that had an open fail
  half-way, after the first page was to be mapped: such an open leaves mappings behind.
\<close>

inductive kring_step :: "pid set \<times> kring \<Rightarrow> pid set \<times> kring \<Rightarrow> bool" where
  call: "ringbuf can_map nm op p k = KDone k' \<Longrightarrow> op_fits op p k \<Longrightarrow> kring_step (F, k) (F, k')"
| fails: "ringbuf can_map nm op p k = KErr e k' \<Longrightarrow> e \<notin> {MapPagesFailed, CopyOutFailed} \<Longrightarrow> op_fits op p k \<Longrightarrow>
    kring_step (F, k) (F, k')"
| half_fails: "ringbuf can_map nm op p k = KErr e k' \<Longrightarrow> e \<in> {MapPagesFailed, CopyOutFailed} \<Longrightarrow> op_fits op p k \<Longrightarrow>
    kring_step (F, k) (insert p F, k')"
| exits: "free_ringbufs t p k = Some k' \<Longrightarrow> t mod page_size = 0 \<Longrightarrow> kring_step (F, k) (F, k')"

definition ring_maps :: "kringbuf \<Rightarrow> owner \<Rightarrow> nat \<Rightarrow> page \<Rightarrow> bool" where
  "ring_maps r ow a pg = (a = vbook ow \<and> book_page r = Some pg \<or> (\<exists>j < RINGBUF_SIZE * 2. a = vbuf ow + j * page_size \<and> pg \<in> set (buf_pages r)))"

definition ring_access :: "kring \<Rightarrow> pid \<Rightarrow> nat \<Rightarrow> page \<Rightarrow> bool" where
  "ring_access k p a pg = (\<exists>i < MAX_RINGBUFS. \<exists>ow \<in> set (owners (ringbufs k ! i)). proc ow = Some p \<and> ring_maps (ringbufs k ! i) ow a pg)"

definition mapped_ok :: "pid set \<Rightarrow> kring \<Rightarrow> bool" where
  "mapped_ok F k = (\<forall>p a pg. p \<notin> F \<longrightarrow> maps k p a = Some pg \<longrightarrow> ring_access k p a pg)"

lemma ring_accessI:
  "i < MAX_RINGBUFS \<Longrightarrow> ow \<in> set (owners (ringbufs k ! i)) \<Longrightarrow> proc ow = Some p \<Longrightarrow> ring_maps (ringbufs k ! i) ow a pg \<Longrightarrow> ring_access k p a pg"
  unfolding ring_access_def by blast

lemma same_owners_access:
  assumes "same_owners k k'"
  shows "ring_access k' p a pg = ring_access k p a pg"
proof -
  have "\<forall>i < MAX_RINGBUFS. owners (ringbufs k' ! i) = owners (ringbufs k ! i) \<and> ring_maps (ringbufs k' ! i) = ring_maps (ringbufs k ! i)"
    using assms by (simp add: same_owners_def ring_maps_def fun_eq_iff)
  then show ?thesis unfolding ring_access_def by metis
qed

lemma slot_error_isolated: "slot_error k k' \<Longrightarrow> mapped_ok F k \<Longrightarrow> mapped_ok F k'"
  using same_owners_access [of k k'] by (simp add: mapped_ok_def slot_error_def)

lemma half_failed_isolated: "half_failed p k k' \<Longrightarrow> mapped_ok F k \<Longrightarrow> mapped_ok (insert p F) k'"
  using same_owners_access [of k k'] by (simp add: mapped_ok_def half_failed_def mapped_more_def)

lemma disowned_maps:
  assumes inv: "kring_inv k" and i: "i < MAX_RINGBUFS" and D: "disowned p i k k'" and m: "mapped_ok F k"
    and w: "owner_index (ringbufs k ! i) p = Some w"
  shows "mapped_ok F k'"
  unfolding mapped_ok_def
proof (intro allI impI)
  fix q a pg assume qF: "q \<notin> F" and M: "maps k' q a = Some pg"
  define r where "r = ringbufs k ! i"
  define ow where "ow = owners r ! w"
  have ok: "ring_ok r" unfolding r_def by (rule kring_invD [OF inv i])
  have len: "i < length (ringbufs k)" using kring_length [OF inv] i by simp
  have maps': "maps k' = maps (without p (set (owner_addrs ow)) k)"
    and rings: "ringbufs k' = (ringbufs k)[i := ringbufs k' ! i]"
    and keep: "\<And>o'. o' \<in> set (owners r) \<Longrightarrow> proc o' \<noteq> None \<Longrightarrow> proc o' \<noteq> Some p \<Longrightarrow> o' \<in> set (owners (ringbufs k' ! i)) \<and>
        buf_pages (ringbufs k' ! i) = buf_pages r \<and> book_page (ringbufs k' ! i) = book_page r"
    using D w unfolding disowned_def r_def ow_def by auto
  have out: "q \<noteq> p \<or> a \<noteq> vbook ow \<and> (\<forall>j < RINGBUF_SIZE * 2. a \<noteq> vbuf ow + j * page_size)"
    using M unfolding maps' by (auto simp: owner_addrs_def mem_page_range split: if_splits)
  have "maps k q a = Some pg" using M unfolding maps' by (auto split: if_splits)
  then have "ring_access k q a pg" using m qF by (simp add: mapped_ok_def)
  then obtain i' o' where A: "i' < MAX_RINGBUFS" "o' \<in> set (owners (ringbufs k ! i'))" "proc o' = Some q" "ring_maps (ringbufs k ! i') o' a pg"
    unfolding ring_access_def by blast
  show "ring_access k' q a pg"
  proof (cases "i' = i")
    case False
    then have eq: "ringbufs k' ! i' = ringbufs k ! i'" using rings by (metis nth_list_update_neq)
    show ?thesis by (rule ring_accessI [OF A(1) _ A(3)]) (unfold eq, fact A(2), fact A(4))
  next
    case True
    have mine: "o' \<in> set (owners r)" "ring_maps r o' a pg" using A True by (simp_all add: r_def)
    have "q \<noteq> p"
    proof
      assume "q = p"
      then have "o' = ow" using mine(1) A(3) w ok unfolding ow_def owner_index_def r_def [symmetric]
        by (auto simp: ring_ok_def length_2_cases split: if_splits)
      then show False using out mine(2) \<open>q = p\<close> unfolding ring_maps_def by blast
    qed
    then have K: "o' \<in> set (owners (ringbufs k' ! i))" "buf_pages (ringbufs k' ! i) = buf_pages r" "book_page (ringbufs k' ! i) = book_page r"
      using keep [OF mine(1)] A(3) by auto
    show ?thesis
      by (rule ring_accessI [OF i K(1) A(3)]) (use mine(2) K in \<open>simp add: ring_maps_def\<close>)
  qed
qed

lemma disowned_isolated:
  assumes inv: "kring_inv k" and i: "i < MAX_RINGBUFS" and D: "disowned p i k k'" and m: "mapped_ok F k" and c: "counts_ok k"
  shows "mapped_ok F k' \<and> counts_ok k' \<and> owned k' p = owned k p - {i}"
proof (cases "owner_index (ringbufs k ! i) p")
  case None
  then show ?thesis using D m c by (auto simp: disowned_def owned_def)
next
  case (Some w)
  have len: "i < length (ringbufs k)" using kring_length [OF inv] i by simp
  have ok: "ring_ok (ringbufs k ! i)" by (rule kring_invD [OF inv i])
  have rings: "ringbufs k' = (ringbufs k)[i := ringbufs k' ! i]" and own: "owner_index (ringbufs k' ! i) p = None"
    and cnt: "ownedCount k' = (ownedCount k)(p := ownedCount k p - 1)" and inv': "kring_inv k'"
    and sub: "\<forall>ow \<in> set (owners (ringbufs k' ! i)). proc ow \<noteq> None \<longrightarrow> ow \<in> set (owners (ringbufs k ! i))"
    using D Some unfolding disowned_def kgood_def by auto
  have two: "length (owners (ringbufs k ! i)) = 2" "length (owners (ringbufs k' ! i)) = 2"
    using kring_invD [OF inv i] kring_invD [OF inv' i] by (simp_all add: ring_ok_def)
  have eq: "ringbufs k' ! j = ringbufs k ! j" if "j \<noteq> i" for j using rings that by (metis nth_list_update_neq)
  have p: "owned k' p = owned k p - {i}" 
  proof (rule set_eqI)
    show "j \<in> owned k' p \<longleftrightarrow> j \<in> owned k p - {i}" for j by (cases "j = i") (simp_all add: owned_def own eq)
  qed
  have mem: "i \<in> owned k p" using Some i by (simp add: owned_def)
  have i': "owner_index (ringbufs k' ! i) q \<noteq> None \<Longrightarrow> owner_index (ringbufs k ! i) q \<noteq> None" for q
    unfolding owner_index_mem [OF two(1)] owner_index_mem [OF two(2)] using sub by force
  have "owned k' q \<subseteq> owned k q" for q

  proof
    show "j \<in> owned k q" if "j \<in> owned k' q" for j
      using that i' [of q] by (cases "j = i") (simp_all add: owned_def eq)
  qed
  then have "card (owned k' q) \<le> card (owned k q)" for q by (simp add: card_mono)
  then have "counts_ok k'"
    using c cnt p mem by (auto simp: counts_ok_def card_Diff_singleton) (metis One_nat_def diff_le_mono, metis order_trans)
  then show ?thesis using disowned_maps [OF inv i D m Some] p by simp
qed


lemma disowned_ok: "kring_ok k \<Longrightarrow> i < MAX_RINGBUFS \<Longrightarrow> disowned p i k k' \<Longrightarrow> kring_ok k'"
  using disowned_mapped [of k i p k'] disowned_isolated [of k i p k' UNIV] disowned_good [of p i k k'] kgood_inv [of k k']
  by (simp add: kring_ok_def mapped_ok_def)

lemma disown_from_isolated:
  assumes "kring_ok k" "mapped_ok F k" "list_all (\<lambda>i. i < MAX_RINGBUFS) is"
  shows "\<exists>k'. disown_from is p k = Some k' \<and> kgood k k' \<and> kring_ok k' \<and> mapped_ok F k' \<and> owned k' p = owned k p - set is"
  using assms
proof (induction "is" arbitrary: k)
  case Nil
  then show ?case by (simp add: kgood_refl kring_ok_def)
next
  case (Cons i "is")
  have i: "i < MAX_RINGBUFS" and inv: "kring_inv k" "counts_ok k" using Cons.prems by (simp_all add: kring_ok_def)
  obtain k1 where k1: "disownIfOwned i p k = Some k1" "disowned p i k k1"
    using disown_spec [OF inv(1) i kring_ok_can_disown [OF Cons.prems(1) i, of p]] by blast
  note I = disowned_isolated [OF inv(1) i k1(2) Cons.prems(2) inv(2)]
  note g = disowned_good [OF k1(2)]
  obtain k2 where k2: "disown_from is p k1 = Some k2" "kgood k1 k2" "kring_ok k2" "mapped_ok F k2" "owned k2 p = owned k1 p - set is"
    using Cons.IH [OF disowned_ok [OF Cons.prems(1) i k1(2)]] I Cons.prems(3) by auto
  show ?case using k1(1) k2 I kgood_trans [OF g k2(2)] by auto
qed

text \<open>The end of a process never panics, and afterwards the process owns nothing.\<close>

lemma free_ringbufs_spec:
  assumes ok: "kring_ok k" and m: "mapped_ok F k" and t: "t mod page_size = 0"
  shows "\<exists>k'. free_ringbufs t p k = Some k' \<and> kgood k k' \<and> kring_ok k' \<and> mapped_ok F k' \<and> owned k' p = {}"
proof -
  have inv: "kring_inv k" and c: "counts_ok k" using ok by (simp_all add: kring_ok_def)
  have "\<exists>k1. (if ownedCount k p > 0 then ringbuf_disown_all p k else Some k) = Some k1 \<and> kgood k k1 \<and> kring_ok k1 \<and> mapped_ok F k1 \<and> owned k1 p = {}"
  proof (cases "ownedCount k p > 0")
    case True
    have none: "owned k p - set [0..<MAX_RINGBUFS] = {}" by (auto simp: owned_def)
    have "list_all (\<lambda>i. i < MAX_RINGBUFS) [0..<MAX_RINGBUFS]" by (simp add: list_all_length)
    from disown_from_isolated [OF ok m this, of p, unfolded none] show ?thesis
      using True by (simp add: ringbuf_disown_all_def)
  next
    case False
    then have "card (owned k p) = 0" using c unfolding counts_ok_def by (metis gr0I le_zero_eq)
    then show ?thesis using False kgood_refl [OF inv] m ok by simp
  qed
  then obtain k1 where k1: "(if ownedCount k p > 0 then ringbuf_disown_all p k else Some k) = Some k1" "kgood k k1" "kring_ok k1"
      "mapped_ok F k1" "owned k1 p = {}" by blast
  define k2 where "k2 = k1\<lparr>topFree := (topFree k1)(p := t), ownedCount := (ownedCount k1)(p := 0)\<rparr>"
  have own: "owned k2 q = owned k1 q" for q by (simp add: owned_def k2_def)
  have "ring_access k2 q a pg = ring_access k1 q a pg" for q a pg by (simp add: ring_access_def k2_def)
  then have "mapped_ok F k2" "counts_ok k2" using k1 own by (auto simp: mapped_ok_def counts_ok_def kring_ok_def k2_def)
  moreover have "kring_mapped k2"
    using k1(3) t by (auto simp: kring_ok_def kring_mapped_def owners_mapped_def owners_apart_def owner_mapped_def tops_aligned_def k2_def)
  moreover have "kgood k k2" using k1(2) by (simp add: k2_def kgood_def kring_inv_def kpages_def)
  moreover have "free_ringbufs t p k = Some k2" using k1(1) by (simp add: free_ringbufs_def k2_def)
  ultimately show ?thesis using own k1(5) kgood_inv [of k k2] by (auto simp: kring_ok_def)
qed

lemma opened_owner_kept:
  assumes inv: "kring_inv k" and S: "slot_ready nm p k i w k1" and O: "opened p i w k1 k2"
    and o': "o' \<in> set (owners (ringbufs k ! i))" "proc o' = Some q"
  shows "o' \<in> set (owners (ringbufs k2 ! i)) \<and> ring_maps (ringbufs k2 ! i) = ring_maps (ringbufs k ! i)"
proof -
  note F = slot_facts [OF inv S]
  have r2: "ringbufs k2 ! i = opened_ring p (topFree k1 p) w (ringbufs k1 ! i)" using opened_frame(1) [OF O] F(2) by simp
  have "refcount (ringbufs k ! i) \<noteq> 0"

  proof
    assume "refcount (ringbufs k ! i) = 0"
    then have "owners (ringbufs k ! i) = [no_owner, no_owner]" using ring_ok_free [OF kring_invD [OF inv F(1)]] by blast
    then show False using o' by (auto simp: no_owner_def)
  qed
  then have k1: "k1 = k" and w: "\<exists>ow. w = 0 \<and> owners (ringbufs k ! i) = [no_owner, ow] \<or> w = 1 \<and> owners (ringbufs k ! i) = [ow, no_owner]"
    using S by (auto simp: slot_ready_def)
  have "o' \<noteq> no_owner" using o'(2) by (auto simp: no_owner_def)
  then have "o' \<in> set (owners (ringbufs k2 ! i))" using w o'(1) unfolding r2 k1 opened_ring_frame by auto
  then show ?thesis unfolding r2 k1 ring_maps_def opened_ring_frame by simp
qed

lemma opened_new_maps:
  assumes inv: "kring_inv k" and S: "slot_ready nm p k i w k1" and O: "opened p i w k1 k2"
    and big: "34 * page_size \<le> topFree k p" and n: "n < 33" and M: "maps k2 p (topFree k p - n * page_size) = Some pg"
  shows "ring_access k2 p (topFree k p - n * page_size) pg"
proof -
  note F = slot_facts [OF inv S]
  define t where "t = topFree k p"
  define r where "r = ringbufs k1 ! i"
  define ow where "ow = \<lparr>proc = Some p, vbuf = t - 33 * page_size + 2 * page_size, vbook = t - 33 * page_size + page_size\<rparr>"
  have r2: "ringbufs k2 ! i = opened_ring p t w r" using opened_frame(1) [OF O] F(2,7) by (simp add: t_def r_def)
  have mem: "ow \<in> set (owners (ringbufs k2 ! i))" unfolding r2 opened_ring_frame ow_def using F(3) by (simp add: r_def set_update_memI)
  have v: "vbuf ow = t - 31 * page_size" "vbook ow = t - 32 * page_size" using big by (simp_all add: ow_def t_def page_size_def)
  have dm: "double_mapped k2 p (t - 31 * page_size) r" using O big F(7) by (simp add: opened_def t_def r_def)
  have "ring_maps r ow (t - n * page_size) pg"
  proof (cases "n = 32")
    case True
    have "maps k2 p (t - 31 * page_size - page_size) = book_page r" using dm unfolding double_mapped_def by blast
    moreover have "t - 31 * page_size - page_size = t - n * page_size" using True by simp
    ultimately have "book_page r = Some pg" using M by (simp add: t_def)
    then show ?thesis using True v(2) by (simp add: ring_maps_def)
  next
    case False
    define j where "j = 31 - n"
    have j: "j < 2 * RINGBUF_SIZE" "t - n * page_size = t - 31 * page_size + j * page_size"
      using False n big by (simp_all add: j_def RINGBUF_SIZE_def page_size_def t_def)
    have "maps k2 p (t - 31 * page_size + j * page_size) = Some (buf_pages r ! (RINGBUF_SIZE - 1 - j mod RINGBUF_SIZE))"
      using dm j(1) unfolding double_mapped_def by blast
    then have "pg = buf_pages r ! (RINGBUF_SIZE - 1 - j mod RINGBUF_SIZE)" using M j(2) by (simp add: t_def)
    moreover have "RINGBUF_SIZE - 1 - j mod RINGBUF_SIZE < length (buf_pages r)" using F(4) by (simp add: r_def RINGBUF_SIZE_def)
    ultimately have "pg \<in> set (buf_pages r)" by simp
    then show ?thesis using j v(1) unfolding ring_maps_def by (metis mult.commute)
  qed
  then have "ring_maps (ringbufs k2 ! i) ow (t - n * page_size) pg" unfolding r2 ring_maps_def opened_ring_frame by simp
  then show ?thesis using ring_accessI [OF F(1) mem] by (simp add: ow_def t_def)
qed

lemma opened_isolated:
  assumes inv: "kring_inv k" and S: "slot_ready nm p k i w k1" and O: "opened p i w k1 k2" and good: "kgood k k2"
    and big: "34 * page_size \<le> topFree k p" and m: "mapped_ok F k" and c: "counts_ok k"
  shows "mapped_ok F k2 \<and> counts_ok k2"
proof
  note Sl = slot_facts [OF inv S]
  have rings: "ringbufs k2 = (ringbufs k)[i := ringbufs k2 ! i]"
    using opened_frame(1) [OF O] Sl(2,6) by (metis list_update_overwrite nth_list_update_eq)
  have eq: "ringbufs k2 ! j = ringbufs k ! j" if "j \<noteq> i" for j using rings that by (metis nth_list_update_neq)
  show "mapped_ok F k2"
    unfolding mapped_ok_def
  proof (intro allI impI)
    fix q a pg assume qF: "q \<notin> F" and M: "maps k2 q a = Some pg"
    show "ring_access k2 q a pg"
    proof (cases "q = p \<and> (\<exists>n < 33. a = topFree k p - n * page_size)")
      case True
      then show ?thesis using opened_new_maps [OF inv S O big] M by blast
    next
      case False
      then have "maps k q a = Some pg" using O M big Sl(7,8) unfolding opened_def by (metis (no_types, lifting))
      then have "ring_access k q a pg" using m qF by (simp add: mapped_ok_def)
      then obtain i' o' where A: "i' < MAX_RINGBUFS" "o' \<in> set (owners (ringbufs k ! i'))" "proc o' = Some q" "ring_maps (ringbufs k ! i') o' a pg"
        unfolding ring_access_def by blast
      have "o' \<in> set (owners (ringbufs k2 ! i')) \<and> ring_maps (ringbufs k2 ! i') = ring_maps (ringbufs k ! i')"
        using opened_owner_kept [OF inv S O _ A(3)] eq [of i'] A(2) by (cases "i' = i") simp_all
      then show ?thesis using ring_accessI [OF A(1) _ A(3)] A(4) by simp
    qed
  qed
  have two: "length (owners (ringbufs k ! i)) = 2" "length (owners (ringbufs k2 ! i)) = 2"
    using kring_invD [OF inv Sl(1)] kring_invD [OF kgood_inv [OF good] Sl(1)] by (simp_all add: ring_ok_def)
  have sub: "owned k2 q \<subseteq> (if q = p then insert i (owned k q) else owned k q)" for q
  proof
    fix j assume j: "j \<in> owned k2 q"
    show "j \<in> (if q = p then insert i (owned k q) else owned k q)"
    proof (cases "j = i \<and> q \<noteq> p")
      case True
      then have "Some q \<in> proc ` set (owners (ringbufs k2 ! i))" using j owner_index_mem [OF two(2)] by (simp add: owned_def)
      moreover have "ringbufs k2 ! i = opened_ring p (topFree k1 p) w (ringbufs k1 ! i)" using opened_frame(1) [OF O] Sl(2) by simp
      ultimately have "Some q \<in> proc ` set (owners (ringbufs k1 ! i))"
        using True set_update_subset_insert by (fastforce simp: opened_ring_frame)
      then have "k1 = k" using S by (auto simp: slot_ready_def no_owner_def split: if_splits)
      with \<open>Some q \<in> proc ` set (owners (ringbufs k1 ! i))\<close> show ?thesis
        using owner_index_mem [OF two(1)] True Sl(1) by (simp add: owned_def)
    next
      case False
      then show ?thesis using j eq [of j] by (auto simp: owned_def)
    qed
  qed
  have "card (owned k2 q) \<le> ownedCount k2 q" for q
  proof -
    have "card (owned k2 q) \<le> card (if q = p then insert i (owned k q) else owned k q)"
      by (rule card_mono) (simp, rule sub)
    also have "\<dots> \<le> (if q = p then Suc (card (owned k q)) else card (owned k q))" by (simp add: card_insert_if)
    also have "\<dots> \<le> ownedCount k2 q" using O c Sl(9) by (simp add: opened_def counts_ok_def)
    finally show ?thesis .
  qed
  then show "counts_ok k2" by (simp add: counts_ok_def)
qed


text \<open>The pages of a new owner come to addresses that were free, away from those of the other ring buffers.\<close>

lemma page_ranges:
  assumes "34 * page_size \<le> t"
  shows "(\<exists>n < 33. a = t - n * page_size) \<longleftrightarrow> (\<exists>j < 33. a = t - 32 * page_size + j * page_size)"
    "(\<exists>j < 33. a = t - 32 * page_size + j * page_size) \<longleftrightarrow>
     (\<exists>j < 1. a = t - 31 * page_size - page_size + j * page_size) \<or> (\<exists>j < 32. a = t - 31 * page_size + j * page_size)"
proof -
  have down: "t - n * page_size = t - 32 * page_size + (32 - n) * page_size" if "n < 33" for n
    using that assms by (simp add: page_size_def)
  show "(\<exists>n < 33. a = t - n * page_size) \<longleftrightarrow> (\<exists>j < 33. a = t - 32 * page_size + j * page_size)" (is "?A \<longleftrightarrow> ?B")
  proof
    assume ?A
    then obtain n where n: "n < 33" "a = t - n * page_size" by blast
    then show ?B using down [OF n(1)] by (intro exI [of _ "32 - n"]) simp
  next
    assume ?B
    then obtain j where j: "j < 33" "a = t - 32 * page_size + j * page_size" by blast
    then show ?A using down [of "32 - j"] by (intro exI [of _ "32 - j"]) simp
  qed
  have up: "t - 32 * page_size + Suc j * page_size = t - 31 * page_size + j * page_size" for j
    using assms by (simp add: page_size_def)
  have "(\<exists>j < 33. P j) \<longleftrightarrow> P 0 \<or> (\<exists>j < 32. P (Suc j))" for P :: "nat \<Rightarrow> bool"
    using Ex_less_Suc2 [of 32 P] by simp
  note this [of "\<lambda>j. a = t - 32 * page_size + j * page_size", unfolded up]
  then show "(\<exists>j < 33. a = t - 32 * page_size + j * page_size) \<longleftrightarrow>
     (\<exists>j < 1. a = t - 31 * page_size - page_size + j * page_size) \<or> (\<exists>j < 32. a = t - 31 * page_size + j * page_size)"
    by simp
qed

lemma new_owner_addrs:
  assumes "34 * page_size \<le> t" "vbuf ow = t - 33 * page_size + 2 * page_size" "vbook ow = t - 33 * page_size + page_size"
  shows "a \<in> set (owner_addrs ow) \<longleftrightarrow> (\<exists>n < 33. a = t - n * page_size)" "distinct (owner_addrs ow)"
proof -
  have v: "vbuf ow = t - 31 * page_size" "vbook ow = t - 31 * page_size - page_size" using assms by (simp_all add: page_size_def)
  show "a \<in> set (owner_addrs ow) \<longleftrightarrow> (\<exists>n < 33. a = t - n * page_size)"
    unfolding page_ranges [OF assms(1)] by (simp add: owner_addrs_def mem_page_range RINGBUF_SIZE_def v)
  have "t - 31 * page_size - page_size < t - 31 * page_size" using assms(1) by (simp add: page_size_def)
  then have "t - 31 * page_size - page_size \<noteq> t - 31 * page_size + j * page_size" for j by linarith
  then show "distinct (owner_addrs ow)" by (simp add: owner_addrs_def mem_page_range v)
qed

lemma opened_mapped:
  assumes inv: "kring_inv k" and S: "slot_ready nm p k i w k1" and O: "opened p i w k1 k2" and good: "kgood k k2"
    and big: "34 * page_size \<le> topFree k p" and m: "kring_mapped k"
  shows "kring_mapped k2"
proof -
  note Sl = slot_facts [OF inv S]
  define t where "t = topFree k p"
  define ow where "ow = \<lparr>proc = Some p, vbuf = t - 33 * page_size + 2 * page_size, vbook = t - 33 * page_size + page_size\<rparr>"
  have apart: "owners_apart k" and mapped: "owners_mapped k" and al: "tops_aligned (topFree k)" using m by (simp_all add: kring_mapped_def)
  have r2: "ringbufs k2 ! i = opened_ring p t w (ringbufs k1 ! i)" using opened_frame(1) [OF O] Sl(2,7) by (simp add: t_def)
  have rings: "ringbufs k2 = (ringbufs k)[i := ringbufs k2 ! i]"
    using opened_frame(1) [OF O] Sl(2,6) by (metis list_update_overwrite nth_list_update_eq)
  have eq: "ringbufs k2 ! j = ringbufs k ! j" if "j \<noteq> i" for j using rings that by (metis nth_list_update_neq)
  have own: "o' = ow \<and> j = i \<or> o' \<in> set (owners (ringbufs k ! j))" if "o' \<in> set (owners (ringbufs k2 ! j))" "proc o' \<noteq> None" for j o'
  proof (cases "j = i")
    case True
    have "o' \<in> insert ow (set (owners (ringbufs k1 ! i)))"
      using that True set_update_subset_insert [of "owners (ringbufs k1 ! i)" w ow] by (auto simp: r2 opened_ring_frame ow_def)
    then show ?thesis using S that(2) True by (auto simp: slot_ready_def no_owner_def split: if_splits)
  qed (use that eq in simp)
  note A = new_owner_addrs [OF big, of ow, folded t_def]
  have more: "mapped_more p k k2" using mapped_more_opened [OF O] Sl(7,8) by (simp add: mapped_more_def)
  have free: "maps k p a = None" if "a \<in> set (owner_addrs ow)" for a
    using that O A(1) Sl(7,8) unfolding opened_def by (auto simp: ow_def t_def)
  have dm: "double_mapped k2 p (t - 31 * page_size) (ringbufs k1 ! i)" using O Sl(7) by (simp add: opened_def t_def)
  have v: "vbuf ow = t - 31 * page_size" "vbook ow = t - 31 * page_size - page_size" using big by (simp_all add: ow_def t_def page_size_def)
  have "maps k2 p a \<noteq> None" if "a \<in> set (owner_addrs ow)" for a
  proof -
    from that consider "a = t - 31 * page_size - page_size" | j where "j < 2 * RINGBUF_SIZE" "a = t - 31 * page_size + j * page_size"
      unfolding owner_addrs_def v by (auto simp: mem_page_range mult.commute)
    then show ?thesis using dm Sl(5) unfolding double_mapped_def by cases auto
  qed
  moreover have "vbuf ow mod page_size = 0" "vbook ow mod page_size = 0"
    using al aligned_minus [of t 31] aligned_minus [of t 32] unfolding v tops_aligned_def t_def by simp_all
  ultimately have new: "owner_mapped p ow k2" using A(2) by (simp add: owner_mapped_def ow_def)
  have "owner_mapped q o' k2" if j: "j < MAX_RINGBUFS" and o': "o' \<in> set (owners (ringbufs k2 ! j))" "proc o' = Some q" for j o' q
  proof (cases "o' = ow")
    case True
    then show ?thesis using new o'(2) by (simp add: ow_def)
  next
    case False
    then have "o' \<in> set (owners (ringbufs k ! j))" using own [OF o'(1)] o'(2) by auto
    then have "owner_mapped q o' k" using mapped j o'(2) unfolding owners_mapped_def by blast
    then show ?thesis using more by (rule owner_mapped_more)
  qed
  then have "owners_mapped k2" unfolding owners_mapped_def by blast
  moreover have "owners_apart k2"
    unfolding owners_apart_def
  proof (intro allI impI ballI)
    have old: "set (owner_addrs ow) \<inter> set (owner_addrs o') = {}"
      if "j < MAX_RINGBUFS" "o' \<in> set (owners (ringbufs k ! j))" "proc o' = Some p" for j o'
      using that mapped free unfolding owners_mapped_def owner_mapped_def by blast
    fix x y ox oy
    assume H: "x < MAX_RINGBUFS" "y < MAX_RINGBUFS" "x \<noteq> y" "ox \<in> set (owners (ringbufs k2 ! x))" "oy \<in> set (owners (ringbufs k2 ! y))"
      "proc ox \<noteq> None" "proc oy = proc ox"
    have "proc ow = Some p" by (simp add: ow_def)
    then show "set (owner_addrs ox) \<inter> set (owner_addrs oy) = {}"
      using own [OF H(4,6)] own [OF H(5)] H(1-3,6,7) old [of x ox] old [of y oy] apart
      unfolding owners_apart_def by (metis Int_commute)
  qed
  moreover have "tops_aligned (topFree k2)" using al more unfolding tops_aligned_def mapped_more_def by metis
  ultimately show ?thesis by (simp add: kring_mapped_def)
qed

lemma opened_ok:
  assumes "kring_ok k" "slot_ready nm p k i w k1" "opened p i w k1 k2" "kgood k k2" "34 * page_size \<le> topFree k p"
  shows "kring_ok k2"
  using assms opened_mapped [of k nm p i w k1 k2] opened_isolated [of k nm p i w k1 k2 UNIV] kgood_inv [of k k2]
  by (simp add: kring_ok_def mapped_ok_def)

lemma kring_ok_tops: "kring_ok k \<Longrightarrow> tops_aligned (topFree k)"
  by (simp add: kring_ok_def kring_mapped_def)

text \<open>What a call does to a valid state.\<close>

lemma ringbuf_cases_ok:
  assumes ok: "kring_ok k" and fits: "op_fits op p k"
  shows "(\<exists>e k'. ringbuf can_map nm op p k = KErr e k' \<and> slot_error k k' \<and> e \<notin> {MapPagesFailed, CopyOutFailed}) \<or>
     (\<exists>e k'. ringbuf can_map nm op p k = KErr e k' \<and> half_failed p k k' \<and> e \<in> {MapPagesFailed, CopyOutFailed}) \<or>
     (\<exists>i k2 t. i < MAX_RINGBUFS \<and> disowned p i k k2 \<and> tops_aligned t \<and> kring_ok k2 \<and>
        ringbuf can_map nm op p k = KDone (k2\<lparr>topFree := t\<rparr>)) \<or>
     (\<exists>i w k1 k2 t. slot_ready nm p k i w k1 \<and> opened p i w k1 k2 \<and> kgood k k2 \<and> 34 * page_size \<le> topFree k p \<and> tops_aligned t \<and> kring_ok k2 \<and>
        ringbuf can_map nm op p k = KDone (k2\<lparr>topFree := t\<rparr>)) \<or>
     ringbuf can_map nm op p k = KPanic \<and>
       (\<exists>i copy_ok. op = Open copy_ok \<and> findRingbufByName nm k = Some i \<and> refcount (ringbufs k ! i) = 1 \<and>
          \<not> (map_room can_map p k \<and> copy_ok))"
proof -
  have inv: "kring_inv k" using ok by (simp add: kring_ok_def)
  have can: "\<forall>i < MAX_RINGBUFS. can_disown i p k" using kring_ok_can_disown [OF ok] by blast
  show ?thesis
    using ringbuf_cases [OF inv can fits, of can_map nm] disowned_ok [OF ok] opened_ok [OF ok] kring_ok_tops [OF ok] fits
      op_fits_simps(1) [of True p k]
    by (elim disjE exE conjE) (metis (no_types))+
qed

definition isolated :: "pid set \<Rightarrow> kring \<Rightarrow> bool" where
  "isolated F k = (kring_ok k \<and> mapped_ok F k)"

lemma mapped_ok_topFree [simp]: "mapped_ok F (k\<lparr>topFree := t\<rparr>) = mapped_ok F k"
  by (simp add: mapped_ok_def ring_access_def)

lemma kring_step_isolated:
  assumes "kring_step s s'" "isolated (fst s) (snd s)"
  shows "isolated (fst s') (snd s') \<and> kpages (snd s') = kpages (snd s)"
  using assms
proof (induction rule: kring_step.induct)
  case (call can_map nm op p k k' F)
  have I: "kring_ok k" "mapped_ok F k" "kring_inv k" "counts_ok k" using call(3) by (simp_all add: isolated_def kring_ok_def)
  from ringbuf_cases_ok [OF I(1) call(2), of can_map nm] call(1)
  consider (close) i k2 t where "i < MAX_RINGBUFS" "disowned p i k k2" "tops_aligned t" "kring_ok k2" "k' = k2\<lparr>topFree := t\<rparr>"
    | (opens) i w k1 k2 t where "slot_ready nm p k i w k1" "opened p i w k1 k2" "kgood k k2" "34 * page_size \<le> topFree k p"
        "tops_aligned t" "kring_ok k2" "k' = k2\<lparr>topFree := t\<rparr>"
    by (elim disjE exE conjE) auto
  then show ?case
  proof cases
    case close
    have "mapped_ok F k2" "kpages k2 = kpages k"
      using disowned_isolated [OF I(3) close(1,2) I(2,4)] disowned_good [OF close(2)] by (simp_all add: kgood_def)
    then show ?thesis using close(5) kring_ok_topFree [OF close(4,3)] by (simp add: isolated_def)
  next
    case opens
    have "mapped_ok F k2" "kpages k2 = kpages k"
      using opened_isolated [OF I(3) opens(1,2,3,4) I(2,4)] opens(3) by (simp_all add: kgood_def)
    then show ?thesis using opens(7) kring_ok_topFree [OF opens(6,5)] by (simp add: isolated_def)
  qed
next
  case (fails can_map nm op p k e k' F)
  then have I: "kring_ok k" "mapped_ok F k" by (simp_all add: isolated_def)
  have "slot_error k k'" using ringbuf_cases_ok [OF I(1) fails(3), of can_map nm] fails(1,2) by auto
  then show ?case using slot_error_isolated slot_error_ok I by (auto simp: isolated_def slot_error_def kgood_def)
next
  case (half_fails can_map nm op p k e k' F)
  then have I: "kring_ok k" "mapped_ok F k" by (simp_all add: isolated_def)
  have "half_failed p k k'" using ringbuf_cases_ok [OF I(1) half_fails(3), of can_map nm] half_fails(1,2) by auto
  then show ?case using half_failed_isolated half_failed_ok I by (auto simp: isolated_def half_failed_def kgood_def)
next
  case (exits t p k k' F)
  then have I: "kring_ok k" "mapped_ok F k" by (simp_all add: isolated_def)
  show ?case using free_ringbufs_spec [OF I exits(2), of p] exits(1) by (auto simp: isolated_def kgood_def)
qed

lemma kring_ok_init: "tops_aligned tops \<Longrightarrow> kring_ok (kring_init pgs tops)"
  by (simp add: kring_ok_def kring_inv_init kring_mapped_def owners_mapped_def owners_apart_def counts_ok_def)
    (simp add: kring_init_def owned_def owner_index_def no_owner_def no_ringbuf_def)

lemma kring_reach_isolated:
  assumes "kring_step\<^sup>*\<^sup>* ({}, kring_init pgs tops) (F, k)" "tops_aligned tops"
  shows "isolated F k \<and> kpages k = mset pgs"
proof -
  have "isolated (fst s) (snd s) \<and> kpages (snd s) = mset pgs" if "kring_step\<^sup>*\<^sup>* ({}, kring_init pgs tops) s" for s
    using that
  proof (induction rule: rtranclp_induct)
    case base
    have "mapped_ok {} (kring_init pgs tops)" by (simp add: mapped_ok_def) (simp add: kring_init_def)
    then show ?case using kring_ok_init [OF assms(2)] by (simp add: isolated_def kpages_def) (simp add: kring_init_def)
  next
    case (step s s')
    then show ?case using kring_step_isolated by auto
  qed
  then show ?thesis using assms(1) by fastforce
qed

lemma ring_access_page:
  assumes "ring_access k p a pg" "kring_inv k"
  shows "\<exists>i < MAX_RINGBUFS. owner_index (ringbufs k ! i) p \<noteq> None \<and> pg \<in> set (ring_pages (ringbufs k ! i))"
proof -
  obtain i ow where A: "i < MAX_RINGBUFS" "ow \<in> set (owners (ringbufs k ! i))" "proc ow = Some p" "ring_maps (ringbufs k ! i) ow a pg"
    using assms(1) unfolding ring_access_def by blast
  have "length (owners (ringbufs k ! i)) = 2" using kring_invD [OF assms(2) A(1)] by (simp add: ring_ok_def)
  then have "owner_index (ringbufs k ! i) p \<noteq> None" using A(2,3) owner_index_mem by force
  moreover have "pg \<in> set (ring_pages (ringbufs k ! i))" using A(4) by (auto simp: ring_maps_def ring_pages_def)
  ultimately show ?thesis using A(1) by blast
qed

lemma kpages_disjoint:
  assumes "kpages k = mset pgs" "distinct pgs" "i < length (ringbufs k)" "pg \<in> set (ring_pages (ringbufs k ! i))"
  shows "pg \<notin> set (pool k) \<and> (\<forall>j < length (ringbufs k). pg \<in> set (ring_pages (ringbufs k ! j)) \<longrightarrow> j = i)"
proof -
  define f where "f j = count (mset (ring_pages (ringbufs k ! j))) pg" for j
  have "(\<Sum>r \<in># mset rs. mset (ring_pages r)) = (\<Sum>j<length rs. mset (ring_pages (rs ! j)))" for rs
    by (induction rs rule: rev_induct) (simp_all add: nth_append add.commute)
  then have "count (kpages k) pg = count (mset (pool k)) pg + (\<Sum>j<length (ringbufs k). f j)"
    by (simp add: kpages_def count_sum f_def)
  moreover have "count (kpages k) pg \<le> 1" using assms(1,2) by (simp add: distinct_count_atmost_1)
  moreover have fi: "f i \<ge> 1" using assms(4) by (simp add: f_def Suc_le_eq)
  moreover have s: "(\<Sum>j<length (ringbufs k). f j) = f i + (\<Sum>j\<in>{..<length (ringbufs k)} - {i}. f j)"
    using assms(3) by (simp add: sum.remove)
  ultimately have z: "count (mset (pool k)) pg = 0" "(\<Sum>j\<in>{..<length (ringbufs k)} - {i}. f j) = 0" by linarith+
  have "f j = 0" if "j < length (ringbufs k)" "j \<noteq> i" for j using z(2) that by simp
  then show ?thesis using z(1) by (auto simp: f_def)
qed

lemma open_slot_available:
  assumes inv: "kring_inv k" and nm: "nm \<noteq> []" "length nm \<le> MAX_NAME_LEN"
    and avail: "case findRingbufByName nm k of
        None \<Rightarrow> findFreeRingbuf k \<noteq> None \<and> RINGBUF_SIZE + 1 \<le> length (pool k)
      | Some i \<Rightarrow> refcount (ringbufs k ! i) = 1 \<and> owner_index (ringbufs k ! i) p = None"
  shows "\<exists>i w k1. open_slot nm p k = (Some (Inr (i, w)), k1) \<and> slot_ready nm p k i w k1"
proof (cases "findRingbufByName nm k")
  case None
  then obtain i where i: "findFreeRingbuf k = Some i" "RINGBUF_SIZE + 1 \<le> length (pool k)" using avail by auto
  then have nl: "\<not> length (pool k) < RINGBUF_SIZE + 1" by simp
  obtain k1 where k1: "activate i nm k = KDone k1" "slot_ready nm p k i 0 k1"
    using activate_free [OF inv i(1) nm None, of p, unfolded if_not_P [OF nl]] by blast
  have "owners (ringbufs k1 ! i) = [no_owner, no_owner]"
    using k1(2) findFreeRingbuf_Some [OF i(1)] by (simp add: slot_ready_def)
  then have "open_slot nm p k = (Some (Inr (i, 0)), k1)"
    using None i(1) k1(1) by (simp add: open_slot_def no_owner_def)
  then show ?thesis using k1(2) by blast
next
  case (Some i)
  then have one: "refcount (ringbufs k ! i) = 1" "owner_index (ringbufs k ! i) p = None" using avail by auto
  have ok: "ring_ok (ringbufs k ! i)" using kring_invD [OF inv] findRingbufByName_Some [OF Some] by blast
  obtain a b where ab: "owners (ringbufs k ! i) = [a, b]"
      "refcount (ringbufs k ! i) = (if proc a = None then 0 else 1) + (if proc b = None then 0 else 1)"
    by (rule ring_okE [OF ok])
  have "proc a \<noteq> Some p" "proc b \<noteq> Some p"
    using ab(1) one(2) by (simp_all add: owner_index_def split: if_splits)
  moreover have "proc a = None \<longleftrightarrow> proc b \<noteq> None"
    using ab(2) one(1) by (cases "proc a = None"; cases "proc b = None") simp_all
  ultimately have no: "fst (open_slot nm p k) \<noteq> Some (Inl e)" for e
    using Some ab(1) by (cases "proc a"; cases "proc b") (simp_all add: open_slot_def Let_def)
  from open_slot_join [OF inv Some, of p] show ?thesis
  proof
    assume "\<exists>e. open_slot nm p k = (Some (Inl e), k)"
    then obtain e where "open_slot nm p k = (Some (Inl e), k)" ..
    with no [of e] show ?thesis by simp
  qed blast
qed

text \<open>A ring buffer that can be opened, and the result of opening it.\<close>

definition can_open :: "string \<Rightarrow> pid \<Rightarrow> kring \<Rightarrow> bool" where
  "can_open nm p k = (case findRingbufByName nm k of
      None \<Rightarrow> findFreeRingbuf k \<noteq> None \<and> RINGBUF_SIZE + 1 \<le> length (pool k)
    | Some i \<Rightarrow> refcount (ringbufs k ! i) = 1 \<and> owner_index (ringbufs k ! i) p = None)"

definition ring_opened :: "string \<Rightarrow> pid \<Rightarrow> nat \<Rightarrow> kring \<Rightarrow> bool" where
  "ring_opened nm p v k = (\<exists>i w. findRingbufByName nm k = Some i \<and> owner_index (ringbufs k ! i) p = Some w \<and>
     vbuf (owners (ringbufs k ! i) ! w) = v \<and> vbook (owners (ringbufs k ! i) ! w) = v - page_size \<and>
     double_mapped k p v (ringbufs k ! i))"

lemma findRingbufByName_unique:
  assumes inv: "kring_inv k" and i: "i < MAX_RINGBUFS" "refcount (ringbufs k ! i) \<noteq> 0" "name_buf (ringbufs k ! i) = nm"
  shows "findRingbufByName nm k = Some i"
proof (cases "findRingbufByName nm k")
  case None
  then show ?thesis using i unfolding findRingbufByName_None by blast
next
  case (Some j)
  then show ?thesis using findRingbufByName_Some [OF Some] i inv unfolding kring_inv_def names_differ_def by metis
qed

lemma opened_ring_opened:
  assumes inv: "kring_inv k" and S: "slot_ready nm p k i w k1" and O: "opened p i w k1 k2" and good: "kgood k k2"
    and big: "34 * page_size \<le> topFree k p"
  shows "ring_opened nm p (topFree k p - 31 * page_size) k2"
proof -
  note F = slot_facts [OF inv S]
  define t where "t = topFree k p"
  have r2: "ringbufs k2 ! i = opened_ring p t w (ringbufs k1 ! i)" using opened_frame(1) [OF O] F(2,7) by (simp add: t_def)
  have nmr: "name_buf (ringbufs k2 ! i) = nm" using S by (simp add: r2 opened_ring_frame slot_ready_def)
  have rc: "refcount (ringbufs k2 ! i) \<noteq> 0" by (simp add: r2 opened_ring_def)
  have f: "findRingbufByName nm k2 = Some i" by (rule findRingbufByName_unique [OF kgood_inv [OF good] F(1) rc nmr])
  have ow: "owners (ringbufs k2 ! i) ! w = \<lparr>proc = Some p, vbuf = t - 33 * page_size + 2 * page_size, vbook = t - 33 * page_size + page_size\<rparr>"
    unfolding r2 opened_ring_frame using F(3) by simp
  have "w = 0 \<or> w = 1 \<and> proc (owners (ringbufs k2 ! i) ! 0) \<noteq> Some p"
    using S unfolding r2 opened_ring_frame by (auto simp: slot_ready_def split: if_splits)
  then have idx: "owner_index (ringbufs k2 ! i) p = Some w" using ow by (auto simp: owner_index_def)
  have dm: "double_mapped k2 p (t - 31 * page_size) (ringbufs k2 ! i)"
    using O big F(7) unfolding double_mapped_def r2 opened_ring_frame by (simp add: opened_def t_def double_mapped_def)
  have v: "vbuf (owners (ringbufs k2 ! i) ! w) = t - 31 * page_size" "vbook (owners (ringbufs k2 ! i) ! w) = t - 31 * page_size - page_size"
    using big ow by (simp_all add: t_def page_size_def)
  show ?thesis unfolding ring_opened_def t_def [symmetric] using f idx v dm by blast
qed

lemma ring_opened_topFree [simp]: "ring_opened nm p v (k\<lparr>topFree := t\<rparr>) = ring_opened nm p v k"
  by (simp add: ring_opened_def findRingbufByName_def double_mapped_def)

lemma ringbuf_open_succeeds:
  assumes inv: "kring_inv k" and nm: "nm \<noteq> []" "length nm \<le> MAX_NAME_LEN" and avail: "can_open nm p k"
    and room: "map_room can_map p k" and big: "34 * page_size \<le> topFree k p"
  shows "\<exists>i w k1 k2. ringbuf can_map nm (Open True) p k = KDone (k2\<lparr>topFree := (topFree k)(p := topFree k p - 34 * page_size)\<rparr>) \<and>
     slot_ready nm p k i w k1 \<and> opened p i w k1 k2 \<and> kgood k k2"
proof -
  obtain i w k1 where o: "open_slot nm p k = (Some (Inr (i, w)), k1)" "slot_ready nm p k i w k1"
    using open_slot_available [OF inv nm avail [unfolded can_open_def]] by blast
  note F = slot_facts [OF inv o(2)]
  have c: "map_room can_map p k \<and> True" using room by simp
  obtain k2 where k2: "opened p i w k1 k2"
      "ringbuf_open can_map True nm p k = KDone (k2\<lparr>topFree := (topFree k2)(p := topFree k2 p - page_size)\<rparr>)"
    using open_ready_cases [OF inv nm o big, of can_map True, unfolded if_P [OF c]] by blast
  have "(topFree k2)(p := topFree k2 p - page_size) = (topFree k)(p := topFree k p - 34 * page_size)"
    using k2(1) F(7) by (simp add: opened_def)
  then have "ringbuf can_map nm (Open True) p k = KDone (k2\<lparr>topFree := (topFree k)(p := topFree k p - 34 * page_size)\<rparr>)"
    using k2(2) nm by (simp add: ringbuf_def)
  then show ?thesis using o(2) k2(1) opened_good [OF inv o(2) nm k2(1)] by blast
qed


subsection \<open>Properties\<close>

text \<open>
  C18.  A call of \<open>ringbuf\<close> in a valid state leaves a valid state, whether it succeeds or fails: each ring buffer with owners has its 17 pages and
  its own name, its owners are different processes, each owner has the book page and the two copies of the buffer pages mapped at
  aligned addresses of its own, and no process owns more ring buffers than it counts.  No page is lost or duplicated, and the call
  panics (an unmapping of what is not mapped, or a counter below zero, would be a panic too) only when a second process opens an existing ring
  buffer and mapping it or returning its address fails.  For an open the process has room for 34 pages below its lowest used page.
\<close>

theorem ringbuf_call_sound:
  assumes "kring_ok k" "op_fits op p k"
  shows "case ringbuf can_map nm op p k of
      KDone k' \<Rightarrow> kring_ok k' \<and> kpages k' = kpages k
    | KErr e k' \<Rightarrow> kring_ok k' \<and> kpages k' = kpages k
    | KPanic \<Rightarrow> \<exists>i copy_ok. op = Open copy_ok \<and> findRingbufByName nm k = Some i \<and> refcount (ringbufs k ! i) = 1 \<and>
        \<not> (map_room can_map p k \<and> copy_ok)"
proof -
  have "kring_ok k' \<and> kpages k' = kpages k" if "kgood k k2" "kring_ok k2" "tops_aligned t" "k' = k2\<lparr>topFree := t\<rparr>" for k2 k' t
    using that kring_ok_topFree by (simp add: kgood_def)
  then show ?thesis
    using ringbuf_cases_ok [OF assms, of can_map nm] slot_error_ok [OF _ assms(1)] half_failed_ok [OF _ assms(1)] disowned_good
    by (elim disjE exE conjE) (auto simp: slot_error_def half_failed_def kgood_def)
qed

text \<open>
  C27.  When a second process opens a ring buffer that another process owns and not all of its pages can be mapped, or the address cannot
  be copied out, the kernel panics: the error handler deactivates a ring buffer that still has an owner.
\<close>

theorem second_owner_failure_panics:
  assumes "kring_inv k" "findRingbufByName nm k = Some i" "refcount (ringbufs k ! i) = 1" "owner_index (ringbufs k ! i) p = None"
    "\<not> (map_room can_map p k \<and> copy_ok)"
  shows "ringbuf can_map nm (Open copy_ok) p k = KPanic"
proof -
  note F = findRingbufByName_Some [OF assms(2)]
  have ok: "ring_ok (ringbufs k ! i)" using kring_invD [OF assms(1)] F by blast
  have nm: "nm \<noteq> []" "length nm \<le> MAX_NAME_LEN" using ok F by (auto simp: ring_ok_def)
  have "can_open nm p k" using assms by (simp add: can_open_def)
  then obtain j w k1 where w: "open_slot nm p k = (Some (Inr (j, w)), k1)" "slot_ready nm p k j w k1"
    using open_slot_available [OF assms(1) nm, of p] unfolding can_open_def by blast
  have "refcount (ringbufs k ! j) \<noteq> 0" using w(2) assms(2) by (auto simp: slot_ready_def split: if_splits)
  then have "ringbuf_open can_map copy_ok nm p k = KPanic"
    using second_open_panics [OF assms(1) w assms(5)] by simp
  then show ?thesis using nm by (simp add: ringbuf_def)
qed

text \<open>
  C19.  Opening a ring buffer that is free to open (a new name while there is a free slot and enough pages, or one with a single other owner)
  succeeds when there is room below the process's lowest used page.  The process then owns it at the returned
  address, its 16 pages are mapped there twice in a row (in the order in which every owner has them), and the book page right below.
\<close>

theorem ringbuf_open_maps:
  assumes "kring_inv k" "nm \<noteq> []" "length nm \<le> MAX_NAME_LEN" "can_open nm p k" "map_room can_map p k" "34 * page_size \<le> topFree k p"
  shows "\<exists>k'. ringbuf can_map nm (Open True) p k = KDone k' \<and> ring_opened nm p (topFree k p - 31 * page_size) k' \<and>
     topFree k' = (topFree k)(p := topFree k p - 34 * page_size)"
proof -
  obtain i w k1 k2 where k2: "ringbuf can_map nm (Open True) p k = KDone (k2\<lparr>topFree := (topFree k)(p := topFree k p - 34 * page_size)\<rparr>)"
      "slot_ready nm p k i w k1" "opened p i w k1 k2" "kgood k k2"
    using ringbuf_open_succeeds [OF assms] by blast
  have "ring_opened nm p (topFree k p - 31 * page_size) k2"
    by (rule opened_ring_opened [OF assms(1) k2(2,3,4) assms(6)])
  then show ?thesis using k2(1) by simp
qed

text \<open>
  C3.  In every state that the calls, successful or not, and the ends of processes lead to from boot, a page that a process can reach through a ring
  buffer mapping is not a free page and belongs to exactly one ring buffer, one that the process owns, unless an open of that process itself
  has failed half-way (with \<^verbatim>\<open>MapPagesFailed\<close> or \<^verbatim>\<open>CopyOutFailed\<close>; the set \<open>F\<close>), which leaves mappings of freed
  pages behind.  The failed opens of other processes do not matter.
\<close>

theorem ringbuf_isolation:
  assumes "kring_step\<^sup>*\<^sup>* ({}, kring_init pgs tops) (F, k)" "tops_aligned tops" "distinct pgs" "p \<notin> F" "maps k p a = Some pg"
  shows "pg \<notin> set (pool k) \<and>
     (\<exists>!i. i < MAX_RINGBUFS \<and> pg \<in> set (ring_pages (ringbufs k ! i))) \<and>
     (\<exists>i < MAX_RINGBUFS. owner_index (ringbufs k ! i) p \<noteq> None \<and> pg \<in> set (ring_pages (ringbufs k ! i)))"
proof -
  have I: "kring_inv k" "mapped_ok F k" "kpages k = mset pgs"
    using kring_reach_isolated [OF assms(1,2)] by (simp_all add: isolated_def kring_ok_def)
  have "ring_access k p a pg" using I(2) assms(4,5) by (simp add: mapped_ok_def)
  then obtain i where i: "i < MAX_RINGBUFS" "owner_index (ringbufs k ! i) p \<noteq> None" "pg \<in> set (ring_pages (ringbufs k ! i))"
    using ring_access_page [OF _ I(1)] by blast
  have len: "length (ringbufs k) = MAX_RINGBUFS" by (rule kring_length [OF I(1)])
  note D = kpages_disjoint [OF I(3) assms(3) i(1) [folded len] i(3), unfolded len]
  then show ?thesis using i by blast
qed

text \<open>
  In every such state giving back the ring buffers at the end of any process succeeds without a panic, and afterwards the process owns no ring
  buffer, so that the next process with the same slot inherits none.
\<close>

lemma process_end_releases:
  assumes "kring_step\<^sup>*\<^sup>* ({}, kring_init pgs tops) (F, k)" "tops_aligned tops" "t mod page_size = 0"
  shows "\<exists>k'. free_ringbufs t p k = Some k' \<and> kring_inv k' \<and> kpages k' = mset pgs \<and>
     (\<forall>i < MAX_RINGBUFS. owner_index (ringbufs k' ! i) p = None)"
proof -
  have I: "kring_ok k" "mapped_ok F k" "kpages k = mset pgs"
    using kring_reach_isolated [OF assms(1,2)] by (simp_all add: isolated_def)
  obtain k' where "free_ringbufs t p k = Some k'" "kgood k k'" "owned k' p = {}"
    using free_ringbufs_spec [OF I(1,2) assms(3)] by blast
  then show ?thesis using I(3) by (auto simp: kgood_def owned_def)
qed

text \<open>
  When the address cannot be copied out to the first owner of a new ring buffer, the call fails, and every one of its 32 buffer mappings stays in the
  address space of the process although the pages have gone back to the pool: the process can use pages that the kernel
  gives to others.
\<close>

lemma failed_open_leaves_mappings:
  assumes "kring_inv k" "nm \<noteq> []" "length nm \<le> MAX_NAME_LEN" "findRingbufByName nm k = None" "can_open nm p k"
    "map_room can_map p k" "34 * page_size \<le> topFree k p" "j < 2 * RINGBUF_SIZE"
  shows "\<exists>k' pg. ringbuf can_map nm (Open False) p k = KErr CopyOutFailed k' \<and>
     maps k' p (topFree k p - 31 * page_size + j * page_size) = Some pg \<and> pg \<in> set (pool k')"
proof -
  obtain i w k1 where o: "open_slot nm p k = (Some (Inr (i, w)), k1)" "slot_ready nm p k i w k1"
    using open_slot_available [OF assms(1-3) assms(5) [unfolded can_open_def]] by blast
  note F = slot_facts [OF assms(1) o(2)]
  obtain b where b: "book_page (ringbufs k1 ! i) = Some b" using F(5) by blast
  have room: "map_room can_map p k1" using assms(6) F(7,8) by (simp add: map_room_def)
  obtain k2 where k2: "opened p i w k1 k2" "ringbuf_open can_map False nm p k = open_failed i w CopyOutFailed k2"
    using open_mapped [OF o(1) F(2-4) b room, of False] assms(7) F(7) by auto
  have fresh: "refcount (ringbufs k ! i) = 0" using o(2) assms(4) by (auto simp: slot_ready_def split: if_splits)
  obtain k3 where k3: "open_failed i w CopyOutFailed k2 = KErr CopyOutFailed k3" "maps k3 = maps k2"
      "set (pool k3) = set (pool k1) \<union> set (ring_pages (ringbufs k1 ! i))"
    using open_failed_fresh [OF assms(1) o(2) fresh opened_frame [OF k2(1)] opened_ring_frame(1,2,3), of CopyOutFailed] by blast
  define pg where "pg = buf_pages (ringbufs k1 ! i) ! (RINGBUF_SIZE - 1 - j mod RINGBUF_SIZE)"
  have "maps k2 p (topFree k p - 31 * page_size + j * page_size) = Some pg"
    using k2(1) assms(7,8) F(7) by (simp add: opened_def double_mapped_def pg_def)
  moreover have "pg \<in> set (ring_pages (ringbufs k1 ! i))" using F(4) by (simp add: pg_def ring_pages_def RINGBUF_SIZE_def)
  moreover have "ringbuf can_map nm (Open False) p k = KErr CopyOutFailed k3" using k2(2) k3(1) assms(2,3) by (simp add: ringbuf_def)
  ultimately show ?thesis using k3 by auto
qed

text \<open>The number of every error that the system call returns is negative and identifies the error.\<close>

lemma error_codes_roundtrip: "intFromErr e < 0 \<and> errFromInt (intFromErr e) = Some e"
proof -
  have "list_all (\<lambda>e. intFromErr e < 0 \<and> errFromInt (intFromErr e) = Some e) rb_errors" by code_simp
  moreover have "e \<in> set rb_errors" by (cases e) (simp_all add: rb_errors_def)
  ultimately show ?thesis by (simp add: list_all_iff)
qed

subsection \<open>Witnesses\<close>

text \<open>A machine with seventeen free pages, and one with a ring buffer that process 1 owns.\<close>

definition demo_boot :: kring where
  "demo_boot = kring_init [0..<17] (\<lambda>_. 40 * page_size)"

definition demo_owner :: owner where
  "demo_owner = \<lparr>proc = Some 1, vbuf = 8192, vbook = 4096\<rparr>"

definition demo_owned :: kring where
  "demo_owned = demo_boot\<lparr>pool := [], ringbufs :=
     \<lparr>refcount = 1, owners = [demo_owner, no_owner], name_buf = ''rb'', buf_pages = [0..<16],
       book_page = Some 16\<rparr> # replicate 9 no_ringbuf,
     maps := (\<lambda>p a. if p = 1 \<and> a \<in> set (owner_addrs demo_owner)
        then Some (if a = 4096 then 16 else 15 - (a div page_size - 2) mod 16) else None),
     ownedCount := (\<lambda>_. 0)(1 := 1)\<rparr>"

lemma demo_boot_inv: "kring_inv demo_boot"
  unfolding demo_boot_def by (rule kring_inv_init)

lemma demo_boot_ok: "kring_ok demo_boot"
  unfolding demo_boot_def by (rule kring_ok_init) (simp add: tops_aligned_def)

lemma demo_boot_open: "can_open ''rb'' 1 demo_boot" "findRingbufByName ''rb'' demo_boot = None" "map_room (\<lambda>_ _. True) 1 demo_boot"
    "34 * page_size \<le> topFree demo_boot 1" "topFree demo_boot 1 - 31 * page_size = 9 * page_size"
    "''rb'' \<noteq> []" "length ''rb'' \<le> MAX_NAME_LEN"
proof -
  show f: "findRingbufByName ''rb'' demo_boot = None" by (simp add: findRingbufByName_None demo_boot_def kring_init_def)
  have "findFreeRingbuf demo_boot = Some 0" by (simp add: findFreeRingbuf_def demo_boot_def kring_init_def MAX_RINGBUFS_def upt_conv_Cons)
  then show "can_open ''rb'' 1 demo_boot" using f by (simp add: can_open_def) (simp add: demo_boot_def kring_init_def RINGBUF_SIZE_def)
qed (simp_all add: map_room_def demo_boot_def kring_init_def page_size_def MAX_NAME_LEN_def)

lemma demo_owned_inv: "kring_inv demo_owned"
proof -
  have rings: "ringbufs demo_owned = (ringbufs demo_boot)[0 := ringbufs demo_owned ! 0]"
    by (simp add: demo_owned_def demo_boot_def kring_init_def MAX_RINGBUFS_def numeral_eq_Suc)
  have ok: "ring_ok (ringbufs demo_owned ! 0)"
    by (simp add: demo_owned_def demo_owner_def ring_ok_def owner_ok_def no_owner_def RINGBUF_SIZE_def MAX_NAME_LEN_def)
  show ?thesis
    by (rule kring_inv_update [OF demo_boot_inv ok rings]) (simp add: demo_boot_def kring_init_def)
qed

lemma demo_owned_open: "findRingbufByName ''rb'' demo_owned = Some 0" "refcount (ringbufs demo_owned ! 0) = 1"
    "owner_index (ringbufs demo_owned ! 0) 2 = None"
  by (simp_all add: findRingbufByName_def demo_owned_def demo_owner_def MAX_RINGBUFS_def upt_conv_Cons owner_index_def no_owner_def)

lemma demo_owned_ok: "kring_ok demo_owned"
proof -
  have rings: "ringbufs demo_owned = (ringbufs demo_boot)[0 := ringbufs demo_owned ! 0]"
    by (simp add: demo_owned_def demo_boot_def kring_init_def MAX_RINGBUFS_def numeral_eq_Suc)
  have own: "owners (ringbufs demo_owned ! i) = (if i = 0 then [demo_owner, no_owner] else [no_owner, no_owner])" if "i < MAX_RINGBUFS" for i
    using that by (subst rings) (simp add: nth_list_update demo_boot_def kring_init_def, simp add: demo_owned_def)
  have "distinct (owner_addrs demo_owner)"
    by (simp add: owner_addrs_def demo_owner_def mem_page_range)
  then have "owner_mapped 1 demo_owner demo_owned"
    by (simp add: owner_mapped_def demo_owned_def) (simp add: demo_owner_def page_size_def)
  then have mapped: "owners_mapped demo_owned" "owners_apart demo_owned" "tops_aligned (topFree demo_owned)"
    using own by (auto simp: owners_mapped_def owners_apart_def no_owner_def demo_owner_def)
      (simp add: tops_aligned_def demo_owned_def demo_boot_def kring_init_def)
  have "owned demo_owned q \<subseteq> (if q = 1 then {0} else {})" for q
    using own by (auto simp: owned_def owner_index_def no_owner_def demo_owner_def split: if_splits)
  then have "card (owned demo_owned q) \<le> (if q = 1 then 1 else 0)" for q
    using card_mono [of "if q = 1 then {0} else {}" "owned demo_owned q"] by (auto split: if_splits)
  moreover have "ownedCount demo_owned q = (if q = 1 then 1 else 0)" for q by (simp add: demo_owned_def)
  ultimately have "counts_ok demo_owned" unfolding counts_ok_def by metis
  with mapped show ?thesis using demo_owned_inv by (simp add: kring_ok_def kring_mapped_def)
qed

text \<open>Process 1 has opened the ring buffer.\<close>

lemma demo_run: "\<exists>k pg. kring_step\<^sup>*\<^sup>* ({}, demo_boot) ({}, k) \<and> maps k 1 (9 * page_size) = Some pg"
proof -
  obtain i w k1 k2 t where k2: "ringbuf (\<lambda>_ _. True) ''rb'' (Open True) 1 demo_boot = KDone (k2\<lparr>topFree := t\<rparr>)"
      "slot_ready ''rb'' 1 demo_boot i w k1" "opened 1 i w k1 k2" "kgood demo_boot k2"
    using ringbuf_open_succeeds [OF demo_boot_inv demo_boot_open(6,7,1,3,4)] by blast
  have "kring_step ({}, demo_boot) ({}, k2\<lparr>topFree := t\<rparr>)" by (rule kring_step.call [OF k2(1)]) (use demo_boot_open(4) in simp)
  moreover have "ring_opened ''rb'' 1 (9 * page_size) k2"
    using opened_ring_opened [OF demo_boot_inv k2(2,3,4) demo_boot_open(4)] unfolding demo_boot_open(5) .
  then have "\<exists>pg. maps k2 1 (9 * page_size + 0 * page_size) = Some pg"
    unfolding ring_opened_def double_mapped_def by (elim exE conjE) (drule spec [of _ 0], simp add: RINGBUF_SIZE_def)
  ultimately show ?thesis by (intro exI [of _ "k2\<lparr>topFree := t\<rparr>"]) auto
qed

theorem ringbuf_call_sound_witness:
  "kring_ok demo_owned \<and> (case ringbuf (\<lambda>_ _. True) ''rb'' (CloseAt (Some 8192)) 1 demo_owned of
      KDone k' \<Rightarrow> kring_ok k' \<and> kpages k' = kpages demo_owned
    | KErr e k' \<Rightarrow> kring_ok k' \<and> kpages k' = kpages demo_owned
    | KPanic \<Rightarrow> False)"
  using ringbuf_call_sound [OF demo_owned_ok op_fits_simps(2) [of "Some 8192" 1 demo_owned], where can_map = "\<lambda>_ _. True" and nm = "''rb''"]
    demo_owned_ok by (simp split: kret.splits)

theorem second_owner_failure_panics_witness: "ringbuf (\<lambda>_ _. True) ''rb'' (Open False) 2 demo_owned = KPanic"
  by (rule second_owner_failure_panics [OF demo_owned_inv demo_owned_open]) simp

theorem ringbuf_open_maps_witness:
  "\<exists>k'. ringbuf (\<lambda>_ _. True) ''rb'' (Open True) 1 demo_boot = KDone k' \<and> ring_opened ''rb'' 1 (9 * page_size) k'"
  using ringbuf_open_maps [OF demo_boot_inv demo_boot_open(6,7,1,3,4)] unfolding demo_boot_open(5) by blast

theorem ringbuf_isolation_witness:
  "\<exists>k pg. kring_step\<^sup>*\<^sup>* ({}, demo_boot) ({}, k) \<and> maps k 1 (9 * page_size) = Some pg \<and> pg \<notin> set (pool k)"
proof -
  obtain k pg where k: "kring_step\<^sup>*\<^sup>* ({}, demo_boot) ({}, k)" "maps k 1 (9 * page_size) = Some pg" using demo_run by blast
  have "tops_aligned (\<lambda>_. 40 * page_size)" by (simp add: tops_aligned_def)
  then have "pg \<notin> set (pool k)" using ringbuf_isolation [OF k(1) [unfolded demo_boot_def] _ _ _ k(2)] by simp
  then show ?thesis using k by blast
qed

end
