(* ===== verification/Rbtest.thy ===== *)
theory Rbtest
  imports Kringsafe Stdio
begin

text \<open>
  Test programs for ring buffers, run on the kernel's ring buffers: \<^verbatim>\<open>src/user/rb_failtest.c\<close> and
  \<^verbatim>\<open>src/user/rb_open_close.c\<close>.  \<open>ring_kernel\<close> answers the calls of one process: \<open>ringbuf\<close> by \<open>sys_ringbuf\<close>, and writes to standard
  output by appending to a transcript.  A pointer that the program passes is valid, so copying in and
  out succeeds.
\<close>

subsection \<open>The programs\<close>

definition rb_failtest_main :: "(uint64 \<Rightarrow> string) \<Rightarrow> uint64 \<Rightarrow> int prog" where
  "rb_failtest_main fmtp addr =
     (let oops = pbind (printf fmtp ''System call didn't fail when it should have\<newline>'' []) (\<lambda>_. Ret (- 1))
      in Ringbuf '''' 1 addr (\<lambda>(r, addr).
         if r \<ge> 0 then oops
         else Ringbuf ''0123456789ABCDEF'' 1 addr (\<lambda>(r, addr).
         if r \<ge> 0 then oops
         else Ringbuf ''test'' 0 addr (\<lambda>(r, addr).
         if r \<ge> 0 then oops
         else Ret 0))))"

definition error :: "(uint64 \<Rightarrow> string) \<Rightarrow> string \<Rightarrow> 'a prog" where
  "error fmtp msg = pbind (printf fmtp msg []) (\<lambda>_. Exit (- 1))"

text \<open>The first loop of \<open>main\<close>, with the number of rounds as its argument (10000 in the source).\<close>

fun reopen_loop :: "(uint64 \<Rightarrow> string) \<Rightarrow> nat \<Rightarrow> uint64 \<Rightarrow> unit prog" where
  "reopen_loop fmtp 0 addr = Ret ()"
| "reopen_loop fmtp (Suc n) addr =
     Ringbuf ''reopen'' 1 addr (\<lambda>(r, addr).
       if r < 0 then error fmtp ''System call failed when it shouldn't have\<newline>''
       else Ringbuf ''reopen'' 0 addr (\<lambda>(r, addr).
         if r < 0 then error fmtp ''System call failed when it shouldn't have\<newline>''
         else reopen_loop fmtp n addr))"

subsection \<open>The kernel\<close>

definition ring_addr :: "string \<Rightarrow> pid \<Rightarrow> kring \<Rightarrow> nat" where
  "ring_addr nm p k = (case findRingbufByName nm k of
      None \<Rightarrow> 0
    | Some i \<Rightarrow> (case owner_index (ringbufs k ! i) p of None \<Rightarrow> 0 | Some w \<Rightarrow> vbuf (owners (ringbufs k ! i) ! w)))"

definition ring_call :: "(pid \<Rightarrow> nat \<Rightarrow> bool) \<Rightarrow> pid \<Rightarrow> string \<Rightarrow> int \<Rightarrow> uint64 \<Rightarrow> kring \<Rightarrow> ((int \<times> uint64) \<times> kring) option" where
  "ring_call can_map p nm op addr k =
     (case sys_ringbuf can_map (Some nm) (if op = 1 then rb_op.Open True else CloseAt (Some (unat addr))) 1 p k of
        None \<Rightarrow> None
      | Some (r, k') \<Rightarrow> Some ((r, if op = 1 \<and> r = 0 then of_nat (ring_addr nm p k') else addr), k'))"

definition ring_kernel :: "(pid \<Rightarrow> nat \<Rightarrow> bool) \<Rightarrow> pid \<Rightarrow> (kring \<times> string) kernel" where
  "ring_kernel can_map p = \<lparr>
     k_call = (\<lambda>q (k, out). case q of Write fd s \<Rightarrow> if fd = 1 then Some (int (length s), (k, out @ s)) else Some (- 1, (k, out)) | _ \<Rightarrow> Some (- 1, (k, out))),
     k_read = (\<lambda>fd n k. Some (Some [], k)),
     k_pipe = (\<lambda>k. Some (None, k)),
     k_fstat = (\<lambda>fd k. Some (None, k)),
     k_wait = (\<lambda>k. Some ((- 1, 0), k)),
     k_ringbuf = (\<lambda>nm op addr (k, out). map_option (\<lambda>(r, k'). (r, (k', out))) (ring_call can_map p nm op addr k))\<rparr>"

text \<open>Standard output of that kernel takes everything, and does not touch the ring buffers.\<close>

interpretation ring_io: stdio "ring_kernel can_map p" snd "\<lambda>s. fst s = k" 0 "\<lambda>_. []"
  for can_map p k
  by unfold_locales (auto simp: ring_kernel_def)

subsection \<open>Opening and closing\<close>

lemma disowned_last:
  assumes inv: "kring_inv k" and i: "i < MAX_RINGBUFS" and D: "disowned p i k k'" and w: "owner_index (ringbufs k ! i) p = Some w"
    and one: "refcount (ringbufs k ! i) = 1"
  shows "refcount (ringbufs k' ! i) = 0"
proof (rule ccontr)
  assume nz: "refcount (ringbufs k' ! i) \<noteq> 0"
  have inv': "kring_inv k'" using disowned_good [OF D] by (rule kgood_inv)
  obtain a b where ab: "owners (ringbufs k ! i) = [a, b]"
      "refcount (ringbufs k ! i) = (if proc a = None then 0 else 1) + (if proc b = None then 0 else 1)"
    by (rule ring_okE [OF kring_invD [OF inv i]])
  obtain c d where cd: "owners (ringbufs k' ! i) = [c, d]"
      "refcount (ringbufs k' ! i) = (if proc c = None then 0 else 1) + (if proc d = None then 0 else 1)"
    by (rule ring_okE [OF kring_invD [OF inv' i]])
  have "\<exists>ow \<in> set (owners (ringbufs k' ! i)). proc ow \<noteq> None"
    using nz cd by (cases "proc c = None"; cases "proc d = None") simp_all
  then obtain ow where ow: "ow \<in> set (owners (ringbufs k' ! i))" "proc ow \<noteq> None" by blast
  have mem: "ow \<in> set (owners (ringbufs k ! i))" and no: "owner_index (ringbufs k' ! i) p = None"
    using D w ow unfolding disowned_def by auto
  have "Some p \<in> proc ` set (owners (ringbufs k ! i))" using w ab(1) by (auto simp: owner_index_def split: if_splits)
  moreover have "(proc a = None) \<noteq> (proc b = None)" using ab(2) one by (cases "proc a = None"; cases "proc b = None") simp_all
  ultimately have "proc ow = Some p" using mem ow(2) ab(1) by auto
  then show False using ow(1) no cd(1) by (auto simp: owner_index_def split: if_splits)
qed

lemma ringbuf_close_owned:
  assumes ok: "kring_ok k" and f: "findRingbufByName nm k = Some i" and w: "owner_index (ringbufs k ! i) p = Some w"
    and v: "vbuf (owners (ringbufs k ! i) ! w) = v" "vbook (owners (ringbufs k ! i) ! w) = v - page_size" "v \<noteq> 0"
  shows "\<exists>k2. disowned p i k k2 \<and> ringbuf can_map nm (CloseAt (Some v)) p k =
     KDone (k2\<lparr>topFree := if topFree k p = v - 3 * page_size then (topFree k)(p := topFree k p + 34 * page_size) else topFree k\<rparr>)"
proof -
  note F = findRingbufByName_Some [OF f]
  have inv: "kring_inv k" using ok by (simp add: kring_ok_def)
  have ring: "ring_ok (ringbufs k ! i)" using kring_invD [OF inv] F by blast
  have nm: "nm \<noteq> []" "length nm \<le> MAX_NAME_LEN" "book_page (ringbufs k ! i) \<noteq> None" using ring F by (auto simp: ring_ok_def)
  obtain k2 where k2: "disownIfOwned i p k = Some k2" "disowned p i k k2"
    using disown_spec [OF inv conjunct1 [OF F] kring_ok_can_disown [OF ok conjunct1 [OF F], of p]] by blast
  have t: "topFree k2 = topFree k" using k2(2) by (simp add: disowned_def)
  have "ringbuf can_map nm (CloseAt (Some v)) p k =
     KDone (if topFree k p = v - 3 * page_size then k2\<lparr>topFree := (topFree k)(p := topFree k p + 34 * page_size)\<rparr> else k2)"
    using nm f w v k2(1) F t unfolding ringbuf_def ringbuf_close_def by (simp add: Let_def RINGBUF_SIZE_def mult.commute)
  moreover have "k2\<lparr>topFree := topFree k\<rparr> = k2" using t by (cases k2) simp
  ultimately have "ringbuf can_map nm (CloseAt (Some v)) p k =
     KDone (k2\<lparr>topFree := if topFree k p = v - 3 * page_size then (topFree k)(p := topFree k p + 34 * page_size) else topFree k\<rparr>)"
    by (simp split: if_splits)
  then show ?thesis using k2(2) by blast
qed


lemma kpages_pool:
  assumes "kpages k' = kpages k" "ringbufs k' = (ringbufs k)[i := r]" "i < length (ringbufs k)"
    "ring_pages r = []" "ring_pages (ringbufs k ! i) = []"
  shows "mset (pool k') = mset (pool k)"
proof -
  have "kpages (k'\<lparr>pool := pool k\<rparr>) = kpages k"
    by (rule kpages_update [OF assms(3), of _ r]) (simp_all add: assms)
  then have "kpages (k'\<lparr>pool := pool k\<rparr>) = kpages k'" using assms(1) by simp
  then show ?thesis by (simp add: kpages_def)
qed

text \<open>What a round of opening a new ring buffer and closing it leaves unchanged in the table.\<close>

definition same_rings :: "kring \<Rightarrow> kring \<Rightarrow> bool" where
  "same_rings k k' = (\<forall>i < MAX_RINGBUFS. owners (ringbufs k' ! i) = owners (ringbufs k ! i) \<and>
     refcount (ringbufs k' ! i) = refcount (ringbufs k ! i) \<and> ring_pages (ringbufs k' ! i) = ring_pages (ringbufs k ! i) \<and>
     (refcount (ringbufs k ! i) \<noteq> 0 \<longrightarrow> name_buf (ringbufs k' ! i) = name_buf (ringbufs k ! i)))"

lemma same_rings_find:
  assumes "same_rings k k'"
  shows "findRingbufByName nm k' = None \<longleftrightarrow> findRingbufByName nm k = None" "findFreeRingbuf k' = findFreeRingbuf k"
proof -
  show "findRingbufByName nm k' = None \<longleftrightarrow> findRingbufByName nm k = None"
    using assms unfolding findRingbufByName_None same_rings_def by metis
  have "\<forall>i < MAX_RINGBUFS. refcount (ringbufs k' ! i) = refcount (ringbufs k ! i)" using assms by (simp add: same_rings_def)
  then show "findFreeRingbuf k' = findFreeRingbuf k"
    unfolding findFreeRingbuf_def by (intro find_cong) auto
qed

lemma open_close:
  assumes ok: "kring_ok k" and nm: "nm \<noteq> []" "length nm \<le> MAX_NAME_LEN" and new: "findRingbufByName nm k = None"
    and avail: "can_open nm p k" and room: "map_room can_map p k" and big: "34 * page_size \<le> topFree k p"
  shows "\<exists>k1 k2. ringbuf can_map nm (rb_op.Open True) p k = KDone k1 \<and> ring_addr nm p k1 = topFree k p - 31 * page_size \<and>
     ringbuf can_map nm (CloseAt (Some (topFree k p - 31 * page_size))) p k1 = KDone k2 \<and>
     kring_ok k2 \<and> same_rings k k2 \<and> mset (pool k2) = mset (pool k) \<and> topFree k2 = topFree k \<and> ownedCount k2 = ownedCount k \<and>
     maps k2 = maps k"
proof -
  have inv: "kring_inv k" using ok by (simp add: kring_ok_def)
  define t where "t = topFree k p"
  define v where "v = t - 31 * page_size"
  obtain i w k0 k1 where O: "ringbuf can_map nm (rb_op.Open True) p k = KDone (k1\<lparr>topFree := (topFree k)(p := t - 34 * page_size)\<rparr>)"
      "slot_ready nm p k i w k0" "opened p i w k0 k1" "kgood k k1"
    using ringbuf_open_succeeds [OF inv nm avail room big] unfolding t_def by blast
  note F = slot_facts [OF inv O(2)]
  define k1' where "k1' = k1\<lparr>topFree := (topFree k)(p := t - 34 * page_size)\<rparr>"
  have good: "kgood k k1'" using O(4) by (simp add: k1'_def)
  have al: "tops_aligned (topFree k)" by (rule kring_ok_tops [OF ok])
  then have "tops_aligned ((topFree k)(p := t - 34 * page_size))" using aligned_minus [of t 34] by (simp add: tops_aligned_def t_def)
  then have ok1: "kring_ok k1'" unfolding k1'_def by (rule kring_ok_topFree [OF opened_ok [OF ok O(2,3,4) big]])
  then have inv1: "kring_inv k1'" by (simp add: kring_ok_def)
  have fresh: "refcount (ringbufs k ! i) = 0" using O(2) new by (auto simp: slot_ready_def split: if_splits)
  have len: "i < length (ringbufs k)" using kring_length [OF inv] F(1) by simp
  have r1: "ringbufs k1' ! i = opened_ring p t w (ringbufs k0 ! i)" using opened_frame(1) [OF O(3)] F(2,7) by (simp add: k1'_def t_def)
  have rings1: "ringbufs k1' = (ringbufs k)[i := ringbufs k1' ! i]"
    using opened_frame(1) [OF O(3)] F(2,6) by (simp add: k1'_def) (metis list_update_overwrite)
  have one: "refcount (ringbufs k1' ! i) = 1" using O(2) fresh by (simp add: r1 opened_ring_def slot_ready_def)
  have nmi: "name_buf (ringbufs k1' ! i) = nm" using O(2) by (simp add: r1 opened_ring_frame slot_ready_def)
  have fi: "findRingbufByName nm k1' = Some i" by (rule findRingbufByName_unique [OF inv1 F(1) _ nmi]) (simp add: one)
  have "ring_opened nm p v k1'" using opened_ring_opened [OF inv O(2,3,4) big] by (simp add: k1'_def v_def t_def)
  then obtain w' where R: "owner_index (ringbufs k1' ! i) p = Some w'"
      "vbuf (owners (ringbufs k1' ! i) ! w') = v" "vbook (owners (ringbufs k1' ! i) ! w') = v - page_size"
    unfolding ring_opened_def using fi by auto
  have vnz: "v \<noteq> 0" and tv: "t - 34 * page_size = v - 3 * page_size" using big by (simp_all add: v_def t_def page_size_def)
  obtain k3 where k3: "disowned p i k1' k3" "ringbuf can_map nm (CloseAt (Some v)) p k1' =
     KDone (k3\<lparr>topFree := if topFree k1' p = v - 3 * page_size then (topFree k1')(p := topFree k1' p + 34 * page_size) else topFree k1'\<rparr>)"
    using ringbuf_close_owned [OF ok1 fi R vnz] by blast
  have "(if topFree k1' p = v - 3 * page_size then (topFree k1')(p := topFree k1' p + 34 * page_size) else topFree k1') = topFree k"
    using tv big by (simp add: k1'_def t_def fun_eq_iff)
  then have c: "ringbuf can_map nm (CloseAt (Some v)) p k1' = KDone (k3\<lparr>topFree := topFree k\<rparr>)" using k3(2) by simp
  define k2 where "k2 = k3\<lparr>topFree := topFree k\<rparr>"
  have g: "kgood k k2" using kgood_trans [OF good disowned_good [OF k3(1)]] by (simp add: k2_def)
  define r2 where "r2 = ringbufs k2 ! i"
  have rings2: "ringbufs k2 = (ringbufs k)[i := r2]"
    using k3(1) R(1) rings1 unfolding disowned_def by (simp add: k2_def r2_def) (metis list_update_overwrite)
  have zero: "refcount r2 = 0" using disowned_last [OF inv1 F(1) k3(1) R(1) one] by (simp add: k2_def r2_def)
  have free2: "owners r2 = [no_owner, no_owner]" "ring_pages r2 = []"
    using ring_ok_free [OF kring_invD [OF kgood_inv [OF g] F(1), folded r2_def] zero] by (simp_all add: ring_pages_def)
  have free: "owners (ringbufs k ! i) = [no_owner, no_owner]" "ring_pages (ringbufs k ! i) = []"
    using ring_ok_free [OF kring_invD [OF inv F(1)] fresh] by (simp_all add: ring_pages_def)
  have same: "same_rings k k2"
    unfolding same_rings_def
  proof (intro allI impI)
    fix j assume "j < MAX_RINGBUFS"
    then show "owners (ringbufs k2 ! j) = owners (ringbufs k ! j) \<and> refcount (ringbufs k2 ! j) = refcount (ringbufs k ! j) \<and>
      ring_pages (ringbufs k2 ! j) = ring_pages (ringbufs k ! j) \<and> (refcount (ringbufs k ! j) \<noteq> 0 \<longrightarrow> name_buf (ringbufs k2 ! j) = name_buf (ringbufs k ! j))"
      using free free2 zero fresh len by (cases "j = i") (simp_all add: rings2)
  qed
  have pl: "mset (pool k2) = mset (pool k)"
    by (rule kpages_pool [OF _ rings2 len free2(2) free(2)]) (use g in \<open>simp add: kgood_def\<close>)
  have cnt: "ownedCount k2 = ownedCount k"
    using k3(1) R(1) O(3) F(9) unfolding disowned_def by (simp add: k2_def k1'_def opened_def fun_eq_iff)
  define ow where "ow = owners (ringbufs k1' ! i) ! w'"
  have m3: "maps k2 = maps (without p (set (owner_addrs ow)) k1')"
    using k3(1) R unfolding disowned_def by (simp add: k2_def ow_def)
  have ow: "vbuf ow = t - 33 * page_size + 2 * page_size" "vbook ow = t - 33 * page_size + page_size"
    using R(2,3) big by (simp_all add: ow_def v_def t_def page_size_def)
  have addrs: "a \<in> set (owner_addrs ow) \<longleftrightarrow> (\<exists>n < 33. a = t - n * page_size)" for a
    by (rule new_owner_addrs [OF big [folded t_def] ow])
  have free: "maps k p (t - n * page_size) = None" if "n < 33" for n
    using O(3) that F(7,8) by (simp add: opened_def t_def)
  have out: "maps k1' q a = maps k q a" if "q \<noteq> p \<or> \<not> (\<exists>n < 33. a = t - n * page_size)" for q a
    using O(3) F(7,8) that unfolding opened_def by (simp add: k1'_def t_def)
  have "maps k2 q a = maps k q a" for q a
    unfolding m3 using out [of q a] free by (auto simp: addrs)
  then have mp: "maps k2 = maps k" by (intro ext)
  have "kring_ok k3" by (rule disowned_ok [OF ok1 F(1) k3(1)])
  then have ok2: "kring_ok k2" unfolding k2_def by (rule kring_ok_topFree [OF _ al])
  have ra: "ring_addr nm p k1' = v" using fi R by (simp add: ring_addr_def)
  have t2: "topFree k2 = topFree k" by (simp add: k2_def)
  show ?thesis
    by (rule exI [of _ k1'], rule exI [of _ k2])
      (use O(1) ra c ok2 same pl cnt mp t2 in \<open>simp add: k1'_def k2_def t_def v_def\<close>)
qed


subsection \<open>The tests pass\<close>

definition reopen_ready :: "(pid \<Rightarrow> nat \<Rightarrow> bool) \<Rightarrow> pid \<Rightarrow> kring \<Rightarrow> bool" where
  "reopen_ready can_map p k = (kring_ok k \<and> findRingbufByName ''reopen'' k = None \<and> can_open ''reopen'' p k \<and> map_room can_map p k \<and>
     34 * page_size \<le> topFree k p \<and> topFree k p < 2 ^ 64)"

text \<open>The kernel as it was: the table, the free pages (in another order), the address spaces and the counts of every process.\<close>

definition kernel_restored :: "kring \<Rightarrow> kring \<Rightarrow> bool" where
  "kernel_restored k k' = (same_rings k k' \<and> mset (pool k') = mset (pool k) \<and> maps k' = maps k \<and> topFree k' = topFree k \<and>
     ownedCount k' = ownedCount k)"

lemma kernel_restored_refl: "kernel_restored k k"
  by (simp add: kernel_restored_def same_rings_def)

lemma kernel_restored_trans: "kernel_restored k k1 \<Longrightarrow> kernel_restored k1 k2 \<Longrightarrow> kernel_restored k k2"
  by (simp add: kernel_restored_def same_rings_def)

lemma intFromErr_neg: "intFromErr e < 0"
  using error_codes_roundtrip by blast

lemma reopen_round:
  assumes "reopen_ready can_map p k"
  shows "\<exists>k1 k2 a. ring_call can_map p ''reopen'' 1 addr k = Some ((0, a), k1) \<and> ring_call can_map p ''reopen'' 0 a k1 = Some ((0, a), k2) \<and>
     reopen_ready can_map p k2 \<and> kernel_restored k k2"
proof -
  let ?nm = "''reopen''" and ?v = "topFree k p - 31 * page_size"
  have R: "kring_ok k" "findRingbufByName ?nm k = None" "can_open ?nm p k" "map_room can_map p k" "34 * page_size \<le> topFree k p"
      "topFree k p < 2 ^ 64"
    using assms by (simp_all add: reopen_ready_def)
  have nm: "?nm \<noteq> []" "length ?nm \<le> MAX_NAME_LEN" "length ?nm < MAX_NAME_LEN" by (simp_all add: MAX_NAME_LEN_def)
  obtain k1 k2 where K: "ringbuf can_map ?nm (rb_op.Open True) p k = KDone k1" "ring_addr ?nm p k1 = ?v"
      "ringbuf can_map ?nm (CloseAt (Some ?v)) p k1 = KDone k2" "kring_ok k2" "same_rings k k2" "mset (pool k2) = mset (pool k)"
      "topFree k2 = topFree k" "ownedCount k2 = ownedCount k" "maps k2 = maps k"
    using open_close [OF R(1) nm(1,2) R(2-5)] by blast
  have un: "unat (of_nat ?v :: uint64) = ?v" using R(6) by (simp add: unat_of_nat)
  have o: "ring_call can_map p ?nm 1 addr k = Some ((0, of_nat ?v), k1)"
    using nm(3) K(1,2) by (simp add: ring_call_def sys_ringbuf_def)
  have c: "ring_call can_map p ?nm 0 (of_nat ?v) k1 = Some ((0, of_nat ?v), k2)"
    using nm(3) K(3) un by (simp add: ring_call_def sys_ringbuf_def)
  have "length (pool k2) = length (pool k)" using K(6) by (metis size_mset)
  moreover have none: "findRingbufByName ?nm k2 = None" and "findFreeRingbuf k2 = findFreeRingbuf k"
    using same_rings_find [OF K(5)] R(2) by simp_all
  ultimately have "can_open ?nm p k2" using R(2,3) by (simp add: can_open_def)
  then have "reopen_ready can_map p k2" using K(4,7,9) R none by (simp add: reopen_ready_def map_room_def)
  moreover have "kernel_restored k k2" using K(5-9) by (simp add: kernel_restored_def)
  ultimately show ?thesis using o c by blast
qed

lemma ring_kernel_ringbuf:
  "k_ringbuf (ring_kernel can_map p) nm op addr (k, out) = map_option (\<lambda>(r, k'). (r, (k', out))) (ring_call can_map p nm op addr k)"
  by (simp add: ring_kernel_def)



text \<open>
  \<^verbatim>\<open>rb_failtest.c\<close> passes on every valid table without a ring buffer named test: the empty name, a name of 16 characters and
  closing what was never opened are all refused, and the table is unchanged.
\<close>

lemma failtest_passes:
  assumes "kring_inv k" "findRingbufByName ''test'' k = None"
  shows "run (ring_kernel can_map p) (rb_failtest_main fmtp addr) (k, out) = (Returned 0, (k, out))"
proof -
  have 1: "ring_call can_map p '''' 1 addr k = Some ((intFromErr BadNameLength, addr), k)"
    using intFromErr_neg [of BadNameLength] by (simp add: ring_call_def sys_ringbuf_def ringbuf_def MAX_NAME_LEN_def)
  have 2: "ring_call can_map p ''0123456789ABCDEF'' 1 addr k = Some ((intFromErr BadNameLength, addr), k)"
    using intFromErr_neg [of BadNameLength] by (simp add: ring_call_def sys_ringbuf_def MAX_NAME_LEN_def)
  have 3: "ring_call can_map p ''test'' 0 addr k = Some ((intFromErr NameNotFound, addr), k)"
    using assms(2) by (simp add: ring_call_def sys_ringbuf_def ringbuf_def ringbuf_close_def MAX_NAME_LEN_def)
  show ?thesis
    using intFromErr_neg [of BadNameLength] intFromErr_neg [of NameNotFound]
    by (simp add: rb_failtest_main_def Let_def ring_kernel_ringbuf 1 2 3)
qed

end
