(* ===== verification/Pb.thy ===== *)
theory Pb
  imports Kpipe Ulib
begin

text \<open>
  The pipe benchmark \<^verbatim>\<open>src/user/pb.c\<close>, two processes over a kernel pipe: the child writes a chunk of 510 bytes over and over, the parent reads and compares.  The state
  starts after both have closed the end of the pipe that they do not use.  A step is one round of a loop: a system call that runs until it
  returns or sleeps, with the code up to the next call.  A process whose call would sleep without having done anything has no step, one that sleeps in the middle of
  a write continues with the rest.  The end of a process closes its end of the pipe.
\<close>

subsection \<open>Definitions\<close>

definition CHUNK_LEN :: nat where "CHUNK_LEN = 510"
definition WRITE_AMT :: nat where "WRITE_AMT = 10 * 1024 * 1024"

definition chunk :: "byte list" where
  "chunk = map (\<lambda>i. char_of (97 + i mod 26 :: nat)) [0..<CHUNK_LEN]"

text \<open>
  \<open>CBroken\<close> and \<open>PBroken\<close> are processes whose call was illegal behaviour of the kernel; they have no step.
  \<open>messages\<close> are the complaints that the parent prints.  \<open>got\<close> is no variable of the program: it records
  the bytes that the parent's calls of \<open>read\<close> have delivered so far.
\<close>

datatype pb_child = CWriting | CAsleep nat "byte list" | CExit int | CBroken
datatype pb_parent = PReading | PWaiting | PExit int | PBroken

record pb_state =
  pb_pipe :: pipe
  child :: pb_child
  n_written :: nat
  parent :: pb_parent
  n_read :: nat
  read_buf :: "byte list"
  messages :: "string list"
  got :: "byte list"

definition exit_child :: "int \<Rightarrow> pipe \<Rightarrow> pb_state \<Rightarrow> pb_state" where
  "exit_child st p s = s\<lparr>pb_pipe := fst (pipe_close p True), child := CExit st\<rparr>"

definition exit_parent :: "int \<Rightarrow> pipe \<Rightarrow> pb_state \<Rightarrow> pb_state" where
  "exit_parent st p s = s\<lparr>pb_pipe := fst (pipe_close p False), parent := PExit st\<rparr>"

definition complain :: "string \<Rightarrow> pb_state \<Rightarrow> pb_state" where
  "complain m s = s\<lparr>messages := messages s @ [m]\<rparr>"

text \<open>The child after its call of \<open>write\<close> has returned or has gone to sleep.\<close>

definition after_write :: "(nat, nat \<times> byte list) pipe_result \<Rightarrow> pb_state \<Rightarrow> pb_state" where
  "after_write r s = (case r of
      PDone write_amt p \<Rightarrow> s\<lparr>pb_pipe := p, n_written := n_written s + write_amt, child := CWriting\<rparr>
    | PError p \<Rightarrow> exit_child 1 p s
    | PSleep (n, rest) p \<Rightarrow> s\<lparr>pb_pipe := p, child := CAsleep n rest\<rparr>
    | PIllegal \<Rightarrow> s\<lparr>child := CBroken\<rparr>)"

definition child_step :: "pb_state \<Rightarrow> pb_state option" where
  "child_step s = (case child s of
      CWriting \<Rightarrow>
        if n_written s < WRITE_AMT then Some (after_write (pipe_write False (pb_pipe s) chunk 0) s)
        else Some (exit_child 0 (pb_pipe s) s)
    | CAsleep n rest \<Rightarrow>
        (case pipe_write False (pb_pipe s) rest n of
           PSleep (n', rest') p \<Rightarrow> if rest' = rest then None else Some (after_write (PSleep (n', rest') p) s)
         | r \<Rightarrow> Some (after_write r s))
    | CExit st \<Rightarrow> None
    | CBroken \<Rightarrow> None)"

definition parent_step :: "pb_state \<Rightarrow> pb_state option" where
  "parent_step s = (case parent s of
      PReading \<Rightarrow>
        if n_read s < WRITE_AMT then
          (case pipe_read False (pb_pipe s) CHUNK_LEN of
             PSleep _ p \<Rightarrow> None
           | PIllegal \<Rightarrow> Some (s\<lparr>parent := PBroken\<rparr>)
           | PError p \<Rightarrow> Some (exit_parent 1 p (complain ''read failed'' s))
           | PDone bs p \<Rightarrow>
               let s = s\<lparr>n_read := n_read s + length bs, read_buf := overlay (read_buf s) 0 bs, got := got s @ bs\<rparr>
               in if memcmp (read_buf s @ chunk) 0 (length (read_buf s)) (of_nat CHUNK_LEN) \<noteq> Some 0
                  then Some (exit_parent 1 p (complain ''The byte stream read did not match written stream!'' s))
                  else Some (s\<lparr>pb_pipe := p\<rparr>))
        else Some (s\<lparr>parent := PWaiting\<rparr>)
    | PWaiting \<Rightarrow> (case child s of
          CExit exit_status \<Rightarrow>
            Some (if exit_status \<noteq> 0 then exit_parent 1 (pb_pipe s) (complain ''Child returned bad exit status'' s)
                  else exit_parent 0 (pb_pipe s) s)
        | _ \<Rightarrow> None)
    | PExit st \<Rightarrow> None
    | PBroken \<Rightarrow> None)"

inductive pb_step :: "pb_state \<Rightarrow> pb_state \<Rightarrow> bool" where
  child: "child_step s = Some s' \<Longrightarrow> pb_step s s'"
| parent: "parent_step s = Some s' \<Longrightarrow> pb_step s s'"

definition pb_init :: "byte list \<Rightarrow> byte list \<Rightarrow> pb_state" where
  "pb_init page buf = \<lparr>pb_pipe = pipe_alloc page, child = CWriting, n_written = 0, parent = PReading, n_read = 0, read_buf = buf, messages = [], got = []\<rparr>"

subsection \<open>The stream\<close>

definition stream_at :: "nat \<Rightarrow> byte" where
  "stream_at n = chunk ! (n mod CHUNK_LEN)"

definition stream :: "nat \<Rightarrow> nat \<Rightarrow> byte list" where
  "stream i j = map stream_at [i..<j]"

definition pb_total :: nat where "pb_total = 20561 * CHUNK_LEN"

text \<open>How many bytes the child has put into the pipe.\<close>

definition pb_put :: "pb_state \<Rightarrow> nat" where
  "pb_put s = n_written s + (case child s of CAsleep n rest \<Rightarrow> n | _ \<Rightarrow> 0)"

definition child_ok :: "pb_state \<Rightarrow> bool" where
  "child_ok s \<longleftrightarrow> CHUNK_LEN dvd n_written s \<and> n_written s \<le> pb_total \<and>
     (case child s of
        CWriting \<Rightarrow> True
      | CAsleep n rest \<Rightarrow> n_written s < WRITE_AMT \<and> rest \<noteq> [] \<and> rest = stream (n_written s + n) (n_written s + CHUNK_LEN) \<and> n + length rest = CHUNK_LEN
      | CExit st \<Rightarrow> (WRITE_AMT \<le> n_written s \<or> (\<exists>st. parent s = PExit st))
      | CBroken \<Rightarrow> False)"

definition pb_inv :: "pb_state \<Rightarrow> bool" where
  "pb_inv s \<longleftrightarrow> pipe_inv (pb_pipe s) \<and> child_ok s \<and> n_read s \<le> pb_total \<and>
     (write_is_open (pb_pipe s) \<longleftrightarrow> (\<nexists>st. child s = CExit st)) \<and> (read_is_open (pb_pipe s) \<longleftrightarrow> (\<nexists>st. parent s = PExit st)) \<and>
     ((\<nexists>st. parent s = PExit st) \<longrightarrow> n_read s \<le> pb_put s \<and> queue (pb_pipe s) = stream (n_read s) (pb_put s)) \<and>
     (parent s = PWaiting \<longrightarrow> WRITE_AMT \<le> n_read s) \<and> parent s \<noteq> PBroken \<and>
     unat (read_count (pb_pipe s)) = n_read s \<and> got s = stream 0 (n_read s)"

definition child_left :: "pb_state \<Rightarrow> nat" where
  "child_left s = (case child s of
      CWriting \<Rightarrow> 3 * (pb_total - pb_put s) + 2
    | CAsleep _ _ \<Rightarrow> 3 * (pb_total - pb_put s) + 1
    | _ \<Rightarrow> 0)"

definition parent_left :: "pb_state \<Rightarrow> nat" where
  "parent_left s = (case parent s of PReading \<Rightarrow> 2 * (pb_total - n_read s) + 2 | PWaiting \<Rightarrow> 1 | _ \<Rightarrow> 0)"

definition pb_measure :: "pb_state \<Rightarrow> nat" where
  "pb_measure s = child_left s + parent_left s"

lemma parent_left_child [simp]: "parent_left (after_write r s) = parent_left s" "parent_left (exit_child st p s) = parent_left s"
  by (simp_all add: parent_left_def after_write_def exit_child_def split: pipe_result.splits prod.splits pb_parent.splits)

lemma length_chunk [simp]: "length chunk = CHUNK_LEN"
  by (simp add: chunk_def)

lemma chunk_not_Nil: "chunk \<noteq> []"
  using length_chunk unfolding CHUNK_LEN_def by force

lemma length_stream [simp]: "length (stream i j) = j - i"
  by (simp add: stream_def)

lemma stream_append: "i \<le> j \<Longrightarrow> j \<le> k \<Longrightarrow> stream i j @ stream j k = stream i k"
  unfolding stream_def by (metis le_Suc_ex map_append upt_add_eq_append)

lemma stream_drop: "drop m (stream i j) = stream (i + m) j"
  by (simp add: stream_def drop_map)

lemma stream_take: "i + m \<le> j \<Longrightarrow> take m (stream i j) = stream i (i + m)"
  by (simp add: stream_def take_map)

lemma stream_chunk: "CHUNK_LEN dvd n \<Longrightarrow> stream n (n + CHUNK_LEN) = chunk"
  by (intro nth_equalityI) (auto simp: stream_def stream_at_def elim!: dvdE simp: mod_mult_self4)

lemma stream_split: "stream i k = xs @ ys \<Longrightarrow> i \<le> k \<Longrightarrow> xs = stream i (i + length xs) \<and> ys = stream (i + length xs) k \<and> i + length xs \<le> k"
proof -
  assume e: "stream i k = xs @ ys" and le: "i \<le> k"
  have "length xs + length ys = k - i" using arg_cong [OF e, of length] by simp
  then have l: "i + length xs \<le> k" using le by linarith
  have "xs = take (length xs) (stream i k)" "ys = drop (length xs) (stream i k)" using e by simp_all
  then show ?thesis using stream_take [OF l] stream_drop [of "length xs" i k] l by simp
qed

lemma written_bound: "CHUNK_LEN dvd n \<Longrightarrow> n < WRITE_AMT \<Longrightarrow> n + CHUNK_LEN \<le> pb_total"
proof (elim dvdE)
  fix k assume "n < WRITE_AMT" "n = CHUNK_LEN * k"
  then have "k < 20561" by (simp add: WRITE_AMT_def CHUNK_LEN_def)
  then show ?thesis using \<open>n = CHUNK_LEN * k\<close> by (simp add: pb_total_def CHUNK_LEN_def)
qed

subsection \<open>Steps\<close>

text \<open>A write in progress: \<open>m\<close> bytes of the chunk are in the pipe, \<open>bs\<close> is the rest.\<close>

definition writing :: "nat \<Rightarrow> byte list \<Rightarrow> pb_state \<Rightarrow> bool" where
  "writing m bs s \<longleftrightarrow> child s = CWriting \<and> n_written s < WRITE_AMT \<and> bs = chunk \<and> m = 0 \<or> child s = CAsleep m bs"

lemma complain_simps [simp]:
  "pb_pipe (complain m s) = pb_pipe s" "child (complain m s) = child s" "n_written (complain m s) = n_written s"
  "parent (complain m s) = parent s" "n_read (complain m s) = n_read s" "read_buf (complain m s) = read_buf s"
  "messages (complain m s) = messages s @ [m]" "got (complain m s) = got s"
  by (simp_all add: complain_def)

text \<open>The counters of the pipe stay far below the limit.\<close>

lemma counters_small:
  assumes "pb_inv s"
  shows "unat (read_count (pb_pipe s)) + 512 < 2 ^ 32"
  using assms by (simp add: pb_inv_def pb_total_def CHUNK_LEN_def)

lemma writing_facts:
  assumes "pb_inv s" "writing m bs s"
  shows "pb_put s = n_written s + m" "m + length bs = CHUNK_LEN" "bs \<noteq> []" "bs = stream (pb_put s) (n_written s + CHUNK_LEN)"
    "n_written s + CHUNK_LEN \<le> pb_total" "CHUNK_LEN dvd n_written s" "n_written s < WRITE_AMT" "\<nexists>st. child s = CExit st"
    "write_is_open (pb_pipe s)"
proof -
  have ok: "child_ok s" using assms(1) by (simp add: pb_inv_def)
  show d: "CHUNK_LEN dvd n_written s" and l: "n_written s < WRITE_AMT" and c: "\<nexists>st. child s = CExit st"
    using ok assms(2) by (auto simp: child_ok_def writing_def)
  show "n_written s + CHUNK_LEN \<le> pb_total" by (rule written_bound [OF d l])
  show "write_is_open (pb_pipe s)" using assms(1) c by (auto simp: pb_inv_def)
  show "pb_put s = n_written s + m" "m + length bs = CHUNK_LEN" "bs \<noteq> []" "bs = stream (pb_put s) (n_written s + CHUNK_LEN)"
    using ok assms(2) stream_chunk [OF d] chunk_not_Nil by (auto simp: child_ok_def writing_def pb_put_def)
qed

lemma after_write_step:
  assumes inv: "pb_inv s" and w: "writing m bs s" and r: "pipe_write False (pb_pipe s) bs m = r"
    and moved: "child s = CWriting \<or> (\<forall>n p. r \<noteq> PSleep (n, bs) p)"
  shows "pb_inv (after_write r s) \<and> pb_measure (after_write r s) < pb_measure s"
proof -
  note W = writing_facts [OF inv w]
  have pi: "pipe_inv (pb_pipe s)" and nr: "n_read s \<le> pb_total" using inv by (simp_all add: pb_inv_def)
  note Q = pipe_write_queue [OF pi, where killed = False and bs = bs and n = m, unfolded r]
  note E = pipe_write_ends [where killed = False and p = "pb_pipe s" and bs = bs and n = m, unfolded r]
  have "child s \<noteq> CBroken" using inv by (auto simp: pb_inv_def child_ok_def)
  then have left: "child_left s \<ge> 3 * (pb_total - pb_put s) + 1" using W(8) by (auto simp: child_left_def split: pb_child.splits)
  have "0 < length bs" using W(3) by simp
  then have put: "pb_put s \<le> n_written s + CHUNK_LEN" "pb_put s < pb_total" using W(1,2,5) by linarith+
  show ?thesis
  proof (cases r)
    case (PDone n' p')
    have q: "pipe_inv p'" "queue p' = queue (pb_pipe s) @ bs" "n' = CHUNK_LEN" "same_ends (pb_pipe s) p'" "read_count p' = read_count (pb_pipe s)"
      using Q E W(2) PDone by auto
    have "n_read s \<le> pb_put s \<Longrightarrow> stream (n_read s) (pb_put s) @ bs = stream (n_read s) (n_written s + CHUNK_LEN)"
      using stream_append [OF _ put(1), of "n_read s"] W(4) by simp
    then have "pb_inv (after_write r s)"
      using inv q W(5,6,8) PDone put(1) by (auto simp: pb_inv_def after_write_def child_ok_def pb_put_def same_ends_def)
    moreover have "pb_measure (after_write r s) < pb_measure s"
    proof -
      have "child_left (after_write r s) = 3 * (pb_total - (n_written s + CHUNK_LEN)) + 2"
        using q(3) PDone by (simp add: child_left_def after_write_def pb_put_def)
      moreover have "child_left s \<ge> 3 * (pb_total - pb_put s) + 1" by (rule left)
      moreover have "pb_put s < n_written s + CHUNK_LEN" using W(1,2) \<open>0 < length bs\<close> by linarith
      ultimately show ?thesis using put(2) W(5) unfolding pb_measure_def by simp
    qed
    ultimately show ?thesis ..
  next
    case (PError p')
    have q: "p' = pb_pipe s" "\<not> read_is_open p'" using Q PError by auto
    have ex: "\<exists>st. parent s = PExit st" using inv q by (auto simp: pb_inv_def)
    have "pb_inv (after_write r s)"
      using inv q ex PError by (auto simp: pb_inv_def after_write_def exit_child_def pipe_close_def child_ok_def pipe_inv_def fill_def)
    moreover have "pb_measure (after_write r s) < pb_measure s"
    proof -
      have "child_left (after_write r s) = 0" using PError by (simp add: child_left_def after_write_def exit_child_def)
      moreover have "0 < child_left s" using left by simp
      ultimately show ?thesis by (simp add: pb_measure_def)
    qed
    ultimately show ?thesis ..
  next
    case (PSleep x p')
    obtain n' rest where x: "x = (n', rest)" by (cases x)
    obtain dn where q: "pipe_inv p'" "rest \<noteq> []" "bs = dn @ rest" "queue p' = queue (pb_pipe s) @ dn" "n' = m + length dn"
        "same_ends (pb_pipe s) p'" "read_count p' = read_count (pb_pipe s)"
      using Q E PSleep x by auto
    have S: "dn = stream (pb_put s) (pb_put s + length dn)" "rest = stream (pb_put s + length dn) (n_written s + CHUNK_LEN)"
        "pb_put s + length dn \<le> n_written s + CHUNK_LEN"
      using stream_split [of "pb_put s" "n_written s + CHUNK_LEN" dn rest] W(4) q(3) put(1) by auto
    have put': "pb_put (after_write r s) = pb_put s + length dn"
      using PSleep x q(5) W(1) by (simp add: after_write_def pb_put_def)
    have cat: "n_read s \<le> pb_put s \<Longrightarrow> stream (n_read s) (pb_put s) @ dn = stream (n_read s) (pb_put s + length dn)"
      using stream_append [of "n_read s" "pb_put s" "pb_put s + length dn"] S(1) by simp
    have len: "n' + length rest = CHUNK_LEN" using W(2) q(3,5) by simp
    have ok: "child_ok (after_write r s)"
      using W(1,5,6,7) q(2,5) S(2) len PSleep x by (auto simp: child_ok_def after_write_def add.assoc)
    have "pb_inv (after_write r s)"
      unfolding pb_inv_def put'
      using inv q cat ok W(8) PSleep x by (auto simp: pb_inv_def after_write_def same_ends_def)
    moreover have "pb_measure (after_write r s) < pb_measure s"
    proof (cases "dn = []")
      case True
      then have "child s = CWriting" using moved q(3) PSleep x by auto
      then show ?thesis using put' True PSleep x by (simp add: pb_measure_def child_left_def) (simp add: after_write_def)
    next
      case False
      then have "pb_total - (pb_put s + length dn) < pb_total - pb_put s" using put(2) by (simp add: diff_less_mono2)
      moreover have "child_left (after_write r s) = 3 * (pb_total - (pb_put s + length dn)) + 1"
        using put' PSleep x by (simp add: child_left_def) (simp add: after_write_def)
      moreover have "child_left s \<ge> 3 * (pb_total - pb_put s) + 1" by (rule left)
      ultimately show ?thesis unfolding pb_measure_def by simp
    qed
    ultimately show ?thesis ..
  next
    case PIllegal
    then show ?thesis using Q counters_small [OF inv] by simp
  qed
qed


lemma child_step_ok:
  assumes inv: "pb_inv s" and st: "child_step s = Some s'"
  shows "pb_inv s' \<and> pb_measure s' < pb_measure s"
proof (cases "child s")
  case CWriting
  show ?thesis
  proof (cases "n_written s < WRITE_AMT")
    case True
    have w: "writing 0 chunk s" using CWriting True by (simp add: writing_def)
    show ?thesis using after_write_step [OF inv w refl] CWriting True st by (simp add: child_step_def)
  next
    case False
    have s': "s' = exit_child 0 (pb_pipe s) s" using st CWriting False by (simp add: child_step_def)
    have "pb_inv s'" using inv CWriting False
      by (auto simp: s' pb_inv_def exit_child_def pipe_close_def child_ok_def pipe_inv_def fill_def queue_def pb_put_def)
    moreover have "pb_measure s' < pb_measure s" using CWriting by (simp add: s' pb_measure_def) (simp add: child_left_def exit_child_def)
    ultimately show ?thesis ..
  qed
next
  case (CAsleep m bs)
  then have w: "writing m bs s" by (simp add: writing_def)
  define r where "r = pipe_write False (pb_pipe s) bs m"
  have "s' = after_write r s \<and> (\<forall>n p. r \<noteq> PSleep (n, bs) p)"
    using st CAsleep unfolding child_step_def by (auto simp: r_def split: pipe_result.splits prod.splits if_splits)
  then show ?thesis using after_write_step [OF inv w r_def [symmetric]] by blast
next
qed (use assms in \<open>simp_all add: child_step_def\<close>)

text \<open>A read delivers at least one byte, and the next bytes of the stream.\<close>

lemma read_progress:
  assumes inv: "pb_inv s" and p: "parent s = PReading" "n_read s < WRITE_AMT" and r: "pipe_read False (pb_pipe s) CHUNK_LEN = PDone bs p'"
  shows "bs \<noteq> [] \<and> bs = stream (n_read s) (n_read s + length bs) \<and> n_read s + length bs \<le> pb_put s \<and>
     queue p' = stream (n_read s + length bs) (pb_put s) \<and> pipe_inv p' \<and> same_ends (pb_pipe s) p' \<and> length bs \<le> CHUNK_LEN \<and>
     unat (read_count p') = n_read s + length bs \<and> got s @ bs = stream 0 (n_read s + length bs)"
proof -
  have pi: "pipe_inv (pb_pipe s)" and q: "queue (pb_pipe s) = stream (n_read s) (pb_put s)" "n_read s \<le> pb_put s"
    using inv p by (auto simp: pb_inv_def)
  note R = pipe_read_cases [OF pi, where killed = False and n = CHUNK_LEN, unfolded r]
  have e: "same_ends (pb_pipe s) p'" using pipe_read_ends [where killed = False and p = "pb_pipe s" and n = CHUNK_LEN, unfolded r] by simp
  have b: "bs = take CHUNK_LEN (stream (n_read s) (pb_put s))" "queue p' = drop CHUNK_LEN (stream (n_read s) (pb_put s))" "pipe_inv p'"
    using R q(1) by simp_all
  have "n_read s < pb_put s"
  proof (cases "write_is_open (pb_pipe s)")
    case True
    then have "queue (pb_pipe s) \<noteq> []" using R by simp
    then show ?thesis using q(1) by (simp add: stream_def)
  next
    case False
    then have "\<exists>st. child s = CExit st" using inv by (auto simp: pb_inv_def)
    then have "WRITE_AMT \<le> n_written s" using inv p(1) by (auto simp: pb_inv_def child_ok_def)
    then show ?thesis using p(2) by (simp add: pb_put_def)
  qed
  define l where "l = min CHUNK_LEN (pb_put s - n_read s)"
  have l: "0 < l" "n_read s + l \<le> pb_put s" "l \<le> CHUNK_LEN" using \<open>n_read s < pb_put s\<close> by (auto simp: l_def CHUNK_LEN_def)
  have bl: "bs = stream (n_read s) (n_read s + l)"
  proof (cases "n_read s + CHUNK_LEN \<le> pb_put s")
    case True
    then show ?thesis using b(1) stream_take [OF True] by (simp add: l_def)
  next
    case False
    then show ?thesis using b(1) q(2) by (simp add: l_def)
  qed
  have len: "length bs = l" unfolding bl by simp
  have "queue p' = stream (n_read s + l) (pb_put s)"
    using b(2) unfolding stream_drop by (cases "n_read s + CHUNK_LEN \<le> pb_put s") (simp_all add: l_def stream_def)
  then have "queue p' = stream (n_read s + length bs) (pb_put s)" "bs = stream (n_read s) (n_read s + length bs)" using bl len by simp_all
  moreover from this(2) have "got s @ bs = stream 0 (n_read s + length bs)"
    using inv stream_append [of 0 "n_read s" "n_read s + length bs"] by (simp add: pb_inv_def)
  moreover have "unat (read_count p') = n_read s + length bs" using R inv by (simp add: pb_inv_def)
  ultimately show ?thesis using l len b(3) e by fastforce
qed

lemma put_total:
  assumes "pb_inv s"
  shows "pb_put s \<le> pb_total"
proof (cases "child s")
  case (CAsleep n rest)
  then have "CHUNK_LEN dvd n_written s" "n_written s < WRITE_AMT" "n \<le> CHUNK_LEN" using assms by (auto simp: pb_inv_def child_ok_def)
  then show ?thesis using written_bound [of "n_written s"] CAsleep by (simp add: pb_put_def)
qed (use assms in \<open>auto simp: pb_inv_def child_ok_def pb_put_def\<close>)

lemma parent_step_ok:
  assumes inv: "pb_inv s" and st: "parent_step s = Some s'"
  shows "pb_inv s' \<and> pb_measure s' < pb_measure s"
proof (cases "parent s")
  case PReading
  show ?thesis
  proof (cases "n_read s < WRITE_AMT")
    case False
    then have s': "s' = s\<lparr>parent := PWaiting\<rparr>" using st PReading by (simp add: parent_step_def)
    have "pb_put s' = pb_put s" "child_left s' = child_left s" "child_ok s' = child_ok s"
      by (simp_all add: s' pb_put_def child_left_def child_ok_def PReading split: pb_child.splits)
    then show ?thesis using inv PReading False by (simp add: pb_measure_def) (auto simp: s' pb_inv_def parent_left_def)
  next
    case True
    show ?thesis
    proof (cases "pipe_read False (pb_pipe s) CHUNK_LEN")
      case (PDone bs p')
      note R = read_progress [OF inv PReading True PDone]
      have tot: "n_read s + length bs \<le> pb_total" "0 < length bs" using R put_total [OF inv] by auto
      define s1 where "s1 = s\<lparr>n_read := n_read s + length bs, read_buf := overlay (read_buf s) 0 bs, got := got s @ bs\<rparr>"
      let ?c = "complain ''The byte stream read did not match written stream!'' s1"
      have s1: "child_ok s1 = child_ok s" "pb_put s1 = pb_put s" "child_left s1 = child_left s" "parent s1 = PReading" "child s1 = child s"
        by (simp_all add: s1_def child_ok_def pb_put_def child_left_def PReading split: pb_child.splits)
      have "s' = exit_parent 1 p' ?c \<or> s' = s1\<lparr>pb_pipe := p'\<rparr>"
        using st PReading True PDone by (auto simp: parent_step_def Let_def s1_def split: if_splits)
      then show ?thesis
      proof
        assume s': "s' = exit_parent 1 p' ?c"
        have "child_left s' = child_left s" "parent_left s' = 0" "0 < parent_left s"
          using s1(3) PReading by (simp_all add: s' exit_parent_def child_left_def pb_put_def parent_left_def complain_def split: pb_child.splits)
        moreover have "pb_inv s'"
          using inv R tot(1) s1(1,5) PReading
          by (auto simp: s' pb_inv_def exit_parent_def pipe_close_def child_ok_def pipe_inv_def fill_def same_ends_def s1_def complain_def split: pb_child.splits)
        ultimately show ?thesis by (simp add: pb_measure_def)
      next
        assume s': "s' = s1\<lparr>pb_pipe := p'\<rparr>"
        have "child_left s' = child_left s" "parent_left s' = 2 * (pb_total - (n_read s + length bs)) + 2" "parent_left s = 2 * (pb_total - n_read s) + 2"
          using s1(3,4) PReading by (simp_all add: s' s1_def child_left_def pb_put_def parent_left_def split: pb_child.splits)
        moreover have "pb_put s' = pb_put s" "child_ok s' = child_ok s"
          by (simp_all add: s' s1_def pb_put_def child_ok_def split: pb_child.splits)
        moreover from this have "pb_inv s'"
          using inv R tot(1) s1(4,5) PReading by (auto simp: pb_inv_def) (auto simp: s' s1_def same_ends_def)
        moreover have "pb_total - (n_read s + length bs) < pb_total - n_read s" using tot by linarith
        ultimately show ?thesis by (simp add: pb_measure_def)
      qed
    next
      case (PError p')
      then show ?thesis using pipe_read_cases [where p = "pb_pipe s" and killed = False and n = CHUNK_LEN] inv by (simp add: pb_inv_def)
    next
      case (PSleep u p')
      then show ?thesis using st PReading True by (simp add: parent_step_def)
    next
      case PIllegal
      then show ?thesis using pipe_read_cases [where p = "pb_pipe s" and killed = False and n = CHUNK_LEN] inv by (simp add: pb_inv_def)
    qed
  qed
next
  case PWaiting
  then obtain st where c: "child s = CExit st" and s': "s' = (if st \<noteq> 0 then exit_parent 1 (pb_pipe s) (complain ''Child returned bad exit status'' s) else exit_parent 0 (pb_pipe s) s)"
    using st by (auto simp: parent_step_def split: pb_child.splits)
  then show ?thesis using inv PWaiting
    by (simp add: pb_measure_def) (auto simp: pb_inv_def exit_parent_def pipe_close_def child_ok_def pipe_inv_def fill_def parent_left_def child_left_def complain_def)
qed (use assms in \<open>simp_all add: parent_step_def\<close>)


lemma pb_step_ok: "pb_step s s' \<Longrightarrow> pb_inv s \<Longrightarrow> pb_inv s' \<and> pb_measure s' < pb_measure s"
  by (induction rule: pb_step.induct) (use child_step_ok parent_step_ok in blast)+

lemma pb_init_inv: "length page = 512 \<Longrightarrow> pb_inv (pb_init page buf)"
  by (simp add: pb_inv_def pb_init_def pipe_alloc_def pipe_inv_def fill_def child_ok_def queue_def pb_put_def stream_def)


lemma pb_run: "(pb_step ^^ n) s s' \<Longrightarrow> pb_inv s \<Longrightarrow> pb_inv s' \<and> n + pb_measure s' \<le> pb_measure s"
proof (induction n arbitrary: s')
  case 0
  then show ?case by simp
next
  case (Suc n)
  then obtain t where t: "(pb_step ^^ n) s t" "pb_step t s'" by auto
  then have "pb_inv t" "n + pb_measure t \<le> pb_measure s" using Suc by simp_all
  then show ?case using pb_step_ok [OF t(2)] by auto
qed

definition pb_finished :: "pb_state \<Rightarrow> bool" where
  "pb_finished s \<longleftrightarrow> (\<exists>a b. child s = CExit a \<and> parent s = PExit b)"

text \<open>A child that sleeps finds room as soon as the reader has taken something.\<close>

lemma child_can_step:
  assumes inv: "pb_inv s" and c: "\<nexists>st. child s = CExit st" and room: "fill (pb_pipe s) < 512"
  shows "\<exists>s'. child_step s = Some s'"
proof (cases "child s")
  case CWriting
  then show ?thesis by (cases "n_written s < WRITE_AMT") (simp_all add: child_step_def)
next
  case (CAsleep m bs)
  have pi: "pipe_inv (pb_pipe s)" using inv by (simp add: pb_inv_def)
  have moved: "pipe_write False (pb_pipe s) bs m \<noteq> PSleep (n', bs) p'" for n' p'
  proof
    assume r: "pipe_write False (pb_pipe s) bs m = PSleep (n', bs) p'"
    then have "fill p' = 512" "queue p' = queue (pb_pipe s)"
      using pipe_write_queue [OF pi, where killed = False and bs = bs and n = m, unfolded r] by auto
    then show False using room by (metis length_queue less_irrefl)
  qed
  then show ?thesis using CAsleep moved
    by (cases "pipe_write False (pb_pipe s) bs m") (auto simp: child_step_def split: prod.splits)
next
  case (CExit st)
  then show ?thesis using c by blast
qed (use inv in \<open>simp add: pb_inv_def child_ok_def\<close>)

lemma child_can_fail:
  assumes inv: "pb_inv s" and c: "child s = CAsleep m bs" and p: "\<not> read_is_open (pb_pipe s)"
  shows "\<exists>s'. child_step s = Some s'"
proof -
  have "bs \<noteq> []" using inv c by (auto simp: pb_inv_def child_ok_def)
  then have "pipe_write False (pb_pipe s) bs m = PError (pb_pipe s)" using p by (subst pipe_write.simps) simp
  then show ?thesis using c by (simp add: child_step_def)
qed

lemma pb_progress:
  assumes inv: "pb_inv s" and nf: "\<not> pb_finished s"
  shows "\<exists>s'. pb_step s s'"
proof -
  have child: ?thesis if "\<exists>s'. child_step s = Some s'" using that pb_step.child by blast
  have parent: ?thesis if "\<exists>s'. parent_step s = Some s'" using that pb_step.parent by blast
  have q: "queue (pb_pipe s) = stream (n_read s) (pb_put s)" if "\<nexists>st. parent s = PExit st" using inv that by (simp add: pb_inv_def)
  show ?thesis
  proof (cases "parent s")
    case PReading
    show ?thesis
    proof (cases "n_read s < WRITE_AMT \<and> (\<exists>u p. pipe_read False (pb_pipe s) CHUNK_LEN = PSleep u p)")
      case True
      then obtain u p where r: "pipe_read False (pb_pipe s) CHUNK_LEN = PSleep u p" by blast
      have "queue (pb_pipe s) = []" "write_is_open (pb_pipe s)"
        using pipe_read_cases [where p = "pb_pipe s" and killed = False and n = CHUNK_LEN, unfolded r] inv by (simp_all add: pb_inv_def)
      then have "fill (pb_pipe s) < 512" "\<nexists>st. child s = CExit st" using inv by (auto simp: pb_inv_def simp flip: length_queue)
      then show ?thesis using child child_can_step [OF inv] by blast
    next
      case False
      have "\<exists>s'. parent_step s = Some s'"
      proof (cases "n_read s < WRITE_AMT")
        case True
        then show ?thesis using False PReading
          by (cases "pipe_read False (pb_pipe s) CHUNK_LEN") (auto simp: parent_step_def Let_def)
      qed (simp add: parent_step_def PReading)
      then show ?thesis by (rule parent)
    qed
  next
    case PWaiting
    show ?thesis
    proof (cases "\<exists>st. child s = CExit st")
      case True
      then show ?thesis using PWaiting by (intro parent) (auto simp: parent_step_def)
    next
      case False
      have "pb_put s \<le> pb_total" "WRITE_AMT \<le> n_read s" using put_total [OF inv] inv PWaiting by (simp_all add: pb_inv_def)
      moreover have "fill (pb_pipe s) = pb_put s - n_read s" using q PWaiting by (metis length_queue length_stream pb_parent.simps)
      ultimately have "fill (pb_pipe s) < 512" by (simp add: pb_total_def WRITE_AMT_def CHUNK_LEN_def)
      then show ?thesis using child child_can_step [OF inv False] by blast
    qed
  next
    case (PExit st)
    then have c: "\<nexists>st. child s = CExit st" and ro: "\<not> read_is_open (pb_pipe s)" using nf inv by (auto simp: pb_finished_def pb_inv_def)
    show ?thesis
    proof (cases "child s")
      case CWriting
      then show ?thesis by (intro child) (simp add: child_step_def)
    next
      case (CAsleep m bs)
      then show ?thesis using child child_can_fail [OF inv CAsleep ro] by blast
    next
      case (CExit st)
      then show ?thesis using c by blast
    qed (use inv in \<open>simp add: pb_inv_def child_ok_def\<close>)
  qed (use inv in \<open>simp add: pb_inv_def\<close>)
qed

text \<open>
  C17.  The pipe benchmark always comes to its end, however its two processes are scheduled: no run is longer than a fixed number of steps, and as long as
  one of the two processes has not exited, one of them can go on.  In particular writer and reader are never asleep at the same
  time, and the writer is not left asleep when the reader has read its ten megabytes.
\<close>

theorem pb_finishes:
  assumes "length page = 512" "(pb_step ^^ n) (pb_init page buf) s"
  shows "n \<le> 5 * pb_total + 4 \<and> (pb_finished s \<or> (\<exists>s'. pb_step s s'))"
proof -
  have "pb_inv s" "n \<le> pb_measure (pb_init page buf)" using pb_run [OF assms(2) pb_init_inv [OF assms(1)]] by auto
  moreover have "pb_measure (pb_init page buf) = 5 * pb_total + 4"
    by (simp add: pb_measure_def child_left_def parent_left_def pb_init_def pb_put_def)
  ultimately show ?thesis using pb_progress by auto
qed


subsection \<open>A false alarm\<close>

lemma memcmp_chunk:
  assumes "CHUNK_LEN \<le> length buf"
  shows "memcmp (buf @ chunk) 0 (length buf) (of_nat CHUNK_LEN) = Some 0 \<longleftrightarrow> take CHUNK_LEN buf = chunk"
proof -
  have u: "unat (of_nat CHUNK_LEN :: uint) = CHUNK_LEN" by (simp add: CHUNK_LEN_def)
  obtain d where "memcmp_loop (buf @ chunk) 0 (length buf) CHUNK_LEN = Some d"
      "d = 0 \<longleftrightarrow> segment 0 (0 + CHUNK_LEN) (buf @ chunk) = segment (length buf) (length buf + CHUNK_LEN) (buf @ chunk)"
    using memcmp_loop_segment [of 0 CHUNK_LEN "buf @ chunk" "length buf"] by auto
  then show ?thesis unfolding memcmp_def u using assms by (simp add: segment_def)
qed

definition mismatch :: string where
  "mismatch = ''The byte stream read did not match written stream!''"

lemma parent_reads:
  assumes inv: "pb_inv s" and p: "parent s = PReading" "n_read s < WRITE_AMT" "n_read s < pb_put s" and b: "CHUNK_LEN \<le> length (read_buf s)"
    and l: "l = min CHUNK_LEN (pb_put s - n_read s)" and buf': "buf' = overlay (read_buf s) 0 (stream (n_read s) (n_read s + l))"
  shows "\<exists>p'. pipe_read False (pb_pipe s) CHUNK_LEN = PDone (stream (n_read s) (n_read s + l)) p' \<and>
    parent_step s = Some (let s' = s\<lparr>n_read := n_read s + l, read_buf := buf', got := got s @ stream (n_read s) (n_read s + l)\<rparr>
      in if take CHUNK_LEN buf' \<noteq> chunk then exit_parent 1 p' (complain mismatch s') else s'\<lparr>pb_pipe := p'\<rparr>)"
proof -
  have pi: "pipe_inv (pb_pipe s)" and q: "queue (pb_pipe s) = stream (n_read s) (pb_put s)" using inv p by (auto simp: pb_inv_def)
  have "queue (pb_pipe s) \<noteq> []" using q p(3) by (simp add: stream_def)
  then obtain bs p' where r: "pipe_read False (pb_pipe s) CHUNK_LEN = PDone bs p'" and bs: "bs = take CHUNK_LEN (queue (pb_pipe s))"
    using pipe_read_cases [OF pi, where killed = False and n = CHUNK_LEN] by (cases "pipe_read False (pb_pipe s) CHUNK_LEN") auto
  have len: "length bs = l" using bs q l by simp
  then have bl: "bs = stream (n_read s) (n_read s + l)" using read_progress [OF inv p(1,2) r] by simp
  then have bf: "overlay (read_buf s) 0 bs = buf'" using buf' by simp
  have "l \<le> CHUNK_LEN" using l by simp
  then have "CHUNK_LEN \<le> length buf'" using b by (simp add: buf')
  note mc = memcmp_chunk [OF this]
  have "parent_step s = Some (let s' = s\<lparr>n_read := n_read s + l, read_buf := buf', got := got s @ bs\<rparr>
      in if take CHUNK_LEN buf' \<noteq> chunk then exit_parent 1 p' (complain mismatch s') else s'\<lparr>pb_pipe := p'\<rparr>)"
    using p r len bf mc by (simp add: parent_step_def Let_def mismatch_def)
  then show ?thesis using r unfolding bl by blast
qed

lemma child_writes:
  assumes inv: "pb_inv s" and w: "writing m bs s" and up: "\<nexists>st. parent s = PExit st"
    and room: "pb_put s - n_read s < 512"
  shows "if pb_put s - n_read s + length bs \<le> 512
     then \<exists>p'. child_step s = Some (s\<lparr>pb_pipe := p', n_written := n_written s + CHUNK_LEN, child := CWriting\<rparr>)
     else \<exists>p'. child_step s = Some (s\<lparr>pb_pipe := p',
        child := CAsleep (m + (512 - (pb_put s - n_read s))) (drop (512 - (pb_put s - n_read s)) bs)\<rparr>)"
proof -
  note W = writing_facts [OF inv w]
  define f where "f = pb_put s - n_read s"
  have pi: "pipe_inv (pb_pipe s)" and q: "queue (pb_pipe s) = stream (n_read s) (pb_put s)" and ro: "read_is_open (pb_pipe s)"
    using inv up by (auto simp: pb_inv_def)
  have fl: "length (queue (pb_pipe s)) = f" unfolding q f_def by simp
  define r where "r = pipe_write False (pb_pipe s) bs m"
  note Q = pipe_write_queue [OF pi, where killed = False and bs = bs and n = m, folded r_def]
  have step: "child_step s = Some (after_write r s)" if "\<forall>n p. r \<noteq> PSleep (n, bs) p"
    using w that W(7) unfolding writing_def child_step_def by (auto simp: r_def split: pipe_result.splits prod.splits)
  show ?thesis
  proof (cases r)
    case (PDone n' p')
    have "n' = CHUNK_LEN" "queue p' = queue (pb_pipe s) @ bs" "fill p' \<le> 512" using Q W(2) PDone by (auto simp: pipe_inv_def)
    then have "f + length bs \<le> 512" using fl by (metis length_append length_queue)
    then show ?thesis using step PDone \<open>n' = CHUNK_LEN\<close> unfolding f_def by (auto simp: after_write_def)
  next
    case (PError p')
    then show ?thesis using Q ro by simp
  next
    case PIllegal
    then show ?thesis using Q counters_small [OF inv] by simp
  next
    case (PSleep x p')
    obtain n' rest where x: "x = (n', rest)" by (cases x)
    obtain dn where q': "fill p' = 512" "rest \<noteq> []" "bs = dn @ rest" "queue p' = queue (pb_pipe s) @ dn" "n' = m + length dn"
      using Q PSleep x by auto
    have "f + length dn = 512" using q'(1,4) fl by (metis length_append length_queue)
    moreover have "0 < length rest" "length bs = length dn + length rest" using q'(2,3) by simp_all
    ultimately have dn: "length dn = 512 - f" "f + length bs > 512" by linarith+
    have ne: "dn \<noteq> []" using dn(1) room by (auto simp: f_def)
    have "\<forall>n p. r \<noteq> PSleep (n, bs) p" using PSleep x q'(3) ne by auto
    note st = step [OF this]
    have "rest = drop (512 - f) bs" using q'(3) dn(1) by simp
    then have "after_write r s = s\<lparr>pb_pipe := p', child := CAsleep (m + (512 - f)) (drop (512 - f) bs)\<rparr>"
      using PSleep x q'(5) dn(1) by (simp add: after_write_def)
    then show ?thesis using st dn(2) unfolding f_def by auto
  qed
qed


text \<open>Overwriting the beginning of a buffer.\<close>

lemma overlay_front: "length ys \<le> length xs \<Longrightarrow> overlay xs 0 ys = ys @ drop (length ys) xs"
  by (rule nth_equalityI) (auto simp: nth_overlay nth_append)

lemma chunk_0_2: "chunk ! 0 \<noteq> chunk ! 2"
  by (simp add: chunk_def CHUNK_LEN_def char_of_eq_iff)

text \<open>A state of the run, with the parent reading.\<close>

definition at :: "pb_state \<Rightarrow> pb_child \<Rightarrow> nat \<Rightarrow> nat \<Rightarrow> byte list \<Rightarrow> bool" where
  "at s c nw nr buf \<longleftrightarrow> pb_inv s \<and> child s = c \<and> n_written s = nw \<and> parent s = PReading \<and> n_read s = nr \<and> read_buf s = buf \<and> messages s = []"

lemma at_write:
  assumes a: "at s c nw nr buf" and w: "writing m bs s" and room: "nw + m - nr < 512"
  shows "\<exists>s'. pb_step s s' \<and>
    at s' (if nw + m - nr + length bs \<le> 512 then CWriting else CAsleep (m + (512 - (nw + m - nr))) (drop (512 - (nw + m - nr)) bs))
      (if nw + m - nr + length bs \<le> 512 then nw + CHUNK_LEN else nw) nr buf"
proof -
  have inv: "pb_inv s" using a by (simp add: at_def)
  have put: "pb_put s = nw + m" using writing_facts(1) [OF inv w] a by (simp add: at_def)
  have "\<nexists>st. parent s = PExit st" using a by (simp add: at_def)
  note C = child_writes [OF inv w this, unfolded put]
  have nr: "n_read s = nr" using a by (simp add: at_def)
  obtain s' where s': "child_step s = Some s'" and eq: "child s' = (if nw + m - nr + length bs \<le> 512 then CWriting
        else CAsleep (m + (512 - (nw + m - nr))) (drop (512 - (nw + m - nr)) bs))"
      "n_written s' = (if nw + m - nr + length bs \<le> 512 then nw + CHUNK_LEN else nw)" "parent s' = PReading" "n_read s' = nr" "read_buf s' = buf" "messages s' = []"
    using C a room unfolding nr by (cases "nw + m - nr + length bs \<le> 512") (auto simp: at_def)
  have "pb_step s s'" by (rule pb_step.child [OF s'])
  then show ?thesis using eq pb_step_ok [OF _ inv] by (auto simp: at_def)
qed

lemma at_read:
  assumes a: "at s c nw nr buf" and put: "pb_put s = put" "nr < put" "nr < WRITE_AMT" and b: "CHUNK_LEN \<le> length buf"
    and l: "l = min CHUNK_LEN (put - nr)" and buf': "buf' = stream nr (nr + l) @ drop l buf"
  shows "\<exists>s' p. pb_step s s' \<and> parent_step s = Some s' \<and> pipe_read False (pb_pipe s) CHUNK_LEN = PDone (stream nr (nr + l)) p \<and>
    (if take CHUNK_LEN buf' = chunk then at s' c nw (nr + l) buf'
     else parent s' = PExit 1 \<and> messages s' = [mismatch] \<and> got s' = stream 0 (nr + l) \<and> pb_put s' = put)"
proof -
  have inv: "pb_inv s" using a by (simp add: at_def)
  have "l \<le> length buf" using l b by simp
  then have ov: "overlay (read_buf s) 0 (stream (n_read s) (n_read s + l)) = buf'"
    using overlay_front [of "stream nr (nr + l)" buf] a by (simp add: at_def buf')
  obtain p' where r: "pipe_read False (pb_pipe s) CHUNK_LEN = PDone (stream nr (nr + l)) p'"
    and p': "parent_step s = Some (let s' = s\<lparr>n_read := n_read s + l, read_buf := buf', got := got s @ stream nr (nr + l)\<rparr>
      in if take CHUNK_LEN buf' \<noteq> chunk then exit_parent 1 p' (complain mismatch s') else s'\<lparr>pb_pipe := p'\<rparr>)"
    using parent_reads [OF inv, of l buf'] a put b l ov by (auto simp: at_def)
  then obtain s' where s': "parent_step s = Some s'" by simp
  have "pb_step s s'" by (rule pb_step.parent [OF s'])
  moreover have i': "pb_inv s'" using pb_step_ok [OF \<open>pb_step s s'\<close> inv] by blast
  moreover have "take CHUNK_LEN buf' \<noteq> chunk \<Longrightarrow> pb_put s' = put"
    using p' s' put(1) by (auto simp: exit_parent_def pb_put_def Let_def complain_def split: pb_child.splits)
  moreover have "n_read s' = nr + l" using p' s' a by (auto simp: at_def exit_parent_def Let_def split: if_splits)
  moreover have "got s' = stream 0 (n_read s')" using i' by (simp add: pb_inv_def)
  moreover have "take CHUNK_LEN buf' \<noteq> chunk \<Longrightarrow> parent s' = PExit 1 \<and> messages s' = [mismatch]"
    using p' s' a by (simp add: at_def exit_parent_def Let_def)
  moreover have "take CHUNK_LEN buf' = chunk \<Longrightarrow> at s' c nw (nr + l) buf'"
    using p' s' a i' by (auto simp: at_def Let_def)
  ultimately show ?thesis using s' r by (intro exI [of _ s'] exI [of _ p']) simp
qed

lemma at_read_ok:
  assumes "at s c nw nr buf" and "pb_put s = put" "nr < put" "nr < WRITE_AMT" and "CHUNK_LEN \<le> length buf"
    and "l = min CHUNK_LEN (put - nr)" and "buf' = stream nr (nr + l) @ drop l buf" and "take CHUNK_LEN buf' = chunk"
  shows "\<exists>s'. pb_step s s' \<and> at s' c nw (nr + l) buf'"
  using at_read [OF assms(1-7)] assms(8) by auto

lemma false_alarm_run:
  assumes "length page = 512" and buf: "CHUNK_LEN \<le> length buf"
  shows "\<exists>s t bs p. pb_step\<^sup>*\<^sup>* (pb_init page buf) s \<and> n_read s = 512 \<and>
     pipe_read False (pb_pipe s) CHUNK_LEN = PDone bs p \<and> length bs = 508 \<and> parent_step s = Some t \<and>
     parent t = PExit 1 \<and> messages t = [mismatch] \<and> got t = stream 0 (pb_put t)"
proof -
  let ?s0 = "pb_init page buf" and ?rest = "drop 2 chunk"
  have a0: "at ?s0 CWriting 0 0 buf" using pb_init_inv [OF assms(1), of buf] by (simp add: at_def pb_init_def)
  have W: "510 < WRITE_AMT" "512 < WRITE_AMT" by (simp_all add: WRITE_AMT_def)
  have wr: "writing 0 chunk s" if "at s CWriting nw nr b" "nw < WRITE_AMT" for s nw nr b
    using that by (simp add: writing_def at_def)
  obtain s1 where s1: "pb_step ?s0 s1" "at s1 CWriting 510 0 buf"
    using at_write [OF a0 wr [OF a0]] W by (auto simp: CHUNK_LEN_def)
  obtain s2 where s2: "pb_step s1 s2" "at s2 (CAsleep 2 ?rest) 510 0 buf"
    using at_write [OF s1(2) wr [OF s1(2) W(1)]] by (auto simp: CHUNK_LEN_def numeral_2_eq_2)
  define b3 where "b3 = chunk @ drop CHUNK_LEN buf"
  have st0: "stream 0 510 = chunk" using stream_chunk [of 0] by (simp add: CHUNK_LEN_def)
  have "pb_put s2 = 512" using s2(2) by (simp add: at_def pb_put_def)
  from at_read_ok [OF s2(2) this, of CHUNK_LEN b3] obtain s3 where s3: "pb_step s2 s3" "at s3 (CAsleep 2 ?rest) 510 510 b3"
    using W buf st0 by (auto simp: b3_def CHUNK_LEN_def)
  have "stream 510 512 = take 2 chunk"
    using stream_take [of 510 2 "510 + CHUNK_LEN"] stream_chunk [of 510] by (simp add: CHUNK_LEN_def)
  then have st2: "stream 510 (510 + 2) @ drop 2 b3 = b3" by (simp add: b3_def CHUNK_LEN_def)
  have l3: "CHUNK_LEN \<le> length b3" by (simp add: b3_def)
  have "pb_put s3 = 512" using s3(2) by (simp add: at_def pb_put_def)
  from at_read_ok [OF s3(2) this, of 2 b3] obtain s4 where s4: "pb_step s3 s4" "at s4 (CAsleep 2 ?rest) 510 512 b3"
    using W l3 st2 by (auto simp: CHUNK_LEN_def b3_def)
  have "writing 2 ?rest s4" using s4(2) by (simp add: writing_def at_def)
  from at_write [OF s4(2) this] obtain s5 where s5: "pb_step s4 s5" "at s5 CWriting 1020 512 b3" by (auto simp: CHUNK_LEN_def)
  have "stream 512 1020 = ?rest" using stream_drop [of 2 510 1020] stream_chunk [of 510] by (simp add: CHUNK_LEN_def)
  then have st5: "stream 512 (512 + 508) = ?rest" by simp
  define b6 where "b6 = ?rest @ drop 508 b3"
  have "take CHUNK_LEN b6 ! 0 = chunk ! 2" by (simp add: b6_def CHUNK_LEN_def nth_append)
  then have bad: "take CHUNK_LEN b6 \<noteq> chunk" using chunk_0_2 by metis
  have "pb_put s5 = 1020" using s5(2) by (simp add: at_def pb_put_def)
  have "512 < (1020 :: nat)" "508 = min CHUNK_LEN (1020 - 512)" "b6 = stream 512 (512 + 508) @ drop 508 b3"
    using st5 by (simp_all add: CHUNK_LEN_def b6_def)
  from at_read [OF s5(2) \<open>pb_put s5 = 1020\<close> this(1) W(2) l3 this(2,3)] obtain s6 p where
      s6: "parent_step s5 = Some s6" "pipe_read False (pb_pipe s5) CHUNK_LEN = PDone (stream 512 (512 + 508)) p"
        "parent s6 = PExit 1" "messages s6 = [mismatch]" "got s6 = stream 0 (512 + 508)" "pb_put s6 = 1020"
    using bad by auto
  have "pb_step\<^sup>*\<^sup>* ?s0 s5"
    using s1(1) s2(1) s3(1) s4(1) s5(1)
    by (meson rtranclp.rtrancl_into_rtrancl rtranclp.rtrancl_refl)
  moreover have "n_read s5 = 512" using s5(2) by (simp add: at_def)
  ultimately show ?thesis using s6
    by (intro exI [of _ s5] exI [of _ s6] exI [of _ "stream 512 (512 + 508)"] exI [of _ p]) simp
qed


text \<open>
  C26.  The benchmark can report a mismatch of the stream although the pipe has delivered every byte in order: there is a run in which everything the parent has
  received is exactly everything the child has put into the pipe, \<open>stream 0 (pb_put t)\<close>, the chunk over and over, and the parent, after a short read of 508 bytes that
  starts in the middle of a chunk (at byte 512, the child having filled the pipe), prints its only message, that the streams do not match, and exits with 1: it always compares the whole chunk, whatever \<open>read\<close> has returned.
\<close>

theorem pb_false_alarm:
  assumes "length page = 512" "CHUNK_LEN \<le> length buf"
  shows "\<exists>s t bs p. pb_step\<^sup>*\<^sup>* (pb_init page buf) s \<and> n_read s = 512 \<and>
     pipe_read False (pb_pipe s) CHUNK_LEN = PDone bs p \<and> length bs = 508 \<and> parent_step s = Some t \<and>
     parent t = PExit 1 \<and> messages t = [mismatch] \<and> got t = stream 0 (pb_put t)"
  by (rule false_alarm_run [OF assms])

theorem pb_finishes_witness:
  "\<exists>s. (pb_step ^^ 1) (pb_init (replicate 512 NUL) (replicate 2040 NUL)) s \<and> 1 \<le> 5 * pb_total + 4 \<and> (pb_finished s \<or> (\<exists>s'. pb_step s s'))"
proof -
  let ?s0 = "pb_init (replicate 512 NUL) (replicate 2040 NUL)"
  have "\<exists>s. child_step ?s0 = Some s" by (simp add: child_step_def pb_init_def WRITE_AMT_def)
  then obtain s where "(pb_step ^^ 1) ?s0 s" using pb_step.child by (auto simp: relpowp_Suc_0)
  then show ?thesis using pb_finishes [of "replicate 512 NUL" 1 "replicate 2040 NUL" s] by auto
qed

theorem pb_false_alarm_witness:
  "\<exists>s t. pb_step\<^sup>*\<^sup>* (pb_init (replicate 512 NUL) (replicate 2040 NUL)) s \<and> parent_step s = Some t \<and>
     parent t = PExit 1 \<and> messages t = [mismatch] \<and> got t = stream 0 (pb_put t)"
  using pb_false_alarm [of "replicate 512 NUL" "replicate 2040 NUL"] by (auto simp: CHUNK_LEN_def)

end
