(* ===== verification/Utest.thy ===== *)
theory Utest
  imports Stdio
begin

text \<open>
  Tests of \<^verbatim>\<open>src/user/usertests.c\<close> on plain files: truncation, writing and reading back, unlinking and linking.  Each test is a program over system
  calls with the name of the test as its argument \<open>s\<close>; \<open>buf\<close> is the global buffer, zero when a test starts, since every test
  runs in a process of its own.  Reading more than a buffer holds is a fault.  A loop over input has a bound \<open>fuel\<close> on its rounds.
\<close>

subsection \<open>Common parts\<close>

definition BSIZE :: nat where "BSIZE = 1024"
definition MAXFILE :: nat where "MAXFILE = 12 + 256"
definition MAXOPBLOCKS :: nat where "MAXOPBLOCKS = 10"
definition BUFSZ :: nat where "BUFSZ = (MAXOPBLOCKS + 2) * BSIZE"

type_synonym zfmt = "uint64 \<Rightarrow> string"

definition zero_buf :: mem where "zero_buf = replicate BUFSZ NUL"

abbreviation num :: "int \<Rightarrow> vaarg" where "num n \<equiv> VNum (word_of_int n)"

text \<open>\<open>printf(...); exit(1);\<close>, and the same under a condition.\<close>

definition fail :: "zfmt \<Rightarrow> string \<Rightarrow> vaarg list \<Rightarrow> 'a prog" where
  "fail fmtp fmt args = pbind (printf fmtp fmt args) (\<lambda>_. Exit 1)"

definition fatal :: "zfmt \<Rightarrow> bool \<Rightarrow> string \<Rightarrow> vaarg list \<Rightarrow> 'a prog \<Rightarrow> 'a prog" where
  "fatal fmtp c fmt args p = (if c then fail fmtp fmt args else p)"

definition rd :: "int \<Rightarrow> nat \<Rightarrow> mem \<Rightarrow> (int \<Rightarrow> mem \<Rightarrow> 'a prog) \<Rightarrow> 'a prog" where
  "rd fd n b k =
     (if n \<le> length b
      then Read fd n (\<lambda>r. case r of None \<Rightarrow> k (- 1) b | Some bs \<Rightarrow> k (int (length bs)) (overlay b 0 bs))
      else Crash)"

definition wr :: "int \<Rightarrow> mem \<Rightarrow> nat \<Rightarrow> (int \<Rightarrow> 'a prog) \<Rightarrow> 'a prog" where
  "wr fd b n k = (if n \<le> length b then Call (Write fd (take n b)) k else Crash)"

definition close_open :: "string \<Rightarrow> nat \<Rightarrow> 'a prog \<Rightarrow> 'a prog" where
  "close_open f m p = Call (Open f m) (\<lambda>fd. do_call (Close fd) p)"

fun for_each :: "'i list \<Rightarrow> ('i \<Rightarrow> unit prog) \<Rightarrow> unit prog" where
  "for_each [] body = Ret ()"
| "for_each (i # is) body = pbind (body i) (\<lambda>_. for_each is body)"

text \<open>A loop that stops early when its body yields \<^term>\<open>False\<close>.\<close>

fun while_each :: "'i list \<Rightarrow> ('i \<Rightarrow> bool prog) \<Rightarrow> unit prog" where
  "while_each [] body = Ret ()"
| "while_each (i # is) body = pbind (body i) (\<lambda>more. if more then while_each is body else Ret ())"

text \<open>The character \<open>c + i\<close>, as stored in a \<open>char\<close>.\<close>

definition chr :: "char \<Rightarrow> nat \<Rightarrow> char" where
  "chr c i = char_of (of_char c + i)"

text \<open>A sequence of calls, each followed by a check of its result.\<close>

fun checks :: "zfmt \<Rightarrow> string \<Rightarrow> (icall \<times> (int \<Rightarrow> bool) \<times> string) list \<Rightarrow> unit prog" where
  "checks fmtp s [] = Ret ()"
| "checks fmtp s ((q, bad, msg) # cs) = Call q (\<lambda>r. fatal fmtp (bad r) msg [VStr s] (checks fmtp s cs))"

definition memset_buf :: "char \<Rightarrow> nat \<Rightarrow> mem \<Rightarrow> mem" where
  "memset_buf c n b = overlay b 0 (replicate n c)"

text \<open>\<open>((int*)buf)[0]\<close>.\<close>

definition put_int :: "nat \<Rightarrow> mem \<Rightarrow> mem" where
  "put_int i b = overlay b 0 (map (\<lambda>j. char_of (i div 256 ^ j)) [0..<4])"

definition get_int :: "mem \<Rightarrow> int" where
  "get_int b = sint (word_of_int (\<Sum>j<4. int (of_char (b ! j)) * 256 ^ j) :: uint)"

subsection \<open>Truncation\<close>

definition truncate1 :: "zfmt \<Rightarrow> string \<Rightarrow> unit prog" where
  "truncate1 fmtp s =
     do_call (Unlink ''truncfile'') (
     Call (Open ''truncfile'' (O_CREATE + O_WRONLY + O_TRUNC)) (\<lambda>fd1.
     do_call (Write fd1 ''abcd'') (do_call (Close fd1) (
     Call (Open ''truncfile'' O_RDONLY) (\<lambda>fd2.
     rd fd2 32 (replicate 32 NUL) (\<lambda>n buf.
     fatal fmtp (n \<noteq> 4) ''%s: read %d bytes, wanted 4\<newline>'' [VStr s, num n] (
     Call (Open ''truncfile'' (O_WRONLY + O_TRUNC)) (\<lambda>fd1.
     Call (Open ''truncfile'' O_RDONLY) (\<lambda>fd3.
     rd fd3 32 buf (\<lambda>n buf.
     if n \<noteq> 0 then pbind (printf fmtp ''aaa fd3=%d\<newline>'' [num fd3]) (\<lambda>_. fail fmtp ''%s: read %d bytes, wanted 0\<newline>'' [VStr s, num n])
     else rd fd2 32 buf (\<lambda>n buf.
     if n \<noteq> 0 then pbind (printf fmtp ''bbb fd2=%d\<newline>'' [num fd2]) (\<lambda>_. fail fmtp ''%s: read %d bytes, wanted 0\<newline>'' [VStr s, num n])
     else do_call (Write fd1 ''abcdef'') (
     rd fd3 32 buf (\<lambda>n buf.
     fatal fmtp (n \<noteq> 6) ''%s: read %d bytes, wanted 6\<newline>'' [VStr s, num n] (
     rd fd2 32 buf (\<lambda>n buf.
     fatal fmtp (n \<noteq> 2) ''%s: read %d bytes, wanted 2\<newline>'' [VStr s, num n] (
     do_call (Unlink ''truncfile'') (do_call (Close fd1) (do_call (Close fd2) (do_call (Close fd3) (Ret ()))))))))))))))))))))"

definition truncate2 :: "zfmt \<Rightarrow> string \<Rightarrow> unit prog" where
  "truncate2 fmtp s =
     do_call (Unlink ''truncfile'') (
     Call (Open ''truncfile'' (O_CREATE + O_TRUNC + O_WRONLY)) (\<lambda>fd1.
     do_call (Write fd1 ''abcd'') (
     Call (Open ''truncfile'' (O_TRUNC + O_WRONLY)) (\<lambda>fd2.
     Call (Write fd1 ''x'') (\<lambda>n.
     fatal fmtp (n \<noteq> - 1) ''%s: write returned %d, expected -1\<newline>'' [VStr s, num n] (
     do_call (Unlink ''truncfile'') (do_call (Close fd1) (do_call (Close fd2) (Ret ())))))))))"

definition truncate3_child :: "zfmt \<Rightarrow> string \<Rightarrow> unit prog" where
  "truncate3_child fmtp s = for_each [0..<100] (\<lambda>i.
     Call (Open ''truncfile'' O_WRONLY) (\<lambda>fd.
     fatal fmtp (fd < 0) ''%s: open failed\<newline>'' [VStr s] (
     Call (Write fd ''1234567890'') (\<lambda>n.
     fatal fmtp (n \<noteq> 10) ''%s: write got %d, expected 10\<newline>'' [VStr s, num n] (
     do_call (Close fd) (
     Call (Open ''truncfile'' O_RDONLY) (\<lambda>fd.
     rd fd 32 (replicate 32 NUL) (\<lambda>n buf. do_call (Close fd) (Ret ())))))))))"

definition truncate3 :: "zfmt \<Rightarrow> string \<Rightarrow> unit prog" where
  "truncate3 fmtp s =
     close_open ''truncfile'' (O_CREATE + O_TRUNC + O_WRONLY) (
     Call Fork (\<lambda>pid.
     fatal fmtp (pid < 0) ''%s: fork failed\<newline>'' [VStr s] (
     if pid = 0 then pbind (truncate3_child fmtp s) (\<lambda>_. Exit 0)
     else pbind (for_each [0..<150] (\<lambda>i.
         Call (Open ''truncfile'' (O_CREATE + O_WRONLY + O_TRUNC)) (\<lambda>fd.
         fatal fmtp (fd < 0) ''%s: open failed\<newline>'' [VStr s] (
         Call (Write fd ''xxx'') (\<lambda>n.
         fatal fmtp (n \<noteq> 3) ''%s: write got %d, expected 3\<newline>'' [VStr s, num n] (
         do_call (Close fd) (Ret ()))))))) (\<lambda>_.
       Wait (\<lambda>(_, xstatus). do_call (Unlink ''truncfile'') (Exit xstatus))))))"

subsection \<open>Writing and reading back\<close>

definition opentest :: "zfmt \<Rightarrow> string \<Rightarrow> unit prog" where
  "opentest fmtp s =
     Call (Open ''echo'' 0) (\<lambda>fd.
     fatal fmtp (fd < 0) ''%s: open echo failed!\<newline>'' [VStr s] (
     do_call (Close fd) (
     Call (Open ''doesnotexist'' 0) (\<lambda>fd.
     fatal fmtp (fd \<ge> 0) ''%s: open doesnotexist succeeded!\<newline>'' [VStr s] (Ret ())))))"

definition writetest :: "zfmt \<Rightarrow> string \<Rightarrow> unit prog" where
  "writetest fmtp s =
     Call (Open ''small'' (O_CREATE + O_RDWR)) (\<lambda>fd.
     fatal fmtp (fd < 0) ''%s: error: creat small failed!\<newline>'' [VStr s] (
     pbind (for_each [0..<100] (\<lambda>i.
       Call (Write fd ''aaaaaaaaaa'') (\<lambda>n.
       fatal fmtp (n \<noteq> 10) ''%s: error: write aa %d new file failed\<newline>'' [VStr s, num (int i)] (
       Call (Write fd ''bbbbbbbbbb'') (\<lambda>n.
       fatal fmtp (n \<noteq> 10) ''%s: error: write bb %d new file failed\<newline>'' [VStr s, num (int i)] (Ret ())))))) (\<lambda>_.
     do_call (Close fd) (
     Call (Open ''small'' O_RDONLY) (\<lambda>fd.
     fatal fmtp (fd < 0) ''%s: error: open small failed!\<newline>'' [VStr s] (
     rd fd (100 * 10 * 2) zero_buf (\<lambda>i buf.
     fatal fmtp (i \<noteq> 100 * 10 * 2) ''%s: read failed\<newline>'' [VStr s] (
     do_call (Close fd) (
     Call (Unlink ''small'') (\<lambda>r.
     fatal fmtp (r < 0) ''%s: unlink small failed\<newline>'' [VStr s] (Ret ()))))))))))) "

fun writebig_write :: "zfmt \<Rightarrow> string \<Rightarrow> int \<Rightarrow> nat list \<Rightarrow> mem \<Rightarrow> mem prog" where
  "writebig_write fmtp s fd [] buf = Ret buf"
| "writebig_write fmtp s fd (i # is) buf =
     (let buf = put_int i buf
      in wr fd buf BSIZE (\<lambda>n.
         fatal fmtp (n \<noteq> int BSIZE) ''%s: error: write big file failed\<newline>'' [VStr s, num (int i)] (
         writebig_write fmtp s fd is buf)))"

fun writebig_read :: "nat \<Rightarrow> zfmt \<Rightarrow> string \<Rightarrow> int \<Rightarrow> int \<Rightarrow> mem \<Rightarrow> unit prog" where
  "writebig_read 0 fmtp s fd n buf = OutOfFuel"
| "writebig_read (Suc fuel) fmtp s fd n buf =
     rd fd BSIZE buf (\<lambda>i buf.
       if i = 0 then fatal fmtp (n = int MAXFILE - 1) ''%s: read only %d blocks from big'' [VStr s, num n] (Ret ())
       else fatal fmtp (i \<noteq> int BSIZE) ''%s: read failed %d\<newline>'' [VStr s, num i] (
         fatal fmtp (get_int buf \<noteq> n) ''%s: read content of block %d is %d\<newline>'' [VStr s, num n, num (get_int buf)] (
         writebig_read fuel fmtp s fd (n + 1) buf)))"

definition writebig :: "nat \<Rightarrow> zfmt \<Rightarrow> string \<Rightarrow> unit prog" where
  "writebig fuel fmtp s =
     Call (Open ''big'' (O_CREATE + O_RDWR)) (\<lambda>fd.
     fatal fmtp (fd < 0) ''%s: error: creat big failed!\<newline>'' [VStr s] (
     pbind (writebig_write fmtp s fd [0..<MAXFILE] zero_buf) (\<lambda>buf.
     do_call (Close fd) (
     Call (Open ''big'' O_RDONLY) (\<lambda>fd.
     fatal fmtp (fd < 0) ''%s: error: open big failed!\<newline>'' [VStr s] (
     pbind (writebig_read fuel fmtp s fd 0 buf) (\<lambda>_.
     do_call (Close fd) (
     Call (Unlink ''big'') (\<lambda>r.
     fatal fmtp (r < 0) ''%s: unlink big failed\<newline>'' [VStr s] (Ret ()))))))))))"

definition createtest :: "zfmt \<Rightarrow> string \<Rightarrow> unit prog" where
  "createtest fmtp s =
     pbind (for_each [0..<52] (\<lambda>i. close_open [CHR ''a'', chr (CHR ''0'') i] (O_CREATE + O_RDWR) (Ret ()))) (\<lambda>_.
     for_each [0..<52] (\<lambda>i. do_call (Unlink [CHR ''a'', chr (CHR ''0'') i]) (Ret ())))"

subsection \<open>Shared files\<close>

fun sharedfd_count :: "nat \<Rightarrow> int \<Rightarrow> mem \<Rightarrow> nat \<times> nat \<Rightarrow> (nat \<times> nat) prog" where
  "sharedfd_count 0 fd buf (nc, np) = OutOfFuel"
| "sharedfd_count (Suc fuel) fd buf (nc, np) =
     rd fd 10 buf (\<lambda>n buf.
       if n > 0 then sharedfd_count fuel fd buf (nc + count_list buf (CHR ''c''), np + count_list buf (CHR ''p''))
       else Ret (nc, np))"

definition sharedfd :: "nat \<Rightarrow> zfmt \<Rightarrow> string \<Rightarrow> unit prog" where
  "sharedfd fuel fmtp s =
     do_call (Unlink ''sharedfd'') (
     Call (Open ''sharedfd'' (O_CREATE + O_RDWR)) (\<lambda>fd.
     fatal fmtp (fd < 0) ''%s: cannot open sharedfd for writing'' [VStr s] (
     Call Fork (\<lambda>pid.
     let buf = replicate 10 (if pid = 0 then CHR ''c'' else CHR ''p'') in
     pbind (for_each [0..<1000] (\<lambda>i.
       wr fd buf 10 (\<lambda>n. fatal fmtp (n \<noteq> 10) ''%s: write sharedfd failed\<newline>'' [VStr s] (Ret ())))) (\<lambda>_.
     if pid = 0 then Exit 0
     else Wait (\<lambda>(_, xstatus).
     if xstatus \<noteq> 0 then Exit xstatus
     else do_call (Close fd) (
     Call (Open ''sharedfd'' 0) (\<lambda>fd.
     fatal fmtp (fd < 0) ''%s: cannot open sharedfd for reading\<newline>'' [VStr s] (
     pbind (sharedfd_count fuel fd buf (0, 0)) (\<lambda>(nc, np).
     do_call (Close fd) (do_call (Unlink ''sharedfd'') (
     if nc = 1000 * 10 \<and> np = 1000 * 10 then Exit 0
     else fail fmtp ''%s: nc/np test fails\<newline>'' [VStr s]))))))))))))"

definition fourfiles_child :: "zfmt \<Rightarrow> string \<Rightarrow> string \<Rightarrow> nat \<Rightarrow> unit prog" where
  "fourfiles_child fmtp s fname i =
     Call (Open fname (O_CREATE + O_RDWR)) (\<lambda>fd.
     fatal fmtp (fd < 0) ''create failed\<newline>'' [VStr s] (
     pbind (for_each [0..<12] (\<lambda>_.
       wr fd (memset_buf (chr (CHR ''0'') i) 500 zero_buf) 500 (\<lambda>n.
       fatal fmtp (n \<noteq> 500) ''write failed %d\<newline>'' [num n] (Ret ())))) (\<lambda>_.
     Exit 0)))"

fun fourfiles_read :: "nat \<Rightarrow> zfmt \<Rightarrow> string \<Rightarrow> nat \<Rightarrow> int \<Rightarrow> mem \<Rightarrow> int \<Rightarrow> (int \<times> mem) prog" where
  "fourfiles_read 0 fmtp s i fd buf tot = OutOfFuel"
| "fourfiles_read (Suc fuel) fmtp s i fd buf tot =
     rd fd BUFSZ buf (\<lambda>n buf.
       if n > 0 then
         fatal fmtp (\<exists>c \<in> set (take (nat n) buf). c \<noteq> chr (CHR ''0'') i) ''wrong char\<newline>'' [VStr s] (
         fourfiles_read fuel fmtp s i fd buf (tot + n))
       else Ret (tot, buf))"

fun fourfiles_verify :: "nat \<Rightarrow> zfmt \<Rightarrow> string \<Rightarrow> nat list \<Rightarrow> mem \<Rightarrow> unit prog" where
  "fourfiles_verify fuel fmtp s [] buf = Ret ()"
| "fourfiles_verify fuel fmtp s (i # is) buf =
     (let fname = [CHR ''f'', chr (CHR ''0'') i]
      in Call (Open fname 0) (\<lambda>fd.
         pbind (fourfiles_read fuel fmtp s i fd buf 0) (\<lambda>(tot, buf).
         do_call (Close fd) (
         fatal fmtp (tot \<noteq> 12 * 500) ''wrong length %d\<newline>'' [num tot] (
         do_call (Unlink fname) (fourfiles_verify fuel fmtp s is buf))))))"

definition fourfiles :: "nat \<Rightarrow> zfmt \<Rightarrow> string \<Rightarrow> unit prog" where
  "fourfiles fuel fmtp s =
     pbind (for_each [0..<4] (\<lambda>i.
       let fname = [CHR ''f'', chr (CHR ''0'') i]
       in do_call (Unlink fname) (
          Call Fork (\<lambda>pid.
          fatal fmtp (pid < 0) ''fork failed\<newline>'' [VStr s] (
          if pid = 0 then fourfiles_child fmtp s fname i else Ret ()))))) (\<lambda>_.
     pbind (for_each [0..<4] (\<lambda>_. Wait (\<lambda>(_, xstatus). if xstatus \<noteq> 0 then Exit xstatus else Ret ()))) (\<lambda>_.
     fourfiles_verify fuel fmtp s [0..<4] zero_buf))"

definition createdelete_child :: "zfmt \<Rightarrow> string \<Rightarrow> nat \<Rightarrow> unit prog" where
  "createdelete_child fmtp s pi =
     pbind (for_each [0..<20] (\<lambda>i.
       Call (Open [chr (CHR ''p'') pi, chr (CHR ''0'') i] (O_CREATE + O_RDWR)) (\<lambda>fd.
       fatal fmtp (fd < 0) ''%s: create failed\<newline>'' [VStr s] (
       do_call (Close fd) (
       if i > 0 \<and> i mod 2 = 0
       then Call (Unlink [chr (CHR ''p'') pi, chr (CHR ''0'') (i div 2)]) (\<lambda>r.
            fatal fmtp (r < 0) ''%s: unlink failed\<newline>'' [VStr s] (Ret ()))
       else Ret ()))))) (\<lambda>_. Exit 0)"

definition createdelete :: "zfmt \<Rightarrow> string \<Rightarrow> unit prog" where
  "createdelete fmtp s =
     pbind (for_each [0..<4] (\<lambda>pi.
       Call Fork (\<lambda>pid.
       fatal fmtp (pid < 0) ''fork failed\<newline>'' [VStr s] (
       if pid = 0 then createdelete_child fmtp s pi else Ret ())))) (\<lambda>_.
     pbind (for_each [0..<4] (\<lambda>_. Wait (\<lambda>(_, xstatus). if xstatus \<noteq> 0 then Exit 1 else Ret ()))) (\<lambda>_.
     pbind (for_each (List.product [0..<20] [0..<4]) (\<lambda>(i, pi).
       let name = [chr (CHR ''p'') pi, chr (CHR ''0'') i]
       in Call (Open name 0) (\<lambda>fd.
          fatal fmtp ((i = 0 \<or> i \<ge> 20 div 2) \<and> fd < 0) ''%s: oops createdelete %s didn't exist\<newline>'' [VStr s, VStr name] (
          fatal fmtp ((i \<ge> 1 \<and> i < 20 div 2) \<and> fd \<ge> 0) ''%s: oops createdelete %s did exist\<newline>'' [VStr s, VStr name] (
          if fd \<ge> 0 then do_call (Close fd) (Ret ()) else Ret ()))))) (\<lambda>_.
     for_each (List.product [0..<20] [0..<4]) (\<lambda>(i, pi).
       do_call (Unlink [chr (CHR ''p'') i, chr (CHR ''0'') i]) (Ret ())))))"

subsection \<open>Links\<close>

definition unlinkread :: "zfmt \<Rightarrow> string \<Rightarrow> unit prog" where
  "unlinkread fmtp s =
     Call (Open ''unlinkread'' (O_CREATE + O_RDWR)) (\<lambda>fd.
     fatal fmtp (fd < 0) ''%s: create unlinkread failed\<newline>'' [VStr s] (
     do_call (Write fd ''hello'') (do_call (Close fd) (
     Call (Open ''unlinkread'' O_RDWR) (\<lambda>fd.
     fatal fmtp (fd < 0) ''%s: open unlinkread failed\<newline>'' [VStr s] (
     Call (Unlink ''unlinkread'') (\<lambda>r.
     fatal fmtp (r \<noteq> 0) ''%s: unlink unlinkread failed\<newline>'' [VStr s] (
     Call (Open ''unlinkread'' (O_CREATE + O_RDWR)) (\<lambda>fd1.
     do_call (Write fd1 ''yyy'') (do_call (Close fd1) (
     rd fd BUFSZ zero_buf (\<lambda>n buf.
     fatal fmtp (n \<noteq> 5) ''%s: unlinkread read failed'' [VStr s] (
     fatal fmtp (buf ! 0 \<noteq> CHR ''h'') ''%s: unlinkread wrong data\<newline>'' [VStr s] (
     wr fd buf 10 (\<lambda>n.
     fatal fmtp (n \<noteq> 10) ''%s: unlinkread write failed\<newline>'' [VStr s] (
     do_call (Close fd) (do_call (Unlink ''unlinkread'') (Ret ()))))))))))))))))))"

definition linktest :: "zfmt \<Rightarrow> string \<Rightarrow> unit prog" where
  "linktest fmtp s =
     do_call (Unlink ''lf1'') (do_call (Unlink ''lf2'') (
     Call (Open ''lf1'' (O_CREATE + O_RDWR)) (\<lambda>fd.
     fatal fmtp (fd < 0) ''%s: create lf1 failed\<newline>'' [VStr s] (
     Call (Write fd ''hello'') (\<lambda>n.
     fatal fmtp (n \<noteq> 5) ''%s: write lf1 failed\<newline>'' [VStr s] (
     do_call (Close fd) (
     Call (Link ''lf1'' ''lf2'') (\<lambda>r.
     fatal fmtp (r < 0) ''%s: link lf1 lf2 failed\<newline>'' [VStr s] (
     do_call (Unlink ''lf1'') (
     Call (Open ''lf1'' 0) (\<lambda>r.
     fatal fmtp (r \<ge> 0) ''%s: unlinked lf1 but it is still there!\<newline>'' [VStr s] (
     Call (Open ''lf2'' 0) (\<lambda>fd.
     fatal fmtp (fd < 0) ''%s: open lf2 failed\<newline>'' [VStr s] (
     rd fd BUFSZ zero_buf (\<lambda>n buf.
     fatal fmtp (n \<noteq> 5) ''%s: read lf2 failed\<newline>'' [VStr s] (
     do_call (Close fd) (
     Call (Link ''lf2'' ''lf2'') (\<lambda>r.
     fatal fmtp (r \<ge> 0) ''%s: link lf2 lf2 succeeded! oops\<newline>'' [VStr s] (
     do_call (Unlink ''lf2'') (
     checks fmtp s [
       (Link ''lf2'' ''lf1'', \<lambda>r. r \<ge> 0, ''%s: link non-existent succeeded! oops\<newline>''),
       (Link ''.'' ''lf1'', \<lambda>r. r \<ge> 0, ''%s: link . lf1 succeeded! oops\<newline>'')]))))))))))))))))))))"

definition linkunlink_step :: "uint \<Rightarrow> uint" where
  "linkunlink_step x = x * 1103515245 + 12345"

fun linkunlink_loop :: "nat \<Rightarrow> uint \<Rightarrow> unit prog" where
  "linkunlink_loop 0 x = Ret ()"
| "linkunlink_loop (Suc n) x =
     (let x = linkunlink_step x
      in if x mod 3 = 0 then close_open ''x'' (O_RDWR + O_CREATE) (linkunlink_loop n x)
         else if x mod 3 = 1 then do_call (Link ''cat'' ''x'') (linkunlink_loop n x)
         else do_call (Unlink ''x'') (linkunlink_loop n x))"

definition linkunlink :: "zfmt \<Rightarrow> string \<Rightarrow> unit prog" where
  "linkunlink fmtp s =
     do_call (Unlink ''x'') (
     Call Fork (\<lambda>pid.
     fatal fmtp (pid < 0) ''%s: fork failed\<newline>'' [VStr s] (
     pbind (linkunlink_loop 100 (if pid \<noteq> 0 then 1 else 97)) (\<lambda>_.
     if pid \<noteq> 0 then Wait (\<lambda>_. Ret ()) else Exit 0))))"

subsection \<open>Large writes\<close>

definition bigwrite :: "zfmt \<Rightarrow> string \<Rightarrow> unit prog" where
  "bigwrite fmtp s =
     do_call (Unlink ''bigwrite'') (
     for_each (filter (\<lambda>sz. sz < BUFSZ) (map (\<lambda>k. 499 + 471 * k) [0..<BUFSZ])) (\<lambda>sz.
       Call (Open ''bigwrite'' (O_CREATE + O_RDWR)) (\<lambda>fd.
       fatal fmtp (fd < 0) ''%s: cannot create bigwrite\<newline>'' [VStr s] (
       pbind (for_each [0..<2 :: nat] (\<lambda>_.
         wr fd zero_buf sz (\<lambda>cc.
         fatal fmtp (cc \<noteq> int sz) ''%s: write(%d) ret %d\<newline>'' [VStr s, num (int sz), num cc] (Ret ())))) (\<lambda>_.
       do_call (Close fd) (do_call (Unlink ''bigwrite'') (Ret ())))))))"

fun bigfile_write :: "zfmt \<Rightarrow> string \<Rightarrow> int \<Rightarrow> nat list \<Rightarrow> mem \<Rightarrow> mem prog" where
  "bigfile_write fmtp s fd [] buf = Ret buf"
| "bigfile_write fmtp s fd (i # is) buf =
     (let buf = memset_buf (char_of i) 600 buf
      in wr fd buf 600 (\<lambda>n.
         fatal fmtp (n \<noteq> 600) ''%s: write bigfile failed\<newline>'' [VStr s] (
         bigfile_write fmtp s fd is buf)))"

fun bigfile_read :: "nat \<Rightarrow> zfmt \<Rightarrow> string \<Rightarrow> int \<Rightarrow> nat \<Rightarrow> mem \<Rightarrow> int \<Rightarrow> int prog" where
  "bigfile_read 0 fmtp s fd i buf tot = OutOfFuel"
| "bigfile_read (Suc fuel) fmtp s fd i buf tot =
     rd fd 300 buf (\<lambda>cc buf.
       fatal fmtp (cc < 0) ''%s: read bigfile failed\<newline>'' [VStr s] (
       if cc = 0 then Ret tot
       else fatal fmtp (cc \<noteq> 300) ''%s: short read bigfile\<newline>'' [VStr s] (
         fatal fmtp (of_char (buf ! 0) \<noteq> i div 2 \<or> of_char (buf ! 299) \<noteq> i div 2)
           ''%s: read bigfile wrong data\<newline>'' [VStr s] (
         bigfile_read fuel fmtp s fd (i + 1) buf (tot + cc)))))"

definition bigfile :: "nat \<Rightarrow> zfmt \<Rightarrow> string \<Rightarrow> unit prog" where
  "bigfile fuel fmtp s =
     do_call (Unlink ''bigfile.dat'') (
     Call (Open ''bigfile.dat'' (O_CREATE + O_RDWR)) (\<lambda>fd.
     fatal fmtp (fd < 0) ''%s: cannot create bigfile'' [VStr s] (
     pbind (bigfile_write fmtp s fd [0..<20] zero_buf) (\<lambda>buf.
     do_call (Close fd) (
     Call (Open ''bigfile.dat'' 0) (\<lambda>fd.
     fatal fmtp (fd < 0) ''%s: cannot open bigfile\<newline>'' [VStr s] (
     pbind (bigfile_read fuel fmtp s fd 0 buf 0) (\<lambda>tot.
     do_call (Close fd) (
     fatal fmtp (tot \<noteq> 20 * 600) ''%s: read bigfile wrong total\<newline>'' [VStr s] (
     do_call (Unlink ''bigfile.dat'') (Ret ())))))))))))"

definition manywrites_child :: "zfmt \<Rightarrow> string \<Rightarrow> nat \<Rightarrow> unit prog" where
  "manywrites_child fmtp s ci =
     (let name = [CHR ''b'', chr (CHR ''a'') ci]
      in do_call (Unlink name) (
         pbind (for_each [0..<30 :: nat] (\<lambda>_.
           pbind (for_each [0..<ci + 1] (\<lambda>_.
             Call (Open name (O_CREATE + O_RDWR)) (\<lambda>fd.
             fatal fmtp (fd < 0) ''%s: cannot create %s\<newline>'' [VStr s, VStr name] (
             wr fd zero_buf BUFSZ (\<lambda>cc.
             fatal fmtp (cc \<noteq> int BUFSZ) ''%s: write(%d) ret %d\<newline>'' [VStr s, num (int BUFSZ), num cc] (
             do_call (Close fd) (Ret ()))))))) (\<lambda>_.
           do_call (Unlink name) (Ret ())))) (\<lambda>_.
         do_call (Unlink name) (Exit 0))))"

definition manywrites :: "zfmt \<Rightarrow> string \<Rightarrow> unit prog" where
  "manywrites fmtp s =
     pbind (for_each [0..<4] (\<lambda>ci.
       Call Fork (\<lambda>pid.
       fatal fmtp (pid < 0) ''fork failed\<newline>'' [] (
       if pid = 0 then manywrites_child fmtp s ci else Ret ())))) (\<lambda>_.
     pbind (for_each [0..<4 :: nat] (\<lambda>_. Wait (\<lambda>(_, st). if st \<noteq> 0 then Exit st else Ret ()))) (\<lambda>_.
     Exit 0))"

subsection \<open>A full disk\<close>

definition numbered :: "char \<Rightarrow> nat \<Rightarrow> string" where
  "numbered c n = [c, chr (CHR ''0'') (n div 1000), chr (CHR ''0'') (n mod 1000 div 100),
     chr (CHR ''0'') (n mod 100 div 10), chr (CHR ''0'') (n mod 10)]"

fun fsfull_write :: "nat \<Rightarrow> int \<Rightarrow> int \<Rightarrow> int prog" where
  "fsfull_write 0 fd tot = OutOfFuel"
| "fsfull_write (Suc fuel) fd tot =
     wr fd zero_buf BSIZE (\<lambda>cc. if cc < int BSIZE then Ret tot else fsfull_write fuel fd (tot + cc))"

fun fsfull_fill :: "nat \<Rightarrow> zfmt \<Rightarrow> nat \<Rightarrow> nat prog" where
  "fsfull_fill 0 fmtp nfiles = OutOfFuel"
| "fsfull_fill (Suc fuel) fmtp nfiles =
     (let name = numbered (CHR ''f'') nfiles
      in pbind (printf fmtp ''writing %s\<newline>'' [VStr name]) (\<lambda>_.
         Call (Open name (O_CREATE + O_RDWR)) (\<lambda>fd.
         if fd < 0 then pbind (printf fmtp ''open %s failed\<newline>'' [VStr name]) (\<lambda>_. Ret nfiles)
         else pbind (fsfull_write fuel fd 0) (\<lambda>tot.
              pbind (printf fmtp ''wrote %d bytes\<newline>'' [num tot]) (\<lambda>_.
              do_call (Close fd) (if tot = 0 then Ret nfiles else fsfull_fill fuel fmtp (nfiles + 1)))))))"

definition fsfull :: "nat \<Rightarrow> zfmt \<Rightarrow> unit prog" where
  "fsfull fuel fmtp =
     pbind (printf fmtp ''fsfull test\<newline>'' []) (\<lambda>_.
     pbind (fsfull_fill fuel fmtp 0) (\<lambda>nfiles.
     pbind (for_each (rev [0..<nfiles + 1]) (\<lambda>n. do_call (Unlink (numbered (CHR ''f'') n)) (Ret ()))) (\<lambda>_.
     printf fmtp ''fsfull test finished\<newline>'' [])))"

text \<open>The content of the uninitialised block that \<open>diskfull\<close> writes is the argument \<open>blk\<close>.  After a failed write the descriptor is closed twice.\<close>

definition zz_name :: "nat \<Rightarrow> string" where
  "zz_name i = ''zz'' @ [chr (CHR ''0'') (i div 32), chr (CHR ''0'') (i mod 32)]"

definition big_name :: "nat \<Rightarrow> string" where
  "big_name i = ''big'' @ [chr (CHR ''0'') i]"

fun diskfull_file :: "nat \<Rightarrow> mem \<Rightarrow> int \<Rightarrow> bool prog" where
  "diskfull_file 0 blk fd = do_call (Close fd) (Ret False)"
| "diskfull_file (Suc n) blk fd =
     wr fd blk BSIZE (\<lambda>r.
       if r \<noteq> int BSIZE then do_call (Close fd) (do_call (Close fd) (Ret True)) else diskfull_file n blk fd)"

fun diskfull_fill :: "nat \<Rightarrow> zfmt \<Rightarrow> string \<Rightarrow> mem \<Rightarrow> nat \<Rightarrow> nat prog" where
  "diskfull_fill 0 fmtp s blk fi = OutOfFuel"
| "diskfull_fill (Suc fuel) fmtp s blk fi =
     do_call (Unlink (big_name fi)) (
     Call (Open (big_name fi) (O_CREATE + O_RDWR + O_TRUNC)) (\<lambda>fd.
     if fd < 0 then pbind (printf fmtp ''%s: could not create file %s\<newline>'' [VStr s, VStr (big_name fi)]) (\<lambda>_. Ret fi)
     else pbind (diskfull_file MAXFILE blk fd) (\<lambda>full.
          if full then Ret (fi + 1) else diskfull_fill fuel fmtp s blk (fi + 1))))"

definition create_zz :: "nat \<Rightarrow> unit prog" where
  "create_zz nzz = while_each [0..<nzz] (\<lambda>i.
     do_call (Unlink (zz_name i)) (
     Call (Open (zz_name i) (O_CREATE + O_RDWR + O_TRUNC)) (\<lambda>fd.
     if fd < 0 then Ret False else do_call (Close fd) (Ret True))))"

definition unlink_all :: "(nat \<Rightarrow> string) \<Rightarrow> nat \<Rightarrow> unit prog" where
  "unlink_all name n = for_each [0..<n] (\<lambda>i. do_call (Unlink (name i)) (Ret ()))"

definition diskfull :: "nat \<Rightarrow> mem \<Rightarrow> zfmt \<Rightarrow> string \<Rightarrow> unit prog" where
  "diskfull fuel blk fmtp s =
     do_call (Unlink ''diskfulldir'') (
     pbind (diskfull_fill fuel fmtp s blk 0) (\<lambda>fi.
     pbind (create_zz 128) (\<lambda>_.
     Call (Mkdir ''diskfulldir'') (\<lambda>r.
     pbind (if r = 0 then printf fmtp ''%s: mkdir(diskfulldir) unexpectedly succeeded!\<newline>'' [] else Ret ()) (\<lambda>_.
     do_call (Unlink ''diskfulldir'') (
     pbind (unlink_all zz_name 128) (\<lambda>_.
     unlink_all big_name fi)))))))"

definition outofinodes :: "zfmt \<Rightarrow> string \<Rightarrow> unit prog" where
  "outofinodes fmtp s = pbind (create_zz (32 * 32)) (\<lambda>_. unlink_all zz_name (32 * 32))"

definition xname :: "nat \<Rightarrow> string" where
  "xname i = [CHR ''x'', chr (CHR ''0'') (i div 64), chr (CHR ''0'') (i mod 64)]"

definition bigdir :: "zfmt \<Rightarrow> string \<Rightarrow> unit prog" where
  "bigdir fmtp s =
     do_call (Unlink ''bd'') (
     Call (Open ''bd'' O_CREATE) (\<lambda>fd.
     fatal fmtp (fd < 0) ''%s: bigdir create failed\<newline>'' [VStr s] (
     do_call (Close fd) (
     pbind (for_each [0..<500] (\<lambda>i.
       Call (Link ''bd'' (xname i)) (\<lambda>r.
       fatal fmtp (r \<noteq> 0) ''%s: bigdir link(bd, %s) failed\<newline>'' [VStr s, VStr (xname i)] (Ret ())))) (\<lambda>_.
     do_call (Unlink ''bd'') (
     for_each [0..<500] (\<lambda>i.
       Call (Unlink (xname i)) (\<lambda>r.
       fatal fmtp (r \<noteq> 0) ''%s: bigdir unlink failed'' [VStr s] (Ret ())))))))))"

end
