(* ===== verification/Utdir.thy ===== *)
theory Utdir
  imports Utest
begin

text \<open>
  Tests of \<^verbatim>\<open>src/user/usertests.c\<close> on directories and path names.
\<close>

subsection \<open>Working directories\<close>

definition iputtest :: "zfmt \<Rightarrow> string \<Rightarrow> unit prog" where
  "iputtest fmtp s = checks fmtp s [
     (Mkdir ''iputdir'', \<lambda>r. r < 0, ''%s: mkdir failed\<newline>''),
     (Chdir ''iputdir'', \<lambda>r. r < 0, ''%s: chdir iputdir failed\<newline>''),
     (Unlink ''../iputdir'', \<lambda>r. r < 0, ''%s: unlink ../iputdir failed\<newline>''),
     (Chdir ''/'', \<lambda>r. r < 0, ''%s: chdir / failed\<newline>'')]"

definition exitiputtest :: "zfmt \<Rightarrow> string \<Rightarrow> unit prog" where
  "exitiputtest fmtp s =
     Call Fork (\<lambda>pid.
     fatal fmtp (pid < 0) ''%s: fork failed\<newline>'' [VStr s] (
     if pid = 0 then
       pbind (checks fmtp s [
         (Mkdir ''iputdir'', \<lambda>r. r < 0, ''%s: mkdir failed\<newline>''),
         (Chdir ''iputdir'', \<lambda>r. r < 0, ''%s: child chdir failed\<newline>''),
         (Unlink ''../iputdir'', \<lambda>r. r < 0, ''%s: unlink ../iputdir failed\<newline>'')]) (\<lambda>_. Exit 0)
     else Wait (\<lambda>(_, xstatus). Exit xstatus)))"

definition openiputtest :: "zfmt \<Rightarrow> string \<Rightarrow> unit prog" where
  "openiputtest fmtp s =
     Call (Mkdir ''oidir'') (\<lambda>r.
     fatal fmtp (r < 0) ''%s: mkdir oidir failed\<newline>'' [VStr s] (
     Call Fork (\<lambda>pid.
     fatal fmtp (pid < 0) ''%s: fork failed\<newline>'' [VStr s] (
     if pid = 0 then
       Call (Open ''oidir'' O_RDWR) (\<lambda>fd.
       fatal fmtp (fd \<ge> 0) ''%s: open directory for write succeeded\<newline>'' [VStr s] (Exit 0))
     else do_call (Sleep 1) (
       Call (Unlink ''oidir'') (\<lambda>r.
       fatal fmtp (r \<noteq> 0) ''%s: unlink failed\<newline>'' [VStr s] (
       Wait (\<lambda>(_, xstatus). Exit xstatus))))))))"

definition dirtest :: "zfmt \<Rightarrow> string \<Rightarrow> unit prog" where
  "dirtest fmtp s = checks fmtp s [
     (Mkdir ''dir0'', \<lambda>r. r < 0, ''%s: mkdir failed\<newline>''),
     (Chdir ''dir0'', \<lambda>r. r < 0, ''%s: chdir dir0 failed\<newline>''),
     (Chdir ''..'', \<lambda>r. r < 0, ''%s: chdir .. failed\<newline>''),
     (Unlink ''dir0'', \<lambda>r. r < 0, ''%s: unlink dir0 failed\<newline>'')]"

subsection \<open>Paths\<close>

text \<open>\<open>fd = open(..); if(fd < 0) fail; write(fd, t, n); close(fd)\<close>.\<close>

definition create_with :: "zfmt \<Rightarrow> string \<Rightarrow> string \<Rightarrow> string \<Rightarrow> string \<Rightarrow> unit prog" where
  "create_with fmtp s f t msg =
     Call (Open f (O_CREATE + O_RDWR)) (\<lambda>fd.
     fatal fmtp (fd < 0) msg [VStr s] (
     do_call (Write fd t) (do_call (Close fd) (Ret ()))))"

definition subdir_make :: "zfmt \<Rightarrow> string \<Rightarrow> unit prog" where
  "subdir_make fmtp s =
     do_call (Unlink ''ff'') (
     pbind (checks fmtp s [(Mkdir ''dd'', \<lambda>r. r \<noteq> 0, ''%s: mkdir dd failed\<newline>'')]) (\<lambda>_.
     pbind (create_with fmtp s ''dd/ff'' ''ff'' ''%s: create dd/ff failed\<newline>'') (\<lambda>_.
     pbind (checks fmtp s [
       (Unlink ''dd'', \<lambda>r. r \<ge> 0, ''%s: unlink dd (non-empty dir) succeeded!\<newline>''),
       (Mkdir ''/dd/dd'', \<lambda>r. r \<noteq> 0, ''subdir mkdir dd/dd failed\<newline>'')]) (\<lambda>_.
     create_with fmtp s ''dd/dd/ff'' ''FF'' ''%s: create dd/dd/ff failed\<newline>''))))"

definition subdir_walk :: "zfmt \<Rightarrow> string \<Rightarrow> unit prog" where
  "subdir_walk fmtp s =
     Call (Open ''dd/dd/../ff'' 0) (\<lambda>fd.
     fatal fmtp (fd < 0) ''%s: open dd/dd/../ff failed\<newline>'' [VStr s] (
     rd fd BUFSZ zero_buf (\<lambda>cc buf.
     fatal fmtp (cc \<noteq> 2 \<or> buf ! 0 \<noteq> CHR ''f'') ''%s: dd/dd/../ff wrong content\<newline>'' [VStr s] (
     do_call (Close fd) (
     pbind (checks fmtp s [
       (Link ''dd/dd/ff'' ''dd/dd/ffff'', \<lambda>r. r \<noteq> 0, ''link dd/dd/ff dd/dd/ffff failed\<newline>''),
       (Unlink ''dd/dd/ff'', \<lambda>r. r \<noteq> 0, ''%s: unlink dd/dd/ff failed\<newline>''),
       (Open ''dd/dd/ff'' O_RDONLY, \<lambda>r. r \<ge> 0, ''%s: open (unlinked) dd/dd/ff succeeded\<newline>''),
       (Chdir ''dd'', \<lambda>r. r \<noteq> 0, ''%s: chdir dd failed\<newline>''),
       (Chdir ''dd/../../dd'', \<lambda>r. r \<noteq> 0, ''%s: chdir dd/../../dd failed\<newline>''),
       (Chdir ''dd/../../../dd'', \<lambda>r. r \<noteq> 0, ''chdir dd/../../dd failed\<newline>''),
       (Chdir ''./..'', \<lambda>r. r \<noteq> 0, ''%s: chdir ./.. failed\<newline>'')]) (\<lambda>_.
     Call (Open ''dd/dd/ffff'' 0) (\<lambda>fd.
     fatal fmtp (fd < 0) ''%s: open dd/dd/ffff failed\<newline>'' [VStr s] (
     rd fd BUFSZ buf (\<lambda>cc buf.
     fatal fmtp (cc \<noteq> 2) ''%s: read dd/dd/ffff wrong len\<newline>'' [VStr s] (
     do_call (Close fd) (Ret ()))))))))))) "

definition subdir :: "zfmt \<Rightarrow> string \<Rightarrow> unit prog" where
  "subdir fmtp s =
     pbind (subdir_make fmtp s) (\<lambda>_.
     pbind (subdir_walk fmtp s) (\<lambda>_.
     checks fmtp s [
       (Open ''dd/dd/ff'' O_RDONLY, \<lambda>r. r \<ge> 0, ''%s: open (unlinked) dd/dd/ff succeeded!\<newline>''),
       (Open ''dd/ff/ff'' (O_CREATE + O_RDWR), \<lambda>r. r \<ge> 0, ''%s: create dd/ff/ff succeeded!\<newline>''),
       (Open ''dd/xx/ff'' (O_CREATE + O_RDWR), \<lambda>r. r \<ge> 0, ''%s: create dd/xx/ff succeeded!\<newline>''),
       (Open ''dd'' O_CREATE, \<lambda>r. r \<ge> 0, ''%s: create dd succeeded!\<newline>''),
       (Open ''dd'' O_RDWR, \<lambda>r. r \<ge> 0, ''%s: open dd rdwr succeeded!\<newline>''),
       (Open ''dd'' O_WRONLY, \<lambda>r. r \<ge> 0, ''%s: open dd wronly succeeded!\<newline>''),
       (Link ''dd/ff/ff'' ''dd/dd/xx'', \<lambda>r. r = 0, ''%s: link dd/ff/ff dd/dd/xx succeeded!\<newline>''),
       (Link ''dd/xx/ff'' ''dd/dd/xx'', \<lambda>r. r = 0, ''%s: link dd/xx/ff dd/dd/xx succeeded!\<newline>''),
       (Link ''dd/ff'' ''dd/dd/ffff'', \<lambda>r. r = 0, ''%s: link dd/ff dd/dd/ffff succeeded!\<newline>''),
       (Mkdir ''dd/ff/ff'', \<lambda>r. r = 0, ''%s: mkdir dd/ff/ff succeeded!\<newline>''),
       (Mkdir ''dd/xx/ff'', \<lambda>r. r = 0, ''%s: mkdir dd/xx/ff succeeded!\<newline>''),
       (Mkdir ''dd/dd/ffff'', \<lambda>r. r = 0, ''%s: mkdir dd/dd/ffff succeeded!\<newline>''),
       (Unlink ''dd/xx/ff'', \<lambda>r. r = 0, ''%s: unlink dd/xx/ff succeeded!\<newline>''),
       (Unlink ''dd/ff/ff'', \<lambda>r. r = 0, ''%s: unlink dd/ff/ff succeeded!\<newline>''),
       (Chdir ''dd/ff'', \<lambda>r. r = 0, ''%s: chdir dd/ff succeeded!\<newline>''),
       (Chdir ''dd/xx'', \<lambda>r. r = 0, ''%s: chdir dd/xx succeeded!\<newline>''),
       (Unlink ''dd/dd/ffff'', \<lambda>r. r \<noteq> 0, ''%s: unlink dd/dd/ff failed\<newline>''),
       (Unlink ''dd/ff'', \<lambda>r. r \<noteq> 0, ''%s: unlink dd/ff failed\<newline>''),
       (Unlink ''dd'', \<lambda>r. r = 0, ''%s: unlink non-empty dd succeeded!\<newline>''),
       (Unlink ''dd/dd'', \<lambda>r. r < 0, ''%s: unlink dd/dd failed\<newline>''),
       (Unlink ''dd'', \<lambda>r. r < 0, ''%s: unlink dd failed\<newline>'')]))"

definition name27 :: string where "name27 = ''123456789012345678901234567''"
definition name28 :: string where "name28 = ''1234567890123456789012345678''"

text \<open>The calls of \<open>strcpy\<close> on \<open>path\<close> build the joined names; the longest has 83 characters, \<open>path\<close> has room for 127.\<close>

definition fourteen :: "zfmt \<Rightarrow> string \<Rightarrow> unit prog" where
  "fourteen fmtp s =
     (let path2 = name27 @ ''/'' @ name27;
          path3 = path2 @ ''/'' @ name27
      in pbind (checks fmtp s [
           (Mkdir name27, \<lambda>r. r \<noteq> 0, ''%s: mkdir 27-char name failed\<newline>''),
           (Mkdir name28, \<lambda>r. r = 0, ''%s: mkdir 28-char name succeeded!\<newline>''),
           (Mkdir path2, \<lambda>r. r \<noteq> 0, ''%s: mkdir 27/27 failed\<newline>'')]) (\<lambda>_.
         Call (Open path3 O_CREATE) (\<lambda>fd.
         fatal fmtp (fd < 0) ''%s: create 27/27/27 failed\<newline>'' [VStr s] (
         do_call (Close fd) (
         Call (Open path3 0) (\<lambda>fd.
         fatal fmtp (fd < 0) ''%s: open 27/27/27 failed\<newline>'' [VStr s] (
         do_call (Close fd) (
         Call (Mkdir path3) (\<lambda>r.
         fatal fmtp (r = 0) ''%s: mkdir existing 27/27/27 succeeded!\<newline>'' [VStr s] (
         do_call (Unlink path3) (do_call (Unlink path2) (do_call (Unlink name27) (Ret ())))))))))))))"

definition rmdot :: "zfmt \<Rightarrow> string \<Rightarrow> unit prog" where
  "rmdot fmtp s = checks fmtp s [
     (Mkdir ''dots'', \<lambda>r. r \<noteq> 0, ''%s: mkdir dots failed\<newline>''),
     (Chdir ''dots'', \<lambda>r. r \<noteq> 0, ''%s: chdir dots failed\<newline>''),
     (Unlink ''.'', \<lambda>r. r = 0, ''%s: rm . worked!\<newline>''),
     (Unlink ''..'', \<lambda>r. r = 0, ''%s: rm .. worked!\<newline>''),
     (Chdir ''/'', \<lambda>r. r \<noteq> 0, ''%s: chdir / failed\<newline>''),
     (Unlink ''dots/.'', \<lambda>r. r = 0, ''%s: unlink dots/. worked!\<newline>''),
     (Unlink ''dots/..'', \<lambda>r. r = 0, ''%s: unlink dots/.. worked!\<newline>''),
     (Unlink ''dots'', \<lambda>r. r \<noteq> 0, ''%s: unlink dots failed!\<newline>'')]"

definition dirfile :: "zfmt \<Rightarrow> string \<Rightarrow> unit prog" where
  "dirfile fmtp s =
     Call (Open ''dirfile'' O_CREATE) (\<lambda>fd.
     fatal fmtp (fd < 0) ''%s: create dirfile failed\<newline>'' [VStr s] (
     do_call (Close fd) (
     pbind (checks fmtp s [
       (Chdir ''dirfile'', \<lambda>r. r = 0, ''%s: chdir dirfile succeeded!\<newline>''),
       (Open ''dirfile/xx'' 0, \<lambda>r. r \<ge> 0, ''%s: create dirfile/xx succeeded!\<newline>''),
       (Open ''dirfile/xx'' O_CREATE, \<lambda>r. r \<ge> 0, ''%s: create dirfile/xx succeeded!\<newline>''),
       (Mkdir ''dirfile/xx'', \<lambda>r. r = 0, ''%s: mkdir dirfile/xx succeeded!\<newline>''),
       (Unlink ''dirfile/xx'', \<lambda>r. r = 0, ''%s: unlink dirfile/xx succeeded!\<newline>''),
       (Link ''README.md'' ''dirfile/xx'', \<lambda>r. r = 0, ''%s: link to dirfile/xx succeeded!\<newline>''),
       (Unlink ''dirfile'', \<lambda>r. r \<noteq> 0, ''%s: unlink dirfile failed!\<newline>''),
       (Open ''.'' O_RDWR, \<lambda>r. r \<ge> 0, ''%s: open . for writing succeeded!\<newline>'')]) (\<lambda>_.
     Call (Open ''.'' 0) (\<lambda>fd.
     Call (Write fd ''x'') (\<lambda>n.
     fatal fmtp (n > 0) ''%s: write . succeeded!\<newline>'' [VStr s] (
     do_call (Close fd) (Ret ()))))))))"

definition NINODE :: nat where "NINODE = 50"

definition open_close_if :: "string \<Rightarrow> unit prog \<Rightarrow> unit prog" where
  "open_close_if f p = Call (Open f O_CREATE) (\<lambda>fd. if fd \<ge> 0 then do_call (Close fd) p else p)"

definition iref :: "zfmt \<Rightarrow> string \<Rightarrow> unit prog" where
  "iref fmtp s =
     pbind (for_each [0..<NINODE + 1] (\<lambda>i.
       pbind (checks fmtp s [
         (Mkdir ''irefd'', \<lambda>r. r \<noteq> 0, ''%s: mkdir irefd failed\<newline>''),
         (Chdir ''irefd'', \<lambda>r. r \<noteq> 0, ''%s: chdir irefd failed\<newline>'')]) (\<lambda>_.
       do_call (Mkdir '''') (do_call (Link ''README.md'' '''') (
       open_close_if '''' (open_close_if ''xx'' (do_call (Unlink ''xx'') (Ret ())))))))) (\<lambda>_.
     pbind (for_each [0..<NINODE + 1] (\<lambda>i.
       do_call (Chdir ''..'') (do_call (Unlink ''irefd'') (Ret ())))) (\<lambda>_.
     do_call (Chdir ''/'') (Ret ())))"

subsection \<open>Concurrent creation\<close>

text \<open>A directory entry is 32 bytes: a 4-byte inode number, the length of the name and 27 bytes of name.  \<open>de\<close> is what the entry on the stack holds.\<close>

definition de_inum :: "mem \<Rightarrow> nat" where
  "de_inum de = (\<Sum>j<4. of_char (de ! j) * 256 ^ j)"

definition de_name :: "mem \<Rightarrow> string" where
  "de_name de = take 27 (drop 5 de)"

definition cfile :: "nat \<Rightarrow> string" where
  "cfile i = [CHR ''C'', chr (CHR ''0'') i]"

definition concreate_make :: "zfmt \<Rightarrow> nat \<Rightarrow> unit prog" where
  "concreate_make fmtp i =
     do_call (Unlink (cfile i)) (
     Call Fork (\<lambda>pid.
     let leave = if pid = 0 then Exit 0 else Wait (\<lambda>(_, xstatus). if xstatus \<noteq> 0 then Exit 1 else Ret ())
     in if (pid \<noteq> 0 \<and> i mod 3 = 1) \<or> (pid = 0 \<and> i mod 5 = 1) then do_call (Link ''C0'' (cfile i)) leave
        else Call (Open (cfile i) (O_CREATE + O_RDWR)) (\<lambda>fd.
             fatal fmtp (fd < 0) ''concreate create %s failed\<newline>'' [VStr (cfile i)] (
             do_call (Close fd) leave))))"

fun concreate_list :: "nat \<Rightarrow> zfmt \<Rightarrow> string \<Rightarrow> int \<Rightarrow> mem \<Rightarrow> bool list \<Rightarrow> nat \<Rightarrow> nat prog" where
  "concreate_list 0 fmtp s fd de fa n = OutOfFuel"
| "concreate_list (Suc fuel) fmtp s fd de fa n =
     rd fd 32 de (\<lambda>r de.
       if r \<le> 0 then Ret n
       else if de_inum de = 0 then concreate_list fuel fmtp s fd de fa n
       else let nm = de_name de in
         if nm ! 0 = CHR ''C'' \<and> nm ! 2 = NUL then
           let i = int (of_char (nm ! 1)) - 48 in
           fatal fmtp (i < 0 \<or> i \<ge> 40) ''%s: concreate weird file %s\<newline>'' [VStr s, VStr (takeWhile (\<lambda>c. c \<noteq> NUL) nm)] (
           fatal fmtp (fa ! nat i) ''%s: concreate duplicate file %s\<newline>'' [VStr s, VStr (takeWhile (\<lambda>c. c \<noteq> NUL) nm)] (
           concreate_list fuel fmtp s fd de (fa[nat i := True]) (n + 1)))
         else concreate_list fuel fmtp s fd de fa n)"

fun times :: "nat \<Rightarrow> ('a prog \<Rightarrow> 'a prog) \<Rightarrow> 'a prog \<Rightarrow> 'a prog" where
  "times 0 f p = p"
| "times (Suc n) f p = f (times n f p)"

definition concreate_remove :: "zfmt \<Rightarrow> string \<Rightarrow> nat \<Rightarrow> unit prog" where
  "concreate_remove fmtp s i =
     Call Fork (\<lambda>pid.
     fatal fmtp (pid < 0) ''%s: fork failed\<newline>'' [VStr s] (
     let leave = if pid = 0 then Exit 0 else Wait (\<lambda>_. Ret ())
     in if (i mod 3 = 0 \<and> pid = 0) \<or> (i mod 3 = 1 \<and> pid \<noteq> 0)
        then times 6 (close_open (cfile i) 0) leave
        else times 6 (do_call (Unlink (cfile i))) leave))"

definition concreate :: "nat \<Rightarrow> mem \<Rightarrow> zfmt \<Rightarrow> string \<Rightarrow> unit prog" where
  "concreate fuel de fmtp s =
     pbind (for_each [0..<40] (concreate_make fmtp)) (\<lambda>_.
     Call (Open ''.'' 0) (\<lambda>fd.
     pbind (concreate_list fuel fmtp s fd de (replicate 40 False) 0) (\<lambda>n.
     do_call (Close fd) (
     fatal fmtp (n \<noteq> 40) ''%s: concreate not enough files in directory listing\<newline>'' [VStr s] (
     for_each [0..<40] (concreate_remove fmtp s))))))"

end
