(* ===== verification/Utproc.thy ===== *)
theory Utproc
  imports Utest
begin

text \<open>
  Tests of \<^verbatim>\<open>src/user/usertests.c\<close> on processes and pipes, and the code that drives the tests.  A loop without an exit is \<open>OutOfFuel\<close>: it does not end
  with any number of rounds.
\<close>

subsection \<open>Programs and pipes\<close>

definition exectest :: "zfmt \<Rightarrow> string \<Rightarrow> unit prog" where
  "exectest fmtp s =
     do_call (Unlink ''echo-ok'') (
     Call Fork (\<lambda>pid.
     fatal fmtp (pid < 0) ''%s: fork failed\<newline>'' [VStr s] (
     let rest =
       Wait (\<lambda>(r, xstatus).
       pbind (if r \<noteq> pid then printf fmtp ''%s: wait failed!\<newline>'' [VStr s] else Ret ()) (\<lambda>_.
       if xstatus \<noteq> 0 then Exit xstatus
       else Call (Open ''echo-ok'' O_RDONLY) (\<lambda>fd.
       fatal fmtp (fd < 0) ''%s: open failed\<newline>'' [VStr s] (
       rd fd 2 (replicate 3 NUL) (\<lambda>n buf.
       fatal fmtp (n \<noteq> 2) ''%s: read failed\<newline>'' [VStr s] (
       do_call (Unlink ''echo-ok'') (
       if buf ! 0 = CHR ''O'' \<and> buf ! 1 = CHR ''K'' then Exit 0
       else fail fmtp ''%s: wrong output\<newline>'' [VStr s])))))))
     in if pid = 0 then
          do_call (Close 1) (
          Call (Open ''echo-ok'' (O_CREATE + O_WRONLY)) (\<lambda>fd.
          fatal fmtp (fd < 0) ''%s: create failed\<newline>'' [VStr s] (
          fatal fmtp (fd \<noteq> 1) ''%s: wrong fd\<newline>'' [VStr s] (
          Call (Exec ''echo'' [''echo'', ''OK'']) (\<lambda>r.
          fatal fmtp (r < 0) ''%s: exec echo failed\<newline>'' [VStr s] rest)))))
        else rest)))"

definition pipe1_fill :: "nat \<Rightarrow> mem \<Rightarrow> mem" where
  "pipe1_fill seq buf = overlay buf 0 (map (\<lambda>i. char_of (seq + i)) [0..<1033])"

fun pipe1_child :: "zfmt \<Rightarrow> string \<Rightarrow> int \<Rightarrow> nat \<Rightarrow> nat \<Rightarrow> mem \<Rightarrow> unit prog" where
  "pipe1_child fmtp s fd 0 seq buf = Exit 0"
| "pipe1_child fmtp s fd (Suc n) seq buf =
     (let buf = pipe1_fill seq buf
      in wr fd buf 1033 (\<lambda>r.
         fatal fmtp (r \<noteq> 1033) ''%s: pipe1 oops 1\<newline>'' [VStr s] (
         pipe1_child fmtp s fd n (seq + 1033) buf)))"

text \<open>The check of the bytes just read against the sequence: the new sequence number, or \<^term>\<open>None\<close> at a difference.\<close>

fun pipe1_check :: "byte list \<Rightarrow> nat \<Rightarrow> nat option" where
  "pipe1_check [] seq = Some seq"
| "pipe1_check (c # cs) seq = (if of_char c \<noteq> seq mod 256 then None else pipe1_check cs (seq + 1))"

fun pipe1_parent :: "nat \<Rightarrow> zfmt \<Rightarrow> string \<Rightarrow> int \<Rightarrow> nat \<Rightarrow> nat \<Rightarrow> mem \<Rightarrow> int \<Rightarrow> unit prog" where
  "pipe1_parent 0 fmtp s fd cc seq buf tot = OutOfFuel"
| "pipe1_parent (Suc fuel) fmtp s fd cc seq buf tot =
     rd fd cc buf (\<lambda>n buf.
       if n > 0 then
         (case pipe1_check (take (nat n) buf) seq of
            None \<Rightarrow> printf fmtp ''%s: pipe1 oops 2\<newline>'' [VStr s]
          | Some seq \<Rightarrow> pipe1_parent fuel fmtp s fd (if cc * 2 > BUFSZ then BUFSZ else cc * 2) seq buf (tot + n))
       else fatal fmtp (tot \<noteq> 5 * 1033) ''%s: pipe1 oops 3 total %d\<newline>'' [num tot] (
         do_call (Close fd) (Wait (\<lambda>(_, xstatus). Exit xstatus))))"

definition pipe1 :: "nat \<Rightarrow> zfmt \<Rightarrow> string \<Rightarrow> unit prog" where
  "pipe1 fuel fmtp s =
     Pipe (\<lambda>r. case r of
       None \<Rightarrow> fail fmtp ''%s: pipe() failed\<newline>'' [VStr s]
     | Some (fd0, fd1) \<Rightarrow>
         Call Fork (\<lambda>pid.
         if pid = 0 then do_call (Close fd0) (pipe1_child fmtp s fd1 5 0 zero_buf)
         else if pid > 0 then do_call (Close fd1) (pipe1_parent fuel fmtp s fd0 1 0 zero_buf 0)
         else fail fmtp ''%s: fork() failed\<newline>'' [VStr s]))"

text \<open>\<open>pfds\<close> is what the array of that name holds before \<open>pipe\<close>, whose result is not checked.\<close>

definition preempt :: "int \<times> int \<Rightarrow> zfmt \<Rightarrow> string \<Rightarrow> unit prog" where
  "preempt pfds fmtp s =
     Call Fork (\<lambda>pid1.
     fatal fmtp (pid1 < 0) ''%s: fork failed'' [VStr s] (
     if pid1 = 0 then OutOfFuel
     else Call Fork (\<lambda>pid2.
     fatal fmtp (pid2 < 0) ''%s: fork failed\<newline>'' [VStr s] (
     if pid2 = 0 then OutOfFuel
     else Pipe (\<lambda>r.
     let (fd0, fd1) = (case r of None \<Rightarrow> pfds | Some p \<Rightarrow> p) in
     Call Fork (\<lambda>pid3.
     fatal fmtp (pid3 < 0) ''%s: fork failed\<newline>'' [VStr s] (
     if pid3 = 0 then
       do_call (Close fd0) (
       Call (Write fd1 ''x'') (\<lambda>n.
       pbind (if n \<noteq> 1 then printf fmtp ''%s: preempt write error'' [VStr s] else Ret ()) (\<lambda>_.
       do_call (Close fd1) OutOfFuel)))
     else do_call (Close fd1) (
       rd fd0 BUFSZ zero_buf (\<lambda>n buf.
       if n \<noteq> 1 then printf fmtp ''%s: preempt read error'' [VStr s]
       else do_call (Close fd0) (
         pbind (printf fmtp ''kill... '' []) (\<lambda>_.
         do_call (Kill pid1) (do_call (Kill pid2) (do_call (Kill pid3) (
         pbind (printf fmtp ''wait... '' []) (\<lambda>_.
         Wait (\<lambda>_. Wait (\<lambda>_. Wait (\<lambda>_. Ret ())))))))))))))))))) "

subsection \<open>Processes\<close>

fun getpid_loop :: "nat \<Rightarrow> 'a prog" where
  "getpid_loop 0 = OutOfFuel"
| "getpid_loop (Suc fuel) = do_call Getpid (getpid_loop fuel)"

definition killstatus :: "nat \<Rightarrow> zfmt \<Rightarrow> string \<Rightarrow> unit prog" where
  "killstatus fuel fmtp s =
     pbind (for_each [0..<100 :: nat] (\<lambda>i.
       Call Fork (\<lambda>pid1.
       fatal fmtp (pid1 < 0) ''%s: fork failed\<newline>'' [VStr s] (
       if pid1 = 0 then getpid_loop fuel
       else do_call (Sleep 1) (do_call (Kill pid1) (
         Wait (\<lambda>(_, xst).
         fatal fmtp (xst \<noteq> - 1) ''%s: status should be -1\<newline>'' [VStr s] (Ret ())))))))) (\<lambda>_.
     Exit 0)"

definition exitwait :: "zfmt \<Rightarrow> string \<Rightarrow> unit prog" where
  "exitwait fmtp s = for_each [0..<100] (\<lambda>i.
     Call Fork (\<lambda>pid.
     fatal fmtp (pid < 0) ''%s: fork failed\<newline>'' [VStr s] (
     if pid \<noteq> 0 then
       Wait (\<lambda>(r, xstate).
       fatal fmtp (r \<noteq> pid) ''%s: wait wrong pid\<newline>'' [VStr s] (
       fatal fmtp (int i \<noteq> xstate) ''%s: wait wrong exit status\<newline>'' [VStr s] (Ret ())))
     else Exit (int i))))"

definition reparent :: "zfmt \<Rightarrow> string \<Rightarrow> unit prog" where
  "reparent fmtp s =
     Call Getpid (\<lambda>master_pid.
     pbind (for_each [0..<200 :: nat] (\<lambda>i.
       Call Fork (\<lambda>pid.
       fatal fmtp (pid < 0) ''%s: fork failed\<newline>'' [VStr s] (
       if pid \<noteq> 0 then
         Wait (\<lambda>(r, _). fatal fmtp (r \<noteq> pid) ''%s: wait wrong pid\<newline>'' [VStr s] (Ret ()))
       else Call Fork (\<lambda>pid2. if pid2 < 0 then do_call (Kill master_pid) (Exit 1) else Exit 0))))) (\<lambda>_.
     Exit 0))"

definition twochildren :: "zfmt \<Rightarrow> string \<Rightarrow> unit prog" where
  "twochildren fmtp s = for_each [0..<1000 :: nat] (\<lambda>i.
     Call Fork (\<lambda>pid1.
     fatal fmtp (pid1 < 0) ''%s: fork failed\<newline>'' [VStr s] (
     if pid1 = 0 then Exit 0
     else Call Fork (\<lambda>pid2.
       fatal fmtp (pid2 < 0) ''%s: fork failed\<newline>'' [VStr s] (
       if pid2 = 0 then Exit 0 else Wait (\<lambda>_. Wait (\<lambda>_. Ret ())))))))"

definition forkfork :: "zfmt \<Rightarrow> string \<Rightarrow> unit prog" where
  "forkfork fmtp s =
     pbind (for_each [0..<2 :: nat] (\<lambda>i.
       Call Fork (\<lambda>pid.
       fatal fmtp (pid < 0) ''%s: fork failed'' [VStr s] (
       if pid = 0 then
         pbind (for_each [0..<200 :: nat] (\<lambda>j.
           Call Fork (\<lambda>pid1.
             if pid1 < 0 then Exit 1 else if pid1 = 0 then Exit 0 else Wait (\<lambda>_. Ret ())))) (\<lambda>_. Exit 0)
       else Ret ())))) (\<lambda>_.
     for_each [0..<2 :: nat] (\<lambda>i.
       Wait (\<lambda>(_, xstatus). fatal fmtp (xstatus \<noteq> 0) ''%s: fork in child failed'' [VStr s] (Ret ()))))"

fun forkforkfork_child :: "nat \<Rightarrow> unit prog" where
  "forkforkfork_child 0 = OutOfFuel"
| "forkforkfork_child (Suc fuel) =
     Call (Open ''stopforking'' 0) (\<lambda>fd.
     if fd \<ge> 0 then Exit 0
     else Call Fork (\<lambda>r.
       if r < 0 then close_open ''stopforking'' (O_CREATE + O_RDWR) (forkforkfork_child fuel)
       else forkforkfork_child fuel))"

definition forkforkfork :: "nat \<Rightarrow> zfmt \<Rightarrow> string \<Rightarrow> unit prog" where
  "forkforkfork fuel fmtp s =
     do_call (Unlink ''stopforking'') (
     Call Fork (\<lambda>pid.
     fatal fmtp (pid < 0) ''%s: fork failed'' [VStr s] (
     if pid = 0 then forkforkfork_child fuel
     else do_call (Sleep 20) (
       close_open ''stopforking'' (O_CREATE + O_RDWR) (
       Wait (\<lambda>_. do_call (Sleep 10) (Ret ())))))))"

definition reparent2 :: "zfmt \<Rightarrow> string \<Rightarrow> unit prog" where
  "reparent2 fmtp s =
     pbind (for_each [0..<800 :: nat] (\<lambda>i.
       Call Fork (\<lambda>pid1.
       fatal fmtp (pid1 < 0) ''fork failed\<newline>'' [] (
       if pid1 = 0 then do_call Fork (do_call Fork (Exit 0)) else Wait (\<lambda>_. Ret ()))))) (\<lambda>_.
     Exit 0)"

text \<open>The number of children that could be made, of at most \<open>k\<close> more.\<close>

fun forktest_fork :: "nat \<Rightarrow> nat \<Rightarrow> nat prog" where
  "forktest_fork 0 n = Ret n"
| "forktest_fork (Suc k) n =
     Call Fork (\<lambda>pid. if pid < 0 then Ret n else if pid = 0 then Exit 0 else forktest_fork k (n + 1))"

definition forktest :: "zfmt \<Rightarrow> string \<Rightarrow> unit prog" where
  "forktest fmtp s =
     pbind (forktest_fork 1000 0) (\<lambda>n.
     fatal fmtp (n = 0) ''%s: no fork at all!\<newline>'' [VStr s] (
     fatal fmtp (n = 1000) ''%s: fork claimed to work 1000 times!\<newline>'' [VStr s] (
     pbind (for_each [0..<n] (\<lambda>_.
       Wait (\<lambda>(r, _). fatal fmtp (r < 0) ''%s: wait stopped early\<newline>'' [VStr s] (Ret ())))) (\<lambda>_.
     Wait (\<lambda>(r, _). fatal fmtp (r \<noteq> - 1) ''%s: wait got too many\<newline>'' [VStr s] (Ret ()))))))"

definition MAXARG :: nat where "MAXARG = 32"

definition bigarg :: string where
  "bigarg = ''bigargs test: failed\<newline>'' @ replicate 199 (CHR '' '')"

definition bigargtest :: "zfmt \<Rightarrow> string \<Rightarrow> unit prog" where
  "bigargtest fmtp s =
     do_call (Unlink ''bigarg-ok'') (
     Call Fork (\<lambda>pid.
     if pid = 0 then
       do_call (Exec ''echo'' (replicate (MAXARG - 1) bigarg)) (
       close_open ''bigarg-ok'' O_CREATE (Exit 0))
     else fatal fmtp (pid < 0) ''%s: bigargtest: fork failed\<newline>'' [VStr s] (
       Wait (\<lambda>(_, xstatus).
       if xstatus \<noteq> 0 then Exit xstatus
       else Call (Open ''bigarg-ok'' 0) (\<lambda>fd.
       fatal fmtp (fd < 0) ''%s: bigarg test failed!\<newline>'' [VStr s] (
       do_call (Close fd) (Ret ())))))))"

end
