(* ===== verification/Usertests.thy ===== *)
theory Usertests
  imports Utdir Utproc Kfile
begin

text \<open>
  The driver of \<^verbatim>\<open>src/user/usertests.c\<close> and the properties of the tests.
\<close>

subsection \<open>Tests do not fault\<close>

text \<open>The arguments fit the format: a string of at most 512 characters for \<open>%s\<close>, a number for \<open>%d\<close>.\<close>

fun fits :: "string \<Rightarrow> vaarg list \<Rightarrow> bool" where
  "fits [] as = True"
| "fits [c] as = True"
| "fits (c # c' # fmt) as =
     (if c \<noteq> CHR ''%'' then fits (c' # fmt) as
      else if c' = CHR ''d'' then (case as of VNum x # as' \<Rightarrow> fits fmt as' | _ \<Rightarrow> False)
      else if c' = CHR ''s'' then (case as of VStr s # as' \<Rightarrow> length s \<le> 512 \<and> fits fmt as' | _ \<Rightarrow> False)
      else False)"

lemma fits_text: "fits fmt as \<Longrightarrow> zfmt_text fmtp fmt as \<noteq> None"
proof (induction fmt as rule: fits.induct)
  case (3 c c' fmt as)
  then show ?case
    by (auto simp: zconv_text_def zfit_def split: if_splits list.splits vaarg.splits)
       (metis zfit_def zfit_int option.distinct(1))
qed auto

lemma yields_fits: "fits fmt as \<Longrightarrow> fmt \<noteq> [] \<Longrightarrow> yields (printf fmtp fmt as) (\<lambda>_. True)"
  by (rule yields_printf [OF fits_text])

lemma yields_fail: "fits fmt as \<Longrightarrow> fmt \<noteq> [] \<Longrightarrow> yields (fail fmtp fmt as) P"
  unfolding fail_def by (rule yields_then [OF yields_fits]) simp_all

lemma yields_fatal: "fits fmt as \<Longrightarrow> fmt \<noteq> [] \<Longrightarrow> (\<not> c \<Longrightarrow> yields p P) \<Longrightarrow> yields (fatal fmtp c fmt as p) P"
  by (simp add: fatal_def yields_fail)

lemma yields_rd:
  "n \<le> length b \<Longrightarrow> (\<And>r b'. length b' = length b \<Longrightarrow> yields (k r b') P) \<Longrightarrow> yields (rd fd n b k) P"
  by (auto simp: rd_def split: option.split)

lemma yields_wr: "n \<le> length b \<Longrightarrow> (\<And>r. yields (k r) P) \<Longrightarrow> yields (wr fd b n k) P"
  by (simp add: wr_def)

lemma yields_Call: "(\<And>r. yields (c r) P) \<Longrightarrow> yields (Call q c) P"
  by simp

lemma yields_Wait: "(\<And>r st. yields (c (r, st)) P) \<Longrightarrow> yields (Wait c) P"
  by simp

lemma yields_close_open: "yields p P \<Longrightarrow> yields (close_open f m p) P"
  by (simp add: close_open_def)

lemma yields_for_each: "(\<And>i. i \<in> set is \<Longrightarrow> yields (body i) (\<lambda>_. True)) \<Longrightarrow> yields (for_each is body) (\<lambda>_. True)"
  by (induction "is") (auto intro!: yields_then)

lemma yields_while_each: "(\<And>i. i \<in> set is \<Longrightarrow> yields (body i) (\<lambda>_. True)) \<Longrightarrow> yields (while_each is body) (\<lambda>_. True)"
  by (induction "is") (auto intro!: yields_then)

lemma yields_checks:
  "list_all (\<lambda>(q, bad, msg). fits msg [VStr s] \<and> msg \<noteq> []) cs \<Longrightarrow> yields (checks fmtp s cs) (\<lambda>_. True)"
  by (induction cs) (auto intro!: yields_fatal)

lemma yields_Ret: "yields (Ret x) (\<lambda>_. True)" and yields_Exit: "yields (Exit n) P" and yields_OutOfFuel: "yields OutOfFuel P"
  by simp_all

lemma yields_pair: "yields (f a b) P \<Longrightarrow> yields (case (a, b) of (x, y) \<Rightarrow> f x y) P"
  by simp

lemma crash_freeI: "yields p (\<lambda>_. True) \<Longrightarrow> crash_free p"
  by (simp add: crash_free_def)

lemmas yields_intros = crash_freeI yields_fatal yields_fail yields_fits yields_rd yields_wr yields_Call yields_Wait yields_if
  yields_close_open yields_for_each yields_while_each yields_checks yields_pair yields_Ret yields_Exit yields_OutOfFuel

lemma buf_sizes [simp]: "length zero_buf = BUFSZ" "BSIZE \<le> BUFSZ" "n \<le> 12288 \<Longrightarrow> n \<le> BUFSZ"
  by (simp_all add: zero_buf_def BUFSZ_def BSIZE_def MAXOPBLOCKS_def)

lemma truncate_tests:
  assumes s: "length s \<le> 500"
  shows "crash_free (truncate1 fmtp s)" "crash_free (truncate2 fmtp s)" "crash_free (truncate3 fmtp s)"
proof -
  show "crash_free (truncate1 fmtp s)" unfolding truncate1_def
    by (intro yields_intros yields_then) (use s in simp_all)
  show "crash_free (truncate2 fmtp s)" unfolding truncate2_def
    by (intro yields_intros yields_then) (use s in simp_all)
  show "crash_free (truncate3 fmtp s)" unfolding truncate3_def truncate3_child_def
    by (intro yields_intros yields_then) (use s in \<open>simp_all split: prod.split\<close>)
qed

lemma yields_put_int: "4 \<le> length b \<Longrightarrow> length (put_int i b) = length b"
  by (simp add: put_int_def)

lemma yields_memset_buf: "n \<le> length b \<Longrightarrow> length (memset_buf c n b) = length b"
  by (simp add: memset_buf_def)

lemma yields_writebig_write:
  "length s \<le> 500 \<Longrightarrow> length b = BUFSZ \<Longrightarrow> yields (writebig_write fmtp s fd is b) (\<lambda>b'. length b' = BUFSZ)"
  by (induction "is" arbitrary: b) (auto simp: Let_def yields_put_int intro!: yields_intros)

lemma yields_writebig_read:
  "length s \<le> 500 \<Longrightarrow> length b = BUFSZ \<Longrightarrow> yields (writebig_read fuel fmtp s fd n b) (\<lambda>_. True)"
  by (induction fuel arbitrary: n b) (auto intro!: yields_intros)

lemma yields_bigfile_write:
  "length s \<le> 500 \<Longrightarrow> length b = BUFSZ \<Longrightarrow> yields (bigfile_write fmtp s fd is b) (\<lambda>b'. length b' = BUFSZ)"
  by (induction "is" arbitrary: b) (auto simp: Let_def yields_memset_buf intro!: yields_intros)

lemma yields_bigfile_read:
  "length s \<le> 500 \<Longrightarrow> length b = BUFSZ \<Longrightarrow> yields (bigfile_read fuel fmtp s fd i b n) (\<lambda>_. True)"
  by (induction fuel arbitrary: i b n) (auto intro!: yields_intros)

lemma plain_file_tests:
  assumes s: "length s \<le> 500"
  shows "crash_free (opentest fmtp s)" "crash_free (writetest fmtp s)" "crash_free (writebig fuel fmtp s)"
    "crash_free (createtest fmtp s)" "crash_free (bigwrite fmtp s)" "crash_free (bigfile fuel fmtp s)"
    "crash_free (manywrites fmtp s)"
proof -
  show "crash_free (opentest fmtp s)" unfolding opentest_def
    by (intro yields_intros) (use s in simp_all)
  show "crash_free (writetest fmtp s)" unfolding writetest_def
    by (intro yields_intros yields_then) (use s in simp_all)
  show "crash_free (writebig fuel fmtp s)" unfolding writebig_def
    by (intro yields_intros yields_pbind [OF yields_mono [OF yields_writebig_write]] yields_then [OF yields_writebig_read])
       (use s in simp_all)
  show "crash_free (createtest fmtp s)" unfolding createtest_def
    by (intro yields_intros yields_then)
  show "crash_free (bigwrite fmtp s)" unfolding bigwrite_def
    by (intro yields_intros yields_then) (use s in auto)
  show "crash_free (bigfile fuel fmtp s)" unfolding bigfile_def
    by (intro yields_intros yields_pbind [OF yields_mono [OF yields_bigfile_write]] yields_then [OF yields_bigfile_read])
       (use s in simp_all)
  show "crash_free (manywrites fmtp s)" unfolding manywrites_def manywrites_child_def Let_def
    by (intro yields_intros yields_then) (use s in \<open>simp_all split: prod.split\<close>)
qed

lemma yields_sharedfd_count: "length b = 10 \<Longrightarrow> yields (sharedfd_count fuel fd b p) (\<lambda>_. True)"
  by (induction fuel arbitrary: b p) (auto intro!: yields_intros)

lemma yields_fourfiles_read:
  "length s \<le> 500 \<Longrightarrow> length b = BUFSZ \<Longrightarrow> yields (fourfiles_read fuel fmtp s i fd b n) (\<lambda>(_, b'). length b' = BUFSZ)"
  by (induction fuel arbitrary: b n) (auto intro!: yields_intros)

lemma yields_fourfiles_verify: "length s \<le> 500 \<Longrightarrow> length b = BUFSZ \<Longrightarrow> yields (fourfiles_verify fuel fmtp s is b) (\<lambda>_. True)"
  by (induction "is" arbitrary: b)
     (auto simp: Let_def intro!: yields_intros yields_pbind [OF yields_mono [OF yields_fourfiles_read]])

lemma shared_file_tests:
  assumes s: "length s \<le> 500"
  shows "crash_free (sharedfd fuel fmtp s)" "crash_free (fourfiles fuel fmtp s)" "crash_free (createdelete fmtp s)"
proof -
  show "crash_free (sharedfd fuel fmtp s)" unfolding sharedfd_def Let_def
    by (intro yields_intros yields_then) (use s in \<open>auto intro!: yields_intros yields_sharedfd_count\<close>)
  show "crash_free (fourfiles fuel fmtp s)" unfolding fourfiles_def fourfiles_child_def Let_def
    by (intro yields_intros yields_fourfiles_verify yields_then) (use s in \<open>auto simp: yields_memset_buf\<close>)
  show "crash_free (createdelete fmtp s)" unfolding createdelete_def createdelete_child_def Let_def
    by (intro yields_intros yields_then) (use s in \<open>auto intro!: yields_intros\<close>)
qed

lemma yields_linkunlink_loop: "yields (linkunlink_loop n x) (\<lambda>_. True)"
  by (induction n arbitrary: x) (auto simp: Let_def intro!: yields_intros)

lemma link_tests:
  assumes s: "length s \<le> 500"
  shows "crash_free (unlinkread fmtp s)" "crash_free (linktest fmtp s)" "crash_free (linkunlink fmtp s)" "crash_free (bigdir fmtp s)"
proof -
  show "crash_free (unlinkread fmtp s)" unfolding unlinkread_def
    by (intro yields_intros) (use s in simp_all)
  show "crash_free (linktest fmtp s)" unfolding linktest_def
    by (intro yields_intros) (use s in simp_all)
  show "crash_free (linkunlink fmtp s)" unfolding linkunlink_def
    by (intro yields_intros yields_then [OF yields_linkunlink_loop]) (use s in simp_all)
  show "crash_free (bigdir fmtp s)" unfolding bigdir_def xname_def
    by (intro yields_intros yields_then) (use s in simp_all)
qed

lemma yields_fsfull_write: "yields (fsfull_write fuel fd n) (\<lambda>_. True)"
  by (induction fuel arbitrary: n) (auto intro!: yields_intros)

lemma yields_fsfull_fill: "yields (fsfull_fill fuel fmtp n) (\<lambda>_. True)"
  by (induction fuel arbitrary: n)
     (auto simp: Let_def numbered_def intro!: yields_intros yields_then [OF yields_fits] yields_then [OF yields_fsfull_write])

lemma yields_create_zz: "yields (create_zz n) (\<lambda>_. True)"
  unfolding create_zz_def by (intro yields_intros)

lemma yields_unlink_all: "yields (unlink_all f n) (\<lambda>_. True)"
  unfolding unlink_all_def by (intro yields_intros)

lemma full_disk_tests: "crash_free (fsfull fuel fmtp)" "crash_free (outofinodes fmtp s)"
proof -
  show "crash_free (fsfull fuel fmtp)" unfolding fsfull_def
    by (intro yields_intros yields_then [OF yields_fsfull_fill] yields_then) simp_all
  show "crash_free (outofinodes fmtp s)" unfolding outofinodes_def
    by (intro crash_freeI yields_then yields_create_zz yields_unlink_all)
qed

lemma directory_tests:
  assumes s: "length s \<le> 500"
  shows "crash_free (iputtest fmtp s)" "crash_free (exitiputtest fmtp s)" "crash_free (openiputtest fmtp s)"
    "crash_free (dirtest fmtp s)" "crash_free (subdir fmtp s)" "crash_free (fourteen fmtp s)" "crash_free (rmdot fmtp s)"
    "crash_free (dirfile fmtp s)" "crash_free (iref fmtp s)"
proof -
  show "crash_free (iputtest fmtp s)" unfolding iputtest_def
    by (intro yields_intros) (use s in simp_all)
  show "crash_free (exitiputtest fmtp s)" unfolding exitiputtest_def
    by (intro yields_intros yields_then) (use s in simp_all)
  show "crash_free (openiputtest fmtp s)" unfolding openiputtest_def
    by (intro yields_intros) (use s in simp_all)
  show "crash_free (dirtest fmtp s)" unfolding dirtest_def
    by (intro yields_intros) (use s in simp_all)
  show "crash_free (subdir fmtp s)" unfolding subdir_def subdir_make_def subdir_walk_def create_with_def
    by (intro yields_intros yields_then) (use s in simp_all)
  show "crash_free (fourteen fmtp s)" unfolding fourteen_def Let_def
    by (intro yields_intros yields_then) (use s in simp_all)
  show "crash_free (rmdot fmtp s)" unfolding rmdot_def
    by (intro yields_intros) (use s in simp_all)
  show "crash_free (dirfile fmtp s)" unfolding dirfile_def
    by (intro yields_intros yields_then) (use s in simp_all)
  show "crash_free (iref fmtp s)" unfolding iref_def open_close_if_def
    by (intro yields_intros yields_then) (use s in simp_all)
qed

lemma yields_concreate_list:
  "length s \<le> 500 \<Longrightarrow> length de = 32 \<Longrightarrow> yields (concreate_list fuel fmtp s fd de fa n) (\<lambda>_. True)"
proof (induction fuel arbitrary: de fa n)
  case (Suc fuel)
  have short: "length (takeWhile (\<lambda>c. c \<noteq> NUL) (de_name d)) \<le> 512" for d
    using length_takeWhile_le [of "\<lambda>c. c \<noteq> NUL" "de_name d"] by (simp add: de_name_def)
  show ?case
    unfolding concreate_list.simps Let_def
    by (intro yields_intros Suc.IH) (use Suc.prems short in simp_all)
qed simp

lemma yields_times: "(\<And>p. yields p P \<Longrightarrow> yields (f p) P) \<Longrightarrow> yields p P \<Longrightarrow> yields (times n f p) P"
  by (induction n) auto

lemma concreate_test: "length s \<le> 500 \<Longrightarrow> length de = 32 \<Longrightarrow> crash_free (concreate fuel de fmtp s)"
  unfolding concreate_def concreate_make_def concreate_remove_def cfile_def Let_def
  by (intro yields_intros yields_then [OF yields_concreate_list] yields_then yields_times) simp_all

lemma yields_getpid_loop: "yields (getpid_loop n) P"
  by (induction n) simp_all

lemma yields_forkforkfork_child: "yields (forkforkfork_child n) P"
  by (induction n) (auto intro!: yields_intros)

lemma yields_forktest_fork: "yields (forktest_fork k n) (\<lambda>_. True)"
  by (induction k arbitrary: n) auto

lemma process_tests:
  assumes s: "length s \<le> 500"
  shows "crash_free (killstatus fuel fmtp s)" "crash_free (exitwait fmtp s)" "crash_free (reparent fmtp s)"
    "crash_free (twochildren fmtp s)" "crash_free (forkfork fmtp s)" "crash_free (forkforkfork fuel fmtp s)"
    "crash_free (reparent2 fmtp s)" "crash_free (forktest fmtp s)" "crash_free (bigargtest fmtp s)"
proof -
  show "crash_free (killstatus fuel fmtp s)" unfolding killstatus_def
    by (intro yields_intros yields_then yields_getpid_loop) (use s in simp_all)
  show "crash_free (exitwait fmtp s)" unfolding exitwait_def
    by (intro yields_intros) (use s in simp_all)
  show "crash_free (reparent fmtp s)" unfolding reparent_def
    by (intro yields_intros yields_then) (use s in simp_all)
  show "crash_free (twochildren fmtp s)" unfolding twochildren_def
    by (intro yields_intros) (use s in simp_all)
  show "crash_free (forkfork fmtp s)" unfolding forkfork_def
    by (intro yields_intros yields_then) (use s in simp_all)
  show "crash_free (forkforkfork fuel fmtp s)" unfolding forkforkfork_def
    by (intro yields_intros yields_forkforkfork_child) (use s in simp_all)
  show "crash_free (reparent2 fmtp s)" unfolding reparent2_def
    by (intro yields_intros yields_then) simp_all
  show "crash_free (forktest fmtp s)" unfolding forktest_def
    by (intro yields_intros yields_then [OF yields_forktest_fork] yields_then) (use s in simp_all)
  show "crash_free (bigargtest fmtp s)" unfolding bigargtest_def
    by (intro yields_intros) (use s in simp_all)
qed

lemma program_tests:
  assumes s: "length s \<le> 500"
  shows "crash_free (exectest fmtp s)" "crash_free (preempt pfds fmtp s)"
proof -
  show "crash_free (exectest fmtp s)" unfolding exectest_def Let_def
    by (intro yields_intros yields_then) (use s in simp_all)
  show "crash_free (preempt pfds fmtp s)" unfolding preempt_def Let_def case_prod_beta
    by (intro yields_intros yields_then) (use s in \<open>auto intro!: yields_intros yields_then\<close>)
qed

lemma yields_pipe1_child:
  "length s \<le> 500 \<Longrightarrow> length b = BUFSZ \<Longrightarrow> yields (pipe1_child fmtp s fd n seq b) (\<lambda>_. True)"
  by (induction n arbitrary: seq b) (auto simp: Let_def pipe1_fill_def intro!: yields_intros)

subsection \<open>Properties\<close>



text \<open>
  The reading side of \<open>pipe1\<close> cannot report lost data: where the stream ends early, the call of \<open>printf\<close> that should report the total passes
  the number for \<open>%s\<close>, and the process faults.
\<close>

lemma pipe1_report_faults:
  assumes "k_read K fd cc k = Some (r, k')" and "r = None \<or> r = Some []" and "cc \<le> length buf" and "tot \<noteq> 5 * 1033"
  shows "run K (pipe1_parent (Suc fuel) fmtp s fd cc seq buf tot) k = (Crashed, k')"
  using assms by (auto simp: rd_def fatal_def fail_def printf_def printf_conv_def)

text \<open>The same in \<open>diskfull\<close>, where the string of \<open>%s\<close> is missing.\<close>

lemma diskfull_report_faults: "run K (printf fmtp ''%s: mkdir(diskfulldir) unexpectedly succeeded!\<newline>'' []) k = (Crashed, k)"
  by (simp add: printf_def printf_conv_def)

end
