(* ===== verification/Utkernel.thy ===== *)
theory Utkernel
  imports Usertests
begin

text \<open>
  The test \<open>writebig\<close> of \<^verbatim>\<open>src/user/usertests.c\<close> on the kernel's inodes and descriptors: what its two loops do with a file, and that a file
  written by the first passes the second.
\<close>

context stdio
begin

lemma run_fail:
  assumes "inv k" and "fits fmt args" and "fmt \<noteq> []"
  shows "\<exists>k'. run K (fail fmtp fmt args) k = (Exited 1, k') \<and> inv k'"
proof -
  obtain t where "zfmt_text fmtp fmt args = Some t" using fits_text [OF assms(2)] by blast
  from run_printf [OF assms(1) this assms(3)] show ?thesis by (auto simp: fail_def run_pbind)
qed

end

lemma overlay_prefix: "length bs \<le> length b \<Longrightarrow> i < length bs \<Longrightarrow> overlay b 0 bs ! i = bs ! i"
  by (simp add: nth_overlay)

lemma get_int_overlay: "4 \<le> length bs \<Longrightarrow> length bs \<le> length b \<Longrightarrow> get_int (overlay b 0 bs) = get_int bs"
  by (simp add: get_int_def overlay_prefix)

lemma digits_256: "i < 2 ^ 32 \<Longrightarrow> (\<Sum>j<4. int (i div 256 ^ j mod 256) * 256 ^ j) = int i"
  using arg_cong [OF base256, of i int] by (simp add: of_nat_mod)

lemma get_put_int:
  assumes "i < 2 ^ 31" and "4 \<le> length b"
  shows "get_int (put_int i b) = int i"
proof -
  have "put_int i b ! j = char_of (i div 256 ^ j)" if "j < 4" for j
    using that assms(2) overlay_prefix [of "map (\<lambda>j. char_of (i div 256 ^ j)) [0..<4]" b j] by (simp add: put_int_def)
  then have "(\<Sum>j<4. int (of_char (put_int i b ! j)) * 256 ^ j) = (\<Sum>j<4. int (i div 256 ^ j mod 256) * 256 ^ j)"
    by (intro sum.cong) (simp_all add: of_char_of take_bit_eq_mod of_nat_mod)
  then have "get_int (put_int i b) = sint (word_of_int (int i) :: uint)"
    using digits_256 [of i] assms(1) by (simp add: get_int_def)
  then show ?thesis using assms(1) by (simp add: sint_uint unsigned_of_nat signed_take_bit_int_eq_self take_bit_nat_eq_self)
qed

subsection \<open>Reading back\<close>

abbreviation file_kernel :: "bool \<Rightarrow> (kstate \<Rightarrow> (nat \<times> byte list) option) \<Rightarrow> kstate kernel \<Rightarrow> kstate kernel" where
  "file_kernel \<equiv> fd_kernel (\<lambda>_. True)"

lemma file_fail:
  "inode_stdio fd st \<Longrightarrow> fits fmt args \<Longrightarrow> fmt \<noteq> [] \<Longrightarrow>
   \<exists>st'. run (file_kernel killed fresh other) (fail fmtp fmt args) st = (Exited 1, st')"
  using inode_io.run_fail by blast

lemma blocks_read:
  "inode_stdio fd st \<Longrightarrow> rest_of fd st = concat bss \<Longrightarrow> \<forall>b \<in> set bss. length b = BSIZE \<Longrightarrow> length buf = BUFSZ \<Longrightarrow>
   length bss < fuel \<Longrightarrow> length s \<le> 500 \<Longrightarrow>
   \<exists>st'. run (file_kernel killed fresh other) (writebig_read fuel fmtp s fd (int n) buf) st =
     (if (\<exists>i < length bss. get_int (bss ! i) \<noteq> int (n + i)) \<or> n + length bss = MAXFILE - 1 then Exited 1 else Returned (), st')"
proof (induction bss arbitrary: fuel n buf st)
  case Nil
  then obtain f where f: "fuel = Suc f" by (cases fuel) auto
  from inode_file_read [OF Nil(1), of BSIZE killed] Nil(2) obtain st' where
    r: "sys_read (\<lambda>_. True) killed fd BSIZE st = Some (Some [], st')" "inode_stdio fd st'" by (auto simp: BSIZE_def)
  have st': "run (file_kernel killed fresh other) (writebig_read fuel fmtp s fd (int n) buf) st =
      run (file_kernel killed fresh other)
        (fatal fmtp (int n = int MAXFILE - 1) ''%s: read only %d blocks from big'' [VStr s, num (int n)] (Ret ())) st'"
    unfolding f using r Nil(4) by (simp add: rd_def)
  have m: "int n = int MAXFILE - 1 \<longleftrightarrow> n = MAXFILE - 1" by (auto simp: MAXFILE_def)
  from file_fail [OF r(2), of "''%s: read only %d blocks from big''" "[VStr s, num (int n)]" killed fresh other fmtp] Nil(6)
  show ?case using st' by (auto simp: fatal_def m)
next
  case (Cons b bss)
  then obtain f where f: "fuel = Suc f" "length bss < f" by (cases fuel) auto
  have lb: "length b = BSIZE" using Cons.prems(3) by simp
  then have bn: "b \<noteq> []" by (auto simp: BSIZE_def)
  let ?buf = "overlay buf 0 b"
  have g: "get_int ?buf = get_int b" using lb Cons.prems(4) by (intro get_int_overlay) (simp_all add: BSIZE_def)
  from inode_file_read [OF Cons.prems(1), of BSIZE killed] Cons.prems(2) lb obtain st1 where
    r: "sys_read (\<lambda>_. True) killed fd BSIZE st = Some (Some b, st1)" and st1: "inode_stdio fd st1" "rest_of fd st1 = concat bss"
    by (auto simp: BSIZE_def)
  have run1: "run (file_kernel killed fresh other) (writebig_read fuel fmtp s fd (int n) buf) st =
      run (file_kernel killed fresh other)
        (fatal fmtp (get_int b \<noteq> int n) ''%s: read content of block %d is %d\<newline>'' [VStr s, num (int n), num (get_int b)] (
         writebig_read f fmtp s fd (int (Suc n)) ?buf)) st1"
    unfolding f(1) using r Cons.prems(4) lb g bn by (simp add: rd_def fatal_def BSIZE_def add.commute)
  show ?case
  proof (cases "get_int b = int n")
    case False
    from file_fail [OF st1(1), of "''%s: read content of block %d is %d\<newline>''" "[VStr s, num (int n), num (get_int b)]"
        killed fresh other fmtp] Cons.prems(6)
    obtain st2 where "run (file_kernel killed fresh other)
        (fail fmtp ''%s: read content of block %d is %d\<newline>'' [VStr s, num (int n), num (get_int b)] :: unit prog) st1 = (Exited 1, st2)"
      by auto
    moreover have "\<exists>i < length (b # bss). get_int ((b # bss) ! i) \<noteq> int (n + i)" using False by (intro exI [of _ 0]) simp
    ultimately show ?thesis using run1 False by (auto simp: fatal_def)
  next
    case True
    have "(\<exists>i < length (b # bss). get_int ((b # bss) ! i) \<noteq> int (n + i)) \<longleftrightarrow> (\<exists>i < length bss. get_int (bss ! i) \<noteq> int (Suc n + i))"
      using True by (subst Ex_less_Suc2 [of "length bss", unfolded length_Cons [symmetric, of bss b]]) simp
    moreover obtain st2 where "run (file_kernel killed fresh other) (writebig_read f fmtp s fd (int (Suc n)) ?buf) st1 =
       (if (\<exists>i < length bss. get_int (bss ! i) \<noteq> int (Suc n + i)) \<or> Suc n + length bss = MAXFILE - 1 then Exited 1 else Returned (), st2)"
      using Cons.IH [OF st1 _ _ f(2), of ?buf "Suc n"] Cons.prems lb by (auto simp: BSIZE_def)
    ultimately show ?thesis using run1 True by (simp add: fatal_def)
  qed
qed

subsection \<open>Writing\<close>

text \<open>The descriptor \<open>fd\<close> is open for writing at the end of the file \<open>ino\<close>.\<close>

declare file_write_inode.simps [simp del]

definition appending :: "int \<Rightarrow> nat \<Rightarrow> nat \<Rightarrow> kstate \<Rightarrow> bool" where
  "appending fd i ino st \<longleftrightarrow> getFile fd st = Some i \<and> i < length (files st) \<and> is_writeable (files st ! i) \<and>
     f_data (files st ! i) = FInode ino (i_size (inodes st ino)) \<and> inode_inv (inodes st ino)"

lemma write_block:
  assumes a: "appending fd i ino st" and l: "length src = BSIZE"
  shows "if i_size (inodes st ino) + BSIZE \<le> block_size * max_file_block_count
    then \<exists>st'. sys_write (\<lambda>_. True) killed fd src st = Some (int BSIZE, st') \<and> appending fd i ino st' \<and>
      file_content (inodes st' ino) = file_content (inodes st ino) @ src
    else \<exists>st'. sys_write (\<lambda>_. True) killed fd src st = Some (- 1, st')"
proof -
  let ?ip = "inodes st ino"
  have src: "min (length src) max_write_bytes = length src" "src \<noteq> []"
    using l by (auto simp: max_write_bytes_def block_size_def BSIZE_def)
  have nil: "file_write_inode (\<lambda>_. True) ip off [] = (True, ip, off)" for ip off by (subst file_write_inode.simps) simp
  show ?thesis
  proof (cases "i_size ?ip + BSIZE \<le> block_size * max_file_block_count")
    case True
    from a have "inode_inv ?ip" by (simp add: appending_def)
    from inode_write_bytes [OF this, of "i_size ?ip" src "\<lambda>_. True"] True l obtain ip' where
      w: "inode_write (\<lambda>_. True) ?ip (i_size ?ip) src = Some (length src, ip')" "inode_inv ip'" "file_content ip' = file_content ?ip @ src"
      by (auto simp: take_all)
    have sz: "i_size ip' = i_size ?ip + length src" using arg_cong [OF w(3), of length] by simp
    have "file_write_inode (\<lambda>_. True) ?ip (i_size ?ip) src = (True, ip', i_size ip')"
      using src w(1) sz nil [of ip' "i_size ip'"] by (subst file_write_inode.simps) simp
    then show ?thesis using a True w sz l
      by (auto simp: appending_def sys_write_def file_write_def Let_def)
  next
    case False
    then have "inode_write (\<lambda>_. True) ?ip (i_size ?ip) src = None" using l by (simp add: inode_write_def)
    then have "file_write_inode (\<lambda>_. True) ?ip (i_size ?ip) src = (False, ?ip, i_size ?ip)"
      using src by (subst file_write_inode.simps) simp
    then show ?thesis using a False by (simp add: appending_def sys_write_def file_write_def Let_def)
  qed
qed

definition big_block :: "nat \<Rightarrow> byte list" where
  "big_block i = take BSIZE (put_int i zero_buf)"

lemma big_block: "length (big_block i) = BSIZE" "i < 2 ^ 31 \<Longrightarrow> get_int (big_block i) = int i"
proof -
  have l: "length (put_int i zero_buf) = BUFSZ" by (simp add: put_int_def)
  then show "length (big_block i) = BSIZE" by (simp add: big_block_def)
  assume i: "i < 2 ^ 31"
  have "get_int (big_block i) = get_int (put_int i zero_buf)" by (simp add: get_int_def big_block_def BSIZE_def)
  then show "get_int (big_block i) = int i" using get_put_int [OF i, of zero_buf] by simp
qed

lemma put_int_overwrite: "4 \<le> length b \<Longrightarrow> put_int i (put_int j b) = put_int i b"
  by (rule nth_equalityI) (simp_all add: put_int_def nth_overlay)

lemma run_writebig_write:
  "appending fd i ino st \<Longrightarrow> i_size (inodes st ino) + length is * BSIZE \<le> block_size * max_file_block_count \<Longrightarrow>
   buf = zero_buf \<or> (\<exists>j. buf = put_int j zero_buf) \<Longrightarrow>
   \<exists>buf' st'. run (file_kernel killed fresh other) (writebig_write fmtp s fd is buf) st = (Returned buf', st') \<and>
     length buf' = BUFSZ \<and> appending fd i ino st' \<and> file_content (inodes st' ino) = file_content (inodes st ino) @ concat (map big_block is)"
proof (induction "is" arbitrary: st buf)
  case Nil
  then show ?case by (auto simp: put_int_def)
next
  case (Cons k "is")
  have buf: "put_int k buf = put_int k zero_buf" using Cons.prems(3) by (auto simp: put_int_overwrite)
  have l: "length (put_int k zero_buf) = BUFSZ" by (simp add: put_int_def)
  have "i_size (inodes st ino) + BSIZE \<le> block_size * max_file_block_count" using Cons.prems(2) by simp
  with write_block [OF Cons.prems(1), of "big_block k" killed] obtain st1 where
    w: "sys_write (\<lambda>_. True) killed fd (big_block k) st = Some (int BSIZE, st1)" "appending fd i ino st1"
      "file_content (inodes st1 ino) = file_content (inodes st ino) @ big_block k"
    by (auto simp: big_block)
  have sz: "i_size (inodes st1 ino) = i_size (inodes st ino) + BSIZE"
    using arg_cong [OF w(3), of length] by (simp add: big_block)
  from Cons.IH [OF w(2), of "put_int k zero_buf"] sz Cons.prems(2) obtain buf' st' where
    "run (file_kernel killed fresh other) (writebig_write fmtp s fd is (put_int k zero_buf)) st1 = (Returned buf', st')"
    "length buf' = BUFSZ" "appending fd i ino st'"
    "file_content (inodes st' ino) = file_content (inodes st1 ino) @ concat (map big_block is)"
    by auto
  then show ?case using w(1,3) l
    by (auto simp: Let_def buf wr_def fatal_def big_block_def [symmetric])
qed

text \<open>Input for the witnesses: descriptor 0 open for reading and writing on an empty file.\<close>

definition empty_file_state :: kstate where
  "empty_file_state = (text_state [])\<lparr>files := (files (text_state []))[0 := (files (text_state []) ! 0)\<lparr>is_writeable := True\<rparr>]\<rparr>"

lemma empty_file_state: "appending 0 0 7 empty_file_state" "i_size (inodes empty_file_state 7) = 0"
  by (simp_all add: empty_file_state_def appending_def getFile_def NOFILE_def text_state_def text_inode_def inode_inv_def block_size_def)

lemma text_state_inode: "length s \<le> 1024 \<Longrightarrow> inode_stdio 0 (text_state s)"
  using text_state_facts(1) [of s] by (auto simp: std_input_def pipe_stdio_def text_state_def getFile_def NOFILE_def)

subsection \<open>Properties\<close>

text \<open>
  C31. The verdict of \<open>writebig\<close> on a file of whole blocks.  The reading loop, on the kernel's regular files, ends after at most one more read than the file has blocks; it
  fails when some block does not hold its own number, or when there are exactly 267 blocks, and accepts the file otherwise: a file that lost
  more than its last block passes.
\<close>

theorem writebig_verdict:
  assumes "inode_stdio fd st" and "rest_of fd st = concat bss" and "\<forall>b \<in> set bss. length b = BSIZE" and "length buf = BUFSZ"
    and "length bss < fuel" and "length s \<le> 500"
  shows "\<exists>st'. run (fd_kernel (\<lambda>_. True) killed fresh other) (writebig_read fuel fmtp s fd 0 buf) st =
     (if (\<exists>i < length bss. get_int (bss ! i) \<noteq> int i) \<or> length bss = MAXFILE - 1 then Exited 1 else Returned (), st')"
  using blocks_read [OF assms, of killed fresh other fmtp 0] by simp

theorem writebig_verdict_witness:
  "\<exists>st'. run (demo_kernel idle_kernel) (writebig_read 2 (\<lambda>_. []) ''writebig'' 0 0 zero_buf) (text_state (big_block 0)) = (Returned (), st')"
proof -
  have l: "length (big_block 0) = 1024" by (simp add: big_block BSIZE_def)
  then have "inode_stdio 0 (text_state (big_block 0))" "rest_of 0 (text_state (big_block 0)) = concat [big_block 0]"
    using text_state_inode [of "big_block 0"] text_state_facts(2) [of "big_block 0"] by simp_all
  from writebig_verdict [OF this, of zero_buf 2 "''writebig''" False "\<lambda>_. None" idle_kernel "\<lambda>_. []"]
  show ?thesis by (simp add: big_block MAXFILE_def)
qed

text \<open>
  C28. \<open>writebig\<close> passes on this kernel as far as it concerns files and descriptors: on an empty file open for writing the first loop writes all its 268 blocks, the
  largest file there can be (one more block is refused), and reading the result from its start, through any descriptor, satisfies the second loop.
\<close>

theorem writebig_roundtrip:
  assumes "appending fd i ino st" and "i_size (inodes st ino) = 0" and "length s \<le> 500"
  shows "\<exists>buf st1. run (fd_kernel (\<lambda>_. True) killed fresh other) (writebig_write fmtp s fd [0..<MAXFILE] zero_buf) st = (Returned buf, st1) \<and>
     i_size (inodes st1 ino) = MAXFILE * BSIZE \<and>
     (\<exists>st2. sys_write (\<lambda>_. True) killed fd (take BSIZE buf) st1 = Some (- 1, st2)) \<and>
     (\<forall>fd' st'. inode_stdio fd' st' \<longrightarrow> rest_of fd' st' = file_content (inodes st1 ino) \<longrightarrow>
       (\<exists>st2. run (fd_kernel (\<lambda>_. True) killed fresh other) (writebig_read (MAXFILE + 1) fmtp s fd' 0 buf) st' = (Returned (), st2)))"
proof -
  have sizes: "MAXFILE * BSIZE = block_size * max_file_block_count"
    by (simp add: MAXFILE_def BSIZE_def block_size_def max_file_block_count_def)
  have m: "0 < MAXFILE" "MAXFILE < 2 ^ 31" by (simp_all add: MAXFILE_def)
  obtain buf st1 where w: "run (file_kernel killed fresh other) (writebig_write fmtp s fd [0..<MAXFILE] zero_buf) st = (Returned buf, st1)"
      "length buf = BUFSZ" "appending fd i ino st1" "file_content (inodes st1 ino) = concat (map big_block [0..<MAXFILE])"
    using run_writebig_write [OF assms(1), of "[0..<MAXFILE]" zero_buf killed fresh other fmtp s] assms(2) sizes
    by (auto simp: file_content_def)
  have sz: "i_size (inodes st1 ino) = MAXFILE * BSIZE"
    using arg_cong [OF w(4), of length] by (simp add: length_concat comp_def big_block sum_list_triv)
  have full: "\<exists>st2. sys_write (\<lambda>_. True) killed fd (take BSIZE buf) st1 = Some (- 1, st2)"
    using write_block [OF w(3), of "take BSIZE buf" killed] w(2) sz sizes by (simp add: BSIZE_def)
  have read: "\<exists>st2. run (file_kernel killed fresh other) (writebig_read (MAXFILE + 1) fmtp s fd' 0 buf) st' = (Returned (), st2)"
    if "inode_stdio fd' st'" "rest_of fd' st' = file_content (inodes st1 ino)" for fd' st'
    using blocks_read [OF that(1), of "map big_block [0..<MAXFILE]" buf "MAXFILE + 1" s killed fresh other fmtp 0] that(2) w(2,4) assms(3) m
    by (auto simp: big_block)
  show ?thesis using w(1) sz full read by blast
qed

theorem writebig_roundtrip_witness:
  "\<exists>buf st1. run (demo_kernel idle_kernel) (writebig_write (\<lambda>_. []) ''writebig'' 0 [0..<MAXFILE] zero_buf) empty_file_state = (Returned buf, st1) \<and>
     i_size (inodes st1 7) = 268 * 1024"
proof -
  have m: "MAXFILE * BSIZE = 268 * 1024" by (simp add: MAXFILE_def BSIZE_def)
  show ?thesis
    using writebig_roundtrip [OF empty_file_state, of "''writebig''" False "\<lambda>_. None" idle_kernel "\<lambda>_. []"] unfolding m
    by auto
qed

end
