(* ===== verification/Utdrive.thy ===== *)
theory Utdrive
  imports Usertests
begin

text \<open>
  The driver of \<^verbatim>\<open>src/user/usertests.c\<close>: \<open>run\<close> (here \<open>run_test\<close>), \<open>runtests\<close>, \<open>countfree\<close>, \<open>drivetests\<close> and \<open>main\<close>.  The driver forks a process per test and
  waits for it, so it is run on a kernel whose processes take turns in that order: a child runs to its end before its parent goes on.
\<close>

subsection \<open>The driver\<close>

record test =
  t_f :: "string \<Rightarrow> unit prog"
  t_s :: string

definition run_test :: "zfmt \<Rightarrow> (string \<Rightarrow> unit prog) \<Rightarrow> string \<Rightarrow> bool prog" where
  "run_test fmtp f s =
     pbind (printf fmtp ''test %s: '' [VStr s]) (\<lambda>_.
     Call Fork (\<lambda>pid.
     fatal fmtp (pid < 0) ''runtest: fork error\<newline>'' [] (
     if pid = 0 then pbind (f s) (\<lambda>_. Exit 0)
     else Wait (\<lambda>(_, xstatus).
       pbind (if xstatus \<noteq> 0 then printf fmtp ''FAILED\<newline>'' [] else printf fmtp ''OK\<newline>'' []) (\<lambda>_.
       Ret (xstatus = 0))))))"

text \<open>A table of tests ends with a null entry; \<open>strcmp\<close> decides equality of names.\<close>

fun runtests :: "zfmt \<Rightarrow> test list \<Rightarrow> string option \<Rightarrow> int prog" where
  "runtests fmtp [] justone = Ret 0"
| "runtests fmtp (t # ts) justone =
     (if justone = None \<or> justone = Some (t_s t) then
        pbind (run_test fmtp (t_f t) (t_s t)) (\<lambda>ok.
        if \<not> ok then pbind (printf fmtp ''SOME TESTS FAILED\<newline>'' []) (\<lambda>_. Ret 1)
        else runtests fmtp ts justone)
      else runtests fmtp ts justone)"

text \<open>The child of \<open>countfree\<close> stores a byte in each page that \<open>sbrk\<close> gave it.\<close>

fun countfree_child :: "nat \<Rightarrow> zfmt \<Rightarrow> int \<Rightarrow> 'a prog" where
  "countfree_child 0 fmtp fd = OutOfFuel"
| "countfree_child (Suc fuel) fmtp fd =
     Call (Sbrk 4096) (\<lambda>a.
     if a = - 1 then Exit 0
     else Call (Write fd ''x'') (\<lambda>n.
       fatal fmtp (n \<noteq> 1) ''write() failed in countfree()\<newline>'' [] (countfree_child fuel fmtp fd)))"

fun countfree_count :: "nat \<Rightarrow> zfmt \<Rightarrow> int \<Rightarrow> int \<Rightarrow> int prog" where
  "countfree_count 0 fmtp fd n = OutOfFuel"
| "countfree_count (Suc fuel) fmtp fd n =
     rd fd 1 [NUL] (\<lambda>cc _.
       fatal fmtp (cc < 0) ''read() failed in countfree()\<newline>'' [] (
       if cc = 0 then Ret n else countfree_count fuel fmtp fd (n + 1)))"

definition countfree :: "nat \<Rightarrow> zfmt \<Rightarrow> int prog" where
  "countfree fuel fmtp =
     Pipe (\<lambda>r. case r of
       None \<Rightarrow> fail fmtp ''pipe() failed in countfree()\<newline>'' []
     | Some (fd0, fd1) \<Rightarrow>
         Call Fork (\<lambda>pid.
         fatal fmtp (pid < 0) ''fork failed in countfree()\<newline>'' [] (
         if pid = 0 then do_call (Close fd0) (countfree_child fuel fmtp fd1)
         else do_call (Close fd1) (
           pbind (countfree_count fuel fmtp fd0 0) (\<lambda>n.
           do_call (Close fd0) (Wait (\<lambda>_. Ret n)))))))"

text \<open>One round of the loop of \<open>drivetests\<close>: whether the function returns 1.  \<open>fuel\<close> bounds \<open>countfree\<close> too.\<close>

definition drive_round :: "nat \<Rightarrow> zfmt \<Rightarrow> test list \<Rightarrow> test list \<Rightarrow> bool \<Rightarrow> int \<Rightarrow> string option \<Rightarrow> bool prog" where
  "drive_round fuel fmtp quicktests slowtests quick continuous justone =
     pbind (printf fmtp ''usertests starting\<newline>'' []) (\<lambda>_.
     pbind (countfree fuel fmtp) (\<lambda>free0.
     pbind (runtests fmtp quicktests justone) (\<lambda>r.
     if r \<noteq> 0 \<and> continuous \<noteq> 2 then Ret True
     else pbind (if quick then Ret 0
         else pbind (if justone = None then printf fmtp ''usertests slow tests starting\<newline>'' [] else Ret ()) (\<lambda>_.
              runtests fmtp slowtests justone)) (\<lambda>r.
     if r \<noteq> 0 \<and> continuous \<noteq> 2 then Ret True
     else pbind (countfree fuel fmtp) (\<lambda>free1.
     if free1 < free0
     then pbind (printf fmtp ''FAILED -- lost some free pages %d (out of %d)\<newline>'' [num free1, num free0]) (\<lambda>_.
          Ret (continuous \<noteq> 2))
     else Ret False)))))"

fun drivetests :: "nat \<Rightarrow> zfmt \<Rightarrow> test list \<Rightarrow> test list \<Rightarrow> bool \<Rightarrow> int \<Rightarrow> string option \<Rightarrow> int prog" where
  "drivetests 0 fmtp quicktests slowtests quick continuous justone = OutOfFuel"
| "drivetests (Suc fuel) fmtp quicktests slowtests quick continuous justone =
     pbind (drive_round fuel fmtp quicktests slowtests quick continuous justone) (\<lambda>bad.
     if bad then Ret 1
     else if continuous \<noteq> 0 then drivetests fuel fmtp quicktests slowtests quick continuous justone
     else Ret 0)"

text \<open>\<open>quick\<close>, \<open>continuous\<close> and \<open>justone\<close> from the arguments; \<^term>\<open>None\<close> for the usage message.\<close>

definition usertests_options :: "string list \<Rightarrow> (bool \<times> int \<times> string option) option" where
  "usertests_options argv =
     (if length argv = 2 \<and> argv ! 1 = ''-q'' then Some (True, 0, None)
      else if length argv = 2 \<and> argv ! 1 = ''-c'' then Some (False, 1, None)
      else if length argv = 2 \<and> argv ! 1 = ''-C'' then Some (False, 2, None)
      else if length argv = 2 \<and> (argv ! 1 = [] \<or> hd (argv ! 1) \<noteq> CHR ''-'') then Some (False, 0, Some (argv ! 1))
      else if length argv > 1 then None
      else Some (False, 0, None))"

definition usertests_main :: "nat \<Rightarrow> zfmt \<Rightarrow> test list \<Rightarrow> test list \<Rightarrow> string list \<Rightarrow> unit prog" where
  "usertests_main fuel fmtp quicktests slowtests argv =
     (case usertests_options argv of
        None \<Rightarrow> fail fmtp ''Usage: usertests [-c] [-C] [-q] [testname]\<newline>'' []
      | Some (quick, continuous, justone) \<Rightarrow>
          pbind (drivetests fuel fmtp quicktests slowtests quick continuous justone) (\<lambda>r.
          if r \<noteq> 0 then Exit 1
          else pbind (printf fmtp ''ALL TESTS PASSED\<newline>'' []) (\<lambda>_. Exit 0)))"

subsection \<open>Processes that take turns\<close>

text \<open>
  The calls of every process are answered by the kernel \<open>K\<close>, except \<open>fork\<close> and \<open>wait\<close>: the child runs first, from the state that the parent sees, and its exit status
  waits to be collected.  \<open>keep k k'\<close> is what the parent sees when it goes on: its own descriptors and working directory as in \<open>k\<close>, everything shared as the child left it in \<open>k'\<close>.
\<close>

record 'k sys =
  kst :: 'k
  zombies :: "(int \<times> int) list"
  next_pid :: nat

definition exit_status :: "'a outcome \<Rightarrow> int option" where
  "exit_status o' = (case o' of Returned _ \<Rightarrow> Some 0 | Exited n \<Rightarrow> Some n | Crashed \<Rightarrow> Some (- 1) | Unfinished \<Rightarrow> None | Blocked \<Rightarrow> None)"

definition lift_answer :: "'k sys \<Rightarrow> ('r \<times> 'k) option \<Rightarrow> ('r \<times> 'k sys) option" where
  "lift_answer S a = map_option (\<lambda>(r, k'). (r, S\<lparr>kst := k'\<rparr>)) a"

primrec turns :: "('k, 'z) kernel_scheme \<Rightarrow> ('k \<Rightarrow> 'k \<Rightarrow> 'k) \<Rightarrow> 'a prog \<Rightarrow> 'k sys \<Rightarrow> 'a outcome \<times> 'k sys" where
  "turns K keep (Ret x) S = (Returned x, S)"
| "turns K keep (Exit n) S = (Exited n, S)"
| "turns K keep Crash S = (Crashed, S)"
| "turns K keep OutOfFuel S = (Unfinished, S)"
| "turns K keep (Call q c) S =
     (if q = Fork then
        let pid = int (next_pid S);
            (out, S1) = turns K keep (c 0) (S\<lparr>zombies := [], next_pid := next_pid S + 1\<rparr>)
        in case exit_status out of
             None \<Rightarrow> (Blocked, S1)
           | Some st \<Rightarrow> turns K keep (c pid) (S1\<lparr>kst := keep (kst S) (kst S1), zombies := zombies S @ [(pid, st)]\<rparr>)
      else answer (lift_answer S (k_call K q (kst S))) S (\<lambda>r. turns K keep (c r)))"
| "turns K keep (Read fd n c) S = answer (lift_answer S (k_read K fd n (kst S))) S (\<lambda>r. turns K keep (c r))"
| "turns K keep (Pipe c) S = answer (lift_answer S (k_pipe K (kst S))) S (\<lambda>r. turns K keep (c r))"
| "turns K keep (Fstat fd c) S = answer (lift_answer S (k_fstat K fd (kst S))) S (\<lambda>r. turns K keep (c r))"
| "turns K keep (Wait c) S =
     (case zombies S of
        z # zs \<Rightarrow> turns K keep (c z) (S\<lparr>zombies := zs\<rparr>)
      | [] \<Rightarrow> answer (lift_answer S (k_wait K (kst S))) S (\<lambda>r. turns K keep (c r)))"
| "turns K keep (Ringbuf s n a c) S = answer (lift_answer S (k_ringbuf K s n a (kst S))) S (\<lambda>r. turns K keep (c r))"

text \<open>The text that a program prints which does nothing else, and its result.\<close>

primrec writes :: "'a prog \<Rightarrow> (string \<times> 'a) option" where
  "writes (Ret x) = Some ([], x)"
| "writes (Exit n) = None"
| "writes Crash = None"
| "writes OutOfFuel = None"
| "writes (Call q c) = (case q of
      Write fd s \<Rightarrow> if fd = 1 then map_option (\<lambda>(t, x). (s @ t, x)) (writes (c (int (length s)))) else None
    | _ \<Rightarrow> None)"
| "writes (Read fd n c) = None"
| "writes (Pipe c) = None"
| "writes (Fstat fd c) = None"
| "writes (Wait c) = None"
| "writes (Ringbuf s n a c) = None"

lemma writes_pbind:
  "writes p = Some (t, x) \<Longrightarrow> writes (f x) = Some (u, y) \<Longrightarrow> writes (pbind p f) = Some (t @ u, y)"
  by (induction p arbitrary: t) (auto split: icall.splits if_splits)

lemma writes_zwrite: "writes (zwrite s) = Some (s, ())"
  by (simp add: zwrite_def)

lemma writes_printf_loop: "zfmt_text fmtp fmt args = Some t \<Longrightarrow> writes (printf_loop fmtp fmt args) = Some (t, ())"
proof (induction fmtp fmt args arbitrary: t rule: zfmt_text.induct)
  case (2 fmtp c as)
  then show ?case by (auto simp: writes_zwrite)
next
  case (3 fmtp c c' fmt as)
  show ?case
  proof (cases "c = CHR ''%''")
    case True
    with "3.prems" obtain u as' t' where c: "zconv_text fmtp c' as = Some (u, as')" "zfmt_text fmtp fmt as' = Some t'" "t = u @ t'"
      by (auto split: option.splits)
    have "writes (printf_conv fmtp c' as) = Some (u, as')"
      using c(1) by (auto simp: zconv_text_def printf_conv_def zfit_def zprint_def zwrite_def split: if_splits list.splits vaarg.splits)
    from writes_pbind [where f = "printf_loop fmtp fmt", OF this "3.IH"(1) [OF True c(1) refl c(2)]] c(3) True show ?thesis by simp
  next
    case False
    with "3.prems" obtain t' where "zfmt_text fmtp (c' # fmt) as = Some t'" "t = c # t'" by auto
    with "3.IH"(2) [OF False this(1)] False show ?thesis
      using writes_pbind [where f = "\<lambda>_. printf_loop fmtp (c' # fmt) as", OF writes_zwrite [of "[c]"]] by simp
  qed
qed simp

lemma writes_printf: "fits fmt args \<Longrightarrow> fmt \<noteq> [] \<Longrightarrow> \<exists>t. writes (printf fmtp fmt args) = Some (t, ()) \<and> zfmt_text fmtp fmt args = Some t"
  using fits_text [of fmt args fmtp] writes_printf_loop by (auto simp: printf_def)

text \<open>The states that writing a text to standard output leads to, in whatever pieces.\<close>

inductive written :: "('k, 'z) kernel_scheme \<Rightarrow> 'k \<Rightarrow> string \<Rightarrow> 'k \<Rightarrow> bool" for K where
  none: "written K k [] k"
| piece: "k_call K (Write 1 s) k = Some (int (length s), k1) \<Longrightarrow> written K k1 t k2 \<Longrightarrow> written K k (s @ t) k2"

lemma turns_fork:
  assumes "turns K keep (c 0) (S\<lparr>zombies := [], next_pid := next_pid S + 1\<rparr>) = (out, S1)" and "exit_status out = Some st"
  shows "turns K keep (Call Fork c) S =
     turns K keep (c (int (next_pid S))) (S1\<lparr>kst := keep (kst S) (kst S1), zombies := zombies S @ [(int (next_pid S), st)]\<rparr>)"
  using assms by (simp add: Let_def)

lemma answer_pids:
  assumes "\<And>r S. next_pid S \<le> next_pid (snd (g r S))"
  shows "next_pid S \<le> next_pid (snd (answer (lift_answer S a) S g))"
proof -
  have "next_pid S \<le> next_pid (snd (g r (S\<lparr>kst := k'\<rparr>)))" for r k' using assms [of "S\<lparr>kst := k'\<rparr>" r] by simp
  then show ?thesis by (auto simp: lift_answer_def answer_def split: option.split)
qed

lemma turns_pids: "next_pid S \<le> next_pid (snd (turns K keep p S))"
proof (induction p arbitrary: S)
  case (Call q c)
  have IH: "next_pid S \<le> next_pid (snd (turns K keep (c r) S))" for r S by (rule Call) simp
  show ?case
  proof (cases "q = Fork")
    case True
    obtain out S1 where S1: "turns K keep (c 0) (S\<lparr>zombies := [], next_pid := next_pid S + 1\<rparr>) = (out, S1)" by fastforce
    then have "next_pid S + 1 \<le> next_pid S1" using IH [of "S\<lparr>zombies := [], next_pid := next_pid S + 1\<rparr>" 0] by simp
    moreover have "next_pid S1 \<le> next_pid (snd (turns K keep (c (int (next_pid S))) (S1\<lparr>kst := k, zombies := zs\<rparr>)))" for k zs
      using IH [of "S1\<lparr>kst := k, zombies := zs\<rparr>"] by simp
    ultimately show ?thesis using True S1 by (auto simp: Let_def split: option.split intro: le_trans [OF Suc_leD])
  next
    case False
    with answer_pids [where g = "\<lambda>r. turns K keep (c r)", OF IH] show ?thesis by simp
  qed
next
  case (Wait c)
  have IH: "next_pid S \<le> next_pid (snd (turns K keep (c r) S))" for r S by (rule Wait) simp
  have "next_pid S \<le> next_pid (snd (turns K keep (c r) (S\<lparr>zombies := zs\<rparr>)))" for r zs using IH [of "S\<lparr>zombies := zs\<rparr>" r] by simp
  with answer_pids [where g = "\<lambda>r. turns K keep (c r)", OF IH] show ?case by (simp split: list.split)
qed (simp_all add: answer_pids)

context sink
begin

lemma turns_writes:
  "fd = 1 \<Longrightarrow> inv (kst S) \<Longrightarrow> writes p = Some (t, x) \<Longrightarrow>
   \<exists>k'. turns K keep (pbind p f) S = turns K keep (f x) (S\<lparr>kst := k'\<rparr>) \<and> inv k' \<and> written K (kst S) t k'"
proof (induction p arbitrary: S t)
  case (Ret y)
  then show ?case by (intro exI [of _ "kst S"]) (simp add: written.intros)
next
  case (Call q c)
  from Call.prems(3) obtain s t' where w: "q = Write 1 s" "t = s @ t'" "writes (c (int (length s))) = Some (t', x)"
    by (auto split: icall.splits if_splits)
  obtain k1 where k1: "k_call K (Write 1 s) (kst S) = Some (int (length s), k1)" "inv k1" "out k1 = out (kst S) @ s"
    using write_all [OF Call.prems(2), of s] Call.prems(1) by auto
  from Call.IH [OF _ Call.prems(1) _ w(3), of "S\<lparr>kst := k1\<rparr>"] k1(2) obtain k' where k':
    "turns K keep (pbind (c (int (length s))) f) (S\<lparr>kst := k1\<rparr>) = turns K keep (f x) (S\<lparr>kst := k'\<rparr>)" "inv k'" "written K k1 t' k'"
    by auto
  have "written K (kst S) t k'" unfolding w(2) by (rule written.piece [OF k1(1) k'(3)])
  then show ?case using w k1 k' by (auto simp: lift_answer_def)
qed simp_all

lemma turns_printf:
  assumes "fd = 1" and "inv (kst S)" and "fits fmt args" and "fmt \<noteq> []"
  shows "\<exists>k'. turns K keep (pbind (printf fmtp fmt args) f) S = turns K keep (f ()) (S\<lparr>kst := k'\<rparr>) \<and> inv k' \<and>
     written K (kst S) (the (zfmt_text fmtp fmt args)) k'"
proof -
  obtain t where "writes (printf fmtp fmt args) = Some (t, ())" "zfmt_text fmtp fmt args = Some t"
    using writes_printf [OF assms(3,4)] by blast
  with turns_writes [OF assms(1,2)] show ?thesis by auto
qed

end

subsection \<open>The verdict\<close>

text \<open>What the process of a test does, and the driver's state after it has written a text.\<close>

definition test_process :: "test \<Rightarrow> int prog" where
  "test_process t = pbind (t_f t (t_s t)) (\<lambda>_. Exit 0)"

definition says :: "('k, 'z) kernel_scheme \<Rightarrow> 'k sys \<Rightarrow> string \<Rightarrow> 'k sys \<Rightarrow> bool" where
  "says K S txt S' \<longleftrightarrow> S' = S\<lparr>kst := kst S'\<rparr> \<and> written K (kst S) txt (kst S')"

definition selected :: "string option \<Rightarrow> test list \<Rightarrow> test list" where
  "selected justone ts = filter (\<lambda>t. justone = None \<or> justone = Some (t_s t)) ts"

text \<open>
  The run of a list of tests from the state \<open>S\<close>, with the exit statuses \<open>sts\<close>, to the state \<open>S'\<close>: the driver writes the name of the first test; the test
  runs as a child from the state this leaves, and exits with the first status; the driver collects it and writes the verdict.  After
  a 0 the rest of the list runs from there; any other status is the last, and the driver says so.
\<close>

fun suite_runs :: "('k, 'z) kernel_scheme \<Rightarrow> ('k \<Rightarrow> 'k \<Rightarrow> 'k) \<Rightarrow> test list \<Rightarrow> 'k sys \<Rightarrow> int list \<Rightarrow> 'k sys \<Rightarrow> bool" where
  "suite_runs K keep [] S sts S' \<longleftrightarrow> sts = [] \<and> S' = S"
| "suite_runs K keep (t # ts) S sts S' \<longleftrightarrow>
     (\<exists>S1 S2 S3 out st sts'. sts = st # sts' \<and> says K S (''test '' @ t_s t @ '': '') S1
        \<and> turns K keep (test_process t) (S1\<lparr>zombies := [], next_pid := next_pid S1 + 1\<rparr>) = (out, S2) \<and> exit_status out = Some st
        \<and> says K (S2\<lparr>kst := keep (kst S1) (kst S2), zombies := []\<rparr>) (if st = 0 then ''OK\<newline>'' else ''FAILED\<newline>'') S3
        \<and> (if st = 0 then suite_runs K keep ts S3 sts' S' else sts' = [] \<and> says K S3 ''SOME TESTS FAILED\<newline>'' S'))"

text \<open>A state of the driver between two tests.\<close>

definition driver_ok :: "('k \<Rightarrow> bool) \<Rightarrow> 'k sys \<Rightarrow> bool" where
  "driver_ok ok S \<longleftrightarrow> ok (kst S) \<and> zombies S = [] \<and> 0 < next_pid S"

context sink
begin

lemma turns_run_test:
  assumes fd: "fd = 1" and keep: "\<forall>k k'. inv k \<longrightarrow> inv (keep k k')" and S: "driver_ok inv S" and s: "length s \<le> 500"
    and ends: "\<forall>S'. exit_status (fst (turns K keep (pbind (f s) (\<lambda>_. Exit 0 :: int prog)) S')) \<noteq> None"
  shows "\<exists>S1 S2 S' out st. turns K keep (pbind (run_test fmtp f s) g) S = turns K keep (g (st = 0) :: int prog) S' \<and> driver_ok inv S' \<and>
     says K S (''test '' @ s @ '': '') S1 \<and>
     turns K keep (pbind (f s) (\<lambda>_. Exit 0 :: int prog)) (S1\<lparr>zombies := [], next_pid := next_pid S1 + 1\<rparr>) = (out, S2) \<and> exit_status out = Some st \<and>
     says K (S2\<lparr>kst := keep (kst S1) (kst S2), zombies := []\<rparr>) (if st = 0 then ''OK\<newline>'' else ''FAILED\<newline>'') S'"
proof -
  define body where "body pid = pbind (fatal fmtp (pid < 0) ''runtest: fork error\<newline>'' [] (
       if pid = 0 then pbind (f s) (\<lambda>_. Exit 0)
       else Wait (\<lambda>(_, xstatus).
         pbind (if xstatus \<noteq> 0 then printf fmtp ''FAILED\<newline>'' [] else printf fmtp ''OK\<newline>'' []) (\<lambda>_. Ret (xstatus = 0))))) g" for pid :: int
  have S0: "inv (kst S)" "zombies S = []" "0 < next_pid S" using S by (simp_all add: driver_ok_def)
  obtain k1 where k1: "turns K keep (pbind (run_test fmtp f s) g) S = turns K keep (Call Fork body) (S\<lparr>kst := k1\<rparr>)" "inv k1"
      "written K (kst S) (''test '' @ s @ '': '') k1"
  proof -
    have rt: "pbind (run_test fmtp f s) g = pbind (printf fmtp ''test %s: '' [VStr s]) (\<lambda>_. Call Fork body)"
      by (simp add: run_test_def pbind_assoc body_def [abs_def])
    have fit: "fits ''test %s: '' [VStr s]" using s by simp
    have msg: "the (zfmt_text fmtp ''test %s: '' [VStr s]) = ''test '' @ s @ '': ''" using s by (simp add: zconv_text_def zfit_def)
    from turns_printf [OF fd S0(1) fit, of keep fmtp "\<lambda>_. Call Fork body", unfolded rt [symmetric] msg] that show ?thesis by blast
  qed
  have c0: "body 0 = pbind (f s) (\<lambda>_. Exit 0)" by (simp add: body_def fatal_def pbind_assoc)
  define S1 where "S1 = S\<lparr>kst := k1, zombies := [], next_pid := next_pid S + 1\<rparr>"
  obtain out2 S2 where r: "turns K keep (pbind (f s) (\<lambda>_. Exit 0 :: int prog)) S1 = (out2, S2)" by (rule prod.exhaust)
  with ends [rule_format, of S1] obtain st where child: "turns K keep (pbind (f s) (\<lambda>_. Exit 0 :: int prog)) S1 = (out2, S2)" "exit_status out2 = Some st" by auto
  have pid2: "0 < next_pid S2" using turns_pids [of S1 K keep "pbind (f s) (\<lambda>_. Exit 0 :: int prog)"] child(1) by (simp add: S1_def)
  define S3 where "S3 = S2\<lparr>kst := keep k1 (kst S2), zombies := []\<rparr>"
  have S3: "driver_ok inv S3" using keep k1(2) pid2 by (simp add: driver_ok_def S3_def)
  have forked: "turns K keep (Call Fork body) (S\<lparr>kst := k1\<rparr>) =
      turns K keep (body (int (next_pid S))) (S2\<lparr>kst := keep k1 (kst S2), zombies := [(int (next_pid S), st)]\<rparr>)"
    using turns_fork [of K keep body "S\<lparr>kst := k1\<rparr>" out2 S2 st] child S0(2) by (simp add: c0 S1_def)
  have parent: "body (int (next_pid S)) = Wait (\<lambda>(_, xstatus).
      pbind (printf fmtp (if xstatus \<noteq> 0 then ''FAILED\<newline>'' else ''OK\<newline>'') []) (\<lambda>_. g (xstatus = 0)))"
    using S0(3) unfolding body_def by (simp add: fatal_def pbind_assoc fun_eq_iff)
  have ran: "turns K keep (pbind (run_test fmtp f s) g) S =
      turns K keep (pbind (printf fmtp (if st \<noteq> 0 then ''FAILED\<newline>'' else ''OK\<newline>'') []) (\<lambda>_. g (st = 0))) S3"
    unfolding k1(1) forked parent by (simp add: S3_def)
  have report: "fits (if st \<noteq> 0 then ''FAILED\<newline>'' else ''OK\<newline>'') []" "(if st \<noteq> 0 then ''FAILED\<newline>'' else ''OK\<newline>'') \<noteq> []"
    by simp_all
  obtain k4 where k4: "turns K keep (pbind (printf fmtp (if st \<noteq> 0 then ''FAILED\<newline>'' else ''OK\<newline>'') []) (\<lambda>_. g (st = 0))) S3 = turns K keep (g (st = 0)) (S3\<lparr>kst := k4\<rparr>)" "inv k4"
      "written K (kst S3) (if st = 0 then ''OK\<newline>'' else ''FAILED\<newline>'') k4"
  proof -
    have msg: "the (zfmt_text fmtp (if st \<noteq> 0 then ''FAILED\<newline>'' else ''OK\<newline>'') []) = (if st = 0 then ''OK\<newline>'' else ''FAILED\<newline>'')"
      by simp
    have "inv (kst S3)" using S3 by (simp add: driver_ok_def)
    from turns_printf [OF fd this report, of keep fmtp "\<lambda>_. g (st = 0)", unfolded msg] that show ?thesis by blast
  qed
  have "turns K keep (pbind (run_test fmtp f s) g) S = turns K keep (g (st = 0)) (S3\<lparr>kst := k4\<rparr>)" using ran k4(1) by simp
  moreover have "driver_ok inv (S3\<lparr>kst := k4\<rparr>)" using S3 k4(2) by (simp add: driver_ok_def)
  moreover have "says K S (''test '' @ s @ '': '') (S\<lparr>kst := k1\<rparr>)" using k1(3) by (simp add: says_def)
  moreover have "says K (S2\<lparr>kst := keep (kst (S\<lparr>kst := k1\<rparr>)) (kst S2), zombies := []\<rparr>) (if st = 0 then ''OK\<newline>'' else ''FAILED\<newline>'') (S3\<lparr>kst := k4\<rparr>)"
    using k4(3) by (simp add: says_def S3_def)
  ultimately show ?thesis using child
    by (intro exI [of _ "S\<lparr>kst := k1\<rparr>"] exI [of _ S2] exI [of _ "S3\<lparr>kst := k4\<rparr>"] exI [of _ out2] exI [of _ st]) (simp add: S1_def)
qed

lemma turns_runtests:
  assumes fd: "fd = 1" and keep: "\<forall>k k'. inv k \<longrightarrow> inv (keep k k')"
  shows "driver_ok inv S \<Longrightarrow> \<forall>t \<in> set ts. length (t_s t) \<le> 500 \<Longrightarrow>
    \<forall>t \<in> set ts. \<forall>S'. exit_status (fst (turns K keep (pbind (t_f t (t_s t)) (\<lambda>_. Exit 0 :: int prog)) S')) \<noteq> None \<Longrightarrow>
    \<exists>sts S'. turns K keep (runtests fmtp ts justone) S = (Returned (if list_all (\<lambda>st. st = 0) sts then 0 else 1), S') \<and>
      driver_ok inv S' \<and> suite_runs K keep (selected justone ts) S sts S'"
proof (induction ts arbitrary: S)
  case Nil
  then show ?case by (intro exI [of _ "[]"]) (simp add: selected_def)
next
  case (Cons t ts)
  show ?case
  proof (cases "justone = None \<or> justone = Some (t_s t)")
    case False
    then have e: "runtests fmtp (t # ts) justone = runtests fmtp ts justone" "selected justone (t # ts) = selected justone ts"
      by (simp_all only: runtests.simps selected_def filter.simps if_False)
    show ?thesis unfolding e using Cons.prems by (intro Cons.IH) simp_all
  next
    case True
    define g where "g ok = (if \<not> ok then pbind (printf fmtp ''SOME TESTS FAILED\<newline>'' []) (\<lambda>_. Ret 1) else runtests fmtp ts justone)" for ok
    have g: "runtests fmtp (t # ts) justone = pbind (run_test fmtp (t_f t) (t_s t)) g" using True by (simp add: g_def [abs_def])
    have "length (t_s t) \<le> 500" "\<forall>S'. exit_status (fst (turns K keep (pbind (t_f t (t_s t)) (\<lambda>_. Exit 0 :: int prog)) S')) \<noteq> None"
      using Cons.prems(2,3) by simp_all
    from turns_run_test [where f = "t_f t" and s = "t_s t" and fmtp = fmtp and g = g, OF fd keep Cons.prems(1) this] obtain S1 S2 S3 out' st where
      r: "turns K keep (runtests fmtp (t # ts) justone) S = turns K keep (g (st = 0)) S3" "driver_ok inv S3"
        "says K S (''test '' @ t_s t @ '': '') S1"
        "turns K keep (test_process t) (S1\<lparr>zombies := [], next_pid := next_pid S1 + 1\<rparr>) = (out', S2)" "exit_status out' = Some st"
        "says K (S2\<lparr>kst := keep (kst S1) (kst S2), zombies := []\<rparr>) (if st = 0 then ''OK\<newline>'' else ''FAILED\<newline>'') S3"
      unfolding g test_process_def by blast
    note step = exI [where x = S1, OF exI [where x = S2, OF exI [where x = S3, OF exI [where x = out', OF exI [where x = st]]]]]
    have sel: "selected justone (t # ts) = t # selected justone ts" using True by (simp add: selected_def)
    show ?thesis
    proof (cases "st = 0")
      case True
      from Cons.IH [OF r(2)] Cons.prems(2,3) obtain sts S' where
        IH: "turns K keep (runtests fmtp ts justone) S3 = (Returned (if list_all (\<lambda>st. st = 0) sts then 0 else 1), S')"
        "driver_ok inv S'" "suite_runs K keep (selected justone ts) S3 sts S'" by auto
      have "suite_runs K keep (t # selected justone ts) S (0 # sts) S'"
        unfolding suite_runs.simps by (rule step) (use r IH(3) True in simp)
      then show ?thesis using r(1) IH(1,2) True unfolding sel
        by (intro exI [of _ "0 # sts"] exI [of _ S']) (simp add: g_def del: runtests.simps suite_runs.simps)
    next
      case False
      have rep: "fits ''SOME TESTS FAILED\<newline>'' []" "''SOME TESTS FAILED\<newline>'' \<noteq> []" by simp_all
      from turns_printf [OF fd _ rep, of S3 keep fmtp "\<lambda>_. Ret (1 :: int)"] r(2) obtain k where
        k: "turns K keep (pbind (printf fmtp ''SOME TESTS FAILED\<newline>'' []) (\<lambda>_. Ret (1 :: int))) S3 = (Returned 1, S3\<lparr>kst := k\<rparr>)" "inv k"
          "written K (kst S3) ''SOME TESTS FAILED\<newline>'' k"
        by (auto simp: driver_ok_def)
      have "suite_runs K keep (t # selected justone ts) S [st] (S3\<lparr>kst := k\<rparr>)"
        unfolding suite_runs.simps by (rule step) (use r k(3) False in \<open>simp add: says_def\<close>)
      then show ?thesis using r(1,2) k(1,2) False unfolding sel
        by (intro exI [of _ "[st]"] exI [of _ "S3\<lparr>kst := k\<rparr>"]) (simp add: g_def driver_ok_def del: runtests.simps suite_runs.simps)
    qed
  qed
qed

end

text \<open>
  C29. The verdict of the test driver.  On a kernel with a working standard output, where the tests end, \<open>runtests\<close> runs exactly the selected tests, in the order of the table, up to the first that does not exit with 0.  Each runs
  in a process of its own, from the state in which the driver is when it has reported the test before and written the name of this one; the driver writes
  nothing but the names, the verdicts and the final line.  It returns 0 when all of the tests exit with 0 and 1 otherwise, having collected every child.
\<close>

theorem runtests_verdict:
  assumes "sink K 1 out ok" and "\<forall>k k'. ok k \<longrightarrow> ok (keep k k')" and "driver_ok ok S" and "\<forall>t \<in> set ts. length (t_s t) \<le> 500"
    and "\<forall>t \<in> set ts. \<forall>S'. exit_status (fst (turns K keep (pbind (t_f t (t_s t)) (\<lambda>_. Exit 0 :: int prog)) S')) \<noteq> None"
  shows "\<exists>sts S'. turns K keep (runtests fmtp ts justone) S = (Returned (if list_all (\<lambda>st. st = 0) sts then 0 else 1), S') \<and>
     driver_ok ok S' \<and> suite_runs K keep (selected justone ts) S sts S'"
  using sink.turns_runtests [OF assms(1) refl assms(2-5)] .

text \<open>Two tests, the first of which fails, on the kernel of the descriptors; a child leaves its output behind.\<close>

abbreviation demo_keep :: "kstate \<Rightarrow> kstate \<Rightarrow> kstate" where
  "demo_keep k k' \<equiv> k\<lparr>console_out := console_out k'\<rparr>"

definition demo_tests :: "test list" where
  "demo_tests = [\<lparr>t_f = (\<lambda>s. Exit 3), t_s = ''bad''\<rparr>, \<lparr>t_f = (\<lambda>s. Ret ()), t_s = ''good''\<rparr>]"

theorem runtests_verdict_witness:
  "\<exists>S'. turns (demo_kernel idle_kernel) demo_keep (runtests (\<lambda>_. []) demo_tests None) \<lparr>kst = text_state [], zombies = [], next_pid = 1\<rparr> = (Returned 1, S')"
proof -
  have "inode_stdio 0 (text_state [])"
    using text_state_facts(1) [of "[]"] by (auto simp: std_input_def pipe_stdio_def text_state_def getFile_def NOFILE_def)
  with runtests_verdict [OF inode_io.sink_axioms, of 0 demo_keep "\<lparr>kst = text_state [], zombies = [], next_pid = 1\<rparr>" demo_tests False "\<lambda>_. None"
      idle_kernel "\<lambda>_. []" None]
  obtain sts S' where r: "turns (demo_kernel idle_kernel) demo_keep (runtests (\<lambda>_. []) demo_tests None) \<lparr>kst = text_state [], zombies = [], next_pid = 1\<rparr> =
      (Returned (if list_all (\<lambda>st. st = 0) sts then 0 else 1), S')"
      "suite_runs (demo_kernel idle_kernel) demo_keep (selected None demo_tests) \<lparr>kst = text_state [], zombies = [], next_pid = 1\<rparr> sts S'"
    by (auto simp: driver_ok_def exit_status_def demo_tests_def)
  then have "\<not> list_all (\<lambda>st. st = 0) sts"
    by (auto simp: demo_tests_def selected_def test_process_def exit_status_def split: list.splits if_splits)
  with r(1) show ?thesis by auto
qed

end
