(* ===== verification/Kdir.thy ===== *)
theory Kdir
  imports Kinode
begin

text \<open>
  Directories, \<^verbatim>\<open>src/kernel/filesystem/directory.zig\<close>: a directory is a file of 32-byte entries, an entry with inode number 0 is free.  The operations walk the entries with
  reads and writes of the inode; reading fails only by a panic, which is \<^term>\<open>None\<close>.  The theorems show that a directory is a finite map from names to inode
  numbers.

  \<open>linkEntry\<close> copies the name with \<open>@memcpy\<close> into an array of 27 bytes whatever its length: \<open>pad j\<close> is what is found at position \<open>j\<close> behind the name.
\<close>

subsection \<open>Entries\<close>

definition entry_size :: nat where "entry_size = 32"
definition max_name_length :: nat where "max_name_length = entry_size - 4 - 1"

record dir_entry =
  inode_number :: nat
  name_length :: nat
  name_buffer :: "byte list"

definition nameSlice :: "dir_entry \<Rightarrow> string" where
  "nameSlice e = take (name_length e) (name_buffer e)"

definition matchesName :: "dir_entry \<Rightarrow> string \<Rightarrow> bool" where
  "matchesName e name \<longleftrightarrow> name = nameSlice e"

text \<open>The 32 bytes of an entry: a 4-byte number, lowest byte first, the length and the name.\<close>

definition le32 :: "nat \<Rightarrow> byte list" where
  "le32 n = map (\<lambda>j. char_of (n div 256 ^ j)) [0..<4]"

definition of_le32 :: "byte list \<Rightarrow> nat" where
  "of_le32 bs = (\<Sum>j<4. of_char (bs ! j) * 256 ^ j)"

definition encode_entry :: "dir_entry \<Rightarrow> byte list" where
  "encode_entry e = le32 (inode_number e) @ char_of (name_length e) # name_buffer e"

definition decode_entry :: "byte list \<Rightarrow> dir_entry" where
  "decode_entry bs = \<lparr>inode_number = of_le32 bs, name_length = of_char (bs ! 4), name_buffer = drop 5 bs\<rparr>"

subsection \<open>Operations\<close>

definition read_entry :: "(nat \<Rightarrow> bool) \<Rightarrow> inode \<Rightarrow> nat \<Rightarrow> dir_entry option" where
  "read_entry gb ip off =
     (case inode_read gb ip off entry_size of
        None \<Rightarrow> None
      | Some bs \<Rightarrow> if length bs \<noteq> entry_size then None else Some (decode_entry bs))"

text \<open>The inode number and the offset of the entry.\<close>

function lookup_loop :: "(nat \<Rightarrow> bool) \<Rightarrow> inode \<Rightarrow> string \<Rightarrow> nat \<Rightarrow> (nat \<times> nat) option option" where
  "lookup_loop gb ip name off =
     (if off < i_size ip then
        (case read_entry gb ip off of
           None \<Rightarrow> None
         | Some e \<Rightarrow>
             if inode_number e \<noteq> 0 \<and> matchesName e name then Some (Some (inode_number e, off))
             else lookup_loop gb ip name (off + entry_size))
      else Some None)"
  by pat_completeness auto
termination
  by (relation "measure (\<lambda>(gb, ip, name, off). i_size ip - off)") (auto simp: entry_size_def)

definition lookupChild :: "(nat \<Rightarrow> bool) \<Rightarrow> inode \<Rightarrow> string \<Rightarrow> (nat \<times> nat) option option" where
  "lookupChild gb ip name = lookup_loop gb ip name 0"

text \<open>The offset of the first free entry, or the size.\<close>

function free_slot :: "(nat \<Rightarrow> bool) \<Rightarrow> inode \<Rightarrow> nat \<Rightarrow> nat option" where
  "free_slot gb ip off =
     (if off < i_size ip then
        (case read_entry gb ip off of
           None \<Rightarrow> None
         | Some e \<Rightarrow> if inode_number e = 0 then Some off else free_slot gb ip (off + entry_size))
      else Some off)"
  by pat_completeness auto
termination
  by (relation "measure (\<lambda>(gb, ip, off). i_size ip - off)") (auto simp: entry_size_def)

text \<open>The error, if there is one, and the new inode.\<close>

datatype link_entry_error = NameToLong | AlreadyExists | WriteFailed | WriteMalformed

definition linkEntry :: "(nat \<Rightarrow> bool) \<Rightarrow> (nat \<Rightarrow> byte) \<Rightarrow> inode \<Rightarrow> string \<Rightarrow> nat \<Rightarrow> (link_entry_error option \<times> inode) option" where
  "linkEntry gb pad ip name inum =
     (if length name > max_name_length then Some (Some NameToLong, ip)
      else case lookupChild gb ip name of
        None \<Rightarrow> None
      | Some (Some _) \<Rightarrow> Some (Some AlreadyExists, ip)
      | Some None \<Rightarrow> (case free_slot gb ip 0 of
            None \<Rightarrow> None
          | Some off \<Rightarrow>
              let entry = \<lparr>inode_number = inum, name_length = length name, name_buffer = name @ map pad [length name..<max_name_length]\<rparr>
              in (case inode_write gb ip off (encode_entry entry) of
                    None \<Rightarrow> Some (Some WriteFailed, ip)
                  | Some (written_bytes, ip') \<Rightarrow> Some (if written_bytes \<noteq> entry_size then Some WriteMalformed else None, ip'))))"

function empty_loop :: "(nat \<Rightarrow> bool) \<Rightarrow> inode \<Rightarrow> nat \<Rightarrow> bool option" where
  "empty_loop gb ip index =
     (if index * entry_size < i_size ip then
        (case read_entry gb ip (index * entry_size) of
           None \<Rightarrow> None
         | Some e \<Rightarrow> if inode_number e \<noteq> 0 then Some False else empty_loop gb ip (index + 1))
      else Some True)"
  by pat_completeness auto
termination
  by (relation "measure (\<lambda>(gb, ip, index). i_size ip - index * entry_size)") (auto simp: entry_size_def)

definition isEmpty :: "(nat \<Rightarrow> bool) \<Rightarrow> inode \<Rightarrow> bool option" where
  "isEmpty gb ip = empty_loop gb ip 2"

text \<open>What \<open>unlink\<close> writes over an entry: an empty one.\<close>

definition clearEntry :: "(nat \<Rightarrow> bool) \<Rightarrow> (nat \<Rightarrow> byte) \<Rightarrow> inode \<Rightarrow> nat \<Rightarrow> inode option" where
  "clearEntry gb pad ip off =
     (case inode_write gb ip off (encode_entry \<lparr>inode_number = 0, name_length = 0, name_buffer = map pad [0..<max_name_length]\<rparr>) of
        None \<Rightarrow> None
      | Some (written_bytes, ip') \<Rightarrow> if written_bytes \<noteq> entry_size then None else Some ip')"

declare lookup_loop.simps [simp del] free_slot.simps [simp del] empty_loop.simps [simp del]

subsection \<open>Encoding\<close>

lemma of_le32_le32: "n < 2 ^ 32 \<Longrightarrow> of_le32 (le32 n @ bs) = n"
  using base256 [of n] by (simp add: of_le32_def le32_def nth_append take_bit_eq_mod of_char_of)

lemma length_encode: "length (encode_entry e) = 5 + length (name_buffer e)"
  by (simp add: encode_entry_def le32_def)

lemma decode_encode:
  assumes "inode_number e < 2 ^ 32" and "name_length e < 256"
  shows "decode_entry (encode_entry e) = e"
proof -
  have "drop 5 (encode_entry e) = name_buffer e" "encode_entry e ! 4 = char_of (name_length e)"
    by (simp_all add: encode_entry_def le32_def nth_append)
  moreover have "of_le32 (encode_entry e) = inode_number e" using of_le32_le32 [OF assms(1)] by (simp add: encode_entry_def)
  ultimately show ?thesis using assms(2) by (simp add: decode_entry_def of_char_of take_bit_eq_mod)
qed

subsection \<open>One block\<close>

text \<open>An entry does not cross a block, so one is read or written completely or not at all.\<close>

lemma read_one_block:
  assumes "inode_inv ip" and "0 < n" and "off mod block_size + n \<le> block_size" and "off + n \<le> i_size ip" and "gb (off div block_size)"
  shows "inode_read gb ip off n = Some (map (byte_at ip) [off..<off + n])"
proof -
  have "i_size ip < 2 ^ 32" using assms(1) by (simp add: inode_inv_def block_size_def max_file_block_count_def)
  then have "inode_read gb ip off n = Some (inode_read_loop gb ip off n [])" using assms(4) by (simp add: inode_read_def)
  moreover have "min n (block_size - off mod block_size) = n" using assms(3) by linarith
  moreover have "segment (off mod block_size) (off mod block_size + n) (i_block ip (off div block_size)) = map (byte_at ip) [off..<off + n]"
    using assms(1,3) by (intro nth_equalityI) (auto simp: inode_inv_def segment_simps byte_at_block)
  ultimately show ?thesis using assms(2,5)
    by (subst (asm) inode_read_loop.simps) (simp add: Let_def inode_read_loop.simps [of gb ip _ 0])
qed

lemma write_one_block:
  assumes inv: "inode_inv ip" and src: "src \<noteq> []" and blk: "off mod block_size + length src \<le> block_size" and off: "off \<le> i_size ip"
    and mx: "off + length src \<le> block_size * max_file_block_count"
  shows "if gb (off div block_size)
    then \<exists>ip'. inode_write gb ip off src = Some (length src, ip') \<and> inode_inv ip' \<and> i_size ip' = max (i_size ip) (off + length src) \<and>
      (\<forall>i. byte_at ip' i = (if off \<le> i \<and> i < off + length src then src ! (i - off) else byte_at ip i))
    else inode_write gb ip off src = Some (0, ip)"
proof -
  have small: "off + length src < 2 ^ 32" using mx by (simp add: block_size_def max_file_block_count_def)
  show ?thesis
  proof (cases "gb (off div block_size)")
    case False
    then have "inode_write_loop gb ip off src = (ip, off)" by (subst inode_write_loop.simps) simp
    then show ?thesis using False off mx small by (simp add: inode_write_def)
  next
    case True
    let ?ip = "ip\<lparr>i_block := (i_block ip)(off div block_size := overlay (i_block ip (off div block_size)) (off mod block_size) src)\<rparr>"
    have lens: "\<And>b. length (i_block ip b) = block_size" using inv by (simp add: inode_inv_def)
    have m: "min (length src) (block_size - off mod block_size) = length src" using blk by linarith
    have loop: "inode_write_loop gb ip off src = (?ip, off + length src)"
      using src True by (subst inode_write_loop.simps) (simp add: m Let_def inode_write_loop.simps [of gb _ _ "[]"])
    define ip' where "ip' = (if off + length src > i_size ip then ?ip\<lparr>i_size := off + length src\<rparr> else ?ip)"
    have "inode_write gb ip off src = Some (length src, ip')" using off mx small loop by (simp add: inode_write_def ip'_def)
    moreover have "inode_inv ip'" using inv lens blk mx by (auto simp: inode_inv_def ip'_def)
    moreover have "i_size ip' = max (i_size ip) (off + length src)" by (simp add: ip'_def)
    moreover have "byte_at ip' i = (if off \<le> i \<and> i < off + length src then src ! (i - off) else byte_at ip i)" for i
      using byte_at_write_block [OF lens blk refl, of i] by (simp add: ip'_def byte_at_def)
    ultimately show ?thesis using True by auto
  qed
qed

subsection \<open>A directory as a map\<close>

definition slot :: "inode \<Rightarrow> nat \<Rightarrow> dir_entry" where
  "slot ip j = decode_entry (map (byte_at ip) [j * entry_size..<j * entry_size + entry_size])"

definition slots :: "inode \<Rightarrow> nat" where
  "slots ip = i_size ip div entry_size"

definition holds :: "inode \<Rightarrow> string \<Rightarrow> nat \<Rightarrow> bool" where
  "holds ip nm j \<longleftrightarrow> inode_number (slot ip j) \<noteq> 0 \<and> nameSlice (slot ip j) = nm"

definition dir_map :: "inode \<Rightarrow> string \<rightharpoonup> nat" where
  "dir_map ip nm = map_option (\<lambda>j. inode_number (slot ip j)) (find (holds ip nm) [0..<slots ip])"

text \<open>Whole entries, and no name twice.\<close>

definition dir_inv :: "inode \<Rightarrow> bool" where
  "dir_inv ip \<longleftrightarrow> inode_inv ip \<and> entry_size dvd i_size ip \<and>
     (\<forall>nm. \<forall>i < slots ip. \<forall>j < slots ip. holds ip nm i \<and> holds ip nm j \<longrightarrow> i = j)"

text \<open>The blocks that the directory has are found.\<close>

definition has_blocks :: "(nat \<Rightarrow> bool) \<Rightarrow> inode \<Rightarrow> bool" where
  "has_blocks gb ip \<longleftrightarrow> (\<forall>b. b * block_size < i_size ip \<longrightarrow> gb b)"

lemma slot_geometry:
  "j * entry_size mod block_size + entry_size \<le> block_size" "j * entry_size div block_size * block_size \<le> j * entry_size"
proof -
  have "j * entry_size mod block_size = (j mod 32) * 32"
    using mult_mod_left [of j 32 32] by (simp add: entry_size_def block_size_def)
  then show "j * entry_size mod block_size + entry_size \<le> block_size" by (simp add: entry_size_def block_size_def)
  show "j * entry_size div block_size * block_size \<le> j * entry_size" by simp
qed

lemma slot_bound: "entry_size dvd i_size ip \<Longrightarrow> j < slots ip \<longleftrightarrow> j * entry_size < i_size ip"
  "entry_size dvd i_size ip \<Longrightarrow> j < slots ip \<Longrightarrow> j * entry_size + entry_size \<le> i_size ip"
  "entry_size dvd i_size ip \<Longrightarrow> slots ip * entry_size = i_size ip"
  by (auto simp: slots_def entry_size_def dvd_def)

lemma read_slot:
  assumes "dir_inv ip" and "has_blocks gb ip" and "j < slots ip"
  shows "read_entry gb ip (j * entry_size) = Some (slot ip j)"
proof -
  have d: "inode_inv ip" "entry_size dvd i_size ip" using assms(1) by (simp_all add: dir_inv_def)
  have "gb (j * entry_size div block_size)"
    using assms(2,3) le_less_trans [OF slot_geometry(2) [of j]] slot_bound(1) [OF d(2), of j] unfolding has_blocks_def by blast
  from read_one_block [where gb = gb, OF d(1) _ slot_geometry(1) slot_bound(2) [OF d(2) assms(3)] this]
  show ?thesis by (simp add: read_entry_def slot_def entry_size_def)
qed

lemma find_upt_step: "i < n \<Longrightarrow> find P [i..<n] = (if P i then Some i else find P [Suc i..<n])"
  by (simp add: upt_conv_Cons)

lemma find_unique:
  assumes "j < n" and "P j" and "\<forall>i < n. P i \<longrightarrow> i = j"
  shows "find P [0..<n] = Some j"
proof (cases "find P [0..<n]")
  case None
  then show ?thesis using assms(1,2) unfolding find_None_iff by force
next
  case (Some k)
  then obtain i where "i < length [0..<n]" "P ([0..<n] ! i)" "k = [0..<n] ! i" unfolding find_Some_iff by blast
  then show ?thesis using assms(3) Some by simp
qed

lemma lookup_loop_find:
  assumes "dir_inv ip" and "has_blocks gb ip"
  shows "lookup_loop gb ip nm (i * entry_size) =
    Some (map_option (\<lambda>j. (inode_number (slot ip j), j * entry_size)) (find (holds ip nm) [i..<slots ip]))"
proof (induction "slots ip - i" arbitrary: i)
  case 0
  then have "\<not> i * entry_size < i_size ip" using assms(1) slot_bound(1) [of ip i] by (simp add: dir_inv_def)
  then show ?case using 0 by (subst lookup_loop.simps) simp
next
  case (Suc k)
  then have i: "i < slots ip" by simp
  then have "i * entry_size < i_size ip" using assms(1) slot_bound(1) [of ip i] by (simp add: dir_inv_def)
  moreover have "lookup_loop gb ip nm (Suc i * entry_size) =
    Some (map_option (\<lambda>j. (inode_number (slot ip j), j * entry_size)) (find (holds ip nm) [Suc i..<slots ip]))"
    using Suc by (intro Suc.hyps) simp
  ultimately show ?case using read_slot [OF assms i] find_upt_step [OF i]
    by (subst lookup_loop.simps) (auto simp: holds_def matchesName_def add.commute)
qed

lemma lookupChild_find:
  assumes "dir_inv ip" and "has_blocks gb ip"
  shows "lookupChild gb ip nm = Some (map_option (\<lambda>j. (inode_number (slot ip j), j * entry_size)) (find (holds ip nm) [0..<slots ip]))"
  using lookup_loop_find [OF assms, of nm 0] by (simp add: lookupChild_def)

lemma lookupChild_map:
  assumes "dir_inv ip" and "has_blocks gb ip"
  shows "lookupChild gb ip nm \<noteq> None" "map_option fst (the (lookupChild gb ip nm)) = dir_map ip nm"
  by (simp_all add: lookupChild_find [OF assms] dir_map_def option.map_comp comp_def)

lemma dir_map_Some:
  assumes "dir_inv ip"
  shows "dir_map ip nm = Some k \<longleftrightarrow> (\<exists>j < slots ip. holds ip nm j \<and> inode_number (slot ip j) = k)"
proof -
  have u: "\<forall>i < slots ip. \<forall>j < slots ip. holds ip nm i \<and> holds ip nm j \<longrightarrow> i = j" using assms unfolding dir_inv_def by blast
  show ?thesis
  proof
    assume "dir_map ip nm = Some k"
    then show "\<exists>j < slots ip. holds ip nm j \<and> inode_number (slot ip j) = k"
      by (auto simp: dir_map_def find_Some_iff)
  next
    assume "\<exists>j < slots ip. holds ip nm j \<and> inode_number (slot ip j) = k"
    then obtain j where j: "j < slots ip" "holds ip nm j" "inode_number (slot ip j) = k" by blast
    moreover have "find (holds ip nm) [0..<slots ip] = Some j"
      using j u by (intro find_unique) auto
    ultimately show "dir_map ip nm = Some k" by (simp add: dir_map_def)
  qed
qed

lemma dir_map_None: "dir_map ip nm = None \<longleftrightarrow> (\<forall>j < slots ip. \<not> holds ip nm j)"
  by (auto simp: dir_map_def find_None_iff)

lemma free_slot_find:
  assumes "dir_inv ip" and "has_blocks gb ip" and "i \<le> slots ip"
  shows "\<exists>k \<ge> i. k \<le> slots ip \<and> free_slot gb ip (i * entry_size) = Some (k * entry_size) \<and> (k < slots ip \<longrightarrow> inode_number (slot ip k) = 0)"
  using assms(3)
proof (induction "slots ip - i" arbitrary: i)
  case 0
  then have "\<not> i * entry_size < i_size ip" using assms(1) slot_bound(1) [of ip i] by (simp add: dir_inv_def)
  then show ?case using 0 by (intro exI [of _ i], subst free_slot.simps) simp
next
  case (Suc m)
  then have i: "i < slots ip" by simp
  then have lt: "i * entry_size < i_size ip" using assms(1) slot_bound(1) [of ip i] by (simp add: dir_inv_def)
  show ?case
  proof (cases "inode_number (slot ip i) = 0")
    case True
    then show ?thesis using i lt read_slot [OF assms(1,2) i] by (intro exI [of _ i], subst free_slot.simps) simp
  next
    case False
    have m: "m = slots ip - Suc i" using Suc.hyps(2) by simp
    obtain k where "k \<ge> Suc i" "k \<le> slots ip" "free_slot gb ip (Suc i * entry_size) = Some (k * entry_size)"
      "k < slots ip \<longrightarrow> inode_number (slot ip k) = 0" using Suc.hyps(1) [of "Suc i"] m i by auto
    then show ?thesis using False lt read_slot [OF assms(1,2) i]
      by (intro exI [of _ k], subst free_slot.simps) (simp add: add.commute)
  qed
qed

subsection \<open>Writing an entry\<close>

definition entry_ok :: "dir_entry \<Rightarrow> bool" where
  "entry_ok e \<longleftrightarrow> inode_number e < 2 ^ 32 \<and> name_length e \<le> max_name_length \<and> length (name_buffer e) = max_name_length"

text \<open>\<open>ip'\<close> is \<open>ip\<close> with entry \<open>k\<close> replaced or appended.\<close>

definition slot_written :: "inode \<Rightarrow> nat \<Rightarrow> dir_entry \<Rightarrow> inode \<Rightarrow> bool" where
  "slot_written ip k e ip' \<longleftrightarrow> inode_inv ip' \<and> entry_size dvd i_size ip' \<and> slots ip' = max (slots ip) (Suc k) \<and>
     i_size ip' = max (i_size ip) (Suc k * entry_size) \<and> (\<forall>j. slot ip' j = (if j = k then e else slot ip j))"

lemma slot_ranges: "j * entry_size \<le> i \<Longrightarrow> i < j * entry_size + entry_size \<Longrightarrow> k * entry_size \<le> i \<Longrightarrow> i < k * entry_size + entry_size \<Longrightarrow> j = k"
  by (simp add: entry_size_def)

lemma write_slot:
  assumes inv: "inode_inv ip" and d: "entry_size dvd i_size ip" and k: "k \<le> slots ip" and e: "entry_ok e"
  shows "if Suc k * entry_size > block_size * max_file_block_count then inode_write gb ip (k * entry_size) (encode_entry e) = None
    else if gb (k * entry_size div block_size)
    then \<exists>ip'. inode_write gb ip (k * entry_size) (encode_entry e) = Some (entry_size, ip') \<and> slot_written ip k e ip'
    else inode_write gb ip (k * entry_size) (encode_entry e) = Some (0, ip)"
proof -
  have l: "length (encode_entry e) = entry_size" using e by (simp add: length_encode entry_ok_def max_name_length_def entry_size_def)
  have dec: "decode_entry (encode_entry e) = e" using e by (intro decode_encode) (simp_all add: entry_ok_def max_name_length_def entry_size_def)
  have off: "k * entry_size \<le> i_size ip" using k slot_bound(3) [OF d] by (metis mult_le_mono1)
  show ?thesis
  proof (cases "Suc k * entry_size > block_size * max_file_block_count")
    case True
    then show ?thesis using off l by (simp add: inode_write_def)
  next
    case False
    then have mx: "k * entry_size + length (encode_entry e) \<le> block_size * max_file_block_count" using l by simp
    have ne: "encode_entry e \<noteq> []" using l by (auto simp: entry_size_def)
    have g: "k * entry_size mod block_size + length (encode_entry e) \<le> block_size" using slot_geometry(1) l by simp
    note W = write_one_block [OF inv ne g off mx, of gb]
    show ?thesis
    proof (cases "gb (k * entry_size div block_size)")
      case gb: False
      then show ?thesis using W False by simp
    next
      case gb: True
      from W gb l obtain ip' where w: "inode_write gb ip (k * entry_size) (encode_entry e) = Some (entry_size, ip')" "inode_inv ip'"
          "i_size ip' = max (i_size ip) (k * entry_size + entry_size)"
          "\<forall>i. byte_at ip' i = (if k * entry_size \<le> i \<and> i < k * entry_size + entry_size then encode_entry e ! (i - k * entry_size) else byte_at ip i)"
        by auto
      have sz: "i_size ip' = max (i_size ip) (Suc k * entry_size)" using w(3) by (simp add: add.commute)
      have dv: "entry_size dvd i_size ip'" using d unfolding sz max_def by simp
      have "slots ip' = max (slots ip) (Suc k)"
        using slot_bound(3) [OF d] dv sz unfolding slots_def by (simp add: max_def entry_size_def)
      moreover have "slot ip' j = (if j = k then e else slot ip j)" for j
      proof (cases "j = k")
        case True
        have "map (byte_at ip') [k * entry_size..<k * entry_size + entry_size] = encode_entry e"
          using w(4) l by (intro nth_equalityI) simp_all
        then show ?thesis using True dec by (simp add: slot_def)
      next
        case False
        then have "map (byte_at ip') [j * entry_size..<j * entry_size + entry_size] = map (byte_at ip) [j * entry_size..<j * entry_size + entry_size]"
          using w(4) slot_ranges [of j _ k] by (intro map_cong) auto
        then have "slot ip' j = slot ip j" by (simp only: slot_def)
        then show ?thesis using False by simp
      qed
      ultimately show ?thesis using False gb w(1,2) dv sz by (auto simp: slot_written_def)
    qed
  qed
qed

lemma slot_written_map:
  assumes inv: "dir_inv ip" and w: "slot_written ip k e ip'" and k: "k \<le> slots ip"
    and e: "inode_number e = 0 \<or> (\<forall>j < slots ip. j \<noteq> k \<longrightarrow> \<not> holds ip (nameSlice e) j)"
  shows "dir_inv ip'"
    "dir_map ip' nm = (if inode_number e \<noteq> 0 \<and> nm = nameSlice e then Some (inode_number e)
       else if k < slots ip \<and> holds ip nm k then None else dir_map ip nm)"
proof -
  have h: "holds ip' x j \<longleftrightarrow> (if j = k then inode_number e \<noteq> 0 \<and> nameSlice e = x else holds ip x j)" for x j
    using w by (simp add: holds_def slot_written_def)
  have lt: "j < slots ip' \<longleftrightarrow> j < slots ip \<or> j = k" for j using w k by (auto simp: slot_written_def max_def)
  have sl: "slot ip' j = (if j = k then e else slot ip j)" for j using w by (simp add: slot_written_def)
  have u: "i < slots ip \<Longrightarrow> j < slots ip \<Longrightarrow> holds ip x i \<Longrightarrow> holds ip x j \<Longrightarrow> i = j" for x i j
    using inv unfolding dir_inv_def by blast
  show inv': "dir_inv ip'"
  proof -
    have "i = j" if "i < slots ip'" "j < slots ip'" "holds ip' x i" "holds ip' x j" for x i j
      using that e u [of i j x] unfolding h lt by (auto split: if_splits)
    then show ?thesis using w unfolding dir_inv_def slot_written_def by blast
  qed
  show "dir_map ip' nm = (if inode_number e \<noteq> 0 \<and> nm = nameSlice e then Some (inode_number e)
       else if k < slots ip \<and> holds ip nm k then None else dir_map ip nm)"
  proof (cases "inode_number e \<noteq> 0 \<and> nm = nameSlice e")
    case True
    then have "dir_map ip' nm = Some (inode_number e)"
      unfolding dir_map_Some [OF inv'] using lt by (intro exI [of _ k]) (simp add: h sl)
    then show ?thesis using True by simp
  next
    case F: False
    show ?thesis
    proof (cases "k < slots ip \<and> holds ip nm k")
      case True
      then have "dir_map ip' nm = None" unfolding dir_map_None using F u by (auto simp: h lt)
      then show ?thesis using True F by simp
    next
      case False
      have "dir_map ip' nm = Some i \<longleftrightarrow> dir_map ip nm = Some i" for i
        unfolding dir_map_Some [OF inv] dir_map_Some [OF inv'] h lt sl using False F by auto
      then show ?thesis using False F by (metis not_None_eq)
    qed
  qed
qed

lemma slot_written_blocks:
  assumes "has_blocks gb ip" and "slot_written ip k e ip'" and "gb (k * entry_size div block_size)"
    and "entry_size dvd i_size ip" and "k \<le> slots ip"
  shows "has_blocks gb ip'"
proof -
  have k: "k * entry_size \<le> i_size ip" using assms(5) slot_bound(3) [OF assms(4)] by (metis mult_le_mono1)
  have "gb b" if "b * block_size < i_size ip'" for b
  proof (cases "b * block_size < i_size ip")
    case False
    then have lt: "b * block_size < Suc k * entry_size" using that assms(2) by (auto simp: slot_written_def)
    have "Suc k * entry_size \<le> (k * entry_size div block_size) * block_size + block_size"
      using slot_geometry(1) [of k] div_mult_mod_eq [of "k * entry_size" block_size] unfolding mult_Suc by linarith
    then have "b * block_size < Suc (k * entry_size div block_size) * block_size" using lt unfolding mult_Suc by linarith
    then have "b \<le> k * entry_size div block_size" by (metis less_Suc_eq_le mult_less_cancel2)
    moreover have "k * entry_size div block_size \<le> b"
      using div_le_mono [of "k * entry_size" "b * block_size" block_size] False k by simp
    ultimately show ?thesis using assms(3) by (metis le_antisym)
  qed (use assms(1) in \<open>simp add: has_blocks_def\<close>)
  then show ?thesis by (simp add: has_blocks_def)
qed

subsection \<open>The operations on the map\<close>

definition fresh_entry :: "(nat \<Rightarrow> byte) \<Rightarrow> string \<Rightarrow> nat \<Rightarrow> dir_entry" where
  "fresh_entry pad nm inum = \<lparr>inode_number = inum, name_length = length nm, name_buffer = nm @ map pad [length nm..<max_name_length]\<rparr>"

lemma fresh_entry:
  assumes "length nm \<le> max_name_length" and "inum < 2 ^ 32"
  shows "entry_ok (fresh_entry pad nm inum)" "nameSlice (fresh_entry pad nm inum) = nm" "inode_number (fresh_entry pad nm inum) = inum"
  using assms by (auto simp: fresh_entry_def entry_ok_def nameSlice_def)

text \<open>A slot for a new entry: a free one, or the end.\<close>

definition open_slot_at :: "inode \<Rightarrow> nat \<Rightarrow> bool" where
  "open_slot_at ip k \<longleftrightarrow> k \<le> slots ip \<and> (k < slots ip \<longrightarrow> inode_number (slot ip k) = 0)"

lemma open_slot_map:
  assumes inv: "dir_inv ip" and k: "open_slot_at ip k" and w: "slot_written ip k e ip'" and e: "inode_number e \<noteq> 0"
    and new: "dir_map ip (nameSlice e) = None"
  shows "dir_inv ip'" "dir_map ip' = (dir_map ip)(nameSlice e \<mapsto> inode_number e)"
proof -
  have ks: "k \<le> slots ip" using k by (simp add: open_slot_at_def)
  have n: "\<forall>j < slots ip. j \<noteq> k \<longrightarrow> \<not> holds ip (nameSlice e) j" using new by (simp add: dir_map_None)
  note M = slot_written_map [OF inv w ks disjI2 [OF n]]
  show "dir_inv ip'" by (rule M(1))
  have "\<not> (k < slots ip \<and> holds ip x k)" for x using k by (auto simp: open_slot_at_def holds_def)
  then show "dir_map ip' = (dir_map ip)(nameSlice e \<mapsto> inode_number e)" using e by (auto simp: fun_eq_iff M(2))
qed

lemma linkEntry_new:
  assumes "length nm \<le> max_name_length" and "lookupChild gb ip nm = Some None" and "free_slot gb ip 0 = Some off"
  shows "linkEntry gb pad ip nm inum = (case inode_write gb ip off (encode_entry (fresh_entry pad nm inum)) of
     None \<Rightarrow> Some (Some WriteFailed, ip) | Some (w, ip') \<Rightarrow> Some (if w \<noteq> entry_size then Some WriteMalformed else None, ip'))"
  using assms by (simp add: linkEntry_def fresh_entry_def)

lemma linkEntry_cases:
  assumes inv: "dir_inv ip" and gb: "has_blocks gb ip" and i: "0 < inum" "inum < 2 ^ 32"
  obtains (refused) er where "linkEntry gb pad ip nm inum = Some (Some er, ip)"
      "length nm > max_name_length \<or> dir_map ip nm \<noteq> None \<or> \<not> (\<forall>b. gb b) \<or> i_size ip + entry_size > block_size * max_file_block_count"
    | (linked) k ip' where "linkEntry gb pad ip nm inum = Some (None, ip')" "length nm \<le> max_name_length" "dir_map ip nm = None"
      "open_slot_at ip k" "slot_written ip k (fresh_entry pad nm inum) ip'" "has_blocks gb ip'"
proof -
  have d: "inode_inv ip" "entry_size dvd i_size ip" using inv by (simp_all add: dir_inv_def)
  consider "length nm > max_name_length" | "length nm \<le> max_name_length" "dir_map ip nm \<noteq> None" | "length nm \<le> max_name_length" "dir_map ip nm = None"
    by fastforce
  then show thesis
  proof cases
    case 1
    then show thesis by (intro refused [of NameToLong]) (simp_all add: linkEntry_def)
  next
    case 2
    then obtain j where "find (holds ip nm) [0..<slots ip] = Some j" by (auto simp: dir_map_def)
    then show thesis using 2 by (intro refused [of AlreadyExists]) (simp_all add: linkEntry_def lookupChild_find [OF inv gb])
  next
    case 3
    then have "find (holds ip nm) [0..<slots ip] = None" by (auto simp: dir_map_def)
    then have lk: "lookupChild gb ip nm = Some None" by (simp add: lookupChild_find [OF inv gb])
    obtain k where k: "k \<le> slots ip" "free_slot gb ip 0 = Some (k * entry_size)" "k < slots ip \<longrightarrow> inode_number (slot ip k) = 0"
      using free_slot_find [OF inv gb, of 0] by auto
    have sz: "k * entry_size \<le> i_size ip" using k(1) slot_bound(3) [OF d(2)] by (metis mult_le_mono1)
    note W = write_slot [OF d k(1) fresh_entry(1) [where pad = pad, OF 3(1) i(2)], of gb]
    show thesis
    proof (cases "Suc k * entry_size > block_size * max_file_block_count \<or> \<not> gb (k * entry_size div block_size)")
      case True
      then obtain er where "linkEntry gb pad ip nm inum = Some (Some er, ip)"
        using W unfolding linkEntry_new [OF 3(1) lk k(2)] by (fastforce simp: entry_size_def split: if_splits)
      moreover have "\<not> (\<forall>b. gb b) \<or> i_size ip + entry_size > block_size * max_file_block_count" using True sz by auto
      ultimately show thesis by (intro refused [of er]) simp_all
    next
      case False
      then obtain ip' where "inode_write gb ip (k * entry_size) (encode_entry (fresh_entry pad nm inum)) = Some (entry_size, ip')"
          "slot_written ip k (fresh_entry pad nm inum) ip'" using W by auto
      then show thesis using False 3 lk k slot_written_blocks [OF gb _ _ d(2) k(1)]
        by (intro linked [of ip' k]) (simp_all add: linkEntry_new open_slot_at_def)
    qed
  qed
qed

text \<open>What \<open>unlink\<close> does to a directory: find the entry, and write an empty one over it.\<close>

definition removeEntry :: "(nat \<Rightarrow> bool) \<Rightarrow> (nat \<Rightarrow> byte) \<Rightarrow> inode \<Rightarrow> string \<Rightarrow> inode option" where
  "removeEntry gb pad ip nm = (case lookupChild gb ip nm of Some (Some (i, off)) \<Rightarrow> clearEntry gb pad ip off | _ \<Rightarrow> None)"

lemma clearEntry_spec:
  assumes inv: "dir_inv ip" and gb: "has_blocks gb ip" and j: "j < slots ip" "holds ip nm j"
  shows "\<exists>ip'. clearEntry gb pad ip (j * entry_size) = Some ip' \<and> dir_inv ip' \<and> has_blocks gb ip' \<and> dir_map ip' = (dir_map ip)(nm := None) \<and>
    slots ip' = slots ip \<and> (\<forall>i. i \<noteq> j \<longrightarrow> slot ip' i = slot ip i)"
proof -
  let ?e = "\<lparr>inode_number = 0, name_length = 0, name_buffer = map pad [0..<max_name_length]\<rparr>"
  have d: "inode_inv ip" "entry_size dvd i_size ip" using inv by (simp_all add: dir_inv_def)
  have e: "entry_ok ?e" by (simp add: entry_ok_def)
  have lt: "Suc j * entry_size \<le> i_size ip" using slot_bound(2) [OF d(2) j(1)] by (simp add: add.commute)
  then have mx: "\<not> Suc j * entry_size > block_size * max_file_block_count" using d(1) by (simp add: inode_inv_def)
  have g: "gb (j * entry_size div block_size)"
    using gb j(1) le_less_trans [OF slot_geometry(2) [of j]] slot_bound(1) [OF d(2), of j] unfolding has_blocks_def by blast
  from write_slot [OF d less_imp_le [OF j(1)] e, of gb] mx g obtain ip' where
    w: "inode_write gb ip (j * entry_size) (encode_entry ?e) = Some (entry_size, ip')" "slot_written ip j ?e ip'" by auto
  note M = slot_written_map [OF inv w(2) less_imp_le [OF j(1)] disjI1]
  have u: "holds ip x j \<longleftrightarrow> x = nm" for x using j(2) by (auto simp: holds_def)
  have "dir_map ip' = (dir_map ip)(nm := None)" using j(1) by (auto simp: fun_eq_iff M(2) u)
  moreover have "slots ip' = slots ip" using w(2) j(1) by (simp add: slot_written_def max_def)
  moreover have "\<forall>i. i \<noteq> j \<longrightarrow> slot ip' i = slot ip i" using w(2) by (simp add: slot_written_def)
  ultimately show ?thesis using w(1) M(1) slot_written_blocks [OF gb w(2) g d(2) less_imp_le [OF j(1)]]
    by (intro exI [of _ ip']) (simp add: clearEntry_def)
qed

lemma removeEntry_spec:
  assumes inv: "dir_inv ip" and gb: "has_blocks gb ip" and e: "dir_map ip nm \<noteq> None"
  shows "\<exists>ip'. removeEntry gb pad ip nm = Some ip' \<and> dir_inv ip' \<and> has_blocks gb ip' \<and> dir_map ip' = (dir_map ip)(nm := None)"
proof -
  obtain j where j: "find (holds ip nm) [0..<slots ip] = Some j" using e by (auto simp: dir_map_def)
  then have "j < slots ip" "holds ip nm j" by (auto simp: find_Some_iff)
  from clearEntry_spec [OF inv gb this] j show ?thesis by (auto simp: removeEntry_def lookupChild_find [OF inv gb])
qed

text \<open>The first two entries of a directory are itself and its parent.\<close>

definition dots :: "inode \<Rightarrow> nat \<Rightarrow> nat \<Rightarrow> bool" where
  "dots ip self parent \<longleftrightarrow> 2 \<le> slots ip \<and> holds ip ''.'' 0 \<and> inode_number (slot ip 0) = self \<and>
     holds ip ''..'' 1 \<and> inode_number (slot ip 1) = parent"

lemma all_from_step: "i < n \<Longrightarrow> (\<forall>j. i \<le> j \<and> j < n \<longrightarrow> P j) \<longleftrightarrow> P i \<and> (\<forall>j. i + 1 \<le> j \<and> j < n \<longrightarrow> P j)"
  for i n :: nat
  by (metis Suc_eq_plus1 le_eq_less_or_eq Suc_le_eq)

lemma empty_loop_slots:
  assumes "dir_inv ip" and "has_blocks gb ip"
  shows "empty_loop gb ip i = Some (\<forall>j. i \<le> j \<and> j < slots ip \<longrightarrow> inode_number (slot ip j) = 0)"
proof (induction "slots ip - i" arbitrary: i)
  case 0
  then have "\<not> i * entry_size < i_size ip" using assms(1) slot_bound(1) [of ip i] by (simp add: dir_inv_def)
  then show ?case using 0 by (subst empty_loop.simps) auto
next
  case (Suc m)
  then have i: "i < slots ip" by simp
  then have lt: "i * entry_size < i_size ip" using assms(1) slot_bound(1) [of ip i] by (simp add: dir_inv_def)
  have "empty_loop gb ip (i + 1) = Some (\<forall>j. i + 1 \<le> j \<and> j < slots ip \<longrightarrow> inode_number (slot ip j) = 0)"
    using Suc.hyps(2) by (intro Suc.hyps(1)) simp
  moreover note all_from_step [OF i, of "\<lambda>j. inode_number (slot ip j) = 0"]
  ultimately show ?case using lt read_slot [OF assms i] by (subst empty_loop.simps) simp
qed

lemma isEmpty_map:
  assumes inv: "dir_inv ip" and gb: "has_blocks gb ip" and d: "dots ip self parent"
  shows "isEmpty gb ip = Some (dom (dir_map ip) \<subseteq> {''.'', ''..''})"
proof -
  have u: "i < slots ip \<Longrightarrow> j < slots ip \<Longrightarrow> holds ip x i \<Longrightarrow> holds ip x j \<Longrightarrow> i = j" for x i j
    using inv unfolding dir_inv_def by blast
  have d': "2 \<le> slots ip" "holds ip ''.'' 0" "holds ip ''..'' 1" using d by (simp_all add: dots_def)
  have "(\<forall>j. 2 \<le> j \<and> j < slots ip \<longrightarrow> inode_number (slot ip j) = 0) \<longleftrightarrow> dom (dir_map ip) \<subseteq> {''.'', ''..''}" (is "?A \<longleftrightarrow> ?B")
  proof
    assume A: ?A
    show ?B
    proof
      fix x assume "x \<in> dom (dir_map ip)"
      then obtain j where "j < slots ip" "holds ip x j" using dir_map_None [of ip x] by auto
      then have "\<not> 2 \<le> j" using A by (auto simp: holds_def)
      then have "j = 0 \<or> j = 1" by linarith
      with \<open>holds ip x j\<close> d' show "x \<in> {''.'', ''..''}" by (auto simp: holds_def)
    qed
  next
    assume B: ?B
    show ?A
    proof (intro allI impI)
      fix j assume j: "2 \<le> j \<and> j < slots ip"
      show "inode_number (slot ip j) = 0"
      proof (rule ccontr)
        assume "inode_number (slot ip j) \<noteq> 0"
        then have h: "holds ip (nameSlice (slot ip j)) j" by (simp add: holds_def)
        then have "dir_map ip (nameSlice (slot ip j)) \<noteq> None" using j dir_map_None by blast
        then have "nameSlice (slot ip j) \<in> {''.'', ''..''}" using B by auto
        then show False using h j d' u [of j 0 "''.''"] u [of j 1 "''..''"] by auto
      qed
    qed
  qed
  then show ?thesis using empty_loop_slots [OF inv gb, of 2] by (simp add: isEmpty_def)
qed


subsection \<open>The contract of a directory\<close>

text \<open>
  What the system calls rely on: a table of names, in which a lookup answers from the entries, a link adds one new name or changes nothing, and a removal takes one name out.
\<close>

locale name_table =
  fixes ok :: "'d \<Rightarrow> bool"
    and entries :: "'d \<Rightarrow> string \<rightharpoonup> nat"
    and look :: "'d \<Rightarrow> string \<Rightarrow> (nat \<times> nat) option option"
    and link :: "'d \<Rightarrow> string \<Rightarrow> nat \<Rightarrow> (link_entry_error option \<times> 'd) option"
    and remove :: "'d \<Rightarrow> string \<Rightarrow> 'd option"
    and room :: "'d \<Rightarrow> bool"
  assumes look: "ok d \<Longrightarrow> \<exists>r. look d nm = Some r \<and> map_option fst r = entries d nm"
    and link: "ok d \<Longrightarrow> 0 < n \<Longrightarrow> n < 2 ^ 32 \<Longrightarrow>
      (\<exists>er. link d nm n = Some (Some er, d) \<and> (length nm > max_name_length \<or> entries d nm \<noteq> None \<or> \<not> room d)) \<or>
      (\<exists>d'. link d nm n = Some (None, d') \<and> ok d' \<and> entries d' = (entries d)(nm \<mapsto> n) \<and> length nm \<le> max_name_length \<and> entries d nm = None)"
    and remove: "ok d \<Longrightarrow> entries d nm \<noteq> None \<Longrightarrow> \<exists>d'. remove d nm = Some d' \<and> ok d' \<and> entries d' = (entries d)(nm := None)"
begin

lemma link_new:
  assumes "ok d" and "0 < n" and "n < 2 ^ 32" and "length nm \<le> max_name_length" and "entries d nm = None" and "room d"
  obtains d' where "link d nm n = Some (None, d')" "ok d'" "entries d' = (entries d)(nm \<mapsto> n)"
  using link [OF assms(1-3), of nm] assms(4-6) by auto

lemma link_look:
  assumes "ok d" and "0 < n" and "n < 2 ^ 32" and "link d nm n = Some (None, d')"
  shows "\<exists>off. look d' nm = Some (Some (n, off))" "x \<noteq> nm \<Longrightarrow> map_option fst (the (look d' x)) = map_option fst (the (look d x))"
proof -
  have d': "ok d'" "entries d' = (entries d)(nm \<mapsto> n)" using link [OF assms(1-3), of nm] assms(4) by auto
  show "\<exists>off. look d' nm = Some (Some (n, off))" using look [OF d'(1), of nm] d'(2) by auto
  show "x \<noteq> nm \<Longrightarrow> map_option fst (the (look d' x)) = map_option fst (the (look d x))"
    using look [OF d'(1), of x] look [OF assms(1), of x] d'(2) by auto
qed

lemma link_remove:
  assumes "ok d" and "0 < n" and "n < 2 ^ 32" and "link d nm n = Some (None, d')"
  shows "\<exists>d''. remove d' nm = Some d'' \<and> ok d'' \<and> entries d'' = entries d"
proof -
  have d': "ok d'" "entries d' = (entries d)(nm \<mapsto> n)" "entries d nm = None" using link [OF assms(1-3), of nm] assms(4) by auto
  then obtain d'' where "remove d' nm = Some d''" "ok d''" "entries d'' = (entries d')(nm := None)" using remove [OF d'(1), of nm] by auto
  then show ?thesis using d'(2,3) by (auto simp: fun_eq_iff)
qed

lemma link_twice:
  assumes "ok d" and "0 < n" and "n < 2 ^ 32" and "link d nm n = Some (None, d')" and "0 < m" and "m < 2 ^ 32"
  shows "\<exists>er. link d' nm m = Some (Some er, d')"
proof -
  have d': "ok d'" "entries d' = (entries d)(nm \<mapsto> n)" using link [OF assms(1-3), of nm] assms(4) by auto
  then show ?thesis using link [OF d'(1) assms(5,6), of nm] by auto
qed

end

text \<open>There is room for one more entry.\<close>

definition dir_room :: "(nat \<Rightarrow> bool) \<Rightarrow> inode \<Rightarrow> bool" where
  "dir_room gb ip \<longleftrightarrow> (\<forall>b. gb b) \<and> i_size ip + entry_size \<le> block_size * max_file_block_count"

interpretation directory: name_table "\<lambda>ip. dir_inv ip \<and> has_blocks gb ip" dir_map "lookupChild gb" "linkEntry gb pad" "removeEntry gb pad" "dir_room gb"
proof unfold_locales
  fix d :: inode and nm :: string and n :: nat
  assume ok: "dir_inv d \<and> has_blocks gb d"
  show "\<exists>r. lookupChild gb d nm = Some r \<and> map_option fst r = dir_map d nm"
    using lookupChild_map [of d gb nm] ok by auto
  show "\<exists>d'. removeEntry gb pad d nm = Some d' \<and> (dir_inv d' \<and> has_blocks gb d') \<and> dir_map d' = (dir_map d)(nm := None)" if "dir_map d nm \<noteq> None"
    using removeEntry_spec [of d gb nm pad] ok that by blast
  assume n: "0 < n" "n < 2 ^ 32"
  show "(\<exists>er. linkEntry gb pad d nm n = Some (Some er, d) \<and> (length nm > max_name_length \<or> dir_map d nm \<noteq> None \<or> \<not> dir_room gb d)) \<or>
      (\<exists>d'. linkEntry gb pad d nm n = Some (None, d') \<and> (dir_inv d' \<and> has_blocks gb d') \<and> dir_map d' = (dir_map d)(nm \<mapsto> n) \<and>
        length nm \<le> max_name_length \<and> dir_map d nm = None)"
  proof (rule linkEntry_cases [of d gb n pad nm])
    fix k ip'
    assume l: "linkEntry gb pad d nm n = Some (None, ip')" "length nm \<le> max_name_length" "dir_map d nm = None" "open_slot_at d k"
      "slot_written d k (fresh_entry pad nm n) ip'" "has_blocks gb ip'"
    note F = fresh_entry [where pad = pad, OF l(2) n(2)]
    have "dir_inv ip'" "dir_map ip' = (dir_map d)(nm \<mapsto> n)"
      using open_slot_map [of d k "fresh_entry pad nm n" ip'] ok l n(1) F by simp_all
    then show ?thesis using l by blast
  qed (use ok n in \<open>auto simp: dir_room_def\<close>)
qed


text \<open>Linking and removing leave the other entries where they are, so \<open>.\<close> and \<open>..\<close> stay in front.\<close>

lemma linkEntry_dots:
  assumes "dir_inv ip" and "has_blocks gb ip" and "0 < n" and "n < 2 ^ 32" and "linkEntry gb pad ip nm n = Some (r, ip')" and "dots ip self parent"
  shows "dots ip' self parent"
  using assms(1-4)
proof (rule linkEntry_cases [of ip gb n pad nm])
  fix k ip''
  assume l: "linkEntry gb pad ip nm n = Some (None, ip'')" "open_slot_at ip k" "slot_written ip k (fresh_entry pad nm n) ip''"
  have "k \<noteq> 0 \<and> k \<noteq> 1" using l(2) assms(6) by (auto simp: open_slot_at_def dots_def holds_def intro!: gr0I)
  then show ?thesis using l assms(5,6) by (auto simp: slot_written_def dots_def holds_def)
qed (use assms(5,6) in auto)

lemma clearEntry_dots:
  assumes "dir_inv ip" and "has_blocks gb ip" and "j < slots ip" and "holds ip nm j" and "nm \<noteq> ''.''" and "nm \<noteq> ''..''"
    and "clearEntry gb pad ip (j * entry_size) = Some ip'" and "dots ip self parent"
  shows "dots ip' self parent"
proof -
  have "j \<noteq> 0 \<and> j \<noteq> 1" using assms(4-6,8) by (auto simp: dots_def holds_def intro!: gr0I)
  moreover have "slots ip' = slots ip" "\<forall>i. i \<noteq> j \<longrightarrow> slot ip' i = slot ip i" using clearEntry_spec [OF assms(1-4), of pad] assms(7) by auto
  ultimately show ?thesis using assms(8) by (simp add: dots_def holds_def)
qed

text \<open>The first two links of a new directory are its dots.\<close>

lemma link_appends:
  assumes "dir_inv ip" and "has_blocks gb ip" and "0 < n" and "n < 2 ^ 32" and "linkEntry gb pad ip nm n = Some (None, ip')"
    and "\<forall>j < slots ip. inode_number (slot ip j) \<noteq> 0"
  shows "slot_written ip (slots ip) (fresh_entry pad nm n) ip'" "length nm \<le> max_name_length"
proof -
  have "slot_written ip (slots ip) (fresh_entry pad nm n) ip' \<and> length nm \<le> max_name_length"
    using assms(1-4)
  proof (rule linkEntry_cases [of ip gb n pad nm])
    fix k ip''
    assume l: "linkEntry gb pad ip nm n = Some (None, ip'')" "length nm \<le> max_name_length" "open_slot_at ip k" "slot_written ip k (fresh_entry pad nm n) ip''"
    have "k = slots ip" using l(3) assms(6) by (auto simp: open_slot_at_def le_less)
    then show ?thesis using l assms(5) by simp
  qed (use assms(5) in auto)
  then show "slot_written ip (slots ip) (fresh_entry pad nm n) ip'" "length nm \<le> max_name_length" by simp_all
qed

text \<open>Clearing the entry that a lookup found.\<close>

lemma clear_found:
  assumes inv: "dir_inv ip" and gb: "has_blocks gb ip" and f: "lookupChild gb ip nm = Some (Some (k, off))"
  shows "\<exists>ip'. clearEntry gb pad ip off = Some ip' \<and> dir_inv ip' \<and> has_blocks gb ip' \<and> dir_map ip' = (dir_map ip)(nm := None) \<and>
    (nm \<noteq> ''.'' \<and> nm \<noteq> ''..'' \<longrightarrow> (\<forall>a b. dots ip a b \<longrightarrow> dots ip' a b))"
proof -
  obtain j where j: "find (holds ip nm) [0..<slots ip] = Some j" "off = j * entry_size"
    using f by (auto simp: lookupChild_find [OF inv gb])
  then have h: "j < slots ip" "holds ip nm j" by (auto simp: find_Some_iff)
  obtain ip' where ip': "clearEntry gb pad ip off = Some ip'" "dir_inv ip'" "has_blocks gb ip'" "dir_map ip' = (dir_map ip)(nm := None)"
    using clearEntry_spec [OF inv gb h, of pad] j(2) by blast
  moreover have "dots ip' a b" if "nm \<noteq> ''.''" "nm \<noteq> ''..''" "dots ip a b" for a b
    using clearEntry_dots [OF inv gb h that(1,2) _ that(3)] ip'(1) j(2) by simp
  ultimately show ?thesis by blast
qed

definition empty_data :: inode where
  "empty_data = \<lparr>i_size = 0, i_block = (\<lambda>b. replicate block_size (char_of (0::nat)))\<rparr>"

lemma empty_data: "dir_inv empty_data" "dir_map empty_data = Map.empty" "slots empty_data = 0" "has_blocks gb empty_data"
  by (simp_all add: dir_inv_def empty_data_def inode_inv_def slots_def dir_map_def fun_eq_iff has_blocks_def)

lemma first_links:
  assumes n: "0 < self" "self < 2 ^ 32" and p: "0 < parent" "parent < 2 ^ 32"
    and l1: "linkEntry gb pad empty_data ''.'' self = Some (None, ip1)" and ok1: "dir_inv ip1" "has_blocks gb ip1"
    and l2: "linkEntry gb pad ip1 ''..'' parent = Some (None, ip2)"
  shows "dots ip2 self parent"
proof -
  have w1: "slot_written empty_data 0 (fresh_entry pad ''.'' self) ip1"
    using link_appends(1) [OF empty_data(1,4) n l1] by (simp add: empty_data)
  have ml: "length ''.'' \<le> max_name_length" "length ''..'' \<le> max_name_length" by (simp_all add: max_name_length_def entry_size_def)
  note F1 = fresh_entry [where pad = pad, OF ml(1) n(2)] and F2 = fresh_entry [where pad = pad, OF ml(2) p(2)]
  have s1: "slots ip1 = 1" "slot ip1 0 = fresh_entry pad ''.'' self" using w1 by (simp_all add: slot_written_def empty_data)
  have w2: "slot_written ip1 1 (fresh_entry pad ''..'' parent) ip2"
    using link_appends(1) [OF ok1 p l2] s1 F1(3) n(1) by simp
  then show ?thesis using s1 F1 F2 n(1) p(1) by (simp add: dots_def holds_def slot_written_def)
qed

subsection \<open>Directories from lists\<close>

definition dir_of :: "(string \<times> nat) list \<Rightarrow> inode" where
  "dir_of es = fold (\<lambda>(nm, n) ip. snd (the (linkEntry (\<lambda>_. True) (\<lambda>_. char_of (0::nat)) ip nm n))) es empty_data"

definition short_entries :: "(string \<times> nat) list \<Rightarrow> bool" where
  "short_entries es \<longleftrightarrow> distinct (map fst es) \<and> length es \<le> 100 \<and> (\<forall>(nm, n) \<in> set es. length nm \<le> max_name_length \<and> 0 < n \<and> n < 2 ^ 32)"

lemma dir_of_step:
  assumes "dir_inv ip" and "length nm \<le> max_name_length" and "0 < n" "n < 2 ^ 32" and "dir_map ip nm = None" and "slots ip < 100"
    and "\<forall>j < slots ip. inode_number (slot ip j) \<noteq> 0"
  shows "\<exists>ip'. linkEntry (\<lambda>_. True) pad ip nm n = Some (None, ip') \<and> slot_written ip (slots ip) (fresh_entry pad nm n) ip' \<and>
    dir_inv ip' \<and> dir_map ip' = (dir_map ip)(nm \<mapsto> n)"
proof -
  have gb: "has_blocks (\<lambda>_. True) ip" by (simp add: has_blocks_def)
  have sz: "i_size ip + entry_size \<le> block_size * max_file_block_count"
    using slot_bound(3) [of ip] assms(1,6) by (simp add: dir_inv_def entry_size_def block_size_def max_file_block_count_def)
  show ?thesis
    using assms(1) gb assms(3,4)
  proof (rule linkEntry_cases [of ip "\<lambda>_. True" n pad nm])
    fix k ip'
    assume l: "linkEntry (\<lambda>_. True) pad ip nm n = Some (None, ip')" "open_slot_at ip k" "slot_written ip k (fresh_entry pad nm n) ip'"
    have "k = slots ip" using l(2) assms(7) by (auto simp: open_slot_at_def le_less)
    moreover note F = fresh_entry [where pad = pad, OF assms(2,4)]
    have "dir_inv ip'" "dir_map ip' = (dir_map ip)(nm \<mapsto> n)"
      using open_slot_map [OF assms(1) l(2,3)] assms(3,5) F by simp_all
    ultimately show ?thesis using l by blast
  qed (use assms(2,5) sz in auto)
qed

lemma dir_of:
  assumes "short_entries es"
  shows "dir_inv (dir_of es) \<and> dir_map (dir_of es) = map_of es \<and> slots (dir_of es) = length es \<and>
    (\<forall>j < length es. inode_number (slot (dir_of es) j) = snd (es ! j) \<and> nameSlice (slot (dir_of es) j) = fst (es ! j))"
  using assms
proof (induction es rule: rev_induct)
  case Nil
  then show ?case by (simp add: dir_of_def empty_data)
next
  case (snoc e es)
  obtain nm n where e: "e = (nm, n)" by (cases e)
  have IH: "dir_inv (dir_of es)" "dir_map (dir_of es) = map_of es" "slots (dir_of es) = length es"
    "\<forall>j < length es. inode_number (slot (dir_of es) j) = snd (es ! j) \<and> nameSlice (slot (dir_of es) j) = fst (es ! j)"
    using snoc by (simp_all add: short_entries_def)
  have s: "length nm \<le> max_name_length" "0 < n" "n < 2 ^ 32" "nm \<notin> fst ` set es" "length es < 100" "\<forall>(nm, n) \<in> set es. 0 < n"
    using snoc.prems e by (auto simp: short_entries_def)
  have nz: "\<forall>j < length es. inode_number (slot (dir_of es) j) \<noteq> 0"
    using IH(4) s(6) by (metis case_prod_unfold gr_implies_not_zero nth_mem)
  have new: "dir_map (dir_of es) nm = None" using s(4) IH(2) by (simp add: map_of_eq_None_iff)
  obtain ip' where ip': "linkEntry (\<lambda>_. True) (\<lambda>_. char_of (0::nat)) (dir_of es) nm n = Some (None, ip')"
      "slot_written (dir_of es) (length es) (fresh_entry (\<lambda>_. char_of (0::nat)) nm n) ip'" "dir_inv ip'" "dir_map ip' = (dir_map (dir_of es))(nm \<mapsto> n)"
    using dir_of_step [OF IH(1) s(1-3) new, of "\<lambda>_. char_of (0::nat)"] nz s(5) IH(3) by auto
  have eq: "dir_of (es @ [e]) = ip'" using ip'(1) e by (simp add: dir_of_def)
  moreover have "map_of es nm = None" using s(4) by (simp add: map_of_eq_None_iff)
  then have "dir_map ip' = map_of (es @ [e])" using ip'(4) IH(2) e by (auto simp: fun_eq_iff map_add_def split: option.splits)
  moreover have "slots ip' = length (es @ [e])" using ip'(2) IH(3) by (simp add: slot_written_def)
  moreover have "\<forall>j < length (es @ [e]). inode_number (slot ip' j) = snd ((es @ [e]) ! j) \<and> nameSlice (slot ip' j) = fst ((es @ [e]) ! j)"
    using ip'(2) IH(4) e fresh_entry [OF s(1,3)] by (auto simp: slot_written_def nth_append)
  ultimately show ?case using ip'(3) by simp
qed


subsection \<open>Properties\<close>

text \<open>
  C9.  A directory is a finite map from names to inode numbers.  A lookup returns the number the map has for the name.  Linking a name either adds exactly this name,
  or is refused and changes nothing; it is refused only for a name of more than 27 bytes, for a name that exists, and when there is no room for one more entry.
  Clearing the entry that the lookup of any existing name has found takes exactly this name out of the map, whatever was linked before or after it, and so undoes a link.
  In a directory that starts with its entries for itself and its parent, the emptiness test
  says whether the map has no other names, and links and removals of other names keep those two entries in front.
\<close>

theorem directory_is_map:
  assumes "dir_inv ip" and "has_blocks gb ip" and "0 < n" and "n < 2 ^ 32"
  shows "(\<exists>r. lookupChild gb ip x = Some r \<and> map_option fst r = dir_map ip x) \<and>
    ((\<exists>er. linkEntry gb pad ip nm n = Some (Some er, ip) \<and> (length nm > max_name_length \<or> dir_map ip nm \<noteq> None \<or> \<not> dir_room gb ip)) \<or>
     (\<exists>ip'. linkEntry gb pad ip nm n = Some (None, ip') \<and> dir_inv ip' \<and> has_blocks gb ip' \<and> dir_map ip' = (dir_map ip)(nm \<mapsto> n) \<and>
       length nm \<le> max_name_length \<and> dir_map ip nm = None \<and> (\<forall>a b. dots ip a b \<longrightarrow> dots ip' a b))) \<and>
    (\<forall>y i off. lookupChild gb ip y = Some (Some (i, off)) \<longrightarrow>
      (\<exists>ip'. clearEntry gb pad ip off = Some ip' \<and> dir_inv ip' \<and> has_blocks gb ip' \<and> dir_map ip' = (dir_map ip)(y := None) \<and>
        (y \<noteq> ''.'' \<and> y \<noteq> ''..'' \<longrightarrow> (\<forall>a b. dots ip a b \<longrightarrow> dots ip' a b)))) \<and>
    (\<forall>a b. dots ip a b \<longrightarrow> isEmpty gb ip = Some (dom (dir_map ip) \<subseteq> {''.'', ''..''}))"
    (is "?look \<and> ?link \<and> ?clear \<and> ?empty")
proof (intro conjI)
  have ok: "dir_inv ip \<and> has_blocks gb ip" using assms by simp
  show ?look using directory.look [OF ok, of x] .
  show ?link
    using directory.link [OF ok assms(3,4), of pad nm] linkEntry_dots [OF assms, of pad nm None] by blast
  show ?clear using clear_found [OF assms(1,2)] by blast
  show ?empty using isEmpty_map [OF assms(1,2)] by blast
qed

theorem directory_is_map_witness:
  "\<exists>ip' ip'' off. linkEntry (\<lambda>_. True) (\<lambda>_. CHR ''x'') (dir_of [(''.'', 1), (''..'', 1)]) ''README'' 2 = Some (None, ip') \<and>
    isEmpty (\<lambda>_. True) ip' = Some False \<and> lookupChild (\<lambda>_. True) ip' ''README'' = Some (Some (2, off)) \<and>
    clearEntry (\<lambda>_. True) (\<lambda>_. CHR ''x'') ip' off = Some ip'' \<and> dir_map ip'' ''README'' = None \<and> isEmpty (\<lambda>_. True) ip'' = Some True"
proof -
  let ?es = "[(''.'', 1), (''..'', 1)]" and ?gb = "\<lambda>_. True" and ?pad = "\<lambda>_. CHR ''x''"
  have s: "short_entries ?es" by (simp add: short_entries_def max_name_length_def entry_size_def)
  note d = dir_of [OF s]
  have gb: "has_blocks ?gb ip" for ip by (simp add: has_blocks_def)
  have d1: "dir_inv (dir_of ?es)" "dir_map (dir_of ?es) = map_of ?es" "dots (dir_of ?es) 1 1"
    using d by (auto simp: dots_def holds_def)
  have room: "dir_room ?gb (dir_of ?es)"
    using d slot_bound(3) [of "dir_of ?es"] by (auto simp: dir_room_def dir_inv_def entry_size_def block_size_def max_file_block_count_def)
  obtain ip' where l: "linkEntry ?gb ?pad (dir_of ?es) ''README'' 2 = Some (None, ip')" "dir_inv ip'"
      "dir_map ip' = (map_of ?es)(''README'' \<mapsto> 2)" "dots ip' 1 1"
    using directory_is_map [OF d1(1) gb, of 2 "''x''" ?pad "''README''"] d1(2,3) room by (auto simp: max_name_length_def entry_size_def)
  note D' = directory_is_map [OF l(2) gb, of 1 "''README''" ?pad "''x''"]
  from D' l(3) obtain off where off: "lookupChild ?gb ip' ''README'' = Some (Some (2, off))" by auto
  with D' obtain ip'' where c: "clearEntry ?gb ?pad ip' off = Some ip''" "dir_inv ip''" "dir_map ip'' = (dir_map ip')(''README'' := None)" "dots ip'' 1 1"
    using l(4) by fastforce
  have "isEmpty ?gb ip' = Some False" using D' l(3,4) by auto
  moreover have "dom (dir_map ip'') \<subseteq> {''.'', ''..''}" using c(3) l(3) by (auto split: if_splits)
  then have "isEmpty ?gb ip'' = Some True" using directory_is_map [OF c(2) gb, of 1] c(4) by auto
  ultimately show ?thesis using l(1) off c by auto
qed

end
