(* ===== verification/Kitab.thy ===== *)
theory Kitab
  imports Kdir
begin

text \<open>
  The inode table of \<^verbatim>\<open>src/kernel/filesystem/inode.zig\<close>: \<open>get\<close>, \<open>duplicate\<close>, \<open>lock\<close>, \<open>release\<close>, \<open>put\<close>, \<open>update\<close> and \<open>alloc\<close> over an array of 50 in-memory inodes and the inodes on the disk.
  An inode pointer of the code is an index into the array.  One process runs at a time: a call that waits for a sleep lock which the process holds itself never returns and is \<open>Deadlock\<close>; \<open>Panic\<close> is the kernel's panic,
  an underflowing reference count included.  The device is always the root device, transactions are left out, and the data of an inode is kept with it (its blocks change only while it is locked).

  The lemmas describe every operation by its effect on the reference counts, the set of locked inodes and the disk.
\<close>

subsection \<open>State\<close>

definition NINODE :: nat where "NINODE = 50"

datatype inode_type = IFree | IDirectory | IFile | IDevice

record disk_inode =
  d_type :: inode_type
  d_link :: nat
  d_device :: "nat \<times> nat"
  d_data :: inode

record islot =
  s_inum :: nat
  s_ref :: nat
  s_locked :: bool
  s_valid :: bool
  s_copy :: disk_inode

record fs =
  itable :: "islot list"
  disk :: "nat \<Rightarrow> disk_inode"
  ninodes :: nat

datatype 'a fres = Done 'a fs | Panic | Deadlock

fun fbind :: "'a fres \<Rightarrow> ('a \<Rightarrow> fs \<Rightarrow> 'b fres) \<Rightarrow> 'b fres" where
  "fbind (Done x s) f = f x s"
| "fbind Panic f = Panic"
| "fbind Deadlock f = Deadlock"

definition set_slot :: "nat \<Rightarrow> islot \<Rightarrow> fs \<Rightarrow> fs" where
  "set_slot i e s = s\<lparr>itable := (itable s)[i := e]\<rparr>"

subsection \<open>Operations\<close>

text \<open>The slot of the inode, if it is in the table, and the first empty slot before it.\<close>

fun get_scan :: "nat \<Rightarrow> islot list \<Rightarrow> nat \<Rightarrow> nat option \<Rightarrow> nat option \<times> nat option" where
  "get_scan n [] i empty_inode = (None, empty_inode)"
| "get_scan n (e # es) i empty_inode =
     (if s_ref e > 0 \<and> s_inum e = n then (Some i, empty_inode)
      else get_scan n es (Suc i) (if empty_inode = None \<and> s_ref e = 0 then Some i else empty_inode))"

definition get :: "nat \<Rightarrow> fs \<Rightarrow> nat fres" where
  "get n s =
     (case get_scan n (itable s) 0 None of
        (Some i, _) \<Rightarrow> let e = itable s ! i in Done i (set_slot i (e\<lparr>s_ref := s_ref e + 1\<rparr>) s)
      | (None, None) \<Rightarrow> Panic
      | (None, Some i) \<Rightarrow> Done i (set_slot i ((itable s ! i)\<lparr>s_inum := n, s_ref := 1, s_valid := False\<rparr>) s))"

definition duplicate :: "nat \<Rightarrow> fs \<Rightarrow> nat fres" where
  "duplicate i s = (let e = itable s ! i in Done i (set_slot i (e\<lparr>s_ref := s_ref e + 1\<rparr>) s))"

definition lock :: "nat \<Rightarrow> fs \<Rightarrow> unit fres" where
  "lock i s =
     (let e = itable s ! i in
      if s_ref e < 1 then Panic
      else if s_locked e then Deadlock
      else if s_valid e then Done () (set_slot i (e\<lparr>s_locked := True\<rparr>) s)
      else let di = disk s (s_inum e) in
           if d_type di = IFree then Panic
           else Done () (set_slot i (e\<lparr>s_locked := True, s_copy := di, s_valid := True\<rparr>) s))"

definition release :: "nat \<Rightarrow> fs \<Rightarrow> unit fres" where
  "release i s =
     (let e = itable s ! i in
      if \<not> s_locked e then Panic
      else if s_ref e < 1 then Panic
      else Done () (set_slot i (e\<lparr>s_locked := False\<rparr>) s))"

definition update :: "nat \<Rightarrow> fs \<Rightarrow> fs" where
  "update i s = (let e = itable s ! i in s\<lparr>disk := (disk s)(s_inum e := s_copy e)\<rparr>)"

text \<open>A change of the in-memory copy, written back by \<open>update\<close>.\<close>

definition change :: "nat \<Rightarrow> (disk_inode \<Rightarrow> disk_inode) \<Rightarrow> fs \<Rightarrow> fs" where
  "change i f s = (let e = itable s ! i in update i (set_slot i (e\<lparr>s_copy := f (s_copy e)\<rparr>) s))"

definition inode_trunc :: "nat \<Rightarrow> fs \<Rightarrow> fs" where
  "inode_trunc i s = change i (\<lambda>di. di\<lparr>d_data := inode_truncate (d_data di)\<rparr>) s"

definition put_free :: "nat \<Rightarrow> fs \<Rightarrow> fs" where
  "put_free i s =
     (let s = change i (\<lambda>di. di\<lparr>d_type := IFree\<rparr>) (inode_trunc i s) in set_slot i ((itable s ! i)\<lparr>s_valid := False\<rparr>) s)"

definition drop_ref :: "nat \<Rightarrow> fs \<Rightarrow> unit fres" where
  "drop_ref i s = (let e = itable s ! i in if s_ref e = 0 then Panic else Done () (set_slot i (e\<lparr>s_ref := s_ref e - 1\<rparr>) s))"

definition put :: "nat \<Rightarrow> fs \<Rightarrow> unit fres" where
  "put i s =
     (let e = itable s ! i in
      if s_ref e = 1 \<and> s_valid e \<and> d_link (s_copy e) = 0
      then if s_locked e then Deadlock else drop_ref i (put_free i s)
      else drop_ref i s)"

definition releasePut :: "nat \<Rightarrow> fs \<Rightarrow> unit fres" where
  "releasePut i s = fbind (release i s) (\<lambda>_ s. put i s)"

text \<open>The first free inode of the disk becomes an inode of the given type; no inode is \<open>OutOfInodes\<close>.\<close>

definition fresh_inode :: "inode_type \<Rightarrow> disk_inode" where
  "fresh_inode kind = \<lparr>d_type = kind, d_link = 0, d_device = (0, 0), d_data = empty_data\<rparr>"

definition alloc :: "inode_type \<Rightarrow> fs \<Rightarrow> nat option fres" where
  "alloc kind s =
     (case find (\<lambda>n. d_type (disk s n) = IFree) [1..<ninodes s] of
        None \<Rightarrow> Done None s
      | Some n \<Rightarrow> fbind (get n (s\<lparr>disk := (disk s)(n := fresh_inode kind)\<rparr>)) (\<lambda>i s. Done (Some i) s))"

subsection \<open>The table as reference counts and locks\<close>

definition slot_of :: "fs \<Rightarrow> nat \<Rightarrow> nat \<Rightarrow> bool" where
  "slot_of s i n \<longleftrightarrow> i < length (itable s) \<and> 0 < s_ref (itable s ! i) \<and> s_inum (itable s ! i) = n"

definition irefs :: "fs \<Rightarrow> nat \<Rightarrow> nat" where
  "irefs s n = (case find (\<lambda>e. 0 < s_ref e \<and> s_inum e = n) (itable s) of None \<Rightarrow> 0 | Some e \<Rightarrow> s_ref e)"

definition ilocked :: "fs \<Rightarrow> nat set" where
  "ilocked s = {n. \<exists>i. slot_of s i n \<and> s_locked (itable s ! i)}"

text \<open>No inode is in two slots, an empty slot is not locked, a locked one is valid, and the copy of a valid one is what is on the disk.\<close>

definition table_ok :: "fs \<Rightarrow> bool" where
  "table_ok s \<longleftrightarrow> length (itable s) = NINODE \<and> (\<forall>i j n. slot_of s i n \<and> slot_of s j n \<longrightarrow> i = j) \<and>
     (\<forall>i < NINODE. s_ref (itable s ! i) = 0 \<longrightarrow> \<not> s_locked (itable s ! i)) \<and>
     (\<forall>i n. slot_of s i n \<longrightarrow> (s_locked (itable s ! i) \<longrightarrow> s_valid (itable s ! i)) \<and> (s_valid (itable s ! i) \<longrightarrow> s_copy (itable s ! i) = disk s n))"

text \<open>\<open>s'\<close> is a table with these counts, locks and disk, in which every slot of \<open>s\<close> is still where it was unless its last reference is gone.\<close>

definition moved :: "fs \<Rightarrow> fs \<Rightarrow> (nat \<Rightarrow> nat) \<Rightarrow> nat set \<Rightarrow> (nat \<Rightarrow> disk_inode) \<Rightarrow> bool" where
  "moved s s' R L D \<longleftrightarrow> table_ok s' \<and> irefs s' = R \<and> ilocked s' = L \<and> disk s' = D \<and> ninodes s' = ninodes s \<and>
     (\<forall>i n. slot_of s i n \<and> 0 < R n \<longrightarrow> slot_of s' i n)"

lemma irefs_slot:
  assumes "table_ok s" and "slot_of s i n"
  shows "irefs s n = s_ref (itable s ! i)"
proof -
  have "\<exists>e \<in> set (itable s). 0 < s_ref e \<and> s_inum e = n" using assms(2) by (force simp: slot_of_def)
  then obtain e where e: "find (\<lambda>e. 0 < s_ref e \<and> s_inum e = n) (itable s) = Some e"
    by (metis (mono_tags, lifting) find_None_iff not_None_eq)
  then obtain j where "j < length (itable s)" "0 < s_ref (itable s ! j)" "s_inum (itable s ! j) = n" "e = itable s ! j"
    by (auto simp: find_Some_iff)
  moreover have "j = i" using assms calculation unfolding table_ok_def by (metis slot_of_def)
  ultimately show ?thesis using e by (simp add: irefs_def)
qed

lemma irefs_0: "irefs s n = 0 \<longleftrightarrow> (\<forall>i. \<not> slot_of s i n)"
proof
  assume "irefs s n = 0"
  then have "find (\<lambda>e. 0 < s_ref e \<and> s_inum e = n) (itable s) = None"
    by (auto simp: irefs_def find_Some_iff split: option.splits)
  then show "\<forall>i. \<not> slot_of s i n" by (auto simp: find_None_iff slot_of_def)
next
  assume "\<forall>i. \<not> slot_of s i n"
  then have "find (\<lambda>e. 0 < s_ref e \<and> s_inum e = n) (itable s) = None"
    by (auto simp: find_None_iff slot_of_def in_set_conv_nth)
  then show "irefs s n = 0" by (simp add: irefs_def)
qed


lemma irefs_eqI:
  assumes "table_ok s" and "slot_of s i n \<and> s_ref (itable s ! i) = k \<or> k = 0 \<and> (\<forall>j. \<not> slot_of s j n)"
  shows "irefs s n = k"
  using assms irefs_slot [OF assms(1)] irefs_0 [of s n] by auto

text \<open>Writing one slot, for an inode that is in this slot or nowhere.\<close>

lemma moved_slot:
  assumes ok: "table_ok s" and i: "i < NINODE" and u: "\<forall>j. slot_of s j n \<longrightarrow> j = i"
    and old: "s_ref (itable s ! i) = 0 \<or> s_inum (itable s ! i) = n"
    and e: "s_inum e = n" "s_locked e \<longrightarrow> s_valid e \<and> 0 < s_ref e" "s_valid e \<longrightarrow> s_copy e = d"
    and s': "itable s' = (itable s)[i := e]" "disk s' = (disk s)(n := d)" "ninodes s' = ninodes s"
  shows "moved s s' ((irefs s)(n := s_ref e)) (if s_locked e then insert n (ilocked s) else ilocked s - {n}) ((disk s)(n := d))"
proof -
  have len: "length (itable s) = NINODE" using ok by (simp add: table_ok_def)
  have sl: "slot_of s' j m \<longleftrightarrow> (if j = i then m = n \<and> 0 < s_ref e else m \<noteq> n \<and> slot_of s j m)" for j m
    using i len e(1) u s'(1) by (auto simp: slot_of_def nth_list_update)
  have other: "m \<noteq> n \<Longrightarrow> slot_of s' j m \<longleftrightarrow> slot_of s j m" for j m using sl [of j m] old by (auto simp: slot_of_def)
  have it: "itable s' ! j = (if j = i then e else itable s ! j)" for j using s'(1) i len by (simp add: nth_list_update)
  have same: "slot_of s j m \<Longrightarrow> m \<noteq> n \<Longrightarrow> j \<noteq> i" for j m using old by (auto simp: slot_of_def)
  have "table_ok s'"
    unfolding table_ok_def
  proof (intro conjI allI impI)
    show "length (itable s') = NINODE" using s'(1) len by simp
    show "j = k" if "slot_of s' j m \<and> slot_of s' k m" for j k m
      using that ok unfolding table_ok_def sl by (auto split: if_splits)
    show "\<not> s_locked (itable s' ! j)" if "j < NINODE" "s_ref (itable s' ! j) = 0" for j
      using that ok e(2) unfolding table_ok_def it by (auto split: if_splits)
    show "s_valid (itable s' ! j)" if "slot_of s' j m" "s_locked (itable s' ! j)" for j m
      using that ok e(2) unfolding table_ok_def sl it by (auto split: if_splits)
    show "s_copy (itable s' ! j) = disk s' m" if "slot_of s' j m" "s_valid (itable s' ! j)" for j m
      using that ok e(3) unfolding table_ok_def sl it s'(2) by (auto split: if_splits)
  qed
  moreover have "irefs s' m = ((irefs s)(n := s_ref e)) m" for m
  proof (cases "m = n")
    case True
    then show ?thesis using sl by (intro irefs_eqI [OF \<open>table_ok s'\<close>, of i]) (auto simp: it)
  next
    case False
    show ?thesis
    proof (cases "\<exists>j. slot_of s j m")
      case True
      then obtain j where j: "slot_of s j m" by blast
      then have "slot_of s' j m" "itable s' ! j = itable s ! j" using other False same it by auto
      then show ?thesis using False j irefs_slot [OF ok j] irefs_slot [OF \<open>table_ok s'\<close>] by simp
    next
      case none: False
      then have "irefs s m = 0" "irefs s' m = 0" using other [OF False] unfolding irefs_0 by auto
      then show ?thesis using False by simp
    qed
  qed
  moreover have "ilocked s' = (if s_locked e then insert n (ilocked s) else ilocked s - {n})"
    using e(2) same unfolding ilocked_def sl it by (auto split: if_splits)
  moreover have "slot_of s' j m" if "slot_of s j m" "0 < ((irefs s)(n := s_ref e)) m" for j m
    using that other u sl by (cases "m = n") auto
  ultimately show ?thesis using s' by (simp add: moved_def fun_eq_iff)
qed

lemma slot_ofD:
  assumes "table_ok s" and "slot_of s i n"
  shows "i < NINODE" "\<forall>j. slot_of s j n \<longrightarrow> j = i" "s_inum (itable s ! i) = n" "s_ref (itable s ! i) = irefs s n" "0 < irefs s n"
    "s_locked (itable s ! i) \<longleftrightarrow> n \<in> ilocked s" "s_valid (itable s ! i) \<Longrightarrow> s_copy (itable s ! i) = disk s n"
    "n \<in> ilocked s \<Longrightarrow> s_valid (itable s ! i)"
proof -
  have len: "length (itable s) = NINODE" using assms(1) by (simp add: table_ok_def)
  show u: "\<forall>j. slot_of s j n \<longrightarrow> j = i" using assms unfolding table_ok_def by blast
  show i: "i < NINODE" "s_inum (itable s ! i) = n" "s_ref (itable s ! i) = irefs s n" "0 < irefs s n"
    using assms(2) irefs_slot [OF assms] len by (simp_all add: slot_of_def)
  show l: "s_locked (itable s ! i) \<longleftrightarrow> n \<in> ilocked s" using assms(2) u unfolding ilocked_def by blast
  have "\<forall>i n. slot_of s i n \<longrightarrow> (s_locked (itable s ! i) \<longrightarrow> s_valid (itable s ! i)) \<and> (s_valid (itable s ! i) \<longrightarrow> s_copy (itable s ! i) = disk s n)"
    using assms(1) by (simp add: table_ok_def)
  then have "(s_locked (itable s ! i) \<longrightarrow> s_valid (itable s ! i)) \<and> (s_valid (itable s ! i) \<longrightarrow> s_copy (itable s ! i) = disk s n)" using assms(2) by blast
  then show "s_valid (itable s ! i) \<Longrightarrow> s_copy (itable s ! i) = disk s n" "n \<in> ilocked s \<Longrightarrow> s_valid (itable s ! i)"
    using l by blast+
qed

subsection \<open>The effect of the operations\<close>

lemma get_scan_spec:
  "get_scan n es k emp = (r, em) \<Longrightarrow>
   (case r of Some i \<Rightarrow> k \<le> i \<and> i < k + length es \<and> 0 < s_ref (es ! (i - k)) \<and> s_inum (es ! (i - k)) = n
    | None \<Rightarrow> (\<forall>e \<in> set es. \<not> (0 < s_ref e \<and> s_inum e = n)) \<and>
        (case em of None \<Rightarrow> emp = None \<and> (\<forall>e \<in> set es. 0 < s_ref e)
         | Some i \<Rightarrow> emp = Some i \<or> k \<le> i \<and> i < k + length es \<and> s_ref (es ! (i - k)) = 0))"
proof (induction n es k emp rule: get_scan.induct)
  case (2 n e es k emp)
  show ?case
  proof (cases "0 < s_ref e \<and> s_inum e = n")
    case True
    then show ?thesis using "2.prems" by auto
  next
    case False
    then have "get_scan n es (Suc k) (if emp = None \<and> s_ref e = 0 then Some k else emp) = (r, em)" using "2.prems" by auto
    from "2.IH" [OF False this] False show ?thesis
      by (auto split: option.splits if_splits simp: nth_Cons' Suc_le_eq)
  qed
qed (auto split: option.splits)


definition used :: "fs \<Rightarrow> nat set" where
  "used s = {n. 0 < irefs s n}"

lemma used_slots: "used s = (\<lambda>i. s_inum (itable s ! i)) ` {i. i < length (itable s) \<and> 0 < s_ref (itable s ! i)}"
proof -
  have "used s = {n. \<exists>i. slot_of s i n}" by (simp add: used_def neq0_conv [symmetric] irefs_0 del: neq0_conv)
  then show ?thesis by (auto simp: slot_of_def)
qed

lemma finite_used [simp]: "finite (used s)"
  by (simp add: used_slots)

lemma full_table:
  assumes "table_ok s" and "\<forall>e \<in> set (itable s). 0 < s_ref e"
  shows "card (used s) = NINODE"
proof -
  have len: "length (itable s) = NINODE" using assms(1) by (simp add: table_ok_def)
  have "\<forall>i j n. slot_of s i n \<and> slot_of s j n \<longrightarrow> i = j" using assms(1) by (simp add: table_ok_def)
  then have "inj_on (\<lambda>i. s_inum (itable s ! i)) {..<NINODE}" using assms(2) len by (intro inj_onI) (simp add: slot_of_def)
  moreover have "{i. i < length (itable s) \<and> 0 < s_ref (itable s ! i)} = {..<NINODE}" using assms(2) len by auto
  ultimately show ?thesis by (simp add: used_slots card_image)
qed

lemma moved_same_disk: "moved s s' R L ((disk s)(n := disk s n)) \<Longrightarrow> moved s s' R L (disk s)"
  by simp

lemma get_spec:
  assumes ok: "table_ok s" and room: "0 < irefs s n \<or> card (used s) < NINODE"
  shows "\<exists>i s'. get n s = Done i s' \<and> slot_of s' i n \<and> moved s s' ((irefs s)(n := Suc (irefs s n))) (ilocked s) (disk s)"
proof -
  obtain r em where g: "get_scan n (itable s) 0 None = (r, em)" by (cases "get_scan n (itable s) 0 None")
  note G = get_scan_spec [OF g]
  have len: "length (itable s) = NINODE" using ok by (simp add: table_ok_def)
  show ?thesis
  proof (cases r)
    case (Some i)
    let ?e = "(itable s ! i)\<lparr>s_ref := s_ref (itable s ! i) + 1\<rparr>"
    have i: "slot_of s i n" using G Some by (simp add: slot_of_def)
    note S = slot_ofD [OF ok i]
    have "moved s (set_slot i ?e s) ((irefs s)(n := s_ref ?e)) (if s_locked ?e then insert n (ilocked s) else ilocked s - {n}) ((disk s)(n := disk s n))"
      using S by (intro moved_slot [OF ok S(1,2)]) (simp_all add: set_slot_def)
    then have "moved s (set_slot i ?e s) ((irefs s)(n := Suc (irefs s n))) (ilocked s) (disk s)" using S(4,6) by (simp add: insert_absorb split: if_splits)
    moreover have "slot_of (set_slot i ?e s) i n" using S i by (simp add: slot_of_def set_slot_def)
    ultimately show ?thesis using g Some by (simp add: get_def Let_def)
  next
    case None
    then have none: "\<forall>i. \<not> slot_of s i n" using G by (auto simp: slot_of_def)
    then have z: "irefs s n = 0" by (simp add: irefs_0)
    then have "em \<noteq> None" using G None room full_table [OF ok] by (auto split: option.splits)
    then obtain i where em: "em = Some i" by blast
    then have i: "i < NINODE" "s_ref (itable s ! i) = 0" using G None len by simp_all
    let ?e = "(itable s ! i)\<lparr>s_inum := n, s_ref := 1, s_valid := False\<rparr>"
    have nl: "\<not> s_locked (itable s ! i)" using ok i by (simp add: table_ok_def)
    have "moved s (set_slot i ?e s) ((irefs s)(n := s_ref ?e)) (if s_locked ?e then insert n (ilocked s) else ilocked s - {n}) ((disk s)(n := disk s n))"
      using none i nl by (intro moved_slot [OF ok i(1)]) (simp_all add: set_slot_def)
    moreover have "n \<notin> ilocked s" using none by (auto simp: ilocked_def)
    ultimately have "moved s (set_slot i ?e s) ((irefs s)(n := Suc (irefs s n))) (ilocked s) (disk s)" using nl z by simp
    moreover have "slot_of (set_slot i ?e s) i n" using i len by (simp add: slot_of_def set_slot_def)
    ultimately show ?thesis using g None em by (simp add: get_def)
  qed
qed

text \<open>One slot changes in place, the disk with it or not.\<close>

lemma moved_in_place:
  assumes ok: "table_ok s" and i: "slot_of s i n" and e: "s_inum e = n" "s_locked e \<longrightarrow> s_valid e \<and> 0 < s_ref e" "s_valid e \<longrightarrow> s_copy e = disk s n"
  shows "moved s (set_slot i e s) ((irefs s)(n := s_ref e)) (if s_locked e then insert n (ilocked s) else ilocked s - {n}) (disk s)"
proof -
  note S = slot_ofD [OF ok i]
  have "moved s (set_slot i e s) ((irefs s)(n := s_ref e)) (if s_locked e then insert n (ilocked s) else ilocked s - {n}) ((disk s)(n := disk s n))"
    using e S by (intro moved_slot [OF ok S(1,2)]) (simp_all add: set_slot_def)
  then show ?thesis by simp
qed

lemma duplicate_spec:
  assumes "table_ok s" and "slot_of s i n"
  shows "\<exists>s'. duplicate i s = Done i s' \<and> slot_of s' i n \<and> moved s s' ((irefs s)(n := Suc (irefs s n))) (ilocked s) (disk s)"
proof -
  note S = slot_ofD [OF assms]
  let ?e = "(itable s ! i)\<lparr>s_ref := s_ref (itable s ! i) + 1\<rparr>"
  have "moved s (set_slot i ?e s) ((irefs s)(n := Suc (irefs s n))) (ilocked s) (disk s)"
    using moved_in_place [OF assms, of ?e] S by (simp add: insert_absorb split: if_splits)
  moreover have "slot_of (set_slot i ?e s) i n" using S assms(2) by (simp add: slot_of_def set_slot_def)
  ultimately show ?thesis by (simp add: duplicate_def Let_def)
qed

lemma lock_spec:
  assumes "table_ok s" and "slot_of s i n" and "n \<notin> ilocked s" and "d_type (disk s n) \<noteq> IFree"
  shows "\<exists>s'. lock i s = Done () s' \<and> slot_of s' i n \<and> s_copy (itable s' ! i) = disk s n \<and> moved s s' (irefs s) (insert n (ilocked s)) (disk s)"
proof -
  note S = slot_ofD [OF assms(1,2)]
  define e where "e = (itable s ! i)\<lparr>s_locked := True, s_copy := disk s n, s_valid := True\<rparr>"
  have same: "(itable s ! i)\<lparr>s_locked := True\<rparr> = e" if "s_valid (itable s ! i)"
    using S(7) [OF that] that by (cases "itable s ! i") (simp add: e_def)
  have len: "length (itable s) = NINODE" using assms(1) by (simp add: table_ok_def)
  have "lock i s = Done () (set_slot i e s)" using S(3-6) assms(3,4) same by (cases "s_valid (itable s ! i)") (simp_all add: lock_def Let_def e_def)
  moreover have "moved s (set_slot i e s) (irefs s) (insert n (ilocked s)) (disk s)"
    using moved_in_place [OF assms(1,2), of e] S by (simp add: e_def)
  moreover have "slot_of (set_slot i e s) i n" using S len by (simp add: slot_of_def set_slot_def e_def)
  ultimately show ?thesis using S(1) len by (simp add: set_slot_def e_def)
qed

lemma lock_deadlock:
  assumes "table_ok s" and "slot_of s i n" and "n \<in> ilocked s"
  shows "lock i s = Deadlock"
  using slot_ofD [OF assms(1,2)] assms(3) by (simp add: lock_def Let_def)

lemma lock_free_panics:
  assumes "table_ok s" and "slot_of s i n" and "n \<notin> ilocked s" and "d_type (disk s n) = IFree" and "\<not> s_valid (itable s ! i)"
  shows "lock i s = Panic"
  using slot_ofD [OF assms(1,2)] assms(3-5) by (simp add: lock_def Let_def)

lemma release_spec:
  assumes "table_ok s" and "slot_of s i n" and "n \<in> ilocked s"
  shows "\<exists>s'. release i s = Done () s' \<and> slot_of s' i n \<and> s_valid (itable s' ! i) \<and> moved s s' (irefs s) (ilocked s - {n}) (disk s)"
proof -
  note S = slot_ofD [OF assms(1,2)]
  let ?e = "(itable s ! i)\<lparr>s_locked := False\<rparr>"
  have len: "length (itable s) = NINODE" using assms(1) by (simp add: table_ok_def)
  have "moved s (set_slot i ?e s) (irefs s) (ilocked s - {n}) (disk s)" using moved_in_place [OF assms(1,2), of ?e] S by simp
  moreover have "slot_of (set_slot i ?e s) i n" using S len by (simp add: slot_of_def set_slot_def)
  ultimately show ?thesis using S assms(3) len by (simp add: release_def Let_def set_slot_def)
qed


text \<open>A change of a locked inode is a change of the disk.\<close>

lemma change_spec:
  assumes "table_ok s" and "slot_of s i n" and "n \<in> ilocked s"
  shows "slot_of (change i f s) i n" "s_copy (itable (change i f s) ! i) = f (disk s n)"
    "moved s (change i f s) (irefs s) (ilocked s) ((disk s)(n := f (disk s n)))"
proof -
  note S = slot_ofD [OF assms(1,2)]
  have v: "s_valid (itable s ! i)" "s_copy (itable s ! i) = disk s n" using S(7,8) assms(3) by simp_all
  have len: "length (itable s) = NINODE" using assms(1) by (simp add: table_ok_def)
  let ?e = "(itable s ! i)\<lparr>s_copy := f (s_copy (itable s ! i))\<rparr>"
  have it: "itable (change i f s) = (itable s)[i := ?e]" "disk (change i f s) = (disk s)(n := f (disk s n))" "ninodes (change i f s) = ninodes s"
    using S(1,3) v len by (simp_all add: change_def update_def set_slot_def Let_def)
  have "moved s (change i f s) ((irefs s)(n := s_ref ?e)) (if s_locked ?e then insert n (ilocked s) else ilocked s - {n}) ((disk s)(n := f (disk s n)))"
    using S v assms(3) by (intro moved_slot [OF assms(1) S(1,2) _ _ _ _ it]) simp_all
  then show "moved s (change i f s) (irefs s) (ilocked s) ((disk s)(n := f (disk s n)))" using S(4,6) assms(3) by (simp add: insert_absorb)
  show "slot_of (change i f s) i n" "s_copy (itable (change i f s) ! i) = f (disk s n)"
    using S(1,3,4,5) len v by (simp_all add: slot_of_def it)
qed

lemma drop_ref_spec:
  assumes "table_ok s" and "slot_of s i n" and "n \<notin> ilocked s \<or> 1 < irefs s n"
  shows "\<exists>s'. drop_ref i s = Done () s' \<and> moved s s' ((irefs s)(n := irefs s n - 1)) (ilocked s) (disk s)"
proof -
  note S = slot_ofD [OF assms(1,2)]
  let ?e = "(itable s ! i)\<lparr>s_ref := s_ref (itable s ! i) - 1\<rparr>"
  have "moved s (set_slot i ?e s) ((irefs s)(n := irefs s n - 1)) (ilocked s) (disk s)"
    using moved_in_place [OF assms(1,2), of ?e] S assms(3) by (auto simp: insert_absorb split: if_splits)
  then show ?thesis using S(4,5) by (simp add: drop_ref_def Let_def)
qed

lemma put_linked:
  assumes "table_ok s" and "slot_of s i n" and "n \<notin> ilocked s \<or> 1 < irefs s n" and "0 < d_link (disk s n) \<or> 1 < irefs s n \<or> \<not> s_valid (itable s ! i)"
  shows "\<exists>s'. put i s = Done () s' \<and> moved s s' ((irefs s)(n := irefs s n - 1)) (ilocked s) (disk s)"
  using slot_ofD [OF assms(1,2)] assms(4) drop_ref_spec [OF assms(1-3)] by (auto simp: put_def Let_def)

text \<open>The last reference to an inode without links frees it.\<close>

definition freed :: "disk_inode \<Rightarrow> disk_inode" where
  "freed di = di\<lparr>d_data := inode_truncate (d_data di), d_type := IFree\<rparr>"

lemma put_unlinked:
  assumes "table_ok s" and "slot_of s i n" and "n \<notin> ilocked s" and "d_link (disk s n) = 0" and "irefs s n = 1" and "s_valid (itable s ! i)"
  shows "\<exists>s'. put i s = Done () s' \<and> moved s s' ((irefs s)(n := 0)) (ilocked s) ((disk s)(n := freed (disk s n)))"
proof -
  note S = slot_ofD [OF assms(1,2)]
  have len: "length (itable s) = NINODE" using assms(1) by (simp add: table_ok_def)
  have cp: "s_copy (itable s ! i) = disk s n" using S(7) assms(6) by simp
  define e where "e = (itable s ! i)\<lparr>s_copy := freed (disk s n), s_valid := False, s_ref := 0\<rparr>"
  have "put i s = drop_ref i (put_free i s)" using S assms(3-6) cp by (simp add: put_def Let_def)
  also have "\<dots> = Done () (s\<lparr>itable := (itable s)[i := e], disk := (disk s)(n := freed (disk s n))\<rparr>)"
    using S(1,3,4) assms(5) cp len
    by (simp add: drop_ref_def put_free_def inode_trunc_def change_def update_def set_slot_def Let_def e_def freed_def)
  finally have p: "put i s = \<dots>" .
  have "moved s (s\<lparr>itable := (itable s)[i := e], disk := (disk s)(n := freed (disk s n))\<rparr>) ((irefs s)(n := s_ref e))
      (if s_locked e then insert n (ilocked s) else ilocked s - {n}) ((disk s)(n := freed (disk s n)))"
    using S assms(3) by (intro moved_slot [OF assms(1) S(1,2)]) (simp_all add: e_def)
  then show ?thesis using p S(6) assms(3) by (simp add: e_def)
qed

definition after_put :: "nat \<Rightarrow> fs \<Rightarrow> nat \<Rightarrow> disk_inode" where
  "after_put n s = (if d_link (disk s n) = 0 \<and> irefs s n = 1 then (disk s)(n := freed (disk s n)) else disk s)"

lemma movedD:
  assumes "moved s s' R L D"
  shows "table_ok s'" "irefs s' = R" "ilocked s' = L" "disk s' = D" "ninodes s' = ninodes s" "slot_of s i n \<Longrightarrow> 0 < R n \<Longrightarrow> slot_of s' i n"
  using assms by (auto simp: moved_def)

lemma moved_trans:
  assumes "moved s s' R L D" and "moved s' s'' R' L' D'" and "\<And>n. 0 < R' n \<Longrightarrow> 0 < irefs s n \<Longrightarrow> 0 < R n"
  shows "moved s s'' R' L' D'"
  unfolding moved_def
proof (intro conjI allI impI)
  fix i n assume n: "slot_of s i n \<and> 0 < R' n"
  then have "0 < irefs s n" using irefs_0 [of s n] by blast
  then show "slot_of s'' i n" using n assms(3) movedD(6) [OF assms(1)] movedD(6) [OF assms(2)] by blast
qed (use movedD [OF assms(1)] movedD [OF assms(2)] in simp_all)

lemma releasePut_spec:
  assumes "table_ok s" and "slot_of s i n" and "n \<in> ilocked s"
  shows "\<exists>s'. releasePut i s = Done () s' \<and> moved s s' ((irefs s)(n := irefs s n - 1)) (ilocked s - {n}) (after_put n s)"
proof -
  obtain s1 where r: "release i s = Done () s1" "slot_of s1 i n" "s_valid (itable s1 ! i)" "moved s s1 (irefs s) (ilocked s - {n}) (disk s)"
    using release_spec [OF assms] by blast
  note M = movedD [OF r(4)]
  have nl: "n \<notin> ilocked s1" using M(3) by simp
  have "\<exists>s'. put i s1 = Done () s' \<and> moved s1 s' ((irefs s)(n := irefs s n - 1)) (ilocked s - {n}) (after_put n s)"
  proof (cases "d_link (disk s n) = 0 \<and> irefs s n = 1")
    case True
    then show ?thesis using put_unlinked [OF M(1) r(2) nl] M r(3) by (simp add: after_put_def)
  next
    case False
    then have "0 < d_link (disk s1 n) \<or> 1 < irefs s1 n \<or> \<not> s_valid (itable s1 ! i)" using M(2,4) slot_ofD(5) [OF M(1) r(2)] by auto
    then show ?thesis using put_linked [OF M(1) r(2)] nl M False by (auto simp: after_put_def)
  qed
  then obtain s' where s': "put i s1 = Done () s'" "moved s1 s' ((irefs s)(n := irefs s n - 1)) (ilocked s - {n}) (after_put n s)" by blast
  have "moved s s' ((irefs s)(n := irefs s n - 1)) (ilocked s - {n}) (after_put n s)" by (rule moved_trans [OF r(4) s'(2)]) simp
  then show ?thesis using r(1) s'(1) by (simp add: releasePut_def)
qed

lemma alloc_spec:
  assumes ok: "table_ok s" and room: "card (used s) < NINODE" and fr: "\<And>n. 0 < irefs s n \<Longrightarrow> d_type (disk s n) \<noteq> IFree"
  shows "alloc kind s = Done None s \<and> (\<forall>n. 0 < n \<and> n < ninodes s \<longrightarrow> d_type (disk s n) \<noteq> IFree) \<or>
    (\<exists>i n s'. alloc kind s = Done (Some i) s' \<and> 0 < n \<and> n < ninodes s \<and> d_type (disk s n) = IFree \<and> irefs s n = 0 \<and> slot_of s' i n \<and>
      moved s s' ((irefs s)(n := 1)) (ilocked s) ((disk s)(n := fresh_inode kind)))"
proof (cases "find (\<lambda>n. d_type (disk s n) = IFree) [1..<ninodes s]")
  case None
  then have "alloc kind s = Done None s" by (simp add: alloc_def)
  moreover have "\<forall>n. 0 < n \<and> n < ninodes s \<longrightarrow> d_type (disk s n) \<noteq> IFree" using None by (auto simp: find_None_iff)
  ultimately show ?thesis by blast
next
  case (Some n)
  then have n: "0 < n" "n < ninodes s" "d_type (disk s n) = IFree" by (auto simp: find_Some_iff)
  then have z: "irefs s n = 0" using fr by blast
  let ?s = "s\<lparr>disk := (disk s)(n := fresh_inode kind)\<rparr>"
  have sl: "slot_of ?s = slot_of s" by (simp add: slot_of_def fun_eq_iff)
  have ir: "irefs ?s = irefs s" by (simp add: irefs_def fun_eq_iff)
  have il: "ilocked ?s = ilocked s" by (simp add: ilocked_def sl)
  have "\<not> slot_of s i n" for i using z irefs_0 by blast
  then have ok': "table_ok ?s" using ok unfolding table_ok_def sl by auto
  have us: "used ?s = used s" by (simp add: used_def ir)
  obtain i s' where g: "get n ?s = Done i s'" "slot_of s' i n" "moved ?s s' ((irefs s)(n := 1)) (ilocked s) ((disk s)(n := fresh_inode kind))"
    using get_spec [OF ok', of n] room us ir il z by auto
  then have "moved s s' ((irefs s)(n := 1)) (ilocked s) ((disk s)(n := fresh_inode kind))" by (simp add: moved_def sl)
  moreover have "alloc kind s = Done (Some i) s'" using Some g(1) by (simp add: alloc_def)
  ultimately show ?thesis using n z g(2) by blast
qed

end
