(* ===== verification/Ktree.thy ===== *)
theory Ktree
  imports Kitab
begin

text \<open>
  The file system as a tree: for every inode its type, its link count and, for a directory, its names.  This is the specification that the system calls of \<^verbatim>\<open>src/kernel/traps/sysfile.zig\<close> implement;
  the concrete state is abstracted to it by \<open>tree_of\<close>.  The invariant says that the names that lead to an inode are counted by its link count, that every name of a live directory leads to a live inode, and that
  the directories form a tree under the root.  The lemmas show that adding a name, removing a name and making a file or a directory keep it.
\<close>

record tree =
  t_type :: "nat \<Rightarrow> inode_type"
  t_link :: "nat \<Rightarrow> nat"
  t_ents :: "nat \<Rightarrow> string \<rightharpoonup> nat"

definition tree_of :: "(nat \<Rightarrow> disk_inode) \<Rightarrow> tree" where
  "tree_of D = \<lparr>t_type = (\<lambda>n. d_type (D n)), t_link = (\<lambda>n. d_link (D n)), t_ents = (\<lambda>n. dir_map (d_data (D n)))\<rparr>"

definition root_inode_number :: nat where "root_inode_number = 1"

definition live :: "tree \<Rightarrow> nat \<Rightarrow> bool" where
  "live tr n \<longleftrightarrow> t_type tr n \<noteq> IFree \<and> 0 < t_link tr n"

definition livedir :: "tree \<Rightarrow> nat \<Rightarrow> bool" where
  "livedir tr n \<longleftrightarrow> t_type tr n = IDirectory \<and> 0 < t_link tr n"

definition dot_names :: "string set" where "dot_names = {''.'', ''..''}"

text \<open>The places where an inode is named: every directory entry but \<open>.\<close>\<close>

definition named :: "tree \<Rightarrow> nat \<Rightarrow> (nat \<times> string) set" where
  "named tr n = {(d, nm). livedir tr d \<and> nm \<noteq> ''.'' \<and> t_ents tr d nm = Some n}"

subsection \<open>The invariant\<close>

definition dirs_ok :: "tree \<Rightarrow> bool" where
  "dirs_ok tr \<longleftrightarrow> livedir tr root_inode_number \<and> t_ents tr root_inode_number ''..'' = Some root_inode_number \<and> finite {d. livedir tr d} \<and>
     (\<forall>d. livedir tr d \<longrightarrow> finite (dom (t_ents tr d)) \<and> t_ents tr d ''.'' = Some d \<and> (\<exists>p. t_ents tr d ''..'' = Some p \<and> livedir tr p))"

definition names_live :: "tree \<Rightarrow> bool" where
  "names_live tr \<longleftrightarrow> (\<forall>d nm k. livedir tr d \<and> t_ents tr d nm = Some k \<longrightarrow> live tr k)"

text \<open>A directory has one name besides the dots, in the directory its \<open>..\<close> leads to.\<close>

definition one_name :: "tree \<Rightarrow> bool" where
  "one_name tr \<longleftrightarrow> (\<forall>d nm k. livedir tr d \<and> nm \<notin> dot_names \<and> t_ents tr d nm = Some k \<and> t_type tr k = IDirectory \<longrightarrow>
     k \<noteq> root_inode_number \<and> t_ents tr k ''..'' = Some d \<and> (\<forall>nm'. nm' \<notin> dot_names \<and> t_ents tr d nm' = Some k \<longrightarrow> nm' = nm))"

definition parent_named :: "tree \<Rightarrow> bool" where
  "parent_named tr \<longleftrightarrow> (\<forall>d p. livedir tr d \<and> d \<noteq> root_inode_number \<and> t_ents tr d ''..'' = Some p \<longrightarrow>
     (\<exists>nm. nm \<notin> dot_names \<and> t_ents tr p nm = Some d))"

definition links_counted :: "tree \<Rightarrow> bool" where
  "links_counted tr \<longleftrightarrow> (\<forall>n. live tr n \<longrightarrow> t_link tr n = card (named tr n))"

text \<open>From every live directory \<open>..\<close> leads to the root.\<close>

definition parent_of :: "tree \<Rightarrow> nat \<Rightarrow> nat" where
  "parent_of tr d = the (t_ents tr d ''..'')"

definition rooted :: "tree \<Rightarrow> bool" where
  "rooted tr \<longleftrightarrow> (\<forall>d. livedir tr d \<longrightarrow> (\<exists>i. (parent_of tr ^^ i) d = root_inode_number))"

definition tree_inv :: "tree \<Rightarrow> bool" where
  "tree_inv tr \<longleftrightarrow> dirs_ok tr \<and> names_live tr \<and> one_name tr \<and> parent_named tr \<and> rooted tr \<and> links_counted tr"

lemma tree_invD:
  assumes "tree_inv tr"
  shows "livedir tr root_inode_number" "t_ents tr root_inode_number ''..'' = Some root_inode_number" "finite {d. livedir tr d}"
    "livedir tr d \<Longrightarrow> finite (dom (t_ents tr d))" "livedir tr d \<Longrightarrow> t_ents tr d ''.'' = Some d"
    "livedir tr d \<Longrightarrow> \<exists>p. t_ents tr d ''..'' = Some p \<and> livedir tr p"
    "livedir tr d \<Longrightarrow> t_ents tr d nm = Some k \<Longrightarrow> live tr k"
    "livedir tr d \<Longrightarrow> d \<noteq> root_inode_number \<Longrightarrow> t_ents tr d ''..'' = Some p \<Longrightarrow> \<exists>nm. nm \<notin> dot_names \<and> t_ents tr p nm = Some d"
    "live tr n \<Longrightarrow> t_link tr n = card (named tr n)"
  using assms by (auto simp: tree_inv_def dirs_ok_def names_live_def parent_named_def links_counted_def)

lemma one_nameD:
  assumes "tree_inv tr" and "livedir tr d" and "nm \<notin> dot_names" and "t_ents tr d nm = Some k" and "t_type tr k = IDirectory"
  shows "k \<noteq> root_inode_number" "t_ents tr k ''..'' = Some d" "nm' \<notin> dot_names \<Longrightarrow> t_ents tr d nm' = Some k \<Longrightarrow> nm' = nm"
  using assms unfolding tree_inv_def one_name_def by blast+

lemma livedir_live: "livedir tr d \<Longrightarrow> live tr d"
  by (simp add: livedir_def live_def)

lemma live_type: "live tr n \<Longrightarrow> livedir tr n \<longleftrightarrow> t_type tr n = IDirectory"
  by (auto simp: livedir_def live_def)

lemma finite_named:
  assumes "tree_inv tr"
  shows "finite (named tr n)"
proof -
  have "named tr n \<subseteq> (\<Union>d \<in> {d. livedir tr d}. {d} \<times> dom (t_ents tr d))" by (auto simp: named_def)
  moreover have "finite \<dots>" using tree_invD(3) [OF assms] tree_invD(4) [OF assms] by auto
  ultimately show ?thesis by (rule finite_subset)
qed

lemma dead_unnamed: "tree_inv tr \<Longrightarrow> \<not> live tr n \<Longrightarrow> named tr n = {}"
  using tree_invD(7) by (auto simp: named_def)

lemma dot_names_iff: "nm \<notin> dot_names \<longleftrightarrow> nm \<noteq> ''.'' \<and> nm \<noteq> ''..''"
  by (simp add: dot_names_def)

lemma parent_live: "dirs_ok tr \<Longrightarrow> livedir tr d \<Longrightarrow> livedir tr ((parent_of tr ^^ i) d)"
  by (induction i) (auto simp: dirs_ok_def parent_of_def)

lemma rootedI:
  assumes inv: "tree_inv tr" and eq: "\<And>d. livedir tr d \<Longrightarrow> t_ents tr' d ''..'' = t_ents tr d ''..''"
    and ld: "\<And>d. livedir tr' d \<Longrightarrow> livedir tr d \<or> livedir tr (parent_of tr' d)"
  shows "rooted tr'"
proof -
  have d: "dirs_ok tr" using inv by (simp add: tree_inv_def)
  have same: "(parent_of tr' ^^ i) x = (parent_of tr ^^ i) x" if "livedir tr x" for i x
  proof (induction i)
    case (Suc i)
    have "parent_of tr' y = parent_of tr y" if "livedir tr y" for y using eq [OF that] by (simp add: parent_of_def)
    then show ?case using Suc parent_live [OF d that, of i] by simp
  qed simp
  have reach: "\<exists>i. (parent_of tr' ^^ i) x = root_inode_number" if "livedir tr x" for x
    using inv that same [OF that] unfolding tree_inv_def rooted_def by auto
  show ?thesis unfolding rooted_def
  proof (intro allI impI)
    fix x assume "livedir tr' x"
    then show "\<exists>i. (parent_of tr' ^^ i) x = root_inode_number"
    proof (rule disjE [OF ld])
      assume "livedir tr (parent_of tr' x)"
      then obtain i where "(parent_of tr' ^^ i) (parent_of tr' x) = root_inode_number" using reach by blast
      then have "(parent_of tr' ^^ Suc i) x = root_inode_number" by (simp only: funpow_Suc_right comp_apply)
      then show ?thesis by blast
    qed (rule reach)
  qed
qed

text \<open>No directory but the root is its own parent.\<close>

lemma own_parent:
  assumes "tree_inv tr" and "livedir tr d" and "t_ents tr d ''..'' = Some d"
  shows "d = root_inode_number"
proof -
  obtain i where i: "(parent_of tr ^^ i) d = root_inode_number" using assms(1,2) by (auto simp: tree_inv_def rooted_def)
  have "(parent_of tr ^^ i) d = d" using assms(3) by (induction i) (simp_all add: parent_of_def)
  then show ?thesis using i by simp
qed

text \<open>Only what is said of live inodes matters.\<close>

lemma tree_inv_live:
  assumes inv: "tree_inv tr" and l: "\<And>n. live tr' n \<longleftrightarrow> live tr n"
    and eq: "\<And>n. live tr n \<Longrightarrow> t_type tr' n = t_type tr n \<and> t_link tr' n = t_link tr n"
    and en: "\<And>n. livedir tr n \<Longrightarrow> t_ents tr' n = t_ents tr n"
  shows "tree_inv tr'"
proof -
  have ld: "livedir tr' d \<longleftrightarrow> livedir tr d" for d using l [of d] eq [of d] by (auto simp: livedir_def live_def)
  have nd: "named tr' n = named tr n" for n by (auto simp: named_def ld en)
  have ty: "livedir tr d \<Longrightarrow> t_ents tr d nm = Some k \<Longrightarrow> t_type tr' k = t_type tr k \<and> live tr k" for d nm k
    using tree_invD(7) [OF inv] eq by blast
  have "dirs_ok tr'" using inv en [of root_inode_number] tree_invD(1) [OF inv] unfolding tree_inv_def dirs_ok_def ld by (auto simp: en)
  moreover have "names_live tr'" using inv unfolding tree_inv_def names_live_def ld l by (auto simp: en)
  moreover have "one_name tr'" unfolding one_name_def ld
  proof (intro allI impI)
    fix d nm k assume a: "livedir tr d \<and> nm \<notin> dot_names \<and> t_ents tr' d nm = Some k \<and> t_type tr' k = IDirectory"
    then have k: "livedir tr d" "nm \<notin> dot_names" "t_ents tr d nm = Some k" using en [of d] by simp_all
    note O = one_nameD [OF inv k] and T = ty [OF k(1,3)]
    show "k \<noteq> root_inode_number \<and> t_ents tr' k ''..'' = Some d \<and> (\<forall>nm'. nm' \<notin> dot_names \<and> t_ents tr' d nm' = Some k \<longrightarrow> nm' = nm)"
      using O T a en [OF k(1)] en [of k] live_type [of tr k] by auto
  qed
  moreover have "parent_named tr'" unfolding parent_named_def ld
  proof (intro allI impI)
    fix d p assume d: "livedir tr d \<and> d \<noteq> root_inode_number \<and> t_ents tr' d ''..'' = Some p"
    then have d': "t_ents tr d ''..'' = Some p" using en [of d] by simp
    then have "livedir tr p" using tree_invD(6) [OF inv, of d] d by auto
    then show "\<exists>nm. nm \<notin> dot_names \<and> t_ents tr' p nm = Some d" using tree_invD(8) [OF inv, of d p] d d' en by simp
  qed
  moreover have "rooted tr'" by (rule rootedI [OF inv]) (simp_all add: en ld)
  moreover have "links_counted tr'" unfolding links_counted_def l nd using tree_invD(9) [OF inv] eq by simp
  ultimately show ?thesis by (simp add: tree_inv_def)
qed


text \<open>A change of names that lead to no directory keeps the directories.\<close>

lemma same_dirs:
  assumes inv: "tree_inv tr" and ty: "t_type tr' = t_type tr" and ld: "\<And>x. livedir tr' x \<longleftrightarrow> livedir tr x"
    and fin: "\<And>x. livedir tr x \<Longrightarrow> finite (dom (t_ents tr' x))" and dots: "\<And>x y. y \<in> dot_names \<Longrightarrow> t_ents tr' x y = t_ents tr x y"
    and ndir: "\<And>x y z. t_type tr z = IDirectory \<Longrightarrow> t_ents tr' x y = Some z \<longleftrightarrow> t_ents tr x y = Some z"
  shows "dirs_ok tr'" "one_name tr'" "parent_named tr'" "rooted tr'"
proof -
  have dt: "t_ents tr' x ''.'' = t_ents tr x ''.''" "t_ents tr' x ''..'' = t_ents tr x ''..''" for x using dots by (auto simp: dot_names_def)
  show "rooted tr'" by (rule rootedI [OF inv]) (simp_all add: ld dt)
  show "dirs_ok tr'" using inv fin unfolding tree_inv_def dirs_ok_def ld dt by blast
  show "one_name tr'" unfolding one_name_def ld ty dt
  proof (intro allI impI)
    fix x y z assume a: "livedir tr x \<and> y \<notin> dot_names \<and> t_ents tr' x y = Some z \<and> t_type tr z = IDirectory"
    then have z: "livedir tr x" "y \<notin> dot_names" "t_ents tr x y = Some z" "t_type tr z = IDirectory" using ndir by blast+
    show "z \<noteq> root_inode_number \<and> t_ents tr z ''..'' = Some x \<and> (\<forall>nm'. nm' \<notin> dot_names \<and> t_ents tr' x nm' = Some z \<longrightarrow> nm' = y)"
      using one_nameD [OF inv z] ndir [OF z(4)] by blast
  qed
  show "parent_named tr'" unfolding parent_named_def ld dt
  proof (intro allI impI)
    fix x p assume a: "livedir tr x \<and> x \<noteq> root_inode_number \<and> t_ents tr x ''..'' = Some p"
    then obtain y where "y \<notin> dot_names" "t_ents tr p y = Some x" using tree_invD(8) [OF inv] by blast
    then show "\<exists>y. y \<notin> dot_names \<and> t_ents tr' p y = Some x" using a ndir [of x] by (auto simp: livedir_def)
  qed
qed

subsection \<open>Adding a name\<close>

definition tree_add :: "nat \<Rightarrow> string \<Rightarrow> nat \<Rightarrow> tree \<Rightarrow> tree" where
  "tree_add d nm k tr = tr\<lparr>t_link := (t_link tr)(k := Suc (t_link tr k)), t_ents := (t_ents tr)(d := (t_ents tr d)(nm \<mapsto> k))\<rparr>"

lemma new_name_no_dot:
  assumes "tree_inv tr" and "livedir tr d" and "t_ents tr d nm = None"
  shows "nm \<notin> dot_names"
  using tree_invD(5,6) [OF assms(1,2)] assms(3) by (auto simp: dot_names_def)

lemma tree_add_inv:
  assumes inv: "tree_inv tr" and d: "livedir tr d" and new: "t_ents tr d nm = None" and k: "live tr k" "t_type tr k \<noteq> IDirectory"
  shows "tree_inv (tree_add d nm k tr)"
proof -
  let ?t = "tree_add d nm k tr"
  have nm: "nm \<notin> dot_names" by (rule new_name_no_dot [OF inv d new])
  have ty: "t_type ?t = t_type tr" by (simp add: tree_add_def)
  have ld: "livedir ?t x \<longleftrightarrow> livedir tr x" for x using k by (auto simp: livedir_def live_def tree_add_def)
  have lv: "live ?t x \<longleftrightarrow> live tr x" for x using k by (auto simp: live_def tree_add_def)
  have en: "t_ents ?t x y = (if x = d \<and> y = nm then Some k else t_ents tr x y)" for x y by (simp add: tree_add_def)
  have li: "t_link ?t n = (if n = k then Suc (t_link tr n) else t_link tr n)" for n by (simp add: tree_add_def)
  have fin: "finite (dom (t_ents ?t x))" if "livedir tr x" for x
    by (rule finite_subset [of _ "insert nm (dom (t_ents tr x))"]) (use tree_invD(4) [OF inv that] in \<open>auto simp: en split: if_splits\<close>)
  have D: "dirs_ok ?t" "one_name ?t" "parent_named ?t" "rooted ?t"
    using nm k(2) new by (intro same_dirs [OF inv ty ld fin]; auto simp: en)+
  have "names_live ?t" unfolding names_live_def ld lv using tree_invD(7) [OF inv] k(1) by (auto simp: en split: if_splits)
  moreover have "links_counted ?t" unfolding links_counted_def lv
  proof (intro allI impI)
    fix n assume n: "live tr n"
    have nd: "named ?t n = (if n = k then insert (d, nm) (named tr n) else named tr n)"
      using d nm new by (auto simp: named_def ld en dot_names_def split: if_splits)
    have "(d, nm) \<notin> named tr n" using new by (simp add: named_def)
    then show "t_link ?t n = card (named ?t n)" unfolding nd li using tree_invD(9) [OF inv n] finite_named [OF inv, of n] by (cases "n = k") simp_all
  qed
  ultimately show ?thesis using D by (simp add: tree_inv_def)
qed

subsection \<open>Removing a name\<close>

definition tree_remove :: "nat \<Rightarrow> string \<Rightarrow> nat \<Rightarrow> tree \<Rightarrow> tree" where
  "tree_remove d nm k tr = tr\<lparr>t_link := (t_link tr)(k := t_link tr k - 1), t_ents := (t_ents tr)(d := (t_ents tr d)(nm := None))\<rparr>"

lemma tree_remove_inv:
  assumes inv: "tree_inv tr" and d: "livedir tr d" and nm: "nm \<notin> dot_names" and k: "t_ents tr d nm = Some k" "t_type tr k \<noteq> IDirectory"
  shows "tree_inv (tree_remove d nm k tr)"
proof -
  let ?t = "tree_remove d nm k tr"
  have ty: "t_type ?t = t_type tr" by (simp add: tree_remove_def)
  have ld: "livedir ?t x \<longleftrightarrow> livedir tr x" for x using k by (auto simp: livedir_def tree_remove_def)
  have en: "t_ents ?t x y = (if x = d \<and> y = nm then None else t_ents tr x y)" for x y by (simp add: tree_remove_def)
  have fin: "finite (dom (t_ents ?t x))" if "livedir tr x" for x
    by (rule finite_subset [of _ "dom (t_ents tr x)"]) (use tree_invD(4) [OF inv that] in \<open>auto simp: en split: if_splits\<close>)
  have D: "dirs_ok ?t" "one_name ?t" "parent_named ?t" "rooted ?t"
    using nm k by (intro same_dirs [OF inv ty ld fin]; auto simp: en)+
  have nd: "named ?t n = named tr n - {(d, nm)}" for n by (auto simp: named_def ld en split: if_splits)
  have mem: "(d, nm) \<in> named tr n \<longleftrightarrow> n = k" for n using d nm k(1) by (auto simp: named_def dot_names_def)
  have cnt: "t_link ?t n = card (named ?t n)" if "live tr n" for n
    using tree_invD(9) [OF inv that] mem [of n] finite_named [OF inv, of n] unfolding nd by (auto simp: tree_remove_def)
  have still: "live ?t n" if n: "live tr n" "named ?t n \<noteq> {}" for n
  proof -
    have "0 < card (named ?t n)" using n(2) finite_named [OF inv, of n] unfolding nd by (simp add: card_gt_0_iff)
    then show ?thesis using cnt [OF n(1)] n(1) by (simp add: live_def ty)
  qed
  have sub: "live ?t n \<Longrightarrow> live tr n" for n by (auto simp: live_def tree_remove_def split: if_splits)
  have "names_live ?t" unfolding names_live_def ld
  proof (intro allI impI)
    fix x y z assume a: "livedir tr x \<and> t_ents ?t x y = Some z"
    then have lz: "live tr z" using tree_invD(7) [OF inv, of x y z] by (auto simp: en split: if_splits)
    show "live ?t z"
    proof (cases "y = ''.''")
      case True
      then have "z = x" using a tree_invD(5) [OF inv, of x] nm by (auto simp: en dot_names_def)
      then show ?thesis using a ld livedir_live by blast
    next
      case False
      then have "(x, y) \<in> named ?t z" using a by (simp add: named_def ld)
      then show ?thesis using still [OF lz] by blast
    qed
  qed
  moreover have "links_counted ?t" unfolding links_counted_def using cnt sub by blast
  ultimately show ?thesis using D by (simp add: tree_inv_def)
qed


subsection \<open>Removing an empty directory\<close>

definition tree_rmdir :: "nat \<Rightarrow> string \<Rightarrow> nat \<Rightarrow> tree \<Rightarrow> tree" where
  "tree_rmdir d nm k tr = tr\<lparr>t_link := (t_link tr)(d := t_link tr d - 1, k := t_link tr k - 1), t_ents := (t_ents tr)(d := (t_ents tr d)(nm := None))\<rparr>"

lemma dir_parent_name:
  assumes inv: "tree_inv tr" and x: "livedir tr x" "t_ents tr x ''..'' = Some k"
  shows "x = root_inode_number \<and> k = root_inode_number \<or> (\<exists>nm. nm \<notin> dot_names \<and> t_ents tr k nm = Some x)"
  using tree_invD(2,8) [OF inv] x by (cases "x = root_inode_number") auto

lemma empty_dir:
  assumes inv: "tree_inv tr" and d: "livedir tr d" and nm: "nm \<notin> dot_names" and k: "t_ents tr d nm = Some k" "t_type tr k = IDirectory"
    and em: "dom (t_ents tr k) \<subseteq> dot_names"
  shows "livedir tr k" "d \<noteq> k" "k \<noteq> root_inode_number" "t_ents tr k ''..'' = Some d" "named tr k = {(d, nm)}" "t_link tr k = 1"
proof -
  show ld: "livedir tr k" using tree_invD(7) [OF inv d k(1)] k(2) live_type by blast
  note O = one_nameD [OF inv d nm k]
  show "d \<noteq> k" using em nm k(1) by auto
  show "k \<noteq> root_inode_number" "t_ents tr k ''..'' = Some d" by (rule O)+
  have "x = d \<and> y = nm" if x: "livedir tr x" "y \<noteq> ''.''" "t_ents tr x y = Some k" for x y
  proof (cases "y = ''..''")
    case True
    then have "\<exists>nm. nm \<notin> dot_names \<and> t_ents tr k nm = Some x" using dir_parent_name [OF inv x(1), of k] x(3) O(1) by auto
    then show ?thesis using em by auto
  next
    case False
    then have y: "y \<notin> dot_names" using x(2) by (simp add: dot_names_def)
    have "x = d" using one_nameD(2) [OF inv x(1) y x(3) k(2)] O(2) by simp
    then show ?thesis using O(3) y x(3) by blast
  qed
  moreover have "(d, nm) \<in> named tr k" using d k(1) nm by (auto simp: named_def dot_names_def)
  ultimately show n: "named tr k = {(d, nm)}" by (auto simp: named_def)
  then show "t_link tr k = 1" using tree_invD(9) [OF inv livedir_live [OF ld]] by simp
qed

text \<open>The parent keeps a name.\<close>

lemma tree_rmdir_link:
  assumes inv: "tree_inv tr" and d: "livedir tr d" and nm: "nm \<notin> dot_names" and k: "t_ents tr d nm = Some k" "t_type tr k = IDirectory"
    and em: "dom (t_ents tr k) \<subseteq> dot_names"
  shows "2 \<le> t_link tr d"
proof -
  note E = empty_dir [OF inv d nm k em]
  have kd: "(k, ''..'') \<in> named tr d" using E(1,4) by (simp add: named_def)
  obtain x y where xy: "(x, y) \<in> named tr d" "(x, y) \<noteq> (k, ''..'')"
  proof -
    obtain p where p: "t_ents tr d ''..'' = Some p" "livedir tr p" using tree_invD(6) [OF inv d] by blast
    then consider "d = root_inode_number" "p = d" | y where "y \<notin> dot_names" "t_ents tr p y = Some d" using dir_parent_name [OF inv d p(1)] by blast
    then show thesis
    proof cases
      case 1
      then show ?thesis using that [of d "''..''"] p d E(2) by (simp add: named_def)
    next
      case 2
      then show ?thesis using that [of p y] p(2) by (auto simp: named_def dot_names_def)
    qed
  qed
  have "card {(k, ''..''), (x, y)} \<le> card (named tr d)" using kd xy finite_named [OF inv, of d] by (intro card_mono) auto
  moreover have "card {(k, ''..''), (x, y)} = 2" using xy(2) by (metis card_2_iff)
  ultimately show ?thesis using tree_invD(9) [OF inv livedir_live [OF d]] by simp
qed

lemma tree_rmdir_inv:
  assumes inv: "tree_inv tr" and d: "livedir tr d" and nm: "nm \<notin> dot_names" and k: "t_ents tr d nm = Some k" "t_type tr k = IDirectory"
    and em: "dom (t_ents tr k) \<subseteq> dot_names"
  shows "tree_inv (tree_rmdir d nm k tr)"
proof -
  let ?t = "tree_rmdir d nm k tr"
  note E = empty_dir [OF inv d nm k em]
  note O = one_nameD [OF inv d nm k]
  have ty: "t_type ?t = t_type tr" by (simp add: tree_rmdir_def)
  have en: "t_ents ?t x y = (if x = d \<and> y = nm then None else t_ents tr x y)" for x y by (simp add: tree_rmdir_def)
  have li: "t_link ?t n = (if n = k then 0 else if n = d then t_link tr d - 1 else t_link tr n)" for n using E(2,6) by (simp add: tree_rmdir_def)
  have kd: "(k, ''..'') \<in> named tr d" using E(1,4) by (simp add: named_def)
  have two: "2 \<le> t_link tr d" by (rule tree_rmdir_link [OF inv d nm k em])
  have ld: "livedir ?t x \<longleftrightarrow> livedir tr x \<and> x \<noteq> k" for x using two by (auto simp: livedir_def ty li)
  have lv: "live ?t x \<longleftrightarrow> live tr x \<and> x \<noteq> k" for x using two d by (auto simp: live_def livedir_def ty li)
  have only: "x = d \<and> y = nm" if "livedir tr x" "x \<noteq> k" "t_ents tr x y = Some k" for x y
  proof (cases "y = ''.''")
    case True
    then show ?thesis using that tree_invD(5) [OF inv that(1)] by simp
  next
    case False
    then have "(x, y) \<in> named tr k" using that by (simp add: named_def)
    then show ?thesis using E(5) by simp
  qed
  have "dirs_ok ?t" unfolding dirs_ok_def ld
  proof (intro conjI allI impI; (elim conjE)?)
    fix x assume x: "livedir tr x" "x \<noteq> k"
    have "dom (t_ents ?t x) \<subseteq> dom (t_ents tr x)" by (auto simp: en split: if_splits)
    then show "finite (dom (t_ents ?t x))" using tree_invD(4) [OF inv x(1)] finite_subset by blast
    show "t_ents ?t x ''.'' = Some x" using tree_invD(5) [OF inv x(1)] nm by (auto simp: en dot_names_def)
    obtain p where p: "t_ents tr x ''..'' = Some p" "livedir tr p" using tree_invD(6) [OF inv x(1)] by blast
    then show "\<exists>p. t_ents ?t x ''..'' = Some p \<and> livedir tr p \<and> p \<noteq> k" using only [OF x, of "''..''"] nm by (auto simp: en dot_names_def)
  qed (use tree_invD(1-3) [OF inv] nm E(3) in \<open>auto simp: en dot_names_def\<close>)
  moreover have "names_live ?t" unfolding names_live_def ld lv using tree_invD(7) [OF inv] only by (auto simp: en split: if_splits)
  moreover have "one_name ?t" unfolding one_name_def ld ty
  proof (intro allI impI; elim conjE)
    fix x y z assume x: "livedir tr x" "x \<noteq> k" "y \<notin> dot_names" "t_ents ?t x y = Some z" "t_type tr z = IDirectory"
    then have z: "t_ents tr x y = Some z" by (simp add: en split: if_splits)
    show "z \<noteq> root_inode_number \<and> t_ents ?t z ''..'' = Some x \<and> (\<forall>nm'. nm' \<notin> dot_names \<and> t_ents ?t x nm' = Some z \<longrightarrow> nm' = y)"
      using one_nameD [OF inv x(1,3) z x(5)] nm by (auto simp: en dot_names_def split: if_splits)
  qed
  moreover have "parent_named ?t" unfolding parent_named_def ld
  proof (intro allI impI; elim conjE)
    fix x p assume x: "livedir tr x" "x \<noteq> k" "x \<noteq> root_inode_number" "t_ents ?t x ''..'' = Some p"
    then have "t_ents tr x ''..'' = Some p" by (simp add: en split: if_splits)
    then obtain y where y: "y \<notin> dot_names" "t_ents tr p y = Some x" using tree_invD(8) [OF inv x(1,3)] by blast
    then have "t_ents ?t p y = Some x" using k(1) x(2) by (auto simp: en)
    then show "\<exists>y. y \<notin> dot_names \<and> t_ents ?t p y = Some x" using y(1) by blast
  qed
  moreover have "rooted ?t" by (rule rootedI [OF inv]) (use nm in \<open>auto simp: ld en dot_names_def\<close>)
  moreover have "links_counted ?t" unfolding links_counted_def lv
  proof (intro allI impI; elim conjE)
    fix n assume n: "live tr n" "n \<noteq> k"
    have "named ?t n = (if n = d then named tr n - {(k, ''..'')} else named tr n)"
    proof -
      have "(x, y) \<in> named ?t n \<longleftrightarrow> (x, y) \<in> named tr n \<and> x \<noteq> k" for x y using n(2) k(1) by (auto simp: named_def ld en)
      moreover have "(k, y) \<in> named tr n \<longleftrightarrow> n = d \<and> y = ''..''" for y
        using em E(1,4) unfolding named_def dot_names_def by auto
      ultimately show ?thesis by auto
    qed
    then show "t_link ?t n = card (named ?t n)" using tree_invD(9) [OF inv n(1)] kd n(2) finite_named [OF inv, of n] by (cases "n = d") (simp_all add: li)
  qed
  ultimately show ?thesis by (simp add: tree_inv_def)
qed


subsection \<open>Making a file or a directory\<close>

definition tree_create :: "inode_type \<Rightarrow> nat \<Rightarrow> string \<Rightarrow> nat \<Rightarrow> tree \<Rightarrow> tree" where
  "tree_create kind d nm k tr = tr\<lparr>t_type := (t_type tr)(k := kind),
     t_link := (t_link tr)(k := 1, d := (if kind = IDirectory then Suc (t_link tr d) else t_link tr d)),
     t_ents := (t_ents tr)(k := (if kind = IDirectory then [''.'' \<mapsto> k, ''..'' \<mapsto> d] else Map.empty), d := (t_ents tr d)(nm \<mapsto> k))\<rparr>"

lemma tree_create_inv:
  assumes inv: "tree_inv tr" and d: "livedir tr d" and new: "t_ents tr d nm = None" and k: "t_type tr k = IFree" and kind: "kind \<noteq> IFree"
  shows "tree_inv (tree_create kind d nm k tr)"
proof -
  let ?t = "tree_create kind d nm k tr"
  let ?dir = "kind = IDirectory"
  have nm: "nm \<notin> dot_names" by (rule new_name_no_dot [OF inv d new])
  have dead: "\<not> live tr k" "named tr k = {}" using k dead_unnamed [OF inv] by (simp_all add: live_def)
  have dk: "d \<noteq> k" using d k by (auto simp: livedir_def)
  have ty: "t_type ?t x = (if x = k then kind else t_type tr x)" for x by (simp add: tree_create_def)
  have li: "t_link ?t x = (if x = k then 1 else if x = d \<and> ?dir then Suc (t_link tr d) else t_link tr x)" for x using dk by (simp add: tree_create_def)
  have en: "t_ents ?t x y = (if x = k then (if ?dir then [''.'' \<mapsto> k, ''..'' \<mapsto> d] y else None) else if x = d \<and> y = nm then Some k else t_ents tr x y)" for x y
    using dk by (simp add: tree_create_def)
  have ld: "livedir ?t x \<longleftrightarrow> (if x = k then ?dir else livedir tr x)" for x using d by (auto simp: livedir_def ty li)
  have lv: "live ?t x \<longleftrightarrow> x = k \<or> live tr x" for x using d kind by (auto simp: live_def livedir_def ty li)
  have nk: "livedir tr x \<Longrightarrow> x \<noteq> k \<and> t_ents tr x y \<noteq> Some k" for x y using tree_invD(7) [OF inv, of x y k] dead(1) livedir_live by blast
  have "dirs_ok ?t" unfolding dirs_ok_def
  proof (intro conjI allI impI)
    show "livedir ?t root_inode_number" "t_ents ?t root_inode_number ''..'' = Some root_inode_number"
      using tree_invD(1,2) [OF inv] nk [of root_inode_number] nm by (auto simp: ld en dot_names_def)
    show "finite {d. livedir ?t d}" by (rule finite_subset [of _ "insert k {d. livedir tr d}"]) (use tree_invD(3) [OF inv] in \<open>auto simp: ld split: if_splits\<close>)
    fix x assume x: "livedir ?t x"
    have "dom (t_ents ?t x) \<subseteq> insert nm (dot_names \<union> (if x = k then {} else dom (t_ents tr x)))"
      unfolding dom_def en by (auto simp: dot_names_def split: if_splits)
    moreover have "finite \<dots>" using x tree_invD(4) [OF inv, of x] by (auto simp: ld dot_names_def)
    ultimately show "finite (dom (t_ents ?t x))" by (rule finite_subset)
    show "t_ents ?t x ''.'' = Some x" using x tree_invD(5) [OF inv, of x] nm unfolding ld en by (auto simp: dot_names_def)
    show "\<exists>p. t_ents ?t x ''..'' = Some p \<and> livedir ?t p"
    proof (cases "x = k")
      case True
      then show ?thesis using x d dk unfolding ld en by auto
    next
      case False
      then obtain p where p: "t_ents tr x ''..'' = Some p" "livedir tr p" using x tree_invD(6) [OF inv, of x] by (auto simp: ld)
      then have "t_ents ?t x ''..'' = Some p" using False nm unfolding en by (auto simp: dot_names_def)
      then show ?thesis using p(2) nk [of p] unfolding ld by auto
    qed
  qed
  moreover have "names_live ?t" unfolding names_live_def lv
    using tree_invD(7) [OF inv] d livedir_live [of tr] by (auto simp: en ld split: if_splits)
  moreover have "one_name ?t" unfolding one_name_def
  proof (intro allI impI; elim conjE)
    fix x y z assume x: "livedir ?t x" "y \<notin> dot_names" "t_ents ?t x y = Some z" "t_type ?t z = IDirectory"
    have xk: "x \<noteq> k" using x(2,3) by (auto simp: en dot_names_def split: if_splits)
    then have lx: "livedir tr x" using x(1) by (simp add: ld)
    show "z \<noteq> root_inode_number \<and> t_ents ?t z ''..'' = Some x \<and> (\<forall>nm'. nm' \<notin> dot_names \<and> t_ents ?t x nm' = Some z \<longrightarrow> nm' = y)"
    proof (cases "z = k")
      case True
      then have "x = d" "y = nm" "?dir" using x(3,4) xk nk [OF lx] by (auto simp: en ty split: if_splits)
      then show ?thesis unfolding en using True xk nk [OF d] nk [OF tree_invD(1) [OF inv]] by (auto split: if_splits)
    next
      case False
      then have z: "t_ents tr x y = Some z" "t_type tr z = IDirectory" using x(3,4) xk by (auto simp: en ty split: if_splits)
      show ?thesis using one_nameD [OF inv lx x(2) z] False xk nm by (auto simp: en dot_names_def split: if_splits)
    qed
  qed
  moreover have "parent_named ?t" unfolding parent_named_def
  proof (intro allI impI; elim conjE)
    fix x p assume x: "livedir ?t x" "x \<noteq> root_inode_number" "t_ents ?t x ''..'' = Some p"
    show "\<exists>y. y \<notin> dot_names \<and> t_ents ?t p y = Some x"
    proof (cases "x = k")
      case True
      then have "p = d" using x(1,3) unfolding en ld by (simp split: if_splits)
      then show ?thesis unfolding en using True dk nm by (intro exI [of _ nm]) simp
    next
      case False
      then have lx: "livedir tr x" and xp: "t_ents tr x ''..'' = Some p" using x(1,3) nm by (auto simp: ld en dot_names_def split: if_splits)
      then have "livedir tr p" using tree_invD(6) [OF inv lx] by simp
      moreover obtain y where y: "y \<notin> dot_names" "t_ents tr p y = Some x" using tree_invD(8) [OF inv lx x(2) xp] by blast
      ultimately show ?thesis using nk [of p] new by (intro exI [of _ y]) (auto simp: en)
    qed
  qed
  moreover have "rooted ?t"
  proof (rule rootedI [OF inv])
    show "t_ents ?t x ''..'' = t_ents tr x ''..''" if "livedir tr x" for x using nk [OF that] nm unfolding en by (auto simp: dot_names_def)
    show "livedir tr x \<or> livedir tr (parent_of ?t x)" if "livedir ?t x" for x
      using that d unfolding ld parent_of_def en by (auto split: if_splits)
  qed
  moreover have "links_counted ?t" unfolding links_counted_def lv
  proof (intro allI impI)
    fix n assume n: "n = k \<or> live tr n"
    have "(x, y) \<in> named ?t n \<longleftrightarrow> (x, y) \<in> named tr n \<or> (x, y) = (d, nm) \<and> n = k \<or> (x, y) = (k, ''..'') \<and> ?dir \<and> n = d" for x y
      using d dk nk [of x] new nm by (auto simp: named_def ld en dot_names_def split: if_splits)
    then have nd: "named ?t n = named tr n \<union> (if n = k then {(d, nm)} else {}) \<union> (if ?dir \<and> n = d then {(k, ''..'')} else {})" by auto
    have out: "(k, ''..'') \<notin> named tr d" using nk [of k] by (auto simp: named_def)
    show "t_link ?t n = card (named ?t n)"
    proof (cases "n = k")
      case True
      then show ?thesis unfolding nd li using dk dead(2) by simp
    next
      case False
      then show ?thesis unfolding nd li using n tree_invD(9) [OF inv, of n] out finite_named [OF inv, of n] by (cases "n = d \<and> ?dir") auto
    qed
  qed
  ultimately show ?thesis by (simp add: tree_inv_def)
qed

end
