(* ===== verification/Kpath.thy ===== *)
theory Kpath
  imports Prelude
begin

text \<open>
  Paths, \<open>skipPathElement\<close> of \<^verbatim>\<open>src/kernel/filesystem/inode.zig\<close>: the function that takes the next element off a path.  The theorem shows that taking elements off until there is none
  gives the nonempty pieces between slashes, and that the rest of the path is empty exactly behind the last one.
\<close>

text \<open>\<open>std.mem.findNone\<close> and \<open>std.mem.findScalar\<close>: the first position whose character satisfies the condition.\<close>

fun find_pos :: "(char \<Rightarrow> bool) \<Rightarrow> string \<Rightarrow> nat option" where
  "find_pos P [] = None"
| "find_pos P (c # cs) = (if P c then Some 0 else map_option Suc (find_pos P cs))"

text \<open>The name and the rest of the path.\<close>

definition skipPathElement :: "string \<Rightarrow> (string \<times> string) option" where
  "skipPathElement path =
     (case find_pos (\<lambda>c. c \<noteq> CHR ''/'') path of
        None \<Rightarrow> None
      | Some start \<Rightarrow>
          (case find_pos (\<lambda>c. c = CHR ''/'') (drop start path) of
             None \<Rightarrow> Some (drop start path, [])
           | Some first_slash_index \<Rightarrow>
               let name_end = start + first_slash_index; name = segment start name_end path
               in (case find_pos (\<lambda>c. c \<noteq> CHR ''/'') (drop (name_end + 1) path) of
                     None \<Rightarrow> Some (name, [])
                   | Some non_slash_index \<Rightarrow> Some (name, drop (name_end + 1 + non_slash_index) path))))"

text \<open>The spans of a path: what follows its leading slashes, its first element, and what follows that.\<close>

definition slashes :: "string \<Rightarrow> string" where "slashes path = dropWhile (\<lambda>c. c = CHR ''/'') path"

definition element :: "string \<Rightarrow> string" where "element path = takeWhile (\<lambda>c. c \<noteq> CHR ''/'') path"
definition behind :: "string \<Rightarrow> string" where "behind path = dropWhile (\<lambda>c. c \<noteq> CHR ''/'') path"

lemma slashes_pos:
  "find_pos (\<lambda>c. c \<noteq> CHR ''/'') path = (if slashes path = [] then None else Some (length path - length (slashes path)))"
  "drop (length path - length (slashes path)) path = slashes path"
  unfolding slashes_def by (induction path) (auto simp: Suc_diff_le length_dropWhile_le)

lemma element_pos:
  "find_pos (\<lambda>c. c = CHR ''/'') path = (if behind path = [] then None else Some (length (element path)))"
  "drop (length (element path)) path = behind path" "take (length (element path)) path = element path" "behind path = [] \<Longrightarrow> element path = path"
  unfolding element_def behind_def by (induction path) auto

lemma behind_slash: "behind path \<noteq> [] \<Longrightarrow> slashes (behind path) = slashes (drop 1 (behind path))"
  unfolding behind_def slashes_def by (induction path) auto

text \<open>The function in terms of spans: slashes, the name, slashes.\<close>

lemma skipPathElement_spans:
  "skipPathElement path = (if slashes path = [] then None else Some (element (slashes path), slashes (behind (slashes path))))"
proof (cases "slashes path = []")
  case True
  then show ?thesis by (simp add: skipPathElement_def slashes_pos)
next
  case False
  define start k where "start = length path - length (slashes path)" and "k = length (element (slashes path))"
  have st: "find_pos (\<lambda>c. c \<noteq> CHR ''/'') path = Some start" "drop start path = slashes path"
    using False by (simp_all add: slashes_pos start_def)
  have seg: "segment start (start + k) path = element (slashes path)" by (simp add: segment_def st(2) k_def element_pos)
  show ?thesis
  proof (cases "behind (slashes path) = []")
    case True
    then show ?thesis using False st element_pos(1) [of "slashes path"] element_pos(4) [OF True] by (simp add: skipPathElement_def slashes_def)
  next
    case beh: False
    have fs: "find_pos (\<lambda>c. c = CHR ''/'') (slashes path) = Some k" using beh element_pos(1) [of "slashes path"] by (simp add: k_def)
    have d: "drop (start + k + j) path = drop j (behind (slashes path))" for j
      using element_pos(2) [of "slashes path"] st(2) drop_drop [of k start path] drop_drop [of j "k + start" path] by (simp add: k_def ac_simps)
    let ?t = "drop 1 (behind (slashes path))"
    have "(case find_pos (\<lambda>c. c \<noteq> CHR ''/'') ?t of None \<Rightarrow> Some (nm, []) | Some j \<Rightarrow> Some (nm, drop (start + k + 1 + j) path)) = Some (nm, slashes ?t)" for nm :: string
      using slashes_pos(2) [of ?t] d [of "1 + (length ?t - length (slashes ?t))"] by (simp add: slashes_pos(1) add.assoc)
    then show ?thesis using False st fs d [of 1] behind_slash [OF beh] by (simp add: skipPathElement_def Let_def seg)
  qed
qed


subsection \<open>Components\<close>

text \<open>The pieces between slashes, and those of them that are not empty.\<close>

fun split_slash :: "string \<Rightarrow> string list" where
  "split_slash [] = [[]]"
| "split_slash (c # cs) = (if c = CHR ''/'' then [] # split_slash cs else (c # hd (split_slash cs)) # tl (split_slash cs))"

definition components :: "string \<Rightarrow> string list" where
  "components path = filter (\<lambda>nm. nm \<noteq> []) (split_slash path)"

lemma split_slash_nonempty [simp]: "split_slash path \<noteq> []"
  by (induction path) auto

lemma split_slash_element: "split_slash path = element path # (if behind path = [] then [] else split_slash (drop 1 (behind path)))"
  by (induction path) (auto simp: element_def behind_def)

lemma components_slashes: "components (slashes path) = components path"
  by (induction path) (auto simp: slashes_def components_def)

lemma slashes_Cons: "slashes path = c # cs \<Longrightarrow> c \<noteq> CHR ''/''"
  by (auto simp: slashes_def dropWhile_eq_Cons_conv)

lemma behind_Cons: "behind path = c # cs \<Longrightarrow> c = CHR ''/''"
  by (auto simp: behind_def dropWhile_eq_Cons_conv)

lemma slashes_hd: "slashes path \<noteq> [] \<Longrightarrow> element (slashes path) \<noteq> []"
  using slashes_Cons [of path] by (cases "slashes path") (simp_all add: element_def)

lemma components_element: "components path = filter (\<lambda>nm. nm \<noteq> []) [element path] @ components (behind path)"
proof (cases "behind path")
  case Nil
  then show ?thesis by (simp add: split_slash_element [of path] components_def)
next
  case (Cons c cs)
  then show ?thesis using behind_Cons [OF Cons] by (simp add: split_slash_element [of path] components_def)
qed

lemma components_step:
  "components path = (if slashes path = [] then [] else element (slashes path) # components (slashes (behind (slashes path))))"
proof (cases "slashes path = []")
  case True
  then show ?thesis using components_slashes [of path] by (simp add: components_def)
next
  case False
  then show ?thesis using slashes_hd [OF False] components_slashes [of path] components_slashes [of "behind (slashes path)"] components_element [of "slashes path"] by simp
qed

lemma components_Nil: "components path = [] \<longleftrightarrow> slashes path = []"
  by (subst components_step) simp

lemma slashes_idem: "slashes (slashes path) = slashes path"
  by (simp add: slashes_def)

lemma skip_None: "skipPathElement path = None \<longleftrightarrow> components path = []"
  by (simp add: components_Nil skipPathElement_spans)

lemma skip_rest:
  assumes "skipPathElement path = Some (nm, rest)"
  shows "components path = nm # components rest" "rest = [] \<longleftrightarrow> components rest = []" "length rest < length path" "nm \<noteq> []"
proof -
  have sp: "slashes path \<noteq> []" "nm = element (slashes path)" "rest = slashes (behind (slashes path))"
    using assms by (auto simp: skipPathElement_spans split: if_splits)
  show "components path = nm # components rest" by (subst components_step) (simp add: sp)
  show "rest = [] \<longleftrightarrow> components rest = []" by (simp add: components_Nil sp(3) slashes_idem)
  show ne: "nm \<noteq> []" using slashes_hd sp by simp
  have "length rest \<le> length (behind (slashes path))" unfolding sp(3) slashes_def by (rule length_dropWhile_le)
  also have "\<dots> < length (slashes path)"
    using ne length_append [of nm "behind (slashes path)"] takeWhile_dropWhile_id [of "\<lambda>c. c \<noteq> CHR ''/''" "slashes path"]
    unfolding sp(2) element_def behind_def by (cases "takeWhile (\<lambda>c. c \<noteq> CHR ''/'') (slashes path)") (metis length_append add.commute less_add_same_cancel1 length_greater_0_conv)+
  also have "\<dots> \<le> length path" unfolding slashes_def by (rule length_dropWhile_le)
  finally show "length rest < length path" .
qed

text \<open>Taking elements off until there is none, with the rest behind each.\<close>

function path_elements :: "string \<Rightarrow> (string \<times> string) list" where
  "path_elements path = (case skipPathElement path of None \<Rightarrow> [] | Some (name, rest) \<Rightarrow> (name, rest) # path_elements rest)"
  by pat_completeness auto
termination
  by (relation "measure length") (auto simp: skip_rest(3))

declare path_elements.simps [simp del]

lemma path_elements_components:
  "map fst (path_elements path) = components path"
  "i < length (path_elements path) \<Longrightarrow> snd (path_elements path ! i) = [] \<longleftrightarrow> Suc i = length (components path)"
proof -
  have "map fst (path_elements path) = components path \<and>
    (\<forall>i < length (path_elements path). snd (path_elements path ! i) = [] \<longleftrightarrow> Suc i = length (components path))" (is "?P path")
  proof (induction path rule: path_elements.induct)
    case (1 path)
    show ?case
    proof (cases "skipPathElement path")
      case None
      then have "path_elements path = []" by (simp add: path_elements.simps [of path])
      then show ?thesis using None by (simp add: skip_None)
    next
      case (Some r)
      obtain nm rest where r: "r = (nm, rest)" by (cases r)
      note S = skip_rest [OF Some [unfolded r]]
      have pe: "path_elements path = (nm, rest) # path_elements rest" using Some r by (simp add: path_elements.simps [of path])
      have IH: "?P rest" by (rule 1 [OF Some r [symmetric]])
      then have len: "length (path_elements rest) = length (components rest)" by (metis length_map)
      show ?thesis using pe S(1,2) IH len by (auto simp: nth_Cons split: nat.splits)
    qed
  qed
  then show "map fst (path_elements path) = components path"
    "i < length (path_elements path) \<Longrightarrow> snd (path_elements path ! i) = [] \<longleftrightarrow> Suc i = length (components path)" by blast+
qed


subsection \<open>Property\<close>

text \<open>
  C22.  Taking elements off a path until there is none gives its nonempty pieces between slashes, in order, and it ends; the rest of the path is empty exactly behind the last one, which is how resolution knows the last name.
\<close>

theorem skip_splits_path:
  "map fst (path_elements path) = components path \<and>
   (\<forall>i < length (path_elements path). snd (path_elements path ! i) = [] \<longleftrightarrow> Suc i = length (components path))"
  using path_elements_components by blast

theorem skip_splits_path_witness:
  "map fst (path_elements ''///a//bb/'') = [''a'', ''bb''] \<and> snd (path_elements ''///a//bb/'' ! 1) = []"
proof -
  have c: "components ''///a//bb/'' = [''a'', ''bb'']" by (simp add: components_def)
  have "length (path_elements ''///a//bb/'') = 2" using arg_cong [OF path_elements_components(1) [of "''///a//bb/''"], of length] c by simp
  then show ?thesis using skip_splits_path [of "''///a//bb/''"] c by simp
qed

end
