(* ===== verification/Kwalk.thy ===== *)
theory Kwalk
  imports Ktree Kpath
begin

text \<open>
  Path resolution, \<open>resolvePathHelper\<close> of \<^verbatim>\<open>src/kernel/filesystem/inode.zig\<close>: from the root or the current directory, one name after the other is looked up in a locked directory, and the reference to the directory is
  exchanged for one to the inode found.  \<open>gb\<close> tells which blocks \<open>getBlock\<close> finds, for every inode.  The lemmas show that resolution is a walk in the tree, keeps all other references, and returns with exactly one new
  reference, or none when there is no such path.
\<close>

subsection \<open>Operations\<close>

text \<open>\<open>Directory.init\<close> and \<open>lookupChild\<close>, with the reference that the latter returns and the offset of the entry.\<close>

definition dir_lookup :: "(nat \<Rightarrow> nat \<Rightarrow> bool) \<Rightarrow> nat \<Rightarrow> string \<Rightarrow> fs \<Rightarrow> (nat \<times> nat) option fres" where
  "dir_lookup gb i name s =
     (let e = itable s ! i in
      if d_type (s_copy e) \<noteq> IDirectory then Panic
      else case lookupChild (gb (s_inum e)) (d_data (s_copy e)) name of
          None \<Rightarrow> Panic
        | Some None \<Rightarrow> Done None s
        | Some (Some (n, off)) \<Rightarrow> fbind (get n s) (\<lambda>j s. Done (Some (j, off)) s))"

function resolve_loop :: "(nat \<Rightarrow> nat \<Rightarrow> bool) \<Rightarrow> bool \<Rightarrow> string \<Rightarrow> string \<Rightarrow> nat \<Rightarrow> fs \<Rightarrow> (nat \<times> string) option fres" where
  "resolve_loop gb returnParent path name i s =
     (case skipPathElement path of
        None \<Rightarrow>
          if returnParent then fbind (put i s) (\<lambda>_ s. Done None s)
          else Done (Some (i, name)) s
      | Some (name, current_path) \<Rightarrow>
          fbind (lock i s) (\<lambda>_ s.
            if d_type (s_copy (itable s ! i)) \<noteq> IDirectory then fbind (releasePut i s) (\<lambda>_ s. Done None s)
            else if returnParent \<and> current_path = [] then fbind (release i s) (\<lambda>_ s. Done (Some (i, name)) s)
            else fbind (dir_lookup gb i name s) (\<lambda>r s.
              fbind (releasePut i s) (\<lambda>_ s.
                case r of
                  None \<Rightarrow> Done None s
                | Some (next_inode, _) \<Rightarrow> resolve_loop gb returnParent current_path name next_inode s))))"
  by pat_completeness auto
termination
  by (relation "measure (\<lambda>(gb, rp, path, name, i, s). length path)") (auto simp: skip_rest(3))

declare resolve_loop.simps [simp del]

definition resolvePathHelper :: "(nat \<Rightarrow> nat \<Rightarrow> bool) \<Rightarrow> nat \<Rightarrow> string \<Rightarrow> bool \<Rightarrow> fs \<Rightarrow> (nat \<times> string) option fres" where
  "resolvePathHelper gb cwd path returnParent s =
     (if path = [] then Done None s
      else fbind (if hd path = CHR ''/'' then get root_inode_number s else duplicate cwd s)
             (\<lambda>i s. resolve_loop gb returnParent path [] i s))"

definition resolvePath :: "(nat \<Rightarrow> nat \<Rightarrow> bool) \<Rightarrow> nat \<Rightarrow> string \<Rightarrow> fs \<Rightarrow> nat option fres" where
  "resolvePath gb cwd path s = fbind (resolvePathHelper gb cwd path False s) (\<lambda>r s. Done (map_option fst r) s)"

definition resolvePathParent :: "(nat \<Rightarrow> nat \<Rightarrow> bool) \<Rightarrow> nat \<Rightarrow> string \<Rightarrow> fs \<Rightarrow> (nat \<times> string) option fres" where
  "resolvePathParent gb cwd path s = resolvePathHelper gb cwd path True s"

subsection \<open>The walk in the tree\<close>

fun walk :: "tree \<Rightarrow> string list \<Rightarrow> nat \<Rightarrow> nat option" where
  "walk tr [] n = Some n"
| "walk tr (nm # nms) n =
     (if t_type tr n \<noteq> IDirectory then None else case t_ents tr n nm of None \<Rightarrow> None | Some k \<Rightarrow> walk tr nms k)"

text \<open>The directory that holds the last name of the path, and this name.\<close>

definition walk_parent :: "tree \<Rightarrow> string list \<Rightarrow> nat \<Rightarrow> (nat \<times> string) option" where
  "walk_parent tr nms n =
     (if nms = [] then None
      else case walk tr (butlast nms) n of
          None \<Rightarrow> None
        | Some d \<Rightarrow> if t_type tr d = IDirectory then Some (d, last nms) else None)"

lemma walk_parent_Cons:
  "nms \<noteq> [] \<Longrightarrow> walk_parent tr (nm # nms) n =
     (if t_type tr n \<noteq> IDirectory then None else case t_ents tr n nm of None \<Rightarrow> None | Some k \<Rightarrow> walk_parent tr nms k)"
  by (auto simp: walk_parent_def split: option.splits)

subsection \<open>States\<close>

definition disk_ok :: "(nat \<Rightarrow> nat \<Rightarrow> bool) \<Rightarrow> nat \<Rightarrow> (nat \<Rightarrow> disk_inode) \<Rightarrow> bool" where
  "disk_ok gb nn D \<longleftrightarrow> tree_inv (tree_of D) \<and> nn \<le> 2 ^ 32 \<and> (\<forall>n. d_type (D n) \<noteq> IFree \<longrightarrow> 0 < n \<and> n < nn) \<and>
     (\<forall>d. livedir (tree_of D) d \<longrightarrow> dir_inv (d_data (D d)) \<and> has_blocks (gb d) (d_data (D d)) \<and> (\<exists>p. dots (d_data (D d)) d p))"

text \<open>What resolution needs of the disk.\<close>

definition walkable :: "(nat \<Rightarrow> nat \<Rightarrow> bool) \<Rightarrow> (nat \<Rightarrow> disk_inode) \<Rightarrow> bool" where
  "walkable gb D \<longleftrightarrow> livedir (tree_of D) root_inode_number \<and> names_live (tree_of D) \<and>
     (\<forall>d. livedir (tree_of D) d \<longrightarrow> dir_inv (d_data (D d)) \<and> has_blocks (gb d) (d_data (D d)))"

lemma disk_ok_walkable: "disk_ok gb nn D \<Longrightarrow> walkable gb D"
  by (simp add: disk_ok_def walkable_def tree_inv_def dirs_ok_def)

lemma walkableD:
  assumes "walkable gb D"
  shows "live (tree_of D) root_inode_number" "livedir (tree_of D) d \<Longrightarrow> dir_inv (d_data (D d)) \<and> has_blocks (gb d) (d_data (D d))"
    "livedir (tree_of D) d \<Longrightarrow> t_ents (tree_of D) d nm = Some k \<Longrightarrow> live (tree_of D) k"
  using assms livedir_live by (auto simp: walkable_def names_live_def)

text \<open>A table with these counts and locks.\<close>

definition holding :: "fs \<Rightarrow> (nat \<Rightarrow> nat) \<Rightarrow> nat set \<Rightarrow> (nat \<Rightarrow> disk_inode) \<Rightarrow> bool" where
  "holding s R L D \<longleftrightarrow> table_ok s \<and> irefs s = R \<and> ilocked s = L \<and> disk s = D"

definition keeps :: "fs \<Rightarrow> fs \<Rightarrow> (nat \<Rightarrow> nat) \<Rightarrow> bool" where
  "keeps s s' R \<longleftrightarrow> ninodes s' = ninodes s \<and> (\<forall>i n. slot_of s i n \<and> 0 < R n \<longrightarrow> slot_of s' i n)"

text \<open>One reference more, one less.\<close>

definition inc :: "nat \<Rightarrow> (nat \<Rightarrow> nat) \<Rightarrow> nat \<Rightarrow> nat" where "inc n R = R(n := Suc (R n))"

lemma inc_simps [simp]: "inc n R n = Suc (R n)" "m \<noteq> n \<Longrightarrow> inc n R m = R m" "0 < R m \<Longrightarrow> 0 < inc n R m"
  "(inc n R)(n := R n) = R" "(inc n R)(n := inc n R n - 1) = R"
  by (auto simp: inc_def)

lemma inc_comm: "inc n (inc m R) = inc m (inc n R)"
  by (auto simp: inc_def fun_eq_iff)

lemma moved_keeps: "moved s s' R L D \<Longrightarrow> (\<And>n. 0 < R0 n \<Longrightarrow> 0 < R n) \<Longrightarrow> holding s' R L D \<and> keeps s s' R0"
  by (auto simp: moved_def holding_def keeps_def)

lemma keeps_trans: "keeps s s' R \<Longrightarrow> keeps s' s'' R \<Longrightarrow> keeps s s'' R"
  by (auto simp: keeps_def)

lemma keeps_refl [simp]: "keeps s s R"
  by (simp add: keeps_def)

lemma keeps_weaken: "keeps s s' R \<Longrightarrow> (\<And>n. 0 < R0 n \<Longrightarrow> 0 < R n) \<Longrightarrow> keeps s s' R0"
  by (auto simp: keeps_def)

lemma keeps_slot: "keeps s s' R \<Longrightarrow> slot_of s i n \<Longrightarrow> 0 < R n \<Longrightarrow> slot_of s' i n"
  by (auto simp: keeps_def)

lemma holdingD: "holding s R L D \<Longrightarrow> table_ok s" "holding s R L D \<Longrightarrow> irefs s = R" "holding s R L D \<Longrightarrow> ilocked s = L" "holding s R L D \<Longrightarrow> disk s = D"
  by (simp_all add: holding_def)


definition room :: "(nat \<Rightarrow> nat) \<Rightarrow> nat \<Rightarrow> bool" where
  "room R k \<longleftrightarrow> finite {n. 0 < R n} \<and> card {n. 0 < R n} + k \<le> NINODE"

lemma room_inc: "room R (Suc k) \<Longrightarrow> room (inc n R) k"
proof -
  assume r: "room R (Suc k)"
  have "{m. 0 < inc n R m} = insert n {m. 0 < R m}" by (auto simp: inc_def)
  then show ?thesis using r card_insert_le_m1 [of "Suc (card {m. 0 < R m})" "{m. 0 < R m}" n] by (auto simp: room_def card_insert_if)
qed

lemma room_less: "room R k \<Longrightarrow> j \<le> k \<Longrightarrow> room R j"
  by (auto simp: room_def)

subsection \<open>The operations on references\<close>

lemma h_get:
  assumes "holding s R L D" and "0 < R n \<or> room R 1"
  shows "\<exists>i s'. get n s = Done i s' \<and> slot_of s' i n \<and> holding s' (inc n R) L D \<and> keeps s s' R"
proof -
  note H = holdingD [OF assms(1)]
  have "0 < irefs s n \<or> card (used s) < NINODE" using assms(2) H(2) by (auto simp: used_def room_def)
  then obtain i s' where g: "get n s = Done i s'" "slot_of s' i n" "moved s s' ((irefs s)(n := Suc (irefs s n))) (ilocked s) (disk s)"
    using get_spec [OF H(1)] by blast
  have "moved s s' (inc n R) L D" using g(3) H by (simp add: inc_def)
  then show ?thesis using g(1,2) moved_keeps by (metis inc_simps(3))
qed

lemma h_duplicate:
  assumes "holding s R L D" and "slot_of s i n"
  shows "\<exists>s'. duplicate i s = Done i s' \<and> slot_of s' i n \<and> holding s' (inc n R) L D \<and> keeps s s' R"
proof -
  note H = holdingD [OF assms(1)]
  obtain s' where g: "duplicate i s = Done i s'" "slot_of s' i n" "moved s s' ((irefs s)(n := Suc (irefs s n))) (ilocked s) (disk s)"
    using duplicate_spec [OF H(1) assms(2)] by blast
  have "moved s s' (inc n R) L D" using g(3) H by (simp add: inc_def)
  then show ?thesis using g(1,2) moved_keeps by (metis inc_simps(3))
qed

lemma h_copy: "holding s R L D \<Longrightarrow> slot_of s i n \<Longrightarrow> n \<in> L \<Longrightarrow> s_copy (itable s ! i) = D n \<and> s_inum (itable s ! i) = n"
  using slot_ofD(3,7,8) [of s i n] by (simp add: holding_def)

lemma h_lock:
  assumes "holding s R L D" and "slot_of s i n" and "n \<notin> L" and "d_type (D n) \<noteq> IFree"
  shows "\<exists>s'. lock i s = Done () s' \<and> slot_of s' i n \<and> holding s' R (insert n L) D \<and> keeps s s' R"
  using lock_spec [of s i n] assms moved_keeps unfolding holding_def by metis

lemma h_release:
  assumes "holding s R L D" and "slot_of s i n" and "n \<in> L"
  shows "\<exists>s'. release i s = Done () s' \<and> slot_of s' i n \<and> s_valid (itable s' ! i) \<and> holding s' R (L - {n}) D \<and> keeps s s' R"
  using release_spec [of s i n] assms moved_keeps unfolding holding_def by metis

lemma h_change:
  assumes "holding s R L D" and "slot_of s i n" and "n \<in> L"
  shows "slot_of (change i f s) i n" "holding (change i f s) R L (D(n := f (D n)))" "keeps s (change i f s) R"
  using change_spec [of s i n f] assms moved_keeps unfolding holding_def by metis+

lemma h_put:
  assumes "holding s (inc n R) L D" and "slot_of s i n" and "n \<notin> L \<or> 0 < R n" and "0 < d_link (D n) \<or> 0 < R n"
  shows "\<exists>s'. put i s = Done () s' \<and> holding s' R L D \<and> keeps s s' R"
proof -
  note H = holdingD [OF assms(1)]
  have "0 < d_link (disk s n) \<or> 1 < irefs s n \<or> \<not> s_valid (itable s ! i)" using assms(4) H by auto
  then obtain s' where p: "put i s = Done () s'" "moved s s' ((irefs s)(n := irefs s n - 1)) (ilocked s) (disk s)"
    using put_linked [OF H(1) assms(2)] assms(3) H by auto
  have "moved s s' R L D" using p(2) H by simp
  then show ?thesis using p(1) moved_keeps by metis
qed

definition last_put :: "nat \<Rightarrow> (nat \<Rightarrow> nat) \<Rightarrow> (nat \<Rightarrow> disk_inode) \<Rightarrow> nat \<Rightarrow> disk_inode" where
  "last_put n R D = (if d_link (D n) = 0 \<and> R n = 0 then D(n := freed (D n)) else D)"

lemma h_releasePut:
  assumes "holding s (inc n R) L D" and "slot_of s i n" and "n \<in> L"
  shows "\<exists>s'. releasePut i s = Done () s' \<and> holding s' R (L - {n}) (last_put n R D) \<and> keeps s s' R"
proof -
  note H = holdingD [OF assms(1)]
  obtain s' where p: "releasePut i s = Done () s'" "moved s s' ((irefs s)(n := irefs s n - 1)) (ilocked s - {n}) (after_put n s)"
    using releasePut_spec [OF H(1) assms(2)] assms(3) H(3) by blast
  have "after_put n s = last_put n R D" using H by (simp add: after_put_def last_put_def)
  then have "moved s s' R (L - {n}) (last_put n R D)" using p(2) H by simp
  then show ?thesis using p(1) moved_keeps by metis
qed

text \<open>A put frees an inode without links only if the copy in the table is valid.\<close>

lemma h_put_any:
  assumes "holding s (inc n R) L D" and "slot_of s i n" and "n \<notin> L"
  shows "\<exists>s' D'. put i s = Done () s' \<and> (D' = D \<or> D' = last_put n R D) \<and> holding s' R L D' \<and> keeps s s' R"
proof -
  note H = holdingD [OF assms(1)]
  have nl: "n \<notin> ilocked s" using assms(3) H(3) by simp
  show ?thesis
  proof (cases "0 < d_link (disk s n) \<or> 1 < irefs s n \<or> \<not> s_valid (itable s ! i)")
    case True
    then obtain s' where p: "put i s = Done () s'" "moved s s' ((irefs s)(n := irefs s n - 1)) (ilocked s) (disk s)"
      using put_linked [OF H(1) assms(2)] nl by blast
    have "moved s s' R L D" using p(2) H by simp
    then show ?thesis using p(1) moved_keeps by metis
  next
    case False
    then have f: "d_link (disk s n) = 0" "irefs s n = 1" "s_valid (itable s ! i)" using H by simp_all
    obtain s' where p: "put i s = Done () s'" "moved s s' ((irefs s)(n := 0)) (ilocked s) ((disk s)(n := freed (disk s n)))"
      using put_unlinked [OF H(1) assms(2) nl f] by blast
    have "R n = 0" using f(2) H(2) by simp
    then have "(irefs s)(n := 0) = R" "(disk s)(n := freed (disk s n)) = last_put n R D" using H f(1) by (auto simp: inc_def last_put_def fun_eq_iff)
    then have "moved s s' R L (last_put n R D)" using p(2) H by simp
    then show ?thesis using p(1) moved_keeps by metis
  qed
qed

lemma last_put_linked: "0 < d_link (D n) \<or> 0 < R n \<Longrightarrow> last_put n R D = D"
  by (auto simp: last_put_def)

lemma disk_okD:
  assumes "disk_ok gb nn D"
  shows "tree_inv (tree_of D)" "d_type (D n) \<noteq> IFree \<Longrightarrow> 0 < n \<and> n < nn \<and> n < 2 ^ 32"
    "livedir (tree_of D) d \<Longrightarrow> dir_inv (d_data (D d)) \<and> has_blocks (gb d) (d_data (D d))"
    "livedir (tree_of D) d \<Longrightarrow> \<exists>p. dots (d_data (D d)) d p"
  using assms by (auto simp: disk_ok_def)

lemma tree_of_simps [simp]: "t_type (tree_of D) n = d_type (D n)" "t_link (tree_of D) n = d_link (D n)" "t_ents (tree_of D) n = dir_map (d_data (D n))"
  by (simp_all add: tree_of_def)

lemma h_dir_lookup:
  assumes h: "holding s R L D" and i: "slot_of s i n" "n \<in> L" and d: "d_type (D n) = IDirectory" "dir_inv (d_data (D n))" "has_blocks (gb n) (d_data (D n))"
    and room: "room R 1"
  shows "case dir_map (d_data (D n)) nm of
      None \<Rightarrow> dir_lookup gb i nm s = Done None s
    | Some k \<Rightarrow> \<exists>j off s'. dir_lookup gb i nm s = Done (Some (j, off)) s' \<and> lookupChild (gb n) (d_data (D n)) nm = Some (Some (k, off)) \<and>
        slot_of s' j k \<and> holding s' (inc k R) L D \<and> keeps s s' R"
proof -
  obtain r where r: "lookupChild (gb n) (d_data (D n)) nm = Some r" "map_option fst r = dir_map (d_data (D n)) nm"
    using directory.look [of "d_data (D n)" "gb n" nm] d by auto
  have l: "dir_lookup gb i nm s = (case r of None \<Rightarrow> Done None s | Some (k, off) \<Rightarrow> fbind (get k s) (\<lambda>j s. Done (Some (j, off)) s))"
    using h_copy [OF h i] r(1) d(1) by (auto simp: dir_lookup_def Let_def split: option.splits)
  show ?thesis
  proof (cases r)
    case None
    then show ?thesis using l r by (simp add: eq_commute [of None])
  next
    case (Some p)
    obtain k off where p: "p = (k, off)" by (cases p)
    have m: "dir_map (d_data (D n)) nm = Some k" using r(2) Some p by simp
    obtain j s' where "get k s = Done j s'" "slot_of s' j k" "holding s' (inc k R) L D" "keeps s s' R" using h_get [OF h, of k] room by blast
    then show ?thesis using l r(1) Some p m by simp
  qed
qed


subsection \<open>Resolution is the walk\<close>

definition target :: "bool \<Rightarrow> tree \<Rightarrow> string list \<Rightarrow> nat \<Rightarrow> nat option" where
  "target rp tr nms n = (if rp then map_option fst (walk_parent tr nms n) else walk tr nms n)"

definition resolved :: "bool \<Rightarrow> string list \<Rightarrow> (nat \<Rightarrow> nat) \<Rightarrow> (nat \<Rightarrow> disk_inode) \<Rightarrow> nat option \<Rightarrow> fs \<Rightarrow> (nat \<times> string) option fres \<Rightarrow> bool" where
  "resolved rp nms R D t s res \<longleftrightarrow>
     (case t of
        None \<Rightarrow> \<exists>s'. res = Done None s' \<and> holding s' R {} D \<and> keeps s s' R
      | Some k \<Rightarrow> \<exists>j nm s'. res = Done (Some (j, nm)) s' \<and> (rp \<longrightarrow> nm = last nms) \<and> slot_of s' j k \<and> holding s' (inc k R) {} D \<and> keeps s s' R)"

lemma resolved_keeps: "keeps s s1 R \<Longrightarrow> resolved rp nms R D t s1 res \<Longrightarrow> resolved rp nms R D t s res"
  using keeps_trans [of s s1 R] by (cases t) (simp_all add: resolved_def, blast+)

lemma resolved_last: "nms \<noteq> [] \<Longrightarrow> resolved rp (nm # nms) R D t s res = resolved rp nms R D t s res"
  by (cases t) (simp_all add: resolved_def)

lemma resolved_any: "resolved False nms R D t s res = resolved False nms' R D t s res"
  by (cases t) (simp_all add: resolved_def)

lemma target_simps:
  "target True tr [] n = None" "target False tr [] n = Some n"
  "t_type tr n \<noteq> IDirectory \<Longrightarrow> target rp tr (nm # nms) n = None"
  "t_type tr n = IDirectory \<Longrightarrow> target True tr [nm] n = Some n"
  "t_type tr n = IDirectory \<Longrightarrow> \<not> (rp \<and> nms = []) \<Longrightarrow>
     target rp tr (nm # nms) n = (case t_ents tr n nm of None \<Rightarrow> None | Some k \<Rightarrow> target rp tr nms k)"
  by (auto simp: target_def walk_parent_Cons walk_parent_def split: option.splits)

lemma resolve_loop_spec:
  assumes "holding s (inc n R) {} D" and "slot_of s i n" and "live (tree_of D) n" and ok: "walkable gb D" and room: "room R 2"
  shows "resolved rp (components path) R D (target rp (tree_of D) (components path) n) s (resolve_loop gb rp path name i s)"
  using assms(1-3)
proof (induction "length path" arbitrary: path name i n s rule: less_induct)
  case less
  note h = less.prems(1) and i = less.prems(2) and lv = less.prems(3)
  have ty: "d_type (D n) \<noteq> IFree" and lk: "0 < d_link (D n)" using lv by (simp_all add: live_def)
  show ?case
  proof (cases "skipPathElement path")
    case None
    then have c: "components path = []" by (simp add: skip_None)
    show ?thesis
    proof (cases rp)
      case True
      obtain s' where "put i s = Done () s'" "holding s' R {} D" "keeps s s' R" using h_put [OF h i] lk by auto
      then show ?thesis using None c True by (subst resolve_loop.simps) (simp add: resolved_def target_simps)
    next
      case False
      then show ?thesis using None c h i by (subst resolve_loop.simps) (simp add: resolved_def target_simps)
    qed
  next
    case (Some p)
    obtain nm rest where p: "p = (nm, rest)" by (cases p)
    note S = skip_rest [OF Some [unfolded p]]
    obtain s1 where s1: "lock i s = Done () s1" "slot_of s1 i n" "holding s1 (inc n R) {n} D" "keeps s s1 R"
      using h_lock [OF h i _ ty] by (auto dest: keeps_weaken [where ?R0.0 = R])
    have cp: "s_copy (itable s1 ! i) = D n" using h_copy [OF s1(3,2)] by simp
    have lp: "last_put n R D = D" using lk by (simp add: last_put_linked)
    obtain s2 where s2: "releasePut i s1 = Done () s2" "holding s2 R {} D" "keeps s1 s2 R"
      using h_releasePut [OF s1(3,2)] lp by auto
    show ?thesis
    proof (cases "d_type (D n) = IDirectory")
      case False
      then show ?thesis using Some p S(1) s1 cp s2 keeps_trans [OF s1(4) s2(3)]
        by (subst resolve_loop.simps) (simp add: resolved_def target_simps)
    next
      case dir: True
      then have ld: "livedir (tree_of D) n" using lv live_type by simp
      show ?thesis
      proof (cases "rp \<and> rest = []")
        case True
        then have c: "components path = [nm]" using S(1,2) by simp
        obtain s3 where s3: "release i s1 = Done () s3" "slot_of s3 i n" "holding s3 (inc n R) {} D" "keeps s1 s3 (inc n R)"
          using h_release [OF s1(3,2)] by auto
        have "keeps s s3 R" using keeps_trans [OF s1(4) keeps_weaken [OF s3(4)]] by simp
        then show ?thesis using Some p c s1 cp dir s3 True by (subst resolve_loop.simps) (simp add: resolved_def target_simps)
      next
        case False
        then have F: "\<not> (rp \<and> components rest = [])" using S(2) by simp
        let ?k = "dir_map (d_data (D n)) nm"
        have dl: "dir_inv (d_data (D n))" "has_blocks (gb n) (d_data (D n))" using walkableD(2) [OF ok ld] by simp_all
        note L = h_dir_lookup [where D = D and gb = gb and nm = nm, OF s1(3,2) _ dir dl]
        show ?thesis
        proof (cases ?k)
          case none: None
          then have "dir_lookup gb i nm s1 = Done None s1" using L room_inc room by (auto simp: numeral_2_eq_2)
          then show ?thesis using Some p S(1) s1 cp dir s2 False F none keeps_trans [OF s1(4) s2(3)]
            by (subst resolve_loop.simps) (auto simp: resolved_def target_simps)
        next
          case k: (Some k)
          obtain j off s3 where s3: "dir_lookup gb i nm s1 = Done (Some (j, off)) s3" "slot_of s3 j k" "holding s3 (inc k (inc n R)) {n} D" "keeps s1 s3 (inc n R)"
            using L room_inc [of R 1 n] room k by (auto simp: numeral_2_eq_2)
          have "slot_of s3 i n" using keeps_slot [OF s3(4) s1(2)] by simp
          then obtain s4 where s4: "releasePut i s3 = Done () s4" "holding s4 (inc k R) {} (last_put n (inc k R) D)" "keeps s3 s4 (inc k R)"
            using h_releasePut [of s3 n "inc k R" "{n}" D i] s3(3) by (auto simp: inc_comm)
          have D: "last_put n (inc k R) D = D" using lk by (simp add: last_put_linked)
          have j: "slot_of s4 j k" using keeps_slot [OF s4(3) s3(2)] by simp
          have kl: "live (tree_of D) k" using walkableD(3) [OF ok ld] k by simp
          have "resolved rp (components rest) R D (target rp (tree_of D) (components rest) k) s4 (resolve_loop gb rp rest nm j s4)"
            using less.hyps [OF S(3), of s4 k j] s4(2) D j kl by simp
          moreover have "keeps s s4 R"
            using keeps_trans [OF s1(4) keeps_trans [OF keeps_weaken [OF s3(4)] keeps_weaken [OF s4(3)]]] by simp
          moreover have "resolve_loop gb rp path name i s = resolve_loop gb rp rest nm j s4"
            using Some p s1 cp dir False s3 s4 by (subst resolve_loop.simps) auto
          moreover have "target rp (tree_of D) (components path) n = target rp (tree_of D) (components rest) k"
            using S(1) dir F k by (simp add: target_simps)
          ultimately have r: "resolved rp (components rest) R D (target rp (tree_of D) (components path) n) s (resolve_loop gb rp path name i s)"
            using resolved_keeps by simp
          show ?thesis
          proof (cases "components rest = []")
            case True
            then have "\<not> rp" using F by simp
            then show ?thesis using r resolved_any [of "components rest" _ _ _ _ _ "components path"] by simp
          next
            case False
            then show ?thesis using r S(1) by (simp add: resolved_last)
          qed
        qed
      qed
    qed
  qed
qed

text \<open>Where a path starts.\<close>

definition start_of :: "string \<Rightarrow> nat \<Rightarrow> nat" where
  "start_of path cwd = (if hd path = CHR ''/'' then root_inode_number else cwd)"

definition path_target :: "bool \<Rightarrow> tree \<Rightarrow> nat \<Rightarrow> string \<Rightarrow> nat option" where
  "path_target rp tr cwd path = (if path = [] then None else target rp tr (components path) (start_of path cwd))"

text \<open>The path is empty, absolute, or the current directory has not been removed.\<close>

definition starts_live :: "tree \<Rightarrow> nat \<Rightarrow> string \<Rightarrow> bool" where
  "starts_live tr w path \<longleftrightarrow> path = [] \<or> live tr (start_of path w)"

lemma resolvePathHelper_spec:
  assumes h: "holding s R {} D" and c: "slot_of s c w" "starts_live (tree_of D) w path" and ok: "walkable gb D" and room: "room R 2"
  shows "resolved rp (components path) R D (path_target rp (tree_of D) w path) s (resolvePathHelper gb c path rp s)"
proof (cases "path = []")
  case True
  then show ?thesis using h by (simp add: resolvePathHelper_def path_target_def resolved_def)
next
  case False
  let ?n = "start_of path w"
  have lv: "live (tree_of D) ?n" using c(2) False by (simp add: starts_live_def)
  have "\<exists>i s'. (if hd path = CHR ''/'' then get root_inode_number s else duplicate c s) = Done i s' \<and> slot_of s' i ?n \<and> holding s' (inc ?n R) {} D \<and> keeps s s' R"
  proof (cases "hd path = CHR ''/''")
    case True
    then show ?thesis using h_get [OF h, of root_inode_number] room_less [OF room, of 1] by (auto simp: start_of_def)
  next
    case False
    then show ?thesis using h_duplicate [OF h c(1)] by (auto simp: start_of_def)
  qed
  then obtain i s1 where s1: "(if hd path = CHR ''/'' then get root_inode_number s else duplicate c s) = Done i s1" "slot_of s1 i ?n"
      "holding s1 (inc ?n R) {} D" "keeps s s1 R" by blast
  then show ?thesis using resolved_keeps [OF s1(4) resolve_loop_spec [OF s1(3,2) lv ok room, where rp = rp and path = path and name = "[]"]] False
    by (simp add: resolvePathHelper_def path_target_def)
qed


text \<open>The two ways in which the calls resolve a path.\<close>

lemma resolvePath_spec:
  assumes "holding s R {} D" and "slot_of s c w" and "starts_live (tree_of D) w path" and "walkable gb D" and "room R 2"
  shows "case path_target False (tree_of D) w path of
      None \<Rightarrow> \<exists>s'. resolvePath gb c path s = Done None s' \<and> holding s' R {} D \<and> keeps s s' R
    | Some k \<Rightarrow> \<exists>i s'. resolvePath gb c path s = Done (Some i) s' \<and> slot_of s' i k \<and> holding s' (inc k R) {} D \<and> keeps s s' R"
  using resolvePathHelper_spec [OF assms, of False]
  by (cases "path_target False (tree_of D) w path") (auto simp: resolved_def resolvePath_def)

lemma resolvePathParent_spec:
  assumes "holding s R {} D" and "slot_of s c w" and "starts_live (tree_of D) w path" and "walkable gb D" and "room R 2"
  shows "case path_target True (tree_of D) w path of
      None \<Rightarrow> \<exists>s'. resolvePathParent gb c path s = Done None s' \<and> holding s' R {} D \<and> keeps s s' R
    | Some d \<Rightarrow> \<exists>i s'. resolvePathParent gb c path s = Done (Some (i, last (components path))) s' \<and> slot_of s' i d \<and>
        holding s' (inc d R) {} D \<and> keeps s s' R"
  using resolvePathHelper_spec [OF assms, of True]
  by (cases "path_target True (tree_of D) w path") (auto simp: resolved_def resolvePathParent_def)

lemma path_target_live:
  assumes "walkable gb D" and "starts_live (tree_of D) w path" and "path_target rp (tree_of D) w path = Some k"
  shows "live (tree_of D) k" "rp \<Longrightarrow> livedir (tree_of D) k \<and> components path \<noteq> []"
proof -
  let ?n = "start_of path w" and ?tr = "tree_of D"
  have step: "\<And>n nms m. live ?tr n \<Longrightarrow> walk ?tr nms n = Some m \<Longrightarrow> live ?tr m"
  proof -
    fix n nms m show "live ?tr n \<Longrightarrow> walk ?tr nms n = Some m \<Longrightarrow> live ?tr m"
    proof (induction nms arbitrary: n)
      case (Cons nm nms)
      from Cons.prems obtain l where l: "t_type ?tr n = IDirectory" "t_ents ?tr n nm = Some l" "walk ?tr nms l = Some m"
        by (auto split: if_splits option.splits)
      have "live ?tr l" using walkableD(3) [OF assms(1) _ l(2)] live_type [OF Cons.prems(1)] l(1) by blast
      then show ?case using Cons.IH l(3) by blast
    qed simp
  qed
  have n: "live ?tr ?n" using assms(2,3) by (auto simp: starts_live_def path_target_def)
  show "live ?tr k"
    using assms(3) step [OF n] by (auto simp: path_target_def target_def walk_parent_def split: if_splits option.splits)
  then show "rp \<Longrightarrow> livedir ?tr k \<and> components path \<noteq> []"
    using assms(3) live_type by (auto simp: path_target_def target_def walk_parent_def split: if_splits option.splits)
qed

text \<open>Resolution looks at types and names only.\<close>

lemma walk_cong: "t_type tr' = t_type tr \<Longrightarrow> t_ents tr' = t_ents tr \<Longrightarrow> walk tr' nms n = walk tr nms n"
  by (induction nms arbitrary: n) (auto split: option.splits)

lemma path_target_cong: "t_type tr' = t_type tr \<Longrightarrow> t_ents tr' = t_ents tr \<Longrightarrow> path_target rp tr' w path = path_target rp tr w path"
  using walk_cong [of tr' tr] by (simp add: path_target_def target_def walk_parent_def cong: option.case_cong)

end
