(* ===== verification/Kfs.thy ===== *)
theory Kfs
  imports Kwalk
begin

text \<open>
  The system calls on names, \<open>link\<close>, \<open>unlink\<close>, \<open>create\<close>, \<open>mkdir\<close>, \<open>mknod\<close> and \<open>chdir\<close> of \<^verbatim>\<open>src/kernel/traps/sysfile.zig\<close>, with every lock, reference and error handler in the order the code has them.
  Paths are the strings that \<open>getString\<close> delivered; \<open>cwd\<close> is the slot of the current directory; transactions are left out.  \<open>gb\<close> and \<open>pad\<close> are the parameters of \<^verbatim>\<open>Kwalk\<close> and \<^verbatim>\<open>Kdir\<close>.

  The theorems show that every call implements its step on the tree, keeps the invariant of the file system, and gives back all references and locks, errors included.
\<close>

subsection \<open>Operations\<close>

text \<open>The errors of all calls, named as in the code.\<close>

datatype call_error =
  FailedGetInode | IsDirectoryError | FailedGetParentDir | FailedUpdateNewParDir
| IsDot | IsDotDot | FailedDirLookup | DirectoryNotEmpty
| PathExistsWithWrongType | FailedAllocateInode | FailedCreateDot | FailedCreateDotDot | FailedLinkParentDir
| InvalidDestPath | NotADirectory

definition max_link_count :: nat where "max_link_count = 2 ^ 16 - 1"

text \<open>\<open>Directory.init\<close> and \<open>linkEntry\<close> on a locked inode, with the reference of its lookup.\<close>

definition dir_link :: "(nat \<Rightarrow> nat \<Rightarrow> bool) \<Rightarrow> (nat \<Rightarrow> byte) \<Rightarrow> nat \<Rightarrow> string \<Rightarrow> nat \<Rightarrow> fs \<Rightarrow> link_entry_error option fres" where
  "dir_link gb pad i name inum s =
     (if d_type (s_copy (itable s ! i)) \<noteq> IDirectory then Panic
      else if length name > max_name_length then Done (Some NameToLong) s
      else fbind (dir_lookup gb i name s) (\<lambda>r s.
        case r of
          Some (j, _) \<Rightarrow> fbind (put j s) (\<lambda>_ s. Done (Some AlreadyExists) s)
        | None \<Rightarrow>
            (case linkEntry (gb (s_inum (itable s ! i))) pad (d_data (s_copy (itable s ! i))) name inum of
               None \<Rightarrow> Panic
             | Some (Some WriteFailed, _) \<Rightarrow> Done (Some WriteFailed) s
             | Some (er, ip') \<Rightarrow> Done er (change i (\<lambda>di. di\<lparr>d_data := ip'\<rparr>) s))))"

text \<open>The link count is a 16-bit integer with checked arithmetic.\<close>

definition add_link :: "nat \<Rightarrow> fs \<Rightarrow> unit fres" where
  "add_link i s = (if d_link (s_copy (itable s ! i)) = max_link_count then Panic else Done () (change i (\<lambda>di. di\<lparr>d_link := d_link di + 1\<rparr>) s))"

definition sub_link :: "nat \<Rightarrow> fs \<Rightarrow> unit fres" where
  "sub_link i s = (if d_link (s_copy (itable s ! i)) = 0 then Panic else Done () (change i (\<lambda>di. di\<lparr>d_link := d_link di - 1\<rparr>) s))"

definition link_directory :: "(nat \<Rightarrow> nat \<Rightarrow> bool) \<Rightarrow> (nat \<Rightarrow> byte) \<Rightarrow> nat \<Rightarrow> string \<Rightarrow> nat \<Rightarrow> fs \<Rightarrow> call_error option fres" where
  "link_directory gb pad cwd new i s =
     fbind (resolvePathParent gb cwd new s) (\<lambda>r s.
       case r of
         None \<Rightarrow> Done (Some FailedGetParentDir) s
       | Some (d, name) \<Rightarrow>
           fbind (lock d s) (\<lambda>_ s.
           fbind (dir_link gb pad d name (s_inum (itable s ! i)) s) (\<lambda>er s.
           fbind (releasePut d s) (\<lambda>_ s.
           Done (map_option (\<lambda>_. FailedUpdateNewParDir) er) s))))"

definition link :: "(nat \<Rightarrow> nat \<Rightarrow> bool) \<Rightarrow> (nat \<Rightarrow> byte) \<Rightarrow> nat \<Rightarrow> string \<Rightarrow> string \<Rightarrow> fs \<Rightarrow> call_error option fres" where
  "link gb pad cwd old new s =
     fbind (resolvePath gb cwd old s) (\<lambda>r s.
       case r of
         None \<Rightarrow> Done (Some FailedGetInode) s
       | Some i \<Rightarrow>
           fbind (lock i s) (\<lambda>_ s.
             if d_type (s_copy (itable s ! i)) = IDirectory
             then fbind (release i s) (\<lambda>_ s. fbind (put i s) (\<lambda>_ s. Done (Some IsDirectoryError) s))
             else
               fbind (add_link i s) (\<lambda>_ s.
               fbind (release i s) (\<lambda>_ s.
               fbind (link_directory gb pad cwd new i s) (\<lambda>er s.
                 case er of
                   None \<Rightarrow> fbind (put i s) (\<lambda>_ s. Done None s)
                 | Some e \<Rightarrow>
                     fbind (lock i s) (\<lambda>_ s.
                     fbind (sub_link i s) (\<lambda>_ s.
                     fbind (release i s) (\<lambda>_ s.
                     fbind (put i s) (\<lambda>_ s. Done (Some e) s)))))))))"

text \<open>Behind the checks of \<open>unlink\<close>: the entry is overwritten and the counts go down.\<close>

definition unlink_entry :: "(nat \<Rightarrow> nat \<Rightarrow> bool) \<Rightarrow> (nat \<Rightarrow> byte) \<Rightarrow> nat \<Rightarrow> nat \<Rightarrow> nat \<Rightarrow> fs \<Rightarrow> unit fres" where
  "unlink_entry gb pad d i off s =
     (case clearEntry (gb (s_inum (itable s ! d))) pad (d_data (s_copy (itable s ! d))) off of
        None \<Rightarrow> Panic
      | Some ip' \<Rightarrow>
          let s = change d (\<lambda>di. di\<lparr>d_data := ip'\<rparr>) s in
          fbind (if d_type (s_copy (itable s ! i)) = IDirectory then sub_link d s else Done () s) (\<lambda>_ s. sub_link i s))"

definition unlink :: "(nat \<Rightarrow> nat \<Rightarrow> bool) \<Rightarrow> (nat \<Rightarrow> byte) \<Rightarrow> nat \<Rightarrow> string \<Rightarrow> fs \<Rightarrow> call_error option fres" where
  "unlink gb pad cwd path s =
     fbind (resolvePathParent gb cwd path s) (\<lambda>r s.
       case r of
         None \<Rightarrow> Done (Some FailedGetParentDir) s
       | Some (d, name) \<Rightarrow>
           fbind (lock d s) (\<lambda>_ s.
             if name = ''.'' then fbind (releasePut d s) (\<lambda>_ s. Done (Some IsDot) s)
             else if name = ''..'' then fbind (releasePut d s) (\<lambda>_ s. Done (Some IsDotDot) s)
             else fbind (dir_lookup gb d name s) (\<lambda>r s.
               case r of
                 None \<Rightarrow> fbind (releasePut d s) (\<lambda>_ s. Done (Some FailedDirLookup) s)
               | Some (i, off) \<Rightarrow>
                   fbind (lock i s) (\<lambda>_ s.
                     if d_link (s_copy (itable s ! i)) < 1 then Panic
                     else
                       case (if d_type (s_copy (itable s ! i)) = IDirectory
                             then isEmpty (gb (s_inum (itable s ! i))) (d_data (s_copy (itable s ! i))) else Some True) of
                         None \<Rightarrow> Panic
                       | Some False \<Rightarrow> fbind (releasePut i s) (\<lambda>_ s. fbind (releasePut d s) (\<lambda>_ s. Done (Some DirectoryNotEmpty) s))
                       | Some True \<Rightarrow>
                           fbind (unlink_entry gb pad d i off s) (\<lambda>_ s.
                           fbind (releasePut i s) (\<lambda>_ s.
                           fbind (releasePut d s) (\<lambda>_ s. Done None s)))))))"

text \<open>The new inode is linked; an error is the one of the first link that fails.\<close>

definition create_links :: "(nat \<Rightarrow> nat \<Rightarrow> bool) \<Rightarrow> (nat \<Rightarrow> byte) \<Rightarrow> inode_type \<Rightarrow> nat \<Rightarrow> string \<Rightarrow> nat \<Rightarrow> fs \<Rightarrow> call_error option fres" where
  "create_links gb pad kind p name i s =
     fbind (if kind = IDirectory
            then fbind (dir_link gb pad i ''.'' (s_inum (itable s ! i)) s) (\<lambda>er s.
                   if er \<noteq> None then Done (Some FailedCreateDot) s
                   else fbind (dir_link gb pad i ''..'' (s_inum (itable s ! p)) s) (\<lambda>er s.
                     Done (map_option (\<lambda>_. FailedCreateDotDot) er) s))
            else Done None s) (\<lambda>er s.
       if er \<noteq> None then Done er s
       else fbind (dir_link gb pad p name (s_inum (itable s ! i)) s) (\<lambda>er s.
         if er \<noteq> None then Done (Some FailedLinkParentDir) s
         else if kind = IDirectory then fbind (add_link p s) (\<lambda>_ s. Done None s)
         else Done None s))"

text \<open>The inode is returned locked.\<close>

definition create :: "(nat \<Rightarrow> nat \<Rightarrow> bool) \<Rightarrow> (nat \<Rightarrow> byte) \<Rightarrow> nat \<Rightarrow> string \<Rightarrow> inode_type \<Rightarrow> nat \<times> nat \<Rightarrow> fs \<Rightarrow> (call_error + nat) fres" where
  "create gb pad cwd path kind device s =
     fbind (resolvePathParent gb cwd path s) (\<lambda>r s.
       case r of
         None \<Rightarrow> Done (Inl FailedGetParentDir) s
       | Some (p, name) \<Rightarrow>
           fbind (lock p s) (\<lambda>_ s.
           fbind (dir_lookup gb p name s) (\<lambda>r s.
             case r of
               Some (i, _) \<Rightarrow>
                 fbind (lock i s) (\<lambda>_ s.
                   let t = d_type (s_copy (itable s ! i)) in
                   if kind = IFile \<and> (t = IFile \<or> t = IDevice) then fbind (releasePut p s) (\<lambda>_ s. Done (Inr i) s)
                   else fbind (releasePut i s) (\<lambda>_ s. fbind (releasePut p s) (\<lambda>_ s. Done (Inl PathExistsWithWrongType) s)))
             | None \<Rightarrow>
                 fbind (alloc kind s) (\<lambda>r s.
                   case r of
                     None \<Rightarrow> fbind (releasePut p s) (\<lambda>_ s. Done (Inl FailedAllocateInode) s)
                   | Some i \<Rightarrow>
                       fbind (lock i s) (\<lambda>_ s.
                       let s = change i (\<lambda>di. di\<lparr>d_device := device, d_link := 1\<rparr>) s in
                       fbind (create_links gb pad kind p name i s) (\<lambda>er s.
                         case er of
                           None \<Rightarrow> fbind (releasePut p s) (\<lambda>_ s. Done (Inr i) s)
                         | Some e \<Rightarrow>
                             let s = change i (\<lambda>di. di\<lparr>d_link := 0\<rparr>) s in
                             fbind (releasePut i s) (\<lambda>_ s.
                             fbind (releasePut p s) (\<lambda>_ s. Done (Inl e) s))))))))"

text \<open>\<open>sys_mkdir\<close> and \<open>sys_mknod\<close>: whether the call succeeded.\<close>

definition make :: "(nat \<Rightarrow> nat \<Rightarrow> bool) \<Rightarrow> (nat \<Rightarrow> byte) \<Rightarrow> nat \<Rightarrow> string \<Rightarrow> inode_type \<Rightarrow> nat \<times> nat \<Rightarrow> fs \<Rightarrow> bool fres" where
  "make gb pad cwd path kind device s =
     fbind (create gb pad cwd path kind device s) (\<lambda>r s.
       case r of
         Inl _ \<Rightarrow> Done False s
       | Inr i \<Rightarrow> fbind (releasePut i s) (\<lambda>_ s. Done True s))"

definition sys_mkdir :: "(nat \<Rightarrow> nat \<Rightarrow> bool) \<Rightarrow> (nat \<Rightarrow> byte) \<Rightarrow> nat \<Rightarrow> string \<Rightarrow> fs \<Rightarrow> bool fres" where
  "sys_mkdir gb pad cwd path s = make gb pad cwd path IDirectory (0, 0) s"

text \<open>A device number has 4 bits for the major and 28 for the minor number.\<close>

definition major_count :: nat where "major_count = 10"
definition max_minor :: nat where "max_minor = 2 ^ 28 - 1"

definition sys_mknod :: "(nat \<Rightarrow> nat \<Rightarrow> bool) \<Rightarrow> (nat \<Rightarrow> byte) \<Rightarrow> nat \<Rightarrow> string \<Rightarrow> nat \<Rightarrow> nat \<Rightarrow> fs \<Rightarrow> bool fres" where
  "sys_mknod gb pad cwd path major minor s =
     (if major \<ge> major_count then Done False s
      else if minor \<ge> max_minor then Done False s
      else make gb pad cwd path IDevice (major, minor) s)"

text \<open>The new current directory.\<close>

definition chdir :: "(nat \<Rightarrow> nat \<Rightarrow> bool) \<Rightarrow> nat \<Rightarrow> string \<Rightarrow> fs \<Rightarrow> (call_error + nat) fres" where
  "chdir gb cwd path s =
     fbind (resolvePath gb cwd path s) (\<lambda>r s.
       case r of
         None \<Rightarrow> Done (Inl InvalidDestPath) s
       | Some i \<Rightarrow>
           fbind (lock i s) (\<lambda>_ s.
             if d_type (s_copy (itable s ! i)) \<noteq> IDirectory
             then fbind (release i s) (\<lambda>_ s. fbind (put i s) (\<lambda>_ s. Done (Inl NotADirectory) s))
             else fbind (release i s) (\<lambda>_ s. fbind (put cwd s) (\<lambda>_ s. Done (Inr i) s))))"


subsection \<open>The operations on references and the disk\<close>

lemma h_dir_link:
  assumes h: "holding s R L D" and i: "slot_of s i n" "n \<in> L" "0 < R n" and d: "d_type (D n) = IDirectory" "dir_inv (d_data (D n))" "has_blocks (gb n) (d_data (D n))"
    and room: "room R 1" and k: "0 < k" "k < 2 ^ 32"
    and old: "\<And>m. dir_map (d_data (D n)) nm = Some m \<Longrightarrow> 0 < R m \<or> 0 < d_link (D m) \<and> m \<notin> L"
  shows "(\<exists>er s'. dir_link gb pad i nm k s = Done (Some er) s' \<and> holding s' R L D \<and> keeps s s' R \<and>
        (length nm > max_name_length \<or> dir_map (d_data (D n)) nm \<noteq> None \<or> \<not> dir_room (gb n) (d_data (D n)))) \<or>
    (\<exists>ip' s'. dir_link gb pad i nm k s = Done None s' \<and> holding s' R L (D(n := (D n)\<lparr>d_data := ip'\<rparr>)) \<and> keeps s s' R \<and>
       linkEntry (gb n) pad (d_data (D n)) nm k = Some (None, ip') \<and> dir_inv ip' \<and> has_blocks (gb n) ip' \<and>
       dir_map ip' = (dir_map (d_data (D n)))(nm \<mapsto> k) \<and> dir_map (d_data (D n)) nm = None)"
proof (cases "length nm > max_name_length")
  case True
  then show ?thesis using h h_copy [OF h i(1,2)] d(1) by (simp add: dir_link_def)
next
  case short: False
  have L: "case dir_map (d_data (D n)) nm of None \<Rightarrow> dir_lookup gb i nm s = Done None s
    | Some k \<Rightarrow> \<exists>j off s'. dir_lookup gb i nm s = Done (Some (j, off)) s' \<and> lookupChild (gb n) (d_data (D n)) nm = Some (Some (k, off)) \<and>
        slot_of s' j k \<and> holding s' (inc k R) L D \<and> keeps s s' R" using h_dir_lookup [where D = D and gb = gb and nm = nm, OF h i(1,2) d room] .
  have ty: "d_type (s_copy (itable s ! i)) = IDirectory" using h_copy [OF h i(1,2)] d(1) by simp
  show ?thesis
  proof (cases "dir_map (d_data (D n)) nm")
    case (Some m)
    then obtain j off s1 where s1: "dir_lookup gb i nm s = Done (Some (j, off)) s1" "slot_of s1 j m" "holding s1 (inc m R) L D" "keeps s s1 R" using L by auto
    have "m \<notin> L \<or> 0 < R m" "0 < d_link (D m) \<or> 0 < R m" using old [OF Some] by auto
    then obtain s2 where s2: "put j s1 = Done () s2" "holding s2 R L D" "keeps s1 s2 R" using h_put [OF s1(3,2)] by metis
    then show ?thesis using short ty s1 Some keeps_trans [OF s1(4) s2(3)] by (simp add: dir_link_def)
  next
    case None
    then have l: "dir_lookup gb i nm s = Done None s" using L by simp
    note cp = h_copy [OF h i(1,2)]
    from directory.link [of "d_data (D n)" "gb n" k pad nm] d k
    consider er where "linkEntry (gb n) pad (d_data (D n)) nm k = Some (Some er, d_data (D n))"
        "length nm > max_name_length \<or> dir_map (d_data (D n)) nm \<noteq> None \<or> \<not> dir_room (gb n) (d_data (D n))"
      | ip' where "linkEntry (gb n) pad (d_data (D n)) nm k = Some (None, ip')" "dir_inv ip'" "has_blocks (gb n) ip'"
        "dir_map ip' = (dir_map (d_data (D n)))(nm \<mapsto> k)" by auto
    then show ?thesis
    proof cases
      case 1
      have "holding (change i (\<lambda>di. di\<lparr>d_data := d_data (D n)\<rparr>) s) R L D" "keeps s (change i (\<lambda>di. di\<lparr>d_data := d_data (D n)\<rparr>) s) R"
        using h_change [OF h i(1,2), of "\<lambda>di. di\<lparr>d_data := d_data (D n)\<rparr>"] by simp_all
      then show ?thesis using 1 short d(1) ty l cp h by (cases er) (auto simp: dir_link_def)
    next
      case 2
      then show ?thesis using 2 short d(1) l cp None h_change [OF h i(1,2), of "\<lambda>di. di\<lparr>d_data := ip'\<rparr>"] by (simp add: dir_link_def)
    qed
  qed
qed

lemma h_add_link:
  assumes "holding s R L D" and "slot_of s i n" and "n \<in> L" and "d_link (D n) < max_link_count"
  shows "\<exists>s'. add_link i s = Done () s' \<and> slot_of s' i n \<and> holding s' R L (D(n := (D n)\<lparr>d_link := d_link (D n) + 1\<rparr>)) \<and> keeps s s' R"
  using h_copy [OF assms(1-3)] h_change [OF assms(1-3), of "\<lambda>di. di\<lparr>d_link := d_link di + 1\<rparr>"] assms(4) by (simp add: add_link_def)

lemma h_sub_link:
  assumes "holding s R L D" and "slot_of s i n" and "n \<in> L" and "0 < d_link (D n)"
  shows "\<exists>s'. sub_link i s = Done () s' \<and> slot_of s' i n \<and> holding s' R L (D(n := (D n)\<lparr>d_link := d_link (D n) - 1\<rparr>)) \<and> keeps s s' R"
  using h_copy [OF assms(1-3)] h_change [OF assms(1-3), of "\<lambda>di. di\<lparr>d_link := d_link di - 1\<rparr>"] assms(4) by (simp add: sub_link_def)

lemma disk_okI:
  assumes "disk_ok gb nn D" and "tree_inv (tree_of D')"
    and "\<And>n. d_type (D' n) \<noteq> IFree \<Longrightarrow> d_type (D n) \<noteq> IFree \<or> 0 < n \<and> n < nn"
    and "\<And>d. livedir (tree_of D') d \<Longrightarrow> livedir (tree_of D) d \<and> d_data (D' d) = d_data (D d) \<or>
      dir_inv (d_data (D' d)) \<and> has_blocks (gb d) (d_data (D' d)) \<and> (\<exists>p. dots (d_data (D' d)) d p)"
  shows "disk_ok gb nn D'"
  using assms unfolding disk_ok_def by metis


subsection \<open>\<open>link\<close>\<close>

lemma slot_inum: "slot_of s i n \<Longrightarrow> s_inum (itable s ! i) = n"
  by (simp add: slot_of_def)

text \<open>Why a name cannot be entered.\<close>

definition no_entry :: "(nat \<Rightarrow> nat \<Rightarrow> bool) \<Rightarrow> (nat \<Rightarrow> disk_inode) \<Rightarrow> nat \<Rightarrow> string \<Rightarrow> bool" where
  "no_entry gb D d nm \<longleftrightarrow> length nm > max_name_length \<or> dir_map (d_data (D d)) nm \<noteq> None \<or> \<not> dir_room (gb d) (d_data (D d))"

lemma link_directory_spec:
  assumes h: "holding s R {} D" and c: "slot_of s c w" "starts_live (tree_of D) w new" and ok: "walkable gb D" and room: "room R 2"
    and i: "slot_of s i k" "0 < R k" "0 < k" "k < 2 ^ 32"
  shows "\<exists>er s' D'. link_directory gb pad c new i s = Done er s' \<and> holding s' R {} D' \<and> keeps s s' R \<and>
    (case er of
       Some _ \<Rightarrow> D' = D \<and> (\<forall>d. path_target True (tree_of D) w new = Some d \<longrightarrow> no_entry gb D d (last (components new)))
     | None \<Rightarrow> \<exists>d ip'. path_target True (tree_of D) w new = Some d \<and> livedir (tree_of D) d \<and>
         linkEntry (gb d) pad (d_data (D d)) (last (components new)) k = Some (None, ip') \<and> dir_inv ip' \<and> has_blocks (gb d) ip' \<and>
         dir_map ip' = (dir_map (d_data (D d)))(last (components new) \<mapsto> k) \<and> dir_map (d_data (D d)) (last (components new)) = None \<and>
         D' = D(d := (D d)\<lparr>d_data := ip'\<rparr>))"
proof -
  let ?nm = "last (components new)"
  note P = resolvePathParent_spec [OF h c ok room]
  show ?thesis
  proof (cases "path_target True (tree_of D) w new")
    case None
    then obtain s1 where "resolvePathParent gb c new s = Done None s1" "holding s1 R {} D" "keeps s s1 R" using P by auto
    then show ?thesis using None by (intro exI [of _ "Some FailedGetParentDir"] exI [of _ s1]) (simp add: link_directory_def)
  next
    case (Some d)
    then have ld: "livedir (tree_of D) d" using path_target_live [OF ok c(2) Some] by simp
    then have ty: "d_type (D d) = IDirectory" "0 < d_link (D d)" by (simp_all add: livedir_def)
    obtain j s1 where s1: "resolvePathParent gb c new s = Done (Some (j, ?nm)) s1" "slot_of s1 j d" "holding s1 (inc d R) {} D" "keeps s s1 R"
      using P Some by auto
    obtain s2 where s2: "lock j s1 = Done () s2" "slot_of s2 j d" "holding s2 (inc d R) {d} D" "keeps s1 s2 (inc d R)"
      using h_lock [OF s1(3,2)] ty(1) by auto
    have k02: "keeps s s2 R" using keeps_trans [OF s1(4) keeps_weaken [OF s2(4)]] by simp
    have inum: "s_inum (itable s2 ! i) = k" using keeps_slot [OF k02 i(1,2)] slot_inum by blast
    have dl: "dir_inv (d_data (D d))" "has_blocks (gb d) (d_data (D d))" using walkableD(2) [OF ok ld] by simp_all
    have old: "0 < inc d R m \<or> 0 < d_link (D m) \<and> m \<notin> {d}" if "dir_map (d_data (D d)) ?nm = Some m" for m
      using walkableD(3) [OF ok ld, of ?nm m] that by (cases "m = d") (auto simp: live_def)
    have r1: "room (inc d R) 1" using room room_inc [of R 1 d] by (simp add: numeral_2_eq_2)
    from h_dir_link [where D = D and gb = gb and nm = ?nm and pad = pad and k = k, OF s2(3,2) _ _ ty(1) dl r1 i(3,4) old]
    consider er s3 where "dir_link gb pad j ?nm k s2 = Done (Some er) s3" "holding s3 (inc d R) {d} D" "keeps s2 s3 (inc d R)" "no_entry gb D d ?nm"
      | ip' s3 where "dir_link gb pad j ?nm k s2 = Done None s3" "holding s3 (inc d R) {d} (D(d := (D d)\<lparr>d_data := ip'\<rparr>))" "keeps s2 s3 (inc d R)"
        "linkEntry (gb d) pad (d_data (D d)) ?nm k = Some (None, ip')" "dir_inv ip'" "has_blocks (gb d) ip'"
        "dir_map ip' = (dir_map (d_data (D d)))(?nm \<mapsto> k)" "dir_map (d_data (D d)) ?nm = None"
      by (auto simp: no_entry_def)
    then show ?thesis
    proof cases
      case 1
      have j: "slot_of s3 j d" using keeps_slot [OF 1(3) s2(2)] by simp
      obtain s4 where s4: "releasePut j s3 = Done () s4" "holding s4 R {} D" "keeps s3 s4 R"
        using h_releasePut [OF 1(2) j] ty(2) by (auto simp: last_put_linked)
      have "keeps s s4 R" using keeps_trans [OF k02 keeps_trans [OF keeps_weaken [OF 1(3)] s4(3)]] by simp
      then show ?thesis using s1 s2 inum 1 s4 Some
        by (intro exI [of _ "Some FailedUpdateNewParDir"] exI [of _ s4]) (simp add: link_directory_def)
    next
      case 2
      have j: "slot_of s3 j d" using keeps_slot [OF 2(3) s2(2)] by simp
      obtain s4 where s4: "releasePut j s3 = Done () s4" "holding s4 R {} (D(d := (D d)\<lparr>d_data := ip'\<rparr>))" "keeps s3 s4 R"
        using h_releasePut [OF 2(2) j] ty(2) by (auto simp: last_put_linked)
      have "keeps s s4 R" using keeps_trans [OF k02 keeps_trans [OF keeps_weaken [OF 2(3)] s4(3)]] by simp
      then show ?thesis using s1 s2 inum 2 s4 Some ld
        by (intro exI [of _ None] exI [of _ s4]) (simp add: link_directory_def)
    qed
  qed
qed


lemma walkable_link:
  assumes "walkable gb D" and "live (tree_of D) k" and "0 < l"
  shows "walkable gb (D(k := (D k)\<lparr>d_link := l\<rparr>))"
proof -
  let ?D = "D(k := (D k)\<lparr>d_link := l\<rparr>)"
  have "livedir (tree_of ?D) x \<longleftrightarrow> livedir (tree_of D) x" "live (tree_of ?D) x \<longleftrightarrow> live (tree_of D) x" for x
    using assms(2,3) by (auto simp: livedir_def live_def)
  moreover have "d_data (?D x) = d_data (D x)" for x by simp
  ultimately show ?thesis using assms(1) by (simp add: walkable_def names_live_def)
qed

lemma tree_of_link: "t_type (tree_of (D(k := (D k)\<lparr>d_link := l\<rparr>))) = t_type (tree_of D)" "t_ents (tree_of (D(k := (D k)\<lparr>d_link := l\<rparr>))) = t_ents (tree_of D)"
  by (auto simp: tree_of_def)

lemma link_spec:
  assumes h: "holding s R {} D" and c: "slot_of s c w" "0 < R w" "starts_live (tree_of D) w old" "starts_live (tree_of D) w new" and ok: "disk_ok gb nn D" and room: "room R 3"
    and mx: "\<And>n. d_link (D n) < max_link_count"
  shows "\<exists>er s' D'. link gb pad c old new s = Done er s' \<and> holding s' R {} D' \<and> keeps s s' R \<and> disk_ok gb nn D' \<and>
    (case er of
       Some _ \<Rightarrow> D' = D \<and> (\<forall>k d. path_target False (tree_of D) w old = Some k \<and> d_type (D k) \<noteq> IDirectory \<and> path_target True (tree_of D) w new = Some d \<longrightarrow>
         no_entry gb D d (last (components new)))
     | None \<Rightarrow> \<exists>d k. path_target False (tree_of D) w old = Some k \<and> d_type (D k) \<noteq> IDirectory \<and> path_target True (tree_of D) w new = Some d \<and>
         dir_map (d_data (D d)) (last (components new)) = None \<and> tree_of D' = tree_add d (last (components new)) k (tree_of D))"
proof -
  let ?nm = "last (components new)"
  note wk = disk_ok_walkable [OF ok]
  note P = resolvePath_spec [OF h c(1,3) wk room_less [OF room]]
  show ?thesis
  proof (cases "path_target False (tree_of D) w old")
    case None
    then obtain s1 where "resolvePath gb c old s = Done None s1" "holding s1 R {} D" "keeps s s1 R" using P by auto
    then show ?thesis using None ok by (intro exI [of _ "Some FailedGetInode"] exI [of _ s1]) (simp add: link_def)
  next
    case (Some k)
    then have lk: "live (tree_of D) k" using path_target_live [OF wk c(3) Some] by simp
    then have ty: "d_type (D k) \<noteq> IFree" "0 < d_link (D k)" by (simp_all add: live_def)
    then have kn: "0 < k" "k < 2 ^ 32" using disk_okD(2) [OF ok] by blast+
    obtain i s1 where s1: "resolvePath gb c old s = Done (Some i) s1" "slot_of s1 i k" "holding s1 (inc k R) {} D" "keeps s s1 R"
      using P Some by auto
    obtain s2 where s2: "lock i s1 = Done () s2" "slot_of s2 i k" "holding s2 (inc k R) {k} D" "keeps s1 s2 (inc k R)"
      using h_lock [OF s1(3,2)] ty(1) by auto
    have k02: "keeps s s2 R" using keeps_trans [OF s1(4) keeps_weaken [OF s2(4)]] by simp
    have cp: "s_copy (itable s2 ! i) = D k" using h_copy [OF s2(3,2)] by simp
    show ?thesis
    proof (cases "d_type (D k) = IDirectory")
      case True
      obtain s3 where s3: "release i s2 = Done () s3" "slot_of s3 i k" "holding s3 (inc k R) {} D" "keeps s2 s3 (inc k R)"
        using h_release [OF s2(3,2)] by auto
      obtain s4 where s4: "put i s3 = Done () s4" "holding s4 R {} D" "keeps s3 s4 R" using h_put [OF s3(3,2)] ty(2) by auto
      have "keeps s s4 R" using keeps_trans [OF k02 keeps_trans [OF keeps_weaken [OF s3(4)] s4(3)]] by simp
      then show ?thesis using s1 s2 cp True s3 s4 ok Some by (intro exI [of _ "Some IsDirectoryError"] exI [of _ s4]) (simp add: link_def)
    next
      case False
      let ?D1 = "D(k := (D k)\<lparr>d_link := d_link (D k) + 1\<rparr>)"
      obtain s3 where s3: "add_link i s2 = Done () s3" "slot_of s3 i k" "holding s3 (inc k R) {k} ?D1" "keeps s2 s3 (inc k R)"
        using h_add_link [OF s2(3,2)] mx by auto
      obtain s4 where s4: "release i s3 = Done () s4" "slot_of s4 i k" "holding s4 (inc k R) {} ?D1" "keeps s3 s4 (inc k R)"
        using h_release [OF s3(3,2)] by auto
      have k24: "keeps s2 s4 (inc k R)" using keeps_trans [OF s3(4) s4(4)] by simp
      have k04: "keeps s s4 R" using keeps_trans [OF k02 keeps_weaken [OF k24]] by simp
      have cw: "slot_of s4 c w" using keeps_slot [OF k04 c(1,2)] .
      have wk1: "walkable gb ?D1" using walkable_link [OF wk lk] by simp
      have lw1: "starts_live (tree_of ?D1) w new" using c(4) by (auto simp: starts_live_def live_def)
      have pt: "path_target True (tree_of ?D1) w new = path_target True (tree_of D) w new"
        by (intro path_target_cong tree_of_link)
      have r2: "room (inc k R) 2" using room room_inc [of R 2 k] by (simp add: eval_nat_numeral)
      have ne: "no_entry gb ?D1 d nm = no_entry gb D d nm" for d nm by (simp add: no_entry_def)
      obtain er s5 D' where s5: "link_directory gb pad c new i s4 = Done er s5" "holding s5 (inc k R) {} D'" "keeps s4 s5 (inc k R)"
        and out: "case er of
          Some _ \<Rightarrow> D' = ?D1 \<and> (\<forall>d. path_target True (tree_of D) w new = Some d \<longrightarrow> no_entry gb D d ?nm)
        | None \<Rightarrow> \<exists>d ip'. path_target True (tree_of D) w new = Some d \<and> livedir (tree_of ?D1) d \<and>
            linkEntry (gb d) pad (d_data (?D1 d)) ?nm k = Some (None, ip') \<and> dir_inv ip' \<and> has_blocks (gb d) ip' \<and>
            dir_map ip' = (dir_map (d_data (?D1 d)))(?nm \<mapsto> k) \<and> dir_map (d_data (?D1 d)) ?nm = None \<and> D' = ?D1(d := (?D1 d)\<lparr>d_data := ip'\<rparr>)"
        using link_directory_spec [OF s4(3) cw lw1 wk1 r2 s4(2) _ kn, of pad] unfolding pt ne by auto
      have i5: "slot_of s5 i k" using keeps_slot [OF s5(3) s4(2)] by simp
      have k05: "keeps s s5 R" using keeps_trans [OF k04 keeps_weaken [OF s5(3)]] by simp
      show ?thesis
      proof (cases er)
        case None
        then obtain d ip' where d: "path_target True (tree_of D) w new = Some d" "livedir (tree_of ?D1) d"
          "linkEntry (gb d) pad (d_data (?D1 d)) ?nm k = Some (None, ip')" "dir_inv ip'" "has_blocks (gb d) ip'"
          "dir_map ip' = (dir_map (d_data (?D1 d)))(?nm \<mapsto> k)" "dir_map (d_data (?D1 d)) ?nm = None" "D' = ?D1(d := (?D1 d)\<lparr>d_data := ip'\<rparr>)"
          using out by auto
        have dk: "d \<noteq> k" using d(2) False by (auto simp: livedir_def)
        then have ld: "livedir (tree_of D) d" using d(2) by (simp add: livedir_def)
        have D': "D' = D(k := (D k)\<lparr>d_link := d_link (D k) + 1\<rparr>, d := (D d)\<lparr>d_data := ip'\<rparr>)" using d(8) dk by simp
        have new: "dir_map (d_data (D d)) ?nm = None" using d(7) dk by simp
        have tr: "tree_of D' = tree_add d ?nm k (tree_of D)"
          using d(6) dk by (simp add: D' tree_of_def tree_add_def fun_eq_iff)
        have inv: "tree_inv (tree_of D')" unfolding tr using tree_add_inv [OF disk_okD(1) [OF ok] ld _ lk] new False by simp
        have dots: "\<exists>p. dots ip' d p"
          using disk_okD(3,4) [OF ok ld] linkEntry_dots [of "d_data (D d)" "gb d" k pad ?nm None ip' d] kn d(3) dk by auto
        have ok': "disk_ok gb nn D'"
        proof (rule disk_okI [OF ok inv])
          show "d_type (D n) \<noteq> IFree \<or> 0 < n \<and> n < nn" if "d_type (D' n) \<noteq> IFree" for n using that D' by (auto split: if_splits)
          show "livedir (tree_of D) x \<and> d_data (D' x) = d_data (D x) \<or> dir_inv (d_data (D' x)) \<and> has_blocks (gb x) (d_data (D' x)) \<and> (\<exists>p. dots (d_data (D' x)) x p)"
            if "livedir (tree_of D') x" for x
            using that d(4,5) dots False dk by (auto simp: D' livedir_def)
        qed
        obtain s6 where s6: "put i s5 = Done () s6" "holding s6 R {} D'" "keeps s5 s6 R"
          using h_put [OF s5(2) i5] dk D' by auto
        have "link gb pad c old new s = Done None s6" using s1 s2 cp False s3 s4 s5 None s6 by (simp add: link_def)
        moreover have "keeps s s6 R" using keeps_trans [OF k05 s6(3)] .
        ultimately show ?thesis using s6(2) ok' Some False d(1) new tr by (intro exI [of _ None] exI [of _ s6] exI [of _ D']) simp
      next
        case (Some e)
        then have D': "D' = ?D1" and why: "\<forall>d. path_target True (tree_of D) w new = Some d \<longrightarrow> no_entry gb D d ?nm" using out by simp_all
        have tk: "d_type (D' k) \<noteq> IFree" using D' ty(1) by simp
        obtain s6 where s6: "lock i s5 = Done () s6" "slot_of s6 i k" "holding s6 (inc k R) {k} D'" "keeps s5 s6 (inc k R)"
          using h_lock [OF s5(2) i5] tk by auto
        have undo: "D'(k := (D' k)\<lparr>d_link := d_link (D' k) - 1\<rparr>) = D" using D' by simp
        obtain s7 where s7: "sub_link i s6 = Done () s7" "slot_of s7 i k" "holding s7 (inc k R) {k} D" "keeps s6 s7 (inc k R)"
          using h_sub_link [OF s6(3,2)] D' undo by auto
        obtain s8 where s8: "release i s7 = Done () s8" "slot_of s8 i k" "holding s8 (inc k R) {} D" "keeps s7 s8 (inc k R)"
          using h_release [OF s7(3,2)] by auto
        obtain s9 where s9: "put i s8 = Done () s9" "holding s9 R {} D" "keeps s8 s9 R" using h_put [OF s8(3,2)] ty(2) by auto
        have "keeps s5 s8 (inc k R)" using keeps_trans [OF s6(4) keeps_trans [OF s7(4) s8(4)]] .
        then have "keeps s s9 R" using keeps_trans [OF keeps_trans [OF k05 keeps_weaken] s9(3)] by simp
        moreover have "link gb pad c old new s = Done (Some e) s9" using s1 s2 cp False s3 s4 s5 Some s6 s7 s8 s9 by (simp add: link_def)
        ultimately show ?thesis using s9(2) ok why by (intro exI [of _ "Some e"] exI [of _ s9] exI [of _ D]) simp
      qed
    qed
  qed
qed


subsection \<open>\<open>unlink\<close>\<close>

text \<open>No reference leads to a free inode.\<close>

definition refs_ok :: "(nat \<Rightarrow> nat) \<Rightarrow> (nat \<Rightarrow> disk_inode) \<Rightarrow> bool" where
  "refs_ok R D \<longleftrightarrow> (\<forall>n. 0 < R n \<longrightarrow> d_type (D n) \<noteq> IFree)"

lemma refs_ok_last_put: "refs_ok R D \<Longrightarrow> refs_ok R (last_put n R D)"
  by (auto simp: refs_ok_def last_put_def)

lemma last_put_live:
  "live (tree_of (last_put k R D)) n \<longleftrightarrow> live (tree_of D) n" "live (tree_of D) n \<Longrightarrow> last_put k R D n = D n"
  "livedir (tree_of (last_put k R D)) n \<longleftrightarrow> livedir (tree_of D) n"
  by (auto simp: last_put_def live_def livedir_def freed_def)

lemma disk_ok_last_put:
  assumes "disk_ok gb nn D"
  shows "disk_ok gb nn (last_put k R D)"
proof (rule disk_okI [OF assms])
  show "tree_inv (tree_of (last_put k R D))"
    by (rule tree_inv_live [OF disk_okD(1) [OF assms]]) (simp_all add: last_put_live livedir_live)
  show "d_type (D n) \<noteq> IFree \<or> 0 < n \<and> n < nn" if "d_type (last_put k R D n) \<noteq> IFree" for n
    using that by (auto simp: last_put_def freed_def split: if_splits)
qed (simp add: last_put_live livedir_live)

lemma last_put_eq: "0 < d_link (D n) \<Longrightarrow> last_put n R D = D" "0 < R n \<Longrightarrow> last_put n R D = D"
  by (simp_all add: last_put_def)

lemma last_put_other: "m \<noteq> n \<Longrightarrow> last_put n R D m = D m"
  by (simp add: last_put_def)

text \<open>The disk behind the checks.\<close>

definition unlinked :: "nat \<Rightarrow> nat \<Rightarrow> inode \<Rightarrow> (nat \<Rightarrow> disk_inode) \<Rightarrow> nat \<Rightarrow> disk_inode" where
  "unlinked d k ip' D = D(d := (D d)\<lparr>d_data := ip', d_link := (if d_type (D k) = IDirectory then d_link (D d) - 1 else d_link (D d))\<rparr>,
     k := (D k)\<lparr>d_link := d_link (D k) - 1\<rparr>)"

lemma unlink_entry_spec:
  assumes h: "holding s R L D" and d: "slot_of s jd d" "d \<in> L" "0 < R d" "0 < d_link (D d)" and k: "slot_of s i k" "k \<in> L" "0 < R k" "0 < d_link (D k)" and dk: "d \<noteq> k"
    and cl: "clearEntry (gb d) pad (d_data (D d)) off = Some ip'"
  shows "\<exists>s'. unlink_entry gb pad jd i off s = Done () s' \<and> holding s' R L (unlinked d k ip' D) \<and> keeps s s' R"
proof -
  note cp = h_copy [OF h d(1,2)] h_copy [OF h k(1,2)]
  define s1 where "s1 = change jd (\<lambda>di. di\<lparr>d_data := ip'\<rparr>) s"
  define D1 where "D1 = D(d := (D d)\<lparr>d_data := ip'\<rparr>)"
  have s1: "slot_of s1 jd d" "holding s1 R L D1" "keeps s s1 R"
    using h_change [OF h d(1,2), of "\<lambda>di. di\<lparr>d_data := ip'\<rparr>"] by (simp_all add: s1_def D1_def)
  have i1: "slot_of s1 i k" by (rule keeps_slot [OF s1(3) k(1,3)])
  note cp1 = h_copy [OF s1(2) i1 k(2)]
  have ty: "d_type (s_copy (itable s1 ! i)) = d_type (D k)" using cp1 dk by (simp add: D1_def)
  define D2 where "D2 = D1(d := (D1 d)\<lparr>d_link := (if d_type (D k) = IDirectory then d_link (D d) - 1 else d_link (D d))\<rparr>)"
  have "\<exists>s2. (if d_type (D k) = IDirectory then sub_link jd s1 else Done () s1) = Done () s2 \<and> holding s2 R L D2 \<and> keeps s1 s2 R"
  proof (cases "d_type (D k) = IDirectory")
    case True
    then show ?thesis using h_sub_link [OF s1(2,1) d(2)] d(4) by (auto simp: D1_def D2_def)
  next
    case False
    have "D2 = D1" using False by (simp add: D2_def D1_def)
    then show ?thesis using False s1(2) by simp
  qed
  then obtain s2 where s2: "(if d_type (D k) = IDirectory then sub_link jd s1 else Done () s1) = Done () s2" "holding s2 R L D2" "keeps s1 s2 R" by blast
  have i2: "slot_of s2 i k" by (rule keeps_slot [OF s2(3) i1 k(3)])
  have l2: "0 < d_link (D2 k)" using k(4) dk by (simp add: D2_def D1_def)
  obtain s3 where s3: "sub_link i s2 = Done () s3" "holding s3 R L (D2(k := (D2 k)\<lparr>d_link := d_link (D2 k) - 1\<rparr>))" "keeps s2 s3 R"
    using h_sub_link [OF s2(2) i2 k(2) l2] by blast
  have "D2(k := (D2 k)\<lparr>d_link := d_link (D2 k) - 1\<rparr>) = unlinked d k ip' D" using dk by (simp add: D2_def D1_def unlinked_def)
  moreover have "unlink_entry gb pad jd i off s = fbind (if d_type (D k) = IDirectory then sub_link jd s1 else Done () s1) (\<lambda>_ s. sub_link i s)"
    using cp cl ty by (simp add: unlink_entry_def s1_def Let_def)
  ultimately show ?thesis using s3 keeps_trans [OF s1(3) keeps_trans [OF s2(3) s3(3)]] unfolding s2(1) by simp
qed

text \<open>What the call does to the tree.\<close>

definition tree_unlink :: "nat \<Rightarrow> string \<Rightarrow> nat \<Rightarrow> tree \<Rightarrow> tree" where
  "tree_unlink d nm k tr = (if t_type tr k = IDirectory then tree_rmdir d nm k tr else tree_remove d nm k tr)"

lemma unlinked_ok:
  assumes ok: "disk_ok gb nn D" and ld: "livedir (tree_of D) d" and nm: "nm \<notin> dot_names" and k: "dir_map (d_data (D d)) nm = Some k"
    and em: "d_type (D k) = IDirectory \<Longrightarrow> dom (dir_map (d_data (D k))) \<subseteq> dot_names"
    and ip': "dir_inv ip'" "has_blocks (gb d) ip'" "dir_map ip' = (dir_map (d_data (D d)))(nm := None)" "\<And>a b. dots (d_data (D d)) a b \<Longrightarrow> dots ip' a b"
  shows "d \<noteq> k" "tree_of (unlinked d k ip' D) = tree_unlink d nm k (tree_of D)" "disk_ok gb nn (unlinked d k ip' D)" "0 < d_link (unlinked d k ip' D d)"
proof -
  note inv = disk_okD(1) [OF ok]
  show dk: "d \<noteq> k"
  proof (cases "d_type (D k) = IDirectory")
    case True
    then show ?thesis using empty_dir(2) [OF inv ld nm, of k] k em by simp
  next
    case False
    then show ?thesis using ld by (auto simp: livedir_def)
  qed
  show tr: "tree_of (unlinked d k ip' D) = tree_unlink d nm k (tree_of D)"
    using dk ip'(3) by (auto simp: unlinked_def tree_of_def tree_unlink_def tree_rmdir_def tree_remove_def fun_eq_iff)
  have inv': "tree_inv (tree_of (unlinked d k ip' D))"
    unfolding tr tree_unlink_def using tree_rmdir_inv [OF inv ld nm, of k] tree_remove_inv [OF inv ld nm, of k] k em by simp
  have sub: "livedir (tree_of D) x" if "livedir (tree_of (unlinked d k ip' D)) x" for x
    using that ld by (auto simp: unlinked_def livedir_def split: if_splits)
  have nk: "livedir (tree_of (unlinked d k ip' D)) x \<Longrightarrow> x \<noteq> d \<Longrightarrow> d_data (unlinked d k ip' D x) = d_data (D x)" for x
    by (simp add: unlinked_def)
  show "disk_ok gb nn (unlinked d k ip' D)"
  proof (rule disk_okI [OF ok inv'])
    show "d_type (D n) \<noteq> IFree \<or> 0 < n \<and> n < nn" if "d_type (unlinked d k ip' D n) \<noteq> IFree" for n
      using that by (auto simp: unlinked_def split: if_splits)
    fix x assume x: "livedir (tree_of (unlinked d k ip' D)) x"
    show "livedir (tree_of D) x \<and> d_data (unlinked d k ip' D x) = d_data (D x) \<or>
        dir_inv (d_data (unlinked d k ip' D x)) \<and> has_blocks (gb x) (d_data (unlinked d k ip' D x)) \<and> (\<exists>p. dots (d_data (unlinked d k ip' D x)) x p)"
    proof (cases "x = d")
      case True
      then show ?thesis using dk ip' disk_okD(4) [OF ok ld] by (auto simp: unlinked_def)
    next
      case False
      then show ?thesis using sub [OF x] nk [OF x] by simp
    qed
  qed
  show "0 < d_link (unlinked d k ip' D d)"
  proof (cases "d_type (D k) = IDirectory")
    case True
    show ?thesis using tree_rmdir_link [OF inv ld nm, of k] k em True dk by (simp add: unlinked_def)
  next
    case False
    then show ?thesis using dk ld by (simp add: unlinked_def livedir_def)
  qed
qed


text \<open>Giving back the directory at the end.\<close>

lemma h_finish:
  assumes "holding s (inc d R) {d} D" and "slot_of s jd d" and "0 < d_link (D d)"
  shows "\<exists>s'. releasePut jd s = Done () s' \<and> holding s' R {} D \<and> keeps s s' R"
  using h_releasePut [OF assms(1,2)] assms(3) by (simp add: last_put_eq)

lemma entry_other:
  assumes "tree_inv tr" and "livedir tr d" and "nm \<notin> dot_names" and "t_ents tr d nm = Some k"
  shows "d \<noteq> k"
proof
  assume "d = k"
  then have "t_ents tr d ''..'' = Some d" "d \<noteq> root_inode_number" using one_nameD [OF assms(1-3), of k] assms(2,4) by (auto simp: livedir_def)
  then show False using own_parent [OF assms(1,2)] by simp
qed

definition unlink_refused :: "(nat \<Rightarrow> disk_inode) \<Rightarrow> nat \<Rightarrow> string \<Rightarrow> bool" where
  "unlink_refused D d nm \<longleftrightarrow> nm \<in> dot_names \<or>
     (case dir_map (d_data (D d)) nm of
        None \<Rightarrow> True
      | Some k \<Rightarrow> d_type (D k) = IDirectory \<and> \<not> dom (dir_map (d_data (D k))) \<subseteq> dot_names)"

lemma unlink_spec:
  assumes h: "holding s R {} D" and c: "slot_of s c w" "0 < R w" "starts_live (tree_of D) w path" and ok: "disk_ok gb nn D" and room: "room R 2"
  shows "\<exists>er s' D'. unlink gb pad c path s = Done er s' \<and> holding s' R {} D' \<and> keeps s s' R \<and> disk_ok gb nn D' \<and>
    (case er of
       Some _ \<Rightarrow> D' = D \<and> (\<forall>d. path_target True (tree_of D) w path = Some d \<longrightarrow> unlink_refused D d (last (components path)))
     | None \<Rightarrow> \<exists>d k D''. path_target True (tree_of D) w path = Some d \<and> \<not> unlink_refused D d (last (components path)) \<and>
         dir_map (d_data (D d)) (last (components path)) = Some k \<and>
         tree_of D'' = tree_unlink d (last (components path)) k (tree_of D) \<and>
         (\<forall>n. d_type (D'' n) = d_type (D n) \<and> (n \<noteq> d \<longrightarrow> d_data (D'' n) = d_data (D n))) \<and> D' = last_put k R D'')"
proof -
  let ?nm = "last (components path)"
  note wk = disk_ok_walkable [OF ok] and inv = disk_okD(1) [OF ok]
  note P = resolvePathParent_spec [OF h c(1,3) wk room]
  show ?thesis
  proof (cases "path_target True (tree_of D) w path")
    case None
    then obtain s1 where "resolvePathParent gb c path s = Done None s1" "holding s1 R {} D" "keeps s s1 R" using P by auto
    then show ?thesis using None ok by (intro exI [of _ "Some FailedGetParentDir"] exI [of _ s1]) (simp add: unlink_def)
  next
    case (Some d)
    then have ld: "livedir (tree_of D) d" using path_target_live [OF wk c(3) Some] by simp
    then have ty: "d_type (D d) = IDirectory" "0 < d_link (D d)" by (simp_all add: livedir_def)
    obtain jd s1 where s1: "resolvePathParent gb c path s = Done (Some (jd, ?nm)) s1" "slot_of s1 jd d" "holding s1 (inc d R) {} D" "keeps s s1 R"
      using P Some by auto
    obtain s2 where s2: "lock jd s1 = Done () s2" "slot_of s2 jd d" "holding s2 (inc d R) {d} D" "keeps s1 s2 (inc d R)"
      using h_lock [OF s1(3,2)] ty(1) by auto
    have k02: "keeps s s2 R" using keeps_trans [OF s1(4) keeps_weaken [OF s2(4)]] by simp
    obtain t2 where t2: "releasePut jd s2 = Done () t2" "holding t2 R {} D" "keeps s2 t2 R" using h_finish [OF s2(3,2) ty(2)] by blast
    have kt: "keeps s t2 R" using keeps_trans [OF k02 t2(3)] .
    show ?thesis
    proof (cases "?nm \<in> dot_names")
      case True
      then have "unlink gb pad c path s = Done (Some (if ?nm = ''.'' then IsDot else IsDotDot)) t2"
        using s1 s2 t2 by (auto simp: unlink_def dot_names_def)
      then show ?thesis using t2 kt ok Some True
        by (intro exI [of _ "Some (if ?nm = ''.'' then IsDot else IsDotDot)"] exI [of _ t2]) (simp add: unlink_refused_def)
    next
      case nm: False
      have nd: "?nm \<noteq> ''.''" "?nm \<noteq> ''..''" using nm by (simp_all add: dot_names_def)
      have dl: "dir_inv (d_data (D d))" "has_blocks (gb d) (d_data (D d))" using disk_okD(3) [OF ok ld] by simp_all
      have r1: "room (inc d R) 1" using room room_inc [of R 1 d] by (simp add: numeral_2_eq_2)
      note L = h_dir_lookup [where D = D and gb = gb and nm = ?nm, OF s2(3,2) _ ty(1) dl r1]
      show ?thesis
      proof (cases "dir_map (d_data (D d)) ?nm")
        case none: None
        then have "dir_lookup gb jd ?nm s2 = Done None s2" using L by simp
        then have "unlink gb pad c path s = Done (Some FailedDirLookup) t2" using s1 s2 t2 nd by (simp add: unlink_def)
        then show ?thesis using t2 kt ok Some none
          by (intro exI [of _ "Some FailedDirLookup"] exI [of _ t2]) (simp add: unlink_refused_def)
      next
        case k: (Some k)
        have lk: "live (tree_of D) k" using tree_invD(7) [OF inv ld] k by simp
        then have tk: "d_type (D k) \<noteq> IFree" "0 < d_link (D k)" by (simp_all add: live_def)
        have dk: "d \<noteq> k" using entry_other [OF inv ld nm] k by simp
        obtain i off s3 where s3: "dir_lookup gb jd ?nm s2 = Done (Some (i, off)) s3" "lookupChild (gb d) (d_data (D d)) ?nm = Some (Some (k, off))"
            "slot_of s3 i k" "holding s3 (inc k (inc d R)) {d} D" "keeps s2 s3 (inc d R)"
          using L k by auto
        have d3: "slot_of s3 jd d" using keeps_slot [OF s3(5) s2(2)] by simp
        obtain s4 where s4: "lock i s3 = Done () s4" "slot_of s4 i k" "holding s4 (inc k (inc d R)) {k, d} D" "keeps s3 s4 (inc k (inc d R))"
          using h_lock [OF s3(4,3)] dk tk(1) by auto
        have d4: "slot_of s4 jd d" using keeps_slot [OF s4(4) d3] dk by simp
        have k04: "keeps s s4 R" using keeps_trans [OF k02 keeps_trans [OF keeps_weaken [OF s3(5)] keeps_weaken [OF s4(4)]]] by simp
        have cp: "s_copy (itable s4 ! i) = D k" "s_inum (itable s4 ! i) = k" using h_copy [OF s4(3,2)] by simp_all
        have sub: "{k, d} - {k} = {d}" using dk by auto
        have em: "(if d_type (D k) = IDirectory then isEmpty (gb k) (d_data (D k)) else Some True) =
            Some (d_type (D k) = IDirectory \<longrightarrow> dom (dir_map (d_data (D k))) \<subseteq> dot_names)"
        proof (cases "d_type (D k) = IDirectory")
          case True
          then have lkd: "livedir (tree_of D) k" using tk(2) by (simp add: livedir_def)
          obtain p where "dots (d_data (D k)) k p" using disk_okD(4) [OF ok lkd] by blast
          then show ?thesis using True isEmpty_map [of "d_data (D k)" "gb k" k p] disk_okD(3) [OF ok lkd] by (simp add: dot_names_def)
        qed simp
        show ?thesis
        proof (cases "d_type (D k) = IDirectory \<longrightarrow> dom (dir_map (d_data (D k))) \<subseteq> dot_names")
          case False
          obtain s5 where s5: "releasePut i s4 = Done () s5" "holding s5 (inc d R) {d} D" "keeps s4 s5 (inc d R)"
            using h_releasePut [OF s4(3,2)] tk(2) sub by (auto simp: last_put_eq)
          have d5: "slot_of s5 jd d" using keeps_slot [OF s5(3) d4] by simp
          obtain s6 where s6: "releasePut jd s5 = Done () s6" "holding s6 R {} D" "keeps s5 s6 R" using h_finish [OF s5(2) d5 ty(2)] by blast
          have k06: "keeps s s6 R" using keeps_trans [OF k04 keeps_trans [OF keeps_weaken [OF s5(3)] s6(3)]] by simp
          have "unlink gb pad c path s = Done (Some DirectoryNotEmpty) s6" using s1 s2 nd s3 s4 cp em False tk(2) s5 s6 by (auto simp: unlink_def)
          then show ?thesis using s6(2) k06 ok Some k False
            by (intro exI [of _ "Some DirectoryNotEmpty"] exI [of _ s6]) (simp add: unlink_refused_def)
        next
          case True
          obtain ip' where ip': "clearEntry (gb d) pad (d_data (D d)) off = Some ip'" "dir_inv ip'" "has_blocks (gb d) ip'"
              "dir_map ip' = (dir_map (d_data (D d)))(?nm := None)" "\<And>a b. dots (d_data (D d)) a b \<Longrightarrow> dots ip' a b"
            using clear_found [OF dl s3(2), of pad] nd by auto
          let ?U = "unlinked d k ip' D"
          note U = unlinked_ok [OF ok ld nm k _ ip'(2-5)]
          obtain s5 where s5: "unlink_entry gb pad jd i off s4 = Done () s5" "holding s5 (inc k (inc d R)) {k, d} ?U" "keeps s4 s5 (inc k (inc d R))"
            using unlink_entry_spec [where D = D and gb = gb and pad = pad, OF s4(3) d4 _ _ ty(2) s4(2) _ _ tk(2) dk ip'(1)] dk by auto
          have d5: "slot_of s5 jd d" "slot_of s5 i k" using keeps_slot [OF s5(3)] d4 s4(2) dk by simp_all
          have lp: "last_put k (inc d R) ?U = last_put k R ?U" using dk by (simp add: last_put_def)
          obtain s6 where s6: "releasePut i s5 = Done () s6" "holding s6 (inc d R) {d} (last_put k R ?U)" "keeps s5 s6 (inc d R)"
            using h_releasePut [OF s5(2) d5(2)] sub lp by auto
          have d6: "slot_of s6 jd d" using keeps_slot [OF s6(3) d5(1)] by simp
          have l6: "0 < d_link (last_put k R ?U d)" using U(4) True dk by (simp add: last_put_other)
          obtain s7 where s7: "releasePut jd s6 = Done () s7" "holding s7 R {} (last_put k R ?U)" "keeps s6 s7 R" using h_finish [OF s6(2) d6 l6] by blast
          have "keeps s4 s7 R" using keeps_trans [OF keeps_weaken [OF s5(3)] keeps_trans [OF keeps_weaken [OF s6(3)] s7(3)]] by simp
          then have k07: "keeps s s7 R" using keeps_trans [OF k04] by blast
          have "unlink gb pad c path s = Done None s7" using s1 s2 nd s3 s4 cp em True tk(2) s5 s6 s7 by (auto simp: unlink_def)
          moreover have "\<not> unlink_refused D d ?nm" using nm k True by (simp add: unlink_refused_def)
          moreover have "\<forall>n. d_type (?U n) = d_type (D n) \<and> (n \<noteq> d \<longrightarrow> d_data (?U n) = d_data (D n))" by (simp add: unlinked_def)
          moreover have "disk_ok gb nn (last_put k R ?U)" using disk_ok_last_put U(3) True by blast
          ultimately show ?thesis using s7(2) k07 Some k U(2) True
            by (intro exI [of _ None] exI [of _ s7] exI [of _ "last_put k R ?U"]) auto
        qed
      qed
    qed
  qed
qed


subsection \<open>\<open>create\<close>\<close>

lemma h_alloc:
  assumes h: "holding s R L D" and room: "room R 1" and rf: "refs_ok R D"
  shows "alloc kind s = Done None s \<and> (\<forall>n. 0 < n \<and> n < ninodes s \<longrightarrow> d_type (D n) \<noteq> IFree) \<or>
    (\<exists>i n s'. alloc kind s = Done (Some i) s' \<and> 0 < n \<and> n < ninodes s \<and> d_type (D n) = IFree \<and> R n = 0 \<and> slot_of s' i n \<and>
      holding s' (inc n R) L (D(n := fresh_inode kind)) \<and> keeps s s' R)"
proof -
  note H = holdingD [OF h]
  have "card (used s) < NINODE" using room H(2) by (auto simp: used_def room_def)
  from alloc_spec [OF H(1) this, of kind] rf H
  consider "alloc kind s = Done None s" "\<forall>n. 0 < n \<and> n < ninodes s \<longrightarrow> d_type (D n) \<noteq> IFree"
    | i n s' where "alloc kind s = Done (Some i) s'" "0 < n" "n < ninodes s" "d_type (D n) = IFree" "R n = 0" "slot_of s' i n"
        "moved s s' (R(n := 1)) L (D(n := fresh_inode kind))"
    unfolding refs_ok_def by auto
  then show ?thesis
  proof cases
    case 2
    have "R(n := 1) = inc n R" using 2(5) by (simp add: inc_def)
    then have "holding s' (inc n R) L (D(n := fresh_inode kind)) \<and> keeps s s' R" using moved_keeps [OF 2(7)] by simp
    then show ?thesis using 2 by blast
  qed simp
qed

text \<open>A new inode has data without entries, or the two dots.\<close>

definition new_data :: "(nat \<Rightarrow> nat \<Rightarrow> bool) \<Rightarrow> inode_type \<Rightarrow> nat \<Rightarrow> nat \<Rightarrow> inode \<Rightarrow> bool" where
  "new_data gb kind n d dt \<longleftrightarrow>
     (if kind = IDirectory then dir_inv dt \<and> has_blocks (gb n) dt \<and> dir_map dt = [''.'' \<mapsto> n, ''..'' \<mapsto> d] \<and> dots dt n d
      else dir_map dt = Map.empty)"

lemma dot_links_spec:
  assumes h: "holding s R L X" and i: "slot_of s i n" "n \<in> L" "0 < R n" and x: "d_type (X n) = IDirectory" "d_data (X n) = empty_data"
    and room: "room R 1" and n: "0 < n" "n < 2 ^ 32" and d: "0 < d" "d < 2 ^ 32" and j: "slot_of s j d" "0 < R d"
  shows "\<exists>er s' dt. fbind (dir_link gb pad i ''.'' (s_inum (itable s ! i)) s) (\<lambda>er s. if er \<noteq> None then Done (Some FailedCreateDot) s
        else fbind (dir_link gb pad i ''..'' (s_inum (itable s ! j)) s) (\<lambda>er s. Done (map_option (\<lambda>_. FailedCreateDotDot) er) s)) = Done er s' \<and>
      holding s' R L (X(n := (X n)\<lparr>d_data := dt\<rparr>)) \<and> keeps s s' R \<and> (er = None \<longrightarrow> new_data gb IDirectory n d dt)"
proof -
  have e: "dir_inv (d_data (X n))" "has_blocks (gb n) (d_data (X n))" using x(2) by (simp_all add: empty_data)
  have same: "X(n := (X n)\<lparr>d_data := empty_data\<rparr>) = X" using x(2) by (simp add: fun_eq_iff)
  from h_dir_link [where D = X and gb = gb and pad = pad and nm = "''.''" and k = n, OF h i x(1) e room n] x(2)
  consider er s1 where "dir_link gb pad i ''.'' n s = Done (Some er) s1" "holding s1 R L X" "keeps s s1 R"
    | ip1 s1 where "dir_link gb pad i ''.'' n s = Done None s1" "holding s1 R L (X(n := (X n)\<lparr>d_data := ip1\<rparr>))" "keeps s s1 R"
      "linkEntry (gb n) pad empty_data ''.'' n = Some (None, ip1)" "dir_inv ip1" "has_blocks (gb n) ip1" "dir_map ip1 = [''.'' \<mapsto> n]"
    by (auto simp: empty_data)
  moreover have in1: "s_inum (itable s ! i) = n" using i(1) by (rule slot_inum)
  ultimately show ?thesis
  proof cases
    case 1
    then show ?thesis using same in1 by (intro exI [of _ "Some FailedCreateDot"] exI [of _ s1] exI [of _ empty_data]) simp
  next
    case 2
    let ?X = "X(n := (X n)\<lparr>d_data := ip1\<rparr>)"
    have i1: "slot_of s1 i n" by (rule keeps_slot [OF 2(3) i(1,3)])
    have in2: "s_inum (itable s1 ! j) = d" by (rule slot_inum [OF keeps_slot [OF 2(3) j]])
    have t1: "d_type (?X n) = IDirectory" "dir_inv (d_data (?X n))" "has_blocks (gb n) (d_data (?X n))" "d_data (?X n) = ip1" using x(1) 2(5,6) by simp_all
    from h_dir_link [where D = ?X and gb = gb and pad = pad and nm = "''..''" and k = d, OF 2(2) i1 i(2,3) t1(1-3) room d] 2(7)
    consider er s2 where "dir_link gb pad i ''..'' d s1 = Done (Some er) s2" "holding s2 R L ?X" "keeps s1 s2 R"
      | ip2 s2 where "dir_link gb pad i ''..'' d s1 = Done None s2" "holding s2 R L (X(n := (X n)\<lparr>d_data := ip2\<rparr>))" "keeps s1 s2 R"
        "linkEntry (gb n) pad ip1 ''..'' d = Some (None, ip2)" "dir_inv ip2" "has_blocks (gb n) ip2" "dir_map ip2 = [''.'' \<mapsto> n, ''..'' \<mapsto> d]"
      by auto
    then show ?thesis
    proof cases
      case a: 1
      then show ?thesis using 2(1) in1 in2 keeps_trans [OF 2(3) a(3)]
        by (intro exI [of _ "Some FailedCreateDotDot"] exI [of _ s2] exI [of _ ip1]) simp
    next
      case b: 2
      have "dots ip2 n d" by (rule first_links [OF n d 2(4-6) b(4)])
      then show ?thesis using 2(1) in1 in2 b keeps_trans [OF 2(3) b(3)]
        by (intro exI [of _ None] exI [of _ s2] exI [of _ ip2]) (simp add: new_data_def)
    qed
  qed
qed


definition created :: "inode_type \<Rightarrow> nat \<Rightarrow> inode \<Rightarrow> nat \<Rightarrow> inode \<Rightarrow> (nat \<Rightarrow> disk_inode) \<Rightarrow> nat \<Rightarrow> disk_inode" where
  "created kind d ip' n dt X = X(n := (X n)\<lparr>d_data := dt\<rparr>,
     d := (X d)\<lparr>d_data := ip', d_link := (if kind = IDirectory then d_link (X d) + 1 else d_link (X d))\<rparr>)"

lemma create_links_spec:
  assumes h: "holding s R L X" and i: "slot_of s i n" "n \<in> L" "0 < R n" and p: "slot_of s j d" "d \<in> L" "0 < R d" and nd: "d \<noteq> n"
    and x: "d_type (X n) = kind" "d_data (X n) = empty_data" and dd: "d_type (X d) = IDirectory" "dir_inv (d_data (X d))" "has_blocks (gb d) (d_data (X d))"
      "dir_map (d_data (X d)) nm = None" "d_link (X d) < max_link_count"
    and room: "room R 1" and n: "0 < n" "n < 2 ^ 32" and d: "0 < d" "d < 2 ^ 32"
  shows "\<exists>er s' X'. create_links gb pad kind j nm i s = Done er s' \<and> holding s' R L X' \<and> keeps s s' R \<and>
    (case er of
       Some _ \<Rightarrow> \<exists>dt. X' = X(n := (X n)\<lparr>d_data := dt\<rparr>)
     | None \<Rightarrow> \<exists>ip' dt. X' = created kind d ip' n dt X \<and> new_data gb kind n d dt \<and> dir_inv ip' \<and> has_blocks (gb d) ip' \<and>
         dir_map ip' = (dir_map (d_data (X d)))(nm \<mapsto> n) \<and> (\<forall>a b. dots (d_data (X d)) a b \<longrightarrow> dots ip' a b))"
proof -
  define first where "first = (if kind = IDirectory
      then fbind (dir_link gb pad i ''.'' (s_inum (itable s ! i)) s) (\<lambda>er s. if er \<noteq> None then Done (Some FailedCreateDot) s
        else fbind (dir_link gb pad i ''..'' (s_inum (itable s ! j)) s) (\<lambda>er s. Done (map_option (\<lambda>_. FailedCreateDotDot) er) s))
      else Done None s)"
  obtain er1 s1 dt where f: "first = Done er1 s1" "holding s1 R L (X(n := (X n)\<lparr>d_data := dt\<rparr>))" "keeps s s1 R" "er1 = None \<longrightarrow> new_data gb kind n d dt"
  proof (cases "kind = IDirectory")
    case True
    then show thesis using that dot_links_spec [OF h i _ x(2) room n d p(1,3), of gb pad] x(1) unfolding first_def by auto
  next
    case False
    have "X(n := (X n)\<lparr>d_data := empty_data\<rparr>) = X" using x(2) by (simp add: fun_eq_iff)
    then show thesis using that [of None s empty_data] h False by (simp add: first_def new_data_def empty_data)
  qed
  let ?X = "X(n := (X n)\<lparr>d_data := dt\<rparr>)"
  have cl: "create_links gb pad kind j nm i s = fbind first (\<lambda>er s.
       if er \<noteq> None then Done er s
       else fbind (dir_link gb pad j nm (s_inum (itable s ! i)) s) (\<lambda>er s.
         if er \<noteq> None then Done (Some FailedLinkParentDir) s
         else if kind = IDirectory then fbind (add_link j s) (\<lambda>_ s. Done None s) else Done None s))"
    by (simp add: create_links_def first_def)
  show ?thesis
  proof (cases er1)
    case (Some e)
    then show ?thesis using f by (intro exI [of _ "Some e"] exI [of _ s1] exI [of _ ?X]) (auto simp: cl)
  next
    case None
    have nw: "new_data gb kind n d dt" using f(4) None by simp
    have s1: "slot_of s1 i n" "slot_of s1 j d" using keeps_slot [OF f(3)] i p by simp_all
    have inum: "s_inum (itable s1 ! i) = n" using s1(1) by (rule slot_inum)
    have dx: "?X d = X d" using nd by simp
    have t: "d_type (?X d) = IDirectory" "dir_inv (d_data (?X d))" "has_blocks (gb d) (d_data (?X d))" "dir_map (d_data (?X d)) nm = None" using dd dx by simp_all
    from h_dir_link [where D = ?X and gb = gb and pad = pad and nm = nm and k = n, OF f(2) s1(2) p(2,3) t(1-3) room n] t(4)
    consider er s2 where "dir_link gb pad j nm n s1 = Done (Some er) s2" "holding s2 R L ?X" "keeps s1 s2 R"
      | ip' s2 where "dir_link gb pad j nm n s1 = Done None s2" "holding s2 R L (?X(d := (?X d)\<lparr>d_data := ip'\<rparr>))" "keeps s1 s2 R"
        "linkEntry (gb d) pad (d_data (X d)) nm n = Some (None, ip')" "dir_inv ip'" "has_blocks (gb d) ip'"
        "dir_map ip' = (dir_map (d_data (X d)))(nm \<mapsto> n)"
      unfolding dx by auto
    then show ?thesis
    proof cases
      case a: 1
      then show ?thesis using f None inum keeps_trans [OF f(3) a(3)]
        by (intro exI [of _ "Some FailedLinkParentDir"] exI [of _ s2] exI [of _ ?X]) (auto simp: cl)
    next
      case b: 2
      let ?Y = "?X(d := (?X d)\<lparr>d_data := ip'\<rparr>)"
      have j2: "slot_of s2 j d" by (rule keeps_slot [OF b(3) s1(2) p(3)])
      have dots: "\<forall>a b. dots (d_data (X d)) a b \<longrightarrow> dots ip' a b"
        using linkEntry_dots [OF dd(2,3) n b(4)] by blast
      have res: "X' = created kind d ip' n dt X \<Longrightarrow> \<exists>ip' dt. X' = created kind d ip' n dt X \<and> new_data gb kind n d dt \<and> dir_inv ip' \<and> has_blocks (gb d) ip' \<and>
         dir_map ip' = (dir_map (d_data (X d)))(nm \<mapsto> n) \<and> (\<forall>a b. dots (d_data (X d)) a b \<longrightarrow> dots ip' a b)" for X'
        using nw b(5-7) dots by blast
      show ?thesis
      proof (cases "kind = IDirectory")
        case True
        have "d_link (?Y d) < max_link_count" using dd(5) nd by simp
        then obtain s3 where s3: "add_link j s2 = Done () s3" "holding s3 R L (?Y(d := (?Y d)\<lparr>d_link := d_link (?Y d) + 1\<rparr>))" "keeps s2 s3 R"
          using h_add_link [OF b(2) j2 p(2)] by blast
        have c: "?Y(d := (?Y d)\<lparr>d_link := d_link (?Y d) + 1\<rparr>) = created kind d ip' n dt X" using True nd by (simp add: created_def)
        have "create_links gb pad kind j nm i s = Done None s3" unfolding cl using f(1) None inum b(1) s3(1) True by simp
        moreover have "keeps s s3 R" by (rule keeps_trans [OF f(3) keeps_trans [OF b(3) s3(3)]])
        ultimately show ?thesis using s3(2) res [OF c] unfolding c
          by (intro exI [of _ None] exI [of _ s3] exI [of _ "created kind d ip' n dt X"]) simp
      next
        case False
        have c: "?Y = created kind d ip' n dt X" using False nd by (simp add: created_def)
        have "create_links gb pad kind j nm i s = Done None s2" unfolding cl using f(1) None inum b(1) False by simp
        moreover have "keeps s s2 R" by (rule keeps_trans [OF f(3) b(3)])
        ultimately show ?thesis using b(2) res [OF c] unfolding c
          by (intro exI [of _ None] exI [of _ s2] exI [of _ "created kind d ip' n dt X"]) simp
      qed
    qed
  qed
qed


definition new_inode :: "inode_type \<Rightarrow> nat \<times> nat \<Rightarrow> disk_inode" where
  "new_inode kind device = (fresh_inode kind)\<lparr>d_device := device, d_link := 1\<rparr>"

lemma new_inode_simps [simp]: "d_type (new_inode kind dev) = kind" "d_link (new_inode kind dev) = 1" "d_data (new_inode kind dev) = empty_data"
  by (simp_all add: new_inode_def fresh_inode_def)

lemma created_ok:
  assumes ok: "disk_ok gb nn D" and ld: "livedir (tree_of D) d" and new: "dir_map (d_data (D d)) nm = None"
    and n: "d_type (D n) = IFree" "0 < n" "n < nn" and kind: "kind \<noteq> IFree"
    and dt: "new_data gb kind n d dt" and ip': "dir_inv ip'" "has_blocks (gb d) ip'" "dir_map ip' = (dir_map (d_data (D d)))(nm \<mapsto> n)"
      "\<forall>a b. dots (d_data (D d)) a b \<longrightarrow> dots ip' a b"
  shows "tree_of (created kind d ip' n dt (D(n := new_inode kind dev))) = tree_create kind d nm n (tree_of D)"
    "disk_ok gb nn (created kind d ip' n dt (D(n := new_inode kind dev)))"
proof -
  let ?D = "created kind d ip' n dt (D(n := new_inode kind dev))"
  note inv = disk_okD(1) [OF ok]
  have dn: "d \<noteq> n" using ld n(1) by (auto simp: livedir_def)
  show tr: "tree_of ?D = tree_create kind d nm n (tree_of D)"
    using dn ip'(3) dt by (auto simp: created_def tree_of_def tree_create_def fun_eq_iff new_data_def)
  have inv': "tree_inv (tree_of ?D)" unfolding tr by (rule tree_create_inv [OF inv ld _ _ kind]) (use new n(1) in simp_all)
  show "disk_ok gb nn ?D"
  proof (rule disk_okI [OF ok inv'])
    show "d_type (D m) \<noteq> IFree \<or> 0 < m \<and> m < nn" if "d_type (?D m) \<noteq> IFree" for m
      using that n dn by (auto simp: created_def split: if_splits)
    fix x assume x: "livedir (tree_of ?D) x"
    consider "x = n" | "x = d" | "x \<noteq> n" "x \<noteq> d" by blast
    then show "livedir (tree_of D) x \<and> d_data (?D x) = d_data (D x) \<or>
        dir_inv (d_data (?D x)) \<and> has_blocks (gb x) (d_data (?D x)) \<and> (\<exists>p. dots (d_data (?D x)) x p)"
    proof cases
      case 1
      then have "kind = IDirectory" using x dn by (simp add: livedir_def created_def)
      then show ?thesis using 1 dt dn by (auto simp: created_def new_data_def)
    next
      case 2
      then show ?thesis using dn ip' disk_okD(4) [OF ok ld] by (auto simp: created_def)
    next
      case 3
      then show ?thesis using x by (simp add: created_def livedir_def)
    qed
  qed
qed

lemma free_changed_ok:
  assumes ok: "disk_ok gb nn D" and n: "d_type (D n) = IFree" "d_type x = IFree"
  shows "disk_ok gb nn (D(n := x))"
proof (rule disk_okI [OF ok])
  show "tree_inv (tree_of (D(n := x)))"
    by (rule tree_inv_live [OF disk_okD(1) [OF ok]]) (use n in \<open>auto simp: live_def livedir_def\<close>)
  show "d_type (D m) \<noteq> IFree \<or> 0 < m \<and> m < nn" if "d_type ((D(n := x)) m) \<noteq> IFree" for m using that n by (auto split: if_splits)
  show "livedir (tree_of D) m \<and> d_data ((D(n := x)) m) = d_data (D m) \<or>
      dir_inv (d_data ((D(n := x)) m)) \<and> has_blocks (gb m) (d_data ((D(n := x)) m)) \<and> (\<exists>p. dots (d_data ((D(n := x)) m)) m p)"
    if "livedir (tree_of (D(n := x))) m" for m using that n by (auto simp: livedir_def split: if_splits)
qed

text \<open>Nothing but free inodes differs.\<close>

definition same_used :: "(nat \<Rightarrow> disk_inode) \<Rightarrow> (nat \<Rightarrow> disk_inode) \<Rightarrow> bool" where
  "same_used D D' \<longleftrightarrow> (\<forall>n. d_type (D' n) = d_type (D n) \<and> (d_type (D n) \<noteq> IFree \<longrightarrow> D' n = D n))"

text \<open>The outcomes of \<open>create\<close>: an error; the inode that the name already leads to; a new inode.\<close>

definition create_outcome :: "(nat \<Rightarrow> nat \<Rightarrow> bool) \<Rightarrow> inode_type \<Rightarrow> nat option \<Rightarrow> string \<Rightarrow> (nat \<Rightarrow> nat) \<Rightarrow> (nat \<Rightarrow> disk_inode) \<Rightarrow> fs \<Rightarrow> (call_error + nat) fres \<Rightarrow> bool" where
  "create_outcome gb kind t nm R D s res \<longleftrightarrow>
     (\<exists>e s' D'. res = Done (Inl e) s' \<and> holding s' R {} D' \<and> keeps s s' R \<and> disk_ok gb (ninodes s) D' \<and> same_used D D') \<or>
     (\<exists>i k d s' D'. res = Done (Inr i) s' \<and> t = Some d \<and> slot_of s' i k \<and> holding s' (inc k R) {k} D' \<and> keeps s s' R \<and> disk_ok gb (ninodes s) D' \<and>
        (dir_map (d_data (D d)) nm = Some k \<and> kind = IFile \<and> d_type (D k) \<in> {IFile, IDevice} \<and> D' = D \<or>
         dir_map (d_data (D d)) nm = None \<and> d_type (D k) = IFree \<and> (\<forall>n. n \<noteq> k \<longrightarrow> d_type (D' n) = d_type (D n)) \<and>
         tree_of D' = tree_create kind d nm k (tree_of D)))"


lemma create_outcome_error:
  "res = Done (Inl e) s' \<Longrightarrow> holding s' R {} D \<Longrightarrow> keeps s s' R \<Longrightarrow> disk_ok gb (ninodes s) D \<Longrightarrow> create_outcome gb kind t nm R D s res"
  unfolding create_outcome_def same_used_def by blast

lemma create_spec:
  assumes h: "holding s R {} D" and c: "slot_of s c w" "0 < R w" "starts_live (tree_of D) w path" and ok: "disk_ok gb (ninodes s) D" and rf: "refs_ok R D" and room: "room R 3"
    and mx: "\<And>n. d_link (D n) < max_link_count" and kind: "kind \<noteq> IFree"
  shows "if \<exists>d. path_target True (tree_of D) w path = Some d \<and> dir_map (d_data (D d)) (last (components path)) = Some d
    then create gb pad c path kind dev s = Deadlock
    else create_outcome gb kind (path_target True (tree_of D) w path) (last (components path)) R D s (create gb pad c path kind dev s)"
proof -
  let ?nm = "last (components path)"
  note wk = disk_ok_walkable [OF ok] and inv = disk_okD(1) [OF ok]
  note P = resolvePathParent_spec [OF h c(1,3) wk room_less [OF room]]
  show ?thesis
  proof (cases "path_target True (tree_of D) w path")
    case None
    then obtain s1 where s1: "resolvePathParent gb c path s = Done None s1" "holding s1 R {} D" "keeps s s1 R" using P by auto
    then have "create gb pad c path kind dev s = Done (Inl FailedGetParentDir) s1" by (simp add: create_def)
    then show ?thesis using create_outcome_error [OF _ s1(2,3) ok] None by simp
  next
    case (Some d)
    then have ld: "livedir (tree_of D) d" using path_target_live [OF wk c(3) Some] by simp
    then have ty: "d_type (D d) = IDirectory" "0 < d_link (D d)" by (simp_all add: livedir_def)
    have dn: "0 < d" "d < 2 ^ 32" using disk_okD(2) [OF ok, of d] ty(1) by simp_all
    obtain j s1 where s1: "resolvePathParent gb c path s = Done (Some (j, ?nm)) s1" "slot_of s1 j d" "holding s1 (inc d R) {} D" "keeps s s1 R"
      using P Some by auto
    obtain s2 where s2: "lock j s1 = Done () s2" "slot_of s2 j d" "holding s2 (inc d R) {d} D" "keeps s1 s2 (inc d R)"
      using h_lock [OF s1(3,2)] ty(1) by auto
    have k02: "keeps s s2 R" using keeps_trans [OF s1(4) keeps_weaken [OF s2(4)]] by simp
    have dl: "dir_inv (d_data (D d))" "has_blocks (gb d) (d_data (D d))" using disk_okD(3) [OF ok ld] by simp_all
    have r2: "room (inc d R) 2" using room room_inc [of R 2 d] by (simp add: eval_nat_numeral)
    note L = h_dir_lookup [where D = D and gb = gb and nm = ?nm, OF s2(3,2) _ ty(1) dl room_less [OF r2]]
    show ?thesis
    proof (cases "dir_map (d_data (D d)) ?nm")
      case k: (Some k)
      have lk: "live (tree_of D) k" using tree_invD(7) [OF inv ld] k by simp
      then have tk: "d_type (D k) \<noteq> IFree" "0 < d_link (D k)" by (simp_all add: live_def)
      obtain i off s3 where s3: "dir_lookup gb j ?nm s2 = Done (Some (i, off)) s3" "slot_of s3 i k" "holding s3 (inc k (inc d R)) {d} D" "keeps s2 s3 (inc d R)"
        using L k by auto
      show ?thesis
      proof (cases "k = d")
        case True
        have "lock i s3 = Deadlock" using lock_deadlock [of s3 i k] s3(2,3) True by (simp add: holding_def)
        then have "create gb pad c path kind dev s = Deadlock" using s1 s2 s3 by (simp add: create_def)
        then show ?thesis using Some k True by simp
      next
        case kd: False
        have d3: "slot_of s3 j d" using keeps_slot [OF s3(4) s2(2)] by simp
        obtain s4 where s4: "lock i s3 = Done () s4" "slot_of s4 i k" "holding s4 (inc k (inc d R)) {k, d} D" "keeps s3 s4 (inc k (inc d R))"
          using h_lock [OF s3(3,2)] kd tk(1) by auto
        have d4: "slot_of s4 j d" using keeps_slot [OF s4(4) d3] by simp
        have k04: "keeps s s4 R" using keeps_trans [OF k02 keeps_trans [OF keeps_weaken [OF s3(4)] keeps_weaken [OF s4(4)]]] by simp
        have cp: "s_copy (itable s4 ! i) = D k" using h_copy [OF s4(3,2)] by simp
        have sub: "{k, d} - {k} = {d}" "{k, d} - {d} = {k}" using kd by auto
        have "create_outcome gb kind (Some d) ?nm R D s (create gb pad c path kind dev s)"
        proof (cases "kind = IFile \<and> (d_type (D k) = IFile \<or> d_type (D k) = IDevice)")
          case True
          obtain s5 where s5: "releasePut j s4 = Done () s5" "holding s5 (inc k R) {k} D" "keeps s4 s5 (inc k R)"
            using h_releasePut [of s4 d "inc k R" "{k, d}" D j] s4(3) d4 sub ty(2) by (auto simp: inc_comm last_put_eq)
          have "create gb pad c path kind dev s = Done (Inr i) s5" using s1 s2 s3 s4 cp True s5 by (simp add: create_def Let_def)
          moreover have "slot_of s5 i k" using keeps_slot [OF s5(3) s4(2)] by simp
          moreover have "keeps s s5 R" using keeps_trans [OF k04 keeps_weaken [OF s5(3)]] by simp
          ultimately show ?thesis using s5(2) ok k True unfolding create_outcome_def by blast
        next
          case False
          obtain s5 where s5: "releasePut i s4 = Done () s5" "holding s5 (inc d R) {d} D" "keeps s4 s5 (inc d R)"
            using h_releasePut [OF s4(3,2)] tk(2) sub by (auto simp: last_put_eq)
          have d5: "slot_of s5 j d" using keeps_slot [OF s5(3) d4] by simp
          obtain s6 where s6: "releasePut j s5 = Done () s6" "holding s6 R {} D" "keeps s5 s6 R" using h_finish [OF s5(2) d5 ty(2)] by blast
          have k06: "keeps s s6 R" using keeps_trans [OF k04 keeps_trans [OF keeps_weaken [OF s5(3)] s6(3)]] by simp
          have "create gb pad c path kind dev s = Done (Inl PathExistsWithWrongType) s6"
            using s1 s2 s3 s4 cp False s5 s6 by (auto simp: create_def Let_def)
          then show ?thesis using create_outcome_error [OF _ s6(2) k06 ok] by simp
        qed
        then show ?thesis using Some k kd by simp
      qed
    next
      case none: None
      then have lk: "dir_lookup gb j ?nm s2 = Done None s2" using L by simp
      have "create_outcome gb kind (Some d) ?nm R D s (create gb pad c path kind dev s)"
      proof -
        have rf1: "refs_ok (inc d R) D" using rf ty(1) by (auto simp: refs_ok_def inc_def)
        have nn: "ninodes s2 = ninodes s" using k02 by (simp add: keeps_def)
        have "ninodes s \<le> 2 ^ 32" using ok by (simp add: disk_ok_def)
        then consider "alloc kind s2 = Done None s2"
          | i n s3 where "alloc kind s2 = Done (Some i) s3" "0 < n" "n < ninodes s" "n < 2 ^ 32" "d_type (D n) = IFree" "inc d R n = 0" "slot_of s3 i n"
            "holding s3 (inc n (inc d R)) {d} (D(n := fresh_inode kind))" "keeps s2 s3 (inc d R)"
          using h_alloc [OF s2(3) room_less [OF r2] rf1, of kind] nn by fastforce
        then show ?thesis
        proof cases
          case 1
          obtain s3 where s3: "releasePut j s2 = Done () s3" "holding s3 R {} D" "keeps s2 s3 R" using h_finish [OF s2(3,2) ty(2)] by blast
          have "create gb pad c path kind dev s = Done (Inl FailedAllocateInode) s3" using s1 s2 lk 1 s3 by (simp add: create_def)
          then show ?thesis using create_outcome_error [OF _ s3(2) keeps_trans [OF k02 s3(3)] ok] by simp
        next
          case 2
          have nd: "d \<noteq> n" using 2(6) by auto
          then have Rn: "R n = 0" using 2(6) by simp
          have d3: "slot_of s3 j d" using keeps_slot [OF 2(9) s2(2)] by simp
          let ?R = "inc n (inc d R)"
          obtain s4 where s4: "lock i s3 = Done () s4" "slot_of s4 i n" "holding s4 ?R {n, d} (D(n := fresh_inode kind))" "keeps s3 s4 ?R"
            using h_lock [OF 2(8,7)] nd kind by (auto simp: fresh_inode_def)
          have d4: "slot_of s4 j d" using keeps_slot [OF s4(4) d3] by simp
          let ?X = "D(n := new_inode kind dev)"
          define s5 where "s5 = change i (\<lambda>di. di\<lparr>d_device := dev, d_link := 1\<rparr>) s4"
          have s5: "slot_of s5 i n" "holding s5 ?R {n, d} ?X" "keeps s4 s5 ?R"
            using h_change [OF s4(3,2), of "\<lambda>di. di\<lparr>d_device := dev, d_link := 1\<rparr>"] by (simp_all add: s5_def new_inode_def)
          have d5: "slot_of s5 j d" using keeps_slot [OF s5(3) d4] by simp
          have k05: "keeps s s5 R"
            using keeps_trans [OF k02 keeps_trans [OF keeps_weaken [OF 2(9)] keeps_weaken [OF keeps_trans [OF s4(4) s5(3)]]]] by simp
          have r1: "room ?R 1" using r2 room_inc [of "inc d R" 1 n] by (simp add: numeral_2_eq_2)
          have xs: "d_type (?X n) = kind" "d_data (?X n) = empty_data" "?X d = D d" using nd by simp_all
          obtain er s6 X' where s6: "create_links gb pad kind j ?nm i s5 = Done er s6" "holding s6 ?R {n, d} X'" "keeps s5 s6 ?R"
            and out: "case er of Some _ \<Rightarrow> \<exists>dt. X' = ?X(n := (?X n)\<lparr>d_data := dt\<rparr>)
              | None \<Rightarrow> \<exists>ip' dt. X' = created kind d ip' n dt ?X \<and> new_data gb kind n d dt \<and> dir_inv ip' \<and> has_blocks (gb d) ip' \<and>
                 dir_map ip' = (dir_map (d_data (?X d)))(?nm \<mapsto> n) \<and> (\<forall>a b. dots (d_data (?X d)) a b \<longrightarrow> dots ip' a b)"
            using create_links_spec [where X = ?X and gb = gb and pad = pad and nm = ?nm and kind = kind,
                OF s5(2,1) _ _ d5 _ _ nd xs(1,2) _ _ _ _ _ r1 2(2,4) dn] xs(3) ty(1) dl none mx by auto
          have j6: "slot_of s6 j d" "slot_of s6 i n" using keeps_slot [OF s6(3)] d5 s5(1) by simp_all
          have k06: "keeps s s6 R" using keeps_trans [OF k05 keeps_weaken [OF s6(3)]] by simp
          have sub: "{n, d} - {n} = {d}" "{n, d} - {d} = {n}" using nd by auto
          show ?thesis
          proof (cases er)
            case None
            then obtain ip' dt where o: "X' = created kind d ip' n dt ?X" "new_data gb kind n d dt" "dir_inv ip'" "has_blocks (gb d) ip'"
              "dir_map ip' = (dir_map (d_data (D d)))(?nm \<mapsto> n)" "\<forall>a b. dots (d_data (D d)) a b \<longrightarrow> dots ip' a b"
              using out xs(3) by auto
            have lX: "0 < d_link (X' d)" using o(1) nd ty(2) by (simp add: created_def)
            obtain s7 where s7: "releasePut j s6 = Done () s7" "holding s7 (inc n R) {n} X'" "keeps s6 s7 (inc n R)"
              using h_releasePut [of s6 d "inc n R" "{n, d}" X' j] s6(2) j6(1) sub lX by (auto simp: inc_comm last_put_eq)
            have "create gb pad c path kind dev s = Done (Inr i) s7" using s1 s2 lk 2(1) s4 s6 None s7 by (simp add: create_def Let_def s5_def)
            moreover have "slot_of s7 i n" using keeps_slot [OF s7(3) j6(2)] by simp
            moreover have "keeps s s7 R" using keeps_trans [OF k06 keeps_weaken [OF s7(3)]] by simp
            moreover note C = created_ok [OF ok ld none 2(5,2,3) kind o(2-6), of dev]
            moreover have "\<forall>m. m \<noteq> n \<longrightarrow> d_type (X' m) = d_type (D m)" using o(1) by (simp add: created_def)
            ultimately show ?thesis using s7(2) none 2(5) o(1) unfolding create_outcome_def by blast
          next
            case (Some e)
            then obtain dt where X': "X' = ?X(n := (?X n)\<lparr>d_data := dt\<rparr>)" using out by auto
            define s7 where "s7 = change i (\<lambda>di. di\<lparr>d_link := 0\<rparr>) s6"
            let ?Y = "X'(n := (X' n)\<lparr>d_link := 0\<rparr>)"
            have s7: "slot_of s7 i n" "holding s7 ?R {n, d} ?Y" "keeps s6 s7 ?R"
              using h_change [OF s6(2) j6(2), of "\<lambda>di. di\<lparr>d_link := 0\<rparr>"] by (simp_all add: s7_def)
            have d7: "slot_of s7 j d" using keeps_slot [OF s7(3) j6(1)] by simp
            have lp: "last_put n (inc d R) ?Y = D(n := freed (?Y n))" using X' Rn nd by (simp add: last_put_def)
            obtain s8 where s8: "releasePut i s7 = Done () s8" "holding s8 (inc d R) {d} (D(n := freed (?Y n)))" "keeps s7 s8 (inc d R)"
              using h_releasePut [OF s7(2,1)] sub lp by auto
            have d8: "slot_of s8 j d" using keeps_slot [OF s8(3) d7] by simp
            obtain s9 where s9: "releasePut j s8 = Done () s9" "holding s9 R {} (D(n := freed (?Y n)))" "keeps s8 s9 R"
              using h_finish [OF s8(2) d8] ty(2) nd by auto
            have "keeps s s9 R" using keeps_trans [OF k06 keeps_trans [OF keeps_weaken [OF s7(3)] keeps_trans [OF keeps_weaken [OF s8(3)] s9(3)]]] by simp
            moreover have "create gb pad c path kind dev s = Done (Inl e) s9"
              using s1 s2 lk 2(1) s4 s6 Some s8 s9 by (simp add: create_def Let_def s5_def s7_def)
            moreover have "disk_ok gb (ninodes s) (D(n := freed (?Y n)))" by (rule free_changed_ok [OF ok 2(5)]) (simp add: freed_def)
            moreover have "same_used D (D(n := freed (?Y n)))" using 2(5) by (simp add: same_used_def freed_def)
            ultimately show ?thesis using s9(2) unfolding create_outcome_def by blast
          qed
        qed
      qed
      then show ?thesis using Some none by simp
    qed
  qed
qed

end
