(* ===== verification/Kcalls.thy ===== *)
theory Kcalls
  imports Kfs
begin

text \<open>
  The calls of \<^verbatim>\<open>Kfs\<close> one after the other.  A call is safe: from a good state, with a live directory to start from and with room in the inode table, it returns, with all references and locks of the caller given back
  and the tree still a tree.  The exception is proved too: \<open>create\<close> waits for ever for a lock it holds when the last name leads to the directory itself.
\<close>

lemma same_used_refs: "same_used D D' \<Longrightarrow> refs_ok R D \<Longrightarrow> refs_ok R D'"
  by (simp add: same_used_def refs_ok_def)

definition self_named :: "(nat \<Rightarrow> disk_inode) \<Rightarrow> nat \<Rightarrow> string \<Rightarrow> bool" where
  "self_named D w path \<longleftrightarrow> (\<exists>d. path_target True (tree_of D) w path = Some d \<and> dir_map (d_data (D d)) (last (components path)) = Some d)"

lemma make_spec:
  assumes h: "holding s R {} D" and c: "slot_of s c w" "0 < R w" "starts_live (tree_of D) w path" and ok: "disk_ok gb (ninodes s) D" and rf: "refs_ok R D" and room: "room R 3"
    and mx: "\<And>n. d_link (D n) < max_link_count" and kind: "kind \<noteq> IFree"
  shows "if self_named D w path then make gb pad c path kind dev s = Deadlock
    else \<exists>b s' D'. make gb pad c path kind dev s = Done b s' \<and> holding s' R {} D' \<and> keeps s s' R \<and> disk_ok gb (ninodes s) D' \<and> refs_ok R D' \<and>
      (if b then \<exists>d k. path_target True (tree_of D) w path = Some d \<and>
           (dir_map (d_data (D d)) (last (components path)) = Some k \<and> kind = IFile \<and> D' = D \<or>
            dir_map (d_data (D d)) (last (components path)) = None \<and> d_type (D k) = IFree \<and> tree_of D' = tree_create kind d (last (components path)) k (tree_of D))
       else same_used D D')"
proof (cases "self_named D w path")
  case True
  then have "create gb pad c path kind dev s = Deadlock"
    using create_spec [OF h c ok rf room mx kind, of pad dev] by (auto simp: self_named_def)
  then show ?thesis using True by (simp add: make_def)
next
  case False
  let ?nm = "last (components path)"
  have "create_outcome gb kind (path_target True (tree_of D) w path) ?nm R D s (create gb pad c path kind dev s)"
    using create_spec [OF h c ok rf room mx kind, of pad dev] False unfolding self_named_def by simp
  then consider e s' D' where "create gb pad c path kind dev s = Done (Inl e) s'" "holding s' R {} D'" "keeps s s' R" "disk_ok gb (ninodes s) D'" "same_used D D'"
    | i k d s' D' where "create gb pad c path kind dev s = Done (Inr i) s'" "path_target True (tree_of D) w path = Some d" "slot_of s' i k"
      "holding s' (inc k R) {k} D'" "keeps s s' R" "disk_ok gb (ninodes s) D'"
      "dir_map (d_data (D d)) ?nm = Some k \<and> kind = IFile \<and> d_type (D k) \<in> {IFile, IDevice} \<and> D' = D \<or>
       dir_map (d_data (D d)) ?nm = None \<and> d_type (D k) = IFree \<and> (\<forall>n. n \<noteq> k \<longrightarrow> d_type (D' n) = d_type (D n)) \<and> tree_of D' = tree_create kind d ?nm k (tree_of D)"
    unfolding create_outcome_def by blast
  then show ?thesis
  proof cases
    case 1
    then show ?thesis using False same_used_refs [OF 1(5) rf] by (intro if_not_P [THEN iffD2] exI [of _ False] exI [of _ s'] exI [of _ D']) (auto simp: make_def)
  next
    case 2
    have ld: "livedir (tree_of D) d" using path_target_live [OF disk_ok_walkable [OF ok] c(3) 2(2)] by simp
    have lk: "0 < d_link (D' k) \<and> d_type (D' k) \<noteq> IFree"
      using 2(7)
    proof
      assume a: "dir_map (d_data (D d)) ?nm = Some k \<and> kind = IFile \<and> d_type (D k) \<in> {IFile, IDevice} \<and> D' = D"
      then have "live (tree_of D) k" using tree_invD(7) [OF disk_okD(1) [OF ok] ld, of ?nm k] by simp
      then show ?thesis using a by (simp add: live_def)
    next
      assume a: "dir_map (d_data (D d)) ?nm = None \<and> d_type (D k) = IFree \<and> (\<forall>n. n \<noteq> k \<longrightarrow> d_type (D' n) = d_type (D n)) \<and> tree_of D' = tree_create kind d ?nm k (tree_of D)"
      then have "d \<noteq> k" using ld by (auto simp: livedir_def)
      moreover have "t_link (tree_of D') k = t_link (tree_create kind d ?nm k (tree_of D)) k" "t_type (tree_of D') k = t_type (tree_create kind d ?nm k (tree_of D)) k"
        using a by simp_all
      ultimately show ?thesis using kind by (simp add: tree_create_def)
    qed
    then obtain s2 where s2: "releasePut i s' = Done () s2" "holding s2 R {} D'" "keeps s' s2 R"
      using h_finish [OF 2(4,3)] by blast
    have "refs_ok R D'" using rf 2(7) lk unfolding refs_ok_def by metis
    moreover have "make gb pad c path kind dev s = Done True s2" using 2(1) s2(1) by (simp add: make_def)
    ultimately show ?thesis using False s2(2) keeps_trans [OF 2(5) s2(3)] 2(2,6,7)
      by (simp only: if_False) (intro exI [of _ True] exI [of _ s2] exI [of _ D'], auto)
  qed
qed

lemma chdir_spec:
  assumes h: "holding s (inc w R) {} D" and c: "slot_of s c w" "starts_live (tree_of D) w path"
    and ok: "walkable gb D" and room: "room R 3"
  shows "\<exists>r s'. chdir gb c path s = Done r s' \<and>
    (case r of
       Inl _ \<Rightarrow> holding s' (inc w R) {} D \<and> keeps s s' (inc w R) \<and> (\<forall>k. path_target False (tree_of D) w path = Some k \<longrightarrow> d_type (D k) \<noteq> IDirectory)
     | Inr i \<Rightarrow> \<exists>k D'. path_target False (tree_of D) w path = Some k \<and> livedir (tree_of D) k \<and> slot_of s' i k \<and> keeps s s' R \<and>
         (D' = D \<or> D' = last_put w R D) \<and> holding s' (inc k R) {} D')"
proof -
  have r2: "room (inc w R) 2" using room room_inc [of R 2 w] by (simp add: eval_nat_numeral)
  note P = resolvePath_spec [OF h c(1,2) ok r2]
  show ?thesis
  proof (cases "path_target False (tree_of D) w path")
    case None
    then obtain s1 where "resolvePath gb c path s = Done None s1" "holding s1 (inc w R) {} D" "keeps s s1 (inc w R)" using P by auto
    then show ?thesis using None by (intro exI [of _ "Inl InvalidDestPath"] exI [of _ s1]) (simp add: chdir_def)
  next
    case (Some k)
    then have lk: "live (tree_of D) k" using path_target_live [OF ok c(2) Some] by simp
    then have ty: "d_type (D k) \<noteq> IFree" "0 < d_link (D k)" by (simp_all add: live_def)
    let ?R = "inc k (inc w R)"
    obtain i s1 where s1: "resolvePath gb c path s = Done (Some i) s1" "slot_of s1 i k" "holding s1 ?R {} D" "keeps s s1 (inc w R)"
      using P Some by auto
    obtain s2 where s2: "lock i s1 = Done () s2" "slot_of s2 i k" "holding s2 ?R {k} D" "keeps s1 s2 ?R" using h_lock [OF s1(3,2)] ty(1) by auto
    obtain s3 where s3: "release i s2 = Done () s3" "slot_of s3 i k" "holding s3 ?R {} D" "keeps s2 s3 ?R" using h_release [OF s2(3,2)] by auto
    have cp: "s_copy (itable s2 ! i) = D k" using h_copy [OF s2(3,2)] by simp
    have k3: "keeps s s3 (inc w R)" using keeps_trans [OF s1(4) keeps_weaken [OF keeps_trans [OF s2(4) s3(4)]]] by simp
    show ?thesis
    proof (cases "d_type (D k) = IDirectory")
      case False
      obtain s4 where s4: "put i s3 = Done () s4" "holding s4 (inc w R) {} D" "keeps s3 s4 (inc w R)" using h_put [OF s3(3,2)] ty(2) by auto
      then show ?thesis using s1 s2 cp s3 Some False keeps_trans [OF k3 s4(3)]
        by (intro exI [of _ "Inl NotADirectory"] exI [of _ s4]) (simp add: chdir_def)
    next
      case True
      have cw: "slot_of s3 c w" using keeps_slot [OF k3 c(1)] by simp
      have h3: "holding s3 (inc w (inc k R)) {} D" using s3(3) by (simp add: inc_comm)
      have lp: "last_put w (inc k R) D = last_put w R D" using ty(2) by (cases "w = k") (auto simp: last_put_def)
      obtain s4 D' where s4: "put c s3 = Done () s4" "D' = D \<or> D' = last_put w R D" "holding s4 (inc k R) {} D'" "keeps s3 s4 (inc k R)"
        using h_put_any [OF h3 cw] lp by auto
      have "livedir (tree_of D) k" using lk True live_type by simp
      moreover have "slot_of s4 i k" using keeps_slot [OF s4(4) s3(2)] by simp
      moreover have "keeps s s4 R" using keeps_trans [OF keeps_weaken [OF k3] keeps_weaken [OF s4(4)]] by simp
      ultimately show ?thesis using s1 s2 cp s3 Some True s4
        by (intro exI [of _ "Inr i"] exI [of _ s4]) (simp add: chdir_def, blast)
    qed
  qed
qed


subsection \<open>One call\<close>

datatype fs_call = LinkCall string string | UnlinkCall string | MkdirCall string | MknodCall string nat nat | CreatCall string

text \<open>Whether the call succeeds; \<open>CreatCall\<close> is \<open>open\<close> with \<open>O_CREATE\<close>, followed by the close.\<close>

fun run_call :: "(nat \<Rightarrow> nat \<Rightarrow> bool) \<Rightarrow> (nat \<Rightarrow> byte) \<Rightarrow> nat \<Rightarrow> fs_call \<Rightarrow> fs \<Rightarrow> bool fres" where
  "run_call gb pad c (LinkCall old new) s = fbind (link gb pad c old new s) (\<lambda>er s. Done (er = None) s)"
| "run_call gb pad c (UnlinkCall path) s = fbind (unlink gb pad c path s) (\<lambda>er s. Done (er = None) s)"
| "run_call gb pad c (MkdirCall path) s = sys_mkdir gb pad c path s"
| "run_call gb pad c (MknodCall path major minor) s = sys_mknod gb pad c path major minor s"
| "run_call gb pad c (CreatCall path) s = make gb pad c path IFile (0, 0) s"

fun call_paths :: "fs_call \<Rightarrow> string list" where
  "call_paths (LinkCall old new) = [old, new]"
| "call_paths (UnlinkCall path) = [path]"
| "call_paths (MkdirCall path) = [path]"
| "call_paths (MknodCall path major minor) = [path]"
| "call_paths (CreatCall path) = [path]"

text \<open>The call does not make a name that leads to its own directory.\<close>

fun call_fair :: "(nat \<Rightarrow> disk_inode) \<Rightarrow> nat \<Rightarrow> fs_call \<Rightarrow> bool" where
  "call_fair D w (LinkCall old new) \<longleftrightarrow> True"
| "call_fair D w (UnlinkCall path) \<longleftrightarrow> True"
| "call_fair D w (MkdirCall path) \<longleftrightarrow> \<not> self_named D w path"
| "call_fair D w (MknodCall path major minor) \<longleftrightarrow> \<not> self_named D w path"
| "call_fair D w (CreatCall path) \<longleftrightarrow> \<not> self_named D w path"

text \<open>What a successful call does to the tree.\<close>

definition create_effect :: "inode_type \<Rightarrow> nat \<Rightarrow> string \<Rightarrow> tree \<Rightarrow> tree \<Rightarrow> bool" where
  "create_effect kind w path tr tr' \<longleftrightarrow> (\<exists>d k. path_target True tr w path = Some d \<and>
     (t_ents tr d (last (components path)) = Some k \<and> kind = IFile \<and> tr' = tr \<or>
      t_ents tr d (last (components path)) = None \<and> t_type tr k = IFree \<and> tr' = tree_create kind d (last (components path)) k tr))"

fun call_effect :: "nat \<Rightarrow> fs_call \<Rightarrow> tree \<Rightarrow> tree \<Rightarrow> bool" where
  "call_effect w (LinkCall old new) tr tr' \<longleftrightarrow> (\<exists>d k. path_target False tr w old = Some k \<and> t_type tr k \<noteq> IDirectory \<and> path_target True tr w new = Some d \<and>
     t_ents tr d (last (components new)) = None \<and> tr' = tree_add d (last (components new)) k tr)"
| "call_effect w (UnlinkCall path) tr tr' \<longleftrightarrow> (\<exists>d k. path_target True tr w path = Some d \<and> last (components path) \<notin> dot_names \<and>
     t_ents tr d (last (components path)) = Some k \<and> (t_type tr k = IDirectory \<longrightarrow> dom (t_ents tr k) \<subseteq> dot_names) \<and>
     tr' = tree_unlink d (last (components path)) k tr)"
| "call_effect w (MkdirCall path) tr tr' \<longleftrightarrow> create_effect IDirectory w path tr tr'"
| "call_effect w (MknodCall path major minor) tr tr' \<longleftrightarrow> create_effect IDevice w path tr tr'"
| "call_effect w (CreatCall path) tr tr' \<longleftrightarrow> create_effect IFile w path tr tr'"

text \<open>The trees agree on live inodes.\<close>

definition same_live :: "tree \<Rightarrow> tree \<Rightarrow> bool" where
  "same_live tr tr' \<longleftrightarrow> (\<forall>n. (live tr' n \<longleftrightarrow> live tr n) \<and>
     (live tr n \<longrightarrow> t_type tr' n = t_type tr n \<and> t_link tr' n = t_link tr n \<and> t_ents tr' n = t_ents tr n))"

lemma same_live_refl [simp]: "same_live tr tr"
  by (simp add: same_live_def)

lemma same_live_last_put: "same_live (tree_of D) (tree_of (last_put k R D))"
  unfolding same_live_def using last_put_live by simp

lemma same_live_used: "same_used D D' \<Longrightarrow> same_live (tree_of D) (tree_of D')"
  unfolding same_live_def same_used_def live_def tree_of_simps by metis

definition fs_good :: "(nat \<Rightarrow> nat \<Rightarrow> bool) \<Rightarrow> fs \<Rightarrow> (nat \<Rightarrow> nat) \<Rightarrow> bool" where
  "fs_good gb s R \<longleftrightarrow> holding s R {} (disk s) \<and> disk_ok gb (ninodes s) (disk s) \<and> refs_ok R (disk s)"

text \<open>Slots in the table and counts below their limit.\<close>

definition fs_ready :: "fs \<Rightarrow> (nat \<Rightarrow> nat) \<Rightarrow> bool" where
  "fs_ready s R \<longleftrightarrow> room R 3 \<and> (\<forall>n. d_link (disk s n) < max_link_count)"

definition call_result :: "(nat \<Rightarrow> nat \<Rightarrow> bool) \<Rightarrow> fs \<Rightarrow> (nat \<Rightarrow> nat) \<Rightarrow> nat \<Rightarrow> fs_call \<Rightarrow> bool fres \<Rightarrow> bool" where
  "call_result gb s R w call res \<longleftrightarrow> (\<exists>b s'. res = Done b s' \<and> fs_good gb s' R \<and> keeps s s' R \<and>
     (if b then \<exists>tr'. call_effect w call (tree_of (disk s)) tr' \<and> same_live tr' (tree_of (disk s')) else same_live (tree_of (disk s)) (tree_of (disk s'))))"

lemma call_resultI:
  assumes "res = Done b s'" and "holding s' R {} D'" and "keeps s s' R" and "disk_ok gb (ninodes s) D'" and "refs_ok R D'"
    and "if b then \<exists>tr'. call_effect w call (tree_of (disk s)) tr' \<and> same_live tr' (tree_of D') else same_live (tree_of (disk s)) (tree_of D')"
  shows "call_result gb s R w call res"
proof -
  have "disk s' = D'" "ninodes s' = ninodes s" using assms(2,3) by (simp_all add: holding_def keeps_def)
  then show ?thesis using assms unfolding call_result_def fs_good_def by metis
qed


lemma refs_ok_types: "(\<And>n. d_type (D' n) = d_type (D n)) \<Longrightarrow> refs_ok R D \<Longrightarrow> refs_ok R D'"
  by (simp add: refs_ok_def)

lemma make_result:
  assumes good: "fs_good gb s R" and c: "slot_of s c w" "0 < R w" "starts_live (tree_of (disk s)) w path" and ready: "fs_ready s R"
    and fair: "\<not> self_named (disk s) w path" and kind: "kind \<noteq> IFree"
    and eff: "\<And>tr'. create_effect kind w path (tree_of (disk s)) tr' \<Longrightarrow> call_effect w call (tree_of (disk s)) tr'"
  shows "call_result gb s R w call (make gb pad c path kind dev s)"
proof -
  have h: "holding s R {} (disk s)" "disk_ok gb (ninodes s) (disk s)" "refs_ok R (disk s)" using good by (simp_all add: fs_good_def)
  have r: "room R 3" "\<And>n. d_link (disk s n) < max_link_count" using ready by (simp_all add: fs_ready_def)
  obtain b s' D' where m: "make gb pad c path kind dev s = Done b s'" "holding s' R {} D'" "keeps s s' R" "disk_ok gb (ninodes s) D'" "refs_ok R D'"
    and e: "if b then \<exists>d k. path_target True (tree_of (disk s)) w path = Some d \<and>
           (dir_map (d_data (disk s d)) (last (components path)) = Some k \<and> kind = IFile \<and> D' = disk s \<or>
            dir_map (d_data (disk s d)) (last (components path)) = None \<and> d_type (disk s k) = IFree \<and> tree_of D' = tree_create kind d (last (components path)) k (tree_of (disk s)))
       else same_used (disk s) D'"
    using make_spec [OF h(1) c h(2,3) r kind, of pad dev] fair by auto
  have "if b then \<exists>tr'. call_effect w call (tree_of (disk s)) tr' \<and> same_live tr' (tree_of D') else same_live (tree_of (disk s)) (tree_of D')"
  proof (cases b)
    case True
    then have "create_effect kind w path (tree_of (disk s)) (tree_of D')" using e unfolding create_effect_def by auto
    then show ?thesis using True eff by (auto intro: exI [of _ "tree_of D'"])
  next
    case False
    then show ?thesis using e same_live_used by simp
  qed
  then show ?thesis by (rule call_resultI [OF m])
qed

lemma call_spec:
  assumes good: "fs_good gb s R" and c: "slot_of s c w" "0 < R w" and st: "\<forall>path \<in> set (call_paths call). starts_live (tree_of (disk s)) w path"
    and ready: "fs_ready s R" and fair: "call_fair (disk s) w call"
  shows "call_result gb s R w call (run_call gb pad c call s)"
proof -
  have h: "holding s R {} (disk s)" "disk_ok gb (ninodes s) (disk s)" "refs_ok R (disk s)" using good by (simp_all add: fs_good_def)
  have r: "room R 3" "\<And>n. d_link (disk s n) < max_link_count" using ready by (simp_all add: fs_ready_def)
  show ?thesis
  proof (cases call)
    case (LinkCall old new)
    obtain er s' D' where l: "link gb pad c old new s = Done er s'" "holding s' R {} D'" "keeps s s' R" "disk_ok gb (ninodes s) D'"
      and o: "case er of Some _ \<Rightarrow> D' = disk s \<and> (\<forall>k d. path_target False (tree_of (disk s)) w old = Some k \<and> d_type (disk s k) \<noteq> IDirectory \<and>
            path_target True (tree_of (disk s)) w new = Some d \<longrightarrow> no_entry gb (disk s) d (last (components new)))
        | None \<Rightarrow> \<exists>d k. path_target False (tree_of (disk s)) w old = Some k \<and> d_type (disk s k) \<noteq> IDirectory \<and> path_target True (tree_of (disk s)) w new = Some d \<and>
         dir_map (d_data (disk s d)) (last (components new)) = None \<and> tree_of D' = tree_add d (last (components new)) k (tree_of (disk s))"
      using link_spec [OF h(1) c _ _ h(2) r, of old new pad] st LinkCall by auto
    have e: "if er = None then call_effect w call (tree_of (disk s)) (tree_of D') else D' = disk s"
      using o LinkCall by (cases er) auto
    have "refs_ok R D'"
    proof (cases er)
      case None
      then obtain d k where "tree_of D' = tree_add d (last (components new)) k (tree_of (disk s))" using o by auto
      then have "t_type (tree_of D') = t_type (tree_of (disk s))" by (simp add: tree_add_def)
      then have "d_type (D' n) = d_type (disk s n)" for n by (simp add: tree_of_def fun_eq_iff)
      then show ?thesis using refs_ok_types h(3) by blast
    qed (use o h(3) in simp)
    then show ?thesis using e l by (intro call_resultI [OF _ l(2-4), where b = "er = None"]) (auto simp: LinkCall)
  next
    case (UnlinkCall path)
    let ?nm = "last (components path)"
    obtain er s' D' where l: "unlink gb pad c path s = Done er s'" "holding s' R {} D'" "keeps s s' R" "disk_ok gb (ninodes s) D'"
      and o: "case er of Some _ \<Rightarrow> D' = disk s \<and> (\<forall>d. path_target True (tree_of (disk s)) w path = Some d \<longrightarrow> unlink_refused (disk s) d ?nm)
        | None \<Rightarrow> \<exists>d k D''. path_target True (tree_of (disk s)) w path = Some d \<and> \<not> unlink_refused (disk s) d ?nm \<and> dir_map (d_data (disk s d)) ?nm = Some k \<and>
         tree_of D'' = tree_unlink d ?nm k (tree_of (disk s)) \<and>
         (\<forall>n. d_type (D'' n) = d_type (disk s n) \<and> (n \<noteq> d \<longrightarrow> d_data (D'' n) = d_data (disk s n))) \<and> D' = last_put k R D''"
      using unlink_spec [OF h(1) c _ h(2) room_less [OF r(1)], of path pad] st UnlinkCall by auto
    show ?thesis
    proof (cases er)
      case None
      then obtain d k D'' where u: "path_target True (tree_of (disk s)) w path = Some d" "\<not> unlink_refused (disk s) d ?nm" "dir_map (d_data (disk s d)) ?nm = Some k"
         "tree_of D'' = tree_unlink d ?nm k (tree_of (disk s))" "\<forall>n. d_type (D'' n) = d_type (disk s n)" "D' = last_put k R D''" using o by auto
      have "call_effect w call (tree_of (disk s)) (tree_of D'')"
        using u(1-4) UnlinkCall by (auto simp: unlink_refused_def)
      moreover have "same_live (tree_of D'') (tree_of D')" using u(6) same_live_last_put by simp
      moreover have "refs_ok R D'" using u(5,6) refs_ok_last_put refs_ok_types h(3) by metis
      ultimately show ?thesis using l None by (intro call_resultI [OF _ l(2-4), where b = True]) (auto simp: UnlinkCall)
    next
      case (Some e)
      then show ?thesis using l o h(3) by (intro call_resultI [OF _ l(2-4), where b = False]) (auto simp: UnlinkCall)
    qed
  next
    case (MkdirCall path)
    then show ?thesis using make_result [OF good c _ ready, of path IDirectory call pad "(0, 0)"] st fair by (simp add: sys_mkdir_def)
  next
    case (MknodCall path major minor)
    have no: "call_result gb s R w call (Done False s)" by (rule call_resultI [OF refl h(1) _ h(2,3)]) simp_all
    show ?thesis using no MknodCall make_result [OF good c _ ready, of path IDevice call pad "(major, minor)"] st fair by (simp add: sys_mknod_def)
  next
    case (CreatCall path)
    then show ?thesis using make_result [OF good c _ ready, of path IFile call pad "(0, 0)"] st fair by simp
  qed
qed

subsection \<open>Histories\<close>

text \<open>
  States that are reached by calls and changes of the current directory, in which every call meets the condition \<open>ok\<close>.  The condition used here, \<open>allowed\<close>, has three parts: the blocks that directories have
  are found (\<open>gb\<close> may be another one for every call); three slots of the inode table are free and no link count is at its limit; and every path is absolute or starts in a current directory that has not been removed.
\<close>

definition blocks_found :: "(nat \<Rightarrow> nat \<Rightarrow> bool) \<Rightarrow> (nat \<Rightarrow> disk_inode) \<Rightarrow> bool" where
  "blocks_found gb D \<longleftrightarrow> (\<forall>d. livedir (tree_of D) d \<longrightarrow> has_blocks (gb d) (d_data (D d)))"

definition allowed :: "(nat \<Rightarrow> nat \<Rightarrow> bool) \<Rightarrow> fs \<Rightarrow> nat \<Rightarrow> string list \<Rightarrow> bool" where
  "allowed gb s c paths \<longleftrightarrow> blocks_found gb (disk s) \<and> fs_ready s (irefs s) \<and> (\<forall>path \<in> set paths. starts_live (tree_of (disk s)) (s_inum (itable s ! c)) path)"

inductive history :: "((nat \<Rightarrow> nat \<Rightarrow> bool) \<Rightarrow> fs \<Rightarrow> nat \<Rightarrow> string list \<Rightarrow> bool) \<Rightarrow> fs \<Rightarrow> nat \<Rightarrow> fs \<Rightarrow> nat \<Rightarrow> bool" for ok s0 c0 where
  start: "history ok s0 c0 s0 c0"
| call: "history ok s0 c0 s c \<Longrightarrow> ok gb s c (call_paths call) \<Longrightarrow> run_call gb pad c call s = Done b s' \<Longrightarrow> history ok s0 c0 s' c"
| moved: "history ok s0 c0 s c \<Longrightarrow> ok gb s c [path] \<Longrightarrow> chdir gb c path s = Done (Inr i) s' \<Longrightarrow> history ok s0 c0 s' i"
| not_moved: "history ok s0 c0 s c \<Longrightarrow> ok gb s c [path] \<Longrightarrow> chdir gb c path s = Done (Inl er) s' \<Longrightarrow> history ok s0 c0 s' c"

text \<open>The process refers to its directory, \<open>R\<close> counts what others refer to.\<close>

definition process_state :: "fs \<Rightarrow> nat \<Rightarrow> (nat \<Rightarrow> nat) \<Rightarrow> bool" where
  "process_state s c R \<longleftrightarrow> (\<exists>w. slot_of s c w \<and> fs_good (\<lambda>_ _. True) s (inc w R))"

lemma disk_ok_blocks: "disk_ok gb nn D \<longleftrightarrow> disk_ok (\<lambda>_ _. True) nn D \<and> blocks_found gb D"
  unfolding disk_ok_def blocks_found_def has_blocks_def by blast

lemma fs_good_blocks: "fs_good (\<lambda>_ _. True) s R \<Longrightarrow> blocks_found gb (disk s) \<Longrightarrow> fs_good gb s R" "fs_good gb s R \<Longrightarrow> fs_good (\<lambda>_ _. True) s R"
  using disk_ok_blocks unfolding fs_good_def by blast+


lemma unfair_call:
  assumes good: "fs_good gb s R" and c: "slot_of s c w" "0 < R w" and st: "\<forall>path \<in> set (call_paths call). starts_live (tree_of (disk s)) w path"
    and ready: "fs_ready s R" and fair: "\<not> call_fair (disk s) w call"
  shows "run_call gb pad c call s = Deadlock \<or> run_call gb pad c call s = Done False s"
proof -
  have h: "holding s R {} (disk s)" "disk_ok gb (ninodes s) (disk s)" "refs_ok R (disk s)" using good by (simp_all add: fs_good_def)
  have r: "room R 3" "\<And>n. d_link (disk s n) < max_link_count" using ready by (simp_all add: fs_ready_def)
  have "make gb pad c path kind dev s = Deadlock" if "path \<in> set (call_paths call)" "self_named (disk s) w path" "kind \<noteq> IFree" for path kind dev
    using make_spec [OF h(1) c _ h(2,3) r that(3), of path pad dev] st that by auto
  then show ?thesis using fair by (cases call) (auto simp: sys_mkdir_def sys_mknod_def)
qed

lemma room_dec: "room (inc w R) k \<Longrightarrow> room R k"
proof -
  assume r: "room (inc w R) k"
  have sub: "{n. 0 < R n} \<subseteq> {n. 0 < inc w R n}" by (auto simp: inc_def)
  then have "finite {n. 0 < R n}" using r finite_subset by (auto simp: room_def)
  moreover have "card {n. 0 < R n} \<le> card {n. 0 < inc w R n}" using r sub by (intro card_mono) (simp_all add: room_def)
  ultimately show ?thesis using r by (simp add: room_def)
qed

lemma process_stateD:
  assumes "process_state s c R" and "allowed gb s c paths"
  obtains w where "slot_of s c w" "fs_good gb s (inc w R)" "fs_ready s (inc w R)" "\<forall>path \<in> set paths. starts_live (tree_of (disk s)) w path"
proof -
  obtain w where w: "slot_of s c w" "fs_good (\<lambda>_ _. True) s (inc w R)" using assms(1) by (auto simp: process_state_def)
  have "irefs s = inc w R" using w(2) by (simp add: fs_good_def holding_def)
  moreover have "s_inum (itable s ! c) = w" using w(1) by (rule slot_inum)
  ultimately show thesis using that [OF w(1)] fs_good_blocks(1) [OF w(2)] assms(2) by (simp add: allowed_def)
qed

lemma call_keeps_state:
  assumes p: "process_state s c R" and a: "allowed gb s c (call_paths call)" and run: "run_call gb pad c call s = Done b s'"
  shows "process_state s' c R"
proof -
  obtain w where w: "slot_of s c w" "fs_good gb s (inc w R)" "fs_ready s (inc w R)" "\<forall>path \<in> set (call_paths call). starts_live (tree_of (disk s)) w path"
    using process_stateD [OF p a] by blast
  show ?thesis
  proof (cases "call_fair (disk s) w call")
    case True
    have "call_result gb s (inc w R) w call (run_call gb pad c call s)" by (rule call_spec [OF w(2,1) _ w(4,3) True]) simp
    then have g: "fs_good gb s' (inc w R)" "keeps s s' (inc w R)" using run by (auto simp: call_result_def)
    have "slot_of s' c w" using keeps_slot [OF g(2) w(1)] by simp
    then show ?thesis using fs_good_blocks(2) [OF g(1)] by (auto simp: process_state_def)
  next
    case False
    then have "s' = s" using unfair_call [OF w(2,1) _ w(4,3) False, of pad] run by simp
    then show ?thesis using p by simp
  qed
qed

lemma chdir_keeps_state:
  assumes p: "process_state s c R" and a: "allowed gb s c [path]" and run: "chdir gb c path s = Done r s'"
  shows "process_state s' (case r of Inl _ \<Rightarrow> c | Inr i \<Rightarrow> i) R"
proof -
  obtain w where w: "slot_of s c w" "fs_good gb s (inc w R)" "fs_ready s (inc w R)" "starts_live (tree_of (disk s)) w path"
    using process_stateD [OF p a] by auto
  have h: "holding s (inc w R) {} (disk s)" "disk_ok gb (ninodes s) (disk s)" "refs_ok (inc w R) (disk s)" using w(2) by (simp_all add: fs_good_def)
  have rm: "room R 3" using w(3) room_dec by (auto simp: fs_ready_def)
  have rR: "refs_ok R (disk s)" using h(3) by (auto simp: refs_ok_def inc_def split: if_splits)
  have C: "case r of Inl _ \<Rightarrow> holding s' (inc w R) {} (disk s) \<and> keeps s s' (inc w R) \<and> (\<forall>k. path_target False (tree_of (disk s)) w path = Some k \<longrightarrow> d_type (disk s k) \<noteq> IDirectory)
     | Inr i \<Rightarrow> \<exists>k D'. path_target False (tree_of (disk s)) w path = Some k \<and> livedir (tree_of (disk s)) k \<and> slot_of s' i k \<and> keeps s s' R \<and>
         (D' = disk s \<or> D' = last_put w R (disk s)) \<and> holding s' (inc k R) {} D'"
    using chdir_spec [OF h(1) w(1,4) disk_ok_walkable [OF h(2)] rm] run by auto
  show ?thesis
  proof (cases r)
    case (Inl er)
    then have s': "holding s' (inc w R) {} (disk s)" "keeps s s' (inc w R)" using C by simp_all
    have "fs_good gb s' (inc w R)" using s' h by (simp add: fs_good_def holding_def keeps_def)
    moreover have "slot_of s' c w" using keeps_slot [OF s'(2) w(1)] by simp
    ultimately show ?thesis using Inl fs_good_blocks(2) by (auto simp: process_state_def)
  next
    case (Inr i)
    then obtain k D' where k: "livedir (tree_of (disk s)) k" "slot_of s' i k" "keeps s s' R" "D' = disk s \<or> D' = last_put w R (disk s)" "holding s' (inc k R) {} D'"
      using C by auto
    have "disk_ok gb (ninodes s) D'" using k(4) h(2) disk_ok_last_put by blast
    moreover have "refs_ok R D'" using k(4) rR refs_ok_last_put by blast
    then have "refs_ok (inc k R) D'" using k(1,4) by (auto simp: refs_ok_def inc_def last_put_def livedir_def freed_def split: if_splits)
    ultimately have "fs_good gb s' (inc k R)" using k(3,5) by (simp add: fs_good_def holding_def keeps_def)
    then show ?thesis using Inr k(2) fs_good_blocks(2) by (auto simp: process_state_def)
  qed
qed

lemma history_state: "history allowed s0 c0 s c \<Longrightarrow> process_state s0 c0 R \<Longrightarrow> process_state s c R"
proof (induction rule: history.induct)
  case (call s c gb call pad b s')
  then show ?case using call_keeps_state by blast
next
  case (moved s c gb path i s')
  then show ?case using chdir_keeps_state [of s c R gb path "Inr i" s'] by simp
next
  case (not_moved s c gb path er s')
  then show ?case using chdir_keeps_state [of s c R gb path "Inl er" s'] by simp
qed


subsection \<open>A removed directory's parent\<close>

lemma set_slot_other: "i \<noteq> j \<Longrightarrow> itable (set_slot j e s) ! i = itable s ! i"
  by (simp add: set_slot_def)

lemma change_other: "i \<noteq> j \<Longrightarrow> itable (change j f s) ! i = itable s ! i"
  by (simp add: change_def update_def Let_def set_slot_other)

lemma put_other: "put j s = Done () s' \<Longrightarrow> i \<noteq> j \<Longrightarrow> itable s' ! i = itable s ! i"
  by (auto simp: put_def drop_ref_def put_free_def inode_trunc_def Let_def set_slot_other change_other split: if_splits)

lemma releasePut_other: "releasePut j s = Done () s' \<Longrightarrow> i \<noteq> j \<Longrightarrow> itable s' ! i = itable s ! i"
  using put_other [of j _ s' i] by (auto simp: releasePut_def release_def Let_def set_slot_other split: if_splits)

lemma get_invalid:
  assumes "table_ok s" and "irefs s n = 0" and "get n s = Done i s'"
  shows "\<not> s_valid (itable s' ! i)" "i < NINODE"
proof -
  obtain r em where g: "get_scan n (itable s) 0 None = (r, em)" by (cases "get_scan n (itable s) 0 None")
  note G = get_scan_spec [OF g]
  have len: "length (itable s) = NINODE" using assms(1) by (simp add: table_ok_def)
  have none: "\<forall>i. \<not> slot_of s i n" using assms(2) by (simp add: irefs_0)
  have "r = None" using G none by (cases r) (auto simp: slot_of_def)
  then obtain k where "em = Some k" "k < NINODE" using g G assms(3) len by (cases em) (auto simp: get_def)
  then show "\<not> s_valid (itable s' ! i)" "i < NINODE" using g assms(3) len \<open>r = None\<close> by (auto simp: get_def set_slot_def)
qed

text \<open>The name \<open>..\<close> of a directory whose parent has been freed.\<close>

lemma stale_parent:
  assumes h: "holding s (inc b R) {} D" and c: "slot_of s c b" and b: "d_type (D b) = IDirectory" "dir_inv (d_data (D b))" "has_blocks (gb b) (d_data (D b))"
    "dir_map (d_data (D b)) ''..'' = Some a" and a: "d_type (D a) = IFree" "R a = 0" "a \<noteq> b" and room: "room R 3"
  shows "chdir gb c ''..'' s = Panic"
proof -
  have sk: "skipPathElement ''..'' = Some (''..'', [])" by (simp add: skipPathElement_def)
  have sk0: "skipPathElement [] = None" by (simp add: skipPathElement_def)
  let ?R = "inc b R"
  obtain s1 where s1: "duplicate c s = Done c s1" "slot_of s1 c b" "holding s1 (inc b ?R) {} D" using h_duplicate [OF h c] by blast
  obtain s2 where s2: "lock c s1 = Done () s2" "slot_of s2 c b" "holding s2 (inc b ?R) {b} D" using h_lock [OF s1(3,2)] b(1) by auto
  have cp: "s_copy (itable s2 ! c) = D b" using h_copy [OF s2(3,2)] by simp
  have "room (inc b (inc b R)) 1" using room room_inc [of R 2 b] room_inc [of "inc b R" 1 b] by (simp add: eval_nat_numeral)
  then obtain j off s3 where s3: "dir_lookup gb c ''..'' s2 = Done (Some (j, off)) s3" "lookupChild (gb b) (d_data (D b)) ''..'' = Some (Some (a, off))"
      "slot_of s3 j a" "holding s3 (inc a (inc b ?R)) {b} D" "keeps s2 s3 (inc b ?R)"
    using h_dir_lookup [where D = D and gb = gb and nm = "''..''", OF s2(3,2) _ b(1-3)] b(4) by auto
  have "get a s2 = Done j s3" using s3(1,2) cp h_copy [OF s2(3,2)] b(1) by (cases "get a s2") (auto simp: dir_lookup_def Let_def)
  moreover have "irefs s2 a = 0" using holdingD(2) [OF s2(3)] a(2,3) by simp
  ultimately have nv: "\<not> s_valid (itable s3 ! j)" using get_invalid(1) [OF holdingD(1) [OF s2(3)]] by blast
  have c3: "slot_of s3 c b" using keeps_slot [OF s3(5) s2(2)] by simp
  have jc: "j \<noteq> c" using c3 s3(3) a(3) by (auto simp: slot_of_def)
  have h3: "holding s3 (inc b (inc a ?R)) {b} D" using s3(4) by (simp add: inc_comm)
  obtain s4 where s4: "releasePut c s3 = Done () s4" "holding s4 (inc a ?R) {} D" "keeps s3 s4 (inc a ?R)"
    using h_releasePut [OF h3 c3] by (auto simp: last_put_eq)
  have j4: "slot_of s4 j a" using keeps_slot [OF s4(3) s3(3)] by simp
  have nv4: "\<not> s_valid (itable s4 ! j)" using nv releasePut_other [OF s4(1) jc] by simp
  have "lock j s4 = Panic"
    using lock_free_panics [OF holdingD(1) [OF s4(2)] j4] a(1) nv4 holdingD(3,4) [OF s4(2)] by simp
  moreover have "resolve_loop gb False ''..'' [] c s1 = Done (Some (j, ''..'')) s4"
    by (subst resolve_loop.simps) (simp add: sk s2 cp b(1) s3(1) s4(1) resolve_loop.simps [of gb False "[]"] sk0)
  ultimately show ?thesis using s1(1) by (simp add: chdir_def resolvePath_def resolvePathHelper_def)
qed

subsection \<open>A small file system\<close>

text \<open>A root with a directory \<open>a\<close> and a file \<open>f\<close>; \<open>a\<close> has a directory \<open>b\<close>.  The table has one slot in use, for the current directory.\<close>

definition a_dir :: "(string \<times> nat) list \<Rightarrow> nat \<Rightarrow> disk_inode" where
  "a_dir es l = \<lparr>d_type = IDirectory, d_link = l, d_device = (0, 0), d_data = dir_of es\<rparr>"

definition root_names :: "(string \<times> nat) list" where "root_names = [(''.'', 1), (''..'', 1), (''a'', 2), (''f'', 4)]"
definition a_names :: "(string \<times> nat) list" where "a_names = [(''.'', 2), (''..'', 1), (''b'', 3)]"
definition b_names :: "(string \<times> nat) list" where "b_names = [(''.'', 3), (''..'', 2)]"

definition small_disk :: "nat \<Rightarrow> disk_inode" where
  "small_disk = (\<lambda>_. fresh_inode IFree)
     (1 := a_dir root_names 2, 2 := a_dir a_names 2, 3 := a_dir b_names 1, 4 := (fresh_inode IFile)\<lparr>d_link := 1\<rparr>)"

definition small_fs :: "nat \<Rightarrow> fs" where
  "small_fs w = \<lparr>itable = \<lparr>s_inum = w, s_ref = 1, s_locked = False, s_valid = False, s_copy = fresh_inode IFree\<rparr> #
       replicate 49 \<lparr>s_inum = 0, s_ref = 0, s_locked = False, s_valid = False, s_copy = fresh_inode IFree\<rparr>,
     disk = small_disk, ninodes = 200\<rparr>"

lemma short_names: "short_entries root_names" "short_entries a_names" "short_entries b_names"
  by (simp_all add: short_entries_def root_names_def a_names_def b_names_def max_name_length_def entry_size_def)

lemma names_maps: "dir_map (dir_of root_names) = map_of root_names" "dir_map (dir_of a_names) = map_of a_names" "dir_map (dir_of b_names) = map_of b_names"
  using dir_of short_names by blast+

lemma small_types: "d_type (small_disk n) = (if n = 1 \<or> n = 2 \<or> n = 3 then IDirectory else if n = 4 then IFile else IFree)"
  "d_link (small_disk n) = (if n = 1 \<or> n = 2 then 2 else if n = 3 \<or> n = 4 then 1 else 0)"
  by (simp_all add: small_disk_def a_dir_def fresh_inode_def)

lemma small_ents: "dir_map (d_data (small_disk n)) = (if n = 1 then map_of root_names else if n = 2 then map_of a_names else if n = 3 then map_of b_names else Map.empty)"
  by (simp add: small_disk_def a_dir_def fresh_inode_def names_maps empty_data)

lemma small_livedir: "livedir (tree_of small_disk) n \<longleftrightarrow> n = 1 \<or> n = 2 \<or> n = 3"
  by (simp add: livedir_def small_types)

lemma small_live: "live (tree_of small_disk) n \<longleftrightarrow> n = 1 \<or> n = 2 \<or> n = 3 \<or> n = 4"
  by (simp add: live_def small_types)

definition small_entries :: "(nat \<times> string \<times> nat) set" where
  "small_entries = {(1, ''.'', 1), (1, ''..'', 1), (1, ''a'', 2), (1, ''f'', 4), (2, ''.'', 2), (2, ''..'', 1), (2, ''b'', 3), (3, ''.'', 3), (3, ''..'', 2)}"

lemma small_entry: "livedir (tree_of small_disk) d \<and> t_ents (tree_of small_disk) d nm = Some k \<longleftrightarrow> (d, nm, k) \<in> small_entries"
  by (auto simp: small_entries_def small_livedir small_ents root_names_def a_names_def b_names_def split: if_splits)

lemma filter_insert: "{x \<in> insert a A. P x} = (if P a then insert a {x \<in> A. P x} else {x \<in> A. P x})"
  by auto

lemma small_named_iff: "(d, nm) \<in> named (tree_of small_disk) n \<longleftrightarrow>
    (d, nm, n) \<in> {(1, ''..'', 1), (1, ''a'', 2), (1, ''f'', 4), (2, ''..'', 1), (2, ''b'', 3), (3, ''..'', 2)}"
proof -
  have s: "{x \<in> small_entries. fst (snd x) \<noteq> ''.''} = {(1, ''..'', 1), (1, ''a'', 2), (1, ''f'', 4), (2, ''..'', 1), (2, ''b'', 3), (3, ''..'', 2)}"
    unfolding small_entries_def by (simp only: filter_insert fst_conv snd_conv) simp
  have "(d, nm) \<in> named (tree_of small_disk) n \<longleftrightarrow> nm \<noteq> ''.'' \<and> (livedir (tree_of small_disk) d \<and> t_ents (tree_of small_disk) d nm = Some n)"
    unfolding named_def by blast
  also have "\<dots> \<longleftrightarrow> (d, nm, n) \<in> {x \<in> small_entries. fst (snd x) \<noteq> ''.''}" unfolding small_entry by auto
  finally show ?thesis unfolding s .
qed

lemma small_named: "named (tree_of small_disk) 1 = {(1, ''..''), (2, ''..'')}" "named (tree_of small_disk) 2 = {(1, ''a''), (3, ''..'')}"
  "named (tree_of small_disk) 3 = {(2, ''b'')}" "named (tree_of small_disk) 4 = {(1, ''f'')}"
  by (simp_all add: set_eq_iff small_named_iff split_paired_All)

lemma small_dirs_ok: "dirs_ok (tree_of small_disk)"
  unfolding dirs_ok_def small_livedir
proof (intro conjI allI impI)
  fix d :: nat assume "d = 1 \<or> d = 2 \<or> d = 3"
  then have "d = 1 \<and> t_ents (tree_of small_disk) d = map_of root_names \<or> d = 2 \<and> t_ents (tree_of small_disk) d = map_of a_names \<or>
      d = 3 \<and> t_ents (tree_of small_disk) d = map_of b_names" by (auto simp: small_ents)
  then show "finite (dom (t_ents (tree_of small_disk) d))" "t_ents (tree_of small_disk) d ''.'' = Some d"
    "\<exists>p. t_ents (tree_of small_disk) d ''..'' = Some p \<and> (p = 1 \<or> p = 2 \<or> p = 3)"
    by (auto simp: finite_dom_map_of root_names_def a_names_def b_names_def)
qed (auto simp: root_inode_number_def small_ents root_names_def)

lemma small_one_name: "one_name (tree_of small_disk)"
  unfolding one_name_def
proof (intro allI impI; elim conjE)
  let ?t = "tree_of small_disk"
  have c: "(d, nm, k) = (1, ''a'', 2) \<or> (d, nm, k) = (1, ''f'', 4) \<or> (d, nm, k) = (2, ''b'', 3)"
    if "livedir ?t d" "nm \<notin> dot_names" "t_ents ?t d nm = Some k" for d nm k
    using small_entry [of d nm k] that unfolding dot_names_def small_entries_def by simp
  fix d nm k assume a: "livedir ?t d" "nm \<notin> dot_names" "t_ents ?t d nm = Some k" "t_type ?t k = IDirectory"
  have k: "(d, nm, k) = (1, ''a'', 2) \<or> (d, nm, k) = (2, ''b'', 3)" using c [OF a(1-3)] a(4) by (auto simp: small_types)
  have "nm' = nm" if "nm' \<notin> dot_names" "t_ents ?t d nm' = Some k" for nm' using c [OF a(1) that] k by auto
  moreover have "t_ents ?t 2 ''..'' = Some 1" "t_ents ?t 3 ''..'' = Some 2" by (simp_all add: small_ents a_names_def b_names_def)
  ultimately show "k \<noteq> root_inode_number \<and> t_ents ?t k ''..'' = Some d \<and> (\<forall>nm'. nm' \<notin> dot_names \<and> t_ents ?t d nm' = Some k \<longrightarrow> nm' = nm)"
    using k by (auto simp: root_inode_number_def)
qed

lemma small_parents: "t_ents (tree_of small_disk) 1 ''..'' = Some 1" "t_ents (tree_of small_disk) 2 ''..'' = Some 1" "t_ents (tree_of small_disk) 3 ''..'' = Some 2"
  "t_ents (tree_of small_disk) 1 ''a'' = Some 2" "t_ents (tree_of small_disk) 2 ''b'' = Some 3"
  by (simp_all add: small_ents root_names_def a_names_def b_names_def)

lemma small_tree: "tree_inv (tree_of small_disk)"
proof -
  let ?t = "tree_of small_disk"
  have "live ?t k" if "livedir ?t d" "t_ents ?t d nm = Some k" for d nm k
    using small_entry [of d nm k] that unfolding small_live small_entries_def by simp blast
  then have "names_live ?t" unfolding names_live_def by blast
  moreover have "parent_named ?t" unfolding parent_named_def
  proof (intro allI impI; elim conjE)
    fix d p assume a: "livedir ?t d" "d \<noteq> root_inode_number" "t_ents ?t d ''..'' = Some p"
    then have "d = 2 \<and> p = 1 \<or> d = 3 \<and> p = 2" using small_parents unfolding small_livedir root_inode_number_def by auto
    then show "\<exists>nm. nm \<notin> dot_names \<and> t_ents ?t p nm = Some d" using small_parents(4,5) unfolding dot_names_iff
      by (elim disjE conjE) (rule exI [of _ "''a''"], simp, rule exI [of _ "''b''"], simp)
  qed
  moreover have "rooted ?t" unfolding rooted_def small_livedir
  proof (intro allI impI)
    have p: "parent_of ?t 2 = 1" "parent_of ?t 3 = 2" unfolding parent_of_def small_parents by simp_all
    fix d :: nat assume "d = 1 \<or> d = 2 \<or> d = 3"
    then have "(parent_of ?t ^^ (d - 1)) d = root_inode_number" using p by (auto simp: root_inode_number_def numeral_2_eq_2)
    then show "\<exists>i. (parent_of ?t ^^ i) d = root_inode_number" by blast
  qed
  moreover have "links_counted ?t" unfolding links_counted_def small_live
    using small_named by (auto simp: small_types)
  ultimately show ?thesis using small_dirs_ok small_one_name by (simp add: tree_inv_def)
qed

lemma small_dots: "dots (dir_of root_names) 1 1" "dots (dir_of a_names) 2 1" "dots (dir_of b_names) 3 2"
  using dir_of [OF short_names(1)] dir_of [OF short_names(2)] dir_of [OF short_names(3)]
  by (auto simp: dots_def holds_def root_names_def a_names_def b_names_def)

lemma small_disk_ok: "disk_ok (\<lambda>_ _. True) 200 small_disk"
  unfolding disk_ok_def small_livedir
proof (intro conjI allI impI small_tree)
  fix d :: nat assume "d = 1 \<or> d = 2 \<or> d = 3"
  then show "dir_inv (d_data (small_disk d))" "\<exists>p. dots (d_data (small_disk d)) d p"
    using dir_of [OF short_names(1)] dir_of [OF short_names(2)] dir_of [OF short_names(3)] small_dots by (auto simp: small_disk_def a_dir_def)
qed (auto simp: small_types has_blocks_def split: if_splits)

lemma small_slot: "slot_of (small_fs w) i n \<longleftrightarrow> i = 0 \<and> n = w"
  by (auto simp: slot_of_def small_fs_def nth_Cons split: nat.splits)

lemma small_holding: "holding (small_fs w) (inc w (\<lambda>_. 0)) {} small_disk"
proof -
  have t: "table_ok (small_fs w)"
    unfolding table_ok_def small_slot by (auto simp: small_fs_def NINODE_def nth_Cons split: nat.splits)
  have "irefs (small_fs w) n = inc w (\<lambda>_. 0) n" for n
  proof (cases "n = w")
    case True
    then show ?thesis by (intro irefs_eqI [OF t, of 0]) (simp add: small_slot, simp add: small_fs_def)
  next
    case False
    then show ?thesis by (intro irefs_eqI [OF t, of 0]) (simp add: small_slot)
  qed
  moreover have "ilocked (small_fs w) = {}" unfolding ilocked_def small_slot by (auto simp: small_fs_def)
  ultimately show ?thesis using t by (simp add: holding_def fun_eq_iff) (simp add: small_fs_def)
qed

lemma small_room: "room (inc w (\<lambda>_. 0)) 3"
proof -
  have "{n. 0 < inc w (\<lambda>_. 0) n} = {w}" by (auto simp: inc_def)
  then show ?thesis by (simp add: room_def NINODE_def)
qed

lemma small_good:
  assumes "w = 1 \<or> w = 2 \<or> w = 3"
  shows "fs_good (\<lambda>_ _. True) (small_fs w) (inc w (\<lambda>_. 0))" "process_state (small_fs w) 0 (\<lambda>_. 0)"
    "allowed (\<lambda>_ _. True) (small_fs w) 0 paths" "s_inum (itable (small_fs w) ! 0) = w"
proof -
  have d: "disk (small_fs w) = small_disk" "ninodes (small_fs w) = 200" by (simp_all add: small_fs_def)
  show g: "fs_good (\<lambda>_ _. True) (small_fs w) (inc w (\<lambda>_. 0))"
    using assms small_holding small_disk_ok by (auto simp: fs_good_def d refs_ok_def inc_def small_types split: if_splits)
  then show "process_state (small_fs w) 0 (\<lambda>_. 0)" using small_slot by (auto simp: process_state_def)
  show i: "s_inum (itable (small_fs w) ! 0) = w" by (simp add: small_fs_def)
  have ir: "irefs (small_fs w) = inc w (\<lambda>_. 0)" using small_holding by (simp add: holding_def)
  show "allowed (\<lambda>_ _. True) (small_fs w) 0 paths"
    unfolding allowed_def i ir d
    using small_room assms by (auto simp: blocks_found_def has_blocks_def fs_ready_def d small_types max_link_count_def starts_live_def start_of_def small_live root_inode_number_def)
qed


subsection \<open>Properties\<close>

text \<open>
  C7.  Resolving a path is walking in the tree: the call returns with one new reference, to the inode that the walk ends at, or with none when there is no such path; every other reference stays, no lock is
  left, and neither the kernel panics nor the call waits for ever.  The same holds for the parent and the last name.
\<close>

theorem resolution_is_walk:
  assumes "holding s R {} D" and "slot_of s c w" and "starts_live (tree_of D) w path" and "walkable gb D" and "room R 2"
  shows "(case path_target False (tree_of D) w path of
      None \<Rightarrow> \<exists>s'. resolvePath gb c path s = Done None s' \<and> holding s' R {} D \<and> keeps s s' R
    | Some k \<Rightarrow> \<exists>i s'. resolvePath gb c path s = Done (Some i) s' \<and> slot_of s' i k \<and> holding s' (inc k R) {} D \<and> keeps s s' R) \<and>
   (case path_target True (tree_of D) w path of
      None \<Rightarrow> \<exists>s'. resolvePathParent gb c path s = Done None s' \<and> holding s' R {} D \<and> keeps s s' R
    | Some d \<Rightarrow> \<exists>i s'. resolvePathParent gb c path s = Done (Some (i, last (components path))) s' \<and> slot_of s' i d \<and>
        holding s' (inc d R) {} D \<and> keeps s s' R)"
  using resolvePath_spec [OF assms] resolvePathParent_spec [OF assms] by blast

lemma small_walks:
  "path_target False (tree_of small_disk) 1 ''/a//b/'' = Some 3" "path_target True (tree_of small_disk) 1 ''/a/x'' = Some 2"
  "path_target True (tree_of small_disk) 1 ''.'' = Some 1" "components ''/a/x'' = [''a'', ''x'']" "components ''.'' = [''.'']"
  by (simp_all add: path_target_def target_def walk_parent_def components_def start_of_def root_inode_number_def small_types small_parents [simplified] small_ents root_names_def a_names_def)

lemma small_walkable: "walkable (\<lambda>_ _. True) small_disk"
  using disk_ok_walkable [OF small_disk_ok] .

theorem resolution_is_walk_witness:
  "\<exists>i s'. resolvePath (\<lambda>_ _. True) 0 ''/a//b/'' (small_fs 1) = Done (Some i) s' \<and> slot_of s' i 3 \<and> irefs s' 3 = 1 \<and> ilocked s' = {}"
proof -
  have st: "starts_live (tree_of small_disk) 1 ''/a//b/''" by (simp add: starts_live_def start_of_def small_live root_inode_number_def)
  have sl: "slot_of (small_fs 1) 0 1" by (simp add: small_slot)
  obtain i s' where "resolvePath (\<lambda>_ _. True) 0 ''/a//b/'' (small_fs 1) = Done (Some i) s'" "slot_of s' i 3" "holding s' (inc 3 (inc 1 (\<lambda>_. 0))) {} small_disk"
    using resolution_is_walk [OF small_holding sl st small_walkable room_less [OF small_room, of 2]] small_walks(1) by auto
  then show ?thesis using holdingD(2,3) by fastforce
qed

text \<open>
  C6.  The calls \<open>link\<close>, \<open>unlink\<close>, \<open>mkdir\<close>, \<open>mknod\<close> and \<open>open\<close> with \<open>O_CREATE\<close> implement their step on the tree.  From a good state a call returns; if it succeeds, the live part of the tree is what the step makes of
  it, else it is unchanged; and in both cases the invariant holds again, all references are as before and no lock is held.  Excluded are names that lead to the directory itself.
\<close>

theorem filesystem_call:
  assumes "process_state s c R" and "allowed gb s c (call_paths call)" and "call_fair (disk s) (s_inum (itable s ! c)) call"
  shows "\<exists>b s'. run_call gb pad c call s = Done b s' \<and> process_state s' c R \<and> irefs s' = irefs s \<and> ilocked s' = {} \<and>
    (if b then \<exists>tr'. call_effect (s_inum (itable s ! c)) call (tree_of (disk s)) tr' \<and> same_live tr' (tree_of (disk s'))
     else same_live (tree_of (disk s)) (tree_of (disk s')))"
proof -
  obtain w where w: "slot_of s c w" "fs_good gb s (inc w R)" "fs_ready s (inc w R)" "\<forall>path \<in> set (call_paths call). starts_live (tree_of (disk s)) w path"
    using process_stateD [OF assms(1,2)] by blast
  have i: "s_inum (itable s ! c) = w" using w(1) by (rule slot_inum)
  have "call_result gb s (inc w R) w call (run_call gb pad c call s)" using call_spec [OF w(2,1) _ w(4,3)] assms(3) i by simp
  then obtain b s' where r: "run_call gb pad c call s = Done b s'" "fs_good gb s' (inc w R)"
      "if b then \<exists>tr'. call_effect w call (tree_of (disk s)) tr' \<and> same_live tr' (tree_of (disk s')) else same_live (tree_of (disk s)) (tree_of (disk s'))"
    unfolding call_result_def by blast
  moreover have "irefs s' = irefs s" "ilocked s' = {}" using r(2) w(2) by (simp_all add: fs_good_def holding_def)
  ultimately show ?thesis using call_keeps_state [OF assms(1,2) r(1)] i by blast
qed

lemma small_fair: "\<not> self_named small_disk 1 ''/a/x''"
  using small_walks(2,4) by (simp add: self_named_def small_ents a_names_def)

theorem filesystem_call_witness:
  "\<exists>b s'. run_call (\<lambda>_ _. True) (\<lambda>_. CHR ''x'') 0 (MkdirCall ''/a/x'') (small_fs 1) = Done b s' \<and> irefs s' = irefs (small_fs 1) \<and> ilocked s' = {} \<and> process_state s' 0 (\<lambda>_. 0)"
proof -
  have p: "process_state (small_fs 1) 0 (\<lambda>_. 0)" "s_inum (itable (small_fs 1) ! 0) = 1" "disk (small_fs 1) = small_disk"
    using small_good [of 1] by simp_all (simp add: small_fs_def)
  have a: "allowed (\<lambda>_ _. True) (small_fs 1) 0 (call_paths (MkdirCall ''/a/x''))" by (rule small_good(3)) simp
  have f: "call_fair (disk (small_fs 1)) (s_inum (itable (small_fs 1) ! 0)) (MkdirCall ''/a/x'')" using p(2,3) small_fair by simp
  show ?thesis using filesystem_call [OF p(1) a f, of "\<lambda>_. CHR ''x''"] by blast
qed

text \<open>
  C5.  After any sequence of these calls and of changes of the current directory, failed ones included, the file system is a tree: link counts are the numbers of names, names of live directories lead to live inodes, from every
  live directory \<open>..\<close> leads to the root; no lock is held, and the process holds one reference, to its directory, besides the ones that were there.  Every call is one that is \<open>allowed\<close>: three slots of the
  inode table are free, no link count is at its limit, and a relative path starts in a current directory that has not been removed.  The last condition is needed: the kernel accepts calls from a removed directory,
  and what a process creates there has a link count of 1 and no name (lemma \<open>orphan_in_removed_directory\<close>).
\<close>

theorem filesystem_history:
  assumes "process_state s0 c0 R" and "history allowed s0 c0 s c"
  shows "tree_inv (tree_of (disk s)) \<and> disk_ok (\<lambda>_ _. True) (ninodes s) (disk s) \<and> table_ok s \<and> ilocked s = {} \<and>
    (\<exists>w. slot_of s c w \<and> irefs s = inc w R \<and> d_type (disk s w) \<noteq> IFree)"
proof -
  obtain w where w: "slot_of s c w" "fs_good (\<lambda>_ _. True) s (inc w R)" using history_state [OF assms(2,1)] by (auto simp: process_state_def)
  then show ?thesis using disk_okD(1) by (auto simp: fs_good_def holding_def refs_ok_def)
qed

theorem filesystem_history_witness:
  "\<exists>s. history allowed (small_fs 1) 0 s 0 \<and> (\<exists>b. run_call (\<lambda>_ _. True) (\<lambda>_. NUL) 0 (UnlinkCall ''/a/b'') (small_fs 1) = Done b s) \<and> tree_inv (tree_of (disk s)) \<and> ilocked s = {}"
proof -
  have p: "process_state (small_fs 1) 0 (\<lambda>_. 0)" "fs_good (\<lambda>_ _. True) (small_fs 1) (inc 1 (\<lambda>_. 0))" "allowed (\<lambda>_ _. True) (small_fs 1) 0 (call_paths (UnlinkCall ''/a/b''))"
    using small_good [of 1] by simp_all
  have sl: "slot_of (small_fs 1) 0 1" by (simp add: small_slot)
  have rd: "fs_ready (small_fs 1) (inc 1 (\<lambda>_. 0))" using p(3) small_holding [of 1] by (simp add: allowed_def holding_def)
  have st: "\<forall>path \<in> set (call_paths (UnlinkCall ''/a/b'')). starts_live (tree_of (disk (small_fs 1))) 1 path"
    using p(3) small_good(4) [of 1] by (simp add: allowed_def)
  obtain b s where r: "run_call (\<lambda>_ _. True) (\<lambda>_. NUL) 0 (UnlinkCall ''/a/b'') (small_fs 1) = Done b s"
    using call_spec [OF p(2) sl _ st rd, of "\<lambda>_. NUL"] by (auto simp: call_result_def)
  have "history allowed (small_fs 1) 0 s 0" by (rule history.call [where ok = allowed, OF history.start p(3) r])
  then show ?thesis using filesystem_history [OF p(1)] r by blast
qed


text \<open>
  C24.  \<open>mkdir\<close> and \<open>open\<close> with \<open>O_CREATE\<close> never return when the last name of the path leads to the directory that holds it, as \<open>.\<close> does everywhere and \<open>..\<close> does in the root: \<open>create\<close> keeps the directory
  locked while it locks what the name leads to.
\<close>

theorem create_self_deadlock:
  assumes "process_state s c R" and "allowed gb s c [path]" and "self_named (disk s) (s_inum (itable s ! c)) path"
  shows "sys_mkdir gb pad c path s = Deadlock \<and> run_call gb pad c (CreatCall path) s = Deadlock"
proof -
  obtain w where w: "slot_of s c w" "fs_good gb s (inc w R)" "fs_ready s (inc w R)" "starts_live (tree_of (disk s)) w path"
    using process_stateD [OF assms(1,2)] by auto
  have i: "s_inum (itable s ! c) = w" using w(1) by (rule slot_inum)
  have h: "holding s (inc w R) {} (disk s)" "disk_ok gb (ninodes s) (disk s)" "refs_ok (inc w R) (disk s)" using w(2) by (simp_all add: fs_good_def)
  have r: "room (inc w R) 3" "\<And>n. d_link (disk s n) < max_link_count" using w(3) by (simp_all add: fs_ready_def)
  have "make gb pad c path kind (0, 0) s = Deadlock" if "kind \<noteq> IFree" for kind
    using make_spec [OF h(1) w(1) _ w(4) h(2,3) r that, of pad "(0, 0)"] assms(3) i by simp
  then show ?thesis by (simp add: sys_mkdir_def)
qed

theorem create_self_deadlock_witness: "sys_mkdir (\<lambda>_ _. True) (\<lambda>_. NUL) 0 ''.'' (small_fs 1) = Deadlock"
proof -
  have p: "process_state (small_fs 1) 0 (\<lambda>_. 0)" "s_inum (itable (small_fs 1) ! 0) = 1" "disk (small_fs 1) = small_disk"
    using small_good [of 1] by simp_all (simp add: small_fs_def)
  have a: "allowed (\<lambda>_ _. True) (small_fs 1) 0 [''.'']" by (rule small_good(3)) simp
  have "self_named small_disk 1 ''.''" using small_walks(3,5) by (simp add: self_named_def small_ents root_names_def)
  then show ?thesis using create_self_deadlock [OF p(1) a, of "\<lambda>_. NUL"] p(2,3) by simp
qed

lemma walk_two: "components ''/a/b'' = [''a'', ''b'']" "components ''/a'' = [''a'']"
  by (simp_all add: components_def)

lemma path_targets_ab:
  "path_target True tr w ''/a/b'' = (if t_type tr root_inode_number \<noteq> IDirectory then None
     else case t_ents tr root_inode_number ''a'' of None \<Rightarrow> None | Some a \<Rightarrow> if t_type tr a = IDirectory then Some a else None)"
  "path_target True tr w ''/a'' = (if t_type tr root_inode_number = IDirectory then Some root_inode_number else None)"
  by (simp_all add: path_target_def target_def walk_parent_def walk_two start_of_def split: option.splits)

text \<open>Removing an empty directory: it stays on the disk as it is while somebody refers to it.\<close>

lemma unlink_dir:
  assumes h: "holding s R {} D" and c: "slot_of s c w" "0 < R w" "starts_live (tree_of D) w path" and ok: "disk_ok gb (ninodes s) D" and room: "room R 2"
    and d: "path_target True (tree_of D) w path = Some d" "livedir (tree_of D) d" and nm: "last (components path) = nm" "nm \<notin> dot_names"
    and k: "dir_map (d_data (D d)) nm = Some k" "d_type (D k) = IDirectory" "dom (dir_map (d_data (D k))) \<subseteq> dot_names"
  shows "\<exists>s' D'. unlink gb pad c path s = Done None s' \<and> holding s' R {} D' \<and> keeps s s' R \<and> disk_ok gb (ninodes s') D' \<and>
    (\<forall>n. n \<noteq> d \<and> n \<noteq> k \<longrightarrow> d_type (D' n) = d_type (D n) \<and> d_data (D' n) = d_data (D n)) \<and>
    d_type (D' d) = IDirectory \<and> dir_map (d_data (D' d)) = (dir_map (d_data (D d)))(nm := None) \<and>
    (if R k = 0 then d_type (D' k) = IFree else d_type (D' k) = IDirectory \<and> d_data (D' k) = d_data (D k) \<and> d_link (D' k) = 0)"
proof -
  have nr: "\<not> unlink_refused D d nm" using nm k by (simp add: unlink_refused_def)
  obtain er s' D' where u: "unlink gb pad c path s = Done er s'" "holding s' R {} D'" "keeps s s' R" "disk_ok gb (ninodes s) D'"
    and o: "case er of Some _ \<Rightarrow> D' = D \<and> (\<forall>d. path_target True (tree_of D) w path = Some d \<longrightarrow> unlink_refused D d nm)
      | None \<Rightarrow> \<exists>d k D''. path_target True (tree_of D) w path = Some d \<and> \<not> unlink_refused D d nm \<and> dir_map (d_data (D d)) nm = Some k \<and>
         tree_of D'' = tree_unlink d nm k (tree_of D) \<and> (\<forall>n. d_type (D'' n) = d_type (D n) \<and> (n \<noteq> d \<longrightarrow> d_data (D'' n) = d_data (D n))) \<and> D' = last_put k R D''"
    using unlink_spec [OF h c ok room, of pad] unfolding nm(1) by blast
  have er: "er = None" using o d(1) nr by (cases er) simp_all
  then obtain D'' where D'': "tree_of D'' = tree_rmdir d nm k (tree_of D)" "\<And>n. d_type (D'' n) = d_type (D n)" "\<And>n. n \<noteq> d \<Longrightarrow> d_data (D'' n) = d_data (D n)"
      "D' = last_put k R D''"
    using o d(1) k(1,2) by (auto simp: tree_unlink_def)
  note inv = disk_okD(1) [OF ok]
  have E: "d \<noteq> k" "d_link (D k) = 1" using empty_dir(2,6) [OF inv d(2) nm(2), of k] k by simp_all
  have "t_link (tree_of D'') k = 0" "t_ents (tree_of D'') d = (t_ents (tree_of D) d)(nm := None)" unfolding D''(1) using E by (simp_all add: tree_rmdir_def)
  then have l: "d_link (D'' k) = 0" "dir_map (d_data (D'' d)) = (dir_map (d_data (D d)))(nm := None)" by simp_all
  have "ninodes s' = ninodes s" using u(3) by (simp add: keeps_def)
  moreover have "D' n = D'' n" if "n \<noteq> k" for n using D''(4) that by (simp add: last_put_other)
  moreover have "D' k = (if R k = 0 then freed (D'' k) else D'' k)" using D''(4) l(1) by (simp add: last_put_def)
  moreover have "d_type (D d) = IDirectory" using d(2) by (simp add: livedir_def)
  ultimately show ?thesis using u er D''(2,3) E(1) l k(2) by (intro exI [of _ s'] exI [of _ D']) (simp add: freed_def)
qed

text \<open>What is created in a removed directory, which a process still has as its current one: the new file has a link count and no name in any live directory.\<close>

lemma create_in_removed:
  assumes h: "holding s R {} D" and c: "slot_of s c w" "0 < R w" and w: "d_type (D w) = IDirectory" "dir_inv (d_data (D w))" "has_blocks (gb w) (d_data (D w))"
      "dir_map (d_data (D w)) ''x'' = None" "dir_room (gb w) (d_data (D w))"
    and room: "room R 3" and rf: "refs_ok R D" and free: "0 < m" "m < ninodes s" "d_type (D m) = IFree" and nn: "ninodes s \<le> 2 ^ 32"
  shows "\<exists>s' n ip'. run_call gb pad c (CreatCall ''x'') s = Done True s' \<and> holding s' R {} (D(n := new_inode IFile (0, 0), w := (D w)\<lparr>d_data := ip'\<rparr>)) \<and>
    n \<noteq> w \<and> d_type (D n) = IFree"
proof -
  have sk: "skipPathElement ''x'' = Some (''x'', [])" by (simp add: skipPathElement_def)
  obtain s1 where s1: "duplicate c s = Done c s1" "slot_of s1 c w" "holding s1 (inc w R) {} D" using h_duplicate [OF h c(1)] by blast
  obtain s2 where s2: "lock c s1 = Done () s2" "slot_of s2 c w" "holding s2 (inc w R) {w} D" using h_lock [OF s1(3,2)] w(1) by auto
  obtain s3 where s3: "release c s2 = Done () s3" "slot_of s3 c w" "holding s3 (inc w R) {} D" using h_release [OF s2(3,2)] by auto
  have "s_copy (itable s2 ! c) = D w" using h_copy [OF s2(3,2)] by simp
  then have par: "resolvePathParent gb c ''x'' s = Done (Some (c, ''x'')) s3"
    using s1(1) s2(1) s3(1) w(1) by (simp add: resolvePathParent_def resolvePathHelper_def) (subst resolve_loop.simps, simp add: sk)
  obtain s4 where s4: "lock c s3 = Done () s4" "slot_of s4 c w" "holding s4 (inc w R) {w} D" "keeps s3 s4 (inc w R)" using h_lock [OF s3(3,2)] w(1) by auto
  have r2: "room (inc w R) 2" using room room_inc [of R 2 w] by (simp add: eval_nat_numeral)
  have lk: "dir_lookup gb c ''x'' s4 = Done None s4"
    using h_dir_lookup [where D = D and gb = gb and nm = "''x''", OF s4(3,2) _ w(1-3) room_less [OF r2]] w(4) by simp
  have rf1: "refs_ok (inc w R) D" using rf w(1) by (auto simp: refs_ok_def inc_def)
  have n4: "ninodes s4 = ninodes s" using h s4(3) s1 s2 s3 s4 h_duplicate [OF h c(1)] h_lock [OF s1(3,2)] h_release [OF s2(3,2)] w(1) by (auto simp: keeps_def)
  from h_alloc [OF s4(3) room_less [OF r2] rf1, of IFile] free n4
  obtain i n s5 where s5: "alloc IFile s4 = Done (Some i) s5" "0 < n" "n < ninodes s" "d_type (D n) = IFree" "inc w R n = 0" "slot_of s5 i n"
      "holding s5 (inc n (inc w R)) {w} (D(n := fresh_inode IFile))" "keeps s4 s5 (inc w R)" by auto
  have nw: "n \<noteq> w" using s5(4) w(1) by auto
  let ?R = "inc n (inc w R)" and ?X = "D(n := new_inode IFile (0, 0))"
  have c5: "slot_of s5 c w" using keeps_slot [OF s5(8) s4(2)] by simp
  obtain s6 where s6: "lock i s5 = Done () s6" "slot_of s6 i n" "holding s6 ?R {n, w} (D(n := fresh_inode IFile))" "keeps s5 s6 ?R"
    using h_lock [OF s5(7,6)] nw by (auto simp: fresh_inode_def)
  have c6: "slot_of s6 c w" using keeps_slot [OF s6(4) c5] by simp
  define s7 where "s7 = change i (\<lambda>di. di\<lparr>d_device := (0, 0), d_link := 1\<rparr>) s6"
  have s7: "slot_of s7 i n" "holding s7 ?R {n, w} ?X" "keeps s6 s7 ?R"
    using h_change [OF s6(3,2), of "\<lambda>di. di\<lparr>d_device := (0, 0), d_link := 1\<rparr>"] by (simp_all add: s7_def new_inode_def)
  have c7: "slot_of s7 c w" using keeps_slot [OF s7(3) c6] by simp
  have r1: "room ?R 1" using r2 room_inc [of "inc w R" 1 n] by (simp add: numeral_2_eq_2)
  have xw: "?X w = D w" using nw by simp
  have "n < 2 ^ 32" using s5(3) nn by linarith
  moreover have "\<not> length ''x'' > max_name_length" by (simp add: max_name_length_def entry_size_def)
  ultimately obtain ip' s8 where s8: "dir_link gb pad c ''x'' n s7 = Done None s8" "holding s8 ?R {n, w} (?X(w := (?X w)\<lparr>d_data := ip'\<rparr>))" "keeps s7 s8 ?R"
    using h_dir_link [where D = ?X and gb = gb and pad = pad and nm = "''x''" and k = n, OF s7(2) c7 _ _ _ _ _ r1 s5(2)] w unfolding xw by auto
  let ?D = "?X(w := (D w)\<lparr>d_data := ip'\<rparr>)"
  have c8: "slot_of s8 c w" "slot_of s8 i n" using keeps_slot [OF s8(3)] c7 s7(1) by simp_all
  have h8: "holding s8 (inc w (inc n R)) {n, w} ?D" using s8(2) nw by (simp add: inc_comm)
  have lp: "last_put w (inc n R) ?D = ?D" "{n, w} - {w} = {n}" using c(2) nw by (auto simp: last_put_def inc_def)
  obtain s9 where s9: "releasePut c s8 = Done () s9" "holding s9 (inc n R) {n} ?D" "keeps s8 s9 (inc n R)"
    using h_releasePut [OF h8 c8(1)] unfolding lp by auto
  have "slot_of s9 i n" using keeps_slot [OF s9(3) c8(2)] by simp
  moreover have "0 < d_link (?D n)" using nw by simp
  ultimately obtain s10 where s10: "releasePut i s9 = Done () s10" "holding s10 R {} ?D" using h_finish [OF s9(2)] by blast
  have "s_inum (itable s7 ! i) = n" by (rule slot_inum [OF s7(1)])
  then have "create gb pad c ''x'' IFile (0, 0) s = Done (Inr i) s9"
    using par s4(1) lk s5(1) s6(1) s8(1) s9(1) by (simp add: create_def create_links_def s7_def Let_def)
  then have "run_call gb pad c (CreatCall ''x'') s = Done True s10" using s10(1) by (simp add: make_def)
  then show ?thesis using s10(2) nw s5(4) by blast
qed

lemma orphan_in_removed_directory:
  assumes "process_state s c R" and "allowed gb s c [''/a/b'']" and b: "b = s_inum (itable s ! c)"
    and names: "dir_map (d_data (disk s root_inode_number)) ''a'' = Some a" "dir_map (d_data (disk s a)) ''b'' = Some b"
    and dirs: "d_type (disk s a) = IDirectory" "d_type (disk s b) = IDirectory" and empty: "dom (dir_map (d_data (disk s b))) \<subseteq> dot_names"
    and gb: "\<And>n k. gb n k" and size: "i_size (d_data (disk s b)) + entry_size \<le> block_size * max_file_block_count"
    and free: "0 < m" "m < ninodes s" "d_type (disk s m) = IFree"
  shows "\<exists>s1 s2 n. unlink gb pad c ''/a/b'' s = Done None s1 \<and> run_call gb pad c (CreatCall ''x'') s1 = Done True s2 \<and>
    d_type (disk s2 n) = IFile \<and> d_link (disk s2 n) = 1 \<and> named (tree_of (disk s2)) n = {} \<and> \<not> links_counted (tree_of (disk s2))"
proof -
  let ?D = "disk s" and ?root = root_inode_number
  obtain w where w: "slot_of s c w" "fs_good gb s (inc w R)" "fs_ready s (inc w R)" using process_stateD [OF assms(1,2)] by blast
  have wb: "w = b" using slot_inum [OF w(1)] b by simp
  have h: "holding s (inc b R) {} ?D" "disk_ok gb (ninodes s) ?D" "refs_ok (inc b R) ?D" using w(2) wb by (simp_all add: fs_good_def)
  have r3: "room (inc b R) 3" using w(3) wb by (simp add: fs_ready_def)
  have sl: "slot_of s c b" "0 < inc b R b" using w(1) wb by simp_all
  note inv = disk_okD(1) [OF h(2)]
  have nb: "''b'' \<notin> dot_names" "''a'' \<notin> dot_names" "''x'' \<notin> dot_names" by (simp_all add: dot_names_def)
  have root: "livedir (tree_of ?D) ?root" "d_type (?D ?root) = IDirectory" using tree_invD(1) [OF inv] by (simp_all add: livedir_def)
  have st: "starts_live (tree_of ?D) b ''/a/b''" using livedir_live [OF root(1)] by (simp add: starts_live_def start_of_def)
  have la: "livedir (tree_of ?D) a" using tree_invD(7) [OF inv root(1), of "''a''" a] names(1) dirs(1) live_type by simp
  have E: "a \<noteq> b" "livedir (tree_of ?D) b" using empty_dir [OF inv la nb(1), of b] names(2) dirs(2) empty(1) by simp_all
  have t1: "path_target True (tree_of ?D) b ''/a/b'' = Some a" using root(2) names(1) dirs(1) by (simp add: path_targets_ab)
  have l1: "last (components ''/a/b'') = ''b''" by (simp add: walk_two)
  obtain s1 D1 where u: "unlink gb pad c ''/a/b'' s = Done None s1" "holding s1 (inc b R) {} D1" "keeps s s1 (inc b R)" "disk_ok gb (ninodes s1) D1"
      "\<forall>n. n \<noteq> a \<and> n \<noteq> b \<longrightarrow> d_type (D1 n) = d_type (?D n) \<and> d_data (D1 n) = d_data (?D n)" "d_type (D1 a) = IDirectory"
      "d_type (D1 b) = IDirectory" "d_data (D1 b) = d_data (?D b)" "d_link (D1 b) = 0"
    using unlink_dir [OF h(1) sl st h(2) room_less [OF r3, of 2] t1 la l1(1) nb(1) names(2) dirs(2) empty(1), of pad] sl(2)
    by (auto simp del: fun_upd_apply)
  have c1: "slot_of s1 c b" by (rule keeps_slot [OF u(3) sl])
  have dat: "dir_inv (d_data (D1 b))" "has_blocks (gb b) (d_data (D1 b))" "dir_map (d_data (D1 b)) ''x'' = None" "dir_room (gb b) (d_data (D1 b))"
    using disk_okD(3) [OF h(2) E(2)] empty nb(3) gb size unfolding u(8) by (auto simp: has_blocks_def dir_room_def)
  have "refs_ok (inc b R) D1" unfolding refs_ok_def
  proof (intro allI impI)
    fix n assume "0 < inc b R n"
    then have "d_type (?D n) \<noteq> IFree" using h(3) by (simp add: refs_ok_def)
    then show "d_type (D1 n) \<noteq> IFree" using u(5-7) by (cases "n = a \<or> n = b") auto
  qed
  moreover have "ninodes s1 = ninodes s" "ninodes s \<le> 2 ^ 32" using u(3) h(2) by (simp_all add: keeps_def disk_ok_def)
  moreover have "d_type (D1 m) = IFree" using free(3) u(5) dirs by (metis inode_type.distinct(1))
  ultimately obtain s2 n ip' where x: "run_call gb pad c (CreatCall ''x'') s1 = Done True s2"
      "holding s2 (inc b R) {} (D1(n := new_inode IFile (0, 0), b := (D1 b)\<lparr>d_data := ip'\<rparr>))" "n \<noteq> b" "d_type (D1 n) = IFree"
    using create_in_removed [where gb = gb and pad = pad and D = D1 and m = m, OF u(2) c1 sl(2) u(7) dat r3 _ free(1)] free(2) by auto
  let ?X = "D1(n := new_inode IFile (0, 0), b := (D1 b)\<lparr>d_data := ip'\<rparr>)"
  have "t_ents (tree_of ?X) d nm \<noteq> Some n" if "livedir (tree_of ?X) d" for d nm
  proof -
    have d: "d \<noteq> b" "d \<noteq> n" using that u(9) x(3) by (auto simp: livedir_def split: if_splits)
    then have "livedir (tree_of D1) d" "t_ents (tree_of ?X) d = t_ents (tree_of D1) d" using that by (simp_all add: livedir_def)
    then have "t_ents (tree_of ?X) d nm = Some n \<Longrightarrow> live (tree_of D1) n" using tree_invD(7) [OF disk_okD(1) [OF u(4)]] by simp
    then show ?thesis using x(4) by (auto simp: live_def)
  qed
  then have no: "named (tree_of ?X) n = {}" by (auto simp: named_def)
  have n: "d_type (?X n) = IFile" "d_link (?X n) = 1" using x(3) by simp_all
  then have "live (tree_of ?X) n" by (simp add: live_def)
  moreover have "t_link (tree_of ?X) n = 1" using n(2) by simp
  moreover have "\<not> links_counted tr" if "live tr n" "named tr n = {}" "t_link tr n = 1" for tr
    using that unfolding links_counted_def by (metis card.empty zero_neq_one)
  ultimately have "\<not> links_counted (tree_of ?X)" using no by blast
  moreover have "disk s2 = ?X" using x(2) by (simp add: holding_def)
  ultimately show ?thesis using u(1) x(1) n no by (intro exI [of _ s1] exI [of _ s2] exI [of _ n]) simp
qed

text \<open>
  C23.  A process whose current directory \<open>/a/b\<close> and its parent \<open>/a\<close> are removed brings the kernel down with \<open>chdir("..")\<close>: both calls of \<open>unlink\<close> succeed, the parent is freed although the removed directory still
  names it, and locking it panics.
\<close>

theorem stale_parent_panics:
  assumes "process_state s c R" and "allowed gb s c [''/a/b'', ''/a'']" and b: "b = s_inum (itable s ! c)"
    and names: "dir_map (d_data (disk s root_inode_number)) ''a'' = Some a" "dir_map (d_data (disk s a)) ''b'' = Some b"
    and dirs: "d_type (disk s a) = IDirectory" "d_type (disk s b) = IDirectory" and others: "R a = 0"
    and empty: "dom (dir_map (d_data (disk s b))) \<subseteq> dot_names" "dom (dir_map (d_data (disk s a))) \<subseteq> insert ''b'' dot_names"
    and gb: "\<And>n k. gb n k"
  shows "\<exists>s1 s2. unlink gb pad c ''/a/b'' s = Done None s1 \<and> unlink gb pad c ''/a'' s1 = Done None s2 \<and> chdir gb c ''..'' s2 = Panic"
proof -
  let ?D = "disk s" and ?root = root_inode_number
  obtain w where w: "slot_of s c w" "fs_good gb s (inc w R)" "fs_ready s (inc w R)" using process_stateD [OF assms(1,2)] by blast
  have wb: "w = b" using slot_inum [OF w(1)] b by simp
  have h: "holding s (inc b R) {} ?D" "disk_ok gb (ninodes s) ?D" using w(2) wb by (simp_all add: fs_good_def)
  have r3: "room (inc b R) 3" using w(3) wb by (simp add: fs_ready_def)
  have rm: "room (inc b R) 2" "room R 3" using room_less [OF r3, of 2] room_dec [OF r3] by simp_all
  have sl: "slot_of s c b" "0 < inc b R b" using w(1) wb by simp_all
  note inv = disk_okD(1) [OF h(2)]
  have nb: "''b'' \<notin> dot_names" "''a'' \<notin> dot_names" by (simp_all add: dot_names_def)
  have st: "starts_live (tree_of D) b (CHR ''/'' # p)" if "disk_ok gb nn D" for D nn p
    using livedir_live [OF tree_invD(1) [OF disk_okD(1) [OF that]]] by (simp add: starts_live_def start_of_def)
  have root: "livedir (tree_of ?D) ?root" "d_type (?D ?root) = IDirectory" using tree_invD(1) [OF inv] by (simp_all add: livedir_def)
  have la: "livedir (tree_of ?D) a" using tree_invD(7) [OF inv root(1), of "''a''" a] names(1) dirs(1) live_type by simp
  have ra: "?root \<noteq> a" using entry_other [OF inv root(1) nb(2), of a] names(1) by simp
  have E: "a \<noteq> b" "b \<noteq> ?root" "dir_map (d_data (?D b)) ''..'' = Some a" "livedir (tree_of ?D) b"
    using empty_dir [OF inv la nb(1), of b] names(2) dirs(2) empty(1) by simp_all
  have t1: "path_target True (tree_of ?D) b ''/a/b'' = Some a" using root(2) names(1) dirs(1) by (simp add: path_targets_ab)
  have l1: "last (components ''/a/b'') = ''b''" "last (components ''/a'') = ''a''" by (simp_all add: walk_two)
  obtain s1 D1 where u1: "unlink gb pad c ''/a/b'' s = Done None s1" "holding s1 (inc b R) {} D1" "keeps s s1 (inc b R)" "disk_ok gb (ninodes s1) D1"
      "\<forall>n. n \<noteq> a \<and> n \<noteq> b \<longrightarrow> d_type (D1 n) = d_type (?D n) \<and> d_data (D1 n) = d_data (?D n)" "d_type (D1 a) = IDirectory"
      "dir_map (d_data (D1 a)) = (dir_map (d_data (?D a)))(''b'' := None)" "d_type (D1 b) = IDirectory" "d_data (D1 b) = d_data (?D b)"
    using unlink_dir [OF h(1) sl st [OF h(2)] h(2) rm(1) t1 la l1(1) nb(1) names(2) dirs(2) empty(1), of pad] sl(2) by (elim exE conjE) simp
  have sl1: "slot_of s1 c b" using keeps_slot [OF u1(3) sl] .
  have root1: "livedir (tree_of D1) ?root" by (rule tree_invD(1) [OF disk_okD(1) [OF u1(4)]])
  have r1: "d_type (D1 ?root) = IDirectory" "d_data (D1 ?root) = d_data (?D ?root)" using u1(5) ra E(2) root(2) by simp_all
  have t2: "path_target True (tree_of D1) b ''/a'' = Some ?root" using r1(1) by (simp add: path_targets_ab)
  have a1: "dir_map (d_data (D1 ?root)) ''a'' = Some a" "dom (dir_map (d_data (D1 a))) \<subseteq> dot_names" using u1(7) r1(2) names(1) empty(2) by auto
  obtain s2 D2 where u2: "unlink gb pad c ''/a'' s1 = Done None s2" "holding s2 (inc b R) {} D2" "keeps s1 s2 (inc b R)"
      "d_type (D2 b) = IDirectory" "d_data (D2 b) = d_data (?D b)" "d_type (D2 a) = IFree"
    using unlink_dir [OF u1(2) sl1 sl(2) st [OF u1(4)] u1(4) rm(1) t2 root1 l1(2) nb(2) a1(1) u1(6) a1(2), of pad] u1(8,9) E(1,2) others by (elim exE conjE) simp
  have "dir_inv (d_data (?D b))" using disk_okD(3) [OF h(2) E(4)] by simp
  then have "chdir gb c ''..'' s2 = Panic"
    using stale_parent [OF u2(2) keeps_slot [OF u2(3) sl1 sl(2)] u2(4) _ _ _ u2(6) others E(1) rm(2), of gb] E(3) gb unfolding u2(5) by (simp add: has_blocks_def)
  then show ?thesis using u1(1) u2(1) by blast
qed

theorem stale_parent_panics_witness:
  "\<exists>s1 s2. unlink (\<lambda>_ _. True) (\<lambda>_. NUL) 0 ''/a/b'' (small_fs 3) = Done None s1 \<and> unlink (\<lambda>_ _. True) (\<lambda>_. NUL) 0 ''/a'' s1 = Done None s2 \<and>
    chdir (\<lambda>_ _. True) 0 ''..'' s2 = Panic"
proof -
  have p: "process_state (small_fs 3) 0 (\<lambda>_. 0)" "s_inum (itable (small_fs 3) ! 0) = 3" "disk (small_fs 3) = small_disk"
    using small_good [of 3] by simp_all (simp add: small_fs_def)
  have a: "allowed (\<lambda>_ _. True) (small_fs 3) 0 [''/a/b'', ''/a'']" by (rule small_good(3)) simp
  show ?thesis
    by (rule stale_parent_panics [OF p(1) a p(2) [symmetric], of 2])
      (auto simp: p(3) small_ents small_types root_inode_number_def root_names_def a_names_def b_names_def dot_names_def split: if_splits)
qed

end
