(* ===== verification/Kopen.thy ===== *)
theory Kopen
  imports Kcalls Kdesc
begin

text \<open>
  \<open>open\<close> of \<^verbatim>\<open>src/kernel/traps/sysfile.zig\<close> on the inodes: the reference that the new file keeps, and the error handlers.  Whether the file table and the descriptors of the process have room are the arguments
  \<open>file_free\<close> and \<open>fd_free\<close>; what happens to files and descriptors is in \<^verbatim>\<open>Kfile\<close> and \<^verbatim>\<open>Kdesc\<close>.  The theorems show that \<open>open\<close> keeps exactly one reference if it succeeds and none if it fails, except when there is no free
  descriptor: then two handlers put the inode, and the kernel panics.
\<close>

datatype open_error = InvalidOpenMode | InvalidPath | CreateFailed call_error | OpenDirWithoutOnlyRead | InvalidDeviceMajor | FailedAllocFile | NoDescriptor

text \<open>The inode, locked.\<close>

definition open_inode :: "(nat \<Rightarrow> nat \<Rightarrow> bool) \<Rightarrow> (nat \<Rightarrow> byte) \<Rightarrow> nat \<Rightarrow> string \<Rightarrow> nat \<Rightarrow> fs \<Rightarrow> (open_error + nat) fres" where
  "open_inode gb pad cwd path mode s =
     (if open_create mode
      then fbind (create gb pad cwd path IFile (0, 0) s) (\<lambda>r s. Done (case r of Inl e \<Rightarrow> Inl (CreateFailed e) | Inr i \<Rightarrow> Inr i) s)
      else fbind (resolvePath gb cwd path s) (\<lambda>r s.
        case r of
          None \<Rightarrow> Done (Inl InvalidPath) s
        | Some i \<Rightarrow>
            fbind (lock i s) (\<lambda>_ s.
              if d_type (s_copy (itable s ! i)) = IDirectory \<and> open_access mode \<noteq> 0
              then fbind (releasePut i s) (\<lambda>_ s. Done (Inl OpenDirWithoutOnlyRead) s)
              else Done (Inr i) s)))"

text \<open>Without a descriptor the file is closed, which puts the inode, the inode is released, and it is put again.\<close>

definition open_inode_file :: "(nat \<Rightarrow> nat \<Rightarrow> bool) \<Rightarrow> (nat \<Rightarrow> byte) \<Rightarrow> nat \<Rightarrow> string \<Rightarrow> nat \<Rightarrow> bool \<Rightarrow> bool \<Rightarrow> fs \<Rightarrow> (open_error + nat) fres" where
  "open_inode_file gb pad cwd path mode file_free fd_free s =
     (if \<not> open_mode_ok mode then Done (Inl InvalidOpenMode) s
      else fbind (open_inode gb pad cwd path mode s) (\<lambda>r s.
        case r of
          Inl e \<Rightarrow> Done (Inl e) s
        | Inr i \<Rightarrow>
            let di = s_copy (itable s ! i) in
            if d_type di = IDevice \<and> fst (d_device di) \<ge> major_count
            then fbind (releasePut i s) (\<lambda>_ s. Done (Inl InvalidDeviceMajor) s)
            else if \<not> file_free then fbind (releasePut i s) (\<lambda>_ s. Done (Inl FailedAllocFile) s)
            else let s = (if open_trunc mode \<and> d_type di = IFile then inode_trunc i s else s) in
              if \<not> fd_free then fbind (put i s) (\<lambda>_ s. fbind (releasePut i s) (\<lambda>_ s. Done (Inl NoDescriptor) s))
              else fbind (release i s) (\<lambda>_ s. Done (Inr i) s)))"

lemma trunc_ok:
  assumes ok: "disk_ok gb nn D" and n: "d_type (D n) = IFile"
  shows "disk_ok gb nn (D(n := (D n)\<lparr>d_data := x\<rparr>))" "refs_ok R D \<Longrightarrow> refs_ok R (D(n := (D n)\<lparr>d_data := x\<rparr>))"
proof -
  let ?D = "D(n := (D n)\<lparr>d_data := x\<rparr>)"
  have lv: "live (tree_of ?D) m \<longleftrightarrow> live (tree_of D) m" "livedir (tree_of ?D) m \<longleftrightarrow> livedir (tree_of D) m" for m by (simp_all add: live_def livedir_def)
  have nd: "livedir (tree_of D) m \<Longrightarrow> m \<noteq> n" for m using n by (auto simp: livedir_def)
  have "tree_inv (tree_of ?D)" by (rule tree_inv_live [OF disk_okD(1) [OF ok]]) (use nd in \<open>simp_all add: lv\<close>)
  then show "disk_ok gb nn ?D"
    by (rule disk_okI [OF ok]) (use n nd in \<open>auto simp: lv split: if_splits\<close>)
  show "refs_ok R D \<Longrightarrow> refs_ok R ?D" by (simp add: refs_ok_def)
qed


lemma open_inode_spec:
  assumes h: "holding s R {} D" and c: "slot_of s c w" "0 < R w" "starts_live (tree_of D) w path" and ok: "disk_ok gb (ninodes s) D" and rf: "refs_ok R D" and room: "room R 3"
    and mx: "\<And>n. d_link (D n) < max_link_count" and fair: "open_create mode \<longrightarrow> \<not> self_named D w path"
  shows "\<exists>r s' D'. open_inode gb pad c path mode s = Done r s' \<and> keeps s s' R \<and> disk_ok gb (ninodes s) D' \<and> refs_ok R D' \<and>
    (case r of Inl _ \<Rightarrow> holding s' R {} D'
     | Inr i \<Rightarrow> \<exists>k. slot_of s' i k \<and> live (tree_of D') k \<and> holding s' (inc k R) {k} D' \<and>
         (\<not> open_create mode \<longrightarrow> D' = D \<and> path_target False (tree_of D) w path = Some k)) \<and>
    (\<not> open_create mode \<longrightarrow> (\<forall>e. r = Inl e \<longrightarrow> path_target False (tree_of D) w path = None \<or>
       (\<exists>k. path_target False (tree_of D) w path = Some k \<and> d_type (D k) = IDirectory \<and> open_access mode \<noteq> 0)))"
proof (cases "open_create mode")
  case True
  have "create_outcome gb IFile (path_target True (tree_of D) w path) (last (components path)) R D s (create gb pad c path IFile (0, 0) s)"
    using create_spec [OF h c ok rf room mx, of IFile pad "(0, 0)"] fair True unfolding self_named_def by simp
  then consider e s' D' where "create gb pad c path IFile (0, 0) s = Done (Inl e) s'" "holding s' R {} D'" "keeps s s' R" "disk_ok gb (ninodes s) D'" "same_used D D'"
    | i k d s' D' where "create gb pad c path IFile (0, 0) s = Done (Inr i) s'" "path_target True (tree_of D) w path = Some d" "slot_of s' i k"
      "holding s' (inc k R) {k} D'" "keeps s s' R" "disk_ok gb (ninodes s) D'"
      "dir_map (d_data (D d)) (last (components path)) = Some k \<and> D' = D \<or>
       d_type (D k) = IFree \<and> (\<forall>n. n \<noteq> k \<longrightarrow> d_type (D' n) = d_type (D n)) \<and> tree_of D' = tree_create IFile d (last (components path)) k (tree_of D)"
    unfolding create_outcome_def by blast
  then show ?thesis
  proof cases
    case 1
    then show ?thesis using True same_used_refs [OF 1(5) rf] by (intro exI [of _ "Inl (CreateFailed e)"] exI [of _ s'] exI [of _ D']) (simp add: open_inode_def)
  next
    case 2
    have ld: "livedir (tree_of D) d" using path_target_live [OF disk_ok_walkable [OF ok] c(3) 2(2)] by simp
    have lk: "live (tree_of D') k"
      using 2(7)
    proof
      assume "dir_map (d_data (D d)) (last (components path)) = Some k \<and> D' = D"
      then show ?thesis using tree_invD(7) [OF disk_okD(1) [OF ok] ld, of "last (components path)" k] by simp
    next
      assume a: "d_type (D k) = IFree \<and> (\<forall>n. n \<noteq> k \<longrightarrow> d_type (D' n) = d_type (D n)) \<and> tree_of D' = tree_create IFile d (last (components path)) k (tree_of D)"
      then have "d \<noteq> k" using ld by (auto simp: livedir_def)
      then show ?thesis using a by (simp add: live_def tree_create_def del: tree_of_simps)
    qed
    have "refs_ok R D'" using rf 2(7) lk unfolding refs_ok_def live_def by (metis tree_of_simps(1))
    then show ?thesis using True 2 lk by (intro exI [of _ "Inr i"] exI [of _ s'] exI [of _ D']) (auto simp: open_inode_def)
  qed
next
  case no: False
  note wk = disk_ok_walkable [OF ok]
  note P = resolvePath_spec [OF h c(1,3) wk room_less [OF room]]
  show ?thesis
  proof (cases "path_target False (tree_of D) w path")
    case None
    then obtain s1 where "resolvePath gb c path s = Done None s1" "holding s1 R {} D" "keeps s s1 R" using P by auto
    then show ?thesis using None ok rf no by (intro exI [of _ "Inl InvalidPath"] exI [of _ s1] exI [of _ D]) (simp add: open_inode_def)
  next
    case (Some k)
    then have lk: "live (tree_of D) k" using path_target_live [OF wk c(3) Some] by simp
    then have ty: "d_type (D k) \<noteq> IFree" "0 < d_link (D k)" by (simp_all add: live_def)
    obtain i s1 where s1: "resolvePath gb c path s = Done (Some i) s1" "slot_of s1 i k" "holding s1 (inc k R) {} D" "keeps s s1 R" using P Some by auto
    obtain s2 where s2: "lock i s1 = Done () s2" "slot_of s2 i k" "holding s2 (inc k R) {k} D" "keeps s1 s2 (inc k R)" using h_lock [OF s1(3,2)] ty(1) by auto
    have k02: "keeps s s2 R" using keeps_trans [OF s1(4) keeps_weaken [OF s2(4)]] by simp
    have cp: "s_copy (itable s2 ! i) = D k" using h_copy [OF s2(3,2)] by simp
    show ?thesis
    proof (cases "d_type (D k) = IDirectory \<and> open_access mode \<noteq> 0")
      case True
      obtain s3 where "releasePut i s2 = Done () s3" "holding s3 R {} D" "keeps s2 s3 R" using h_finish [OF s2(3,2) ty(2)] by blast
      then show ?thesis using no s1 s2 cp True ok rf keeps_trans [OF k02] Some
        by (intro exI [of _ "Inl OpenDirWithoutOnlyRead"] exI [of _ s3] exI [of _ D]) (auto simp: open_inode_def)
    next
      case False
      then show ?thesis using no s1 s2 cp ok rf k02 lk Some by (intro exI [of _ "Inr i"] exI [of _ s2] exI [of _ D]) (auto simp: open_inode_def)
    qed
  qed
qed


text \<open>Putting a locked inode with its only reference, and releasing it then.\<close>

lemma double_put_panics:
  assumes h: "holding s (inc k R) {k} D" and i: "slot_of s i k" and z: "R k = 0" and l: "0 < d_link (D k)"
  shows "fbind (put i s) (\<lambda>_ s. fbind (releasePut i s) f) = Panic"
proof -
  note S = slot_ofD [OF holdingD(1) [OF h] i]
  have k: "s_ref (itable s ! i) = 1" "s_locked (itable s ! i)" "s_copy (itable s ! i) = D k" "i < length (itable s)"
    using S h_copy [OF h i] holdingD [OF h] z by (simp_all add: table_ok_def)
  have "put i s = Done () (set_slot i ((itable s ! i)\<lparr>s_ref := 0\<rparr>) s)" using k l by (simp add: put_def drop_ref_def Let_def)
  moreover have "releasePut i (set_slot i ((itable s ! i)\<lparr>s_ref := 0\<rparr>) s) = Panic" using k by (simp add: releasePut_def release_def Let_def set_slot_def)
  ultimately show ?thesis by simp
qed

lemma trunc_if:
  assumes h: "holding s R {k} D" and i: "slot_of s i k" and ok: "disk_ok gb nn D" and rf: "refs_ok R' D"
    and D': "D' = (if b \<and> d_type (D k) = IFile then D(k := (D k)\<lparr>d_data := inode_truncate (d_data (D k))\<rparr>) else D)"
    and s': "s' = (if b \<and> d_type (D k) = IFile then inode_trunc i s else s)"
  shows "slot_of s' i k" "holding s' R {k} D'" "keeps s s' R" "disk_ok gb nn D'" "refs_ok R' D'" "d_link (D' k) = d_link (D k)" "d_type (D' n) = d_type (D n)"
proof -
  show "slot_of s' i k" "holding s' R {k} D'" "keeps s s' R"
    using h_change [OF h i, of "\<lambda>di. di\<lparr>d_data := inode_truncate (d_data di)\<rparr>"] h i by (simp_all add: s' D' inode_trunc_def)
  show "disk_ok gb nn D'" "refs_ok R' D'" using trunc_ok [OF ok] ok rf by (simp_all add: D')
  show "d_link (D' k) = d_link (D k)" "d_type (D' n) = d_type (D n)" by (simp_all add: D')
qed

text \<open>
  C21.  \<open>open\<close> keeps one reference to the inode that it opens, and none if it fails: the table and the disk are again in a good state, nothing is locked and no other reference has changed.  A free descriptor is
  assumed, and that the call does not create a name that leads to its own directory.
\<close>

theorem open_balanced:
  assumes "process_state s c R" and "allowed gb s c [path]" and "open_create mode \<longrightarrow> \<not> self_named (disk s) (s_inum (itable s ! c)) path"
  shows "\<exists>r s'. open_inode_file gb pad c path mode file_free True s = Done r s' \<and>
    (case r of Inl _ \<Rightarrow> process_state s' c R | Inr i \<Rightarrow> \<exists>k. slot_of s' i k \<and> live (tree_of (disk s')) k \<and> process_state s' c (inc k R))"
proof (cases "open_mode_ok mode")
  case False
  then show ?thesis using assms(1) by (intro exI [of _ "Inl InvalidOpenMode"] exI [of _ s]) (simp add: open_inode_file_def)
next
  case mode: True
  obtain w where w: "slot_of s c w" "fs_good gb s (inc w R)" "fs_ready s (inc w R)" "starts_live (tree_of (disk s)) w path"
    using process_stateD [OF assms(1,2)] by auto
  let ?R = "inc w R"
  have i: "s_inum (itable s ! c) = w" using w(1) by (rule slot_inum)
  have h: "holding s ?R {} (disk s)" "disk_ok gb (ninodes s) (disk s)" "refs_ok ?R (disk s)" using w(2) by (simp_all add: fs_good_def)
  have rd: "room ?R 3" "\<And>n. d_link (disk s n) < max_link_count" using w(3) by (simp_all add: fs_ready_def)
  have fr: "open_create mode \<longrightarrow> \<not> self_named (disk s) w path" using assms(3) i by simp
  have good: "process_state s' c R'" if "holding s' (inc w R') {} D'" "keeps s s' ?R" "disk_ok gb (ninodes s) D'" "refs_ok (inc w R') D'" for s' R' D'
  proof -
    have "fs_good gb s' (inc w R')" using that by (simp add: fs_good_def holding_def keeps_def)
    moreover have "slot_of s' c w" using keeps_slot [OF that(2) w(1)] by simp
    ultimately show ?thesis using fs_good_blocks(2) by (auto simp: process_state_def)
  qed
  obtain r s1 D1 where o: "open_inode gb pad c path mode s = Done r s1" "keeps s s1 ?R" "disk_ok gb (ninodes s) D1" "refs_ok ?R D1"
    and c1: "case r of Inl _ \<Rightarrow> holding s1 ?R {} D1
     | Inr i \<Rightarrow> \<exists>k. slot_of s1 i k \<and> live (tree_of D1) k \<and> holding s1 (inc k ?R) {k} D1 \<and> (\<not> open_create mode \<longrightarrow> D1 = disk s \<and> path_target False (tree_of (disk s)) w path = Some k)"
    using open_inode_spec [OF h(1) w(1) _ w(4) h(2,3) rd fr, of pad] by auto
  show ?thesis
  proof (cases r)
    case (Inl e)
    then show ?thesis using mode o(1) good [OF _ o(2-4)] c1 by (intro exI [of _ "Inl e"] exI [of _ s1]) (simp add: open_inode_file_def)
  next
    case (Inr j)
    then obtain k where k: "slot_of s1 j k" "live (tree_of D1) k" "holding s1 (inc k ?R) {k} D1" using c1 by auto
    have lk: "0 < d_link (D1 k)" "d_type (D1 k) \<noteq> IFree" using k(2) by (simp_all add: live_def)
    have cp: "s_copy (itable s1 ! j) = D1 k" using h_copy [OF k(3,1)] by simp
    obtain s2 where s2: "releasePut j s1 = Done () s2" "holding s2 ?R {} D1" "keeps s1 s2 ?R" using h_finish [OF k(3,1) lk(1)] by blast
    have again: "process_state s2 c R" by (rule good [OF s2(2) keeps_trans [OF o(2) s2(3)] o(3,4)])
    consider "d_type (D1 k) = IDevice" "fst (d_device (D1 k)) \<ge> major_count" | "\<not> (d_type (D1 k) = IDevice \<and> fst (d_device (D1 k)) \<ge> major_count)" "\<not> file_free"
      | "\<not> (d_type (D1 k) = IDevice \<and> fst (d_device (D1 k)) \<ge> major_count)" file_free by blast
    then show ?thesis
    proof cases
      case 1
      then show ?thesis using mode o(1) Inr cp s2(1) again by (intro exI [of _ "Inl InvalidDeviceMajor"] exI [of _ s2]) (simp add: open_inode_file_def)
    next
      case 2
      then show ?thesis using mode o(1) Inr cp s2(1) again by (intro exI [of _ "Inl FailedAllocFile"] exI [of _ s2]) (auto simp: open_inode_file_def Let_def)
    next
      case 3
      define st where "st = (if open_trunc mode \<and> d_type (D1 k) = IFile then inode_trunc j s1 else s1)"
      define D2 where "D2 = (if open_trunc mode \<and> d_type (D1 k) = IFile then D1(k := (D1 k)\<lparr>d_data := inode_truncate (d_data (D1 k))\<rparr>) else D1)"
      have t: "slot_of st j k" "holding st (inc k ?R) {k} D2" "keeps s1 st (inc k ?R)" "disk_ok gb (ninodes s) D2" "refs_ok ?R D2" "d_link (D2 k) = d_link (D1 k)"
          "d_type (D2 k) = d_type (D1 k)"
        using trunc_if [OF k(3,1) o(3,4) D2_def st_def] by blast+
      obtain s3 where s3: "release j st = Done () s3" "slot_of s3 j k" "holding s3 (inc k ?R) {} D2" "keeps st s3 (inc k ?R)" using h_release [OF t(2,1)] by auto
      have ks: "keeps s s3 ?R" using keeps_trans [OF o(2) keeps_weaken [OF keeps_trans [OF t(3) s3(4)]]] by simp
      have h3: "holding s3 (inc w (inc k R)) {} D2" using s3(3) by (simp add: inc_comm)
      have "refs_ok (inc w (inc k R)) D2" using t(5,7) lk(2) by (auto simp: refs_ok_def inc_def split: if_splits)
      then have "process_state s3 c (inc k R)" using good [OF h3 ks t(4)] by simp
      moreover have "live (tree_of (disk s3)) k" using t(6,7) lk holdingD(4) [OF h3] by (simp add: live_def)
      moreover have "open_inode_file gb pad c path mode file_free True s = Done (Inr j) s3"
        using mode o(1) Inr cp 3 s3(1) by (auto simp: open_inode_file_def Let_def st_def)
      ultimately show ?thesis using s3(2) by (intro exI [of _ "Inr j"] exI [of _ s3]) auto
    qed
  qed
qed


theorem open_balanced_witness:
  "\<exists>r s'. open_inode_file (\<lambda>_ _. True) (\<lambda>_. NUL) 0 ''/a/x'' 514 True True (small_fs 1) = Done r s' \<and>
    (case r of Inl _ \<Rightarrow> process_state s' 0 (\<lambda>_. 0) | Inr i \<Rightarrow> \<exists>k. slot_of s' i k \<and> live (tree_of (disk s')) k \<and> process_state s' 0 (inc k (\<lambda>_. 0)))"
proof -
  have p: "process_state (small_fs 1) 0 (\<lambda>_. 0)" "s_inum (itable (small_fs 1) ! 0) = 1" "disk (small_fs 1) = small_disk"
    using small_good [of 1] by simp_all (simp add: small_fs_def)
  have a: "allowed (\<lambda>_ _. True) (small_fs 1) 0 [''/a/x'']" by (rule small_good(3)) simp
  have f: "open_create 514 \<longrightarrow> \<not> self_named (disk (small_fs 1)) (s_inum (itable (small_fs 1) ! 0)) ''/a/x''" using p(2,3) small_fair by simp
  show ?thesis by (rule open_balanced [OF p(1) a f])
qed

text \<open>
  C25.  \<open>open\<close> panics when the process has no free descriptor and nobody else refers to the inode: closing the new file puts the inode, and the lock is then released without a reference.
\<close>

theorem open_without_descriptor_panics:
  assumes "process_state s c R" and "allowed gb s c [path]" and mode: "open_mode_ok mode" "\<not> open_create mode"
    and k: "path_target False (tree_of (disk s)) (s_inum (itable s ! c)) path = Some k" "irefs s k = 0" "d_type (disk s k) \<noteq> IDevice"
    and acc: "d_type (disk s k) = IDirectory \<longrightarrow> open_access mode = 0"
  shows "open_inode_file gb pad c path mode True False s = Panic"
proof -
  obtain w where w: "slot_of s c w" "fs_good gb s (inc w R)" "fs_ready s (inc w R)" "starts_live (tree_of (disk s)) w path"
    using process_stateD [OF assms(1,2)] by auto
  let ?R = "inc w R"
  have i: "s_inum (itable s ! c) = w" using w(1) by (rule slot_inum)
  have h: "holding s ?R {} (disk s)" "disk_ok gb (ninodes s) (disk s)" "refs_ok ?R (disk s)" using w(2) by (simp_all add: fs_good_def)
  have rd: "room ?R 3" "\<And>n. d_link (disk s n) < max_link_count" using w(3) by (simp_all add: fs_ready_def)
  have z: "?R k = 0" using k(2) holdingD(2) [OF h(1)] by simp
  obtain r s1 D1 where o: "open_inode gb pad c path mode s = Done r s1" "disk_ok gb (ninodes s) D1" "refs_ok ?R D1"
    and c1: "case r of Inl _ \<Rightarrow> holding s1 ?R {} D1
     | Inr i \<Rightarrow> \<exists>k. slot_of s1 i k \<and> live (tree_of D1) k \<and> holding s1 (inc k ?R) {k} D1 \<and> (\<not> open_create mode \<longrightarrow> D1 = disk s \<and> path_target False (tree_of (disk s)) w path = Some k)"
    and e: "\<forall>e. r = Inl e \<longrightarrow> path_target False (tree_of (disk s)) w path = None \<or>
       (\<exists>k. path_target False (tree_of (disk s)) w path = Some k \<and> d_type (disk s k) = IDirectory \<and> open_access mode \<noteq> 0)"
    using open_inode_spec [OF h(1) w(1) _ w(4) h(2,3) rd, of mode pad] mode(2) by auto
  obtain j where j: "r = Inr j" using e k(1) acc i by (cases r) auto
  then have s1: "slot_of s1 j k" "live (tree_of D1) k" "holding s1 (inc k ?R) {k} D1" "D1 = disk s" using c1 mode(2) k(1) i by auto
  have cp: "s_copy (itable s1 ! j) = D1 k" using h_copy [OF s1(3,1)] by simp
  note t = trunc_if [OF s1(3,1) o(2,3) refl refl, of "open_trunc mode"]
  have l: "0 < d_link (D1 k)" using s1(2) by (simp add: live_def)
  note P = double_put_panics [OF t(2,1) z, where f = "\<lambda>_ s. Done (Inl NoDescriptor) s"]
  show ?thesis using mode(1) o(1) j cp k(3) s1(4) P t(6) l by (simp add: open_inode_file_def Let_def)
qed

theorem open_without_descriptor_panics_witness:
  "open_inode_file (\<lambda>_ _. True) (\<lambda>_. NUL) 0 ''/a//b/'' 0 True False (small_fs 1) = Panic"
proof -
  have p: "process_state (small_fs 1) 0 (\<lambda>_. 0)" "s_inum (itable (small_fs 1) ! 0) = 1" "disk (small_fs 1) = small_disk"
    using small_good [of 1] by simp_all (simp add: small_fs_def)
  have a: "allowed (\<lambda>_ _. True) (small_fs 1) 0 [''/a//b/'']" by (rule small_good(3)) simp
  have "irefs (small_fs 1) 3 = 0" using holdingD(2) [OF small_holding [of 1]] by (simp add: inc_def)
  then show ?thesis using open_without_descriptor_panics [OF p(1) a, of 0 3 "\<lambda>_. NUL"] p(2,3) small_walks(1) small_types(1) [of 3]
    by (simp add: open_mode_ok_def open_access_def open_create_def)
qed

end
