(* ===== verification/Kpage.thy ===== *)
theory Kpage
  imports Prelude
begin

text \<open>
  Physical pages and page tables, \<^verbatim>\<open>src/kernel/memory/allocation.zig\<close>, \<^verbatim>\<open>pages.zig\<close> and \<^verbatim>\<open>virtual_memory.zig\<close>.  The memory is an array of pages of 4096 bytes; a page is named by its number, which is its address divided
  by 4096.  A page table is a page that is read as 512 entries of 8 bytes, three levels deep.  The list of free pages, which the code links through the pages themselves, is a list of numbers.  A panic is \<open>MPanic\<close>.

  The theorems show that a tree of tables is a map from the pages of an address space to entries: \<open>walk\<close> finds or makes the place of an entry without changing the map, \<open>map\<close> and \<open>unmap\<close> add and remove entries, no
  table page is shared, and no page is lost.
\<close>

subsection \<open>Entries\<close>

definition page_size :: nat where "page_size = 4096"
definition max_virtual_address :: nat where "max_virtual_address = 2 ^ (9 + 9 + 9 + 12 - 1)"
definition page_table_entries_per_page :: nat where "page_table_entries_per_page = page_size div 8"

text \<open>Read, write and execute.\<close>

type_synonym perms = "bool \<times> bool \<times> bool"

definition no_perms :: perms where "no_perms = (False, False, False)"

record pte =
  pte_valid :: bool
  pte_perms :: perms
  pte_user :: bool
  pte_flags :: "bool list"
  pte_ppn :: nat
  pte_reserved :: nat

text \<open>\<open>pte_flags\<close> are \<open>global\<close>, \<open>accessed\<close>, \<open>dirty\<close> and the two flags reserved for the supervisor.\<close>

definition no_pte :: pte where
  "no_pte = \<lparr>pte_valid = False, pte_perms = no_perms, pte_user = False, pte_flags = replicate 5 False, pte_ppn = 0, pte_reserved = 0\<rparr>"

definition isBranch :: "pte \<Rightarrow> bool" where
  "isBranch e \<longleftrightarrow> pte_perms e = no_perms"

definition fromAddress :: "nat \<Rightarrow> pte" where
  "fromAddress a = no_pte\<lparr>pte_ppn := a div page_size\<rparr>"

definition asAddress :: "pte \<Rightarrow> nat" where
  "asAddress e = pte_ppn e * page_size"

text \<open>The 64 bits of an entry, as a number.\<close>

definition encode_pte :: "pte \<Rightarrow> nat" where
  "encode_pte e = (case pte_perms e of (r, w, x) \<Rightarrow>
     horner_sum of_bool 2 ([pte_valid e, r, w, x, pte_user e] @ pte_flags e) + 2 ^ 10 * (pte_ppn e + 2 ^ 44 * pte_reserved e))"

definition decode_pte :: "nat \<Rightarrow> pte" where
  "decode_pte n = \<lparr>pte_valid = bit n 0, pte_perms = (bit n 1, bit n 2, bit n 3), pte_user = bit n 4, pte_flags = map (bit n) [5..<10],
     pte_ppn = take_bit 44 (drop_bit 10 n), pte_reserved = drop_bit 54 n\<rparr>"

definition pte_ok :: "pte \<Rightarrow> bool" where
  "pte_ok e \<longleftrightarrow> length (pte_flags e) = 5 \<and> pte_ppn e < 2 ^ 44 \<and> pte_reserved e < 2 ^ 10"

definition le_bytes :: "nat \<Rightarrow> nat \<Rightarrow> byte list" where
  "le_bytes k n = map (\<lambda>j. char_of (n div 256 ^ j)) [0..<k]"

definition of_le :: "byte list \<Rightarrow> nat" where
  "of_le bs = horner_sum of_char 256 bs"

lemma le_bytes_Suc: "le_bytes (Suc k) n = char_of n # le_bytes k (n div 256)"
  by (simp add: le_bytes_def upt_conv_Cons map_Suc_upt [symmetric] div_mult2_eq del: upt_Suc)

lemma of_le_bytes: "of_le (le_bytes k n) = n mod 256 ^ k"
proof (induction k arbitrary: n)
  case 0
  then show ?case by (simp add: of_le_def le_bytes_def)
next
  case (Suc k)
  have "of_le (le_bytes (Suc k) n) = n mod 256 + 256 * (n div 256 mod 256 ^ k)"
    using Suc [of "n div 256"] by (simp add: le_bytes_Suc of_le_def of_char_of take_bit_eq_mod)
  also have "\<dots> = n mod (256 * 256 ^ k)" by (simp add: mod_mult2_eq)
  finally show ?case by simp
qed

lemma decode_encode_pte:
  assumes "pte_ok e"
  shows "decode_pte (encode_pte e) = e" "encode_pte e < 2 ^ 64"
proof -
  obtain r w x where p: "pte_perms e = (r, w, x)" by (cases "pte_perms e")
  define fs where "fs = [pte_valid e, r, w, x, pte_user e] @ pte_flags e"
  define h where "h = (horner_sum of_bool 2 fs :: nat)"
  define m where "m = pte_ppn e + 2 ^ 44 * pte_reserved e"
  have l: "length fs = 10" using assms by (simp add: fs_def pte_ok_def)
  have h: "h < 2 ^ 10" using horner_sum_bound [of fs] l by (simp add: h_def)
  have n: "encode_pte e = h + 2 ^ 10 * m" by (simp add: encode_pte_def p h_def m_def fs_def)
  have t: "take_bit 10 (encode_pte e) = h" using h by (simp add: n take_bit_eq_mod)
  have d: "drop_bit 10 (encode_pte e) = m" using h by (simp add: n drop_bit_eq_div)
  have b: "bit (encode_pte e) k = fs ! k" if "k < 10" for k
  proof -
    have "bit (take_bit 10 (encode_pte e)) k = fs ! k" unfolding t h_def using that l by (simp add: bit_horner_sum_bit_iff)
    then show ?thesis using that by (simp add: bit_take_bit_iff)
  qed
  have ppn: "take_bit 44 m = pte_ppn e" using assms by (simp add: m_def pte_ok_def take_bit_eq_mod)
  have "drop_bit 44 m = pte_reserved e" using assms by (simp add: m_def pte_ok_def drop_bit_eq_div)
  then have res: "drop_bit 54 (encode_pte e) = pte_reserved e" using d drop_bit_drop_bit [of 44 10 "encode_pte e"] by simp
  have "map (bit (encode_pte e)) (map (\<lambda>i. i + 5) [0..<5]) = map ((!) (pte_flags e)) [0..<length (pte_flags e)]"
    using assms b by (auto simp: pte_ok_def fs_def nth_append)
  then have "map (bit (encode_pte e)) [5..<10] = pte_flags e" by (simp only: map_nth map_add_upt) simp
  then show "decode_pte (encode_pte e) = e"
    using b [of 0] b [of 1] b [of 2] b [of 3] b [of 4] d ppn res p by (simp add: decode_pte_def fs_def)
  have "m < 2 ^ 54" using assms by (simp add: m_def pte_ok_def)
  then show "encode_pte e < 2 ^ 64" using h by (simp add: n)
qed

subsection \<open>Pages\<close>

record phys =
  ram :: "nat \<Rightarrow> byte list"
  freelist :: "nat list"
  page_lo :: nat
  page_hi :: nat

datatype mem_error =
  OutOfMemory | InvalidVirtualAddress | CantMapZeroSize | AlreadyMappedPage | OutOfRange | NotValidPage | NotUserPage | RanOutOfSpace

datatype 'a mres = MOk 'a phys | MErr mem_error phys | MPanic

fun mbind :: "'a mres \<Rightarrow> ('a \<Rightarrow> phys \<Rightarrow> 'b mres) \<Rightarrow> 'b mres" where
  "mbind (MOk x s) f = f x s"
| "mbind (MErr e s) f = MErr e s"
| "mbind MPanic f = MPanic"

text \<open>\<open>freePage\<close> fails for an address that is not in the range of the allocator; every caller panics then.\<close>

definition freePage :: "nat \<Rightarrow> phys \<Rightarrow> unit mres" where
  "freePage p s =
     (if p < page_lo s \<or> page_hi s \<le> p then MPanic
      else MOk () (s\<lparr>ram := (ram s)(p := replicate page_size (CHR 0x01)), freelist := p # freelist s\<rparr>))"

text \<open>A new page, zeroed or filled with junk.\<close>

definition allocPage :: "bool \<Rightarrow> phys \<Rightarrow> (nat \<times> phys) option" where
  "allocPage zeroed s =
     (case freelist s of
        [] \<Rightarrow> None
      | p # ps \<Rightarrow> Some (p, s\<lparr>freelist := ps, ram := (ram s)(p := replicate page_size (if zeroed then NUL else CHR 0x05))\<rparr>))"

definition pageRoundDown :: "nat \<Rightarrow> nat" where "pageRoundDown v = v - v mod page_size"
definition pageRoundUp :: "nat \<Rightarrow> nat" where
  "pageRoundUp v = (if v mod page_size = 0 then v else pageRoundDown (v + page_size - 1))"

definition pageIndex :: "nat \<Rightarrow> nat \<Rightarrow> nat" where
  "pageIndex level va = va div 2 ^ (12 + 9 * level) mod 512"

definition coveringPages :: "nat \<Rightarrow> nat \<Rightarrow> nat" where
  "coveringPages va len = (pageRoundDown (va + (len - 1)) - pageRoundDown va) div page_size + 1"

subsection \<open>Page tables\<close>

text \<open>Entry \<open>i\<close> of the table in page \<open>t\<close>.\<close>

definition read_pte :: "phys \<Rightarrow> nat \<Rightarrow> nat \<Rightarrow> pte" where
  "read_pte s t i = decode_pte (of_le (segment (8 * i) (8 * i + 8) (ram s t)))"

definition write_pte :: "nat \<Rightarrow> nat \<Rightarrow> pte \<Rightarrow> phys \<Rightarrow> phys" where
  "write_pte t i e s = s\<lparr>ram := (ram s)(t := overlay (ram s t) (8 * i) (le_bytes 8 (encode_pte e)))\<rparr>"

text \<open>The table and the index of the entry of an address.\<close>

fun walk_from :: "nat \<Rightarrow> nat \<Rightarrow> nat \<Rightarrow> bool \<Rightarrow> phys \<Rightarrow> (nat \<times> nat) mres" where
  "walk_from 0 t va doAlloc s = MOk (t, pageIndex 0 va) s"
| "walk_from (Suc level) t va doAlloc s =
     (let i = pageIndex (Suc level) va; e = read_pte s t i
      in if pte_valid e then walk_from level (pte_ppn e) va doAlloc s
         else if \<not> doAlloc then MErr InvalidVirtualAddress s
         else case allocPage True s of
             None \<Rightarrow> MErr OutOfMemory s
           | Some (p, s) \<Rightarrow> walk_from level p va doAlloc (write_pte t i ((fromAddress (p * page_size))\<lparr>pte_valid := True\<rparr>) s))"

definition walk :: "nat \<Rightarrow> nat \<Rightarrow> bool \<Rightarrow> phys \<Rightarrow> (nat \<times> nat) mres" where
  "walk pgTable va doAlloc s = (if va \<ge> max_virtual_address then MPanic else walk_from 2 pgTable va doAlloc s)"

fun map_loop :: "nat \<Rightarrow> nat \<Rightarrow> nat \<Rightarrow> perms \<Rightarrow> bool \<Rightarrow> nat list \<Rightarrow> phys \<Rightarrow> unit mres" where
  "map_loop pgTable va pa perms user [] s = MOk () s"
| "map_loop pgTable va pa perms user (i # is) s =
     (let offset = i * page_size in
      mbind (walk pgTable (va + offset) True s) (\<lambda>(t, j) s.
        if pte_valid (read_pte s t j) then MErr AlreadyMappedPage s
        else map_loop pgTable va pa perms user is
               (write_pte t j ((fromAddress (pa + offset))\<lparr>pte_perms := perms, pte_user := user, pte_valid := True\<rparr>) s)))"

definition vm_map :: "nat \<Rightarrow> nat \<Rightarrow> nat \<Rightarrow> nat \<Rightarrow> perms \<Rightarrow> bool \<Rightarrow> phys \<Rightarrow> unit mres" where
  "vm_map pgTable va pa sz perms user s =
     (if sz = 0 then MErr CantMapZeroSize s else map_loop pgTable va pa perms user [0..<coveringPages va sz] s)"

fun unmap_loop :: "nat \<Rightarrow> nat \<Rightarrow> bool \<Rightarrow> nat list \<Rightarrow> phys \<Rightarrow> unit mres" where
  "unmap_loop pgTable va doFree [] s = MOk () s"
| "unmap_loop pgTable va doFree (i # is) s =
     (case walk pgTable (va + page_size * i) False s of
        MPanic \<Rightarrow> MPanic
      | MErr _ _ \<Rightarrow> MPanic
      | MOk (t, j) s \<Rightarrow>
          let e = read_pte s t j in
          if \<not> pte_valid e then MPanic
          else if isBranch e then MPanic
          else mbind (if doFree then freePage (pte_ppn e) s else MOk () s) (\<lambda>_ s.
                 unmap_loop pgTable va doFree is (write_pte t j no_pte s)))"

definition vm_unmap :: "nat \<Rightarrow> nat \<Rightarrow> nat \<Rightarrow> bool \<Rightarrow> phys \<Rightarrow> unit mres" where
  "vm_unmap pgTable va n doFree s = (if va mod page_size \<noteq> 0 then MPanic else unmap_loop pgTable va doFree [0..<n] s)"

text \<open>The recursion is bounded: \<open>depth\<close> is larger than the number of levels.\<close>

fun freeWalk :: "nat \<Rightarrow> nat \<Rightarrow> phys \<Rightarrow> unit mres"
  and free_entries :: "nat \<Rightarrow> nat \<Rightarrow> nat list \<Rightarrow> phys \<Rightarrow> unit mres" where
  "freeWalk 0 t s = MPanic"
| "freeWalk (Suc depth) t s = mbind (free_entries depth t [0..<page_table_entries_per_page] s) (\<lambda>_ s. freePage t s)"
| "free_entries depth t [] s = MOk () s"
| "free_entries depth t (i # is) s =
     (let e = read_pte s t i in
      if \<not> pte_valid e then free_entries depth t is s
      else if isBranch e then mbind (freeWalk depth (pte_ppn e) s) (\<lambda>_ s. free_entries depth t is (write_pte t i no_pte s))
      else MPanic)"

subsection \<open>Reading back\<close>

definition sized :: "phys \<Rightarrow> bool" where
  "sized s \<longleftrightarrow> (\<forall>p. length (ram s p) = page_size)"

lemma length_le_bytes [simp]: "length (le_bytes k n) = k"
  by (simp add: le_bytes_def)

lemma segment_overlay:
  assumes "i + length ys \<le> length xs"
  shows "segment i (i + length ys) (overlay xs i ys) = ys"
    and "k + m \<le> i \<or> i + length ys \<le> k \<Longrightarrow> k + m \<le> length xs \<Longrightarrow> segment k (k + m) (overlay xs i ys) = segment k (k + m) xs"
  using assms by (auto intro!: nth_equalityI simp: segment_simps nth_overlay)

lemma write_pte_sized: "sized s \<Longrightarrow> i < 512 \<Longrightarrow> sized (write_pte t i e s)"
  by (simp add: sized_def write_pte_def page_size_def)

lemma read_write_pte:
  assumes "sized s" and "i < 512" and "j < 512" and "pte_ok e"
  shows "read_pte (write_pte t i e s) t' j = (if t' = t \<and> j = i then e else read_pte s t' j)"
proof -
  have l: "length (ram s t) = 4096" using assms(1) by (simp add: sized_def page_size_def)
  have "segment (8 * i) (8 * i + 8) (overlay (ram s t) (8 * i) (le_bytes 8 (encode_pte e))) = le_bytes 8 (encode_pte e)"
    using segment_overlay(1) [of "8 * i" "le_bytes 8 (encode_pte e)" "ram s t"] l assms(2) by simp
  moreover have "segment (8 * j) (8 * j + 8) (overlay (ram s t) (8 * i) (le_bytes 8 (encode_pte e))) = segment (8 * j) (8 * j + 8) (ram s t)" if "j \<noteq> i"
  proof -
    have "8 * j + 8 \<le> 8 * i \<or> 8 * i + 8 \<le> 8 * j" using that by linarith
    then show ?thesis using segment_overlay(2) [of "8 * i" "le_bytes 8 (encode_pte e)" "ram s t" "8 * j" 8] l assms(2,3) by simp
  qed
  ultimately show ?thesis
    using decode_encode_pte [OF assms(4)] by (auto simp: read_pte_def write_pte_def of_le_bytes)
qed

lemma read_zero: "j < 512 \<Longrightarrow> ram s t = replicate page_size NUL \<Longrightarrow> read_pte s t j = no_pte"
proof -
  assume j: "j < 512" "ram s t = replicate page_size NUL"
  have "segment (8 * j) (8 * j + 8) (replicate page_size NUL) = replicate 8 NUL"
    using j(1) by (intro nth_equalityI) (auto simp: segment_simps page_size_def)
  moreover have "of_le (replicate 8 NUL) = 0" by (simp add: of_le_def numeral_eq_Suc)
  moreover have "decode_pte 0 = no_pte" by (simp add: decode_pte_def no_pte_def no_perms_def upt_rec eval_nat_numeral)
  ultimately show ?thesis using j(2) by (simp add: read_pte_def)
qed

lemma no_pte_valid [simp]: "\<not> pte_valid no_pte"
  by (simp add: no_pte_def)

lemma pte_ok_simps [simp]:
  "pte_ok no_pte" "pte_ok (fromAddress a) \<longleftrightarrow> a div page_size < 2 ^ 44" "pte_ok (e\<lparr>pte_valid := b\<rparr>) \<longleftrightarrow> pte_ok e"
  "pte_ok (e\<lparr>pte_perms := p\<rparr>) \<longleftrightarrow> pte_ok e" "pte_ok (e\<lparr>pte_user := b\<rparr>) \<longleftrightarrow> pte_ok e"
  by (simp_all add: pte_ok_def no_pte_def fromAddress_def)

subsection \<open>A tree of tables\<close>

text \<open>\<open>tab s r d k\<close> is the table number \<open>k\<close> of depth \<open>d\<close> below the root \<open>r\<close>; \<open>entry s r v\<close> is the entry of the virtual page \<open>v\<close>.\<close>

definition child :: "phys \<Rightarrow> nat \<Rightarrow> nat \<Rightarrow> nat option" where
  "child s t i = (if pte_valid (read_pte s t i) then Some (pte_ppn (read_pte s t i)) else None)"

fun tab :: "phys \<Rightarrow> nat \<Rightarrow> nat \<Rightarrow> nat \<Rightarrow> nat option" where
  "tab s r 0 k = Some r"
| "tab s r (Suc d) k = (case tab s r d (k div 512) of None \<Rightarrow> None | Some t \<Rightarrow> child s t (k mod 512))"

declare tab.simps(2) [simp del]

definition entry :: "phys \<Rightarrow> nat \<Rightarrow> nat \<Rightarrow> pte option" where
  "entry s r v = (case tab s r 2 (v div 512) of
     None \<Rightarrow> None | Some t \<Rightarrow> if pte_valid (read_pte s t (v mod 512)) then Some (read_pte s t (v mod 512)) else None)"

definition key :: "nat \<Rightarrow> nat \<Rightarrow> bool" where "key d k \<longleftrightarrow> d \<le> 2 \<and> k < 512 ^ d"

definition tables :: "phys \<Rightarrow> nat \<Rightarrow> nat set" where
  "tables s r = {t. \<exists>d k. key d k \<and> tab s r d k = Some t}"

text \<open>No table is found in two places; the entries of inner tables are branches, those of the last level are leaves.\<close>

definition tree :: "phys \<Rightarrow> nat \<Rightarrow> bool" where
  "tree s r \<longleftrightarrow> (\<forall>d k d' k' t. key d k \<and> key d' k' \<and> tab s r d k = Some t \<and> tab s r d' k' = Some t \<longrightarrow> d = d' \<and> k = k') \<and>
     (\<forall>d k t i. key d k \<and> tab s r d k = Some t \<and> i < 512 \<and> pte_valid (read_pte s t i) \<longrightarrow> (isBranch (read_pte s t i) \<longleftrightarrow> d < 2))"

lemma key_Suc: "key (Suc d) k \<longleftrightarrow> d < 2 \<and> key d (k div 512)"
  by (auto simp: key_def less_mult_imp_div_less div_less_iff_less_mult mult.commute)

lemma key_down: "key d k \<Longrightarrow> d < 2 \<Longrightarrow> i < 512 \<Longrightarrow> key (Suc d) (k * 512 + i)"
  by (simp add: key_Suc)

lemma key_page: "v < 512 ^ 3 \<Longrightarrow> key 2 (v div 512)"
  by (simp add: key_def)

lemma tables_tab: "key d k \<Longrightarrow> tab s r d k = Some t \<Longrightarrow> t \<in> tables s r"
  by (auto simp: tables_def)

lemma tables_root: "r \<in> tables s r"
  using tables_tab [of 0 0 s r r] by (simp add: key_def)

lemma treeD:
  assumes "tree s r" and "key d k" and "tab s r d k = Some t"
  shows "key d' k' \<Longrightarrow> tab s r d' k' = Some t \<Longrightarrow> d' = d \<and> k' = k"
    and "i < 512 \<Longrightarrow> pte_valid (read_pte s t i) \<Longrightarrow> isBranch (read_pte s t i) \<longleftrightarrow> d < 2"
  using assms unfolding tree_def by blast+

text \<open>Only the tables matter.\<close>

lemma tab_frame:
  assumes "\<forall>t \<in> tables s r. ram s' t = ram s t"
  shows "key d k \<Longrightarrow> tab s' r d k = tab s r d k"
proof (induction d arbitrary: k)
  case (Suc d)
  then have k: "key d (k div 512)" by (simp add: key_Suc)
  show ?case
  proof (cases "tab s r d (k div 512)")
    case (Some t)
    then have "ram s' t = ram s t" using assms tables_tab [OF k Some] by simp
    then show ?thesis using Suc.IH [OF k] Some by (simp add: tab.simps(2) child_def read_pte_def)
  qed (use Suc.IH [OF k] in \<open>simp add: tab.simps(2)\<close>)
qed simp

lemma frame:
  assumes "\<forall>t \<in> tables s r. ram s' t = ram s t"
  shows "tables s' r = tables s r" "v < 512 ^ 3 \<Longrightarrow> entry s' r v = entry s r v" "tree s' r = tree s r"
proof -
  have t: "key d k \<Longrightarrow> tab s' r d k = tab s r d k" for d k by (rule tab_frame [OF assms])
  have rd: "key d k \<Longrightarrow> tab s r d k = Some t \<Longrightarrow> read_pte s' t i = read_pte s t i" for d k t i
    using assms tables_tab by (simp add: read_pte_def)
  show "tables s' r = tables s r" unfolding tables_def using t by (intro Collect_cong) metis
  show "v < 512 ^ 3 \<Longrightarrow> entry s' r v = entry s r v"
    using t [OF key_page] rd [OF key_page] by (simp add: entry_def split: option.split)
  have "tree s' r \<longleftrightarrow> (\<forall>d k d' k' t. key d k \<and> key d' k' \<and> tab s r d k = Some t \<and> tab s r d' k' = Some t \<longrightarrow> d = d' \<and> k = k') \<and>
     (\<forall>d k t i. key d k \<and> tab s r d k = Some t \<and> i < 512 \<and> pte_valid (read_pte s' t i) \<longrightarrow> (isBranch (read_pte s' t i) \<longleftrightarrow> d < 2))"
    using t unfolding tree_def by (smt (verit, best))
  then show "tree s' r = tree s r" using rd unfolding tree_def by (smt (verit, best))
qed

text \<open>A new table: nothing else changes.\<close>

lemma tab_add:
  assumes s: "sized s" and tr: "tree s r" and k: "key d k" "d < 2" "tab s r d k = Some t" and i: "i < 512" "\<not> pte_valid (read_pte s t i)"
    and p: "p \<notin> tables s r" "p < 2 ^ 44" "ram s p = replicate page_size NUL"
    and s': "s' = write_pte t i ((fromAddress (p * page_size))\<lparr>pte_valid := True\<rparr>) s"
  shows "key d' k' \<Longrightarrow> tab s' r d' k' = (if d' = Suc d \<and> k' = k * 512 + i then Some p else tab s r d' k')"
proof (induction d' arbitrary: k')
  case (Suc d')
  have pt: "p \<noteq> t" using tables_tab [OF k(1,3)] p(1) by blast
  have rd: "read_pte s' t' j = (if t' = t \<and> j = i then (fromAddress (p * page_size))\<lparr>pte_valid := True\<rparr> else read_pte s t' j)" if "j < 512" for t' j
    unfolding s' by (rule read_write_pte [OF s i(1) that]) (use p(2) in \<open>simp add: page_size_def\<close>)
  have ch: "child s' t' j = (if t' = t \<and> j = i then Some p else child s t' j)" if "j < 512" for t' j
    using rd [OF that, of t'] by (cases "t' = t \<and> j = i") (auto simp: child_def fromAddress_def page_size_def)
  have zero: "child s p j = None" if "j < 512" for j using read_zero [OF that p(3)] by (simp add: child_def no_pte_def)
  have k': "key d' (k' div 512)" using Suc.prems by (simp add: key_Suc)
  note IH = Suc.IH [OF k']
  consider (new) "d' = Suc d" "k' div 512 = k * 512 + i" | (none) "\<not> (d' = Suc d \<and> k' div 512 = k * 512 + i)" "tab s r d' (k' div 512) = None"
    | (some) t' where "\<not> (d' = Suc d \<and> k' div 512 = k * 512 + i)" "tab s r d' (k' div 512) = Some t'" by blast
  then show ?case
  proof cases
    case new
    then have "tab s r d' (k' div 512) = None" using k(3) i by (simp add: tab.simps(2) child_def)
    then show ?thesis using IH new zero pt ch by (simp add: tab.simps(2))
  next
    case none
    have "\<not> (d' = d \<and> k' = k * 512 + i)" using none k(3) i(1) by auto
    then show ?thesis using IH none by (auto simp: tab.simps(2))
  next
    case some
    have "t' = t \<longleftrightarrow> d' = d \<and> k' div 512 = k" using treeD(1) [OF tr k(1,3) k'] some(2) k(3) by auto
    moreover have "k' = k * 512 + i \<longleftrightarrow> k' div 512 = k \<and> k' mod 512 = i" using i(1) by auto
    ultimately show ?thesis using IH some ch by (auto simp: tab.simps(2))
  qed
qed simp


lemma add_table:
  assumes s: "sized s" and tr: "tree s r" and k: "key d k" "d < 2" "tab s r d k = Some t" and i: "i < 512" "\<not> pte_valid (read_pte s t i)"
    and p: "p \<notin> tables s r" "p < 2 ^ 44" "ram s p = replicate page_size NUL"
    and s': "s' = write_pte t i ((fromAddress (p * page_size))\<lparr>pte_valid := True\<rparr>) s"
  shows "tables s' r = insert p (tables s r)" "tree s' r" "v < 512 ^ 3 \<Longrightarrow> entry s' r v = entry s r v" "sized s'"
    "tab s' r (Suc d) (k * 512 + i) = Some p"
proof -
  note T = tab_add [OF assms]
  have rd: "read_pte s' t' j = (if t' = t \<and> j = i then (fromAddress (p * page_size))\<lparr>pte_valid := True\<rparr> else read_pte s t' j)" if "j < 512" for t' j
    unfolding s' by (rule read_write_pte [OF s i(1) that]) (use p(2) in \<open>simp add: page_size_def\<close>)
  have new: "key (Suc d) (k * 512 + i)" by (rule key_down [OF k(1,2) i(1)])
  have old: "tab s r (Suc d) (k * 512 + i) = None" using k(3) i by (simp add: tab.simps(2) child_def)
  have pt: "p \<noteq> t" using tables_tab [OF k(1,3)] p(1) by blast
  have zero: "read_pte s p j = no_pte" if "j < 512" for j by (rule read_zero [OF that p(3)])
  show n: "tab s' r (Suc d) (k * 512 + i) = Some p" using T [OF new] by simp
  show "tables s' r = insert p (tables s r)"
  proof (intro set_eqI iffI)
    fix x assume "x \<in> tables s' r"
    then obtain d' k' where "key d' k'" "tab s' r d' k' = Some x" by (auto simp: tables_def)
    then show "x \<in> insert p (tables s r)" using T [of d' k'] tables_tab [of d' k' s r x] by (auto split: if_splits)
  next
    fix x assume "x \<in> insert p (tables s r)"
    then show "x \<in> tables s' r"
    proof
      assume "x = p"
      then show ?thesis using tables_tab [OF new n] by simp
    next
      assume "x \<in> tables s r"
      then obtain d' k' where x: "key d' k'" "tab s r d' k' = Some x" by (auto simp: tables_def)
      then have no: "\<not> (d' = Suc d \<and> k' = k * 512 + i)" using old by auto
      have "tab s' r d' k' = Some x" unfolding T [OF x(1)] if_not_P [OF no] by (rule x(2))
      then show ?thesis by (rule tables_tab [OF x(1)])
    qed
  qed
  have c: "d1 = Suc d \<and> k1 = k * 512 + i \<and> x = p \<or> x \<noteq> p \<and> tab s r d1 k1 = Some x" if "key d1 k1" "tab s' r d1 k1 = Some x" for d1 k1 x
    using T [OF that(1)] that tables_tab [OF that(1), of s r x] p(1) by (metis option.inject)
  show "tree s' r"
    unfolding tree_def
  proof (intro conjI allI impI)
    fix d1 k1 d2 k2 x assume "key d1 k1 \<and> key d2 k2 \<and> tab s' r d1 k1 = Some x \<and> tab s' r d2 k2 = Some x"
    then have a: "key d1 k1" "key d2 k2" "tab s' r d1 k1 = Some x" "tab s' r d2 k2 = Some x" by auto
    have "d1 = d2 \<and> k1 = k2" using c [OF a(1,3)] c [OF a(2,4)] treeD(1) [OF tr a(2) _ a(1)] by blast
    then show "d1 = d2" "k1 = k2" by simp_all
  next
    fix d1 k1 x j assume "key d1 k1 \<and> tab s' r d1 k1 = Some x \<and> j < 512 \<and> pte_valid (read_pte s' x j)"
    then have a: "key d1 k1" "tab s' r d1 k1 = Some x" "j < 512" "pte_valid (read_pte s' x j)" by auto
    show "isBranch (read_pte s' x j) \<longleftrightarrow> d1 < 2"
    proof (cases "d1 = Suc d \<and> k1 = k * 512 + i")
      case True
      then have "x = p" using c [OF a(1,2)] n old a(2) by auto
      then show ?thesis using a(3,4) rd [OF a(3), of p] pt zero [OF a(3)] by (simp add: no_pte_def)
    next
      case False
      then have x: "tab s r d1 k1 = Some x" using c [OF a(1,2)] by blast
      show ?thesis
      proof (cases "x = t \<and> j = i")
        case True
        then have "d1 = d" using treeD(1) [OF tr k(1,3) a(1)] x by simp
        then show ?thesis using True k(2) rd [OF i(1), of t] by (simp add: isBranch_def fromAddress_def no_pte_def)
      next
        case False
        then have "read_pte s' x j = read_pte s x j" using rd [OF a(3)] by auto
        then show ?thesis using treeD(2) [OF tr a(1) x a(3)] a(4) by simp
      qed
    qed
  qed
  show "entry s' r v = entry s r v" if v: "v < 512 ^ 3"
  proof (cases "Suc d = 2 \<and> v div 512 = k * 512 + i")
    case True
    then have "tab s' r 2 (v div 512) = Some p" "tab s r 2 (v div 512) = None" using n old by (simp_all add: numeral_2_eq_2)
    then show ?thesis using rd [of "v mod 512" p] pt zero [of "v mod 512"] by (simp add: entry_def no_pte_def)
  next
    case False
    then have e: "tab s' r 2 (v div 512) = tab s r 2 (v div 512)" using T [OF key_page [OF v]] by auto
    show ?thesis
    proof (cases "tab s r 2 (v div 512)")
      case (Some x)
      have "x \<noteq> t" using treeD(1) [OF tr k(1,3) key_page [OF v]] Some k(2) by auto
      then show ?thesis using e Some rd [of "v mod 512" x] by (simp add: entry_def)
    qed (simp add: entry_def e)
  qed
  show "sized s'" unfolding s' by (rule write_pte_sized [OF s i(1)])
qed

text \<open>Writing an entry of the last level changes the map in one place.\<close>

lemma write_entry:
  assumes s: "sized s" and tr: "tree s r" and v: "v < 512 ^ 3" and t: "tab s r 2 (v div 512) = Some t" and e: "pte_ok e" "pte_valid e \<Longrightarrow> \<not> isBranch e"
    and s': "s' = write_pte t (v mod 512) e s"
  shows "tables s' r = tables s r" "tree s' r" "sized s'"
    "u < 512 ^ 3 \<Longrightarrow> entry s' r u = (if u = v then if pte_valid e then Some e else None else entry s r u)"
    "key d k \<Longrightarrow> tab s' r d k = tab s r d k"
proof -
  note k = key_page [OF v]
  have rd: "read_pte s' t' j = (if t' = t \<and> j = v mod 512 then e else read_pte s t' j)" if "j < 512" for t' j
    unfolding s' using read_write_pte [OF s _ that e(1)] by simp
  have T: "key d k \<Longrightarrow> tab s' r d k = tab s r d k" for d k
  proof (induction d arbitrary: k)
    case (Suc d)
    then have k': "key d (k div 512)" "d < 2" by (simp_all add: key_Suc)
    have "child s' x (k mod 512) = child s x (k mod 512)" if "tab s r d (k div 512) = Some x" for x
    proof -
      have "x \<noteq> t" using treeD(1) [OF tr k t k'(1)] that k'(2) by auto
      then show ?thesis using rd [of "k mod 512" x] by (simp add: child_def)
    qed
    then show ?case using Suc.IH [OF k'(1)] by (simp add: tab.simps(2) split: option.split)
  qed simp
  then show "key d k \<Longrightarrow> tab s' r d k = tab s r d k" .
  show "tables s' r = tables s r" unfolding tables_def using T by (intro Collect_cong) metis
  show "sized s'" unfolding s' by (rule write_pte_sized [OF s]) simp
  show "tree s' r"
    unfolding tree_def
  proof (intro conjI allI impI)
    fix d1 k1 d2 k2 x assume "key d1 k1 \<and> key d2 k2 \<and> tab s' r d1 k1 = Some x \<and> tab s' r d2 k2 = Some x"
    then show "d1 = d2" "k1 = k2" using T treeD(1) [OF tr, of d1 k1 x d2 k2] by auto
  next
    fix d1 k1 x j assume a: "key d1 k1 \<and> tab s' r d1 k1 = Some x \<and> j < 512 \<and> pte_valid (read_pte s' x j)"
    then have x: "tab s r d1 k1 = Some x" using T by auto
    show "isBranch (read_pte s' x j) \<longleftrightarrow> d1 < 2"
    proof (cases "x = t \<and> j = v mod 512")
      case True
      then have "d1 = 2" using treeD(1) [OF tr k t, of d1 k1] a x by auto
      then show ?thesis using True a rd [of j x] e(2) by simp
    next
      case False
      then have "read_pte s' x j = read_pte s x j" using rd a by auto
      then show ?thesis using treeD(2) [OF tr _ x, of j] a by simp
    qed
  qed
  show "entry s' r u = (if u = v then if pte_valid e then Some e else None else entry s r u)" if u: "u < 512 ^ 3"
  proof -
    have eq: "tab s' r 2 (u div 512) = tab s r 2 (u div 512)" by (rule T [OF key_page [OF u]])
    show ?thesis
    proof (cases "tab s r 2 (u div 512)")
      case None
      then have "u \<noteq> v" using t by auto
      then show ?thesis using eq None by (simp add: entry_def)
    next
      case (Some x)
      have "x = t \<longleftrightarrow> u div 512 = v div 512" using treeD(1) [OF tr k t key_page [OF u]] Some t by auto
      moreover have "u = v \<longleftrightarrow> u div 512 = v div 512 \<and> u mod 512 = v mod 512" by (metis mult_div_mod_eq)
      ultimately show ?thesis using eq Some rd [of "u mod 512" x] by (auto simp: entry_def)
    qed
  qed
qed


subsection \<open>Walking\<close>

lemma pageIndex_page: "pageIndex l va = va div page_size div 512 ^ l mod 512"
proof -
  have "(2 :: nat) ^ (12 + 9 * l) = 4096 * 512 ^ l" by (simp add: power_add power_mult)
  then show ?thesis by (simp add: pageIndex_def page_size_def div_mult2_eq)
qed

lemma va_page: "va < max_virtual_address \<Longrightarrow> va div page_size < 512 ^ 3"
  by (simp add: max_virtual_address_def page_size_def less_mult_imp_div_less)

lemma walk_find:
  assumes "va < max_virtual_address"
  shows "walk r va False s = (case tab s r 2 (va div page_size div 512) of
     None \<Rightarrow> MErr InvalidVirtualAddress s | Some t \<Rightarrow> MOk (t, va div page_size mod 512) s)"
proof -
  have "va div page_size div 512 div 512 = va div page_size div 262144" for va by (simp add: div_mult2_eq [of "va div page_size" 512 512, symmetric])
  then show ?thesis using assms by (simp add: walk_def numeral_2_eq_2 pageIndex_page Let_def tab.simps(2) child_def)
qed

definition mem_ok :: "phys \<Rightarrow> bool" where
  "mem_ok s \<longleftrightarrow> sized s \<and> distinct (freelist s) \<and> (\<forall>p \<in> set (freelist s). page_lo s \<le> p \<and> p < page_hi s) \<and> page_hi s \<le> 2 ^ 44"

definition space :: "phys \<Rightarrow> nat \<Rightarrow> bool" where
  "space s r \<longleftrightarrow> tree s r \<and> (\<forall>t \<in> tables s r. page_lo s \<le> t \<and> t < page_hi s \<and> t \<notin> set (freelist s))"

text \<open>Some free pages have become tables, the map is the same.\<close>

definition grown :: "phys \<Rightarrow> phys \<Rightarrow> nat \<Rightarrow> bool" where
  "grown s s' r \<longleftrightarrow> mem_ok s' \<and> space s' r \<and> (\<forall>v < 512 ^ 3. entry s' r v = entry s r v) \<and>
     tables s' r \<union> set (freelist s') = tables s r \<union> set (freelist s) \<and> tables s r \<subseteq> tables s' r \<and>
     (\<forall>p. p \<notin> tables s r \<union> set (freelist s) \<longrightarrow> ram s' p = ram s p) \<and> page_lo s' = page_lo s \<and> page_hi s' = page_hi s"

lemma grown_refl: "mem_ok s \<Longrightarrow> space s r \<Longrightarrow> grown s s r"
  by (simp add: grown_def)

lemma grown_trans: "grown s s1 r \<Longrightarrow> grown s1 s2 r \<Longrightarrow> grown s s2 r"
  unfolding grown_def by (metis subset_trans)

lemma allocPage_ok:
  assumes "mem_ok s" and "allocPage z s = Some (p, s')"
  shows "freelist s = p # freelist s'" "ram s' = (ram s)(p := replicate page_size (if z then NUL else CHR 0x05))" "mem_ok s'"
    "page_lo s' = page_lo s" "page_hi s' = page_hi s" "page_lo s \<le> p" "p < page_hi s" "p < 2 ^ 44" "p \<notin> set (freelist s')"
  using assms by (auto simp: allocPage_def mem_ok_def sized_def split: list.splits)

lemma alloc_space:
  assumes "mem_ok s" and "space s r" and "allocPage z s = Some (p, s')"
  shows "space s' r" "tables s' r = tables s r" "v < 512 ^ 3 \<Longrightarrow> entry s' r v = entry s r v" "p \<notin> tables s r"
    "key d k \<Longrightarrow> tab s' r d k = tab s r d k"
proof -
  note A = allocPage_ok [OF assms(1,3)]
  show p: "p \<notin> tables s r" using assms(2) A(1) by (auto simp: space_def)
  then have f: "\<forall>t \<in> tables s r. ram s' t = ram s t" using A(2) by auto
  show "tables s' r = tables s r" "v < 512 ^ 3 \<Longrightarrow> entry s' r v = entry s r v" "key d k \<Longrightarrow> tab s' r d k = tab s r d k"
    using frame [OF f] tab_frame [OF f] by simp_all
  then show "space s' r" using assms(2) A(1,4,5) frame(3) [OF f] by (simp add: space_def)
qed

lemma grow_table:
  assumes ok: "mem_ok s" "space s r" and k: "key d k" "d < 2" "tab s r d k = Some t" and i: "i < 512" "\<not> pte_valid (read_pte s t i)"
    and a: "allocPage True s = Some (p, s1)" and s2: "s2 = write_pte t i ((fromAddress (p * page_size))\<lparr>pte_valid := True\<rparr>) s1"
  shows "grown s s2 r" "tab s2 r (Suc d) (k * 512 + i) = Some p"
proof -
  note A = allocPage_ok [OF ok(1) a]
  note B = alloc_space [OF ok a]
  have tp: "t \<noteq> p" using tables_tab [OF k(1,3)] B(4) by blast
  have t1: "tab s1 r d k = Some t" "\<not> pte_valid (read_pte s1 t i)" using B(5) [OF k(1)] k(3) i(2) A(2) tp by (simp_all add: read_pte_def)
  have tr: "sized s1" "tree s1 r" using A(3) B(1) by (simp_all add: mem_ok_def space_def)
  have pz: "p \<notin> tables s1 r" "ram s1 p = replicate page_size NUL" using B(2,4) A(2) by simp_all
  note W = add_table [OF tr k(1,2) t1(1) i(1) t1(2) pz(1) A(8) pz(2) s2]
  show "tab s2 r (Suc d) (k * 512 + i) = Some p" by (rule W(5))
  have same: "freelist s2 = freelist s1" "page_lo s2 = page_lo s" "page_hi s2 = page_hi s" using s2 A by (simp_all add: write_pte_def)
  have "mem_ok s2" using W(4) A(3,4,5) same by (simp add: mem_ok_def)
  moreover have "space s2 r"
    using W(1,2) B(1,2) A(4-7,9) same by (auto simp: space_def)
  moreover have "ram s2 q = ram s q" if "q \<notin> tables s r \<union> set (freelist s)" for q
    using that tables_tab [OF k(1,3)] A(1,2) s2 by (auto simp: write_pte_def)
  ultimately show "grown s s2 r" using W(1,3) B(2,3) A(1) same by (auto simp: grown_def)
qed

lemma walk_from_make:
  "mem_ok s \<Longrightarrow> space s r \<Longrightarrow> key d (v div 512 ^ Suc l) \<Longrightarrow> d + l = 2 \<Longrightarrow> tab s r d (v div 512 ^ Suc l) = Some t \<Longrightarrow> v = va div page_size \<Longrightarrow>
   (\<exists>t' s'. walk_from l t va True s = MOk (t', v mod 512) s' \<and> grown s s' r \<and> tab s' r 2 (v div 512) = Some t') \<or>
   (\<exists>s'. walk_from l t va True s = MErr OutOfMemory s' \<and> grown s s' r \<and> freelist s' = [] \<and> length (freelist s) < l)"
proof (induction l arbitrary: d t s)
  case 0
  then show ?case by (auto simp: pageIndex_page grown_refl)
next
  case (Suc l)
  let ?i = "pageIndex (Suc l) va"
  have d: "d < 2" "Suc d + l = 2" using Suc.prems(4) by simp_all
  have i: "?i < 512" "?i = v div 512 ^ Suc l mod 512" using Suc.prems(6) by (simp_all add: pageIndex_page)
  have kk: "v div 512 ^ Suc l = v div 512 ^ Suc (Suc l) * 512 + ?i" 
  proof -
    have "v div 512 ^ Suc (Suc l) = v div 512 ^ Suc l div 512" by (simp add: div_mult2_eq [symmetric] mult.commute)
    then show ?thesis using i(2) by (metis div_mult_mod_eq)
  qed
  have k: "key (Suc d) (v div 512 ^ Suc l)" unfolding kk by (rule key_down [OF Suc.prems(3) d(1) i(1)])
  show ?case
  proof (cases "pte_valid (read_pte s t ?i)")
    case True
    have "tab s r (Suc d) (v div 512 ^ Suc l) = Some (pte_ppn (read_pte s t ?i))"
      using Suc.prems(5) True i by (simp add: tab.simps(2) child_def div_mult2_eq [symmetric] mult.commute)
    then show ?thesis using Suc.IH [OF Suc.prems(1,2) k d(2) _ Suc.prems(6)] True by (auto simp: Let_def)
  next
    case False
    show ?thesis
    proof (cases "allocPage True s")
      case None
      then have "freelist s = []" by (simp add: allocPage_def split: list.splits)
      then show ?thesis using False None grown_refl [OF Suc.prems(1,2)] by (simp add: Let_def)
    next
      case (Some a)
      obtain p s1 where a: "a = (p, s1)" by (cases a)
      define s2 where "s2 = write_pte t ?i ((fromAddress (p * page_size))\<lparr>pte_valid := True\<rparr>) s1"
      note G = grow_table [OF Suc.prems(1,2,3) d(1) Suc.prems(5) i(1) False Some [unfolded a] s2_def]
      have ok: "mem_ok s2" "space s2 r" using G(1) by (simp_all add: grown_def)
      have "tab s2 r (Suc d) (v div 512 ^ Suc l) = Some p" using G(2) unfolding kk [symmetric] .
      moreover have "length (freelist s) = Suc (length (freelist s2))" using allocPage_ok(1) [OF Suc.prems(1) Some [unfolded a]] by (simp add: s2_def write_pte_def)
      ultimately show ?thesis using Suc.IH [OF ok k d(2) _ Suc.prems(6), of p]
        using False Some a grown_trans [OF G(1)] by (auto simp: Let_def s2_def)
    qed
  qed
qed

lemma walk_make:
  assumes "mem_ok s" and "space s r" and "va < max_virtual_address" and "v = va div page_size"
  shows "(\<exists>t s'. walk r va True s = MOk (t, v mod 512) s' \<and> grown s s' r \<and> tab s' r 2 (v div 512) = Some t) \<or>
   (\<exists>s'. walk r va True s = MErr OutOfMemory s' \<and> grown s s' r \<and> freelist s' = [] \<and> length (freelist s) < 2)"
proof -
  have "v div 512 ^ Suc 2 = 0" using va_page [OF assms(3)] assms(4) by simp
  then show ?thesis using walk_from_make [OF assms(1,2), of 0 v 2 r va] assms(3,4) by (simp add: walk_def key_def)
qed


subsection \<open>Mapping and unmapping\<close>

text \<open>The map has become \<open>m\<close>, and the pages \<open>X\<close> have been given back to the allocator.\<close>

definition changed :: "phys \<Rightarrow> phys \<Rightarrow> nat \<Rightarrow> (nat \<Rightarrow> pte option) \<Rightarrow> nat set \<Rightarrow> bool" where
  "changed s s' r m X \<longleftrightarrow> mem_ok s' \<and> space s' r \<and> (\<forall>v < 512 ^ 3. entry s' r v = m v) \<and>
     tables s' r \<union> set (freelist s') = tables s r \<union> set (freelist s) \<union> X \<and> tables s r \<subseteq> tables s' r \<and>
     (\<forall>p. p \<notin> tables s r \<union> set (freelist s) \<union> X \<longrightarrow> ram s' p = ram s p) \<and> page_lo s' = page_lo s \<and> page_hi s' = page_hi s"

lemma grown_changed: "grown s s' r \<longleftrightarrow> changed s s' r (entry s r) {}"
  by (simp add: grown_def changed_def)

lemma changed_trans: "changed s s1 r m X \<Longrightarrow> changed s1 s2 r m' Y \<Longrightarrow> changed s s2 r m' (X \<union> Y)"
  unfolding changed_def by (smt (verit) Un_assoc Un_commute Un_iff subset_trans)

lemma changed_cong: "changed s s' r m X \<Longrightarrow> (\<And>v. v < 512 ^ 3 \<Longrightarrow> m v = m' v) \<Longrightarrow> X = X' \<Longrightarrow> changed s s' r m' X'"
  by (simp add: changed_def)

lemma changed_entry: "changed s s' r m X \<Longrightarrow> v < 512 ^ 3 \<Longrightarrow> entry s' r v = m v"
  by (simp add: changed_def)

text \<open>Writing an entry at its place.\<close>

lemma put_entry:
  assumes ok: "mem_ok s" "space s r" and v: "v < 512 ^ 3" and t: "tab s r 2 (v div 512) = Some t" and e: "pte_ok e" "pte_valid e \<longrightarrow> \<not> isBranch e"
  shows "changed s (write_pte t (v mod 512) e s) r ((entry s r)(v := if pte_valid e then Some e else None)) {}"
proof -
  let ?s = "write_pte t (v mod 512) e s"
  have tr: "sized s" "tree s r" using ok by (simp_all add: mem_ok_def space_def)
  note W = write_entry [OF tr v t e(1) mp [OF e(2)] refl]
  have same: "freelist ?s = freelist s" "page_lo ?s = page_lo s" "page_hi ?s = page_hi s" by (simp_all add: write_pte_def)
  have "ram ?s p = ram s p" if "p \<notin> tables s r" for p
    using that tables_tab [OF key_page [OF v] t] by (auto simp: write_pte_def)
  then show ?thesis using W ok same by (simp add: changed_def mem_ok_def space_def)
qed

lemma aligned_page: "va mod page_size = 0 \<Longrightarrow> coveringPages va page_size = 1"
proof -
  assume a: "va mod page_size = 0"
  then have "(va + (page_size - 1)) mod page_size = page_size - 1"
    by (metis add.commute add_0 diff_less mod_add_right_eq mod_less page_size_def zero_less_numeral zero_less_one)
  then show ?thesis using a by (simp add: coveringPages_def pageRoundDown_def page_size_def)
qed

definition leaf :: "nat \<Rightarrow> perms \<Rightarrow> bool \<Rightarrow> pte" where
  "leaf pa perms user = (fromAddress pa)\<lparr>pte_perms := perms, pte_user := user, pte_valid := True\<rparr>"

lemma leaf_simps [simp]:
  "pte_valid (leaf pa perms user)" "pte_ppn (leaf pa perms user) = pa div page_size" "pte_user (leaf pa perms user) = user" "pte_perms (leaf pa perms user) = perms"
  "pte_ok (leaf pa perms user) \<longleftrightarrow> pa div page_size < 2 ^ 44" "isBranch (leaf pa perms user) \<longleftrightarrow> perms = no_perms"
  by (simp_all add: leaf_def fromAddress_def isBranch_def pte_ok_def no_pte_def)

text \<open>One page is mapped, or there is an error and the map is the same.\<close>

lemma map_page:
  assumes ok: "mem_ok s" "space s r" and va: "va < max_virtual_address" "va mod page_size = 0" "v = va div page_size"
    and pa: "pa div page_size < 2 ^ 44" "perms \<noteq> no_perms"
  shows "(\<exists>s'. vm_map r va pa page_size perms user s = MOk () s' \<and> entry s r v = None \<and> changed s s' r ((entry s r)(v \<mapsto> leaf pa perms user)) {}) \<or>
    (\<exists>e s'. vm_map r va pa page_size perms user s = MErr e s' \<and> grown s s' r \<and>
       (e = AlreadyMappedPage \<and> entry s r v \<noteq> None \<or> e = OutOfMemory \<and> freelist s' = [] \<and> length (freelist s) < 2))"
proof -
  have v: "v < 512 ^ 3" using va_page [OF va(1)] va(3) by simp
  have c: "vm_map r va pa page_size perms user s = map_loop r va pa perms user [0] s"
    using aligned_page [OF va(2)] by (simp add: vm_map_def page_size_def)
  consider t s1 where "walk r va True s = MOk (t, v mod 512) s1" "grown s s1 r" "tab s1 r 2 (v div 512) = Some t"
    | s1 where "walk r va True s = MErr OutOfMemory s1" "grown s s1 r" "freelist s1 = []" "length (freelist s) < 2" using walk_make [OF ok va(1,3)] by blast
  then show ?thesis
  proof cases
    case 1
    have e: "entry s r v = (if pte_valid (read_pte s1 t (v mod 512)) then Some (read_pte s1 t (v mod 512)) else None)"
    proof -
      have "entry s r v = entry s1 r v" using changed_entry [OF 1(2) [unfolded grown_changed] v] by simp
      then show ?thesis using 1(3) by (simp add: entry_def)
    qed
    show ?thesis
    proof (cases "pte_valid (read_pte s1 t (v mod 512))")
      case True
      then show ?thesis using 1 e by (simp add: c)
    next
      case False
      have ok1: "mem_ok s1" "space s1 r" using 1(2) by (simp_all add: grown_def)
      have p: "pte_ok (leaf pa perms user)" "pte_valid (leaf pa perms user) \<longrightarrow> \<not> isBranch (leaf pa perms user)" using pa by simp_all
      note P = put_entry [OF ok1 v 1(3) p]
      have "changed s (write_pte t (v mod 512) (leaf pa perms user) s1) r ((entry s r)(v \<mapsto> leaf pa perms user)) {}"
        by (rule changed_cong [OF changed_trans [OF 1(2) [unfolded grown_changed] P]]) (use 1(2) in \<open>auto simp: grown_def\<close>)
      then show ?thesis using 1(1) False e by (simp add: c leaf_def)
    qed
  next
    case 2
    then show ?thesis by (simp add: c)
  qed
qed


lemma freePage_ok:
  assumes ok: "mem_ok s" "space s r" and p: "page_lo s \<le> p" "p < page_hi s" "p \<notin> tables s r" "p \<notin> set (freelist s)"
  shows "\<exists>s'. freePage p s = MOk () s' \<and> changed s s' r (entry s r) {p}"
proof -
  define s' where "s' = s\<lparr>ram := (ram s)(p := replicate page_size (CHR 0x01)), freelist := p # freelist s\<rparr>"
  have f: "\<forall>t \<in> tables s r. ram s' t = ram s t" using p(3) by (auto simp: s'_def)
  have "changed s s' r (entry s r) {p}"
    using ok p frame [OF f] by (auto simp: changed_def mem_ok_def space_def s'_def sized_def)
  then show ?thesis using p(1,2) by (auto simp: freePage_def s'_def)
qed

text \<open>The page of a leaf is free to go: it is in the allocator's range, and neither free nor a table.\<close>

definition freeable :: "phys \<Rightarrow> nat \<Rightarrow> nat \<Rightarrow> bool" where
  "freeable s r p \<longleftrightarrow> page_lo s \<le> p \<and> p < page_hi s \<and> p \<notin> tables s r \<and> p \<notin> set (freelist s)"

lemma changed_freeable: "changed s s' r m X \<Longrightarrow> freeable s r p \<Longrightarrow> p \<notin> X \<Longrightarrow> freeable s' r p"
  unfolding changed_def freeable_def by (metis Un_iff)

text \<open>What \<open>unmap\<close> removes.\<close>

definition without :: "(nat \<Rightarrow> pte option) \<Rightarrow> nat set \<Rightarrow> nat \<Rightarrow> pte option" where
  "without m V = (\<lambda>v. if v \<in> V then None else m v)"

lemma unmap_step:
  assumes ok: "mem_ok s" "space s r" and va: "va < max_virtual_address" "v = va div page_size"
    and e: "entry s r v = Some e" and fr: "doFree \<longrightarrow> freeable s r (pte_ppn e)"
  shows "\<exists>t s1 s2. walk r va False s = MOk (t, v mod 512) s \<and> read_pte s t (v mod 512) = e \<and> pte_valid e \<and> \<not> isBranch e \<and>
    (if doFree then freePage (pte_ppn e) s else MOk () s) = MOk () s1 \<and> s2 = write_pte t (v mod 512) no_pte s1 \<and>
    changed s s2 r (without (entry s r) {v}) (if doFree then {pte_ppn e} else {})"
proof -
  have v: "v < 512 ^ 3" using va_page [OF va(1)] va(2) by simp
  obtain t where t: "tab s r 2 (v div 512) = Some t" "pte_valid (read_pte s t (v mod 512))" "read_pte s t (v mod 512) = e"
    using e by (auto simp: entry_def split: option.splits if_splits)
  have w: "walk r va False s = MOk (t, v mod 512) s" using walk_find [OF va(1)] t(1) va(2) by simp
  have tr: "tree s r" using ok(2) by (simp add: space_def)
  have nb: "\<not> isBranch e" using treeD(2) [OF tr key_page [OF v] t(1), of "v mod 512"] t(2,3) by simp
  obtain s1 where s1: "(if doFree then freePage (pte_ppn e) s else MOk () s) = MOk () s1" "changed s s1 r (entry s r) (if doFree then {pte_ppn e} else {})"
  proof (cases doFree)
    case True
    then show ?thesis using that freePage_ok [OF ok, of "pte_ppn e"] fr by (auto simp: freeable_def)
  next
    case False
    then show ?thesis using that grown_refl [OF ok] by (simp add: grown_changed)
  qed
  have ok1: "mem_ok s1" "space s1 r" using s1(2) by (simp_all add: changed_def)
  have f: "\<forall>x \<in> tables s r. ram s1 x = ram s x"
  proof
    fix x assume x: "x \<in> tables s r"
    show "ram s1 x = ram s x"
    proof (cases doFree)
      case True
      then have "x \<noteq> pte_ppn e" using fr x by (auto simp: freeable_def)
      then show ?thesis using s1(1) True by (auto simp: freePage_def split: if_splits)
    qed (use s1(1) in simp)
  qed
  have t1: "tab s1 r 2 (v div 512) = Some t" using tab_frame [OF f key_page [OF v]] t(1) by simp
  have "changed s1 (write_pte t (v mod 512) no_pte s1) r ((entry s1 r)(v := None)) {}"
    using put_entry [OF ok1 v t1, of no_pte] by simp
  from changed_trans [OF s1(2) this]
  have "changed s (write_pte t (v mod 512) no_pte s1) r (without (entry s r) {v}) (if doFree then {pte_ppn e} else {})"
    by (rule changed_cong) (use s1(2) in \<open>auto simp: changed_def without_def\<close>)
  then show ?thesis using w t nb s1(1) by blast
qed


lemma unmap_loop_spec:
  "mem_ok s \<Longrightarrow> space s r \<Longrightarrow> distinct is \<Longrightarrow> va mod page_size = 0 \<Longrightarrow>
   (\<And>i. i \<in> set is \<Longrightarrow> va + page_size * i < max_virtual_address) \<Longrightarrow>
   (\<And>i. i \<in> set is \<Longrightarrow> entry s r (va div page_size + i) = Some (e i)) \<Longrightarrow>
   (doFree \<Longrightarrow> inj_on (\<lambda>i. pte_ppn (e i)) (set is) \<and> (\<forall>i \<in> set is. freeable s r (pte_ppn (e i)))) \<Longrightarrow>
   \<exists>s'. unmap_loop r va doFree is s = MOk () s' \<and>
     changed s s' r (without (entry s r) ((\<lambda>i. va div page_size + i) ` set is)) (if doFree then (\<lambda>i. pte_ppn (e i)) ` set is else {})"
proof (induction "is" arbitrary: s)
  case Nil
  have "without (entry s r) {} = entry s r" by (simp add: without_def)
  then show ?case using grown_refl [OF Nil.prems(1,2)] by (simp add: grown_changed)
next
  case (Cons i "is")
  let ?v = "va div page_size + i"
  have i: "va + page_size * i < max_virtual_address" "(va + page_size * i) div page_size = ?v" "entry s r ?v = Some (e i)" "i \<notin> set is"
    using Cons.prems by (auto simp: page_size_def)
  have fr: "doFree \<longrightarrow> freeable s r (pte_ppn (e i))" using Cons.prems(7) by auto
  obtain t s1 s2 where s2: "walk r (va + page_size * i) False s = MOk (t, ?v mod 512) s" "read_pte s t (?v mod 512) = e i" "pte_valid (e i)" "\<not> isBranch (e i)"
    "(if doFree then freePage (pte_ppn (e i)) s else MOk () s) = MOk () s1" "s2 = write_pte t (?v mod 512) no_pte s1"
    and c: "changed s s2 r (without (entry s r) {?v}) (if doFree then {pte_ppn (e i)} else {})"
    using unmap_step [OF Cons.prems(1,2) i(1) i(2) [symmetric] i(3) fr] by auto
  have ok: "mem_ok s2" "space s2 r" using c by (simp_all add: changed_def)
  have en: "entry s2 r (va div page_size + j) = Some (e j)" "va + page_size * j < max_virtual_address" if "j \<in> set is" for j
  proof -
    show j: "va + page_size * j < max_virtual_address" using Cons.prems(5) that by simp
    have "(va + page_size * j) div page_size = va div page_size + j" by (simp add: page_size_def)
    then have "va div page_size + j < 512 ^ 3" using va_page [OF j] by simp
    then show "entry s2 r (va div page_size + j) = Some (e j)"
      using changed_entry [OF c] Cons.prems(6) that i(4) by (auto simp: without_def)
  qed
  have inj: "inj_on (\<lambda>i. pte_ppn (e i)) (set is) \<and> (\<forall>j \<in> set is. freeable s2 r (pte_ppn (e j)))" if doFree
  proof -
    have "pte_ppn (e j) \<noteq> pte_ppn (e i)" if "j \<in> set is" for j using Cons.prems(7) \<open>doFree\<close> that i(4) by (auto simp: inj_on_def)
    then show ?thesis using Cons.prems(7) that changed_freeable [OF c] by auto
  qed
  obtain s3 where s3: "unmap_loop r va doFree is s2 = MOk () s3"
    "changed s2 s3 r (without (entry s2 r) ((\<lambda>i. va div page_size + i) ` set is)) (if doFree then (\<lambda>i. pte_ppn (e i)) ` set is else {})"
    using Cons.IH [OF ok _ Cons.prems(4) en(2,1) inj] Cons.prems(3) by auto
  have "changed s s3 r (without (entry s r) ((\<lambda>i. va div page_size + i) ` set (i # is))) (if doFree then (\<lambda>i. pte_ppn (e i)) ` set (i # is) else {})"
    by (rule changed_cong [OF changed_trans [OF c s3(2)]]) (use changed_entry [OF c] in \<open>auto simp: without_def\<close>)
  moreover have "unmap_loop r va doFree (i # is) s = MOk () s3" using s2 s3(1) by (cases doFree) (simp_all add: Let_def)
  ultimately show ?case by blast
qed

lemma unmap_spec:
  assumes "mem_ok s" and "space s r" and "va mod page_size = 0" and "va + page_size * n \<le> max_virtual_address"
    and "\<And>i. i < n \<Longrightarrow> entry s r (va div page_size + i) = Some (e i)"
    and "doFree \<Longrightarrow> inj_on (\<lambda>i. pte_ppn (e i)) {..<n} \<and> (\<forall>i < n. freeable s r (pte_ppn (e i)))"
  shows "\<exists>s'. vm_unmap r va n doFree s = MOk () s' \<and>
     changed s s' r (without (entry s r) {va div page_size..<va div page_size + n}) (if doFree then (\<lambda>i. pte_ppn (e i)) ` {..<n} else {})"
proof -
  have va: "va + page_size * i < max_virtual_address" if "i < n" for i
  proof -
    have "page_size * i < page_size * n" using that by (simp add: page_size_def)
    then show ?thesis using assms(4) by linarith
  qed
  have im: "(\<lambda>i. va div page_size + i) ` {0..<n} = {va div page_size..<va div page_size + n}" by (auto simp: image_add_atLeastLessThan add.commute)
  have z: "{0..<n} = {..<n}" by auto
  show ?thesis
    using unmap_loop_spec [OF assms(1,2), of "[0..<n]" va e doFree] assms(3,5,6) va im by (auto simp: vm_unmap_def z)
qed


subsection \<open>Giving back the tables\<close>

text \<open>The tables below \<open>t\<close>, which is \<open>h\<close> levels above the last.\<close>

fun subs :: "phys \<Rightarrow> nat \<Rightarrow> nat \<Rightarrow> nat set" where
  "subs s 0 t = {t}"
| "subs s (Suc h) t = insert t (\<Union>i \<in> {i. i < 512}. case child s t i of None \<Rightarrow> {} | Some c \<Rightarrow> subs s h c)"

text \<open>Tables without leaves that are all different.\<close>

fun hollow :: "phys \<Rightarrow> nat \<Rightarrow> nat \<Rightarrow> bool" where
  "hollow s 0 t \<longleftrightarrow> (\<forall>i<512. child s t i = None)"
| "hollow s (Suc h) t \<longleftrightarrow>
     (\<forall>i<512. \<forall>c. child s t i = Some c \<longrightarrow> isBranch (read_pte s t i) \<and> hollow s h c \<and> t \<notin> subs s h c \<and>
        (\<forall>j<512. \<forall>c'. child s t j = Some c' \<and> j \<noteq> i \<longrightarrow> subs s h c \<inter> subs s h c' = {}))"

declare subs.simps [simp del] hollow.simps [simp del]

lemma subs_self: "t \<in> subs s h t"
  by (cases h) (simp_all add: subs.simps)

lemma subs_child: "i < 512 \<Longrightarrow> child s t i = Some c \<Longrightarrow> subs s h c \<subseteq> subs s (Suc h) t"
  using UN_upper [of i "{i. i < 512}" "\<lambda>i. case child s t i of None \<Rightarrow> {} | Some c \<Rightarrow> subs s h c"] by (simp add: subs.simps subset_insertI2)

lemma child_frame: "ram s' t = ram s t \<Longrightarrow> child s' t i = child s t i \<and> read_pte s' t i = read_pte s t i"
  by (simp add: child_def read_pte_def)

lemma subs_frame: "\<forall>p \<in> subs s h t. ram s' p = ram s p \<Longrightarrow> subs s' h t = subs s h t"
proof (induction h arbitrary: t)
  case 0
  then show ?case by (simp add: subs.simps)
next
  case (Suc h)
  have "ram s' t = ram s t" using Suc.prems subs_self by blast
  then have c: "child s' t i = child s t i" for i by (rule child_frame [THEN conjunct1])
  have "subs s' h x = subs s h x" if "i < 512" "child s t i = Some x" for i x
    using Suc.IH [of x] Suc.prems subs_child [OF that, of h] by blast
  then have "(case child s' t i of None \<Rightarrow> {} | Some x \<Rightarrow> subs s' h x) = (case child s t i of None \<Rightarrow> {} | Some x \<Rightarrow> subs s h x)" if "i < 512" for i
    using c that by (simp split: option.split)
  then show ?case by (simp add: subs.simps(2))
qed

lemma hollow_frame: "\<forall>p \<in> subs s h t. ram s' p = ram s p \<Longrightarrow> hollow s' h t = hollow s h t"
proof (induction h arbitrary: t)
  case 0
  then have "ram s' t = ram s t" using subs_self by blast
  from child_frame [OF this] show ?case by (simp add: hollow.simps)
next
  case (Suc h)
  have "ram s' t = ram s t" using Suc.prems subs_self by blast
  from child_frame [OF this] have c: "child s' t i = child s t i" "read_pte s' t i = read_pte s t i" for i by simp_all
  have r: "\<forall>p \<in> subs s h x. ram s' p = ram s p" if "i < 512" "child s t i = Some x" for i x
    using Suc.prems subs_child [OF that, of h] by blast
  have S: "subs s' h x = subs s h x" "hollow s' h x = hollow s h x" if "i < 512" "child s t i = Some x" for i x
    using subs_frame [OF r [OF that]] Suc.IH [OF r [OF that]] by simp_all
  show ?case by (simp only: hollow.simps c) (intro iff_allI imp_cong refl conj_cong; metis S)
qed

definition freed :: "phys \<Rightarrow> phys \<Rightarrow> nat set \<Rightarrow> nat set \<Rightarrow> bool" where
  "freed s s' X Y \<longleftrightarrow> mem_ok s' \<and> set (freelist s') = set (freelist s) \<union> X \<and> (\<forall>p. p \<notin> Y \<longrightarrow> ram s' p = ram s p) \<and>
     page_lo s' = page_lo s \<and> page_hi s' = page_hi s"

definition owned_range :: "phys \<Rightarrow> nat set \<Rightarrow> bool" where
  "owned_range s X \<longleftrightarrow> (\<forall>p \<in> X. page_lo s \<le> p \<and> p < page_hi s \<and> p \<notin> set (freelist s))"

lemma owned_range_freed: "owned_range s X \<Longrightarrow> freed s s' Z Y \<Longrightarrow> X \<inter> Z = {} \<Longrightarrow> owned_range s' X"
  by (auto simp: owned_range_def freed_def)

lemma freePage_freed:
  assumes "mem_ok s" and "owned_range s {p}"
  shows "\<exists>s'. freePage p s = MOk () s' \<and> freed s s' {p} {p}"
  using assms by (auto simp: freePage_def owned_range_def freed_def mem_ok_def sized_def)

definition below :: "phys \<Rightarrow> nat \<Rightarrow> nat \<Rightarrow> nat \<Rightarrow> nat set" where
  "below s h t i = (case child s t i of None \<Rightarrow> {} | Some c \<Rightarrow> subs s h c)"

lemma free_entries_spec:
  assumes fw: "\<And>c s. mem_ok s \<Longrightarrow> hollow s h c \<Longrightarrow> owned_range s (subs s h c) \<Longrightarrow> \<exists>s'. freeWalk depth c s = MOk () s' \<and> freed s s' (subs s h c) (subs s h c)"
  shows "mem_ok s \<Longrightarrow> distinct is \<Longrightarrow> set is \<subseteq> {i. i < 512} \<Longrightarrow> owned_range s (\<Union>i \<in> set is. below s h t i) \<Longrightarrow>
    (\<And>i c. i \<in> set is \<Longrightarrow> child s t i = Some c \<Longrightarrow> isBranch (read_pte s t i) \<and> hollow s h c \<and> t \<notin> subs s h c) \<Longrightarrow>
    (\<And>i j. i \<in> set is \<Longrightarrow> j \<in> set is \<Longrightarrow> i \<noteq> j \<Longrightarrow> below s h t i \<inter> below s h t j = {}) \<Longrightarrow>
    \<exists>s'. free_entries depth t is s = MOk () s' \<and> freed s s' (\<Union>i \<in> set is. below s h t i) (insert t (\<Union>i \<in> set is. below s h t i))"
proof (induction "is" arbitrary: s)
  case Nil
  then show ?case by (simp add: freed_def)
next
  case (Cons i "is")
  let ?U = "\<Union>j \<in> set is. below s h t j"
  have i: "i < 512" "i \<notin> set is" using Cons.prems by auto
  show ?case
  proof (cases "child s t i")
    case None
    then have e: "\<not> pte_valid (read_pte s t i)" "below s h t i = {}" by (auto simp: child_def below_def split: if_splits)
    have "\<exists>s'. free_entries depth t is s = MOk () s' \<and> freed s s' ?U (insert t ?U)"
      by (rule Cons.IH) (use Cons.prems e in auto)
    then show ?thesis using e by (simp add: Let_def)
  next
    case (Some c)
    have v: "pte_valid (read_pte s t i)" "pte_ppn (read_pte s t i) = c" using Some by (auto simp: child_def split: if_splits)
    have b: "below s h t i = subs s h c" using Some by (simp add: below_def)
    have hc: "isBranch (read_pte s t i)" "hollow s h c" "t \<notin> subs s h c" using Cons.prems(5) [OF _ Some] by simp_all
    have "owned_range s (subs s h c)" using Cons.prems(4) b by (auto simp: owned_range_def)
    from fw [OF Cons.prems(1) hc(2) this] obtain s1 where s1: "freeWalk depth c s = MOk () s1" "freed s s1 (subs s h c) (subs s h c)" by blast
    define s2 where "s2 = write_pte t i no_pte s1"
    have sz: "sized s1" using s1(2) by (simp add: freed_def mem_ok_def)
    have "sized s2" unfolding s2_def by (rule write_pte_sized [OF sz i(1)])
    then have s2: "freed s s2 (subs s h c) (insert t (subs s h c))"
      using s1(2) by (auto simp: freed_def mem_ok_def s2_def write_pte_def)
    have rd: "read_pte s2 t j = read_pte s t j" if "j \<in> set is" for j
    proof -
      have "j < 512" "j \<noteq> i" using Cons.prems(3) that i(2) by auto
      then have "read_pte s2 t j = read_pte s1 t j" unfolding s2_def using read_write_pte [OF sz i(1), of j no_pte t t] by simp
      moreover have "ram s1 t = ram s t" using s1(2) hc(3) by (simp add: freed_def)
      from child_frame [OF this] have "read_pte s1 t j = read_pte s t j" by simp
      ultimately show ?thesis by simp
    qed
    have disj: "below s h t j \<inter> subs s h c = {}" if "j \<in> set is" for j using Cons.prems(6) [of j i] that i(2) b by auto
    have same: "\<forall>p \<in> subs s h c'. ram s2 p = ram s p" if "j \<in> set is" "child s t j = Some c'" for j c'
      using disj [OF that(1)] that(2) Cons.prems(5) [of j c'] that s2 by (auto simp: below_def freed_def)
    have ch: "child s2 t j = child s t j" if "j \<in> set is" for j using rd [OF that] by (simp add: child_def)
    have bl: "below s2 h t j = below s h t j" if "j \<in> set is" for j
      using ch [OF that] subs_frame [OF same [OF that]] by (auto simp: below_def split: option.split)
    have U: "(\<Union>j \<in> set is. below s2 h t j) = ?U" using bl by simp
    have "\<exists>s'. free_entries depth t is s2 = MOk () s' \<and> freed s2 s' (\<Union>j \<in> set is. below s2 h t j) (insert t (\<Union>j \<in> set is. below s2 h t j))"
    proof (rule Cons.IH)
      show "mem_ok s2" using s2 by (simp add: freed_def)
      show "distinct is" "set is \<subseteq> {i. i < 512}" using Cons.prems by auto
      have "owned_range s ?U" using Cons.prems(4) by (auto simp: owned_range_def)
      then show "owned_range s2 (\<Union>j \<in> set is. below s2 h t j)" unfolding U by (rule owned_range_freed [OF _ s2]) (use disj in auto)
      show "isBranch (read_pte s2 t j) \<and> hollow s2 h c' \<and> t \<notin> subs s2 h c'" if "j \<in> set is" "child s2 t j = Some c'" for j c'
        using Cons.prems(5) [of j c'] that ch rd hollow_frame [OF same [of j c']] subs_frame [OF same [of j c']] by simp
      show "below s2 h t j \<inter> below s2 h t k = {}" if "j \<in> set is" "k \<in> set is" "j \<noteq> k" for j k
        using Cons.prems(6) [of j k] that bl by simp
    qed
    then obtain s3 where s3: "free_entries depth t is s2 = MOk () s3" "freed s2 s3 ?U (insert t ?U)" unfolding U by blast
    have "freed s s3 (below s h t i \<union> ?U) (insert t (below s h t i \<union> ?U))"
      using s2 s3(2) b by (auto simp: freed_def)
    moreover have "free_entries depth t (i # is) s = MOk () s3" using v hc(1) s1(1) s3(1) by (simp add: Let_def s2_def)
    ultimately show ?thesis by simp
  qed
qed


lemma free_entries_none: "(\<And>i. i \<in> set is \<Longrightarrow> child s t i = None) \<Longrightarrow> free_entries depth t is s = MOk () s"
proof (induction "is")
  case (Cons i "is")
  have "\<not> pte_valid (read_pte s t i)" using Cons.prems [of i] by (auto simp: child_def split: if_splits)
  then show ?case using Cons by simp
qed simp

lemma freeWalk_spec:
  "mem_ok s \<Longrightarrow> hollow s h t \<Longrightarrow> owned_range s (subs s h t) \<Longrightarrow> h < depth \<Longrightarrow>
   \<exists>s'. freeWalk depth t s = MOk () s' \<and> freed s s' (subs s h t) (subs s h t)"
proof (induction h arbitrary: depth t s)
  case 0
  then obtain d where d: "depth = Suc d" by (cases depth) auto
  have "free_entries d t [0..<page_table_entries_per_page] s = MOk () s"
    by (rule free_entries_none) (use 0(2) in \<open>simp add: hollow.simps page_table_entries_per_page_def page_size_def\<close>)
  then show ?case using freePage_freed [OF 0(1), of t] 0(3) d by (simp add: subs.simps)
next
  case (Suc h)
  then obtain d where d: "depth = Suc d" "h < d" by (cases depth) auto
  let ?is = "[0..<page_table_entries_per_page]" and ?U = "\<Union>i \<in> set [0..<page_table_entries_per_page]. below s h t i"
  have ix: "set ?is = {i. i < 512}" by (auto simp: page_table_entries_per_page_def page_size_def)
  have S: "subs s (Suc h) t = insert t ?U" unfolding ix by (simp add: subs.simps below_def)
  have H: "i < 512 \<Longrightarrow> child s t i = Some c \<Longrightarrow> isBranch (read_pte s t i) \<and> hollow s h c \<and> t \<notin> subs s h c" for i c
    using Suc.prems(2) by (simp add: hollow.simps)
  have tU: "t \<notin> ?U" unfolding ix using H by (auto simp: below_def split: option.splits)
  have D: "i < 512 \<Longrightarrow> j < 512 \<Longrightarrow> i \<noteq> j \<Longrightarrow> below s h t i \<inter> below s h t j = {}" for i j
    using Suc.prems(2) by (simp add: hollow.simps below_def split: option.splits)
  have fw: "\<exists>s'. freeWalk d c s = MOk () s' \<and> freed s s' (subs s h c) (subs s h c)"
    if "mem_ok s" "hollow s h c" "owned_range s (subs s h c)" for c s by (rule Suc.IH [OF that d(2)])
  have U: "owned_range s ?U" using Suc.prems(3) unfolding S by (simp add: owned_range_def)
  have sub: "set ?is \<subseteq> {i. i < 512}" unfolding ix by (rule order_refl)
  have "\<exists>s'. free_entries d t ?is s = MOk () s' \<and> freed s s' ?U (insert t ?U)"
  proof (rule free_entries_spec [OF _ Suc.prems(1) distinct_upt sub U])
    show "\<exists>s'. freeWalk d c s = MOk () s' \<and> freed s s' (subs s h c) (subs s h c)"
      if "mem_ok s" "hollow s h c" "owned_range s (subs s h c)" for c s by (rule fw [OF that])
    show "isBranch (read_pte s t i) \<and> hollow s h c \<and> t \<notin> subs s h c" if "i \<in> set ?is" "child s t i = Some c" for i c
      using H [OF _ that(2)] that(1) unfolding ix by simp
    show "below s h t i \<inter> below s h t j = {}" if "i \<in> set ?is" "j \<in> set ?is" "i \<noteq> j" for i j
      using D that unfolding ix by simp
  qed
  then obtain s1 where s1: "free_entries d t ?is s = MOk () s1" "freed s s1 ?U (insert t ?U)" by blast
  have "owned_range s {t}" using Suc.prems(3) unfolding S by (simp add: owned_range_def)
  then have "owned_range s1 {t}" by (rule owned_range_freed [OF _ s1(2)]) (use tU in auto)
  then obtain s2 where s2: "freePage t s1 = MOk () s2" "freed s1 s2 {t} {t}" using freePage_freed [of s1 t] s1(2) by (auto simp: freed_def)
  have "freed s s2 (insert t ?U) (insert t ?U)" using s1(2) s2(2) unfolding freed_def by auto
  then show ?case unfolding S using s1(1) s2(1) d(1) by simp
qed

lemma subs_keys:
  "key d k \<Longrightarrow> tab s r d k = Some t \<Longrightarrow> d + h = 2 \<Longrightarrow> x \<in> subs s h t \<Longrightarrow>
   \<exists>d' k'. key d' k' \<and> tab s r d' k' = Some x \<and> d \<le> d' \<and> k' div 512 ^ (d' - d) = k"
proof (induction h arbitrary: d k t)
  case 0
  then show ?case by (intro exI [of _ d] exI [of _ k]) (simp add: subs.simps)
next
  case (Suc h)
  have d: "d < 2" "Suc d + h = 2" using Suc.prems(3) by simp_all
  from Suc.prems(4) consider "x = t" | i c where "i < 512" "child s t i = Some c" "x \<in> subs s h c"
    by (auto simp: subs.simps split: option.splits)
  then show ?case
  proof cases
    case 1
    then show ?thesis using Suc.prems by (intro exI [of _ d] exI [of _ k]) simp
  next
    case 2
    have "tab s r (Suc d) (k * 512 + i) = Some c" using Suc.prems(2) 2(1,2) by (simp add: tab.simps(2))
    from Suc.IH [OF key_down [OF Suc.prems(1) d(1) 2(1)] this d(2) 2(3)]
    obtain d' k' where x: "key d' k'" "tab s r d' k' = Some x" "Suc d \<le> d'" "k' div 512 ^ (d' - Suc d) = k * 512 + i" by blast
    have "d' - d = Suc (d' - Suc d)" using x(3) by simp
    then have "k' div 512 ^ (d' - d) = k' div 512 ^ (d' - Suc d) div 512" by (simp add: div_mult2_eq [symmetric] mult.commute)
    then have "k' div 512 ^ (d' - d) = k" using x(4) 2(1) by simp
    then show ?thesis using x(1-3) by (intro exI [of _ d'] exI [of _ k']) simp
  qed
qed

lemma tab_subs: "key d k \<Longrightarrow> tab s r d k = Some t \<Longrightarrow> subs s (2 - d) t \<subseteq> subs s 2 r"
proof (induction d arbitrary: k t)
  case (Suc d)
  have k: "key d (k div 512)" "d < 2" using Suc.prems(1) by (simp_all add: key_Suc)
  obtain u where u: "tab s r d (k div 512) = Some u" "child s u (k mod 512) = Some t" using Suc.prems(2) by (auto simp: tab.simps(2) split: option.splits)
  have "2 - d = Suc (2 - Suc d)" using k(2) by simp
  then have "subs s (2 - Suc d) t \<subseteq> subs s (2 - d) u" using subs_child [OF _ u(2), of "2 - Suc d"] by simp
  then show ?case using Suc.IH [OF k(1) u(1)] by blast
qed simp

lemma tables_subs: "tables s r = subs s 2 r"
proof (intro set_eqI iffI)
  fix t assume "t \<in> tables s r"
  then obtain d k where "key d k" "tab s r d k = Some t" by (auto simp: tables_def)
  from tab_subs [OF this] subs_self [of t s "2 - d"] show "t \<in> subs s 2 r" by blast
next
  fix t assume "t \<in> subs s 2 r"
  then show "t \<in> tables s r" using subs_keys [of 0 0 s r r 2 t] tables_tab by (auto simp: key_def)
qed

lemma tree_hollow:
  assumes tr: "tree s r" and none: "\<And>v. v < 512 ^ 3 \<Longrightarrow> entry s r v = None"
  shows "key d k \<Longrightarrow> tab s r d k = Some t \<Longrightarrow> d + h = 2 \<Longrightarrow> hollow s h t"
proof (induction h arbitrary: d k t)
  case 0
  then have d: "d = 2" by simp
  have "child s t i = None" if "i < 512" for i
  proof -
    have "k * 512 + i < 512 ^ 3" using 0(1) that by (simp add: key_def d)
    from none [OF this] show ?thesis using 0(2) that by (auto simp: entry_def d child_def)
  qed
  then show ?case by (simp add: hollow.simps)
next
  case (Suc h)
  have d: "d < 2" "Suc d + h = 2" using Suc.prems(3) by simp_all
  have ch: "key (Suc d) (k * 512 + i) \<and> tab s r (Suc d) (k * 512 + i) = Some c" if "i < 512" "child s t i = Some c" for i c
    using key_down [OF Suc.prems(1) d(1) that(1)] Suc.prems(2) that by (simp add: tab.simps(2))
  have keys: "\<exists>d' k'. key d' k' \<and> tab s r d' k' = Some x \<and> Suc d \<le> d' \<and> k' div 512 ^ (d' - Suc d) = k * 512 + i"
    if "i < 512" "child s t i = Some c" "x \<in> subs s h c" for i c x
    using subs_keys [OF _ _ d(2) that(3)] ch [OF that(1,2)] by blast
  show ?case
    unfolding hollow.simps
  proof (intro allI impI conjI)
    fix i c assume i: "i < 512" "child s t i = Some c"
    have "pte_valid (read_pte s t i)" using i(2) by (auto simp: child_def split: if_splits)
    then show "isBranch (read_pte s t i)" using treeD(2) [OF tr Suc.prems(1,2) i(1)] d(1) by simp
    show "hollow s h c" using Suc.IH [OF _ _ d(2)] ch [OF i] by blast
    show "t \<notin> subs s h c"
    proof
      assume "t \<in> subs s h c"
      from keys [OF i this] obtain d' k' where "key d' k'" "tab s r d' k' = Some t" "Suc d \<le> d'" by blast
      then show False using treeD(1) [OF tr Suc.prems(1,2), of d' k'] by simp
    qed
  next
    fix i c j c' assume i: "i < 512" "child s t i = Some c" and j: "j < 512" "child s t j = Some c' \<and> j \<noteq> i"
    show "subs s h c \<inter> subs s h c' = {}"
    proof (rule ccontr)
      assume "subs s h c \<inter> subs s h c' \<noteq> {}"
      then obtain x where x: "x \<in> subs s h c" "x \<in> subs s h c'" by blast
      from keys [OF i x(1)] obtain d1 k1 where 1: "key d1 k1" "tab s r d1 k1 = Some x" "k1 div 512 ^ (d1 - Suc d) = k * 512 + i" by blast
      from keys [OF j(1) _ x(2)] j(2) obtain d2 k2 where 2: "key d2 k2" "tab s r d2 k2 = Some x" "k2 div 512 ^ (d2 - Suc d) = k * 512 + j" by blast
      have "d2 = d1 \<and> k2 = k1" using treeD(1) [OF tr 1(1,2) 2(1,2)] .
      then show False using 1(3) 2(3) j(2) by simp
    qed
  qed
qed

text \<open>A tree without mappings is given back completely.\<close>

lemma freeWalk_tree:
  assumes "mem_ok s" and "space s r" and "\<And>v. v < 512 ^ 3 \<Longrightarrow> entry s r v = None"
  shows "\<exists>s'. freeWalk 3 r s = MOk () s' \<and> freed s s' (tables s r) (tables s r)"
proof -
  have "hollow s 2 r" by (rule tree_hollow [of s r 0 0]) (use assms in \<open>simp_all add: space_def key_def\<close>)
  moreover have "owned_range s (subs s 2 r)" using assms(2) by (simp add: space_def owned_range_def tables_subs [symmetric])
  ultimately show ?thesis using freeWalk_spec [OF assms(1), of 2 r 3] by (simp add: tables_subs)
qed


text \<open>A zeroed page is a tree without mappings.\<close>

lemma empty_tree:
  assumes "mem_ok s" and "ram s r = replicate page_size NUL" and "page_lo s \<le> r" and "r < page_hi s" and "r \<notin> set (freelist s)"
  shows "space s r" "tables s r = {r}" "entry s r v = None"
proof -
  have z: "child s r i = None" "read_pte s r i = no_pte" if "i < 512" for i using read_zero [OF that assms(2)] by (simp_all add: child_def)
  have T: "tab s r d k = (if d = 0 then Some r else None)" for d k
  proof (induction d arbitrary: k)
    case (Suc d)
    then show ?case using z(1) by (simp add: tab.simps(2))
  qed simp
  show t: "tables s r = {r}" using T by (auto simp: tables_def key_def intro: exI [of _ 0] split: if_splits)
  show "entry s r v = None" using T by (simp add: entry_def)
  have "tree s r" unfolding tree_def T using z(2) by (auto simp: key_def split: if_splits)
  then show "space s r" using assms(3-5) t by (simp add: space_def)
qed

subsection \<open>Property\<close>

text \<open>
  C8.  A page table is a map from virtual pages to entries.  \<open>map\<close> adds the entry of a page that has none and reports a page that has one; when it needs pages for tables and there are not enough (at most two are needed) it reports that, and the map
  is as before.  \<open>unmap\<close> removes an entry and gives its page back.  Neither changes a page that is not a table of this tree, every page is afterwards still either free or a table, no table is used twice, and a tree without
  entries is given back completely.
\<close>

theorem page_table_is_map:
  assumes "mem_ok s" and "space s r" and va: "va < max_virtual_address" "va mod page_size = 0"
    and pa: "pa div page_size < 2 ^ 44" "perms \<noteq> no_perms"
  shows "((\<exists>s'. vm_map r va pa page_size perms user s = MOk () s' \<and> entry s r (va div page_size) = None \<and>
         changed s s' r ((entry s r)(va div page_size \<mapsto> leaf pa perms user)) {}) \<or>
      (\<exists>s'. vm_map r va pa page_size perms user s = MErr AlreadyMappedPage s' \<and> entry s r (va div page_size) \<noteq> None \<and> changed s s' r (entry s r) {}) \<or>
      (\<exists>s'. vm_map r va pa page_size perms user s = MErr OutOfMemory s' \<and> length (freelist s) < 2 \<and> freelist s' = [] \<and> changed s s' r (entry s r) {})) \<and>
    (\<forall>e. entry s r (va div page_size) = Some e \<and> freeable s r (pte_ppn e) \<longrightarrow>
      (\<exists>s'. vm_unmap r va 1 True s = MOk () s' \<and> changed s s' r (without (entry s r) {va div page_size}) {pte_ppn e})) \<and>
    ((\<forall>v < 512 ^ 3. entry s r v = None) \<longrightarrow> (\<exists>s'. freeWalk 3 r s = MOk () s' \<and> freed s s' (tables s r) (tables s r)))"
proof (intro conjI allI impI)
  show "(\<exists>s'. vm_map r va pa page_size perms user s = MOk () s' \<and> entry s r (va div page_size) = None \<and>
         changed s s' r ((entry s r)(va div page_size \<mapsto> leaf pa perms user)) {}) \<or>
      (\<exists>s'. vm_map r va pa page_size perms user s = MErr AlreadyMappedPage s' \<and> entry s r (va div page_size) \<noteq> None \<and> changed s s' r (entry s r) {}) \<or>
      (\<exists>s'. vm_map r va pa page_size perms user s = MErr OutOfMemory s' \<and> length (freelist s) < 2 \<and> freelist s' = [] \<and> changed s s' r (entry s r) {})"
    using map_page [OF assms(1-4) refl pa] unfolding grown_changed by blast
next
  fix e assume e: "entry s r (va div page_size) = Some e \<and> freeable s r (pte_ppn e)"
  have "va div page_size < 2 ^ 26" using va(1) by (simp add: max_virtual_address_def page_size_def less_mult_imp_div_less)
  then have "va + page_size * 1 \<le> max_virtual_address"
    using va(2) mult_div_mod_eq [of page_size va] by (simp add: max_virtual_address_def page_size_def)
  then show "\<exists>s'. vm_unmap r va 1 True s = MOk () s' \<and> changed s s' r (without (entry s r) {va div page_size}) {pte_ppn e}"
    using unmap_spec [OF assms(1,2) va(2), of 1 "\<lambda>_. e" True] e by (simp add: lessThan_Suc)
next
  assume "\<forall>v < 512 ^ 3. entry s r v = None"
  then show "\<exists>s'. freeWalk 3 r s = MOk () s' \<and> freed s s' (tables s r) (tables s r)" using freeWalk_tree [OF assms(1,2)] by blast
qed

text \<open>A memory of zeroed pages: page 8 is the root, three pages are free.\<close>

definition small_ram :: phys where
  "small_ram = \<lparr>ram = (\<lambda>_. replicate page_size NUL), freelist = [9, 10, 11], page_lo = 8, page_hi = 12\<rparr>"

lemma small_ram_ok: "mem_ok small_ram" "space small_ram 8" "entry small_ram 8 v = None" "tables small_ram 8 = {8}"
proof -
  show ok: "mem_ok small_ram" by (simp add: small_ram_def mem_ok_def sized_def)
  show "space small_ram 8" "entry small_ram 8 v = None" "tables small_ram 8 = {8}" by (rule empty_tree [OF ok]; simp add: small_ram_def)+
qed

theorem page_table_is_map_witness:
  "(\<exists>s'. vm_map 8 0x7000 0xB000 page_size (True, True, False) True small_ram = MOk () s' \<and> entry s' 8 7 = Some (leaf 0xB000 (True, True, False) True)) \<and>
   (\<exists>s'. freeWalk 3 8 small_ram = MOk () s' \<and> set (freelist s') = {8, 9, 10, 11})"
proof -
  have v: "0x7000 < max_virtual_address" "(0x7000 :: nat) mod page_size = 0" "(0xB000 :: nat) div page_size < 2 ^ 44" "(True, True, False) \<noteq> no_perms"
    "(0x7000 :: nat) div page_size = 7" by (simp_all add: max_virtual_address_def page_size_def no_perms_def)
  note P = page_table_is_map [OF small_ram_ok(1,2) v(1-4), of True, unfolded v(5)]
  have "\<exists>s'. freeWalk 3 8 small_ram = MOk () s' \<and> freed small_ram s' {8} {8}" using P small_ram_ok(3,4) by simp
  then have f: "\<exists>s'. freeWalk 3 8 small_ram = MOk () s' \<and> set (freelist s') = {8, 9, 10, 11}" by (auto simp: freed_def small_ram_def)
  have l: "\<not> length (freelist small_ram) < 2" by (simp add: small_ram_def)
  show ?thesis using P f small_ram_ok(3) l by (auto simp: changed_def)
qed

end
