(* ===== verification/Spec2Isabelle.thy ===== *)
theory Spec2Isabelle
  imports Umalloc Tools Ls Grind Shrun Kdesc Riscv Rbc Rbtest Pb Utkernel Utdrive Kopen Kpage
begin

text \<open>
  User programs and system calls of zigmaos, a teaching kernel in Zig with the C user programs of xv6.

  \<^bold>\<open>The program.\<close>  A user program is C code over a small C library (\<^verbatim>\<open>src/user/ulib\<close>).  It reaches the
  kernel through the system calls declared in \<^verbatim>\<open>src/user/user.h\<close>.  The kernel keeps, for every process, a
  table of 16 descriptors that refer to a global table of open files (\<^verbatim>\<open>src/kernel/filesystem/file.zig\<close>);
  an open file is the end of a pipe (\<^verbatim>\<open>pipe.zig\<close>), an inode with an offset (\<^verbatim>\<open>inode.zig\<close>) or a device
  (\<^verbatim>\<open>drivers/console.zig\<close>).  Inodes have names: a directory (\<^verbatim>\<open>directory.zig\<close>) is a file of entries, paths are resolved from the
  root or the current directory, and the calls of \<^verbatim>\<open>traps/sysfile.zig\<close> add and remove names.  Beside descriptors there are named ring buffers (\<^verbatim>\<open>datastructures/ringbuf.zig\<close>): at most
  two processes own one, each has its pages mapped twice in a row, and a user library
  (\<^verbatim>\<open>ulib/uringbuf.zig\<close>) moves data through them without system calls.  \<^verbatim>\<open>usertests.c\<close> and the small
  \<^verbatim>\<open>rb\<close> programs test the kernel.

  \<^bold>\<open>How the two sides are put together.\<close>  A program is a tree of system calls (\<open>prog\<close>, theory \<open>Prog\<close>); a
  kernel is a record of answers, and \<open>run\<close> executes one against the other.  Three kinds of statement
  follow from this: what a program does in the kernel that is modelled here (\<open>cat\<close>, \<open>wc\<close>, \<open>grep\<close>, the
  wiring of the shell's pipelines and redirections, the tests \<open>writebig\<close> and \<open>reopen\<close>), what it does for any answers (\<open>crash_free\<close>), and what
  the pieces compute by themselves.  The locales \<open>sink\<close>, \<open>stdio\<close> and \<open>console\<close> (theory \<open>Stdio\<close>) are the
  contract between filters and files; theory \<open>Kfile\<close> interprets them for regular files and for pipes.
  Programs whose processes share memory or a pipe (\<open>rb.c\<close>, \<open>pb.c\<close>) are step relations over the joint state; the
  driver of the tests is run with children that end before their parent goes on (\<open>turns\<close>).

  \<^bold>\<open>Theories.\<close>
  \<^item> \<open>Prelude\<close>: memory as a list of bytes, C strings, slices, machine integers.
  \<^item> \<open>Ulib\<close>, \<open>Stdio\<close> (\<^verbatim>\<open>ulib.c\<close>), \<open>Printf\<close> (\<^verbatim>\<open>printf.c\<close> and the C interface of \<^verbatim>\<open>ulog.zig\<close>), \<open>Umalloc\<close>
    (\<^verbatim>\<open>umalloc.c\<close>): the C library.  Strings and copies are compared with their mathematical meaning, formatted
    output with the text it writes; the allocator keeps a sorted circular free list, and its blocks stay disjoint.
  \<^item> \<open>Grep\<close>, \<open>Tools\<close>, \<open>Ls\<close>, \<open>Grind\<close>: the programs of \<^verbatim>\<open>src/user\<close>, one definition per function or loop.
  \<^item> \<open>Sh\<close>, \<open>Shrun\<close>: the shell, first tokens, parser and \<open>nulterminate\<close>, then execution.
  \<^item> \<open>Kpipe\<close>, \<open>Kinode\<close>, \<open>Kfile\<close>, \<open>Kdesc\<close>: pipes as bounded queues, inode data as byte sequences, open files and
    descriptors with their reference counts, and what \<open>open\<close>, \<open>fork\<close> and \<open>exit\<close> do to them.
  \<^item> \<open>Kdir\<close>, \<open>Kpath\<close>, \<open>Kitab\<close>: directories as finite maps from names to inode numbers (locale \<open>name_table\<close>), the elements of a path, and the table
    of inodes in memory with their reference counts and locks, next to the inodes on the disk.  \<open>Ktree\<close> is the abstract file system,
    a tree with its invariant \<open>tree_inv\<close> (every directory but the root has one name, link counts are numbers of names,
    \<open>..\<close> leads to the root) and the steps that keep it.  \<open>Kwalk\<close> shows that path resolution is a walk in this tree, \<open>Kfs\<close> that
    \<open>link\<close>, \<open>unlink\<close>, \<open>create\<close>, \<open>mkdir\<close>, \<open>mknod\<close> and \<open>chdir\<close> are its steps, on every branch, and \<open>Kcalls\<close> puts calls in sequence.  \<open>Kopen\<close> is \<open>open\<close> on
    inodes.  A call returns a value with the new state, or it is \<open>Panic\<close>, or \<open>Deadlock\<close> when the process waits for a lock of its
    own; the three ways to get there that the code has are theorems.
  \<^item> \<open>Kpage\<close>: physical memory as pages of bytes, the list of free pages, page-table entries as 64 bits and three-level page tables.  A tree of tables
    is a map from virtual pages to entries; \<open>walk\<close>, \<open>map\<close>, \<open>unmap\<close> and \<open>freeWalk\<close> keep it one, and no page is shared or lost.
  \<^item> \<open>Kringbuf\<close>, \<open>Kringsafe\<close>: the kernel's table of ring buffers, with the pages of the kernel and the mappings of every process; a call keeps
    the table valid and loses no page, a process reaches only what it owns, and the two ways in which a failing
    \<open>open\<close> goes wrong.  \<open>Ringbuf\<close>: the user library and the FIFO queue it implements under every interleaving.
  \<^item> \<open>Rbc\<close>, \<open>Pb\<close>: the benchmarks over ring buffers and pipes; \<open>Rbtest\<close>: two ring-buffer tests, run on the kernel's table.
  \<^item> \<open>Utest\<close> (files), \<open>Utdir\<close> (directories), \<open>Utproc\<close> (processes and pipes): 42 tests of \<^verbatim>\<open>usertests.c\<close> as programs.  \<open>Usertests\<close> shows which of them
    cannot fault, \<open>Utkernel\<close> runs \<open>writebig\<close> on the kernel's files, \<open>Utdrive\<close> is the driver and its verdict.
  \<^item> \<open>Riscv\<close>: the legacy headers (registers, page tables, memory and disk layout).

  \<^bold>\<open>Errors, bounds and fuel.\<close>  A load or store outside a C object is \<open>None\<close> in the library and \<open>Crash\<close> in a
  program; a Zig panic is \<open>None\<close> (or \<open>Panic\<close>) in the kernel, and so is the underflow of a counter, which is illegal behaviour in Zig; a system call that sleeps is \<open>Blocked\<close>.  Loops that
  end on their own are total functions; a loop over input takes fuel, and the theorems say how much is enough
  (more than the length of the input for the filters, of the line for the shell's parser, of the number of blocks for \<open>writebig\<close>).  The loops of the allocator
  are partial functions, shown to end on every well-formed heap.  A loop without an exit is \<open>OutOfFuel\<close> with every
  fuel.  Counters of a test are unbounded integers: they would wrap after 2^31 rounds of a loop.

  \<^bold>\<open>Not modelled.\<close>  The tests of \<^verbatim>\<open>usertests.c\<close> that pass wild pointers or touch memory (\<open>copyin\<close>, the \<open>sbrk\<close> tests,
  \<open>stacktest\<close> and the like) need the memory of a process, and \<^verbatim>\<open>rb_basic.c\<close>, \<^verbatim>\<open>rb_spsc_test.c\<close> and \<^verbatim>\<open>rb_wipe.c\<close> store through mapped
  pointers; the descriptor table of \<^verbatim>\<open>uringbuf.zig\<close> starts with undefined contents.  The kernel's
  user memory (growth, copying, \<open>sbrk\<close>), block cache and log, scheduler, traps and drivers lie behind the interface modelled here, as do
  \<open>exec\<close> and the console's input handler.  Whether \<open>getBlock\<close> finds or allocates a block is the parameter \<open>gb\<close>, for every inode and every
  call anew; the bytes that \<open>@memcpy\<close> leaves behind a name in an entry are the parameter \<open>pad\<close>.  The calls on names are those
  of one process at a time, on the root device, and transactions are left out; \<open>sys_open\<close> of \<open>Kdesc\<close>, which is about descriptors,
  has the inode as a parameter.  An operation
  that the kernel runs under its locks is one step; a system call that wakes a sleeping process has no further
  effect on the state.
\<close>

end
